(* ===== verification/Prelude.thy ===== *)
theory Prelude
  imports Main "HOL-Library.Word"
begin

unbundle bit_operations_syntax

text \<open>
  Shared vocabulary of the development: the machine integers of the Cortex-M4, the two
  read-modify-write idioms the drivers use on 32-bit registers, little-endian access to a
  byte-addressed memory, and the generic facts on words and lists the components share.
\<close>

section \<open>Machine integers\<close>

type_synonym u8 = "8 word"
type_synonym u16 = "16 word"
type_synonym u32 = "32 word"

named_theorems state_defs \<open>definitions of small state updates, unfolded to compute a state\<close>
named_theorems frame \<open>what an operation leaves alone\<close>

lemma unat_u8_lt [simp]: "unat (a :: u8) < 256"
  using unsigned_less [of a, where ?'a = nat] by simp

lemma unat_u16_lt [simp]: "unat (a :: u16) < 65536"
  using unsigned_less [of a, where ?'a = nat] by simp

lemma unat_u32_lt [simp]: "unat (a :: u32) < 4294967296"
  using unsigned_less [of a, where ?'a = nat] by simp

lemma unat_ucast_u16_u8: "unat (ucast (w :: u16) :: u8) = unat w mod 256"
  by (simp add: unsigned_ucast_eq take_bit_eq_mod)

lemma unat_ucast_u8_u16: "unat (ucast (w :: u8) :: u16) = unat w"
  using unat_u8_lt [of w] by (simp add: unsigned_ucast_eq take_bit_eq_mod del: unat_u8_lt)

lemma unat_ucast_u16_u32: "unat (ucast (w :: u16) :: u32) = unat w"
  using unat_u16_lt [of w] by (simp add: unsigned_ucast_eq take_bit_eq_mod del: unat_u16_lt)

lemma unat_ucast_u32_u16: "unat (ucast (w :: u32) :: u16) = unat w mod 65536"
  by (simp add: unsigned_ucast_eq take_bit_eq_mod)

lemmas unat_ucasts = unat_ucast_u16_u8 unat_ucast_u8_u16 unat_ucast_u16_u32 unat_ucast_u32_u16

lemma unat_of_nat_u32: "n < 4294967296 \<Longrightarrow> unat (of_nat n :: u32) = n"
  by (simp add: unsigned_of_nat take_bit_nat_eq_self)

text \<open>A counter that does not wrap.\<close>

lemma word_step:
  fixes a :: u32
  assumes "a + 1 \<noteq> 0"
  shows "a < a + 1" "x < a + 1 \<longleftrightarrow> x \<le> a" "a + 1 \<le> x \<longleftrightarrow> a < x"
proof -
  have u: "unat (a + 1) = (unat a + 1) mod 4294967296" by (simp add: unat_word_ariths)
  have "unat (a + 1) \<noteq> 0" using assms by (simp add: unat_eq_zero)
  then have "unat a + 1 < 4294967296" using u unat_u32_lt [of a] 
    by (cases "unat a + 1 = 4294967296") (simp_all del: unat_u32_lt)
  then have "unat (a + 1) = Suc (unat a)" using u by simp
  then show "a < a + 1" "x < a + 1 \<longleftrightarrow> x \<le> a" "a + 1 \<le> x \<longleftrightarrow> a < x"
    by (auto simp: word_less_nat_alt word_le_nat_alt)
qed

section \<open>Register fields\<close>

text \<open>
  The driver idiom \<open>temp &= ~(mask << sh); temp |= v << sh\<close>, and the reading of the
  field it writes.
\<close>

definition rmw :: "u32 \<Rightarrow> nat \<Rightarrow> u32 \<Rightarrow> u32 \<Rightarrow> u32" where
  "rmw msk sh v r = (r AND NOT (push_bit sh msk)) OR push_bit sh v"

definition field :: "u32 \<Rightarrow> nat \<Rightarrow> u32 \<Rightarrow> u32" where
  "field msk sh r = drop_bit sh r AND msk"

lemma bit_mask3: "bit (3 :: u32) n \<longleftrightarrow> n < 2"
proof -
  have "bit (3 :: u32) n \<longleftrightarrow> bit (mask 2 :: u32) n" by (simp add: mask_eq_exp_minus_1)
  also have "\<dots> \<longleftrightarrow> n < 2" unfolding bit_mask_iff by auto
  finally show ?thesis .
qed

lemma bit_mask15: "bit (15 :: u32) n \<longleftrightarrow> n < 4"
proof -
  have "bit (15 :: u32) n \<longleftrightarrow> bit (mask 4 :: u32) n" by (simp add: mask_eq_exp_minus_1)
  also have "\<dots> \<longleftrightarrow> n < 4" unfolding bit_mask_iff by auto
  finally show ?thesis .
qed

text \<open>Writing a field of width \<open>w\<close>: the field holds the value, other fields stay.\<close>

lemma bit_rmw:
  assumes "\<And>n. bit msk n \<longleftrightarrow> n < w" and "v AND msk = v" and "n < 32"
  shows "bit (rmw msk sh v r) n = (if sh \<le> n \<and> n < sh + w then bit v (n - sh) else bit r n)"
proof -
  have v: "bit v k \<Longrightarrow> k < w" for k
    using assms(1,2) by (metis bit_and_iff)
  have a: "bit (push_bit sh v) n \<longleftrightarrow> sh \<le> n \<and> n < sh + w \<and> bit v (n - sh)"
    using v [of "n - sh"] assms(3) by (auto simp: bit_push_bit_iff)
  have b: "bit (push_bit sh msk) n \<longleftrightarrow> sh \<le> n \<and> n < sh + w"
    using assms(1) [of "n - sh"] assms(3) by (auto simp: bit_push_bit_iff)
  show ?thesis
    using assms(3) by (auto simp: rmw_def bit_or_iff bit_and_iff bit_not_iff a b)
qed

lemma bit_field:
  assumes "\<And>n. bit msk n \<longleftrightarrow> n < w"
  shows "bit (field msk sh r) n \<longleftrightarrow> n < w \<and> bit r (sh + n)"
  using assms [of n] by (auto simp: field_def bit_drop_bit_eq bit_and_iff)

lemma field_rmw_same:
  assumes m: "\<And>n. bit msk n \<longleftrightarrow> n < w" and v: "v AND msk = v" and "sh + w \<le> 32"
  shows "field msk sh (rmw msk sh v r) = v"
proof (rule bit_word_eqI)
  fix n assume "n < LENGTH(32)"
  have vw: "bit v n \<Longrightarrow> n < w"
    using m v by (metis bit_and_iff)
  have "n < w \<Longrightarrow> sh + n < 32" using assms(3) by simp
  then show "bit (field msk sh (rmw msk sh v r)) n = bit v n"
    using vw bit_rmw [OF m v, of "sh + n" sh r] by (auto simp: bit_field [OF m])
qed

lemma field_rmw_other:
  assumes m: "\<And>n. bit msk n \<longleftrightarrow> n < w" and v: "v AND msk = v"
    and d: "sh' + w \<le> sh \<or> sh + w \<le> sh'" and "sh' + w \<le> 32"
  shows "field msk sh' (rmw msk sh v r) = field msk sh' r"
proof (rule bit_word_eqI)
  fix n assume "n < LENGTH(32)"
  have "n < w \<Longrightarrow> sh' + n < 32" using assms(4) by simp
  then show "bit (field msk sh' (rmw msk sh v r)) n = bit (field msk sh' r) n"
    using d bit_rmw [OF m v, of "sh' + n" sh r] by (auto simp: bit_field [OF m])
qed

section \<open>Byte-addressed memory\<close>

type_synonym memory = "u32 \<Rightarrow> u8"

definition load16 :: "memory \<Rightarrow> u32 \<Rightarrow> u16" where
  "load16 m a = ucast (m a) OR push_bit 8 (ucast (m (a + 1)))"

definition store32 :: "memory \<Rightarrow> u32 \<Rightarrow> u32 \<Rightarrow> memory" where
  "store32 m a v = m(a := ucast v, a + 1 := ucast (drop_bit 8 v),
     a + 2 := ucast (drop_bit 16 v), a + 3 := ucast (drop_bit 24 v))"

lemma store32_frame [frame]:
  "b \<noteq> a \<Longrightarrow> b \<noteq> a + 1 \<Longrightarrow> b \<noteq> a + 2 \<Longrightarrow> b \<noteq> a + 3 \<Longrightarrow> store32 m a v b = m b"
  by (simp add: store32_def)

lemma store32_at:
  "store32 m a v a = ucast v" "store32 m a v (a + 1) = ucast (drop_bit 8 v)"
  by (simp_all add: store32_def)

lemma load16_store32: "load16 (store32 m a v) a = ucast v"
proof (rule bit_word_eqI)
  fix n assume "n < LENGTH(16)"
  then show "bit (load16 (store32 m a v) a) n = bit (ucast v :: u16) n"
    by (auto simp: load16_def store32_at bit_or_iff bit_push_bit_iff bit_ucast_iff
        bit_drop_bit_eq dest: bit_imp_le_length)
qed

text \<open>\<open>memcpy\<close>: the bytes at an address, and their replacement.\<close>

definition read_bytes :: "memory \<Rightarrow> u32 \<Rightarrow> nat \<Rightarrow> u8 list" where
  "read_bytes m a n = map (\<lambda>i. m (a + of_nat i)) [0..<n]"

definition write_bytes :: "memory \<Rightarrow> u32 \<Rightarrow> u8 list \<Rightarrow> memory" where
  "write_bytes m a bs = (\<lambda>x. if unat (x - a) < length bs then bs ! unat (x - a) else m x)"

lemma length_read_bytes [simp]: "length (read_bytes m a n) = n"
  by (simp add: read_bytes_def)

lemma read_bytes_append: "read_bytes m a (n + k) = read_bytes m a n @ read_bytes m (a + of_nat n) k"
  unfolding read_bytes_def
  by (rule nth_equalityI) (auto simp: nth_append nth_upt algebra_simps intro!: arg_cong [of _ _ m])

lemma read_write_same:
  "length bs \<le> 4294967296 \<Longrightarrow> read_bytes (write_bytes m a bs) a (length bs) = bs"
  by (rule nth_equalityI) (simp_all add: read_bytes_def write_bytes_def unat_of_nat_u32)

lemma read_write_other [frame]:
  "(\<And>i. i < n \<Longrightarrow> length bs \<le> unat (b + of_nat i - a)) \<Longrightarrow>
    read_bytes (write_bytes m a bs) b n = read_bytes m b n"
  by (fastforce simp: read_bytes_def write_bytes_def)

section \<open>Generic facts\<close>

text \<open>Two places of a ring of \<open>L\<close> places that are less than a round apart.\<close>

lemma mod_apart: "a < b \<Longrightarrow> b < a + L \<Longrightarrow> a mod L \<noteq> b mod (L :: nat)"
  using mod_eq_dvd_iff_nat [of a b L] by (auto dest!: dvd_imp_le)

text \<open>
  A loop that visits distinct positions and changes only what belongs to the visited
  position: what is observed at \<open>k\<close> afterwards is what the visit of \<open>k\<close> left.
\<close>

lemma fold_observe:
  assumes "\<And>j s. j \<in> set js \<Longrightarrow> j \<noteq> k \<Longrightarrow> obs (step j s) = obs s"
    and "distinct js" and "\<And>s. k \<in> set js \<Longrightarrow> obs (step k s) = F (obs s)"
  shows "obs (fold step js s) = (if k \<in> set js then F (obs s) else obs s)"
  using assms
proof (induction js arbitrary: s)
  case Nil
  then show ?case by simp
next
  case (Cons j js)
  have IH: "obs (fold step js t) = (if k \<in> set js then F (obs t) else obs t)" for t
    using Cons by simp
  show ?case
  proof (cases "j = k")
    case True
    then show ?thesis using IH [of "step j s"] Cons.prems by simp
  next
    case False
    then show ?thesis using IH [of "step j s"] Cons.prems(1) [of j s] by auto
  qed
qed

lemma fold_invariant:
  assumes "\<And>j s. j \<in> set js \<Longrightarrow> obs (step j s) = obs s"
  shows "obs (fold step js s) = obs s"
  using assms by (induction js arbitrary: s) auto

lemma map_nth_upt_take: "n \<le> length xs \<Longrightarrow> map ((!) xs) [0..<n] = take n xs"
  by (rule nth_equalityI) auto

end
