(* ===== verification/CLib.thy ===== *)
theory CLib
  imports Prelude
begin

text \<open>
  The functions of the C library the firmware calls on text: \<open>strncpy\<close>, \<open>strncmp\<close>,
  \<open>memset\<close> and \<open>sscanf\<close> with integer conversions. A buffer is the list of its bytes;
  an access outside it is undefined behaviour and gives \<open>None\<close>. Decimal printing
  (\<open>%d\<close>) is here too, with the round trip printing-then-scanning.
\<close>

abbreviation NUL :: char where "NUL \<equiv> CHR 0x00"

section \<open>\<open>strncmp\<close>, \<open>strncpy\<close>, \<open>memset\<close>\<close>

fun strncmp :: "string \<Rightarrow> string \<Rightarrow> nat \<Rightarrow> int option" where
  "strncmp s t 0 = Some 0"
| "strncmp (a # s) (b # t) (Suc n) =
     (if a \<noteq> b then Some (of_char a - of_char b)
      else if a = NUL then Some 0 else strncmp s t n)"
| "strncmp _ _ (Suc n) = None"

fun strncpy_bytes :: "string \<Rightarrow> nat \<Rightarrow> string option" where
  "strncpy_bytes s 0 = Some []"
| "strncpy_bytes [] (Suc n) = None"
| "strncpy_bytes (c # s) (Suc n) =
     (if c = NUL then Some (replicate (Suc n) NUL) else map_option (Cons c) (strncpy_bytes s n))"

definition strncpy :: "string \<Rightarrow> string \<Rightarrow> nat \<Rightarrow> string option" where
  "strncpy dst src n =
     (if n \<le> length dst then map_option (\<lambda>d. d @ drop n dst) (strncpy_bytes src n) else None)"

definition memset :: "string \<Rightarrow> char \<Rightarrow> nat \<Rightarrow> string option" where
  "memset dst c n = (if n \<le> length dst then Some (replicate n c @ drop n dst) else None)"

lemma strncmp_zero_iff:
  "NUL \<notin> set (take n t) \<Longrightarrow> n \<le> length t \<Longrightarrow> n \<le> length s \<Longrightarrow>
   strncmp s t n = Some 0 \<longleftrightarrow> take n s = take n t"
proof (induction s t n rule: strncmp.induct)
  case (2 a s b t n)
  have "(of_char a :: int) - of_char b = 0 \<longleftrightarrow> a = b"
    by (simp only: eq_iff_diff_eq_0 [symmetric] of_char_eq_iff)
  with 2 show ?case by (cases "a = b") auto
qed auto

lemma strncmp_defined:
  "n \<le> length t \<Longrightarrow> n \<le> length s \<Longrightarrow> \<exists>r. strncmp s t n = Some r"
  by (induction s t n rule: strncmp.induct) auto

lemma strncpy_bytes_length: "strncpy_bytes s n = Some d \<Longrightarrow> length d = n"
  by (induction s n arbitrary: d rule: strncpy_bytes.induct) (auto split: if_splits)

lemma strncpy_length: "strncpy dst src n = Some d \<Longrightarrow> length d = length dst"
  by (auto simp: strncpy_def split: if_splits dest: strncpy_bytes_length)

lemma strncpy_bytes_plain:
  "NUL \<notin> set (take n s) \<Longrightarrow> n \<le> length s \<Longrightarrow> strncpy_bytes s n = Some (take n s)"
  by (induction s n rule: strncpy_bytes.induct) auto

lemma strncpy_bytes_defined: "n \<le> length s \<Longrightarrow> \<exists>d. strncpy_bytes s n = Some d"
  by (induction s n rule: strncpy_bytes.induct) auto

section \<open>Decimal numbers\<close>

definition digit_char :: "nat \<Rightarrow> char" where
  "digit_char d = char_of (48 + d)"

definition is_digit :: "char \<Rightarrow> bool" where
  "is_digit c \<longleftrightarrow> 48 \<le> (of_char c :: nat) \<and> (of_char c :: nat) \<le> 57"

definition digit_val :: "char \<Rightarrow> nat" where
  "digit_val c = of_char c - 48"

definition is_space :: "char \<Rightarrow> bool" where
  "is_space c \<longleftrightarrow> of_char c \<in> {32 :: nat, 9, 10, 11, 12, 13}"

fun show_nat :: "nat \<Rightarrow> string" where
  "show_nat n = (if n < 10 then [digit_char n] else show_nat (n div 10) @ [digit_char (n mod 10)])"

declare show_nat.simps [simp del]

text \<open>The value a run of digits adds to an accumulator, and the rest after the run.\<close>

fun scan_digits :: "nat \<Rightarrow> string \<Rightarrow> nat \<times> string" where
  "scan_digits acc [] = (acc, [])"
| "scan_digits acc (c # s) =
     (if is_digit c then scan_digits (acc * 10 + digit_val c) s else (acc, c # s))"

text \<open>
  One \<open>%d\<close>: leading white space, an optional sign, at least one digit. \<open>None\<close> is a
  matching failure.
\<close>

definition scan_unsigned :: "string \<Rightarrow> (nat \<times> string) option" where
  "scan_unsigned s = (case s of c # _ \<Rightarrow> if is_digit c then Some (scan_digits 0 s) else None
     | [] \<Rightarrow> None)"

definition scan_int :: "string \<Rightarrow> (int \<times> string) option" where
  "scan_int s =
    (case dropWhile is_space s of
       [] \<Rightarrow> None
     | c # t \<Rightarrow>
         if c = CHR ''-'' then map_option (\<lambda>(v, r). (- int v, r)) (scan_unsigned t)
         else if c = CHR ''+'' then map_option (\<lambda>(v, r). (int v, r)) (scan_unsigned t)
         else map_option (\<lambda>(v, r). (int v, r)) (scan_unsigned (c # t)))"

text \<open>
  \<open>sscanf\<close> of a format made of \<open>%d\<close> and literal characters on the text before the first
  NUL: the values converted before the first failure, in order. The number of conversions
  the C function returns is the length of this list (or EOF, when the text ends before the
  first conversion; the callers only compare with 5). A buffer without NUL is read past its
  end: \<open>None\<close>.
\<close>

datatype fmt = Dec | Lit char

fun sscanf_text :: "string \<Rightarrow> fmt list \<Rightarrow> int list" where
  "sscanf_text s [] = []"
| "sscanf_text s (Dec # fs) =
     (case scan_int s of None \<Rightarrow> [] | Some (v, r) \<Rightarrow> v # sscanf_text r fs)"
| "sscanf_text [] (Lit c # fs) = []"
| "sscanf_text (a # s) (Lit c # fs) = (if a = c then sscanf_text s fs else [])"

definition c_string :: "string \<Rightarrow> string option" where
  "c_string buf = (if NUL \<in> set buf then Some (takeWhile (\<lambda>c. c \<noteq> NUL) buf) else None)"

definition sscanf :: "string \<Rightarrow> fmt list \<Rightarrow> int list option" where
  "sscanf buf fs = map_option (\<lambda>s. sscanf_text s fs) (c_string buf)"

section \<open>Scanning what was printed\<close>

lemma of_char_digit: "d < 10 \<Longrightarrow> (of_char (digit_char d) :: nat) = 48 + d"
  by (simp add: digit_char_def)

lemma digit_char_chars:
  "digit_char 0 = CHR ''0''" "digit_char 1 = CHR ''1''" "digit_char (Suc 0) = CHR ''1''"
  "digit_char 2 = CHR ''2''" "digit_char 3 = CHR ''3''" "digit_char 4 = CHR ''4''"
  "digit_char 5 = CHR ''5''" "digit_char 6 = CHR ''6''" "digit_char 7 = CHR ''7''"
  "digit_char 8 = CHR ''8''" "digit_char 9 = CHR ''9''"
  by (simp_all add: digit_char_def char_of_eq_iff take_bit_eq_mod)

lemma digit_char_simps [simp]:
  "d < 10 \<Longrightarrow> is_digit (digit_char d)" "d < 10 \<Longrightarrow> digit_val (digit_char d) = d"
  "d < 10 \<Longrightarrow> \<not> is_space (digit_char d)"
  by (auto simp: is_digit_def digit_val_def is_space_def of_char_digit)

lemma digit_not_sign: "is_digit c \<Longrightarrow> c \<noteq> CHR ''-'' \<and> c \<noteq> CHR ''+'' \<and> c \<noteq> NUL"
  by (auto simp: is_digit_def)

lemma digits_not_space: "is_digit c \<Longrightarrow> \<not> is_space c"
  by (auto simp: is_digit_def is_space_def)

lemma show_nat_digits: "\<forall>c \<in> set (show_nat n). is_digit c"
proof (induction n rule: show_nat.induct)
  case (1 n)
  then show ?case by (cases "n < 10") (auto simp: show_nat.simps [of n])
qed

lemma show_nat_nonempty [simp]: "show_nat n \<noteq> []"
  by (subst show_nat.simps) simp

lemma scan_digits_append:
  assumes "\<forall>c \<in> set ds. is_digit c" and "rest = [] \<or> \<not> is_digit (hd rest)"
  shows "scan_digits acc (ds @ rest) = (foldl (\<lambda>a c. a * 10 + digit_val c) acc ds, rest)"
  using assms
proof (induction ds arbitrary: acc)
  case Nil
  then show ?case by (cases rest) auto
qed auto

lemma show_nat_value: "foldl (\<lambda>a c. a * 10 + digit_val c) 0 (show_nat n) = n"
proof (induction n rule: show_nat.induct)
  case (1 n)
  then show ?case by (cases "n < 10") (simp_all add: show_nat.simps [of n])
qed

lemma scan_int_show_nat:
  assumes "rest = [] \<or> \<not> is_digit (hd rest)"
  shows "scan_int (show_nat n @ rest) = Some (int n, rest)"
proof -
  obtain c cs where s: "show_nat n = c # cs" by (cases "show_nat n") auto
  have c: "is_digit c" using show_nat_digits [of n] s by simp
  have "scan_digits 0 (show_nat n @ rest) = (n, rest)"
    using scan_digits_append [OF show_nat_digits assms, where acc = 0] by (simp add: show_nat_value)
  then show ?thesis
    using c digit_not_sign [OF c] digits_not_space [OF c]
    by (auto simp: scan_int_def scan_unsigned_def s)
qed

lemma NUL_not_in_show_nat [simp]: "NUL \<notin> set (show_nat n)"
  using show_nat_digits digit_not_sign by blast

lemma c_string_pad:
  "NUL \<notin> set s \<Longrightarrow> 0 < k \<Longrightarrow> c_string (s @ replicate k NUL) = Some s"
  by (cases k) (auto simp: c_string_def takeWhile_append)

lemma c_string_append: "NUL \<notin> set s \<Longrightarrow> c_string (s @ NUL # t) = Some s"
  by (auto simp: c_string_def takeWhile_append)

lemma length_show_nat: "n < 10 ^ k \<Longrightarrow> 0 < k \<Longrightarrow> length (show_nat n) \<le> k"
proof (induction n arbitrary: k rule: show_nat.induct)
  case (1 n)
  show ?case
  proof (cases "n < 10")
    case True
    with "1.prems" show ?thesis by (simp add: show_nat.simps [of n])
  next
    case False
    with "1.prems" have k: "1 < k" by (cases k; cases "k - 1") auto
    then obtain j where j: "k = Suc j" "0 < j" by (cases k) auto
    have "n div 10 < 10 ^ j" using "1.prems"(1) j by (simp add: less_mult_imp_div_less mult.commute)
    with "1.IH" [OF False] j have "length (show_nat (n div 10)) \<le> j" by blast
    with False j show ?thesis by (simp add: show_nat.simps [of n])
  qed
qed

section \<open>Polling loops\<close>

text \<open>
  \<open>while (poll() == busy);\<close> over the answers the peripheral will give, in order: the loop
  stops at the first answer that satisfies \<open>stop\<close> and leaves the rest; \<open>None\<close> when it has
  not stopped.
\<close>

fun poll_until :: "('a \<Rightarrow> bool) \<Rightarrow> 'a list \<Rightarrow> 'a list option" where
  "poll_until stop [] = None"
| "poll_until stop (x # xs) = (if stop x then Some xs else poll_until stop xs)"

lemma poll_until_returns: "(\<exists>xs'. poll_until stop xs = Some xs') \<longleftrightarrow> (\<exists>x \<in> set xs. stop x)"
  by (induction xs) auto

end
