(* ===== verification/HalDef.thy ===== *)
theory HalDef
  imports Prelude
begin

text \<open>
  What the drivers of the vendor library share (stm32f4xx_hal_def.h): the status they return.
  The lock of a handle, \<open>__HAL_LOCK\<close>, is a test of its \<open>Lock\<close> field with the early return
  \<open>HAL_BUSY\<close>; it is written out where it is used.
\<close>

datatype HAL_StatusTypeDef = HAL_OK | HAL_ERROR | HAL_BUSY | HAL_TIMEOUT

end
