(* ===== verification/Eeprom.thy ===== *)
theory Eeprom
  imports CLib HalDef
begin

text \<open>
  The EEPROM routines of User/i2c/bsp_i2c_ee.c over the HAL's blocking I2C calls. The
  device behind \<open>HAL_I2C_Mem_Write\<close> and \<open>HAL_I2C_Mem_Read\<close> is a parameter; the answers of
  the polling calls \<open>HAL_I2C_GetState\<close> and \<open>HAL_I2C_IsDeviceReady\<close> are part of the state,
  in the order in which they will be given. What the routines need of the device is the
  locale \<open>page_memory\<close>: a write inside one page stores its bytes, a read returns
  consecutive cells. The AT24C02, whose internal address counter rolls over inside the
  page of a write, interprets it.
\<close>

datatype HAL_I2C_StateTypeDef = HAL_I2C_STATE_RESET | HAL_I2C_STATE_READY | HAL_I2C_STATE_BUSY

record 'd i2c =
  device :: 'd
  get_state :: "HAL_I2C_StateTypeDef list"
  device_ready :: "HAL_StatusTypeDef list"

type_synonym ('d, 'b) mem_write = "'d \<Rightarrow> u8 \<Rightarrow> 'b list \<Rightarrow> HAL_StatusTypeDef \<times> 'd"
type_synonym ('d, 'b) mem_read = "'d \<Rightarrow> u8 \<Rightarrow> nat \<Rightarrow> HAL_StatusTypeDef \<times> 'b list"

definition EEPROM_PAGESIZE :: nat where
  "EEPROM_PAGESIZE = 8"

section \<open>The routines\<close>

text \<open>The three waiting loops after a write.\<close>

definition wait_i2c_ready :: "'d i2c \<Rightarrow> 'd i2c option" where
  "wait_i2c_ready s = map_option (\<lambda>q. s\<lparr>get_state := q\<rparr>)
     (poll_until (\<lambda>st. st = HAL_I2C_STATE_READY) (get_state s))"

definition wait_device_ready :: "'d i2c \<Rightarrow> 'd i2c option" where
  "wait_device_ready s = map_option (\<lambda>q. s\<lparr>device_ready := q\<rparr>)
     (poll_until (\<lambda>st. st \<noteq> HAL_TIMEOUT) (device_ready s))"

definition after_write :: "'d i2c \<Rightarrow> 'd i2c option" where
  "after_write s =
     Option.bind (wait_i2c_ready s) (\<lambda>s. Option.bind (wait_device_ready s) wait_i2c_ready)"

definition I2C_EE_PageWrite ::
    "('d, 'b) mem_write \<Rightarrow> 'b list \<Rightarrow> u8 \<Rightarrow> u8 \<Rightarrow> 'd i2c \<Rightarrow> (HAL_StatusTypeDef \<times> 'd i2c) option" where
  "I2C_EE_PageWrite write pBuffer WriteAddr NumByteToWrite s =
    (if unat NumByteToWrite \<le> length pBuffer then
       (case write (device s) WriteAddr (take (unat NumByteToWrite) pBuffer) of (status, d) \<Rightarrow>
          map_option (\<lambda>s. (status, s)) (after_write (s\<lparr>device := d\<rparr>)))
     else None)"

definition I2C_EE_ByteWrite ::
    "('d, 'b) mem_write \<Rightarrow> 'b list \<Rightarrow> u8 \<Rightarrow> 'd i2c \<Rightarrow> (HAL_StatusTypeDef \<times> 'd i2c) option" where
  "I2C_EE_ByteWrite write pBuffer WriteAddr s =
    (if 1 \<le> length pBuffer then
       (case write (device s) WriteAddr (take 1 pBuffer) of (status, d) \<Rightarrow>
          map_option (\<lambda>s. (status, s)) (after_write (s\<lparr>device := d\<rparr>)))
     else None)"

text \<open>The loop \<open>while(NumOfPage--)\<close>: the statuses of the page writes are dropped.\<close>

fun write_pages ::
    "('d, 'b) mem_write \<Rightarrow> nat \<Rightarrow> 'b list \<Rightarrow> u8 \<Rightarrow> 'd i2c \<Rightarrow> ('b list \<times> u8 \<times> 'd i2c) option" where
  "write_pages write 0 pBuffer WriteAddr s = Some (pBuffer, WriteAddr, s)"
| "write_pages write (Suc NumOfPage) pBuffer WriteAddr s =
     Option.bind (I2C_EE_PageWrite write pBuffer WriteAddr (of_nat EEPROM_PAGESIZE) s)
       (\<lambda>(_, s). write_pages write NumOfPage (drop EEPROM_PAGESIZE pBuffer)
          (WriteAddr + of_nat EEPROM_PAGESIZE) s)"

text \<open>The loop, then what is left over after the whole pages.\<close>

definition write_pages_and_rest ::
    "('d, 'b) mem_write \<Rightarrow> u8 \<Rightarrow> u8 \<Rightarrow> 'b list \<Rightarrow> u8 \<Rightarrow> 'd i2c \<Rightarrow> 'd i2c option" where
  "write_pages_and_rest write NumOfPage NumOfSingle pBuffer WriteAddr s =
     Option.bind (write_pages write (unat NumOfPage) pBuffer WriteAddr s)
       (\<lambda>(pBuffer, WriteAddr, s).
          if NumOfSingle \<noteq> 0
          then map_option snd (I2C_EE_PageWrite write pBuffer WriteAddr NumOfSingle s)
          else Some s)"

definition I2C_EE_BufferWrite ::
    "('d, 'b) mem_write \<Rightarrow> 'b list \<Rightarrow> u8 \<Rightarrow> u16 \<Rightarrow> 'd i2c \<Rightarrow> 'd i2c option" where
  "I2C_EE_BufferWrite write pBuffer WriteAddr NumByteToWrite s =
    (let Addr = WriteAddr mod of_nat EEPROM_PAGESIZE;
         count = of_nat EEPROM_PAGESIZE - Addr;
         NumOfPage = ucast (NumByteToWrite div of_nat EEPROM_PAGESIZE) :: u8;
         NumOfSingle = ucast (NumByteToWrite mod of_nat EEPROM_PAGESIZE) :: u8
     in if Addr = 0 then
          (if NumOfPage = 0
           then map_option snd (I2C_EE_PageWrite write pBuffer WriteAddr NumOfSingle s)
           else write_pages_and_rest write NumOfPage NumOfSingle pBuffer WriteAddr s)
        else
          (if NumOfPage = 0
           then map_option snd (I2C_EE_PageWrite write pBuffer WriteAddr NumOfSingle s)
           else
             let NumByteToWrite = NumByteToWrite - ucast count;
                 NumOfPage = ucast (NumByteToWrite div of_nat EEPROM_PAGESIZE) :: u8;
                 NumOfSingle = ucast (NumByteToWrite mod of_nat EEPROM_PAGESIZE) :: u8
             in if count \<noteq> 0 then
                  Option.bind (I2C_EE_PageWrite write pBuffer WriteAddr count s)
                    (\<lambda>(_, s). write_pages_and_rest write NumOfPage NumOfSingle
                       (drop (unat count) pBuffer) (WriteAddr + count) s)
                else write_pages_and_rest write NumOfPage NumOfSingle pBuffer WriteAddr s))"

definition I2C_EE_BufferRead ::
    "('d, 'b) mem_read \<Rightarrow> u8 \<Rightarrow> u16 \<Rightarrow> 'd i2c \<Rightarrow> HAL_StatusTypeDef \<times> 'b list" where
  "I2C_EE_BufferRead read ReadAddr NumByteToRead s =
     read (device s) ReadAddr (unat NumByteToRead)"

section \<open>The polling budget\<close>

text \<open>
  Each write consumes two READY answers and one answer other than TIMEOUT; \<open>k\<close> writes
  return when that many are still to come.
\<close>

definition polls_for :: "nat \<Rightarrow> 'd i2c \<Rightarrow> bool" where
  "polls_for k s \<longleftrightarrow>
     2 * k \<le> length (filter (\<lambda>st. st = HAL_I2C_STATE_READY) (get_state s)) \<and>
     k \<le> length (filter (\<lambda>st. st \<noteq> HAL_TIMEOUT) (device_ready s))"

lemma poll_until_budget:
  "Suc m \<le> length (filter stop xs) \<Longrightarrow>
   \<exists>xs'. poll_until stop xs = Some xs' \<and> m \<le> length (filter stop xs')"
  by (induction xs) auto

lemma after_write_returns:
  assumes "polls_for (Suc k) s"
  shows "\<exists>s'. after_write s = Some s' \<and> device s' = device s \<and> polls_for k s'"
proof -
  let ?R = "\<lambda>st. st = HAL_I2C_STATE_READY" and ?D = "\<lambda>st. st \<noteq> HAL_TIMEOUT"
  from assms have "Suc (Suc (2 * k)) \<le> length (filter ?R (get_state s))"
    by (simp add: polls_for_def)
  then obtain q1 where q1: "poll_until ?R (get_state s) = Some q1"
      "Suc (2 * k) \<le> length (filter ?R q1)"
    using poll_until_budget by blast
  then obtain q2 where q2: "poll_until ?R q1 = Some q2" "2 * k \<le> length (filter ?R q2)"
    using poll_until_budget by blast
  from assms have "Suc k \<le> length (filter ?D (device_ready s))"
    by (simp add: polls_for_def)
  then obtain q3 where q3: "poll_until ?D (device_ready s) = Some q3" "k \<le> length (filter ?D q3)"
    using poll_until_budget by blast
  show ?thesis
    using q1 q2 q3
    by (simp add: after_write_def wait_i2c_ready_def wait_device_ready_def polls_for_def)
qed

lemma polls_for_mono: "polls_for k s \<Longrightarrow> j \<le> k \<Longrightarrow> polls_for j s"
  by (auto simp: polls_for_def)

section \<open>What the device promises\<close>

locale page_memory =
  fixes mwrite :: "('d, 'b) mem_write" and mread :: "('d, 'b) mem_read"
    and cell :: "'d \<Rightarrow> nat \<Rightarrow> 'b"
  assumes write_in_page:
      "unat a mod EEPROM_PAGESIZE + length bs \<le> EEPROM_PAGESIZE \<Longrightarrow> b < 256 \<Longrightarrow>
       cell (snd (mwrite d a bs)) b =
         (if unat a \<le> b \<and> b < unat a + length bs then bs ! (b - unat a) else cell d b)"
    and read_cells:
      "unat a + n \<le> 256 \<Longrightarrow> snd (mread d a n) = map (cell d) [unat a..<unat a + n]"
begin

text \<open>\<open>stored d a bs d'\<close>: device \<open>d'\<close> is \<open>d\<close> with \<open>bs\<close> in the cells from \<open>a\<close> on.\<close>

definition stored :: "'d \<Rightarrow> nat \<Rightarrow> 'b list \<Rightarrow> 'd \<Rightarrow> bool" where
  "stored d a bs d' \<longleftrightarrow> (\<forall>b < 256. cell d' b =
     (if a \<le> b \<and> b < a + length bs then bs ! (b - a) else cell d b))"

lemma stored_nil: "stored d a [] d"
  by (auto simp: stored_def)

lemma stored_append:
  assumes "stored d a xs d'" and "stored d' (a + length xs) ys d''"
  shows "stored d a (xs @ ys) d''"
  using assms by (auto simp: stored_def nth_append)

lemma page_write_stored:
  assumes "unat n \<le> length buf" and "unat a mod EEPROM_PAGESIZE + unat n \<le> EEPROM_PAGESIZE"
    and "polls_for (Suc k) s"
  shows "\<exists>st s'. I2C_EE_PageWrite mwrite buf a n s = Some (st, s') \<and>
     stored (device s) (unat a) (take (unat n) buf) (device s') \<and> polls_for k s'"
proof -
  obtain st d where w: "mwrite (device s) a (take (unat n) buf) = (st, d)" by fastforce
  have sd: "stored (device s) (unat a) (take (unat n) buf) d"
    using write_in_page [of a "take (unat n) buf" _ "device s"] assms(1,2) w
    by (simp add: stored_def)
  have "polls_for (Suc k) (s\<lparr>device := d\<rparr>)" using assms(3) by (simp add: polls_for_def)
  then obtain s' where "after_write (s\<lparr>device := d\<rparr>) = Some s'" "device s' = d" "polls_for k s'"
    using after_write_returns by (metis i2c.select_convs(1) i2c.simps(1) i2c.surjective i2c.update_convs(1))
  with sd w assms(1) show ?thesis by (simp add: I2C_EE_PageWrite_def)
qed

lemma write_pages_stored:
  assumes "8 * k \<le> length buf" and "unat a mod 8 = 0" and "unat a + 8 * k \<le> 256"
    and "polls_for (k + j) s"
  shows "\<exists>a' s'. write_pages mwrite k buf a s = Some (drop (8 * k) buf, a', s') \<and>
     unat a + 8 * k = (if unat a + 8 * k = 256 then 256 else unat a') \<and>
     stored (device s) (unat a) (take (8 * k) buf) (device s') \<and> polls_for j s'"
  using assms
proof (induction k arbitrary: buf a s)
  case 0
  then show ?case using unat_u8_lt [of a] by (auto simp: stored_nil)
next
  case (Suc k)
  have n8: "unat (8 :: u8) = 8" by simp
  have "unat a mod EEPROM_PAGESIZE + unat (8 :: u8) \<le> EEPROM_PAGESIZE"
    using Suc.prems(2) by (simp add: EEPROM_PAGESIZE_def)
  moreover have "unat (8 :: u8) \<le> length buf" using Suc.prems(1) by simp
  ultimately obtain st s1 where
    p: "I2C_EE_PageWrite mwrite buf a 8 s = Some (st, s1)"
       "stored (device s) (unat a) (take 8 buf) (device s1)" "polls_for (k + j) s1"
    using page_write_stored [of 8 buf a "k + j" s] Suc.prems(4) by auto
  show ?case
  proof (cases "k = 0")
    case True
    with p Suc.prems show ?thesis
      by (auto simp: EEPROM_PAGESIZE_def unat_word_ariths)
  next
    case False
    with Suc.prems have lt: "unat a + 8 < 256" by simp
    then have a8: "unat (a + 8) = unat a + 8" by (simp add: unat_word_ariths)
    from Suc.prems have "8 * k \<le> length (drop 8 buf)" "unat (a + 8) mod 8 = 0"
        "unat (a + 8) + 8 * k \<le> 256"
      by (auto simp: a8)
    from Suc.IH [OF this p(3)] obtain a' s' where
      q: "write_pages mwrite k (drop 8 buf) (a + 8) s1 = Some (drop (8 * k) (drop 8 buf), a', s')"
         "unat (a + 8) + 8 * k = (if unat (a + 8) + 8 * k = 256 then 256 else unat a')"
         "stored (device s1) (unat (a + 8)) (take (8 * k) (drop 8 buf)) (device s')" "polls_for j s'"
      by blast
    have "length (take 8 buf) = 8" using Suc.prems(1) by simp
    with stored_append [OF p(2), of "take (8 * k) (drop 8 buf)" "device s'"] q(3)
    have "stored (device s) (unat a) (take (8 * Suc k) buf) (device s')"
      by (simp add: a8 take_add)
    with p q show ?thesis
      by (simp add: EEPROM_PAGESIZE_def a8 add.commute add.left_commute)
  qed
qed

lemma write_pages_and_rest_stored:
  assumes "8 * unat np + unat ns \<le> length buf" and "unat a mod 8 = 0" and "unat ns < 8"
    and "unat a + 8 * unat np + unat ns \<le> 256" and "polls_for (Suc (unat np)) s"
  shows "\<exists>s'. write_pages_and_rest mwrite np ns buf a s = Some s' \<and>
     stored (device s) (unat a) (take (8 * unat np + unat ns) buf) (device s')"
proof -
  have "8 * unat np \<le> length buf" "unat a + 8 * unat np \<le> 256" using assms(1,4) by simp_all
  then obtain a' s1 where
    p: "write_pages mwrite (unat np) buf a s = Some (drop (8 * unat np) buf, a', s1)"
       "unat a + 8 * unat np = (if unat a + 8 * unat np = 256 then 256 else unat a')"
       "stored (device s) (unat a) (take (8 * unat np) buf) (device s1)" "polls_for 1 s1"
    using write_pages_stored [of "unat np" buf a 1 s] assms(2,5) by auto
  show ?thesis
  proof (cases "ns = 0")
    case True
    with p show ?thesis by (simp add: write_pages_and_rest_def)
  next
    case False
    then have r: "0 < unat ns" by (simp add: unat_gt_0)
    with assms(4) have "unat a + 8 * unat np \<noteq> 256" by simp
    with p(2) have a': "unat a' = unat a + 8 * unat np" by simp
    have fit: "unat a' mod EEPROM_PAGESIZE + unat ns \<le> EEPROM_PAGESIZE"
      using assms(2,3) by (simp add: a' EEPROM_PAGESIZE_def mod_add_eq [symmetric])
    have "unat ns \<le> length (drop (8 * unat np) buf)" using assms(1) by simp
    from page_write_stored [OF this fit, of 0 s1] p(4) obtain st s2 where
      q: "I2C_EE_PageWrite mwrite (drop (8 * unat np) buf) a' ns s1 = Some (st, s2)"
         "stored (device s1) (unat a') (take (unat ns) (drop (8 * unat np) buf)) (device s2)"
      by auto
    have "length (take (8 * unat np) buf) = 8 * unat np" using assms(1) by simp
    with stored_append [OF p(3)] q(2)
    have "stored (device s) (unat a) (take (8 * unat np + unat ns) buf) (device s2)"
      by (simp add: a' take_add)
    with False p(1) q(1) show ?thesis by (simp add: write_pages_and_rest_def)
  qed
qed

lemma BufferWrite_stored:
  assumes len: "unat n \<le> length buf" and fits: "unat a + unat n \<le> 256"
    and page: "unat a mod 8 = 0 \<or> 8 \<le> unat n \<or> unat a mod 8 + unat n \<le> 8"
    and polls: "polls_for (unat n div 8 + 2) s"
  shows "\<exists>s'. I2C_EE_BufferWrite mwrite buf a n s = Some s' \<and>
     stored (device s) (unat a) (take (unat n) buf) (device s')"
proof -
  define r where "r = unat a mod 8"
  have r8: "r < 8" by (simp add: r_def)
  have Addr: "unat (a mod 8) = r" by (simp add: r_def unat_mod_distrib)
  have count: "unat (8 - a mod 8) = 8 - r" using Addr r8 by (simp add: unat_sub_if')
  have n256: "unat n \<le> 256" using fits by simp
  have np: "unat (ucast (n div 8) :: u8) = unat n div 8"
    using n256 by (simp add: unat_ucasts unat_div_distrib)
  have ns: "unat (ucast (n mod 8) :: u8) = unat n mod 8"
    by (simp add: unat_ucasts unat_mod_distrib)
  have whole: "8 * (unat n div 8) + unat n mod 8 = unat n" by simp
  have small: ?thesis if "unat n div 8 = 0" "r + unat n \<le> 8"
  proof -
    from that(1) have "unat n mod 8 = unat n" by (simp add: div_eq_0_iff)
    then have ns': "unat (ucast (n mod 8) :: u8) = unat n" using ns by simp
    have fit: "unat a mod EEPROM_PAGESIZE + unat (ucast (n mod 8) :: u8) \<le> EEPROM_PAGESIZE"
      using that(2) ns' by (simp add: r_def EEPROM_PAGESIZE_def)
    have "unat (ucast (n mod 8) :: u8) \<le> length buf" using len ns' by simp
    from page_write_stored [OF this fit, of 1 s] polls that(1) obtain st s' where
      "I2C_EE_PageWrite mwrite buf a (ucast (n mod 8)) s = Some (st, s')"
      "stored (device s) (unat a) (take (unat n) buf) (device s')"
      using ns' by (auto simp: numeral_2_eq_2)
    moreover have "(ucast (n div 8) :: u8) = 0" using np that(1) by (simp add: unat_eq_zero)
    ultimately show ?thesis
      by (simp add: I2C_EE_BufferWrite_def EEPROM_PAGESIZE_def Let_def)
  qed
  show ?thesis
  proof (cases "unat n div 8 = 0")
    case True
    then have "unat n < 8" by (simp add: div_eq_0_iff)
    with page r8 have "r + unat n \<le> 8" by (auto simp: r_def)
    with True show ?thesis by (rule small)
  next
    case False
    then have n8: "8 \<le> unat n" by (simp add: div_eq_0_iff)
    have np0: "(ucast (n div 8) :: u8) \<noteq> 0"
      using np False by (metis unat_0)
    show ?thesis
    proof (cases "r = 0")
      case True
      then have "a mod 8 = 0" using Addr by (simp add: unat_eq_zero)
      moreover have "unat a mod 8 = 0" using True by (simp add: r_def)
      moreover have "polls_for (Suc (unat n div 8)) s" using polls polls_for_mono by force
      ultimately show ?thesis
        using write_pages_and_rest_stored [of "ucast (n div 8)" "ucast (n mod 8)" buf a s]
          np ns np0 len fits whole
        by (simp add: I2C_EE_BufferWrite_def EEPROM_PAGESIZE_def Let_def add.assoc)
    next
      case r0: False
      let ?c = "8 - a mod 8" and ?m = "n - ucast (8 - a mod 8)"
      have c: "unat ?c = 8 - r" by (rule count)
      have m: "unat ?m = unat n - (8 - r)"
        using n8 c by (simp add: unat_sub_if' unat_ucasts)
      have np': "unat (ucast (?m div 8) :: u8) = (unat n - (8 - r)) div 8"
        using n256 m by (simp add: unat_ucasts unat_div_distrib)
      have ns': "unat (ucast (?m mod 8) :: u8) = (unat n - (8 - r)) mod 8"
        using m by (simp add: unat_ucasts unat_mod_distrib)
      have fit: "unat a mod EEPROM_PAGESIZE + unat ?c \<le> EEPROM_PAGESIZE"
        using c r8 by (simp add: r_def EEPROM_PAGESIZE_def)
      have "unat ?c \<le> length buf" using c n8 len by simp
      from page_write_stored [OF this fit, of "Suc (unat n div 8)" s] polls obtain st s1 where
        p: "I2C_EE_PageWrite mwrite buf a ?c s = Some (st, s1)"
           "stored (device s) (unat a) (take (8 - r) buf) (device s1)"
           "polls_for (Suc (unat n div 8)) s1"
        by (auto simp: c)
      show ?thesis
      proof (cases "unat a + (8 - r) = 256")
        case True
        with fits n8 r8 r0 show ?thesis by simp
      next
        case lt: False
        have ac: "unat (a + ?c) = unat a + (8 - r)"
          using lt fits n8 c by (simp add: unat_word_ariths)
        have al: "unat (a + ?c) mod 8 = 0"
        proof -
          have "8 * (unat a div 8) + r = unat a" by (simp add: r_def)
          then have "unat a + (8 - r) = 8 * (unat a div 8 + 1)" using r8 by auto
          then show ?thesis by (simp add: ac)
        qed
        have le: "(unat n - (8 - r)) div 8 \<le> unat n div 8" by (simp add: div_le_mono)
        have w: "8 * ((unat n - (8 - r)) div 8) + (unat n - (8 - r)) mod 8 = unat n - (8 - r)"
          by simp
        have e: "8 - r + (unat n - (8 - r)) = unat n" using n8 by simp
        have l: "unat n - (8 - r) \<le> length buf - (8 - r)" using len by (rule diff_le_mono)
        have "polls_for (Suc ((unat n - (8 - r)) div 8)) s1"
          using p(3) le polls_for_mono by force
        with write_pages_and_rest_stored [of "ucast (?m div 8)" "ucast (?m mod 8)"
            "drop (8 - r) buf" "a + ?c" s1] np' ns' al ac w l e fits
        obtain s' where
          q: "write_pages_and_rest mwrite (ucast (?m div 8)) (ucast (?m mod 8))
                (drop (8 - r) buf) (a + ?c) s1 = Some s'"
             "stored (device s1) (unat a + (8 - r)) (take (unat n - (8 - r)) (drop (8 - r) buf))
                (device s')"
          by (auto simp: add.assoc)
        have "length (take (8 - r) buf) = 8 - r" using len n8 by simp
        moreover have "take (8 - r) buf @ take (unat n - (8 - r)) (drop (8 - r) buf) = take (unat n) buf"
          using n8 by (simp add: take_add [symmetric])
        ultimately have "stored (device s) (unat a) (take (unat n) buf) (device s')"
          using stored_append [OF p(2)] q(2) by metis
        moreover have "a mod 8 \<noteq> 0" "?c \<noteq> 0"
          using Addr c r0 r8 by (auto simp: unat_eq_zero [symmetric])
        ultimately show ?thesis
          using p(1) q(1) np0 c
          by (simp add: I2C_EE_BufferWrite_def EEPROM_PAGESIZE_def Let_def)
      qed
    qed
  qed
qed

lemma stored_then_read:
  assumes "stored d a bs d'" and "a + length bs \<le> 256" and "unat w = a"
  shows "snd (mread d' w (length bs)) = bs"
proof (rule nth_equalityI)
  show "length (snd (mread d' w (length bs))) = length bs"
    using read_cells [of w "length bs" d'] assms by simp
next
  fix i assume "i < length (snd (mread d' w (length bs)))"
  then show "snd (mread d' w (length bs)) ! i = bs ! i"
    using read_cells [of w "length bs" d'] assms by (simp add: stored_def)
qed

end

section \<open>The AT24C02\<close>

text \<open>
  256 cells in pages of 8. During a write only the low three bits of the internal address
  counter are incremented, so a write past the end of its page continues at the page's
  start; a read increments the whole counter.
\<close>

type_synonym 'b at24 = "nat \<Rightarrow> 'b"

fun at24_store :: "'b at24 \<Rightarrow> nat \<Rightarrow> 'b list \<Rightarrow> 'b at24" where
  "at24_store d a [] = d"
| "at24_store d a (b # bs) = at24_store (d(a := b)) (8 * (a div 8) + (a + 1) mod 8) bs"

definition at24_write :: "('b at24, 'b) mem_write" where
  "at24_write d a bs = (HAL_OK, at24_store d (unat a) bs)"

definition at24_read :: "('b at24, 'b) mem_read" where
  "at24_read d a n = (HAL_OK, map (\<lambda>i. d ((unat a + i) mod 256)) [0..<n])"

lemma at24_store_in_page:
  "a mod 8 + length bs \<le> 8 \<Longrightarrow>
   at24_store d a bs c = (if a \<le> c \<and> c < a + length bs then bs ! (c - a) else d c)"
proof (induction bs arbitrary: d a)
  case Nil
  then show ?case by auto
next
  case (Cons b bs)
  show ?case
  proof (cases bs)
    case Nil
    then show ?thesis by auto
  next
    case bs: (Cons x xs)
    with Cons.prems have m: "a mod 8 < 7" by simp
    then have n: "8 * (a div 8) + (a + 1) mod 8 = a + 1" and "(a + 1) mod 8 = a mod 8 + 1"
      by (simp_all add: mod_Suc)
    with Cons.prems have "(a + 1) mod 8 + length bs \<le> 8" by simp
    then have IH: "at24_store (d(a := b)) (a + 1) bs c =
        (if a + 1 \<le> c \<and> c < a + 1 + length bs then bs ! (c - (a + 1)) else (d(a := b)) c)"
      by (rule Cons.IH)
    consider "c < a" | "c = a" | k where "c = a + 1 + k"
      by (metis add.commute add_Suc less_imp_Suc_add linorder_neqE_nat plus_1_eq_Suc)
    then show ?thesis
      unfolding at24_store.simps n IH by cases auto
  qed
qed

interpretation at24: page_memory at24_write at24_read "\<lambda>d. d"
proof unfold_locales
  fix a :: u8 and bs :: "'b list" and b :: nat and d :: "nat \<Rightarrow> 'b"
  assume "unat a mod EEPROM_PAGESIZE + length bs \<le> EEPROM_PAGESIZE"
  then show "snd (at24_write d a bs) b =
      (if unat a \<le> b \<and> b < unat a + length bs then bs ! (b - unat a) else d b)"
    by (simp add: at24_write_def at24_store_in_page EEPROM_PAGESIZE_def)
next
  fix a :: u8 and n :: nat and d :: "nat \<Rightarrow> 'b"
  assume "unat a + n \<le> 256"
  then show "snd (at24_read d a n) = map d [unat a..<unat a + n]"
    by (intro nth_equalityI) (auto simp: at24_read_def)
qed

section \<open>Properties\<close>

text \<open>Where a write of at most one page's length puts its bytes.\<close>

lemma at24_store_outside: "c div 8 \<noteq> a div 8 \<Longrightarrow> at24_store d a bs c = d c"
proof (induction bs arbitrary: d a)
  case (Cons b bs)
  have "(8 * (a div 8) + (a + 1) mod 8) div 8 = a div 8" by simp
  then have "at24_store (d(a := b)) (8 * (a div 8) + (a + 1) mod 8) bs c = (d(a := b)) c"
    using Cons.prems by (intro Cons.IH) simp
  also have "\<dots> = d c" using Cons.prems by auto
  finally show ?case by simp
qed simp

lemma next_in_page: "((8 * (a div 8) + Suc a mod 8 + j) mod (8::nat)) = Suc (a + j) mod 8"
proof -
  have "8 * (a div 8) + Suc a mod 8 + j = Suc a mod 8 + j + 8 * (a div 8)" by simp
  then have "(8 * (a div 8) + Suc a mod 8 + j) mod 8 = (Suc a mod 8 + j) mod 8"
    by (metis mod_mult_self2)
  also have "\<dots> = (Suc a + j) mod 8" by (rule mod_add_left_eq)
  finally show ?thesis by simp
qed

lemma at24_store_wrap:
  "i < length bs \<Longrightarrow> length bs \<le> 8 \<Longrightarrow>
   at24_store d a bs (8 * (a div 8) + (a + i) mod 8) = bs ! i"
proof (induction bs arbitrary: d a i)
  case (Cons b bs)
  let ?a' = "8 * (a div 8) + (a + 1) mod 8"
  have d8: "?a' div 8 = a div 8" by simp
  have m8: "(?a' + j) mod 8 = (a + Suc j) mod 8" for j
    by (simp add: next_in_page)
  show ?case
  proof (cases i)
    case (Suc j)
    have "at24_store (d(a := b)) ?a' bs (8 * (?a' div 8) + (?a' + j) mod 8) = bs ! j"
      using Suc Cons.prems by (intro Cons.IH) simp_all
    then show ?thesis using Suc unfolding d8 m8 by simp
  next
    case 0
    have untouched: "at24_store e x cs a = e a"
      if "x div 8 = a div 8" "\<forall>j < length cs. (x + j) mod 8 \<noteq> a mod 8" for e x and cs :: "'a list"
      using that
    proof (induction cs arbitrary: e x)
      case (Cons y ys)
      let ?x' = "8 * (x div 8) + (x + 1) mod 8"
      have ne: "x \<noteq> a" using Cons.prems(2) by force
      have "(?x' + j) mod 8 = (x + Suc j) mod 8" for j by (simp add: next_in_page)
      then have "\<forall>j < length ys. (?x' + j) mod 8 \<noteq> a mod 8"
        using Cons.prems(2) by (metis Suc_less_eq length_Cons)
      then have "at24_store (e(x := y)) ?x' ys a = (e(x := y)) a"
        using Cons.prems(1) by (intro Cons.IH) simp_all
      with ne show ?case by simp
    qed simp
    have "\<forall>j < length bs. (?a' + j) mod 8 \<noteq> a mod 8"
    proof (intro allI impI)
      fix j assume "j < length bs"
      then have "Suc j < 8" using Cons.prems(2) by simp
      then show "(?a' + j) mod 8 \<noteq> a mod 8"
        unfolding m8 by presburger
    qed
    then have "at24_store (d(a := b)) ?a' bs a = (d(a := b)) a"
      by (intro untouched) simp_all
    with 0 show ?thesis by simp
  qed
qed simp

text \<open>C28: \<open>I2C_EE_BufferWrite\<close> stores a buffer correctly: when the start is page aligned,
  or at least a page is written, or the bytes fit in the page of the start address, the routine
  returns (given the polling answers it waits for) and the EEPROM holds exactly the buffer's bytes
  at the addresses from \<open>WriteAddr\<close> on and its old contents elsewhere.\<close>

theorem BufferWrite_correct:
  assumes "unat n \<le> length buf" and "unat a + unat n \<le> 256"
    and "unat a mod 8 = 0 \<or> 8 \<le> unat n \<or> unat a mod 8 + unat n \<le> 8"
    and "polls_for (unat n div 8 + 2) s"
  shows "\<exists>s'. I2C_EE_BufferWrite at24_write buf a n s = Some s' \<and>
     (\<forall>b < 256. device s' b = (if unat a \<le> b \<and> b < unat a + unat n then buf ! (b - unat a)
       else device s b))"
  using at24.BufferWrite_stored [OF assms] assms(1)
  by (auto simp: at24.stored_def min_def)

definition sample_i2c :: "char at24 i2c" where
  "sample_i2c = \<lparr>device = (\<lambda>_. CHR 0xFF), get_state = replicate 10 HAL_I2C_STATE_READY,
     device_ready = HAL_TIMEOUT # replicate 5 HAL_OK\<rparr>"

lemma BufferWrite_correct_witness:
  "\<exists>s'. I2C_EE_BufferWrite at24_write ''ABCDEFGHIJKLMNOPQRST'' 5 20 sample_i2c = Some s' \<and>
     device s' 5 = CHR ''A'' \<and> device s' 24 = CHR ''T'' \<and> device s' 25 = CHR 0xFF"
  using BufferWrite_correct [of 20 "''ABCDEFGHIJKLMNOPQRST''" 5 sample_i2c]
  by (force simp: sample_i2c_def polls_for_def)

text \<open>A short write that is not aligned and crosses a page boundary is sent as one
  page write, which on the AT24C02 rolls over: the bytes past the boundary land at the start of
  the same page, and the next page, where they belong, is not touched.\<close>

theorem BufferWrite_short_crossing_rolls_over:
  assumes "unat n < 8" and "8 < unat a mod 8 + unat n" and "unat n \<le> length buf"
    and "polls_for 1 s"
  shows "\<exists>s'. I2C_EE_BufferWrite at24_write buf a n s = Some s' \<and>
     (\<forall>i < unat n. device s' (8 * (unat a div 8) + (unat a + i) mod 8) = buf ! i) \<and>
     (\<forall>c. c div 8 \<noteq> unat a div 8 \<longrightarrow> device s' c = device s c)"
proof -
  have ns: "unat (ucast (n mod 8) :: u8) = unat n"
    using assms(1) by (simp add: unat_ucasts unat_mod_distrib)
  have np: "(ucast (n div 8) :: u8) = 0"
    using assms(1) by (simp add: unat_eq_zero [symmetric] unat_ucasts unat_div_distrib)
  let ?d = "snd (at24_write (device s) a (take (unat n) buf))"
  have "polls_for (Suc 0) (s\<lparr>device := ?d\<rparr>)" using assms(4) by (simp add: polls_for_def)
  then obtain s' where s': "after_write (s\<lparr>device := ?d\<rparr>) = Some s'" "device s' = ?d"
    using after_write_returns by fastforce
  have "I2C_EE_BufferWrite at24_write buf a n s = Some s'"
    using s'(1) assms(3) ns np
    by (simp add: I2C_EE_BufferWrite_def EEPROM_PAGESIZE_def Let_def I2C_EE_PageWrite_def
        at24_write_def)
  moreover have "\<forall>i < unat n. device s' (8 * (unat a div 8) + (unat a + i) mod 8) = buf ! i"
    using assms(1,3) by (simp add: s'(2) at24_write_def at24_store_wrap)
  moreover have "\<forall>c. c div 8 \<noteq> unat a div 8 \<longrightarrow> device s' c = device s c"
    by (simp add: s'(2) at24_write_def at24_store_outside)
  ultimately show ?thesis by blast
qed

lemma BufferWrite_short_crossing_rolls_over_witness:
  "\<exists>s'. I2C_EE_BufferWrite at24_write ''ABCD'' 6 4 sample_i2c = Some s' \<and>
     device s' 0 = CHR ''C'' \<and> device s' 8 = CHR 0xFF"
proof -
  obtain s' where "I2C_EE_BufferWrite at24_write ''ABCD'' 6 4 sample_i2c = Some s'"
    "\<forall>i < 4. device s' ((6 + i) mod 8) = ''ABCD'' ! i"
    "\<forall>c. c div 8 \<noteq> 0 \<longrightarrow> device s' c = device sample_i2c c"
    using BufferWrite_short_crossing_rolls_over [of 4 6 "''ABCD''" sample_i2c]
    by (auto simp: sample_i2c_def polls_for_def)
  moreover from this(2) [rule_format, of 2] have "device s' 0 = CHR ''C''"
    by (simp add: numeral_2_eq_2)
  moreover have "device s' 8 = device sample_i2c 8"
    using calculation(3) [rule_format, of 8] by simp
  ultimately show ?thesis by (simp add: sample_i2c_def)
qed

end
