(* ===== verification/IpConfig.thy ===== *)
theory IpConfig
  imports Eeprom
begin

unbundle bit_operations_syntax

text \<open>
  The server address the module connects to: \<open>I2C_Read_EE_IP\<close> and \<open>I2C_Write_EE_IP\<close> of
  User/i2c/bsp_i2c_ee.c and the task \<open>I2ceeprom_Task\<close> of User/main.c. The text
  \<open>a.b.c.d:port\<close> that arrives on the serial line is checked with \<open>sscanf\<close>, written to
  the EEPROM, and parsed into the 16-bit globals at the next start. Each \<open>%d\<close> stores four
  bytes at the address it is given, although the variables have two: the memory and the
  addresses of the variables are part of the model.
\<close>

definition DATA_Size :: nat where
  "DATA_Size = 20"

definition USART_RBUFF_SIZE :: nat where
  "USART_RBUFF_SIZE = 1024"

definition ip_format :: "fmt list" where
  "ip_format = [Dec, Lit CHR ''.'', Dec, Lit CHR ''.'', Dec, Lit CHR ''.'', Dec, Lit CHR '':'', Dec]"

text \<open>The values \<open>sscanf\<close> converts, stored one after the other; an \<open>int\<close> has 32 bits and a
  value outside its range is undefined.\<close>

definition int_range :: "int \<Rightarrow> bool" where
  "int_range v \<longleftrightarrow> - (2 ^ 31) \<le> v \<and> v < 2 ^ 31"

fun store_ints :: "memory \<Rightarrow> (u32 \<times> int) list \<Rightarrow> memory" where
  "store_ints m [] = m"
| "store_ints m ((a, v) # avs) = store_ints (store32 m a (word_of_int v)) avs"

definition sscanf_store :: "string \<Rightarrow> u32 list \<Rightarrow> memory \<Rightarrow> (nat \<times> memory) option" where
  "sscanf_store buf addrs m =
     (case sscanf buf ip_format of
        None \<Rightarrow> None
      | Some vs \<Rightarrow> if list_all int_range vs then Some (length vs, store_ints m (zip addrs vs))
                   else None)"

section \<open>The globals and the EEPROM\<close>

record ip_vars =
  ip_addr0 :: u32
  ip_addr1 :: u32
  ip_addr2 :: u32
  ip_addr3 :: u32
  ip_port :: u32

text \<open>\<open>beyond\<close> is what follows \<open>I2c_Buf_Read\<close> in memory.\<close>

definition I2C_Read_EE_IP ::
    "('d, char) mem_read \<Rightarrow> ip_vars \<Rightarrow> string \<Rightarrow> 'd i2c \<Rightarrow> memory \<Rightarrow> (u8 \<times> memory) option" where
  "I2C_Read_EE_IP read vars beyond s m =
    (let I2c_Buf_Read = snd (I2C_EE_BufferRead read 0 (of_nat DATA_Size) s)
     in map_option (\<lambda>(n, m). (if n = 5 then 1 else 0, m))
          (sscanf_store (I2c_Buf_Read @ beyond)
            [ip_addr0 vars, ip_addr1 vars, ip_addr2 vars, ip_addr3 vars, ip_port vars] m))"

definition I2C_Write_EE_IP ::
    "('d, char) mem_write \<Rightarrow> string \<Rightarrow> 'd i2c \<Rightarrow> (u8 \<times> 'd i2c) option" where
  "I2C_Write_EE_IP write Usart_Ip_data s =
     map_option (Pair 1) (I2C_EE_BufferWrite write Usart_Ip_data 0 (of_nat DATA_Size) s)"

section \<open>The configuration task\<close>

text \<open>
  One iteration of the loop, after \<open>ulTaskNotifyTake\<close> has returned \<open>taken\<close> (it is
  stored in a \<open>uint16_t\<close>). The text is scanned twice into the two locals, whose addresses
  are \<open>Checkip0\<close> and \<open>Checkport\<close>; the four octets share one variable.
\<close>

record 'd cfg =
  Usart_Rx_Buf :: string
  ee :: "'d i2c"
  mem :: memory

definition check_config :: "u32 \<Rightarrow> u32 \<Rightarrow> string \<Rightarrow> 'd cfg \<Rightarrow> (nat \<times> 'd cfg) option" where
  "check_config Checkip0 Checkport beyond c =
     map_option (\<lambda>(n, m). (n, c\<lparr>mem := m\<rparr>))
       (sscanf_store (Usart_Rx_Buf c @ beyond)
         [Checkip0, Checkip0, Checkip0, Checkip0, Checkport] (mem c))"

definition I2ceeprom_Task_iteration ::
    "('d, char) mem_write \<Rightarrow> u32 \<Rightarrow> u32 \<Rightarrow> string \<Rightarrow> u32 \<Rightarrow> 'd cfg \<Rightarrow> 'd cfg option" where
  "I2ceeprom_Task_iteration write Checkip0 Checkport beyond taken c =
    (let NotifyValue = ucast taken :: u16
     in if NotifyValue \<noteq> 0 then
          Option.bind (check_config Checkip0 Checkport beyond c) (\<lambda>(xx, c).
          Option.bind (check_config Checkip0 Checkport beyond c) (\<lambda>(n, c).
          Option.bind
            (if n = 5
             then map_option (\<lambda>(_, e). c\<lparr>ee := e\<rparr>)
                    (I2C_Write_EE_IP write (Usart_Rx_Buf c) (ee c))
             else Some c) (\<lambda>c.
          map_option (\<lambda>b. c\<lparr>Usart_Rx_Buf := b\<rparr>)
            (memset (Usart_Rx_Buf c) NUL USART_RBUFF_SIZE))))
        else Some c)"

section \<open>Scanning an address\<close>

definition ip_text :: "nat \<Rightarrow> nat \<Rightarrow> nat \<Rightarrow> nat \<Rightarrow> nat \<Rightarrow> string" where
  "ip_text a b c d p = show_nat a @ CHR ''.'' # show_nat b @ CHR ''.'' # show_nat c @
     CHR ''.'' # show_nat d @ CHR '':'' # show_nat p"

lemma punctuation_not_digit [simp]: "\<not> is_digit CHR ''.''" "\<not> is_digit CHR '':''"
  by (simp_all add: is_digit_def)

lemma scan_ip_text: "sscanf_text (ip_text a b c d p) ip_format = [int a, int b, int c, int d, int p]"
  using scan_int_show_nat [of "[]" p]
  by (simp add: ip_text_def ip_format_def scan_int_show_nat)

lemma NUL_not_in_ip_text: "NUL \<notin> set (ip_text a b c d p)"
  by (auto simp: ip_text_def)

lemma sscanf_ip_text:
  "sscanf (ip_text a b c d p @ NUL # t) ip_format = Some [int a, int b, int c, int d, int p]"
  by (simp add: sscanf_def c_string_append [OF NUL_not_in_ip_text] scan_ip_text)

lemma sscanf_store_ip_text:
  assumes "\<forall>x \<in> {a, b, c, d, p}. x < 2 ^ 31" and "length addrs = 5"
  shows "sscanf_store (ip_text a b c d p @ NUL # t) addrs m =
    Some (5, store_ints m (zip addrs [int a, int b, int c, int d, int p]))"
  using assms by (auto simp: sscanf_store_def sscanf_ip_text int_range_def)

section \<open>The variables as the linker placed them\<close>

text \<open>
  The addresses of Listings/LwIP_F407.map: ascending and adjacent, with two bytes of padding
  after \<open>ip_port\<close>, before \<open>Ethsend_Task_Handle\<close> at 0x20000028.
\<close>

definition linked_vars :: ip_vars where
  "linked_vars = \<lparr>ip_addr0 = 0x2000001C, ip_addr1 = 0x2000001E, ip_addr2 = 0x20000020,
     ip_addr3 = 0x20000022, ip_port = 0x20000024\<rparr>"

lemma load16_store32_other:
  assumes "b \<notin> {a, a + 1, a + 2, a + 3}" and "b + 1 \<notin> {a, a + 1, a + 2, a + 3}"
  shows "load16 (store32 m a v) b = load16 m b"
  using assms by (simp add: load16_def store32_frame)

lemma store_ints_linked:
  fixes vars :: ip_vars
  defines "vars \<equiv> linked_vars"
  assumes "m' = store_ints m (zip [ip_addr0 vars, ip_addr1 vars, ip_addr2 vars, ip_addr3 vars,
     ip_port vars] [v0, v1, v2, v3, v4])"
  shows "load16 m' (ip_addr0 vars) = word_of_int v0" "load16 m' (ip_addr1 vars) = word_of_int v1"
    "load16 m' (ip_addr2 vars) = word_of_int v2" "load16 m' (ip_addr3 vars) = word_of_int v3"
    "load16 m' (ip_port vars) = word_of_int v4"
    "\<And>x. x < 0x2000001C \<or> 0x20000028 \<le> x \<Longrightarrow> m' x = m x"
proof -
  have u: "ucast (word_of_int v :: u32) = (word_of_int v :: u16)" for v
    by (rule bit_word_eqI) (simp add: bit_ucast_iff bit_of_int_iff)
  show "load16 m' (ip_addr0 vars) = word_of_int v0" "load16 m' (ip_addr1 vars) = word_of_int v1"
    "load16 m' (ip_addr2 vars) = word_of_int v2" "load16 m' (ip_addr3 vars) = word_of_int v3"
    "load16 m' (ip_port vars) = word_of_int v4"
    by (simp_all add: assms linked_vars_def load16_store32 load16_store32_other u)
  fix x :: u32 assume x: "x < 0x2000001C \<or> 0x20000028 \<le> x"
  then have "x \<notin> {0x2000001C, 0x2000001D, 0x2000001E, 0x2000001F, 0x20000020, 0x20000021,
     0x20000022, 0x20000023, 0x20000024, 0x20000025, 0x20000026, 0x20000027}" by auto
  then show "m' x = m x"
    by (simp add: assms linked_vars_def store32_frame)
qed

section \<open>Saving a configuration\<close>

lemma unat_data_size [simp]: "unat (of_nat DATA_Size :: u16) = 20"
  by (simp add: DATA_Size_def)

locale text_memory = page_memory mwrite mread cell
  for mwrite :: "('d, char) mem_write" and mread :: "('d, char) mem_read"
    and cell :: "'d \<Rightarrow> nat \<Rightarrow> char"
begin

text \<open>A well-formed text reaches the EEPROM as the first 20 bytes of the buffer, which is then cleared.\<close>

lemma config_saved:
  assumes vals: "\<forall>x \<in> {a, b, c, d, p}. x < 2 ^ 31"
    and rx: "Usart_Rx_Buf s = ip_text a b c d p @ replicate (1024 - length (ip_text a b c d p)) NUL"
    and len: "length (ip_text a b c d p) < 1024"
    and taken: "(ucast taken :: u16) \<noteq> 0" and polls: "polls_for 4 (ee s)"
  shows "\<exists>s'. I2ceeprom_Task_iteration mwrite k0 kp beyond taken s = Some s' \<and>
     Usart_Rx_Buf s' = replicate 1024 NUL \<and>
     stored (device (ee s)) 0 (take 20 (Usart_Rx_Buf s)) (device (ee s'))"
proof -
  let ?t = "ip_text a b c d p"
  obtain k where k: "1024 - length ?t = Suc k" using len by (cases "1024 - length ?t") auto
  have buf: "Usart_Rx_Buf s @ beyond = ?t @ NUL # (replicate k NUL @ beyond)"
    by (simp add: rx k)
  have scan: "\<exists>m'. sscanf_store (Usart_Rx_Buf s @ beyond) [k0, k0, k0, k0, kp] m = Some (5, m')" for m
    unfolding buf using sscanf_store_ip_text [OF vals] by auto
  obtain m1 where m1: "sscanf_store (Usart_Rx_Buf s @ beyond) [k0, k0, k0, k0, kp] (mem s) = Some (5, m1)"
    using scan by blast
  obtain m2 where m2: "sscanf_store (Usart_Rx_Buf s @ beyond) [k0, k0, k0, k0, kp] m1 = Some (5, m2)"
    using scan by blast
  have rxlen: "length (Usart_Rx_Buf s) = 1024" using len by (simp add: rx)
  have "\<exists>s'. I2C_EE_BufferWrite mwrite (Usart_Rx_Buf s) 0 (of_nat DATA_Size) (ee s) = Some s' \<and>
     stored (device (ee s)) (unat (0 :: u8)) (take (unat (of_nat DATA_Size :: u16)) (Usart_Rx_Buf s))
       (device s')"
    by (rule BufferWrite_stored) (use rxlen polls in simp_all)
  then obtain e where e: "I2C_EE_BufferWrite mwrite (Usart_Rx_Buf s) 0 (of_nat DATA_Size) (ee s) = Some e"
     "stored (device (ee s)) 0 (take 20 (Usart_Rx_Buf s)) (device e)"
    by auto
  show ?thesis
    using taken m1 m2 e rxlen
    by (simp add: I2ceeprom_Task_iteration_def check_config_def I2C_Write_EE_IP_def memset_def
        USART_RBUFF_SIZE_def)
qed

lemma saved_config_read:
  assumes "stored d0 0 (take 20 rx) (device s)" and "length rx = 1024"
  shows "snd (I2C_EE_BufferRead mread 0 (of_nat DATA_Size) s) = take 20 rx"
  using stored_then_read [OF assms(1), of "0 :: u8"] assms(2) by (simp add: I2C_EE_BufferRead_def)

end

interpretation text24: text_memory at24_write at24_read "\<lambda>d. d"
  by unfold_locales

text \<open>Reading back a buffer that starts with a well-formed text and a NUL.\<close>

lemma I2C_Read_EE_IP_text:
  assumes "snd (I2C_EE_BufferRead rd 0 (of_nat DATA_Size) s) @ beyond = ip_text a b c d p @ NUL # t"
    and "\<forall>x \<in> {a, b, c, d, p}. x < 65536"
  shows "\<exists>m'. I2C_Read_EE_IP rd linked_vars beyond s m = Some (1, m') \<and>
     load16 m' (ip_addr0 linked_vars) = of_nat a \<and> load16 m' (ip_addr1 linked_vars) = of_nat b \<and>
     load16 m' (ip_addr2 linked_vars) = of_nat c \<and> load16 m' (ip_addr3 linked_vars) = of_nat d \<and>
     load16 m' (ip_port linked_vars) = of_nat p \<and>
     (\<forall>x. x < 0x2000001C \<or> 0x20000028 \<le> x \<longrightarrow> m' x = m x)"
proof -
  have "\<forall>x \<in> {a, b, c, d, p}. x < 2 ^ 31" using assms(2) by auto
  then show ?thesis
    using assms(1)
    by (auto simp: I2C_Read_EE_IP_def sscanf_store_ip_text Let_def
        store_ints_linked [of _ m "int a" "int b" "int c" "int d" "int p"])
qed

section \<open>Properties\<close>

text \<open>C1: A configuration of at most 19 characters that arrives on the serial line survives
  a restart: the task accepts it, clears the receive buffer, and whatever the memory holds at the
  next start, \<open>I2C_Read_EE_IP\<close> reports success, the five 16-bit globals hold the five numbers
  although each conversion stores four bytes, and no byte outside 0x2000001C..0x20000027
  changes.\<close>

theorem config_survives_restart:
  fixes d :: nat
  assumes "\<forall>x \<in> {a, b, c, d, p}. x < 65536" and "length (ip_text a b c d p) \<le> 19"
    and "Usart_Rx_Buf s = ip_text a b c d p @ replicate (1024 - length (ip_text a b c d p)) NUL"
    and "(ucast taken :: u16) \<noteq> 0" and "polls_for 4 (ee s)"
  shows "\<exists>s'. I2ceeprom_Task_iteration at24_write k0 kp beyond taken s = Some s' \<and>
     Usart_Rx_Buf s' = replicate 1024 NUL \<and>
     (\<forall>i2c m junk. device i2c = device (ee s') \<longrightarrow>
       (\<exists>m'. I2C_Read_EE_IP at24_read linked_vars junk i2c m = Some (1, m') \<and>
         load16 m' (ip_addr0 linked_vars) = of_nat a \<and> load16 m' (ip_addr1 linked_vars) = of_nat b \<and>
         load16 m' (ip_addr2 linked_vars) = of_nat c \<and> load16 m' (ip_addr3 linked_vars) = of_nat d \<and>
         load16 m' (ip_port linked_vars) = of_nat p \<and>
         (\<forall>x. x < 0x2000001C \<or> 0x20000028 \<le> x \<longrightarrow> m' x = m x)))"
proof -
  let ?t = "ip_text a b c d p"
  have "\<forall>x \<in> {a, b, c, d, p}. x < 2 ^ 31" using assms(1) by auto
  then obtain s' where s': "I2ceeprom_Task_iteration at24_write k0 kp beyond taken s = Some s'"
     "Usart_Rx_Buf s' = replicate 1024 NUL"
     "at24.stored (device (ee s)) 0 (take 20 (Usart_Rx_Buf s)) (device (ee s'))"
    using text24.config_saved [of a b c d p s taken k0 kp beyond] assms by auto
  obtain k where k: "20 - length ?t = Suc k" using assms(2) by (cases "20 - length ?t") auto
  have "min (Suc k) (1024 - length ?t) = Suc k" using k assms(2) by linarith
  then have "take 20 (Usart_Rx_Buf s) = ?t @ NUL # replicate k NUL"
    using assms(2) by (simp add: assms(3) k)
  moreover have "length (Usart_Rx_Buf s) = 1024" using assms(2) by (simp add: assms(3))
  ultimately have "snd (I2C_EE_BufferRead at24_read 0 (of_nat DATA_Size) i2c) @ junk =
      ?t @ NUL # (replicate k NUL @ junk)" if "device i2c = device (ee s')" for i2c :: "char at24 i2c" and junk
    using text24.saved_config_read [of "device (ee s)" "Usart_Rx_Buf s" i2c] s'(3) that by simp
  then show ?thesis
    using s'(1,2) I2C_Read_EE_IP_text [OF _ assms(1)] by blast
qed

text \<open>A state with the factory text waiting and an idle, empty EEPROM.\<close>

definition sample_cfg :: "string \<Rightarrow> char at24 cfg" where
  "sample_cfg text = \<lparr>Usart_Rx_Buf = text @ replicate (1024 - length text) NUL,
     ee = \<lparr>device = (\<lambda>_. CHR 0xFF), get_state = replicate 8 HAL_I2C_STATE_READY,
       device_ready = replicate 4 HAL_OK\<rparr>, mem = (\<lambda>_. 0)\<rparr>"

lemma sample_polls: "polls_for 4 (ee (sample_cfg text))"
  by (simp add: polls_for_def sample_cfg_def)

lemma sample_rx: "Usart_Rx_Buf (sample_cfg text) = text @ replicate (1024 - length text) NUL"
  by (simp add: sample_cfg_def)

lemma config_survives_restart_witness:
  "\<exists>s'. I2ceeprom_Task_iteration at24_write 0x20003000 0x20003004 [] 1
      (sample_cfg ''192.168.2.187:5000'') = Some s' \<and>
     (\<exists>m'. I2C_Read_EE_IP at24_read linked_vars [] (ee s') (\<lambda>_. 0) = Some (1, m') \<and>
        load16 m' (ip_port linked_vars) = 5000)"
proof -
  have t: "ip_text 192 168 2 187 5000 = ''192.168.2.187:5000''"
    by (simp add: ip_text_def show_nat.simps digit_char_chars)
  obtain s' where s': "I2ceeprom_Task_iteration at24_write 0x20003000 0x20003004 [] 1
      (sample_cfg ''192.168.2.187:5000'') = Some s'"
    "\<forall>i2c m junk. device i2c = device (ee s') \<longrightarrow>
       (\<exists>m'. I2C_Read_EE_IP at24_read linked_vars junk i2c m = Some (1, m') \<and>
         load16 m' (ip_port linked_vars) = 5000)"
    using config_survives_restart [where a = 192 and b = 168 and c = 2 and d = 187 and p = 5000
        and s = "sample_cfg ''192.168.2.187:5000''" and taken = 1 and ?k0.0 = "0x20003000"
        and kp = "0x20003004" and beyond = "[]"] sample_polls
    by (fastforce simp: t sample_rx)
  then show ?thesis by blast
qed

lemma show_nat_snoc: "10 \<le> n \<Longrightarrow> show_nat n = show_nat (n div 10) @ [digit_char (n mod 10)]"
  by (simp add: show_nat.simps [of n])

text \<open>A configuration of 21 characters, the longest that can be written with octets of
  three digits and a port of five, is accepted and saved, but only 20 bytes of it: when the byte
  after the read buffer is NUL, the next start succeeds with the port's last digit lost.\<close>

theorem config_21_loses_last_port_digit:
  fixes d :: nat
  assumes "\<forall>x \<in> {a, b, c, d, p}. x < 65536" and "length (ip_text a b c d p) = 21" and "10 \<le> p"
    and "Usart_Rx_Buf s = ip_text a b c d p @ replicate (1024 - length (ip_text a b c d p)) NUL"
    and "(ucast taken :: u16) \<noteq> 0" and "polls_for 4 (ee s)"
  shows "\<exists>s'. I2ceeprom_Task_iteration at24_write k0 kp beyond taken s = Some s' \<and>
     (\<forall>i2c m junk. device i2c = device (ee s') \<longrightarrow>
       (\<exists>m'. I2C_Read_EE_IP at24_read linked_vars (NUL # junk) i2c m = Some (1, m') \<and>
         load16 m' (ip_addr3 linked_vars) = of_nat d \<and>
         load16 m' (ip_port linked_vars) = of_nat (p div 10)))"
proof -
  let ?t = "ip_text a b c d p" and ?u = "ip_text a b c d (p div 10)"
  have vals: "\<forall>x \<in> {a, b, c, d, p div 10}. x < 65536" using assms(1) by auto
  have "\<forall>x \<in> {a, b, c, d, p}. x < 2 ^ 31" using assms(1) by auto
  then obtain s' where s': "I2ceeprom_Task_iteration at24_write k0 kp beyond taken s = Some s'"
     "at24.stored (device (ee s)) 0 (take 20 (Usart_Rx_Buf s)) (device (ee s'))"
    using text24.config_saved [of a b c d p s taken k0 kp beyond] assms by auto
  have tu: "?t = ?u @ [digit_char (p mod 10)]"
    using show_nat_snoc [OF assms(3)] by (simp add: ip_text_def)
  then have "length ?u = 20" using assms(2) by simp
  then have "take 20 (Usart_Rx_Buf s) = ?u" by (simp add: assms(4) tu)
  moreover have "length (Usart_Rx_Buf s) = 1024" using assms(2) by (simp add: assms(4))
  ultimately have "snd (I2C_EE_BufferRead at24_read 0 (of_nat DATA_Size) i2c) @ (NUL # junk) =
      ?u @ NUL # junk" if "device i2c = device (ee s')" for i2c :: "char at24 i2c" and junk
    using text24.saved_config_read [of "device (ee s)" "Usart_Rx_Buf s" i2c] s'(2) that by simp
  then show ?thesis
    using s'(1) I2C_Read_EE_IP_text [OF _ vals] by metis
qed

lemma config_21_loses_last_port_digit_witness:
  "\<exists>s'. I2ceeprom_Task_iteration at24_write 0x20003000 0x20003004 [] 1
      (sample_cfg ''255.255.255.255:65535'') = Some s' \<and>
     (\<exists>m'. I2C_Read_EE_IP at24_read linked_vars [NUL] (ee s') (\<lambda>_. 0) = Some (1, m') \<and>
        load16 m' (ip_port linked_vars) = 6553)"
proof -
  have t: "ip_text 255 255 255 255 65535 = ''255.255.255.255:65535''"
    by (simp add: ip_text_def show_nat.simps digit_char_chars)
  obtain s' where s': "I2ceeprom_Task_iteration at24_write 0x20003000 0x20003004 [] 1
      (sample_cfg ''255.255.255.255:65535'') = Some s'"
    "\<forall>i2c m junk. device i2c = device (ee s') \<longrightarrow>
       (\<exists>m'. I2C_Read_EE_IP at24_read linked_vars (NUL # junk) i2c m = Some (1, m') \<and>
         load16 m' (ip_port linked_vars) = 6553)"
    using config_21_loses_last_port_digit [where a = 255 and b = 255 and c = 255 and d = 255
        and p = 65535 and s = "sample_cfg ''255.255.255.255:65535''" and taken = 1
        and ?k0.0 = "0x20003000" and kp = "0x20003004" and beyond = "[]"] sample_polls
    by (fastforce simp: t sample_rx)
  then show ?thesis by blast
qed

text \<open>C35: A text that does not convert to five numbers (a malformed configuration) is
  rejected: the EEPROM and the polling answers are left exactly as they were, and the receive
  buffer is cleared for the next line.\<close>

theorem config_rejected:
  assumes "sscanf (Usart_Rx_Buf s @ beyond) ip_format = Some vs" and "length vs \<noteq> 5"
    and "list_all int_range vs" and "length (Usart_Rx_Buf s) = 1024"
    and "(ucast taken :: u16) \<noteq> 0"
  shows "\<exists>s'. I2ceeprom_Task_iteration wr k0 kp beyond taken s = Some s' \<and>
     ee s' = ee s \<and> Usart_Rx_Buf s' = replicate 1024 NUL"
  using assms
  by (simp add: I2ceeprom_Task_iteration_def check_config_def sscanf_store_def memset_def
      USART_RBUFF_SIZE_def)

lemma config_rejected_witness:
  "\<exists>s'. I2ceeprom_Task_iteration at24_write 0x20003000 0x20003004 [] 1 (sample_cfg ''192.168:5'') =
     Some s' \<and> Usart_Rx_Buf s' = replicate 1024 NUL"
proof -
  have b: "Usart_Rx_Buf (sample_cfg ''192.168:5'') @ [] = ''192.168:5'' @ replicate 1015 NUL"
    by (simp add: sample_cfg_def)
  have "sscanf (Usart_Rx_Buf (sample_cfg ''192.168:5'') @ []) ip_format = Some [192, 168]"
    unfolding b sscanf_def
    by (subst c_string_pad) (simp_all add: ip_format_def scan_int_def scan_unsigned_def is_digit_def
        is_space_def digit_val_def)
  from config_rejected [OF this, of 1 at24_write "0x20003000" "0x20003004"] show ?thesis
    by (auto simp: int_range_def sample_cfg_def)
qed

text \<open>The check of the configuration does not look at the range of the numbers: any
  five numbers below \<open>2 ^ 31\<close> in the right format are saved to the EEPROM, octets above 255 and
  ports above 65535 included.\<close>

theorem config_range_not_checked:
  assumes "\<forall>x \<in> {a, b, c, d, p}. x < 2 ^ 31" and "length (ip_text a b c d p) < 1024"
    and "Usart_Rx_Buf s = ip_text a b c d p @ replicate (1024 - length (ip_text a b c d p)) NUL"
    and "(ucast taken :: u16) \<noteq> 0" and "polls_for 4 (ee s)"
  shows "\<exists>s'. I2ceeprom_Task_iteration at24_write k0 kp beyond taken s = Some s' \<and>
     (\<forall>i < 20. device (ee s') i = Usart_Rx_Buf s ! i)"
proof -
  obtain s' where s': "I2ceeprom_Task_iteration at24_write k0 kp beyond taken s = Some s'"
     "at24.stored (device (ee s)) 0 (take 20 (Usart_Rx_Buf s)) (device (ee s'))"
    using text24.config_saved [of a b c d p s taken k0 kp beyond] assms by auto
  moreover have "length (Usart_Rx_Buf s) = 1024" using assms(2) by (simp add: assms(3))
  ultimately show ?thesis by (auto simp: at24.stored_def)
qed

lemma config_range_not_checked_witness:
  "\<exists>s'. I2ceeprom_Task_iteration at24_write 0x20003000 0x20003004 [] 1
      (sample_cfg ''999.2.3.4:70000'') = Some s' \<and>
     device (ee s') 0 = CHR ''9'' \<and> device (ee s') 10 = CHR ''7''"
proof -
  have t: "ip_text 999 2 3 4 70000 = ''999.2.3.4:70000''"
    by (simp add: ip_text_def show_nat.simps digit_char_chars)
  have "\<exists>s'. I2ceeprom_Task_iteration at24_write 0x20003000 0x20003004 [] 1
      (sample_cfg ''999.2.3.4:70000'') = Some s' \<and>
     (\<forall>i < 20. device (ee s') i = Usart_Rx_Buf (sample_cfg ''999.2.3.4:70000'') ! i)"
    using config_range_not_checked [where a = 999 and b = 2 and c = 3 and d = 4 and p = 70000
        and s = "sample_cfg ''999.2.3.4:70000''" and taken = 1
        and ?k0.0 = "0x20003000" and kp = "0x20003004" and beyond = "[]"] sample_polls
    by (auto simp: t sample_rx)
  then show ?thesis by (force simp: sample_rx)
qed

end
