(* ===== verification/Gpio.thy ===== *)
theory Gpio
  imports Prelude
begin

unbundle bit_operations_syntax

text \<open>
  The GPIO ports and the external-interrupt controller as the HAL driver
  (Libraries/STM32F4xx_HAL_Driver/Src/stm32f4xx_hal_gpio.c) programs them, and the LED
  macros of User/led/bsp_led.h with the initialisation of User/led/bsp_led.c. The
  registers are records of 32-bit words; a write to BSRR or to a pending register has the
  effect the peripheral documents (set and reset bits of ODR; clear the bits written as 1).
  \<open>assert_param\<close> is compiled out (USE_FULL_ASSERT is not defined).
\<close>

section \<open>Registers\<close>

datatype gpio_port = GPIOA | GPIOB | GPIOC | GPIOD | GPIOE | GPIOF | GPIOG | GPIOH | GPIOI

record gpio_regs =
  MODER :: u32
  OTYPER :: u32
  OSPEEDR :: u32
  PUPDR :: u32
  IDR :: u32
  ODR :: u32
  AFR0 :: u32
  AFR1 :: u32

record hw =
  gpio :: "gpio_port \<Rightarrow> gpio_regs"
  EXTICR :: "nat \<Rightarrow> u32"
  IMR :: u32
  EMR :: u32
  RTSR :: u32
  FTSR :: u32
  PR :: u32
  AHB1ENR :: u32
  APB2ENR :: u32

record GPIO_InitTypeDef =
  Pin :: u32
  Mode :: u32
  Pull :: u32
  Speed :: u32
  Alternate :: u32

datatype GPIO_PinState = GPIO_PIN_RESET | GPIO_PIN_SET

definition GPIO_PIN :: "nat \<Rightarrow> u16" where
  "GPIO_PIN n = push_bit n 1"

definition GPIO_MODE_INPUT :: u32 where "GPIO_MODE_INPUT = 0x00000000"
definition GPIO_MODE_OUTPUT_PP :: u32 where "GPIO_MODE_OUTPUT_PP = 0x00000001"
definition GPIO_MODE_OUTPUT_OD :: u32 where "GPIO_MODE_OUTPUT_OD = 0x00000011"
definition GPIO_MODE_AF_PP :: u32 where "GPIO_MODE_AF_PP = 0x00000002"
definition GPIO_MODE_AF_OD :: u32 where "GPIO_MODE_AF_OD = 0x00000012"
definition GPIO_MODE_IT_RISING_FALLING :: u32 where "GPIO_MODE_IT_RISING_FALLING = 0x10310000"
definition GPIO_MODE :: u32 where "GPIO_MODE = 0x00000003"
definition EXTI_MODE :: u32 where "EXTI_MODE = 0x10000000"
definition GPIO_MODE_IT :: u32 where "GPIO_MODE_IT = 0x00010000"
definition GPIO_MODE_EVT :: u32 where "GPIO_MODE_EVT = 0x00020000"
definition RISING_EDGE :: u32 where "RISING_EDGE = 0x00100000"
definition FALLING_EDGE :: u32 where "FALLING_EDGE = 0x00200000"
definition GPIO_OUTPUT_TYPE :: u32 where "GPIO_OUTPUT_TYPE = 0x00000010"
definition GPIO_NOPULL :: u32 where "GPIO_NOPULL = 0"
definition GPIO_PULLUP :: u32 where "GPIO_PULLUP = 1"
definition GPIO_SPEED_FREQ_HIGH :: u32 where "GPIO_SPEED_FREQ_HIGH = 2"
definition GPIO_SPEED_FREQ_VERY_HIGH :: u32 where "GPIO_SPEED_FREQ_VERY_HIGH = 3"

lemmas gpio_consts =
  GPIO_MODE_INPUT_def GPIO_MODE_OUTPUT_PP_def GPIO_MODE_OUTPUT_OD_def GPIO_MODE_AF_PP_def
  GPIO_MODE_AF_OD_def GPIO_MODE_IT_RISING_FALLING_def GPIO_MODE_def EXTI_MODE_def
  GPIO_MODE_IT_def GPIO_MODE_EVT_def RISING_EDGE_def FALLING_EDGE_def GPIO_OUTPUT_TYPE_def
  GPIO_NOPULL_def GPIO_PULLUP_def GPIO_SPEED_FREQ_HIGH_def GPIO_SPEED_FREQ_VERY_HIGH_def

text \<open>\<open>GPIO_GET_INDEX\<close> of the F407: the port's number in the EXTI selectors and clock bits.\<close>

fun GPIO_GET_INDEX :: "gpio_port \<Rightarrow> u32" where
  "GPIO_GET_INDEX GPIOA = 0"
| "GPIO_GET_INDEX GPIOB = 1"
| "GPIO_GET_INDEX GPIOC = 2"
| "GPIO_GET_INDEX GPIOD = 3"
| "GPIO_GET_INDEX GPIOE = 4"
| "GPIO_GET_INDEX GPIOF = 5"
| "GPIO_GET_INDEX GPIOG = 6"
| "GPIO_GET_INDEX GPIOH = 7"
| "GPIO_GET_INDEX GPIOI = 8"

definition HAL_RCC_GPIO_CLK_ENABLE :: "gpio_port \<Rightarrow> hw \<Rightarrow> hw" where
  "HAL_RCC_GPIO_CLK_ENABLE p h =
     h\<lparr>AHB1ENR := AHB1ENR h OR push_bit (unat (GPIO_GET_INDEX p)) 1\<rparr>"

definition HAL_RCC_SYSCFG_CLK_ENABLE :: "hw \<Rightarrow> hw" where
  "HAL_RCC_SYSCFG_CLK_ENABLE h = h\<lparr>APB2ENR := APB2ENR h OR push_bit 14 1\<rparr>"

definition upd_port :: "gpio_port \<Rightarrow> (gpio_regs \<Rightarrow> gpio_regs) \<Rightarrow> hw \<Rightarrow> hw" where
  "upd_port p f h = h\<lparr>gpio := (gpio h)(p := f (gpio h p))\<rparr>"

definition hw_default :: hw where
  "hw_default = \<lparr>gpio = (\<lambda>_. \<lparr>MODER = 0, OTYPER = 0, OSPEEDR = 0, PUPDR = 0, IDR = 0,
     ODR = 0, AFR0 = 0, AFR1 = 0\<rparr>), EXTICR = (\<lambda>_. 0), IMR = 0, EMR = 0, RTSR = 0, FTSR = 0,
     PR = 0, AHB1ENR = 0, APB2ENR = 0\<rparr>"

section \<open>\<open>HAL_GPIO_Init\<close> and \<open>HAL_GPIO_DeInit\<close>\<close>

text \<open>The two halves of the body of the loop over the 16 pin positions: the port, then EXTI.\<close>

definition init_port_pin :: "GPIO_InitTypeDef \<Rightarrow> nat \<Rightarrow> gpio_regs \<Rightarrow> gpio_regs" where
  "init_port_pin i position g =
    (let g = (if Mode i = GPIO_MODE_AF_PP \<or> Mode i = GPIO_MODE_AF_OD
              then (if position < 8
                    then g\<lparr>AFR0 := rmw 0xF ((position mod 8) * 4) (Alternate i) (AFR0 g)\<rparr>
                    else g\<lparr>AFR1 := rmw 0xF ((position mod 8) * 4) (Alternate i) (AFR1 g)\<rparr>)
              else g);
         g = g\<lparr>MODER := rmw 3 (position * 2) (Mode i AND GPIO_MODE) (MODER g)\<rparr>;
         g = (if Mode i = GPIO_MODE_OUTPUT_PP \<or> Mode i = GPIO_MODE_AF_PP \<or>
                 Mode i = GPIO_MODE_OUTPUT_OD \<or> Mode i = GPIO_MODE_AF_OD
              then g\<lparr>OSPEEDR := rmw 3 (position * 2) (Speed i) (OSPEEDR g),
                     OTYPER := rmw 1 position (drop_bit 4 (Mode i AND GPIO_OUTPUT_TYPE))
                       (OTYPER g)\<rparr>
              else g)
     in g\<lparr>PUPDR := rmw 3 (position * 2) (Pull i) (PUPDR g)\<rparr>)"

definition set_line :: "bool \<Rightarrow> u32 \<Rightarrow> u32 \<Rightarrow> u32" where
  "set_line on iocurrent temp =
    (let temp = temp AND NOT iocurrent in if on then temp OR iocurrent else temp)"

definition init_exti_pin ::
    "gpio_port \<Rightarrow> GPIO_InitTypeDef \<Rightarrow> nat \<Rightarrow> u32 \<Rightarrow> hw \<Rightarrow> hw" where
  "init_exti_pin p i position iocurrent h =
    (if Mode i AND EXTI_MODE = EXTI_MODE then
       let h = HAL_RCC_SYSCFG_CLK_ENABLE h in
       h\<lparr>EXTICR := (EXTICR h)(position div 4 :=
             rmw 0xF (4 * (position mod 4)) (GPIO_GET_INDEX p) (EXTICR h (position div 4))),
         IMR := set_line (Mode i AND GPIO_MODE_IT = GPIO_MODE_IT) iocurrent (IMR h),
         EMR := set_line (Mode i AND GPIO_MODE_EVT = GPIO_MODE_EVT) iocurrent (EMR h),
         RTSR := set_line (Mode i AND RISING_EDGE = RISING_EDGE) iocurrent (RTSR h),
         FTSR := set_line (Mode i AND FALLING_EDGE = FALLING_EDGE) iocurrent (FTSR h)\<rparr>
     else h)"

definition HAL_GPIO_Init_pos :: "gpio_port \<Rightarrow> GPIO_InitTypeDef \<Rightarrow> nat \<Rightarrow> hw \<Rightarrow> hw" where
  "HAL_GPIO_Init_pos p i position h =
    (let ioposition = push_bit position 1; iocurrent = Pin i AND ioposition
     in if iocurrent = ioposition
        then init_exti_pin p i position iocurrent (upd_port p (init_port_pin i position) h)
        else h)"

definition HAL_GPIO_Init :: "gpio_port \<Rightarrow> GPIO_InitTypeDef \<Rightarrow> hw \<Rightarrow> hw" where
  "HAL_GPIO_Init p i h = fold (HAL_GPIO_Init_pos p i) [0..<16] h"

definition deinit_port_pin :: "nat \<Rightarrow> gpio_regs \<Rightarrow> gpio_regs" where
  "deinit_port_pin position g =
    (let g = g\<lparr>MODER := MODER g AND NOT (push_bit (position * 2) 3)\<rparr>;
         g = (if position < 8
              then g\<lparr>AFR0 := AFR0 g AND NOT (push_bit ((position mod 8) * 4) 0xF)\<rparr>
              else g\<lparr>AFR1 := AFR1 g AND NOT (push_bit ((position mod 8) * 4) 0xF)\<rparr>)
     in g\<lparr>OSPEEDR := OSPEEDR g AND NOT (push_bit (position * 2) 3),
          OTYPER := OTYPER g AND NOT (push_bit position 1),
          PUPDR := PUPDR g AND NOT (push_bit (position * 2) 3)\<rparr>)"

definition deinit_exti_pin :: "gpio_port \<Rightarrow> nat \<Rightarrow> u32 \<Rightarrow> hw \<Rightarrow> hw" where
  "deinit_exti_pin p position iocurrent h =
    (let msk = push_bit (4 * (position mod 4)) 0xF; tmp = EXTICR h (position div 4) AND msk
     in if tmp = push_bit (4 * (position mod 4)) (GPIO_GET_INDEX p)
        then h\<lparr>EXTICR := (EXTICR h)(position div 4 := EXTICR h (position div 4) AND NOT msk),
               IMR := IMR h AND NOT iocurrent, EMR := EMR h AND NOT iocurrent,
               RTSR := RTSR h AND NOT iocurrent, FTSR := FTSR h AND NOT iocurrent\<rparr>
        else h)"

definition HAL_GPIO_DeInit_pos :: "gpio_port \<Rightarrow> u32 \<Rightarrow> nat \<Rightarrow> hw \<Rightarrow> hw" where
  "HAL_GPIO_DeInit_pos p GPIO_Pin position h =
    (let ioposition = push_bit position 1; iocurrent = GPIO_Pin AND ioposition
     in if iocurrent = ioposition
        then deinit_exti_pin p position iocurrent (upd_port p (deinit_port_pin position) h)
        else h)"

definition HAL_GPIO_DeInit :: "gpio_port \<Rightarrow> u32 \<Rightarrow> hw \<Rightarrow> hw" where
  "HAL_GPIO_DeInit p GPIO_Pin h = fold (HAL_GPIO_DeInit_pos p GPIO_Pin) [0..<16] h"

section \<open>Reading and writing pins\<close>

definition HAL_GPIO_ReadPin :: "hw \<Rightarrow> gpio_port \<Rightarrow> u16 \<Rightarrow> GPIO_PinState" where
  "HAL_GPIO_ReadPin h p pin =
    (if IDR (gpio h p) AND ucast pin \<noteq> 0 then GPIO_PIN_SET else GPIO_PIN_RESET)"

text \<open>
  A write to BSRR: the high half resets bits of ODR, the low half sets them, and set wins
  when both ask for the same bit.
\<close>

definition write_BSRR :: "u32 \<Rightarrow> gpio_regs \<Rightarrow> gpio_regs" where
  "write_BSRR v g = g\<lparr>ODR := (ODR g AND NOT (drop_bit 16 v)) OR (v AND 0xFFFF)\<rparr>"

definition HAL_GPIO_WritePin :: "gpio_port \<Rightarrow> u16 \<Rightarrow> GPIO_PinState \<Rightarrow> hw \<Rightarrow> hw" where
  "HAL_GPIO_WritePin p pin st h =
    (if st \<noteq> GPIO_PIN_RESET then upd_port p (write_BSRR (ucast pin)) h
     else upd_port p (write_BSRR (push_bit 16 (ucast pin))) h)"

definition HAL_GPIO_TogglePin :: "gpio_port \<Rightarrow> u16 \<Rightarrow> hw \<Rightarrow> hw" where
  "HAL_GPIO_TogglePin p pin h = upd_port p (\<lambda>g. g\<lparr>ODR := ODR g XOR ucast pin\<rparr>) h"

section \<open>The LED macros\<close>

definition digitalHi :: "gpio_port \<Rightarrow> u16 \<Rightarrow> hw \<Rightarrow> hw" where
  "digitalHi p i h = upd_port p (write_BSRR (ucast i)) h"

definition digitalLo :: "gpio_port \<Rightarrow> u16 \<Rightarrow> hw \<Rightarrow> hw" where
  "digitalLo p i h = upd_port p (write_BSRR (push_bit 16 (ucast i))) h"

definition digitalToggle :: "gpio_port \<Rightarrow> u16 \<Rightarrow> hw \<Rightarrow> hw" where
  "digitalToggle p i h = upd_port p (\<lambda>g. g\<lparr>ODR := ODR g XOR ucast i\<rparr>) h"

datatype led = L1 | L2 | L3

fun LED_PIN :: "led \<Rightarrow> u16" where
  "LED_PIN L1 = GPIO_PIN 6"
| "LED_PIN L2 = GPIO_PIN 7"
| "LED_PIN L3 = GPIO_PIN 8"

fun LED_GPIO_PORT :: "led \<Rightarrow> gpio_port" where
  "LED_GPIO_PORT L1 = GPIOF"
| "LED_GPIO_PORT L2 = GPIOF"
| "LED_GPIO_PORT L3 = GPIOF"

text \<open>The macro \<open>LED3(a)\<close> names the port of LED 2.\<close>

fun LED :: "led \<Rightarrow> GPIO_PinState \<Rightarrow> hw \<Rightarrow> hw" where
  "LED L1 a h = HAL_GPIO_WritePin (LED_GPIO_PORT L1) (LED_PIN L1) a h"
| "LED L2 a h = HAL_GPIO_WritePin (LED_GPIO_PORT L2) (LED_PIN L2) a h"
| "LED L3 a h = HAL_GPIO_WritePin (LED_GPIO_PORT L2) (LED_PIN L3) a h"

definition LED_TOGGLE :: "led \<Rightarrow> hw \<Rightarrow> hw" where
  "LED_TOGGLE l = digitalToggle (LED_GPIO_PORT l) (LED_PIN l)"

definition LED_OFF :: "led \<Rightarrow> hw \<Rightarrow> hw" where
  "LED_OFF l = digitalHi (LED_GPIO_PORT l) (LED_PIN l)"

definition LED_ON :: "led \<Rightarrow> hw \<Rightarrow> hw" where
  "LED_ON l = digitalLo (LED_GPIO_PORT l) (LED_PIN l)"

definition LED_RED :: "hw \<Rightarrow> hw" where
  "LED_RED h = LED_OFF L3 (LED_OFF L2 (LED_ON L1 h))"
definition LED_GREEN :: "hw \<Rightarrow> hw" where
  "LED_GREEN h = LED_OFF L3 (LED_ON L2 (LED_OFF L1 h))"
definition LED_BLUE :: "hw \<Rightarrow> hw" where
  "LED_BLUE h = LED_ON L3 (LED_OFF L2 (LED_OFF L1 h))"
definition LED_YELLOW :: "hw \<Rightarrow> hw" where
  "LED_YELLOW h = LED_OFF L3 (LED_ON L2 (LED_ON L1 h))"
definition LED_PURPLE :: "hw \<Rightarrow> hw" where
  "LED_PURPLE h = LED_ON L3 (LED_OFF L2 (LED_ON L1 h))"
definition LED_CYAN :: "hw \<Rightarrow> hw" where
  "LED_CYAN h = LED_ON L3 (LED_ON L2 (LED_OFF L1 h))"
definition LED_WHITE :: "hw \<Rightarrow> hw" where
  "LED_WHITE h = LED_ON L3 (LED_ON L2 (LED_ON L1 h))"
definition LED_RGBOFF :: "hw \<Rightarrow> hw" where
  "LED_RGBOFF h = LED_OFF L3 (LED_OFF L2 (LED_OFF L1 h))"

text \<open>
  \<open>LED_GPIO_Config\<close>: the same structure is used for the three pins; \<open>Alternate\<close> is
  never assigned (its indeterminate value is the parameter \<open>junk\<close>, not read in this mode).
\<close>

definition LED_GPIO_Config :: "u32 \<Rightarrow> hw \<Rightarrow> hw" where
  "LED_GPIO_Config junk h =
    (let h = HAL_RCC_GPIO_CLK_ENABLE GPIOF (HAL_RCC_GPIO_CLK_ENABLE GPIOF
               (HAL_RCC_GPIO_CLK_ENABLE GPIOF h));
         i = \<lparr>Pin = ucast (LED_PIN L1), Mode = GPIO_MODE_OUTPUT_PP, Pull = GPIO_PULLUP,
              Speed = GPIO_SPEED_FREQ_VERY_HIGH, Alternate = junk\<rparr>;
         h = HAL_GPIO_Init (LED_GPIO_PORT L1) i h;
         i = i\<lparr>Pin := ucast (LED_PIN L2)\<rparr>;
         h = HAL_GPIO_Init (LED_GPIO_PORT L2) i h;
         i = i\<lparr>Pin := ucast (LED_PIN L3)\<rparr>;
         h = HAL_GPIO_Init (LED_GPIO_PORT L3) i h
     in LED_RGBOFF h)"

text \<open>An LED is driven low to light.\<close>

definition led_bit :: "led \<Rightarrow> nat" where
  "led_bit l = (case l of L1 \<Rightarrow> 6 | L2 \<Rightarrow> 7 | L3 \<Rightarrow> 8)"

definition led_lit :: "hw \<Rightarrow> led \<Rightarrow> bool" where
  "led_lit h l \<longleftrightarrow> \<not> bit (ODR (gpio h GPIOF)) (led_bit l)"

section \<open>What initialising pins does\<close>

lemma bit_pow_u32: "bit ((2 :: u32) ^ n) k \<longleftrightarrow> k = n \<and> n < 32"
  by (auto simp: bit_exp_iff)

lemma pin_selected: "n < 32 \<Longrightarrow> (w :: u32) AND 2 ^ n = 2 ^ n \<longleftrightarrow> bit w n"
proof
  assume n: "n < 32" and "w AND 2 ^ n = 2 ^ n"
  then have "bit (w AND 2 ^ n) n" by (simp add: bit_pow_u32)
  then show "bit w n" by (simp add: bit_and_iff)
next
  assume "n < 32" "bit w n"
  then show "w AND 2 ^ n = 2 ^ n"
    by (intro bit_word_eqI) (auto simp: bit_and_iff bit_pow_u32)
qed

lemma upd_port_sel [simp]:
  "gpio (upd_port p f h) q = (if q = p then f (gpio h p) else gpio h q)"
  "EXTICR (upd_port p f h) = EXTICR h" "IMR (upd_port p f h) = IMR h"
  "EMR (upd_port p f h) = EMR h" "RTSR (upd_port p f h) = RTSR h"
  "FTSR (upd_port p f h) = FTSR h" "PR (upd_port p f h) = PR h"
  "AHB1ENR (upd_port p f h) = AHB1ENR h" "APB2ENR (upd_port p f h) = APB2ENR h"
  by (simp_all add: upd_port_def)

lemma clk_enable_sel [simp]:
  "gpio (HAL_RCC_GPIO_CLK_ENABLE p h) = gpio h" "gpio (HAL_RCC_SYSCFG_CLK_ENABLE h) = gpio h"
  "EXTICR (HAL_RCC_SYSCFG_CLK_ENABLE h) = EXTICR h" "IMR (HAL_RCC_SYSCFG_CLK_ENABLE h) = IMR h"
  "EMR (HAL_RCC_SYSCFG_CLK_ENABLE h) = EMR h" "RTSR (HAL_RCC_SYSCFG_CLK_ENABLE h) = RTSR h"
  "FTSR (HAL_RCC_SYSCFG_CLK_ENABLE h) = FTSR h" "PR (HAL_RCC_SYSCFG_CLK_ENABLE h) = PR h"
  "IMR (HAL_RCC_GPIO_CLK_ENABLE p h) = IMR h" "RTSR (HAL_RCC_GPIO_CLK_ENABLE p h) = RTSR h"
  "FTSR (HAL_RCC_GPIO_CLK_ENABLE p h) = FTSR h" "EXTICR (HAL_RCC_GPIO_CLK_ENABLE p h) = EXTICR h"
  by (simp_all add: HAL_RCC_GPIO_CLK_ENABLE_def HAL_RCC_SYSCFG_CLK_ENABLE_def)

lemma gpio_init_exti_pin [simp]: "gpio (init_exti_pin p i k c h) = gpio h"
  by (simp add: init_exti_pin_def Let_def)

lemma gpio_Init_pos:
  "k < 16 \<Longrightarrow> gpio (HAL_GPIO_Init_pos p i k h) q =
     (if q = p \<and> bit (Pin i) k then init_port_pin i k (gpio h p) else gpio h q)"
  by (simp add: HAL_GPIO_Init_pos_def Let_def pin_selected)

lemma HAL_GPIO_Init_other_port [frame]:
  "q \<noteq> p \<Longrightarrow> gpio (HAL_GPIO_Init p i h) q = gpio h q"
  unfolding HAL_GPIO_Init_def
  by (rule fold_invariant) (simp add: gpio_Init_pos)

lemma init_port_pin_MODER:
  "MODER (init_port_pin i k g) = rmw 3 (k * 2) (Mode i AND GPIO_MODE) (MODER g)"
  by (simp add: init_port_pin_def Let_def)

lemma init_port_pin_PUPDR:
  "PUPDR (init_port_pin i k g) = rmw 3 (k * 2) (Pull i) (PUPDR g)"
  by (simp add: init_port_pin_def Let_def)

lemma init_port_pin_data [frame]:
  "ODR (init_port_pin i k g) = ODR g" "IDR (init_port_pin i k g) = IDR g"
  by (simp_all add: init_port_pin_def Let_def)

lemma mode_field_fits: "(Mode i AND GPIO_MODE) AND 3 = Mode i AND GPIO_MODE"
  by (simp add: GPIO_MODE_def and.assoc)

text \<open>
  One rule for a register of two-bit fields that the loop rewrites pin by pin: a selected
  pin holds the new value, the others keep theirs.
\<close>

lemma HAL_GPIO_Init_field:
  assumes k: "k < 16" and v: "v AND 3 = v"
    and step: "\<And>j g. j < 16 \<Longrightarrow> reg (init_port_pin i j g) = rmw 3 (j * 2) v (reg g)"
  shows "field 3 (k * 2) (reg (gpio (HAL_GPIO_Init p i h) p)) =
    (if bit (Pin i) k then v else field 3 (k * 2) (reg (gpio h p)))"
proof -
  let ?obs = "\<lambda>h. field 3 (k * 2) (reg (gpio h p))"
  have other: "?obs (HAL_GPIO_Init_pos p i j s) = ?obs s"
    if j: "j \<in> set [0..<16]" "j \<noteq> k" for j s
  proof -
    have d: "k * 2 + 2 \<le> j * 2 \<or> j * 2 + 2 \<le> k * 2" "k * 2 + 2 \<le> 32" using j k by auto
    have "field 3 (k * 2) (rmw 3 (j * 2) v r) = field 3 (k * 2) r" for r
      by (rule field_rmw_other [OF bit_mask3 v d])
    with j show ?thesis by (simp add: gpio_Init_pos step)
  qed
  have same: "?obs (HAL_GPIO_Init_pos p i k s) = (if bit (Pin i) k then v else ?obs s)" for s
  proof -
    have "k * 2 + 2 \<le> 32" using k by simp
    then have "field 3 (k * 2) (rmw 3 (k * 2) v r) = v" for r
      by (rule field_rmw_same [OF bit_mask3 v])
    with k show ?thesis by (simp add: gpio_Init_pos step)
  qed
  show ?thesis
    unfolding HAL_GPIO_Init_def
    using fold_observe [of "[0..<16]" k ?obs "HAL_GPIO_Init_pos p i"
        "\<lambda>x. if bit (Pin i) k then v else x" h, OF other _ same] k by simp
qed

lemma HAL_GPIO_Init_mode:
  "k < 16 \<Longrightarrow> field 3 (k * 2) (MODER (gpio (HAL_GPIO_Init p i h) p)) =
    (if bit (Pin i) k then Mode i AND GPIO_MODE else field 3 (k * 2) (MODER (gpio h p)))"
  by (rule HAL_GPIO_Init_field [OF _ mode_field_fits init_port_pin_MODER])

lemma HAL_GPIO_Init_pull:
  "k < 16 \<Longrightarrow> Pull i AND 3 = Pull i \<Longrightarrow>
   field 3 (k * 2) (PUPDR (gpio (HAL_GPIO_Init p i h) p)) =
    (if bit (Pin i) k then Pull i else field 3 (k * 2) (PUPDR (gpio h p)))"
  by (rule HAL_GPIO_Init_field [OF _ _ init_port_pin_PUPDR])

lemma HAL_GPIO_Init_data [frame]:
  "ODR (gpio (HAL_GPIO_Init p i h) q) = ODR (gpio h q)"
  "IDR (gpio (HAL_GPIO_Init p i h) q) = IDR (gpio h q)"
  unfolding HAL_GPIO_Init_def
  by (rule fold_invariant, simp add: gpio_Init_pos frame)+

section \<open>External interrupt lines\<close>

lemma bit_set_line:
  "n < 32 \<Longrightarrow> bit (set_line on (2 ^ k) r) n \<longleftrightarrow> (if n = k then on else bit r n)"
  by (auto simp: set_line_def Let_def bit_or_iff bit_and_iff bit_not_iff bit_pow_u32)

text \<open>
  In an EXTI mode every selected pin's line gets the mask and edge bits the mode asks for;
  otherwise the EXTI registers stay.
\<close>

lemma HAL_GPIO_Init_line:
  assumes k: "k < 16"
    and reg: "\<And>p i j c h. reg (init_exti_pin p i j c h) =
      (if Mode i AND EXTI_MODE = EXTI_MODE then set_line (Mode i AND flg = flg) c (reg h) else reg h)"
    and port: "\<And>p f h. reg (upd_port p f h) = reg h"
  shows "bit (reg (HAL_GPIO_Init p i h)) k =
    (if Mode i AND EXTI_MODE = EXTI_MODE \<and> bit (Pin i) k then Mode i AND flg = flg
     else bit (reg h) k)"
proof -
  let ?obs = "\<lambda>h. bit (reg h) k"
  have pos: "?obs (HAL_GPIO_Init_pos p i j s) =
      (if Mode i AND EXTI_MODE = EXTI_MODE \<and> bit (Pin i) j \<and> j = k
       then Mode i AND flg = flg else ?obs s)"
    if "j < 16" for j s
    using that k
    by (cases "j = k") (auto simp: HAL_GPIO_Init_pos_def Let_def pin_selected
        pin_selected [THEN iffD2] reg port bit_set_line)
  have other: "\<And>j s. j \<in> set [0..<16] \<Longrightarrow> j \<noteq> k \<Longrightarrow> ?obs (HAL_GPIO_Init_pos p i j s) = ?obs s"
    by (simp add: pos)
  have same: "\<And>s. ?obs (HAL_GPIO_Init_pos p i k s) =
      (if Mode i AND EXTI_MODE = EXTI_MODE \<and> bit (Pin i) k then Mode i AND flg = flg else ?obs s)"
    using k by (simp add: pos)
  show ?thesis
    unfolding HAL_GPIO_Init_def
    using fold_observe [of "[0..<16]" k ?obs "HAL_GPIO_Init_pos p i"
        "\<lambda>x. if Mode i AND EXTI_MODE = EXTI_MODE \<and> bit (Pin i) k then Mode i AND flg = flg else x"
        h, OF other _ same] k by simp
qed

lemma HAL_GPIO_Init_IMR:
  "k < 16 \<Longrightarrow> bit (IMR (HAL_GPIO_Init p i h)) k =
    (if Mode i AND EXTI_MODE = EXTI_MODE \<and> bit (Pin i) k
     then Mode i AND GPIO_MODE_IT = GPIO_MODE_IT else bit (IMR h) k)"
  by (rule HAL_GPIO_Init_line) (simp_all add: init_exti_pin_def Let_def)

lemma HAL_GPIO_Init_RTSR:
  "k < 16 \<Longrightarrow> bit (RTSR (HAL_GPIO_Init p i h)) k =
    (if Mode i AND EXTI_MODE = EXTI_MODE \<and> bit (Pin i) k
     then Mode i AND RISING_EDGE = RISING_EDGE else bit (RTSR h) k)"
  by (rule HAL_GPIO_Init_line) (simp_all add: init_exti_pin_def Let_def)

lemma HAL_GPIO_Init_FTSR:
  "k < 16 \<Longrightarrow> bit (FTSR (HAL_GPIO_Init p i h)) k =
    (if Mode i AND EXTI_MODE = EXTI_MODE \<and> bit (Pin i) k
     then Mode i AND FALLING_EDGE = FALLING_EDGE else bit (FTSR h) k)"
  by (rule HAL_GPIO_Init_line) (simp_all add: init_exti_pin_def Let_def)

section \<open>The LEDs\<close>

lemma bit_GPIO_PIN: "bit (GPIO_PIN n :: u16) k \<longleftrightarrow> k = n \<and> n < 16"
  by (auto simp: GPIO_PIN_def bit_exp_iff)

lemma write_BSRR_bit:
  "n < 16 \<Longrightarrow> bit (ODR (write_BSRR v g)) n \<longleftrightarrow> bit v n \<or> (bit (ODR g) n \<and> \<not> bit v (n + 16))"
proof -
  assume n: "n < 16"
  have "bit (0xFFFF :: u32) n" 
  proof -
    have "(0xFFFF :: u32) = mask 16" by (simp add: mask_eq_exp_minus_1)
    with n show ?thesis by (simp only: bit_mask_iff) simp
  qed
  with n show ?thesis
    by (auto simp: write_BSRR_def bit_or_iff bit_and_iff bit_not_iff bit_drop_bit_eq add.commute)
qed

lemma led_bit_lt [simp]: "led_bit l < 16"
  by (cases l) (simp_all add: led_bit_def)

lemma led_bit_gap [simp]: "led_bit k + 16 \<noteq> led_bit l" "\<not> 16 \<le> led_bit k"
  by (cases l; cases k; simp add: led_bit_def) (cases k; simp add: led_bit_def)

lemma led_bit_inj [simp]: "led_bit l = led_bit k \<longleftrightarrow> l = k"
  by (cases l; cases k) (simp_all add: led_bit_def)

lemma bit_LED_PIN: "bit (ucast (LED_PIN l) :: u32) n \<longleftrightarrow> n = led_bit l"
  by (cases l) (auto simp: bit_ucast_iff bit_GPIO_PIN led_bit_def)

lemma LED_GPIO_PORT_eq [simp]: "LED_GPIO_PORT l = GPIOF"
  by (cases l) simp_all

text \<open>Each macro changes exactly the LED it names.\<close>

lemma led_lit_ON: "led_lit (LED_ON l h) k \<longleftrightarrow> k = l \<or> led_lit h k"
  by (auto simp: led_lit_def LED_ON_def digitalLo_def write_BSRR_bit bit_push_bit_iff bit_LED_PIN)

lemma led_lit_OFF: "led_lit (LED_OFF l h) k \<longleftrightarrow> k \<noteq> l \<and> led_lit h k"
  by (auto simp: led_lit_def LED_OFF_def digitalHi_def write_BSRR_bit bit_LED_PIN)

lemma led_lit_TOGGLE: "led_lit (LED_TOGGLE l h) k \<longleftrightarrow> (led_lit h k \<noteq> (k = l))"
  by (auto simp: led_lit_def LED_TOGGLE_def digitalToggle_def bit_xor_iff bit_LED_PIN)

lemma led_lit_WritePin: "led_lit (LED l a h) k \<longleftrightarrow> (if k = l then a = GPIO_PIN_RESET else led_lit h k)"
  by (cases l; cases a)
    (auto simp: led_lit_def HAL_GPIO_WritePin_def write_BSRR_bit bit_push_bit_iff bit_ucast_iff
      bit_GPIO_PIN led_bit_def split: led.splits)

lemmas led_lit_simps = led_lit_ON led_lit_OFF led_lit_TOGGLE led_lit_WritePin

section \<open>Properties\<close>

lemma bit_pin_u32: "n < 16 \<Longrightarrow> bit (ucast (GPIO_PIN n) :: u32) k \<longleftrightarrow> k = n"
  by (auto simp: bit_ucast_iff bit_GPIO_PIN)

lemma HAL_GPIO_Init_unselected:
  "\<not> bit (Pin i) k \<Longrightarrow> k < 16 \<Longrightarrow>
   field 3 (k * 2) (MODER (gpio (HAL_GPIO_Init p i h) q)) = field 3 (k * 2) (MODER (gpio h q))"
  by (cases "q = p") (simp_all add: HAL_GPIO_Init_mode frame)

lemma ODR_LED_macros:
  "MODER (gpio (LED_OFF l h) q) = MODER (gpio h q)" "MODER (gpio (LED_ON l h) q) = MODER (gpio h q)"
  "PUPDR (gpio (LED_OFF l h) q) = PUPDR (gpio h q)" "PUPDR (gpio (LED_ON l h) q) = PUPDR (gpio h q)"
  "q \<noteq> GPIOF \<Longrightarrow> gpio (LED_OFF l h) q = gpio h q" "q \<noteq> GPIOF \<Longrightarrow> gpio (LED_ON l h) q = gpio h q"
  by (simp_all add: LED_OFF_def LED_ON_def digitalHi_def digitalLo_def write_BSRR_def)

text \<open>\<open>HAL_GPIO_Init\<close> gives every pin it names the mode and the pull of the structure and,
  in an EXTI mode, the interrupt mask and the two edge selections that mode asks for; the pins
  it does not name, the other ports and the output data keep their values.\<close>

theorem HAL_GPIO_Init_correct:
  assumes "Pull i AND 3 = Pull i" and "k < 16"
  shows "field 3 (k * 2) (MODER (gpio (HAL_GPIO_Init p i h) q)) =
      (if q = p \<and> bit (Pin i) k then Mode i AND GPIO_MODE else field 3 (k * 2) (MODER (gpio h q))) \<and>
    field 3 (k * 2) (PUPDR (gpio (HAL_GPIO_Init p i h) q)) =
      (if q = p \<and> bit (Pin i) k then Pull i else field 3 (k * 2) (PUPDR (gpio h q))) \<and>
    bit (IMR (HAL_GPIO_Init p i h)) k =
      (if Mode i AND EXTI_MODE = EXTI_MODE \<and> bit (Pin i) k
       then Mode i AND GPIO_MODE_IT = GPIO_MODE_IT else bit (IMR h) k) \<and>
    bit (RTSR (HAL_GPIO_Init p i h)) k =
      (if Mode i AND EXTI_MODE = EXTI_MODE \<and> bit (Pin i) k
       then Mode i AND RISING_EDGE = RISING_EDGE else bit (RTSR h) k) \<and>
    bit (FTSR (HAL_GPIO_Init p i h)) k =
      (if Mode i AND EXTI_MODE = EXTI_MODE \<and> bit (Pin i) k
       then Mode i AND FALLING_EDGE = FALLING_EDGE else bit (FTSR h) k) \<and>
    ODR (gpio (HAL_GPIO_Init p i h) q) = ODR (gpio h q)"
  using assms
  by (cases "q = p")
    (simp_all add: HAL_GPIO_Init_mode HAL_GPIO_Init_pull HAL_GPIO_Init_IMR HAL_GPIO_Init_RTSR
      HAL_GPIO_Init_FTSR frame)

lemma HAL_GPIO_Init_correct_witness:
  "field 3 12 (MODER (gpio (HAL_GPIO_Init GPIOF \<lparr>Pin = 0x40, Mode = GPIO_MODE_OUTPUT_PP,
     Pull = GPIO_PULLUP, Speed = 3, Alternate = 0\<rparr> hw_default) GPIOF)) = 1"
  using HAL_GPIO_Init_correct [of "\<lparr>Pin = 0x40, Mode = GPIO_MODE_OUTPUT_PP,
     Pull = GPIO_PULLUP, Speed = 3, Alternate = 0\<rparr>" 6 GPIOF hw_default GPIOF]
  by (simp add: gpio_consts bit_numeral_rec)

text \<open>After \<open>LED_GPIO_Config\<close> the three LEDs are off, whatever the output register held, their
  pins PF6 to PF8 are push-pull outputs with a pull-up, and no other port and no other pin of
  port F changes its mode.\<close>

theorem LED_GPIO_Config_correct:
  "(\<forall>l. \<not> led_lit (LED_GPIO_Config junk h) l \<and>
      field 3 (led_bit l * 2) (MODER (gpio (LED_GPIO_Config junk h) GPIOF)) = GPIO_MODE_OUTPUT_PP \<and>
      field 3 (led_bit l * 2) (PUPDR (gpio (LED_GPIO_Config junk h) GPIOF)) = GPIO_PULLUP) \<and>
   (\<forall>q. q \<noteq> GPIOF \<longrightarrow> gpio (LED_GPIO_Config junk h) q = gpio h q) \<and>
   (\<forall>k < 16. k \<notin> range led_bit \<longrightarrow>
      field 3 (k * 2) (MODER (gpio (LED_GPIO_Config junk h) GPIOF)) =
      field 3 (k * 2) (MODER (gpio h GPIOF)))"
proof -
  have p: "(1 :: u32) AND 3 = 1" by simp
  have U: "(UNIV :: led set) = {L1, L2, L3}" using led.exhaust by auto
  have r: "range led_bit = {6, 7, 8}"
    unfolding U image_insert image_empty by (simp add: led_bit_def)
  have *: "field 3 (k * 2) (MODER (gpio (LED_GPIO_Config junk h) GPIOF)) =
      (if k \<in> range led_bit then 1 else field 3 (k * 2) (MODER (gpio h GPIOF)))" if "k < 16" for k
    using that unfolding r
    by (auto simp: LED_GPIO_Config_def Let_def LED_RGBOFF_def ODR_LED_macros HAL_GPIO_Init_mode
        HAL_GPIO_Init_mode [of 6, simplified] HAL_GPIO_Init_mode [of 7, simplified] bit_pin_u32 gpio_consts)
  have pull: "field 3 (k * 2) (PUPDR (gpio (LED_GPIO_Config junk h) GPIOF)) =
      (if k \<in> range led_bit then 1 else field 3 (k * 2) (PUPDR (gpio h GPIOF)))" if "k < 16" for k
    using that unfolding r
    by (simp add: LED_GPIO_Config_def Let_def LED_RGBOFF_def ODR_LED_macros HAL_GPIO_Init_pull
        HAL_GPIO_Init_pull [of 6, simplified] HAL_GPIO_Init_pull [of 7, simplified] bit_pin_u32 gpio_consts)
  have "\<not> led_lit (LED_GPIO_Config junk h) l" for l
    by (cases l) (simp_all add: LED_GPIO_Config_def Let_def LED_RGBOFF_def led_lit_simps)
  moreover have "gpio (LED_GPIO_Config junk h) q = gpio h q" if "q \<noteq> GPIOF" for q
    using that by (simp add: LED_GPIO_Config_def Let_def LED_RGBOFF_def ODR_LED_macros frame)
  ultimately show ?thesis using * pull by (simp add: GPIO_MODE_OUTPUT_PP_def GPIO_PULLUP_def)
qed

lemma LED_GPIO_Config_correct_witness:
  "\<not> led_lit (LED_GPIO_Config 0 hw_default) L1 \<and>
   field 3 (5 * 2) (MODER (gpio (LED_GPIO_Config 0 hw_default) GPIOF)) = 0"
proof -
  have "5 \<notin> range led_bit" by (auto simp: led_bit_def split: led.splits)
  moreover have "field 3 (5 * 2) (MODER (gpio hw_default GPIOF)) = 0"
    by (simp add: hw_default_def field_def)
  ultimately show ?thesis
    using LED_GPIO_Config_correct [of 0 hw_default] by (auto dest!: spec [of _ "5 :: nat"])
qed

end
