(* ===== verification/RtosList.thy ===== *)
theory RtosList
  imports Prelude
begin

text \<open>
  The kernel's lists (FreeRTOS/src/list.c and the access macros of FreeRTOS/include/list.h) at the
  level of their pointers: a store of list items, doubly linked into a ring with the end marker
  \<open>xListEnd\<close> of their list, and the walking pointer \<open>pxIndex\<close>. \<open>ring_rep h l r\<close> relates a list
  to the sequence \<open>r\<close> of its pointers read from \<open>pxIndex\<close> on; each operation of the source is
  proved to be an operation on that sequence. The integrity-check fields are compiled out.
\<close>

section \<open>Items, lists and the store\<close>

text \<open>A \<open>ListItem_t *\<close> is the marker of a list (a \<open>MiniListItem_t\<close> cast) or an item proper.\<close>

datatype ptr = End nat | Item nat

record list_item =
  xItemValue :: u32
  pxNext :: ptr
  pxPrevious :: ptr
  pvOwner :: nat
  pvContainer :: "nat option"

record List_t =
  uxNumberOfItems :: u32
  pxIndex :: ptr

record list_store =
  item :: "ptr \<Rightarrow> list_item"
  list_of :: "nat \<Rightarrow> List_t"

definition portMAX_DELAY :: u32 where
  "portMAX_DELAY = 0xFFFFFFFF"

definition upd_item :: "ptr \<Rightarrow> (list_item \<Rightarrow> list_item) \<Rightarrow> list_store \<Rightarrow> list_store" where
  "upd_item p f h = h\<lparr>item := (item h)(p := f (item h p))\<rparr>"

definition upd_list :: "nat \<Rightarrow> (List_t \<Rightarrow> List_t) \<Rightarrow> list_store \<Rightarrow> list_store" where
  "upd_list l f h = h\<lparr>list_of := (list_of h)(l := f (list_of h l))\<rparr>"

lemma store_sel [simp]:
  "item (upd_item p f h) q = (if q = p then f (item h p) else item h q)"
  "list_of (upd_item p f h) = list_of h"
  "item (upd_list l g h) = item h"
  "list_of (upd_list l g h) k = (if k = l then g (list_of h l) else list_of h k)"
  by (simp_all add: upd_item_def upd_list_def)

section \<open>The operations of list.c\<close>

definition vListInitialise :: "nat \<Rightarrow> list_store \<Rightarrow> list_store" where
  "vListInitialise pxList h =
    (let h = upd_list pxList (pxIndex_update (\<lambda>_. End pxList)) h;
         h = upd_item (End pxList) (xItemValue_update (\<lambda>_. portMAX_DELAY)) h;
         h = upd_item (End pxList) (pxNext_update (\<lambda>_. End pxList)) h;
         h = upd_item (End pxList) (pxPrevious_update (\<lambda>_. End pxList)) h
     in upd_list pxList (uxNumberOfItems_update (\<lambda>_. 0)) h)"

definition vListInitialiseItem :: "nat \<Rightarrow> list_store \<Rightarrow> list_store" where
  "vListInitialiseItem pxItem = upd_item (Item pxItem) (pvContainer_update (\<lambda>_. None))"

definition vListInsertEnd :: "nat \<Rightarrow> nat \<Rightarrow> list_store \<Rightarrow> list_store" where
  "vListInsertEnd pxList n h =
    (let new = Item n; idx = pxIndex (list_of h pxList);
         h = upd_item new (pxNext_update (\<lambda>_. idx)) h;
         h = upd_item new (pxPrevious_update (\<lambda>_. pxPrevious (item h idx))) h;
         h = upd_item (pxPrevious (item h idx)) (pxNext_update (\<lambda>_. new)) h;
         h = upd_item idx (pxPrevious_update (\<lambda>_. new)) h;
         h = upd_item new (pvContainer_update (\<lambda>_. Some pxList)) h
     in upd_list pxList (uxNumberOfItems_update (\<lambda>k. k + 1)) h)"

text \<open>The walk to the place of insertion; nothing in the loop bounds it but the marker's value.\<close>

partial_function (option) find_place :: "list_store \<Rightarrow> u32 \<Rightarrow> ptr \<Rightarrow> ptr option" where
  "find_place h v pxIterator =
    (if xItemValue (item h (pxNext (item h pxIterator))) \<le> v
     then find_place h v (pxNext (item h pxIterator)) else Some pxIterator)"

definition vListInsert :: "nat \<Rightarrow> nat \<Rightarrow> list_store \<Rightarrow> list_store option" where
  "vListInsert pxList n h =
    (let new = Item n; v = xItemValue (item h new)
     in Option.bind
       (if v = portMAX_DELAY then Some (pxPrevious (item h (End pxList)))
        else find_place h v (End pxList))
       (\<lambda>it.
         let h = upd_item new (pxNext_update (\<lambda>_. pxNext (item h it))) h;
             h = upd_item (pxNext (item h new)) (pxPrevious_update (\<lambda>_. new)) h;
             h = upd_item new (pxPrevious_update (\<lambda>_. it)) h;
             h = upd_item it (pxNext_update (\<lambda>_. new)) h;
             h = upd_item new (pvContainer_update (\<lambda>_. Some pxList)) h
         in Some (upd_list pxList (uxNumberOfItems_update (\<lambda>k. k + 1)) h)))"

definition uxListRemove :: "nat \<Rightarrow> list_store \<Rightarrow> (u32 \<times> list_store) option" where
  "uxListRemove n h =
    (let x = Item n in
     case pvContainer (item h x) of
       None \<Rightarrow> None
     | Some l \<Rightarrow>
         let h = upd_item (pxNext (item h x)) (pxPrevious_update (\<lambda>_. pxPrevious (item h x))) h;
             h = upd_item (pxPrevious (item h x)) (pxNext_update (\<lambda>_. pxNext (item h x))) h;
             h = (if pxIndex (list_of h l) = x
                  then upd_list l (pxIndex_update (\<lambda>_. pxPrevious (item h x))) h else h);
             h = upd_item x (pvContainer_update (\<lambda>_. None)) h;
             h = upd_list l (uxNumberOfItems_update (\<lambda>k. k - 1)) h
         in Some (uxNumberOfItems (list_of h l), h))"

section \<open>The access macros of list.h\<close>

definition listLIST_IS_EMPTY :: "list_store \<Rightarrow> nat \<Rightarrow> bool" where
  "listLIST_IS_EMPTY h l \<longleftrightarrow> uxNumberOfItems (list_of h l) = 0"

definition listGET_OWNER_OF_HEAD_ENTRY :: "list_store \<Rightarrow> nat \<Rightarrow> nat" where
  "listGET_OWNER_OF_HEAD_ENTRY h l = pvOwner (item h (pxNext (item h (End l))))"

definition listGET_ITEM_VALUE_OF_HEAD_ENTRY :: "list_store \<Rightarrow> nat \<Rightarrow> u32" where
  "listGET_ITEM_VALUE_OF_HEAD_ENTRY h l = xItemValue (item h (pxNext (item h (End l))))"

definition listGET_OWNER_OF_NEXT_ENTRY :: "nat \<Rightarrow> list_store \<Rightarrow> nat \<times> list_store" where
  "listGET_OWNER_OF_NEXT_ENTRY l h =
    (let h = upd_list l (pxIndex_update (\<lambda>i. pxNext (item h i))) h;
         h = (if pxIndex (list_of h l) = End l
              then upd_list l (pxIndex_update (\<lambda>i. pxNext (item h i))) h else h)
     in (pvOwner (item h (pxIndex (list_of h l))), h))"

section \<open>Rings\<close>

fun linked :: "list_store \<Rightarrow> ptr list \<Rightarrow> bool" where
  "linked h (p # q # ps) \<longleftrightarrow> pxNext (item h p) = q \<and> pxPrevious (item h q) = p \<and> linked h (q # ps)"
| "linked h _ \<longleftrightarrow> True"

definition circ :: "list_store \<Rightarrow> ptr list \<Rightarrow> bool" where
  "circ h ps \<longleftrightarrow> ps \<noteq> [] \<and> distinct ps \<and> linked h (ps @ [hd ps])"

lemma linked_append:
  "linked h (ps @ q # qs) \<longleftrightarrow> linked h (ps @ [q]) \<and> linked h (q # qs)"
  by (induction h ps rule: linked.induct) (auto simp: neq_Nil_conv)

lemma linked_snoc2:
  "linked h (ps @ [p, q]) \<longleftrightarrow>
   linked h (ps @ [p]) \<and> pxNext (item h p) = q \<and> pxPrevious (item h q) = p"
  using linked_append [of h ps p "[q]"] by simp

text \<open>A ring may be read from any of its members.\<close>

lemma circ_rotate: "circ h (ps @ qs) \<longleftrightarrow> circ h (qs @ ps)"
proof -
  have "circ h (qs @ ps)" if "circ h (ps @ qs)" for ps qs
  proof (cases "ps = [] \<or> qs = []")
    case False
    then obtain p ps' q qs' where c: "ps = p # ps'" "qs = q # qs'" by (auto simp: neq_Nil_conv)
    have "linked h ((p # ps') @ q # qs' @ [p])" using that c by (simp add: circ_def)
    then have "linked h ((p # ps') @ [q])" "linked h ((q # qs') @ [p])"
      using linked_append [of h "p # ps'" q "qs' @ [p]"] by simp_all
    then have "linked h ((q # qs') @ p # ps' @ [q])"
      using linked_append [of h "q # qs'" p "ps' @ [q]"] by simp
    with that c show ?thesis by (auto simp: circ_def)
  qed (use that in auto)
  then show ?thesis by blast
qed

lemma linked_cong:
  "(\<And>p. p \<in> set (butlast ps) \<Longrightarrow> pxNext (item g p) = pxNext (item h p)) \<Longrightarrow>
   (\<And>p. p \<in> set (tl ps) \<Longrightarrow> pxPrevious (item g p) = pxPrevious (item h p)) \<Longrightarrow>
   linked g ps = linked h ps"
proof (induction h ps rule: linked.induct)
  case (1 h p q ps)
  have "linked g (q # ps) = linked h (q # ps)"
    using 1 by (intro "1.IH") (auto dest: in_set_butlastD split: if_splits)
  with "1.prems"(1) [of p] "1.prems"(2) [of q] show ?case by simp
qed auto

text \<open>The two pointer surgeries: a new last member, and the last member taken out.\<close>

lemma circ_insert:
  assumes "circ h ps" and "x \<notin> set ps"
    and g: "\<And>p. p \<in> set (butlast ps) \<Longrightarrow> pxNext (item g p) = pxNext (item h p)"
      "\<And>p. p \<in> set (tl ps) \<Longrightarrow> pxPrevious (item g p) = pxPrevious (item h p)"
    and "pxNext (item g (last ps)) = x" "pxPrevious (item g x) = last ps"
      "pxNext (item g x) = hd ps" "pxPrevious (item g (hd ps)) = x"
  shows "circ g (ps @ [x])"
proof -
  have "ps \<noteq> []" "distinct ps" using assms(1) by (auto simp: circ_def)
  then obtain qs l where ps: "ps = qs @ [l]" by (metis rev_exhaust)
  have "linked h ps" using assms(1) ps linked_snoc2 [of h qs l "hd ps"] by (simp add: circ_def)
  moreover have "linked g ps = linked h ps" by (rule linked_cong) (use g in auto)
  ultimately have "linked g (qs @ [l])" using ps by simp
  then have "linked g (qs @ [l, x])" using assms ps by (simp add: linked_snoc2)
  then have "linked g ((qs @ [l]) @ [x, hd ps])"
    using assms linked_snoc2 [of g "qs @ [l]" x "hd ps"] by simp
  with \<open>distinct ps\<close> assms(2) ps show ?thesis by (auto simp: circ_def hd_append)
qed

lemma circ_remove:
  assumes "circ h (ps @ [x])" and "ps \<noteq> []"
    and g: "\<And>p. p \<in> set (butlast ps) \<Longrightarrow> pxNext (item g p) = pxNext (item h p)"
      "\<And>p. p \<in> set (tl ps) \<Longrightarrow> pxPrevious (item g p) = pxPrevious (item h p)"
    and "pxNext (item g (last ps)) = hd ps" "pxPrevious (item g (hd ps)) = last ps"
  shows "circ g ps"
proof -
  obtain qs l where ps: "ps = qs @ [l]" using assms(2) by (metis rev_exhaust)
  have "linked h ((qs @ [l]) @ [x, hd ps])" using assms(1,2) ps by (auto simp: circ_def hd_append)
  then have "linked h (qs @ [l, x])" using linked_snoc2 [of h "qs @ [l]" x "hd ps"] by simp
  then have "linked h ps" using ps by (simp add: linked_snoc2)
  moreover have "linked g ps = linked h ps" by (rule linked_cong) (use g in auto)
  ultimately have "linked g (qs @ [l, hd ps])" using assms ps by (simp add: linked_snoc2)
  with assms(1,2) ps show ?thesis by (auto simp: circ_def)
qed

lemma circ_ends:
  assumes "circ h ps"
  shows "pxNext (item h (last ps)) = hd ps" "pxPrevious (item h (hd ps)) = last ps"
proof -
  from assms have "ps \<noteq> []" by (simp add: circ_def)
  then obtain qs l where ps: "ps = qs @ [l]" by (metis rev_exhaust)
  then have "linked h (qs @ [l, hd ps])" using assms by (simp add: circ_def)
  with ps show "pxNext (item h (last ps)) = hd ps" "pxPrevious (item h (hd ps)) = last ps"
    by (simp_all add: linked_snoc2)
qed

lemma circ_step:
  assumes "circ h (us @ p # q # vs)"
  shows "pxNext (item h p) = q" "pxPrevious (item h q) = p"
  using assms linked_append [of h us p "q # vs @ [hd (us @ p # q # vs)]"]
  by (auto simp: circ_def)

text \<open>
  The list \<open>l\<close> as the sequence of its pointers from \<open>pxIndex\<close> on, and its items in list order
  (from the marker on).
\<close>

definition ring_rep :: "list_store \<Rightarrow> nat \<Rightarrow> ptr list \<Rightarrow> bool" where
  "ring_rep h l r \<longleftrightarrow> circ h r \<and> hd r = pxIndex (list_of h l) \<and> End l \<in> set r \<and>
     (\<forall>p \<in> set r. p = End l \<or> (\<exists>i. p = Item i \<and> pvContainer (item h p) = Some l)) \<and>
     xItemValue (item h (End l)) = portMAX_DELAY \<and>
     uxNumberOfItems (list_of h l) = of_nat (length r - 1)"

definition items_of :: "nat \<Rightarrow> ptr list \<Rightarrow> ptr list" where
  "items_of l r = tl (dropWhile (\<lambda>p. p \<noteq> End l) r) @ takeWhile (\<lambda>p. p \<noteq> End l) r"

lemma items_of_split [simp]: "End l \<notin> set us \<Longrightarrow> items_of l (us @ End l # vs) = vs @ us"
proof -
  assume "End l \<notin> set us"
  then have "\<forall>p \<in> set us. p \<noteq> End l" by auto
  then show ?thesis by (simp add: items_of_def takeWhile_append2 dropWhile_append2)
qed

lemma ring_repD:
  assumes "ring_rep h l r"
  shows "circ h r" "r \<noteq> []" "distinct r" "hd r = pxIndex (list_of h l)" "End l \<in> set r"
    "xItemValue (item h (End l)) = portMAX_DELAY"
    "uxNumberOfItems (list_of h l) = of_nat (length r - 1)"
    "Item i \<in> set r \<Longrightarrow> pvContainer (item h (Item i)) = Some l"
    "p \<in> set r \<Longrightarrow> p = End l \<or> (\<exists>i. p = Item i)"
  using assms by (auto simp: ring_rep_def circ_def)

lemma hd_in_ring: "ring_rep h l r \<Longrightarrow> pxIndex (list_of h l) \<in> set r"
  using ring_repD(2,4) by (metis hd_in_set)

section \<open>What the operations do to the ring\<close>

lemma Initialise_ring: "ring_rep (vListInitialise l h) l [End l]"
  by (simp add: ring_rep_def circ_def vListInitialise_def Let_def)

lemma InsertEnd_item:
  "item (vListInsertEnd l n h) p =
    (let h1 = (item h)(Item n := (item h (Item n))\<lparr>pxNext := pxIndex (list_of h l)\<rparr>);
         pr = pxPrevious (h1 (pxIndex (list_of h l)));
         h2 = h1(Item n := (h1 (Item n))\<lparr>pxPrevious := pr\<rparr>);
         pr2 = pxPrevious (h2 (pxIndex (list_of h l)));
         h3 = h2(pr2 := (h2 pr2)\<lparr>pxNext := Item n\<rparr>);
         i = pxIndex (list_of h l);
         h4 = h3(i := (h3 i)\<lparr>pxPrevious := Item n\<rparr>);
         h5 = h4(Item n := (h4 (Item n))\<lparr>pvContainer := Some l\<rparr>)
     in h5 p)"
  by (simp add: vListInsertEnd_def Let_def fun_upd_def upd_item_def)

lemma InsertEnd_frame:
  assumes "ring_rep h l r" "Item n \<notin> set r"
  shows "pxNext (item (vListInsertEnd l n h) p) =
      (if p = Item n then hd r else if p = last r then Item n else pxNext (item h p))"
    "pxPrevious (item (vListInsertEnd l n h) p) =
      (if p = Item n then last r else if p = hd r then Item n else pxPrevious (item h p))"
    "pvContainer (item (vListInsertEnd l n h) p) =
      (if p = Item n then Some l else pvContainer (item h p))"
    "xItemValue (item (vListInsertEnd l n h) p) = xItemValue (item h p)"
    "pvOwner (item (vListInsertEnd l n h) p) = pvOwner (item h p)"
proof -
  note R = ring_repD [OF assms(1)]
  have i: "pxIndex (list_of h l) = hd r" "hd r \<in> set r" "last r \<in> set r"
    using R(2,4) hd_in_set [of r] last_in_set [of r] by simp_all
  have e: "pxPrevious (item h (hd r)) = last r" using circ_ends R(1) by blast
  have n: "hd r \<noteq> Item n" "last r \<noteq> Item n" "Item n \<noteq> hd r" "Item n \<noteq> last r"
    using i assms(2) by auto
  show "pxNext (item (vListInsertEnd l n h) p) =
      (if p = Item n then hd r else if p = last r then Item n else pxNext (item h p))"
    "pxPrevious (item (vListInsertEnd l n h) p) =
      (if p = Item n then last r else if p = hd r then Item n else pxPrevious (item h p))"
    "pvContainer (item (vListInsertEnd l n h) p) =
      (if p = Item n then Some l else pvContainer (item h p))"
    "xItemValue (item (vListInsertEnd l n h) p) = xItemValue (item h p)"
    "pvOwner (item (vListInsertEnd l n h) p) = pvOwner (item h p)"
    using n e by (simp_all add: InsertEnd_item Let_def i)
qed

lemma InsertEnd_ring:
  assumes "ring_rep h l r" "Item n \<notin> set r"
  shows "ring_rep (vListInsertEnd l n h) l (r @ [Item n])"
proof -
  note R = ring_repD [OF assms(1)] and F = InsertEnd_frame [OF assms]
  have lst: "list_of (vListInsertEnd l n h) l =
      (list_of h l)\<lparr>uxNumberOfItems := uxNumberOfItems (list_of h l) + 1\<rparr>"
    by (simp add: vListInsertEnd_def Let_def)
  have "circ (vListInsertEnd l n h) (r @ [Item n])"
  proof (rule circ_insert [OF R(1) assms(2)])
    fix p assume p: "p \<in> set (butlast r)"
    then have "p \<noteq> last r" "p \<noteq> Item n"
      using R(2,3) assms(2) by (auto dest: in_set_butlastD simp: distinct_butlast
        elim: rev_cases) (metis append_butlast_last_id distinct_append disjoint_iff list.set_intros(1))+
    then show "pxNext (item (vListInsertEnd l n h) p) = pxNext (item h p)" by (simp add: F)
  next
    fix p assume p: "p \<in> set (tl r)"
    then have "p \<noteq> hd r" "p \<noteq> Item n"
      using R(2,3) assms(2) by (cases r; auto)+
    then show "pxPrevious (item (vListInsertEnd l n h) p) = pxPrevious (item h p)" by (simp add: F)
  next
    have "last r \<noteq> Item n" "hd r \<noteq> Item n" using assms(2) R(2) by (metis last_in_set, metis hd_in_set)
    then show "pxNext (item (vListInsertEnd l n h) (last r)) = Item n"
      "pxPrevious (item (vListInsertEnd l n h) (Item n)) = last r"
      "pxNext (item (vListInsertEnd l n h) (Item n)) = hd r"
      "pxPrevious (item (vListInsertEnd l n h) (hd r)) = Item n"
      by (simp_all add: F)
  qed
  moreover have "(of_nat (length r - 1) :: u32) + 1 = of_nat (length (r @ [Item n]) - 1)"
    using R(2) by (cases r) simp_all
  ultimately show ?thesis
    using R assms(1) by (auto simp: ring_rep_def lst F hd_append)
qed

text \<open>Between the two readings: from the marker, and from \<open>pxIndex\<close>.\<close>

lemma ring_split:
  assumes "ring_rep h l r"
  obtains us vs where "r = us @ End l # vs" "End l \<notin> set us" "items_of l r = vs @ us"
    "circ h (End l # vs @ us)"
proof -
  obtain us vs where s: "r = us @ End l # vs" "End l \<notin> set us"
    using ring_repD(5) [OF assms] by (meson split_list_first)
  moreover have "circ h (End l # vs @ us)"
    using ring_repD(1) [OF assms] circ_rotate [of h us "End l # vs"] s by simp
  ultimately show thesis using that by simp
qed

lemma ring_of_items:
  assumes "circ h (End l # zs)" and "\<forall>p \<in> set zs. \<exists>i. p = Item i \<and> pvContainer (item h p) = Some l"
    and "xItemValue (item h (End l)) = portMAX_DELAY"
    and "uxNumberOfItems (list_of h l) = of_nat (length zs)"
    and "pxIndex (list_of h l) \<in> set (End l # zs)"
  shows "\<exists>r. ring_rep h l r \<and> items_of l r = zs"
proof (cases "pxIndex (list_of h l) = End l")
  case True
  then have "ring_rep h l (End l # zs)" using assms by (auto simp: ring_rep_def)
  moreover have "items_of l ([] @ End l # zs) = zs" by (subst items_of_split) auto
  ultimately show ?thesis by auto
next
  case False
  then obtain as bs where s: "zs = as @ pxIndex (list_of h l) # bs"
    using assms(5) by (auto dest: split_list)
  let ?r = "(pxIndex (list_of h l) # bs) @ End l # as"
  have "circ h ?r" using assms(1) circ_rotate [of h "End l # as" "pxIndex (list_of h l) # bs"] s by simp
  then have "ring_rep h l ?r" using assms s by (auto simp: ring_rep_def)
  moreover have "items_of l ?r = zs"
  proof -
    have "End l \<notin> set (pxIndex (list_of h l) # bs)" using assms(1) s by (auto simp: circ_def)
    then show ?thesis
      using s items_of_split [of l "pxIndex (list_of h l) # bs" as] by simp
  qed
  ultimately show ?thesis by blast
qed

lemma find_place_walk:
  "linked h (p # ys @ [E]) \<Longrightarrow> v < xItemValue (item h E) \<Longrightarrow>
   find_place h v p = Some (last (p # takeWhile (\<lambda>q. xItemValue (item h q) \<le> v) ys))"
proof (induction ys arbitrary: p)
  case Nil
  then show ?case by (subst find_place.simps) (simp add: not_le [symmetric])
next
  case (Cons y ys)
  then have "pxNext (item h p) = y" "linked h (y # ys @ [E])" by simp_all
  with Cons show ?case by (subst find_place.simps) auto
qed

lemma max_delay_top: "(v :: u32) \<le> portMAX_DELAY"
  using unat_u32_lt [of v] unfolding word_le_nat_alt portMAX_DELAY_def
  by (simp del: unat_u32_lt)

text \<open>Where \<open>vListInsert\<close> links the new item: after the last item of no greater value.\<close>

definition insort_after :: "('a \<Rightarrow> u32) \<Rightarrow> 'a \<Rightarrow> 'a list \<Rightarrow> 'a list" where
  "insort_after f x xs = takeWhile (\<lambda>q. f q \<le> f x) xs @ x # dropWhile (\<lambda>q. f q \<le> f x) xs"

lemma insert_position:
  assumes "circ h (End l # zs)" and "xItemValue (item h (End l)) = portMAX_DELAY"
  shows "(if v = portMAX_DELAY then Some (pxPrevious (item h (End l))) else find_place h v (End l))
     = Some (last (End l # takeWhile (\<lambda>q. xItemValue (item h q) \<le> v) zs))"
proof (cases "v = portMAX_DELAY")
  case True
  then show ?thesis using circ_ends(2) [OF assms(1)] max_delay_top by (simp add: takeWhile_eq_all_conv [THEN iffD2])
next
  case False
  then have "v < portMAX_DELAY" using max_delay_top [of v] by simp
  moreover have "linked h (End l # zs @ [End l])" using assms(1) by (simp add: circ_def)
  ultimately show ?thesis using False assms(2) find_place_walk [of h "End l" zs "End l" v] by simp
qed

definition untouched :: "ptr set \<Rightarrow> nat \<Rightarrow> list_store \<Rightarrow> list_store \<Rightarrow> bool" where
  "untouched ps l h h' \<longleftrightarrow> (\<forall>p. p \<notin> ps \<longrightarrow> item h' p = item h p) \<and> (\<forall>k. k \<noteq> l \<longrightarrow> list_of h' k = list_of h k)"

text \<open>An operation on one list leaves every other list as it is.\<close>

lemma other_ring:
  assumes "untouched (insert (Item n) (set r)) l h h'" and "ring_rep h l r"
    and "ring_rep h k rk" and "k \<noteq> l" and "Item n \<notin> set rk"
  shows "ring_rep h' k rk"
proof -
  have same: "item h' p = item h p" if p: "p \<in> set rk" for p
  proof -
    have "p \<notin> set r"
    proof
      assume "p \<in> set r"
      then show False
        using ring_repD(8,9) [OF assms(2)] ring_repD(8,9) [OF assms(3)] p assms(4) by fastforce
    qed
    moreover have "p \<noteq> Item n" using assms(5) p by auto
    ultimately show ?thesis using assms(1) by (simp add: untouched_def)
  qed
  have "linked h' (rk @ [hd rk]) = linked h (rk @ [hd rk])"
    using ring_repD(2) [OF assms(3)]
    by (intro linked_cong) (auto simp: same tl_append split: list.splits)
  moreover have "list_of h' k = list_of h k" using assms(1,4) by (simp add: untouched_def)
  ultimately show ?thesis using assms(3) by (auto simp: ring_rep_def circ_def same)
qed

lemma Insert_ring:
  assumes R: "ring_rep h l r" and n: "Item n \<notin> set r"
  shows "\<exists>h' r'. vListInsert l n h = Some h' \<and> ring_rep h' l r' \<and>
    items_of l r' = insort_after (\<lambda>p. xItemValue (item h p)) (Item n) (items_of l r) \<and>
    hd r' = hd r \<and> (\<forall>p. xItemValue (item h' p) = xItemValue (item h p)) \<and>
    untouched (insert (Item n) (set r)) l h h'"
proof -
  let ?val = "\<lambda>p. xItemValue (item h p)" let ?v = "?val (Item n)"
  obtain us vs where s: "r = us @ End l # vs" "items_of l r = vs @ us" "circ h (End l # vs @ us)"
    using ring_split [OF R] by metis
  define zs where "zs = vs @ us"
  define tw dw where "tw = takeWhile (\<lambda>q. ?val q \<le> ?v) zs" and "dw = dropWhile (\<lambda>q. ?val q \<le> ?v) zs"
  define it where "it = last (End l # tw)"
  have zs: "zs = tw @ dw" by (simp add: tw_def dw_def)
  have C: "circ h (End l # zs)" using s zs_def by simp
  have nz: "Item n \<notin> set (End l # zs)" using n s zs_def by auto
  have place: "(if ?v = portMAX_DELAY then Some (pxPrevious (item h (End l)))
      else find_place h ?v (End l)) = Some it"
    using insert_position [OF C] ring_repD(6) [OF R] by (simp add: it_def tw_def)
  define q where "q = dw @ End l # tw"
  have Cq: "circ h q" using C circ_rotate [of h dw "End l # tw"] by (simp add: q_def zs)
  have lq: "last q = it" by (simp add: q_def it_def)
  have ends: "pxNext (item h it) = hd q" "pxPrevious (item h (hd q)) = it"
    using circ_ends [OF Cq] lq by simp_all
  have nq: "Item n \<notin> set q" "q \<noteq> []" "distinct q" using nz Cq by (auto simp: q_def zs circ_def)
  have ne: "hd q \<noteq> Item n" "it \<noteq> Item n"
    using nq lq by (metis hd_in_set, metis last_in_set)
  define h' where "h' = (let new = Item n;
             h = upd_item new (pxNext_update (\<lambda>_. pxNext (item h it))) h;
             h = upd_item (pxNext (item h new)) (pxPrevious_update (\<lambda>_. new)) h;
             h = upd_item new (pxPrevious_update (\<lambda>_. it)) h;
             h = upd_item it (pxNext_update (\<lambda>_. new)) h;
             h = upd_item new (pvContainer_update (\<lambda>_. Some l)) h
         in upd_list l (uxNumberOfItems_update (\<lambda>k. k + 1)) h)"
  have ins: "vListInsert l n h = Some h'"
    using place by (simp add: vListInsert_def h'_def Let_def)
  have F: "pxNext (item h' p) = (if p = Item n then hd q else if p = it then Item n else pxNext (item h p))"
    "pxPrevious (item h' p) = (if p = Item n then it else if p = hd q then Item n else pxPrevious (item h p))"
    "pvContainer (item h' p) = (if p = Item n then Some l else pvContainer (item h p))"
    "xItemValue (item h' p) = xItemValue (item h p)"
    "list_of h' l = (list_of h l)\<lparr>uxNumberOfItems := uxNumberOfItems (list_of h l) + 1\<rparr>" for p
    using ne by (simp_all add: h'_def Let_def ends)
  have U: "untouched (insert (Item n) (set r)) l h h'"
  proof -
    have "hd q \<in> set q" "it \<in> set q" using nq(2) lq by (metis hd_in_set, metis last_in_set)
    moreover have "set q = set r"
    proof -
      have "set r = insert (End l) (set zs)" using s(1) zs_def by auto
      then show ?thesis by (auto simp: q_def zs)
    qed
    ultimately have "hd q \<in> set r" "it \<in> set r" by simp_all
    then show ?thesis using ne by (auto simp: untouched_def h'_def Let_def ends)
  qed
  have "circ h' (q @ [Item n])"
  proof (rule circ_insert [OF Cq nq(1)])
    fix p assume "p \<in> set (butlast q)"
    then have "p \<noteq> it" "p \<noteq> Item n"
      using nq lq by (auto dest: in_set_butlastD)
        (metis append_butlast_last_id distinct_append disjoint_iff list.set_intros(1))
    then show "pxNext (item h' p) = pxNext (item h p)" by (simp add: F)
  next
    fix p assume "p \<in> set (tl q)"
    then have "p \<noteq> hd q" "p \<noteq> Item n" using nq by (cases q; auto)+
    then show "pxPrevious (item h' p) = pxPrevious (item h p)" by (simp add: F)
  qed (use ne lq in \<open>simp_all add: F\<close>)
  then have C': "circ h' (End l # (tw @ Item n # dw))"
    using circ_rotate [of h' dw "End l # tw @ [Item n]"] by (simp add: q_def)
  have "\<exists>r'. ring_rep h' l r' \<and> items_of l r' = tw @ Item n # dw"
  proof (rule ring_of_items [OF C'])
    show "\<forall>p \<in> set (tw @ Item n # dw). \<exists>i. p = Item i \<and> pvContainer (item h' p) = Some l"
    proof
      fix p assume "p \<in> set (tw @ Item n # dw)"
      then have "p = Item n \<or> p \<in> set zs" by (auto simp: zs)
      moreover have "\<exists>i. p = Item i \<and> pvContainer (item h p) = Some l" if p: "p \<in> set zs"
      proof -
        have "p \<in> set r" "p \<noteq> End l" using p s(1) C by (auto simp: zs_def circ_def)
        then show ?thesis using ring_repD(8,9) [OF R] by blast
      qed
      ultimately show "\<exists>i. p = Item i \<and> pvContainer (item h' p) = Some l" by (auto simp: F)
    qed
    show "uxNumberOfItems (list_of h' l) = of_nat (length (tw @ Item n # dw))"
    proof -
      have "length (tw @ Item n # dw) = Suc (length r - 1)" using zs zs_def s(1)
        by (metis add_Suc_right diff_Suc_1 length_Cons length_append add.commute)
      then show ?thesis using ring_repD(7) [OF R] by (simp add: F)
    qed
    show "pxIndex (list_of h' l) \<in> set (End l # tw @ Item n # dw)"
    proof -
      have "set r = insert (End l) (set zs)" using s(1) zs_def by auto
      then show ?thesis using hd_in_ring [OF R] by (auto simp: F zs)
    qed
  qed (use ring_repD(6) [OF R] F in simp)
  then obtain r' where r': "ring_rep h' l r'" "items_of l r' = tw @ Item n # dw" by blast
  moreover have "hd r' = hd r" using ring_repD(4) [OF R] ring_repD(4) [OF r'(1)] by (simp add: F)
  ultimately show ?thesis
    using ins s(2) F(4) U by (auto simp: insort_after_def tw_def dw_def zs_def)
qed

text \<open>Removal: an item at \<open>pxIndex\<close> leaves the index on the item before it.\<close>

fun ring_remove :: "'a \<Rightarrow> 'a list \<Rightarrow> 'a list" where
  "ring_remove x [] = []"
| "ring_remove x (p # ps) = (if p = x then last ps # butlast ps else p # remove1 x ps)"

lemma Remove_ring:
  assumes R: "ring_rep h l r" and n: "Item n \<in> set r"
  shows "\<exists>h'. uxListRemove n h = Some (of_nat (length r - 2), h') \<and>
    ring_rep h' l (ring_remove (Item n) r) \<and> pvContainer (item h' (Item n)) = None \<and>
    untouched (insert (Item n) (set r)) l h h'"
proof -
  let ?x = "Item n"
  note D = ring_repD [OF R]
  obtain as bs where s: "r = as @ ?x # bs" using n by (auto dest: split_list)
  define q where "q = bs @ as"
  have C: "circ h (q @ [?x])" using D(1) s circ_rotate [of h "as @ [?x]" bs] by (simp add: q_def)
  have Eq: "End l \<in> set q" using D(5) s by (auto simp: q_def)
  then have q0: "q \<noteq> []" by auto
  have dq: "distinct q" "?x \<notin> set q" using C by (auto simp: circ_def)
  have nx: "pxNext (item h ?x) = hd q" using circ_ends(1) [OF C] q0 by (simp add: hd_append)
  have pv: "pxPrevious (item h ?x) = last q"
  proof -
    have "q @ [?x] = butlast q @ last q # ?x # []" using q0 by simp
    then show ?thesis using C circ_step(2) [of h "butlast q" "last q" ?x "[]"] by metis
  qed
  have ne: "hd q \<noteq> ?x" "last q \<noteq> ?x" "?x \<noteq> hd q" "?x \<noteq> last q"
    using dq q0 by (metis hd_in_set, metis last_in_set, metis hd_in_set, metis last_in_set)
  define h' where "h' = snd (the (uxListRemove n h))"
  have cont: "pvContainer (item h ?x) = Some l" using D(8) n by blast
  have rem: "uxListRemove n h = Some (uxNumberOfItems (list_of h l) - 1, h')"
    by (simp add: uxListRemove_def h'_def cont Let_def)
  have F: "pxNext (item h' p) = (if p = last q then hd q else pxNext (item h p))"
    "pxPrevious (item h' p) = (if p = hd q then last q else pxPrevious (item h p))"
    "pvContainer (item h' p) = (if p = ?x then None else pvContainer (item h p))"
    "xItemValue (item h' p) = xItemValue (item h p)"
    "pxIndex (list_of h' l) = (if hd r = ?x then last q else hd r)"
    "uxNumberOfItems (list_of h' l) = uxNumberOfItems (list_of h l) - 1" for p
    using ne D(4) by (auto simp: h'_def uxListRemove_def cont Let_def nx pv)
  have Cq: "circ h' q"
  proof (rule circ_remove [OF C q0])
    fix p assume "p \<in> set (butlast q)"
    then have "p \<noteq> last q"
      using dq q0 by (metis append_butlast_last_id distinct_append disjoint_iff list.set_intros(1))
    then show "pxNext (item h' p) = pxNext (item h p)" by (simp add: F)
  next
    fix p assume "p \<in> set (tl q)"
    then have "p \<noteq> hd q" using dq q0 by (cases q) auto
    then show "pxPrevious (item h' p) = pxPrevious (item h p)" by (simp add: F)
  qed (simp_all add: F)
  let ?r = "ring_remove ?x r"
  have shape: "circ h' ?r \<and> hd ?r = (if hd r = ?x then last q else hd r) \<and> set ?r = set q \<and>
      length ?r = length q"
  proof (cases as)
    case Nil
    have e: "butlast q @ [last q] = q" using q0 by simp
    have "circ h' ([last q] @ butlast q)" using Cq circ_rotate [of h' "butlast q" "[last q]"] e by simp
    moreover have "insert (last q) (set (butlast q)) = set q"
      using q0 by (metis e list.simps(15) rotate1.simps(2) set_rotate1)
    ultimately show ?thesis using Nil s q0 by (simp add: q_def)
  next
    case (Cons a as')
    then have "?r = as @ bs" using s dq by (auto simp: remove1_append q_def)
    moreover have "circ h' (as @ bs)" using Cq circ_rotate [of h' bs as] by (simp add: q_def)
    moreover have "hd r \<noteq> ?x" using Cons s dq by (auto simp: q_def)
    ultimately show ?thesis using Cons s by (auto simp: q_def)
  qed
  have len: "length r = Suc (length q)" by (simp add: s q_def)
  then obtain k where k: "length q = Suc k" using q0 by (cases q) auto
  have cnt: "uxNumberOfItems (list_of h l) - 1 = (of_nat k :: u32)"
    using D(7) len k by simp
  have "ring_rep h' l ?r"
    unfolding ring_rep_def
  proof (intro conjI ballI)
    fix p assume "p \<in> set ?r"
    then have "p \<in> set r" "p \<noteq> ?x" using shape dq s by (auto simp: q_def)
    then show "p = End l \<or> (\<exists>i. p = Item i \<and> pvContainer (item h' p) = Some l)"
      using D(8,9) by (auto simp: F)
  next
    show "uxNumberOfItems (list_of h' l) = of_nat (length ?r - 1)"
      using shape k cnt by (simp add: F)
  qed (use shape Eq D F in simp_all)
  moreover have "untouched (insert ?x (set r)) l h h'"
  proof -
    have "hd q \<in> set r" "last q \<in> set r" using q0 s hd_in_set [of q] last_in_set [of q]
      by (auto simp: q_def)
    then show ?thesis
      by (auto simp: untouched_def h'_def uxListRemove_def cont Let_def nx pv)
  qed
  ultimately show ?thesis using rem cnt len k by (auto simp: F)
qed

text \<open>Round robin: the index moves to the next item, past the marker.\<close>

definition ring_next :: "nat \<Rightarrow> ptr list \<Rightarrow> ptr list" where
  "ring_next l r = (let r = rotate1 r in if hd r = End l then rotate1 r else r)"

lemma circ_rotate1: "circ h r \<Longrightarrow> circ h (rotate1 r)"
  by (cases r) (use circ_rotate [of h "[hd r]" "tl r"] in auto)

lemma hd_rotate1: "circ h r \<Longrightarrow> hd (rotate1 r) = pxNext (item h (hd r))"
proof -
  assume C: "circ h r"
  show ?thesis
  proof (cases r)
    case (Cons p ps)
    then show ?thesis
      using C circ_ends(1) [of h r] circ_step(1) [of h "[]" p "hd ps" "tl ps"] by (cases ps) auto
  qed (use C in \<open>simp add: circ_def\<close>)
qed

lemma Next_entry_ring:
  assumes R: "ring_rep h l r"
  shows "\<exists>h'. listGET_OWNER_OF_NEXT_ENTRY l h = (pvOwner (item h (hd (ring_next l r))), h') \<and>
    ring_rep h' l (ring_next l r) \<and> item h' = item h"
proof -
  note D = ring_repD [OF R]
  have c: "circ h r" "circ h (rotate1 r)" using D(1) circ_rotate1 by auto
  have h1: "pxNext (item h (pxIndex (list_of h l))) = hd (rotate1 r)"
    using hd_rotate1 [OF c(1)] D(4) by simp
  have h2: "pxNext (item h (hd (rotate1 r))) = hd (rotate1 (rotate1 r))"
    using hd_rotate1 [OF c(2)] by simp
  define h' where "h' = snd (listGET_OWNER_OF_NEXT_ENTRY l h)"
  have h': "listGET_OWNER_OF_NEXT_ENTRY l h = (pvOwner (item h (hd (ring_next l r))), h')"
    "item h' = item h" "list_of h' l = (list_of h l)\<lparr>pxIndex := hd (ring_next l r)\<rparr>"
    using h1 h2 unfolding h'_def
    by (cases "hd (rotate1 r) = End l";
        simp add: listGET_OWNER_OF_NEXT_ENTRY_def ring_next_def Let_def)+
  have rn: "circ h (ring_next l r)" "set (ring_next l r) = set r" "length (ring_next l r) = length r"
    using c circ_rotate1 by (auto simp: ring_next_def Let_def)
  have lk: "linked h' ps = linked h ps" for ps
    by (rule linked_cong) (simp_all add: h'(2))
  have "ring_rep h' l (ring_next l r)"
    using rn R h' by (auto simp: ring_rep_def circ_def lk)
  then show ?thesis using h' by blast
qed

lemma empty_ring:
  "ring_rep h l r \<Longrightarrow> length r \<le> 4294967296 \<Longrightarrow> listLIST_IS_EMPTY h l \<longleftrightarrow> items_of l r = []"
proof -
  assume R: "ring_rep h l r" and len: "length r \<le> 4294967296"
  obtain us vs where s: "r = us @ End l # vs" "items_of l r = vs @ us" using ring_split [OF R] by metis
  have "listLIST_IS_EMPTY h l \<longleftrightarrow> (of_nat (length r - 1) :: u32) = 0"
    using ring_repD(7) [OF R] by (simp add: listLIST_IS_EMPTY_def)
  also have "\<dots> \<longleftrightarrow> length r - 1 = 0"
  proof -
    have "unat (of_nat (length r - 1) :: u32) = length r - 1"
      using len by (simp add: unsigned_of_nat take_bit_nat_eq_self_iff)
    then show ?thesis using unat_eq_zero [of "of_nat (length r - 1) :: u32"] by simp
  qed
  also have "\<dots> \<longleftrightarrow> items_of l r = []" using s by auto
  finally show ?thesis .
qed

lemma head_entry_ring:
  assumes "ring_rep h l r" and "items_of l r = p # ps"
  shows "listGET_OWNER_OF_HEAD_ENTRY h l = pvOwner (item h p)"
    "listGET_ITEM_VALUE_OF_HEAD_ENTRY h l = xItemValue (item h p)"
proof -
  obtain us vs where "items_of l r = vs @ us" "circ h (End l # vs @ us)"
    using ring_split [OF assms(1)] by metis
  then have "pxNext (item h (End l)) = p"
    using assms(2) circ_step(1) [of h "[]" "End l" p ps] by simp
  then show "listGET_OWNER_OF_HEAD_ENTRY h l = pvOwner (item h p)"
    "listGET_ITEM_VALUE_OF_HEAD_ENTRY h l = xItemValue (item h p)"
    by (simp_all add: listGET_OWNER_OF_HEAD_ENTRY_def listGET_ITEM_VALUE_OF_HEAD_ENTRY_def)
qed

section \<open>Properties\<close>

lemma insort_after_split:
  assumes "sorted (map f xs)"
  obtains us vs where "xs = us @ vs" "insort_after f x xs = us @ x # vs"
    "\<forall>p \<in> set us. f p \<le> f x" "\<forall>p \<in> set vs. f x < f p" "sorted (map f (us @ x # vs))"
proof -
  define us vs where "us = takeWhile (\<lambda>q. f q \<le> f x) xs" and "vs = dropWhile (\<lambda>q. f q \<le> f x) xs"
  have xs: "xs = us @ vs" by (simp add: us_def vs_def)
  have s: "sorted (map f us)" "sorted (map f vs)" "\<forall>a \<in> set us. \<forall>b \<in> set vs. f a \<le> f b"
    using assms unfolding xs by (auto simp: sorted_append)
  have u: "\<forall>p \<in> set us. f p \<le> f x" unfolding us_def by (auto dest: set_takeWhileD)
  have v: "f x < f p" if p: "p \<in> set vs" for p
  proof -
    obtain v vs' where c: "vs = v # vs'" using p by (cases vs) auto
    have "\<not> f v \<le> f x" using c hd_dropWhile [of "\<lambda>q. f q \<le> f x" xs] by (simp add: vs_def)
    moreover have "f v \<le> f p" using s(2) c p by auto
    ultimately show ?thesis by simp
  qed
  have "sorted (map f (us @ x # vs))" using s u v by (auto simp: sorted_append less_imp_le)
  moreover have "insort_after f x xs = us @ x # vs" by (simp only: insort_after_def us_def vs_def)
  moreover have "\<forall>p \<in> set vs. f x < f p" using v by blast
  ultimately show thesis using that xs u by blast
qed

text \<open>C26: \<open>vListInsert\<close> terminates on every well-formed list, even for the value
  \<open>portMAX_DELAY\<close>; it keeps a list sorted by item value, puts the new item after the items of
  equal value (first come, first served), keeps the order of the others and the walking index, and
  leaves every other list unchanged.\<close>

theorem vListInsert_correct:
  assumes "ring_rep h l r" and "Item n \<notin> set r"
    and "sorted (map (\<lambda>p. xItemValue (item h p)) (items_of l r))"
  shows "\<exists>h' r' us vs. vListInsert l n h = Some h' \<and> ring_rep h' l r' \<and> hd r' = hd r \<and>
    items_of l r = us @ vs \<and> items_of l r' = us @ Item n # vs \<and>
    (\<forall>p \<in> set us. xItemValue (item h p) \<le> xItemValue (item h (Item n))) \<and>
    (\<forall>p \<in> set vs. xItemValue (item h (Item n)) < xItemValue (item h p)) \<and>
    sorted (map (\<lambda>p. xItemValue (item h' p)) (items_of l r')) \<and>
    (\<forall>k rk. k \<noteq> l \<and> ring_rep h k rk \<and> Item n \<notin> set rk \<longrightarrow> ring_rep h' k rk)"
proof -
  let ?f = "\<lambda>p. xItemValue (item h p)"
  obtain h' r' where *: "vListInsert l n h = Some h'" "ring_rep h' l r'" "hd r' = hd r"
    "items_of l r' = insort_after ?f (Item n) (items_of l r)"
    "\<forall>p. xItemValue (item h' p) = ?f p" "untouched (insert (Item n) (set r)) l h h'"
    using Insert_ring [OF assms(1,2)] by metis
  obtain us vs where s: "items_of l r = us @ vs" "items_of l r' = us @ Item n # vs"
    "\<forall>p \<in> set us. ?f p \<le> ?f (Item n)" "\<forall>p \<in> set vs. ?f (Item n) < ?f p"
    "sorted (map ?f (us @ Item n # vs))"
    using insort_after_split [OF assms(3), of "Item n"] *(4) by metis
  have "\<forall>k rk. k \<noteq> l \<and> ring_rep h k rk \<and> Item n \<notin> set rk \<longrightarrow> ring_rep h' k rk"
    using other_ring [OF *(6) assms(1)] by blast
  moreover have "sorted (map (\<lambda>p. xItemValue (item h' p)) (items_of l r'))"
    using *(5) s(2,5) by simp
  ultimately show ?thesis using *(1,2,3) s(1-4) by blast
qed

definition sample_store :: list_store where
  "sample_store = vListInitialise 0 \<lparr>item = (\<lambda>p. \<lparr>xItemValue = 7, pxNext = p, pxPrevious = p,
     pvOwner = 3, pvContainer = None\<rparr>), list_of = (\<lambda>_. \<lparr>uxNumberOfItems = 9, pxIndex = Item 5\<rparr>)\<rparr>"

lemma items_of_single [simp]: "items_of l [End l] = []"
  by (simp add: items_of_def)

lemma vListInsert_correct_witness:
  "\<exists>h' r'. vListInsert 0 1 sample_store = Some h' \<and> ring_rep h' 0 r' \<and> items_of 0 r' = [Item 1]"
  using vListInsert_correct [of sample_store 0 "[End 0]" 1] Initialise_ring [of 0]
  by (auto simp: sample_store_def)

text \<open>\<open>uxListRemove\<close> takes exactly the given item out of its list, returns the number of
  items left, marks the item as in no list, moves \<open>pxIndex\<close> back when it stood on the item, and
  leaves every other list unchanged.\<close>

theorem uxListRemove_correct:
  assumes "ring_rep h l r" and "Item n \<in> set r"
  shows "\<exists>h'. uxListRemove n h = Some (of_nat (length r - 2), h') \<and>
    ring_rep h' l (ring_remove (Item n) r) \<and> pvContainer (item h' (Item n)) = None \<and>
    Item n \<notin> set (ring_remove (Item n) r) \<and>
    (\<forall>k rk. k \<noteq> l \<and> ring_rep h k rk \<longrightarrow> ring_rep h' k rk)"
proof -
  obtain h' where *: "uxListRemove n h = Some (of_nat (length r - 2), h')"
    "ring_rep h' l (ring_remove (Item n) r)" "pvContainer (item h' (Item n)) = None"
    "untouched (insert (Item n) (set r)) l h h'"
    using Remove_ring [OF assms] by blast
  have "Item n \<notin> set (ring_remove (Item n) r)"
    using ring_repD(8) [OF *(2)] *(3) by fastforce
  moreover have "ring_rep h' k rk" if "k \<noteq> l" "ring_rep h k rk" for k rk
  proof (rule other_ring [OF *(4) assms(1) that(2,1)])
    show "Item n \<notin> set rk"
      using ring_repD(8) [OF assms(1)] ring_repD(8) [OF that(2)] assms(2) that(1) by fastforce
  qed
  ultimately show ?thesis using * by blast
qed

lemma uxListRemove_correct_witness:
  "\<exists>h'. uxListRemove 4 (vListInsertEnd 0 4 sample_store) = Some (0, h') \<and> ring_rep h' 0 [End 0]"
proof -
  have "ring_rep sample_store 0 [End 0]" by (simp add: sample_store_def Initialise_ring)
  then have "ring_rep (vListInsertEnd 0 4 sample_store) 0 ([End 0] @ [Item 4])"
    by (intro InsertEnd_ring) auto
  then show ?thesis using uxListRemove_correct [of "vListInsertEnd 0 4 sample_store" 0 "[End 0, Item 4]" 4]
    by auto
qed

text \<open>The items in the order in which the walk meets them.\<close>

definition walk_order :: "nat \<Rightarrow> ptr list \<Rightarrow> ptr list" where
  "walk_order l r = filter (\<lambda>p. p \<noteq> End l) (rotate1 r)"

lemma walk_order_next:
  assumes "distinct r" and "End l \<in> set r" and "walk_order l r \<noteq> []"
  shows "hd (ring_next l r) = hd (walk_order l r)"
    "walk_order l (ring_next l r) = rotate1 (walk_order l r)"
proof -
  obtain p qs where r: "r = p # qs" using assms(2) by (cases r) auto
  have "qs \<noteq> []"
  proof
    assume "qs = []"
    then show False using r assms(2,3) by (simp add: walk_order_def)
  qed
  then obtain q ps where qs: "qs = q # ps" by (cases qs) auto
  have "hd (ring_next l r) = hd (walk_order l r) \<and>
    walk_order l (ring_next l r) = rotate1 (walk_order l r)"
  proof (cases "q = End l")
    case False
    then show ?thesis using r qs by (simp add: ring_next_def walk_order_def)
  next
    case True
    obtain a as where a: "ps @ [p] = a # as" by (cases ps) auto
    have "End l \<notin> set (a # as)" using True assms(1) r qs unfolding a [symmetric] by auto
    then have keep: "filter (\<lambda>p. p \<noteq> End l) as = as" "a \<noteq> End l" by (auto simp: filter_id_conv)
    have "rotate1 r = End l # a # as" using r qs True a by simp
    then show ?thesis using keep by (simp add: ring_next_def walk_order_def Let_def)
  qed
  then show "hd (ring_next l r) = hd (walk_order l r)"
    "walk_order l (ring_next l r) = rotate1 (walk_order l r)" by simp_all
qed

fun next_entries :: "nat \<Rightarrow> nat \<Rightarrow> list_store \<Rightarrow> nat list \<times> list_store" where
  "next_entries 0 l h = ([], h)"
| "next_entries (Suc k) l h =
    (let (w, h) = listGET_OWNER_OF_NEXT_ENTRY l h; (ws, h) = next_entries k l h in (w # ws, h))"

text \<open>\<open>listGET_OWNER_OF_NEXT_ENTRY\<close> is round robin: its \<open>i\<close>-th application to a non-empty
  list returns the owner of the item number \<open>i mod n\<close> in list order after \<open>pxIndex\<close>, so every
  item has its turn once in any \<open>n\<close> calls, for any number of calls.\<close>

theorem next_entry_round_robin:
  assumes "ring_rep h l r" and "walk_order l r \<noteq> []"
  shows "fst (next_entries k l h) =
    map (\<lambda>i. pvOwner (item h (walk_order l r ! (i mod length (walk_order l r))))) [0..<k]"
  using assms
proof (induction k arbitrary: h r)
  case (Suc k)
  obtain h' where h': "listGET_OWNER_OF_NEXT_ENTRY l h = (pvOwner (item h (hd (ring_next l r))), h')"
    "ring_rep h' l (ring_next l r)" "item h' = item h"
    using Next_entry_ring [OF Suc.prems(1)] by blast
  note w = walk_order_next [OF ring_repD(3,5) [OF Suc.prems(1)] Suc.prems(2)]
  let ?w = "walk_order l r"
  have "fst (next_entries k l h') =
      map (\<lambda>i. pvOwner (item h' (rotate1 ?w ! (i mod length ?w)))) [0..<k]"
    using Suc.IH [OF h'(2)] w(2) Suc.prems(2) by simp
  also have "\<dots> = map (\<lambda>i. pvOwner (item h (?w ! (Suc i mod length ?w)))) [0..<k]"
    using Suc.prems(2) by (simp add: h'(3) nth_rotate1 mod_Suc_eq)
  finally have "fst (next_entries (Suc k) l h) =
      pvOwner (item h (hd ?w)) # map (\<lambda>i. pvOwner (item h (?w ! (Suc i mod length ?w)))) [0..<k]"
    by (simp add: h'(1) w(1) case_prod_beta Let_def)
  also have "\<dots> = map (\<lambda>i. pvOwner (item h (?w ! (i mod length ?w)))) (0 # map Suc [0..<k])"
    using Suc.prems(2) by (simp add: hd_conv_nth)
  finally show ?case by (simp only: map_Suc_upt upt_conv_Cons [symmetric] zero_less_Suc)
qed simp

lemma next_entry_round_robin_witness:
  "fst (next_entries 3 0 (vListInsertEnd 0 4 sample_store)) = [3, 3, 3]"
proof -
  have s: "ring_rep sample_store 0 [End 0]" by (simp add: sample_store_def Initialise_ring)
  then have r: "ring_rep (vListInsertEnd 0 4 sample_store) 0 ([End 0] @ [Item 4])"
    by (intro InsertEnd_ring) auto
  have w: "walk_order 0 ([End 0] @ [Item 4]) = [Item 4]" by (simp add: walk_order_def)
  have "pvOwner (item (vListInsertEnd 0 4 sample_store) (Item 4)) = 3"
    using InsertEnd_frame(5) [OF s, of 4 "Item 4"] by (simp add: sample_store_def vListInitialise_def Let_def)
  then show ?thesis
    using next_entry_round_robin [OF r, of 3] w by (simp add: numeral_3_eq_3)
qed

end
