(* ===== verification/RtosTasks.thy ===== *)
theory RtosTasks
  imports RtosList
begin

unbundle bit_operations_syntax

text \<open>
  The FreeRTOS scheduler (FreeRTOS/src/tasks.c) in this project's configuration: preemption and
  time slicing, 32 priorities with the port's optimised selection (a bit map of the non-empty
  ready lists), 32-bit ticks, suspension, deletion, notifications and mutex inheritance enabled.
  A task is named by its handle (0 is NULL). The ready lists are the rings of RtosList, read from
  \<open>pxIndex\<close> on, \<open>Item t\<close> being the state item of task \<open>t\<close>; the lists whose index never moves are
  plain lists, on which \<open>vListInsertEnd\<close> appends and \<open>vListInsert\<close> is \<open>insort_after\<close>.
  A request for a context switch sets the pending bit of PendSV, which switches when the critical
  section or the interrupt ends. \<open>configASSERT\<close> only prints in this project.
\<close>

section \<open>State\<close>

datatype state_list = Ready nat | Delayed nat | Suspended | Termination

datatype event_list = PendingReady | EventList nat

datatype notify_state =
  taskNOT_WAITING_NOTIFICATION | taskWAITING_NOTIFICATION | taskNOTIFICATION_RECEIVED

record tcb =
  uxPriority :: nat
  uxBasePriority :: nat
  uxMutexesHeld :: u32
  ulNotifiedValue :: u32
  ucNotifyState :: notify_state
  stateValue :: u32
  stateContainer :: "state_list option"
  eventValue :: u32
  eventContainer :: "event_list option"

record kern =
  tcbs :: "nat \<Rightarrow> tcb"
  pxCurrentTCB :: nat
  pxReadyTasksLists :: "nat \<Rightarrow> ptr list"
  xDelayedTaskLists :: "nat \<Rightarrow> nat list"
  pxDelayedTaskList :: nat
  pxOverflowDelayedTaskList :: nat
  xPendingReadyList :: "nat list"
  xTasksWaitingTermination :: "nat list"
  xSuspendedTaskList :: "nat list"
  eventLists :: "nat \<Rightarrow> nat list"
  uxDeletedTasksWaitingCleanUp :: u32
  uxCurrentNumberOfTasks :: u32
  xTickCount :: u32
  uxTopReadyPriority :: u32
  xSchedulerRunning :: bool
  uxPendedTicks :: u32
  xYieldPending :: bool
  xNumOfOverflows :: u32
  xNextTaskUnblockTime :: u32
  uxSchedulerSuspended :: u32
  pendSV :: bool

definition configMAX_PRIORITIES :: nat where
  "configMAX_PRIORITIES = 32"

definition upd_tcb :: "nat \<Rightarrow> (tcb \<Rightarrow> tcb) \<Rightarrow> kern \<Rightarrow> kern" where
  "upd_tcb t f k = k\<lparr>tcbs := (tcbs k)(t := f (tcbs k t))\<rparr>"

text \<open>The tasks whose state item is in a list, and those whose event item is.\<close>

definition ring_tasks :: "ptr list \<Rightarrow> nat list" where
  "ring_tasks r = map (case_ptr (\<lambda>_. 0) (\<lambda>t. t)) (filter (case_ptr (\<lambda>_. False) (\<lambda>_. True)) r)"

fun members :: "kern \<Rightarrow> state_list \<Rightarrow> nat list" where
  "members k (Ready p) = ring_tasks (pxReadyTasksLists k p)"
| "members k (Delayed d) = xDelayedTaskLists k d"
| "members k Suspended = xSuspendedTaskList k"
| "members k Termination = xTasksWaitingTermination k"

fun event_members :: "kern \<Rightarrow> event_list \<Rightarrow> nat list" where
  "event_members k PendingReady = xPendingReadyList k"
| "event_members k (EventList e) = eventLists k e"

section \<open>Lists of tasks\<close>

text \<open>\<open>uxListRemove\<close> on a task's state item and on its event item; the state item's version
  returns the number of items left.\<close>

fun drop_member :: "nat \<Rightarrow> state_list \<Rightarrow> kern \<Rightarrow> kern" where
  "drop_member t (Ready p) k =
     k\<lparr>pxReadyTasksLists := (pxReadyTasksLists k)(p := ring_remove (Item t) (pxReadyTasksLists k p))\<rparr>"
| "drop_member t (Delayed d) k =
     k\<lparr>xDelayedTaskLists := (xDelayedTaskLists k)(d := remove1 t (xDelayedTaskLists k d))\<rparr>"
| "drop_member t Suspended k = k\<lparr>xSuspendedTaskList := remove1 t (xSuspendedTaskList k)\<rparr>"
| "drop_member t Termination k =
     k\<lparr>xTasksWaitingTermination := remove1 t (xTasksWaitingTermination k)\<rparr>"

definition remove_state_item :: "nat \<Rightarrow> kern \<Rightarrow> nat \<times> kern" where
  "remove_state_item t k =
    (case stateContainer (tcbs k t) of
       None \<Rightarrow> (0, k)
     | Some c \<Rightarrow>
         let k = upd_tcb t (stateContainer_update (\<lambda>_. None)) (drop_member t c k)
         in (length (members k c), k))"

fun drop_event_member :: "nat \<Rightarrow> event_list \<Rightarrow> kern \<Rightarrow> kern" where
  "drop_event_member t PendingReady k = k\<lparr>xPendingReadyList := remove1 t (xPendingReadyList k)\<rparr>"
| "drop_event_member t (EventList e) k =
     k\<lparr>eventLists := (eventLists k)(e := remove1 t (eventLists k e))\<rparr>"

definition remove_event_item :: "nat \<Rightarrow> kern \<Rightarrow> kern" where
  "remove_event_item t k =
    (case eventContainer (tcbs k t) of
       None \<Rightarrow> k
     | Some e \<Rightarrow> upd_tcb t (eventContainer_update (\<lambda>_. None)) (drop_event_member t e k))"

definition pending_insert_end :: "nat \<Rightarrow> kern \<Rightarrow> kern" where
  "pending_insert_end t k = upd_tcb t (eventContainer_update (\<lambda>_. Some PendingReady))
     (k\<lparr>xPendingReadyList := xPendingReadyList k @ [t]\<rparr>)"

definition event_insert :: "nat \<Rightarrow> nat \<Rightarrow> kern \<Rightarrow> kern" where
  "event_insert e t k = upd_tcb t (eventContainer_update (\<lambda>_. Some (EventList e)))
     (k\<lparr>eventLists := (eventLists k)(e := insort_after (\<lambda>u. eventValue (tcbs k u)) t (eventLists k e))\<rparr>)"

definition suspended_insert_end :: "nat \<Rightarrow> kern \<Rightarrow> kern" where
  "suspended_insert_end t k = upd_tcb t (stateContainer_update (\<lambda>_. Some Suspended))
     (k\<lparr>xSuspendedTaskList := xSuspendedTaskList k @ [t]\<rparr>)"

definition termination_insert_end :: "nat \<Rightarrow> kern \<Rightarrow> kern" where
  "termination_insert_end t k = upd_tcb t (stateContainer_update (\<lambda>_. Some Termination))
     (k\<lparr>xTasksWaitingTermination := xTasksWaitingTermination k @ [t]\<rparr>)"

definition delayed_insert :: "nat \<Rightarrow> nat \<Rightarrow> kern \<Rightarrow> kern" where
  "delayed_insert d t k = upd_tcb t (stateContainer_update (\<lambda>_. Some (Delayed d)))
     (k\<lparr>xDelayedTaskLists := (xDelayedTaskLists k)
        (d := insort_after (\<lambda>u. stateValue (tcbs k u)) t (xDelayedTaskLists k d))\<rparr>)"

section \<open>Ready lists and selection\<close>

definition portRECORD_READY_PRIORITY :: "nat \<Rightarrow> kern \<Rightarrow> kern" where
  "portRECORD_READY_PRIORITY p k = k\<lparr>uxTopReadyPriority := uxTopReadyPriority k OR push_bit p 1\<rparr>"

definition portRESET_READY_PRIORITY :: "nat \<Rightarrow> kern \<Rightarrow> kern" where
  "portRESET_READY_PRIORITY p k =
     k\<lparr>uxTopReadyPriority := uxTopReadyPriority k AND NOT (push_bit p 1)\<rparr>"

definition taskRESET_READY_PRIORITY :: "nat \<Rightarrow> kern \<Rightarrow> kern" where
  "taskRESET_READY_PRIORITY p k =
    (if members k (Ready p) = [] then portRESET_READY_PRIORITY p k else k)"

definition prvAddTaskToReadyList :: "nat \<Rightarrow> kern \<Rightarrow> kern" where
  "prvAddTaskToReadyList t k =
    (let p = uxPriority (tcbs k t);
         k = portRECORD_READY_PRIORITY p k
     in upd_tcb t (stateContainer_update (\<lambda>_. Some (Ready p)))
          (k\<lparr>pxReadyTasksLists := (pxReadyTasksLists k)(p := pxReadyTasksLists k p @ [Item t])\<rparr>))"

definition clz :: "u32 \<Rightarrow> nat" where
  "clz w = length (takeWhile (\<lambda>i. \<not> bit w i) (rev [0..<32]))"

text \<open>\<open>None\<close> stands for reading the owner of a list marker, or past the ready lists.\<close>

definition taskSELECT_HIGHEST_PRIORITY_TASK :: "kern \<Rightarrow> kern option" where
  "taskSELECT_HIGHEST_PRIORITY_TASK k =
    (if uxTopReadyPriority k = 0 then None
     else let p = 31 - clz (uxTopReadyPriority k); r = ring_next p (pxReadyTasksLists k p)
          in case hd r of
               End _ \<Rightarrow> None
             | Item t \<Rightarrow> Some (k\<lparr>pxReadyTasksLists := (pxReadyTasksLists k)(p := r), pxCurrentTCB := t\<rparr>))"

definition vTaskSwitchContext :: "kern \<Rightarrow> kern option" where
  "vTaskSwitchContext k =
    (if uxSchedulerSuspended k \<noteq> 0 then Some (k\<lparr>xYieldPending := True\<rparr>)
     else taskSELECT_HIGHEST_PRIORITY_TASK (k\<lparr>xYieldPending := False\<rparr>))"

definition portYIELD :: "kern \<Rightarrow> kern" where
  "portYIELD k = k\<lparr>pendSV := True\<rparr>"

text \<open>The PendSV exception, taken when it is pending and not masked.\<close>

definition PendSV :: "kern \<Rightarrow> kern option" where
  "PendSV k = (if pendSV k then vTaskSwitchContext (k\<lparr>pendSV := False\<rparr>) else Some k)"

section \<open>Delays and the tick\<close>

definition prvResetNextTaskUnblockTime :: "kern \<Rightarrow> kern" where
  "prvResetNextTaskUnblockTime k =
    (case xDelayedTaskLists k (pxDelayedTaskList k) of
       [] \<Rightarrow> k\<lparr>xNextTaskUnblockTime := portMAX_DELAY\<rparr>
     | t # _ \<Rightarrow> k\<lparr>xNextTaskUnblockTime := stateValue (tcbs k t)\<rparr>)"

definition prvAddCurrentTaskToDelayedList :: "u32 \<Rightarrow> bool \<Rightarrow> kern \<Rightarrow> kern" where
  "prvAddCurrentTaskToDelayedList xTicksToWait xCanBlockIndefinitely k =
    (let t = pxCurrentTCB k; xConstTickCount = xTickCount k;
         (n, k) = remove_state_item t k;
         k = (if n = 0 then portRESET_READY_PRIORITY (uxPriority (tcbs k t)) k else k)
     in if xTicksToWait = portMAX_DELAY \<and> xCanBlockIndefinitely then suspended_insert_end t k
        else
          let xTimeToWake = xConstTickCount + xTicksToWait;
              k = upd_tcb t (stateValue_update (\<lambda>_. xTimeToWake)) k
          in if xTimeToWake < xConstTickCount then delayed_insert (pxOverflowDelayedTaskList k) t k
             else
               let k = delayed_insert (pxDelayedTaskList k) t k
               in if xTimeToWake < xNextTaskUnblockTime k
                  then k\<lparr>xNextTaskUnblockTime := xTimeToWake\<rparr> else k)"

definition taskSWITCH_DELAYED_LISTS :: "kern \<Rightarrow> kern" where
  "taskSWITCH_DELAYED_LISTS k =
    prvResetNextTaskUnblockTime
      (k\<lparr>pxDelayedTaskList := pxOverflowDelayedTaskList k,
         pxOverflowDelayedTaskList := pxDelayedTaskList k,
         xNumOfOverflows := xNumOfOverflows k + 1\<rparr>)"

text \<open>The loop of \<open>xTaskIncrementTick\<close> that wakes tasks; it carries \<open>xSwitchRequired\<close>.\<close>

partial_function (option) unblock_loop :: "u32 \<Rightarrow> bool \<Rightarrow> kern \<Rightarrow> (bool \<times> kern) option" where
  "unblock_loop xConstTickCount xSwitchRequired k =
    (case xDelayedTaskLists k (pxDelayedTaskList k) of
       [] \<Rightarrow> Some (xSwitchRequired, k\<lparr>xNextTaskUnblockTime := portMAX_DELAY\<rparr>)
     | t # _ \<Rightarrow>
         if xConstTickCount < stateValue (tcbs k t)
         then Some (xSwitchRequired, k\<lparr>xNextTaskUnblockTime := stateValue (tcbs k t)\<rparr>)
         else unblock_loop xConstTickCount
            (xSwitchRequired \<or> uxPriority (tcbs k (pxCurrentTCB k)) \<le> uxPriority (tcbs k t))
            (prvAddTaskToReadyList t (remove_event_item t (snd (remove_state_item t k)))))"

definition xTaskIncrementTick :: "kern \<Rightarrow> (bool \<times> kern) option" where
  "xTaskIncrementTick k =
    map_option (\<lambda>(sw, k). (sw \<or> xYieldPending k, k))
     (if uxSchedulerSuspended k = 0 then
        let xConstTickCount = xTickCount k + 1;
            k = k\<lparr>xTickCount := xConstTickCount\<rparr>;
            k = (if xConstTickCount = 0 then taskSWITCH_DELAYED_LISTS k else k)
        in map_option
            (\<lambda>(sw, k). (sw \<or> 1 < length (members k (Ready (uxPriority (tcbs k (pxCurrentTCB k))))), k))
            (if xNextTaskUnblockTime k \<le> xConstTickCount then unblock_loop xConstTickCount False k
             else Some (False, k))
      else Some (False, k\<lparr>uxPendedTicks := uxPendedTicks k + 1\<rparr>))"

definition vTaskSuspendAll :: "kern \<Rightarrow> kern" where
  "vTaskSuspendAll k = k\<lparr>uxSchedulerSuspended := uxSchedulerSuspended k + 1\<rparr>"

text \<open>The two loops of \<open>xTaskResumeAll\<close>: the pending ready list, then the pended ticks.\<close>

partial_function (option) drain_pending :: "bool \<Rightarrow> kern \<Rightarrow> (bool \<times> kern) option" where
  "drain_pending moved k =
    (case xPendingReadyList k of
       [] \<Rightarrow> Some (moved, k)
     | t # _ \<Rightarrow>
         let k = prvAddTaskToReadyList t (snd (remove_state_item t (remove_event_item t k)))
         in drain_pending True
              (if uxPriority (tcbs k (pxCurrentTCB k)) \<le> uxPriority (tcbs k t)
               then k\<lparr>xYieldPending := True\<rparr> else k))"

fun pended_ticks :: "nat \<Rightarrow> kern \<Rightarrow> kern option" where
  "pended_ticks 0 k = Some k"
| "pended_ticks (Suc n) k =
    Option.bind (xTaskIncrementTick k)
      (\<lambda>(sw, k). pended_ticks n (if sw then k\<lparr>xYieldPending := True\<rparr> else k))"

definition xTaskResumeAll :: "kern \<Rightarrow> (bool \<times> kern) option" where
  "xTaskResumeAll k =
    (let k = k\<lparr>uxSchedulerSuspended := uxSchedulerSuspended k - 1\<rparr>
     in if uxSchedulerSuspended k = 0 \<and> 0 < uxCurrentNumberOfTasks k then
          Option.bind (drain_pending False k) (\<lambda>(moved, k).
            let k = (if moved then prvResetNextTaskUnblockTime k else k)
            in map_option
                (\<lambda>k. if xYieldPending k then (True, portYIELD k) else (False, k))
                (if 0 < uxPendedTicks k
                 then map_option (\<lambda>k. k\<lparr>uxPendedTicks := 0\<rparr>) (pended_ticks (unat (uxPendedTicks k)) k)
                 else Some k))
        else Some (False, k))"

definition vTaskDelay :: "u32 \<Rightarrow> kern \<Rightarrow> kern option" where
  "vTaskDelay xTicksToDelay k =
    map_option (\<lambda>(xAlreadyYielded, k). if xAlreadyYielded then k else portYIELD k)
     (if 0 < xTicksToDelay
      then xTaskResumeAll (prvAddCurrentTaskToDelayedList xTicksToDelay False (vTaskSuspendAll k))
      else Some (False, k))"

definition vTaskDelayUntil :: "u32 \<Rightarrow> u32 \<Rightarrow> kern \<Rightarrow> (u32 \<times> kern) option" where
  "vTaskDelayUntil pxPreviousWakeTime xTimeIncrement k =
    (let k = vTaskSuspendAll k; now = xTickCount k;
         xTimeToWake = pxPreviousWakeTime + xTimeIncrement;
         xShouldDelay =
           (if now < pxPreviousWakeTime then xTimeToWake < pxPreviousWakeTime \<and> now < xTimeToWake
            else xTimeToWake < pxPreviousWakeTime \<or> now < xTimeToWake);
         k = (if xShouldDelay then prvAddCurrentTaskToDelayedList (xTimeToWake - now) False k else k)
     in map_option (\<lambda>(xAlreadyYielded, k). (xTimeToWake, if xAlreadyYielded then k else portYIELD k))
          (xTaskResumeAll k))"

section \<open>Creating, deleting, suspending\<close>

definition prvGetTCBFromHandle :: "nat \<Rightarrow> kern \<Rightarrow> nat" where
  "prvGetTCBFromHandle h k = (if h = 0 then pxCurrentTCB k else h)"

text \<open>The scheduling part of \<open>prvInitialiseNewTask\<close>; the stack and the name are not modelled.\<close>

definition prvInitialiseNewTask :: "nat \<Rightarrow> nat \<Rightarrow> kern \<Rightarrow> kern" where
  "prvInitialiseNewTask t prio k =
    (let prio = (if configMAX_PRIORITIES \<le> prio then configMAX_PRIORITIES - 1 else prio)
     in upd_tcb t (\<lambda>b. \<lparr>uxPriority = prio, uxBasePriority = prio, uxMutexesHeld = 0,
          ulNotifiedValue = 0, ucNotifyState = taskNOT_WAITING_NOTIFICATION, stateValue = stateValue b,
          stateContainer = None, eventValue = of_nat (configMAX_PRIORITIES - prio),
          eventContainer = None\<rparr>) k)"

definition prvInitialiseTaskLists :: "kern \<Rightarrow> kern" where
  "prvInitialiseTaskLists k =
    k\<lparr>pxReadyTasksLists := (\<lambda>p. [End p]), xDelayedTaskLists := (\<lambda>_. []), xPendingReadyList := [],
      xTasksWaitingTermination := [], xSuspendedTaskList := [],
      pxDelayedTaskList := 1, pxOverflowDelayedTaskList := 2\<rparr>"

definition prvAddNewTaskToReadyList :: "nat \<Rightarrow> kern \<Rightarrow> kern" where
  "prvAddNewTaskToReadyList t k =
    (let k = k\<lparr>uxCurrentNumberOfTasks := uxCurrentNumberOfTasks k + 1\<rparr>;
         k = (if pxCurrentTCB k = 0 then
                (let k = k\<lparr>pxCurrentTCB := t\<rparr>
                 in if uxCurrentNumberOfTasks k = 1 then prvInitialiseTaskLists k else k)
              else if \<not> xSchedulerRunning k \<and>
                   uxPriority (tcbs k (pxCurrentTCB k)) \<le> uxPriority (tcbs k t)
              then k\<lparr>pxCurrentTCB := t\<rparr> else k);
         k = prvAddTaskToReadyList t k
     in if xSchedulerRunning k \<and> uxPriority (tcbs k (pxCurrentTCB k)) < uxPriority (tcbs k t)
        then portYIELD k else k)"

text \<open>Freeing the TCB and stack of a task other than the running one is left to the heap.\<close>

definition vTaskDelete :: "nat \<Rightarrow> kern \<Rightarrow> kern" where
  "vTaskDelete h k =
    (let t = prvGetTCBFromHandle h k;
         (n, k) = remove_state_item t k;
         k = (if n = 0 then taskRESET_READY_PRIORITY (uxPriority (tcbs k t)) k else k);
         k = remove_event_item t k;
         k = (if t = pxCurrentTCB k
              then (termination_insert_end t k)
                \<lparr>uxDeletedTasksWaitingCleanUp := uxDeletedTasksWaitingCleanUp k + 1\<rparr>
              else prvResetNextTaskUnblockTime
                (k\<lparr>uxCurrentNumberOfTasks := uxCurrentNumberOfTasks k - 1\<rparr>))
     in if xSchedulerRunning k \<and> t = pxCurrentTCB k then portYIELD k else k)"

definition vTaskSuspend :: "nat \<Rightarrow> kern \<Rightarrow> kern option" where
  "vTaskSuspend h k =
    (let t = prvGetTCBFromHandle h k;
         (n, k) = remove_state_item t k;
         k = (if n = 0 then taskRESET_READY_PRIORITY (uxPriority (tcbs k t)) k else k);
         k = suspended_insert_end t (remove_event_item t k);
         k = (if xSchedulerRunning k then prvResetNextTaskUnblockTime k else k)
     in if t = pxCurrentTCB k then
          (if xSchedulerRunning k then Some (portYIELD k)
           else if of_nat (length (xSuspendedTaskList k)) = uxCurrentNumberOfTasks k
           then Some (k\<lparr>pxCurrentTCB := 0\<rparr>)
           else vTaskSwitchContext k)
        else Some k)"

definition prvTaskIsTaskSuspended :: "nat \<Rightarrow> kern \<Rightarrow> bool" where
  "prvTaskIsTaskSuspended t k \<longleftrightarrow>
     stateContainer (tcbs k t) = Some Suspended \<and> eventContainer (tcbs k t) \<noteq> Some PendingReady \<and>
     eventContainer (tcbs k t) = None"

definition vTaskResume :: "nat \<Rightarrow> kern \<Rightarrow> kern" where
  "vTaskResume t k =
    (if t \<noteq> 0 \<and> t \<noteq> pxCurrentTCB k \<and> prvTaskIsTaskSuspended t k
     then let k = prvAddTaskToReadyList t (snd (remove_state_item t k))
          in if uxPriority (tcbs k (pxCurrentTCB k)) \<le> uxPriority (tcbs k t) then portYIELD k else k
     else k)"

definition xTaskResumeFromISR :: "nat \<Rightarrow> kern \<Rightarrow> bool \<times> kern" where
  "xTaskResumeFromISR t k =
    (if prvTaskIsTaskSuspended t k then
       (if uxSchedulerSuspended k = 0
        then (uxPriority (tcbs k (pxCurrentTCB k)) \<le> uxPriority (tcbs k t),
              prvAddTaskToReadyList t (snd (remove_state_item t k)))
        else (False, pending_insert_end t k))
     else (False, k))"

datatype eTaskState = eRunning | eReady | eBlocked | eSuspended | eDeleted

definition eTaskGetState :: "nat \<Rightarrow> kern \<Rightarrow> eTaskState" where
  "eTaskGetState t k =
    (if t = pxCurrentTCB k then eRunning
     else let c = stateContainer (tcbs k t)
          in if c = Some (Delayed (pxDelayedTaskList k)) \<or>
                c = Some (Delayed (pxOverflowDelayedTaskList k)) then eBlocked
             else if c = Some Suspended
             then (if eventContainer (tcbs k t) = None then eSuspended else eBlocked)
             else if c = Some Termination \<or> c = None then eDeleted
             else eReady)"

section \<open>Priorities\<close>

definition taskEVENT_LIST_ITEM_VALUE_IN_USE :: u32 where
  "taskEVENT_LIST_ITEM_VALUE_IN_USE = 0x80000000"

definition set_event_value :: "nat \<Rightarrow> nat \<Rightarrow> kern \<Rightarrow> kern" where
  "set_event_value t prio k =
    (if eventValue (tcbs k t) AND taskEVENT_LIST_ITEM_VALUE_IN_USE = 0
     then upd_tcb t (eventValue_update (\<lambda>_. of_nat (configMAX_PRIORITIES - prio))) k else k)"

definition vTaskPrioritySet :: "nat \<Rightarrow> nat \<Rightarrow> kern \<Rightarrow> kern" where
  "vTaskPrioritySet h uxNewPriority k =
    (let new = (if configMAX_PRIORITIES \<le> uxNewPriority then configMAX_PRIORITIES - 1
                else uxNewPriority);
         t = prvGetTCBFromHandle h k; base = uxBasePriority (tcbs k t)
     in if base \<noteq> new then
          let xYieldRequired =
                (if base < new
                 then t \<noteq> pxCurrentTCB k \<and> uxPriority (tcbs k (pxCurrentTCB k)) \<le> new
                 else t = pxCurrentTCB k);
              used = uxPriority (tcbs k t);
              k = (if base = used then upd_tcb t (uxPriority_update (\<lambda>_. new)) k else k);
              k = upd_tcb t (uxBasePriority_update (\<lambda>_. new)) k;
              k = set_event_value t new k;
              k = (if stateContainer (tcbs k t) = Some (Ready used) then
                     let (n, k) = remove_state_item t k;
                         k = (if n = 0 then portRESET_READY_PRIORITY used k else k)
                     in prvAddTaskToReadyList t k
                   else k)
          in if xYieldRequired then portYIELD k else k
        else k)"

definition vTaskPriorityInherit :: "nat \<Rightarrow> kern \<Rightarrow> kern" where
  "vTaskPriorityInherit t k =
    (let cur = uxPriority (tcbs k (pxCurrentTCB k))
     in if t \<noteq> 0 \<and> uxPriority (tcbs k t) < cur then
          let k = set_event_value t cur k
          in if stateContainer (tcbs k t) = Some (Ready (uxPriority (tcbs k t))) then
               let (n, k) = remove_state_item t k;
                   k = (if n = 0 then taskRESET_READY_PRIORITY (uxPriority (tcbs k t)) k else k)
               in prvAddTaskToReadyList t (upd_tcb t (uxPriority_update (\<lambda>_. cur)) k)
             else upd_tcb t (uxPriority_update (\<lambda>_. cur)) k
        else k)"

definition xTaskPriorityDisinherit :: "nat \<Rightarrow> kern \<Rightarrow> bool \<times> kern" where
  "xTaskPriorityDisinherit t k =
    (if t \<noteq> 0 then
       let k = upd_tcb t (uxMutexesHeld_update (\<lambda>n. n - 1)) k
       in if uxPriority (tcbs k t) \<noteq> uxBasePriority (tcbs k t) \<and> uxMutexesHeld (tcbs k t) = 0 then
            let (n, k) = remove_state_item t k;
                k = (if n = 0 then taskRESET_READY_PRIORITY (uxPriority (tcbs k t)) k else k);
                k = upd_tcb t (\<lambda>b. b\<lparr>uxPriority := uxBasePriority b\<rparr>) k;
                k = upd_tcb t (\<lambda>b. b\<lparr>eventValue := of_nat (configMAX_PRIORITIES - uxPriority b)\<rparr>) k
            in (True, prvAddTaskToReadyList t k)
          else (False, k)
     else (False, k))"

section \<open>Event lists and time-outs\<close>

definition vTaskPlaceOnEventList :: "nat \<Rightarrow> u32 \<Rightarrow> kern \<Rightarrow> kern" where
  "vTaskPlaceOnEventList e xTicksToWait k =
     prvAddCurrentTaskToDelayedList xTicksToWait True (event_insert e (pxCurrentTCB k) k)"

definition xTaskRemoveFromEventList :: "nat \<Rightarrow> kern \<Rightarrow> (bool \<times> kern) option" where
  "xTaskRemoveFromEventList e k =
    (case eventLists k e of
       [] \<Rightarrow> None
     | t # _ \<Rightarrow>
         let k = remove_event_item t k;
             k = (if uxSchedulerSuspended k = 0
                  then prvAddTaskToReadyList t (snd (remove_state_item t k))
                  else pending_insert_end t k)
         in Some (if uxPriority (tcbs k (pxCurrentTCB k)) < uxPriority (tcbs k t)
                  then (True, k\<lparr>xYieldPending := True\<rparr>) else (False, k)))"

record TimeOut_t =
  xOverflowCount :: u32
  xTimeOnEntering :: u32

definition vTaskSetTimeOutState :: "kern \<Rightarrow> TimeOut_t" where
  "vTaskSetTimeOutState k = \<lparr>xOverflowCount = xNumOfOverflows k, xTimeOnEntering = xTickCount k\<rparr>"

definition xTaskCheckForTimeOut :: "TimeOut_t \<Rightarrow> u32 \<Rightarrow> kern \<Rightarrow> bool \<times> TimeOut_t \<times> u32" where
  "xTaskCheckForTimeOut pxTimeOut pxTicksToWait k =
    (let now = xTickCount k
     in if pxTicksToWait = portMAX_DELAY then (False, pxTimeOut, pxTicksToWait)
        else if xNumOfOverflows k \<noteq> xOverflowCount pxTimeOut \<and> xTimeOnEntering pxTimeOut \<le> now
        then (True, pxTimeOut, pxTicksToWait)
        else if now - xTimeOnEntering pxTimeOut < pxTicksToWait
        then (False, vTaskSetTimeOutState k, pxTicksToWait - (now - xTimeOnEntering pxTimeOut))
        else (True, pxTimeOut, pxTicksToWait))"

definition vTaskMissedYield :: "kern \<Rightarrow> kern" where
  "vTaskMissedYield k = k\<lparr>xYieldPending := True\<rparr>"

section \<open>Notifications\<close>

datatype eNotifyAction =
  eNoAction | eSetBits | eIncrement | eSetValueWithOverwrite | eSetValueWithoutOverwrite

definition apply_action :: "eNotifyAction \<Rightarrow> u32 \<Rightarrow> notify_state \<Rightarrow> u32 \<Rightarrow> bool \<times> u32" where
  "apply_action a ulValue ucOriginalNotifyState v =
    (case a of
       eSetBits \<Rightarrow> (True, v OR ulValue)
     | eIncrement \<Rightarrow> (True, v + 1)
     | eSetValueWithOverwrite \<Rightarrow> (True, ulValue)
     | eSetValueWithoutOverwrite \<Rightarrow>
         (if ucOriginalNotifyState \<noteq> taskNOTIFICATION_RECEIVED then (True, ulValue) else (False, v))
     | eNoAction \<Rightarrow> (True, v))"

text \<open>The first result is \<open>pdPASS\<close>, the second what \<open>pulPreviousNotificationValue\<close> receives.\<close>

definition xTaskGenericNotify :: "nat \<Rightarrow> u32 \<Rightarrow> eNotifyAction \<Rightarrow> kern \<Rightarrow> (bool \<times> u32) \<times> kern" where
  "xTaskGenericNotify t ulValue eAction k =
    (let prev = ulNotifiedValue (tcbs k t); orig = ucNotifyState (tcbs k t);
         (pass, v) = apply_action eAction ulValue orig prev;
         k = upd_tcb t (\<lambda>b. b\<lparr>ucNotifyState := taskNOTIFICATION_RECEIVED, ulNotifiedValue := v\<rparr>) k;
         k = (if orig = taskWAITING_NOTIFICATION then
                let k = prvAddTaskToReadyList t (snd (remove_state_item t k))
                in if uxPriority (tcbs k (pxCurrentTCB k)) < uxPriority (tcbs k t)
                   then portYIELD k else k
              else k)
     in ((pass, prev), k))"

text \<open>The unblocking code the two interrupt versions share; \<open>woken\<close> is the variable behind
  \<open>pxHigherPriorityTaskWoken\<close>, \<open>None\<close> when the pointer is NULL.\<close>

definition notify_unblock_from_isr :: "nat \<Rightarrow> bool option \<Rightarrow> kern \<Rightarrow> bool option \<times> kern" where
  "notify_unblock_from_isr t woken k =
    (let k = (if uxSchedulerSuspended k = 0
              then prvAddTaskToReadyList t (snd (remove_state_item t k))
              else pending_insert_end t k)
     in if uxPriority (tcbs k (pxCurrentTCB k)) < uxPriority (tcbs k t)
        then (case woken of Some _ \<Rightarrow> (Some True, k) | None \<Rightarrow> (None, k\<lparr>xYieldPending := True\<rparr>))
        else (woken, k))"

definition xTaskGenericNotifyFromISR ::
    "nat \<Rightarrow> u32 \<Rightarrow> eNotifyAction \<Rightarrow> bool option \<Rightarrow> kern \<Rightarrow> (bool \<times> u32) \<times> bool option \<times> kern" where
  "xTaskGenericNotifyFromISR t ulValue eAction woken k =
    (let prev = ulNotifiedValue (tcbs k t); orig = ucNotifyState (tcbs k t);
         (pass, v) = apply_action eAction ulValue orig prev;
         k = upd_tcb t (\<lambda>b. b\<lparr>ucNotifyState := taskNOTIFICATION_RECEIVED, ulNotifiedValue := v\<rparr>) k
     in ((pass, prev), if orig = taskWAITING_NOTIFICATION then notify_unblock_from_isr t woken k
                       else (woken, k)))"

definition vTaskNotifyGiveFromISR :: "nat \<Rightarrow> bool option \<Rightarrow> kern \<Rightarrow> bool option \<times> kern" where
  "vTaskNotifyGiveFromISR t woken k =
    (let orig = ucNotifyState (tcbs k t);
         k = upd_tcb t (\<lambda>b. b\<lparr>ucNotifyState := taskNOTIFICATION_RECEIVED,
               ulNotifiedValue := ulNotifiedValue b + 1\<rparr>) k
     in if orig = taskWAITING_NOTIFICATION then notify_unblock_from_isr t woken k else (woken, k))"

text \<open>The two critical sections of the blocking calls: the task may switch out between them.\<close>

definition ulTaskNotifyTake_enter :: "u32 \<Rightarrow> kern \<Rightarrow> kern" where
  "ulTaskNotifyTake_enter xTicksToWait k =
    (let t = pxCurrentTCB k
     in if ulNotifiedValue (tcbs k t) = 0 then
          let k = upd_tcb t (ucNotifyState_update (\<lambda>_. taskWAITING_NOTIFICATION)) k
          in if 0 < xTicksToWait then portYIELD (prvAddCurrentTaskToDelayedList xTicksToWait True k)
             else k
        else k)"

definition ulTaskNotifyTake_exit :: "bool \<Rightarrow> kern \<Rightarrow> u32 \<times> kern" where
  "ulTaskNotifyTake_exit xClearCountOnExit k =
    (let t = pxCurrentTCB k; ulReturn = ulNotifiedValue (tcbs k t);
         k = (if ulReturn \<noteq> 0
              then upd_tcb t (ulNotifiedValue_update
                     (\<lambda>_. if xClearCountOnExit then 0 else ulReturn - 1)) k
              else k)
     in (ulReturn, upd_tcb t (ucNotifyState_update (\<lambda>_. taskNOT_WAITING_NOTIFICATION)) k))"

definition xTaskNotifyWait_enter :: "u32 \<Rightarrow> u32 \<Rightarrow> kern \<Rightarrow> kern" where
  "xTaskNotifyWait_enter ulBitsToClearOnEntry xTicksToWait k =
    (let t = pxCurrentTCB k
     in if ucNotifyState (tcbs k t) \<noteq> taskNOTIFICATION_RECEIVED then
          let k = upd_tcb t (\<lambda>b. b\<lparr>ulNotifiedValue := ulNotifiedValue b AND NOT ulBitsToClearOnEntry,
                    ucNotifyState := taskWAITING_NOTIFICATION\<rparr>) k
          in if 0 < xTicksToWait then portYIELD (prvAddCurrentTaskToDelayedList xTicksToWait True k)
             else k
        else k)"

definition xTaskNotifyWait_exit :: "u32 \<Rightarrow> kern \<Rightarrow> (bool \<times> u32) \<times> kern" where
  "xTaskNotifyWait_exit ulBitsToClearOnExit k =
    (let t = pxCurrentTCB k; v = ulNotifiedValue (tcbs k t);
         waiting = ucNotifyState (tcbs k t) = taskWAITING_NOTIFICATION;
         k = (if waiting then k
              else upd_tcb t (ulNotifiedValue_update (\<lambda>w. w AND NOT ulBitsToClearOnExit)) k)
     in ((\<not> waiting, v), upd_tcb t (ucNotifyState_update (\<lambda>_. taskNOT_WAITING_NOTIFICATION)) k))"

definition xTaskNotifyStateClear :: "nat \<Rightarrow> kern \<Rightarrow> bool \<times> kern" where
  "xTaskNotifyStateClear h k =
    (let t = prvGetTCBFromHandle h k
     in if ucNotifyState (tcbs k t) = taskNOTIFICATION_RECEIVED
        then (True, upd_tcb t (ucNotifyState_update (\<lambda>_. taskNOT_WAITING_NOTIFICATION)) k)
        else (False, k))"

end
