(* ===== verification/RtosSched.thy ===== *)
theory RtosSched
  imports RtosTasks
begin

unbundle bit_operations_syntax

text \<open>
  The scheduler's invariant: every task is in exactly the list its state item names, the bit map
  marks exactly the non-empty ready lists, the delayed lists are sorted and hold wake times of the
  current and of the next turn of the tick counter, and the next unblock time is never late. Each
  primitive is shown to keep it, then every operation, then every interleaving of task calls,
  interrupts and context switches.
\<close>

section \<open>The invariant\<close>

definition rings_ok :: "kern \<Rightarrow> bool" where
  "rings_ok k \<longleftrightarrow> (\<forall>p. distinct (pxReadyTasksLists k p) \<and> End p \<in> set (pxReadyTasksLists k p) \<and>
     (\<forall>q. End q \<in> set (pxReadyTasksLists k p) \<longrightarrow> q = p))"

definition containers_ok :: "kern \<Rightarrow> bool" where
  "containers_ok k \<longleftrightarrow> (\<forall>c. distinct (members k c) \<and>
     (\<forall>t. t \<in> set (members k c) \<longleftrightarrow> stateContainer (tcbs k t) = Some c))"

definition events_ok :: "kern \<Rightarrow> bool" where
  "events_ok k \<longleftrightarrow> (\<forall>e. distinct (event_members k e) \<and>
     (\<forall>t. t \<in> set (event_members k e) \<longleftrightarrow> eventContainer (tcbs k t) = Some e))"

definition prio_ok :: "kern \<Rightarrow> bool" where
  "prio_ok k \<longleftrightarrow> (\<forall>t c. stateContainer (tcbs k t) = Some c \<longrightarrow>
     uxPriority (tcbs k t) < 32 \<and> uxBasePriority (tcbs k t) < 32 \<and>
     (\<forall>p. c = Ready p \<longrightarrow> uxPriority (tcbs k t) = p))"

definition mask_ok :: "nat set \<Rightarrow> kern \<Rightarrow> bool" where
  "mask_ok M k \<longleftrightarrow>
     (\<forall>p < 32. p \<notin> M \<longrightarrow> (bit (uxTopReadyPriority k) p \<longleftrightarrow> members k (Ready p) \<noteq> []))"

definition delay_ok :: "kern \<Rightarrow> bool" where
  "delay_ok k \<longleftrightarrow> pxDelayedTaskList k \<noteq> pxOverflowDelayedTaskList k \<and>
     (\<forall>d. sorted (map (\<lambda>t. stateValue (tcbs k t)) (xDelayedTaskLists k d))) \<and>
     (\<forall>t \<in> set (xDelayedTaskLists k (pxDelayedTaskList k)).
        xTickCount k \<le> stateValue (tcbs k t) \<and> xNextTaskUnblockTime k \<le> stateValue (tcbs k t)) \<and>
     (\<forall>t \<in> set (xDelayedTaskLists k (pxOverflowDelayedTaskList k)).
        stateValue (tcbs k t) < xTickCount k)"

definition current_not_due :: "kern \<Rightarrow> bool" where
  "current_not_due k \<longleftrightarrow> (\<forall>t \<in> set (xDelayedTaskLists k (pxDelayedTaskList k)).
     xTickCount k < stateValue (tcbs k t))"

text \<open>Tasks that are in an event list, or wait for a notification, are in a state list as well;
  \<open>T\<close> excepts the task an operation has in hand.\<close>

definition attached_ok :: "nat set \<Rightarrow> kern \<Rightarrow> bool" where
  "attached_ok T k \<longleftrightarrow> (\<forall>t. t \<notin> T \<longrightarrow>
     (eventContainer (tcbs k t) \<noteq> None \<longrightarrow> stateContainer (tcbs k t) \<noteq> None) \<and>
     (ucNotifyState (tcbs k t) = taskWAITING_NOTIFICATION \<longrightarrow> eventContainer (tcbs k t) = None))"

definition core_ok :: "kern \<Rightarrow> bool" where
  "core_ok k \<longleftrightarrow> rings_ok k \<and> containers_ok k \<and> events_ok k \<and> prio_ok k \<and> delay_ok k"

definition kern_ok :: "kern \<Rightarrow> bool" where
  "kern_ok k \<longleftrightarrow> core_ok k \<and> mask_ok {} k \<and> attached_ok {} k \<and> current_not_due k"

lemmas ok_defs = rings_ok_def containers_ok_def events_ok_def prio_ok_def mask_ok_def
  delay_ok_def attached_ok_def current_not_due_def

section \<open>Selectors of the primitives\<close>

lemma tcbs_upd_tcb [simp]: "tcbs (upd_tcb t f k) u = (if u = t then f (tcbs k t) else tcbs k u)"
  by (simp add: upd_tcb_def)

lemma upd_tcb_sel [simp]:
  "pxCurrentTCB (upd_tcb t f k) = pxCurrentTCB k"
  "pxReadyTasksLists (upd_tcb t f k) = pxReadyTasksLists k"
  "xDelayedTaskLists (upd_tcb t f k) = xDelayedTaskLists k"
  "pxDelayedTaskList (upd_tcb t f k) = pxDelayedTaskList k"
  "pxOverflowDelayedTaskList (upd_tcb t f k) = pxOverflowDelayedTaskList k"
  "xPendingReadyList (upd_tcb t f k) = xPendingReadyList k"
  "xTasksWaitingTermination (upd_tcb t f k) = xTasksWaitingTermination k"
  "xSuspendedTaskList (upd_tcb t f k) = xSuspendedTaskList k"
  "eventLists (upd_tcb t f k) = eventLists k"
  "xTickCount (upd_tcb t f k) = xTickCount k"
  "uxTopReadyPriority (upd_tcb t f k) = uxTopReadyPriority k"
  "xSchedulerRunning (upd_tcb t f k) = xSchedulerRunning k"
  "uxPendedTicks (upd_tcb t f k) = uxPendedTicks k"
  "xYieldPending (upd_tcb t f k) = xYieldPending k"
  "xNumOfOverflows (upd_tcb t f k) = xNumOfOverflows k"
  "xNextTaskUnblockTime (upd_tcb t f k) = xNextTaskUnblockTime k"
  "uxSchedulerSuspended (upd_tcb t f k) = uxSchedulerSuspended k"
  "uxCurrentNumberOfTasks (upd_tcb t f k) = uxCurrentNumberOfTasks k"
  "pendSV (upd_tcb t f k) = pendSV k"
  by (simp_all add: upd_tcb_def)

lemma members_upd_tcb [simp]:
  "members (upd_tcb t f k) c = members k c" "event_members (upd_tcb t f k) e = event_members k e"
  by (cases c; simp) (cases e; simp)

text \<open>Fields that are not lists do not matter for membership.\<close>

lemma members_scalar [simp]:
  "members (k\<lparr>pxCurrentTCB := x0\<rparr>) c = members k c"
  "members (k\<lparr>xTickCount := x1\<rparr>) c = members k c"
  "members (k\<lparr>uxTopReadyPriority := x2\<rparr>) c = members k c"
  "members (k\<lparr>uxPendedTicks := x3\<rparr>) c = members k c"
  "members (k\<lparr>xYieldPending := x4\<rparr>) c = members k c"
  "members (k\<lparr>xNextTaskUnblockTime := x5\<rparr>) c = members k c"
  "members (k\<lparr>uxSchedulerSuspended := x6\<rparr>) c = members k c"
  "members (k\<lparr>uxCurrentNumberOfTasks := x7\<rparr>) c = members k c"
  "members (k\<lparr>uxDeletedTasksWaitingCleanUp := x8\<rparr>) c = members k c"
  "members (k\<lparr>pendSV := x9\<rparr>) c = members k c"
  "members (k\<lparr>xNumOfOverflows := x10\<rparr>) c = members k c"
  "members (k\<lparr>pxDelayedTaskList := x11\<rparr>) c = members k c"
  "members (k\<lparr>pxOverflowDelayedTaskList := x12\<rparr>) c = members k c"
  "members (k\<lparr>xSchedulerRunning := y\<rparr>) c = members k c"
  by ((cases c; simp)+)

lemma event_members_scalar [simp]:
  "event_members (k\<lparr>pxCurrentTCB := x0\<rparr>) e = event_members k e"
  "event_members (k\<lparr>xTickCount := x1\<rparr>) e = event_members k e"
  "event_members (k\<lparr>uxTopReadyPriority := x2\<rparr>) e = event_members k e"
  "event_members (k\<lparr>uxPendedTicks := x3\<rparr>) e = event_members k e"
  "event_members (k\<lparr>xYieldPending := x4\<rparr>) e = event_members k e"
  "event_members (k\<lparr>xNextTaskUnblockTime := x5\<rparr>) e = event_members k e"
  "event_members (k\<lparr>uxSchedulerSuspended := x6\<rparr>) e = event_members k e"
  "event_members (k\<lparr>uxCurrentNumberOfTasks := x7\<rparr>) e = event_members k e"
  "event_members (k\<lparr>uxDeletedTasksWaitingCleanUp := x8\<rparr>) e = event_members k e"
  "event_members (k\<lparr>pendSV := x9\<rparr>) e = event_members k e"
  "event_members (k\<lparr>xNumOfOverflows := x10\<rparr>) e = event_members k e"
  "event_members (k\<lparr>pxDelayedTaskList := x11\<rparr>) e = event_members k e"
  "event_members (k\<lparr>pxOverflowDelayedTaskList := x12\<rparr>) e = event_members k e"
  "event_members (k\<lparr>xSchedulerRunning := y\<rparr>) e = event_members k e"
  by ((cases e; simp)+)

lemma in_ring_tasks: "t \<in> set (ring_tasks r) \<longleftrightarrow> Item t \<in> set r"
  by (force simp: ring_tasks_def split: ptr.splits)

lemma distinct_ring_tasks: "distinct r \<Longrightarrow> distinct (ring_tasks r)"
  by (induction r) (auto simp: ring_tasks_def split: ptr.splits)

lemma ring_tasks_append [simp]: "ring_tasks (r @ [Item t]) = ring_tasks r @ [t]"
  by (simp add: ring_tasks_def)

lemma ring_remove_props:
  assumes "distinct r" and "End p \<in> set r"
  shows "set (ring_remove (Item t) r) = set r - {Item t}" "distinct (ring_remove (Item t) r)"
proof -
  obtain a as where r: "r = a # as" using assms(2) by (cases r) auto
  have "set (last as # butlast as) = set as \<and> distinct (last as # butlast as)" if "as \<noteq> []"
    using that assms(1) r
    by (metis append_butlast_last_id rotate1.simps(2) set_rotate1 distinct1_rotate distinct.simps(2))
  moreover have "as \<noteq> []" if "a = Item t" using assms(2) r that by auto
  ultimately show "set (ring_remove (Item t) r) = set r - {Item t}" "distinct (ring_remove (Item t) r)"
    using assms(1) r by (cases "a = Item t"; force)+
qed

text \<open>What a removed state item leaves behind.\<close>

lemma remove_state_item_tcbs [simp]:
  "tcbs (snd (remove_state_item t k)) u =
    (if u = t then (tcbs k t)\<lparr>stateContainer := None\<rparr> else tcbs k u)"
proof -
  have "tcbs (drop_member t c k) = tcbs k" for c by (cases c) simp_all
  then show ?thesis by (auto simp: remove_state_item_def split: option.splits)
qed

lemma drop_member_sel:
  "pxCurrentTCB (drop_member t c k) = pxCurrentTCB k"
  "pxDelayedTaskList (drop_member t c k) = pxDelayedTaskList k"
  "pxOverflowDelayedTaskList (drop_member t c k) = pxOverflowDelayedTaskList k"
  "event_members (drop_member t c k) e = event_members k e"
  "xPendingReadyList (drop_member t c k) = xPendingReadyList k"
  "xTickCount (drop_member t c k) = xTickCount k"
  "uxTopReadyPriority (drop_member t c k) = uxTopReadyPriority k"
  "xNumOfOverflows (drop_member t c k) = xNumOfOverflows k"
  "xNextTaskUnblockTime (drop_member t c k) = xNextTaskUnblockTime k"
  "uxSchedulerSuspended (drop_member t c k) = uxSchedulerSuspended k"
  "xYieldPending (drop_member t c k) = xYieldPending k"
  "pendSV (drop_member t c k) = pendSV k"
  by (cases c; cases e; simp)+

lemma remove_state_item_sel [simp]:
  "pxCurrentTCB (snd (remove_state_item t k)) = pxCurrentTCB k"
  "pxDelayedTaskList (snd (remove_state_item t k)) = pxDelayedTaskList k"
  "pxOverflowDelayedTaskList (snd (remove_state_item t k)) = pxOverflowDelayedTaskList k"
  "event_members (snd (remove_state_item t k)) e = event_members k e"
  "xPendingReadyList (snd (remove_state_item t k)) = xPendingReadyList k"
  "xTickCount (snd (remove_state_item t k)) = xTickCount k"
  "uxTopReadyPriority (snd (remove_state_item t k)) = uxTopReadyPriority k"
  "xNumOfOverflows (snd (remove_state_item t k)) = xNumOfOverflows k"
  "xNextTaskUnblockTime (snd (remove_state_item t k)) = xNextTaskUnblockTime k"
  "uxSchedulerSuspended (snd (remove_state_item t k)) = uxSchedulerSuspended k"
  "xYieldPending (snd (remove_state_item t k)) = xYieldPending k"
  "pendSV (snd (remove_state_item t k)) = pendSV k"
  by (simp_all add: remove_state_item_def drop_member_sel split: option.splits)

lemma set_members_drop:
  assumes "rings_ok k" and "containers_ok k"
  shows "set (members (drop_member t c' k) c) =
      (if c = c' then set (members k c) - {t} else set (members k c))"
    "distinct (members (drop_member t c' k) c)"
proof -
  have R: "distinct (pxReadyTasksLists k p)" "End p \<in> set (pxReadyTasksLists k p)" for p
    using assms(1) by (auto simp: rings_ok_def)
  have C: "distinct (members k c)" for c using assms(2) by (auto simp: containers_ok_def)
  have ring: "set (ring_tasks (ring_remove (Item t) (pxReadyTasksLists k p))) =
      set (ring_tasks (pxReadyTasksLists k p)) - {t}"
    "distinct (ring_tasks (ring_remove (Item t) (pxReadyTasksLists k p)))" for p
    using ring_remove_props [OF R] by (auto simp: in_ring_tasks intro: distinct_ring_tasks)
  show "set (members (drop_member t c' k) c) =
      (if c = c' then set (members k c) - {t} else set (members k c))"
    using C [of c] ring by (cases c; cases c') (auto simp: set_remove1_eq)
  show "distinct (members (drop_member t c' k) c)"
    using C [of c] ring by (cases c; cases c') (auto simp: distinct_remove1)
qed

lemma set_members_remove:
  assumes "rings_ok k" and "containers_ok k"
  shows "set (members (snd (remove_state_item t k)) c) = set (members k c) - {t}"
    "distinct (members (snd (remove_state_item t k)) c)"
proof -
  have C: "t \<in> set (members k c) \<longleftrightarrow> stateContainer (tcbs k t) = Some c" "distinct (members k c)" for c
    using assms(2) by (auto simp: containers_ok_def)
  show "set (members (snd (remove_state_item t k)) c) = set (members k c) - {t}"
    "distinct (members (snd (remove_state_item t k)) c)"
    using set_members_drop [OF assms, of t _ c] C [of c]
    by (auto simp: remove_state_item_def Let_def split: option.splits if_splits)
qed

lemma delayed_remove:
  assumes "containers_ok k"
  shows "xDelayedTaskLists (snd (remove_state_item t k)) d = remove1 t (xDelayedTaskLists k d)"
proof -
  have drop: "xDelayedTaskLists (drop_member t c k) d =
      (if c = Delayed d then remove1 t (xDelayedTaskLists k d) else xDelayedTaskLists k d)" for c
    by (cases c) auto
  have "t \<in> set (xDelayedTaskLists k d) \<longleftrightarrow> stateContainer (tcbs k t) = Some (Delayed d)"
    using assms members.simps(2) [of k d] unfolding containers_ok_def by metis
  then show ?thesis
    by (auto simp: remove_state_item_def Let_def drop remove1_idem split: option.splits)
qed

section \<open>The primitives keep the core of the invariant\<close>

lemma core_okD:
  assumes "core_ok k"
  shows "rings_ok k" "containers_ok k" "events_ok k" "prio_ok k" "delay_ok k"
    "distinct (members k c)" "t \<in> set (members k c) \<longleftrightarrow> stateContainer (tcbs k t) = Some c"
    "distinct (event_members k e)"
    "t \<in> set (event_members k e) \<longleftrightarrow> eventContainer (tcbs k t) = Some e"
    "stateContainer (tcbs k t) = Some c \<Longrightarrow> uxPriority (tcbs k t) < 32"
    "stateContainer (tcbs k t) = Some c \<Longrightarrow> uxBasePriority (tcbs k t) < 32"
    "stateContainer (tcbs k t) = Some (Ready p) \<Longrightarrow> uxPriority (tcbs k t) = p"
  using assms by (auto simp: core_ok_def containers_ok_def events_ok_def prio_ok_def)

lemma pxReady_remove:
  "pxReadyTasksLists (snd (remove_state_item t k)) p =
    (if stateContainer (tcbs k t) = Some (Ready p)
     then ring_remove (Item t) (pxReadyTasksLists k p) else pxReadyTasksLists k p)"
proof -
  have "pxReadyTasksLists (drop_member t c k) p =
      (if c = Ready p then ring_remove (Item t) (pxReadyTasksLists k p) else pxReadyTasksLists k p)" for c
    by (cases c) auto
  then show ?thesis by (auto simp: remove_state_item_def Let_def split: option.splits)
qed

lemma rings_remove: "rings_ok k \<Longrightarrow> rings_ok (snd (remove_state_item t k))"
proof -
  assume R: "rings_ok k"
  have "distinct (pxReadyTasksLists (snd (remove_state_item t k)) p)"
    "set (pxReadyTasksLists (snd (remove_state_item t k)) p) =
      set (pxReadyTasksLists k p) - (if stateContainer (tcbs k t) = Some (Ready p) then {Item t} else {})" for p
    using R ring_remove_props [of "pxReadyTasksLists k p" p t] by (auto simp: rings_ok_def pxReady_remove)
  with R show ?thesis by (auto simp: rings_ok_def)
qed

lemma delay_remove:
  "containers_ok k \<Longrightarrow> delay_ok k \<Longrightarrow> delay_ok (snd (remove_state_item t k))"
proof -
  assume c: "containers_ok k" and d: "delay_ok k"
  have v: "stateValue (tcbs (snd (remove_state_item t k)) u) = stateValue (tcbs k u)" for u by simp
  have s: "set (remove1 t xs) \<subseteq> set xs" for xs :: "nat list" by (rule set_remove1_subset)
  show ?thesis
    using d s unfolding delay_ok_def v delayed_remove [OF c]
    by (auto intro!: sorted_map_remove1 dest!: subsetD [OF s])
qed

lemma core_remove: "core_ok k \<Longrightarrow> core_ok (snd (remove_state_item t k))"
proof -
  assume ok: "core_ok k"
  let ?k = "snd (remove_state_item t k)"
  note D = core_okD [OF ok]
  have "containers_ok ?k"
    unfolding containers_ok_def set_members_remove(1) [OF D(1,2)]
    using set_members_remove(2) [OF D(1,2)] D(7) by auto
  moreover have "events_ok ?k" using D(3) by (simp add: events_ok_def)
  moreover have "prio_ok ?k" using D(4) by (auto simp: prio_ok_def)
  ultimately show ?thesis
    using rings_remove [OF D(1)] delay_remove [OF D(2,5)] by (simp add: core_ok_def)
qed

lemma members_remove_empty:
  assumes "core_ok k" and "stateContainer (tcbs k t) = Some c"
  shows "fst (remove_state_item t k) = 0 \<longleftrightarrow> members (snd (remove_state_item t k)) c = []"
  using assms(2) by (simp add: remove_state_item_def)

lemma mask_remove:
  assumes "core_ok k" and "mask_ok M k"
  shows "mask_ok (M \<union> {p. stateContainer (tcbs k t) = Some (Ready p)}) (snd (remove_state_item t k))"
proof -
  have "members (snd (remove_state_item t k)) (Ready p) = [] \<longleftrightarrow> members k (Ready p) = []"
    if "stateContainer (tcbs k t) \<noteq> Some (Ready p)" for p
  proof -
    have "set (members (snd (remove_state_item t k)) (Ready p)) = set (members k (Ready p))"
      using that set_members_remove(1) [OF core_okD(1,2) [OF assms(1)], of t "Ready p"]
        core_okD(7) [OF assms(1), of t "Ready p"] by simp
    then show ?thesis by (metis set_empty)
  qed
  then show ?thesis using assms(2) unfolding mask_ok_def by auto
qed

lemma reset_sel [simp]:
  "members (portRESET_READY_PRIORITY p k) c = members k c"
  "event_members (portRESET_READY_PRIORITY p k) e = event_members k e"
  "tcbs (portRESET_READY_PRIORITY p k) = tcbs k"
  "pxCurrentTCB (portRESET_READY_PRIORITY p k) = pxCurrentTCB k"
  "xTickCount (portRESET_READY_PRIORITY p k) = xTickCount k"
  "xNextTaskUnblockTime (portRESET_READY_PRIORITY p k) = xNextTaskUnblockTime k"
  "pxDelayedTaskList (portRESET_READY_PRIORITY p k) = pxDelayedTaskList k"
  "pxOverflowDelayedTaskList (portRESET_READY_PRIORITY p k) = pxOverflowDelayedTaskList k"
  "xDelayedTaskLists (portRESET_READY_PRIORITY p k) = xDelayedTaskLists k"
  "uxSchedulerSuspended (portRESET_READY_PRIORITY p k) = uxSchedulerSuspended k"
  by (simp_all add: portRESET_READY_PRIORITY_def)

lemma taskRESET_sel [simp]:
  "members (taskRESET_READY_PRIORITY p k) c = members k c"
  "event_members (taskRESET_READY_PRIORITY p k) e = event_members k e"
  "tcbs (taskRESET_READY_PRIORITY p k) = tcbs k"
  "pxCurrentTCB (taskRESET_READY_PRIORITY p k) = pxCurrentTCB k"
  "xTickCount (taskRESET_READY_PRIORITY p k) = xTickCount k"
  "xDelayedTaskLists (taskRESET_READY_PRIORITY p k) = xDelayedTaskLists k"
  "pxDelayedTaskList (taskRESET_READY_PRIORITY p k) = pxDelayedTaskList k"
  by (simp_all add: taskRESET_READY_PRIORITY_def)

lemma core_reset: "core_ok (portRESET_READY_PRIORITY p k) = core_ok k"
  by (simp add: core_ok_def containers_ok_def events_ok_def prio_ok_def delay_ok_def)
    (simp add: rings_ok_def portRESET_READY_PRIORITY_def)

lemma core_taskRESET [simp]: "core_ok (taskRESET_READY_PRIORITY p k) = core_ok k"
  by (simp add: taskRESET_READY_PRIORITY_def core_reset)

lemma mask_reset:
  assumes "mask_ok (insert p M) k" and "members k (Ready p) = []"
  shows "mask_ok M (portRESET_READY_PRIORITY p k)"
  using assms unfolding mask_ok_def
  by (auto simp: portRESET_READY_PRIORITY_def bit_and_iff bit_not_iff bit_exp_iff)

lemma mask_mono: "mask_ok M k \<Longrightarrow> M \<subseteq> N \<Longrightarrow> mask_ok N k"
  by (auto simp: mask_ok_def)

text \<open>Removing a task and clearing the bit when the count it returned is zero.\<close>

lemma mask_remove_taskRESET:
  assumes "core_ok k" and "mask_ok {} k"
  shows "mask_ok {} (case remove_state_item t k of (n, k') \<Rightarrow>
     if n = 0 then taskRESET_READY_PRIORITY (uxPriority (tcbs k' t)) k' else k')"
proof -
  obtain n k' where r: "remove_state_item t k = (n, k')" by fastforce
  then have k': "k' = snd (remove_state_item t k)" "n = fst (remove_state_item t k)" by simp_all
  let ?p = "uxPriority (tcbs k t)"
  have M: "mask_ok {p. stateContainer (tcbs k t) = Some (Ready p)} k'"
    using mask_remove [OF assms, of t] k' by simp
  have p': "uxPriority (tcbs k' t) = ?p" by (simp add: k')
  show ?thesis
  proof (cases "\<exists>p. stateContainer (tcbs k t) = Some (Ready p)")
    case True
    then have c: "stateContainer (tcbs k t) = Some (Ready ?p)" using core_okD(12) [OF assms(1)] by metis
    then have M: "mask_ok {?p} k'" using M by simp
    show ?thesis
    proof (cases "n = 0")
      case True
      then have "members k' (Ready ?p) = []" using members_remove_empty [OF assms(1) c] k' by simp
      then show ?thesis using True r p' M by (simp add: taskRESET_READY_PRIORITY_def mask_reset)
    next
      case False
      have "members k' (Ready ?p) \<noteq> []" using members_remove_empty [OF assms(1) c] False k' by simp
      moreover have "bit (uxTopReadyPriority k') ?p"
      proof -
        have "members k (Ready ?p) \<noteq> []" using core_okD(7) [OF assms(1), of t "Ready ?p"] c by auto
        moreover have "?p < 32" using core_okD(10) [OF assms(1)] c by blast
        ultimately show ?thesis using assms(2) by (auto simp: mask_ok_def k')
      qed
      ultimately have "mask_ok {} k'" using M by (auto simp: mask_ok_def)
      then show ?thesis using False r by simp
    qed
  next
    case False
    then have M: "mask_ok {} k'" using M by simp
    then have "mask_ok {} (taskRESET_READY_PRIORITY ?p k')"
      by (simp add: taskRESET_READY_PRIORITY_def mask_reset mask_mono [OF M])
    then show ?thesis using M r p' by simp
  qed
qed

lemma mask_remove_portRESET:
  assumes "core_ok k" and "mask_ok {} k" and "stateContainer (tcbs k t) = Some (Ready p)"
  shows "mask_ok {} (case remove_state_item t k of (n, k') \<Rightarrow>
     if n = 0 then portRESET_READY_PRIORITY p k' else k')"
proof -
  obtain n k' where r: "remove_state_item t k = (n, k')" by fastforce
  have "uxPriority (tcbs k' t) = p"
    using core_okD(12) [OF assms(1,3)] remove_state_item_tcbs [of t k t] r by simp
  moreover have "members k' (Ready p) = []" if "n = 0"
    using members_remove_empty [OF assms(1,3)] that r by simp
  ultimately show ?thesis
    using mask_remove_taskRESET [OF assms(1,2), of t] r
    by (auto simp: taskRESET_READY_PRIORITY_def split: if_splits)
qed

text \<open>Putting a task that is in no list into one.\<close>

lemma add_ready_sel [simp]:
  "tcbs (prvAddTaskToReadyList t k) u =
    (if u = t then (tcbs k t)\<lparr>stateContainer := Some (Ready (uxPriority (tcbs k t)))\<rparr> else tcbs k u)"
  "members (prvAddTaskToReadyList t k) c =
    (if c = Ready (uxPriority (tcbs k t)) then members k c @ [t] else members k c)"
  "event_members (prvAddTaskToReadyList t k) e = event_members k e"
  "pxCurrentTCB (prvAddTaskToReadyList t k) = pxCurrentTCB k"
  "pxDelayedTaskList (prvAddTaskToReadyList t k) = pxDelayedTaskList k"
  "pxOverflowDelayedTaskList (prvAddTaskToReadyList t k) = pxOverflowDelayedTaskList k"
  "xDelayedTaskLists (prvAddTaskToReadyList t k) = xDelayedTaskLists k"
  "xPendingReadyList (prvAddTaskToReadyList t k) = xPendingReadyList k"
  "xTickCount (prvAddTaskToReadyList t k) = xTickCount k"
  "xNumOfOverflows (prvAddTaskToReadyList t k) = xNumOfOverflows k"
  "xNextTaskUnblockTime (prvAddTaskToReadyList t k) = xNextTaskUnblockTime k"
  "uxSchedulerSuspended (prvAddTaskToReadyList t k) = uxSchedulerSuspended k"
  "xYieldPending (prvAddTaskToReadyList t k) = xYieldPending k"
  "uxTopReadyPriority (prvAddTaskToReadyList t k) =
     uxTopReadyPriority k OR push_bit (uxPriority (tcbs k t)) 1"
  "pxReadyTasksLists (prvAddTaskToReadyList t k) p =
    (if p = uxPriority (tcbs k t) then pxReadyTasksLists k p @ [Item t] else pxReadyTasksLists k p)"
  by (simp_all add: prvAddTaskToReadyList_def portRECORD_READY_PRIORITY_def Let_def)
    ((cases c; simp), (cases e; simp))

lemma core_add_ready:
  assumes ok: "core_ok k" and "stateContainer (tcbs k t) = None"
    and "uxPriority (tcbs k t) < 32" "uxBasePriority (tcbs k t) < 32"
  shows "core_ok (prvAddTaskToReadyList t k)"
proof -
  note D = core_okD [OF ok]
  have t: "t \<notin> set (members k c)" for c using D(7) assms(2) by simp
  have "Item t \<notin> set (pxReadyTasksLists k p)" for p
    using t [of "Ready p"] by (simp add: in_ring_tasks)
  then have "rings_ok (prvAddTaskToReadyList t k)" using D(1) by (auto simp: rings_ok_def)
  moreover have "containers_ok (prvAddTaskToReadyList t k)"
    using D(6,7) t by (auto simp: containers_ok_def simp del: members.simps)
  moreover have "events_ok (prvAddTaskToReadyList t k)" using D(3) by (simp add: events_ok_def)
  moreover have "prio_ok (prvAddTaskToReadyList t k)" using D(4) assms by (auto simp: prio_ok_def)
  moreover have "delay_ok (prvAddTaskToReadyList t k)"
  proof -
    have "stateValue (tcbs (prvAddTaskToReadyList t k) u) = stateValue (tcbs k u)" for u by simp
    then show ?thesis using D(5) unfolding delay_ok_def by simp
  qed
  ultimately show ?thesis by (simp add: core_ok_def)
qed

lemma mask_add_ready:
  assumes "mask_ok M k"
  shows "mask_ok (M - {uxPriority (tcbs k t)}) (prvAddTaskToReadyList t k)"
  using assms unfolding mask_ok_def
  by (auto simp: bit_or_iff bit_exp_iff simp del: members.simps)

text \<open>One rule for an insertion at a place \<open>c\<close> that is not a ready list.\<close>

lemma core_insert:
  assumes ok: "core_ok k" and none: "stateContainer (tcbs k t) = None"
    and prio: "uxPriority (tcbs k t) < 32" "uxBasePriority (tcbs k t) < 32"
    and c: "\<forall>p. c \<noteq> Ready p"
    and k': "pxReadyTasksLists k' = pxReadyTasksLists k"
      "\<And>u. tcbs k' u = (if u = t then (tcbs k t)\<lparr>stateContainer := Some c\<rparr> else tcbs k u)"
      "\<And>e. event_members k' e = event_members k e"
      "\<And>b. set (members k' b) = (if b = c then insert t (set (members k b)) else set (members k b))"
      "\<And>b. distinct (members k' b)"
    and "delay_ok k'"
  shows "core_ok k'"
proof -
  note D = core_okD [OF ok]
  have "rings_ok k'" using D(1) k'(1) by (simp add: rings_ok_def)
  moreover have "containers_ok k'" using D(6,7) k' none by (auto simp: containers_ok_def)
  moreover have "events_ok k'" using D(3) k'(2,3) by (simp add: events_ok_def)
  moreover have "prio_ok k'" using D(4) prio c k'(2) by (auto simp: prio_ok_def)
  ultimately show ?thesis using assms(11) by (simp add: core_ok_def)
qed

lemma suspended_insert_sel [simp]:
  "tcbs (suspended_insert_end t k) u =
    (if u = t then (tcbs k t)\<lparr>stateContainer := Some Suspended\<rparr> else tcbs k u)"
  "members (suspended_insert_end t k) c =
    (if c = Suspended then members k c @ [t] else members k c)"
  "event_members (suspended_insert_end t k) e = event_members k e"
  "pxReadyTasksLists (suspended_insert_end t k) = pxReadyTasksLists k"
  "xDelayedTaskLists (suspended_insert_end t k) = xDelayedTaskLists k"
  "pxDelayedTaskList (suspended_insert_end t k) = pxDelayedTaskList k"
  "pxOverflowDelayedTaskList (suspended_insert_end t k) = pxOverflowDelayedTaskList k"
  "xTickCount (suspended_insert_end t k) = xTickCount k"
  "xNextTaskUnblockTime (suspended_insert_end t k) = xNextTaskUnblockTime k"
  "uxTopReadyPriority (suspended_insert_end t k) = uxTopReadyPriority k"
  "pxCurrentTCB (suspended_insert_end t k) = pxCurrentTCB k"
  by (simp_all add: suspended_insert_end_def) ((cases c; simp), (cases e; simp))

lemma termination_insert_sel [simp]:
  "tcbs (termination_insert_end t k) u =
    (if u = t then (tcbs k t)\<lparr>stateContainer := Some Termination\<rparr> else tcbs k u)"
  "members (termination_insert_end t k) c =
    (if c = Termination then members k c @ [t] else members k c)"
  "event_members (termination_insert_end t k) e = event_members k e"
  "pxReadyTasksLists (termination_insert_end t k) = pxReadyTasksLists k"
  "xDelayedTaskLists (termination_insert_end t k) = xDelayedTaskLists k"
  "pxDelayedTaskList (termination_insert_end t k) = pxDelayedTaskList k"
  "pxOverflowDelayedTaskList (termination_insert_end t k) = pxOverflowDelayedTaskList k"
  "xTickCount (termination_insert_end t k) = xTickCount k"
  "xNextTaskUnblockTime (termination_insert_end t k) = xNextTaskUnblockTime k"
  "uxTopReadyPriority (termination_insert_end t k) = uxTopReadyPriority k"
  "pxCurrentTCB (termination_insert_end t k) = pxCurrentTCB k"
  by (simp_all add: termination_insert_end_def) ((cases c; simp), (cases e; simp))

lemma core_suspended:
  assumes "core_ok k" "stateContainer (tcbs k t) = None"
    and "uxPriority (tcbs k t) < 32" "uxBasePriority (tcbs k t) < 32"
  shows "core_ok (suspended_insert_end t k)"
proof (rule core_insert [OF assms, where c = Suspended])
  show "distinct (members (suspended_insert_end t k) b)" for b
    using core_okD(6,7) [OF assms(1)] assms(2) by (simp del: members.simps)
  have "stateValue (tcbs (suspended_insert_end t k) u) = stateValue (tcbs k u)" for u by simp
  then show "delay_ok (suspended_insert_end t k)"
    using core_okD(5) [OF assms(1)] unfolding delay_ok_def by simp
qed simp_all

lemma core_termination:
  assumes "core_ok k" "stateContainer (tcbs k t) = None"
    and "uxPriority (tcbs k t) < 32" "uxBasePriority (tcbs k t) < 32"
  shows "core_ok (termination_insert_end t k)"
proof (rule core_insert [OF assms, where c = Termination])
  show "distinct (members (termination_insert_end t k) b)" for b
    using core_okD(6,7) [OF assms(1)] assms(2) by (simp del: members.simps)
  have "stateValue (tcbs (termination_insert_end t k) u) = stateValue (tcbs k u)" for u by simp
  then show "delay_ok (termination_insert_end t k)"
    using core_okD(5) [OF assms(1)] unfolding delay_ok_def by simp
qed simp_all

lemma set_insort_after: "set (insort_after f x xs) = insert x (set xs)"
proof -
  have "set xs = set (takeWhile (\<lambda>q. f q \<le> f x) xs) \<union> set (dropWhile (\<lambda>q. f q \<le> f x) xs)"
    by (metis set_append takeWhile_dropWhile_id)
  then show ?thesis by (auto simp: insort_after_def)
qed

lemma distinct_insort_after: "x \<notin> set xs \<Longrightarrow> distinct xs \<Longrightarrow> distinct (insort_after f x xs)"
proof -
  assume *: "x \<notin> set xs" "distinct xs"
  define us vs where "us = takeWhile (\<lambda>q. f q \<le> f x) xs" and "vs = dropWhile (\<lambda>q. f q \<le> f x) xs"
  have "xs = us @ vs" by (simp add: us_def vs_def)
  with * have "distinct (us @ x # vs)" by auto
  then show ?thesis by (simp only: insort_after_def us_def vs_def)
qed

lemma delayed_insert_sel [simp]:
  "tcbs (delayed_insert d t k) u =
    (if u = t then (tcbs k t)\<lparr>stateContainer := Some (Delayed d)\<rparr> else tcbs k u)"
  "members (delayed_insert d t k) c = (if c = Delayed d
     then insort_after (\<lambda>u. stateValue (tcbs k u)) t (members k c) else members k c)"
  "event_members (delayed_insert d t k) e = event_members k e"
  "pxReadyTasksLists (delayed_insert d t k) = pxReadyTasksLists k"
  "xDelayedTaskLists (delayed_insert d t k) b = (if b = d
     then insort_after (\<lambda>u. stateValue (tcbs k u)) t (xDelayedTaskLists k d) else xDelayedTaskLists k b)"
  "pxDelayedTaskList (delayed_insert d t k) = pxDelayedTaskList k"
  "pxOverflowDelayedTaskList (delayed_insert d t k) = pxOverflowDelayedTaskList k"
  "xTickCount (delayed_insert d t k) = xTickCount k"
  "xNextTaskUnblockTime (delayed_insert d t k) = xNextTaskUnblockTime k"
  "uxTopReadyPriority (delayed_insert d t k) = uxTopReadyPriority k"
  "pxCurrentTCB (delayed_insert d t k) = pxCurrentTCB k"
  by (simp_all add: delayed_insert_def) ((cases c; simp), (cases e; simp))

lemma sorted_insort_after:
  "sorted (map f xs) \<Longrightarrow> sorted (map f (insort_after f x xs))"
  by (rule insort_after_split [where f = f and x = x]) auto

lemma core_delayed:
  assumes ok: "core_ok k" and none: "stateContainer (tcbs k t) = None"
    and prio: "uxPriority (tcbs k t) < 32" "uxBasePriority (tcbs k t) < 32"
    and cur: "d = pxDelayedTaskList k \<Longrightarrow> xTickCount k \<le> stateValue (tcbs k t) \<and> w \<le> stateValue (tcbs k t)"
    and ovf: "d = pxOverflowDelayedTaskList k \<Longrightarrow> stateValue (tcbs k t) < xTickCount k"
    and w: "w \<le> xNextTaskUnblockTime k"
  shows "core_ok ((delayed_insert d t k)\<lparr>xNextTaskUnblockTime := w\<rparr>)" (is "core_ok ?k")
proof (rule core_insert [OF ok none prio, where c = "Delayed d"])
  have t: "t \<notin> set (members k c)" for c using core_okD(7) [OF ok] none by simp
  show "distinct (members ?k b)" for b
    using core_okD(6) [OF ok] t by (simp add: distinct_insort_after del: members.simps)
  show "set (members ?k b) = (if b = Delayed d then insert t (set (members k b)) else set (members k b))" for b
    by (simp add: set_insort_after del: members.simps)
  have v: "stateValue (tcbs ?k u) = stateValue (tcbs k u)" for u by simp
  note D = core_okD(5) [OF ok, unfolded delay_ok_def]
  show "delay_ok ?k"
    unfolding delay_ok_def v
  proof (intro conjI allI ballI)
    show "sorted (map (\<lambda>t. stateValue (tcbs k t)) (xDelayedTaskLists ?k b))" for b
      using D by (simp add: sorted_insort_after)
  next
    fix u assume "u \<in> set (xDelayedTaskLists ?k (pxDelayedTaskList ?k))"
    then have "u = t \<and> d = pxDelayedTaskList k \<or> u \<in> set (xDelayedTaskLists k (pxDelayedTaskList k))"
      by (auto simp: set_insort_after split: if_splits)
    then show "xTickCount ?k \<le> stateValue (tcbs k u)" "xNextTaskUnblockTime ?k \<le> stateValue (tcbs k u)"
      using D cur w by auto
  next
    fix u assume "u \<in> set (xDelayedTaskLists ?k (pxOverflowDelayedTaskList ?k))"
    then have "u = t \<and> d = pxOverflowDelayedTaskList k \<or>
        u \<in> set (xDelayedTaskLists k (pxOverflowDelayedTaskList k))"
      by (auto simp: set_insort_after split: if_splits)
    then show "stateValue (tcbs k u) < xTickCount ?k" using D ovf by auto
  qed (use D in simp_all)
qed simp_all

text \<open>Updates of a task's block that leave the fields the lists depend on.\<close>

lemma core_upd_tcb:
  assumes "stateContainer (f (tcbs k t)) = stateContainer (tcbs k t)"
    and "eventContainer (f (tcbs k t)) = eventContainer (tcbs k t)"
    and "stateValue (f (tcbs k t)) = stateValue (tcbs k t) \<or> stateContainer (tcbs k t) = None"
    and "uxPriority (f (tcbs k t)) = uxPriority (tcbs k t) \<or>
      uxPriority (f (tcbs k t)) < 32 \<and> (\<forall>p. stateContainer (tcbs k t) \<noteq> Some (Ready p))"
    and "uxBasePriority (f (tcbs k t)) = uxBasePriority (tcbs k t) \<or> uxBasePriority (f (tcbs k t)) < 32"
    and "core_ok k"
  shows "core_ok (upd_tcb t f k)"
proof -
  note D = core_okD [OF assms(6)]
  have v: "u \<in> set (xDelayedTaskLists k d) \<Longrightarrow>
      stateValue (tcbs (upd_tcb t f k) u) = stateValue (tcbs k u)" for u d
    using assms(3) D(7) [of u "Delayed d"] by auto
  have "sorted (map (\<lambda>u. stateValue (tcbs (upd_tcb t f k) u)) (xDelayedTaskLists k d)) =
      sorted (map (\<lambda>u. stateValue (tcbs k u)) (xDelayedTaskLists k d))" for d
    using v by (metis (mono_tags, lifting) map_cong)
  then have "delay_ok (upd_tcb t f k)"
    using D(5) unfolding delay_ok_def by (simp add: v del: tcbs_upd_tcb)
  moreover have "rings_ok (upd_tcb t f k)" using D(1) by (simp add: rings_ok_def)
  moreover have "containers_ok (upd_tcb t f k)" using D(2) assms(1) by (auto simp: containers_ok_def)
  moreover have "events_ok (upd_tcb t f k)" using D(3) assms(2) by (auto simp: events_ok_def)
  moreover have "prio_ok (upd_tcb t f k)" using D(4) assms(1,4,5) by (auto simp: prio_ok_def)
  ultimately show ?thesis by (simp add: core_ok_def)
qed

lemma mask_upd_tcb [simp]: "mask_ok M (upd_tcb t f k) = mask_ok M k"
  by (simp add: mask_ok_def)

text \<open>The event item.\<close>

lemma drop_event_sel:
  "tcbs (drop_event_member t e k) = tcbs k"
  "members (drop_event_member t e k) c = members k c"
  "pxReadyTasksLists (drop_event_member t e k) = pxReadyTasksLists k"
  "xDelayedTaskLists (drop_event_member t e k) = xDelayedTaskLists k"
  "pxDelayedTaskList (drop_event_member t e k) = pxDelayedTaskList k"
  "pxOverflowDelayedTaskList (drop_event_member t e k) = pxOverflowDelayedTaskList k"
  "xTickCount (drop_event_member t e k) = xTickCount k"
  "xNextTaskUnblockTime (drop_event_member t e k) = xNextTaskUnblockTime k"
  "uxTopReadyPriority (drop_event_member t e k) = uxTopReadyPriority k"
  "uxSchedulerSuspended (drop_event_member t e k) = uxSchedulerSuspended k"
  "xNumOfOverflows (drop_event_member t e k) = xNumOfOverflows k"
  "pxCurrentTCB (drop_event_member t e k) = pxCurrentTCB k"
  by (cases e; cases c; simp)+

lemma remove_event_sel [simp]:
  "tcbs (remove_event_item t k) u =
    (if u = t then (tcbs k t)\<lparr>eventContainer := None\<rparr> else tcbs k u)"
  "members (remove_event_item t k) c = members k c"
  "pxReadyTasksLists (remove_event_item t k) = pxReadyTasksLists k"
  "xDelayedTaskLists (remove_event_item t k) = xDelayedTaskLists k"
  "pxDelayedTaskList (remove_event_item t k) = pxDelayedTaskList k"
  "pxOverflowDelayedTaskList (remove_event_item t k) = pxOverflowDelayedTaskList k"
  "xTickCount (remove_event_item t k) = xTickCount k"
  "xNextTaskUnblockTime (remove_event_item t k) = xNextTaskUnblockTime k"
  "uxTopReadyPriority (remove_event_item t k) = uxTopReadyPriority k"
  "uxSchedulerSuspended (remove_event_item t k) = uxSchedulerSuspended k"
  "xNumOfOverflows (remove_event_item t k) = xNumOfOverflows k"
  "pxCurrentTCB (remove_event_item t k) = pxCurrentTCB k"
  by (auto simp: remove_event_item_def drop_event_sel split: option.splits)

text \<open>One rule for a change of the event item alone.\<close>

lemma core_events:
  assumes ok: "core_ok k"
    and t: "\<And>u. tcbs k' u = (tcbs k u)\<lparr>eventContainer := eventContainer (tcbs k' u)\<rparr>"
    and "\<And>c. members k' c = members k c"
      "pxReadyTasksLists k' = pxReadyTasksLists k" "xDelayedTaskLists k' = xDelayedTaskLists k"
      "pxDelayedTaskList k' = pxDelayedTaskList k"
      "pxOverflowDelayedTaskList k' = pxOverflowDelayedTaskList k"
      "xTickCount k' = xTickCount k" "xNextTaskUnblockTime k' = xNextTaskUnblockTime k"
    and "events_ok k'"
  shows "core_ok k'"
proof -
  note D = core_okD [OF ok]
  have e: "stateContainer (tcbs k' u) = stateContainer (tcbs k u)"
    "stateValue (tcbs k' u) = stateValue (tcbs k u)" "uxPriority (tcbs k' u) = uxPriority (tcbs k u)"
    "uxBasePriority (tcbs k' u) = uxBasePriority (tcbs k u)" for u
    by (subst t, simp)+
  show ?thesis
    using D assms(3-10) e by (simp add: core_ok_def rings_ok_def containers_ok_def prio_ok_def delay_ok_def)
qed

lemma core_remove_event: "core_ok k \<Longrightarrow> core_ok (remove_event_item t k)"
proof -
  assume ok: "core_ok k"
  note D = core_okD [OF ok]
  have drop: "set (event_members (drop_event_member t e' k) e) =
      (if e = e' then set (event_members k e) - {t} else set (event_members k e))"
    "distinct (event_members (drop_event_member t e' k) e)" for e e'
    using D(8) [of e] by (cases e; cases e'; auto simp: set_remove1_eq distinct_remove1)+
  have "events_ok (remove_event_item t k)"
    using D(8,9) drop
    by (auto simp: events_ok_def remove_event_item_def drop_event_sel split: option.splits)
  then show ?thesis by (intro core_events [OF ok]) simp_all
qed

lemma pending_insert_sel [simp]:
  "tcbs (pending_insert_end t k) u =
    (if u = t then (tcbs k t)\<lparr>eventContainer := Some PendingReady\<rparr> else tcbs k u)"
  "members (pending_insert_end t k) c = members k c"
  "event_members (pending_insert_end t k) e =
    (if e = PendingReady then event_members k e @ [t] else event_members k e)"
  "pxReadyTasksLists (pending_insert_end t k) = pxReadyTasksLists k"
  "xDelayedTaskLists (pending_insert_end t k) = xDelayedTaskLists k"
  "pxDelayedTaskList (pending_insert_end t k) = pxDelayedTaskList k"
  "pxOverflowDelayedTaskList (pending_insert_end t k) = pxOverflowDelayedTaskList k"
  "xTickCount (pending_insert_end t k) = xTickCount k"
  "xNextTaskUnblockTime (pending_insert_end t k) = xNextTaskUnblockTime k"
  "uxTopReadyPriority (pending_insert_end t k) = uxTopReadyPriority k"
  "pxCurrentTCB (pending_insert_end t k) = pxCurrentTCB k"
  by (simp_all add: pending_insert_end_def) ((cases c; simp), (cases e; simp))

lemma event_insert_sel [simp]:
  "tcbs (event_insert b t k) u =
    (if u = t then (tcbs k t)\<lparr>eventContainer := Some (EventList b)\<rparr> else tcbs k u)"
  "members (event_insert b t k) c = members k c"
  "event_members (event_insert b t k) e = (if e = EventList b
     then insort_after (\<lambda>u. eventValue (tcbs k u)) t (event_members k e) else event_members k e)"
  "pxReadyTasksLists (event_insert b t k) = pxReadyTasksLists k"
  "xDelayedTaskLists (event_insert b t k) = xDelayedTaskLists k"
  "pxDelayedTaskList (event_insert b t k) = pxDelayedTaskList k"
  "pxOverflowDelayedTaskList (event_insert b t k) = pxOverflowDelayedTaskList k"
  "xTickCount (event_insert b t k) = xTickCount k"
  "xNextTaskUnblockTime (event_insert b t k) = xNextTaskUnblockTime k"
  "uxTopReadyPriority (event_insert b t k) = uxTopReadyPriority k"
  "pxCurrentTCB (event_insert b t k) = pxCurrentTCB k"
  by (simp_all add: event_insert_def) ((cases c; simp), (cases e; simp))

lemma core_pending:
  assumes "core_ok k" "eventContainer (tcbs k t) = None"
  shows "core_ok (pending_insert_end t k)"
proof (rule core_events [OF assms(1)])
  have "t \<notin> set (event_members k e)" for e using core_okD(9) [OF assms(1)] assms(2) by simp
  then show "events_ok (pending_insert_end t k)"
    using core_okD(8,9) [OF assms(1)] by (auto simp: events_ok_def simp del: event_members.simps)
qed simp_all

lemma core_event_insert:
  assumes "core_ok k" "eventContainer (tcbs k t) = None"
  shows "core_ok (event_insert b t k)"
proof (rule core_events [OF assms(1)])
  have "t \<notin> set (event_members k e)" for e using core_okD(9) [OF assms(1)] assms(2) by simp
  then show "events_ok (event_insert b t k)"
    using core_okD(8,9) [OF assms(1)]
    by (auto simp: events_ok_def set_insort_after distinct_insort_after simp del: event_members.simps)
qed simp_all

section \<open>Waking and blocking a task\<close>

definition sched_ok :: "kern \<Rightarrow> bool" where
  "sched_ok k \<longleftrightarrow> core_ok k \<and> mask_ok {} k \<and> attached_ok {} k"

lemma kern_ok_sched: "kern_ok k \<longleftrightarrow> sched_ok k \<and> current_not_due k"
  by (auto simp: kern_ok_def sched_ok_def)

lemma sched_okD:
  assumes "sched_ok k"
  shows "core_ok k" "mask_ok {} k" "attached_ok {} k"
    "eventContainer (tcbs k t) \<noteq> None \<Longrightarrow> stateContainer (tcbs k t) \<noteq> None"
    "ucNotifyState (tcbs k t) = taskWAITING_NOTIFICATION \<Longrightarrow> eventContainer (tcbs k t) = None"
  using assms by (auto simp: sched_ok_def attached_ok_def)

abbreviation wake :: "nat \<Rightarrow> kern \<Rightarrow> kern" where
  "wake t k \<equiv> prvAddTaskToReadyList t (snd (remove_state_item t k))"

lemma sched_wake:
  assumes ok: "sched_ok k" and t: "stateContainer (tcbs k t) \<noteq> None"
  shows "sched_ok (wake t k)"
proof -
  note S = sched_okD [OF ok]
  obtain c where c: "stateContainer (tcbs k t) = Some c" using t by blast
  have "core_ok (wake t k)"
    using core_okD(10,11) [OF S(1) c] by (intro core_add_ready core_remove S) simp_all
  moreover have "mask_ok {} (wake t k)"
  proof -
    have "{p. stateContainer (tcbs k t) = Some (Ready p)} \<subseteq> {uxPriority (tcbs k t)}"
      using core_okD(12) [OF S(1)] by auto
    then have "mask_ok {uxPriority (tcbs k t)} (snd (remove_state_item t k))"
      using mask_mono [OF mask_remove [OF S(1,2), of t]] by simp
    from mask_add_ready [OF this, of t] show ?thesis by simp
  qed
  moreover have "attached_ok {} (wake t k)" using S(3) by (auto simp: attached_ok_def)
  ultimately show ?thesis by (simp add: sched_ok_def)
qed

lemma wake_sel [simp]:
  "tcbs (wake t k) u = (if u = t then (tcbs k t)
     \<lparr>stateContainer := Some (Ready (uxPriority (tcbs k t)))\<rparr> else tcbs k u)"
  by simp

lemma due_subset:
  "current_not_due k \<Longrightarrow> set (xDelayedTaskLists k' (pxDelayedTaskList k')) \<subseteq> set (xDelayedTaskLists k (pxDelayedTaskList k)) \<Longrightarrow>
   xTickCount k' = xTickCount k \<Longrightarrow>
   (\<And>t. t \<in> set (xDelayedTaskLists k' (pxDelayedTaskList k')) \<Longrightarrow> stateValue (tcbs k' t) = stateValue (tcbs k t)) \<Longrightarrow>
   current_not_due k'"
  by (auto simp: current_not_due_def)

lemma due_wake: "core_ok k \<Longrightarrow> current_not_due k \<Longrightarrow> current_not_due (wake t k)"
  by (rule due_subset [of k]) (auto simp: delayed_remove [OF core_okD(2)] dest: notin_set_remove1
      intro: set_remove1_subset [THEN subsetD])

lemma kern_wake:
  "kern_ok k \<Longrightarrow> stateContainer (tcbs k t) \<noteq> None \<Longrightarrow> kern_ok (wake t k)"
  by (simp add: kern_ok_sched sched_wake due_wake sched_okD(1))

lemma sched_remove_event: "sched_ok k \<Longrightarrow> sched_ok (remove_event_item t k)"
proof -
  assume "sched_ok k"
  note S = sched_okD [OF this]
  have "attached_ok {} (remove_event_item t k)" using S(3) by (auto simp: attached_ok_def)
  moreover have "mask_ok {} (remove_event_item t k)" using S(2) by (simp add: mask_ok_def del: members.simps)
  ultimately show ?thesis using core_remove_event [OF S(1)] by (simp add: sched_ok_def)
qed

text \<open>The task's two items may be taken out in either order.\<close>

lemma remove_items_commute:
  "remove_event_item t (snd (remove_state_item t k)) = snd (remove_state_item t (remove_event_item t k))"
proof -
  have c: "drop_event_member t e (upd_tcb t f (drop_member t c k)) =
      upd_tcb t f (drop_member t c (drop_event_member t e k))" for c e f
    by (cases c; cases e) (simp_all add: upd_tcb_def)
  have d: "upd_tcb t f (drop_member t c (upd_tcb t g k)) = upd_tcb t (f \<circ> g) (drop_member t c k)" for f g c k
    by (cases c) (simp_all add: upd_tcb_def)
  have u: "upd_tcb t f (upd_tcb t g k) = upd_tcb t (f \<circ> g) k" for f g k by (simp add: upd_tcb_def)
  have w: "tcbs (drop_member t c k) = tcbs k" for c by (cases c) simp_all
  have o: "(\<lambda>x :: tcb. x\<lparr>eventContainer := None, stateContainer := None\<rparr>) =
      (\<lambda>x. x\<lparr>stateContainer := None, eventContainer := None\<rparr>)" by (rule ext) simp
  show ?thesis
    by (auto simp: remove_event_item_def remove_state_item_def Let_def c d u w o drop_event_sel comp_def
        split: option.splits)
qed

lemma sched_wake_event:
  assumes "sched_ok k" and "stateContainer (tcbs k t) \<noteq> None"
  shows "sched_ok (prvAddTaskToReadyList t (remove_event_item t (snd (remove_state_item t k))))"
  unfolding remove_items_commute
  by (rule sched_wake) (use assms sched_remove_event in auto)

text \<open>Blocking the running task.\<close>

lemma kern_block:
  assumes ok: "kern_ok k" and run: "stateContainer (tcbs k (pxCurrentTCB k)) = Some (Ready p)"
    and n: "0 < n"
  shows "kern_ok (prvAddCurrentTaskToDelayedList n b k)"
    "pxCurrentTCB (prvAddCurrentTaskToDelayedList n b k) = pxCurrentTCB k"
    "\<And>u. u \<noteq> pxCurrentTCB k \<Longrightarrow> tcbs (prvAddCurrentTaskToDelayedList n b k) u = tcbs k u"
    "(if n = portMAX_DELAY \<and> b
      then tcbs (prvAddCurrentTaskToDelayedList n b k) (pxCurrentTCB k) =
        (tcbs k (pxCurrentTCB k))\<lparr>stateContainer := Some Suspended\<rparr>
      else tcbs (prvAddCurrentTaskToDelayedList n b k) (pxCurrentTCB k) =
        (tcbs k (pxCurrentTCB k))\<lparr>stateValue := xTickCount k + n, stateContainer := Some (Delayed
           (if xTickCount k + n < xTickCount k then pxOverflowDelayedTaskList k
            else pxDelayedTaskList k))\<rparr>)"
proof -
  let ?t = "pxCurrentTCB k" and ?w = "xTickCount k + n"
  note S = sched_okD [OF ok [unfolded kern_ok_sched, THEN conjunct1]]
  define k1 where "k1 = (case remove_state_item ?t k of (m, k') \<Rightarrow>
     if m = 0 then portRESET_READY_PRIORITY (uxPriority (tcbs k' ?t)) k' else k')"
  have p: "uxPriority (tcbs k ?t) = p" using core_okD(12) [OF S(1) run] .
  have k1_eq: "k1 = (if fst (remove_state_item ?t k) = 0
      then portRESET_READY_PRIORITY p (snd (remove_state_item ?t k)) else snd (remove_state_item ?t k))"
    by (simp add: k1_def case_prod_beta p)
  have core1: "core_ok k1" using core_remove [OF S(1)] by (simp add: k1_eq core_reset)
  have mask1: "mask_ok {} k1"
    using mask_remove_portRESET [OF S(1,2) run] by (simp add: k1_eq case_prod_beta)
  have sel1: "tcbs k1 u = (if u = ?t then (tcbs k ?t)\<lparr>stateContainer := None\<rparr> else tcbs k u)"
    "xTickCount k1 = xTickCount k" "xNextTaskUnblockTime k1 = xNextTaskUnblockTime k"
    "pxDelayedTaskList k1 = pxDelayedTaskList k" "pxOverflowDelayedTaskList k1 = pxOverflowDelayedTaskList k"
    "pxCurrentTCB k1 = ?t"
    "xDelayedTaskLists k1 d = remove1 ?t (xDelayedTaskLists k d)" for u d
    using delayed_remove [OF core_okD(2) [OF S(1)], of ?t d] by (simp_all add: k1_eq)
  have prio1: "stateContainer (tcbs k1 ?t) = None" "uxPriority (tcbs k1 ?t) < 32"
    "uxBasePriority (tcbs k1 ?t) < 32" "stateValue (tcbs k1 ?t) = stateValue (tcbs k ?t)"
    using core_okD(10,11) [OF S(1) run] by (simp_all add: sel1)
  define k2 where "k2 = upd_tcb ?t (stateValue_update (\<lambda>_. ?w)) k1"
  have core2: "core_ok k2" unfolding k2_def by (rule core_upd_tcb) (use core1 prio1 in simp_all)
  have mask2: "mask_ok {} k2" using mask1 by (simp add: k2_def)
  have prio2: "stateContainer (tcbs k2 ?t) = None" "uxPriority (tcbs k2 ?t) < 32"
    "uxBasePriority (tcbs k2 ?t) < 32" "stateValue (tcbs k2 ?t) = ?w"
    using prio1 by (simp_all add: k2_def)
  have sel2: "xTickCount k2 = xTickCount k" "xNextTaskUnblockTime k2 = xNextTaskUnblockTime k"
    "pxDelayedTaskList k2 = pxDelayedTaskList k" "pxOverflowDelayedTaskList k2 = pxOverflowDelayedTaskList k"
    "pxCurrentTCB k2 = ?t"
    "xDelayedTaskLists k2 d = remove1 ?t (xDelayedTaskLists k d)" for d
    by (simp_all add: k2_def sel1)
  let ?r = "prvAddCurrentTaskToDelayedList n b k"
  have r: "?r = (if n = portMAX_DELAY \<and> b then suspended_insert_end ?t k1
     else if ?w < xTickCount k then delayed_insert (pxOverflowDelayedTaskList k) ?t k2
     else (delayed_insert (pxDelayedTaskList k) ?t k2)\<lparr>xNextTaskUnblockTime :=
       (if ?w < xNextTaskUnblockTime k then ?w else xNextTaskUnblockTime k)\<rparr>)"
    unfolding prvAddCurrentTaskToDelayedList_def Let_def
    by (simp add: case_prod_beta k1_eq [symmetric] p k2_def [symmetric] sel2)
      (simp add: k1_eq k2_def)
  have next_upd: "k'\<lparr>xNextTaskUnblockTime := xNextTaskUnblockTime k'\<rparr> = k'" for k' :: kern by simp
  have ptr: "pxDelayedTaskList k \<noteq> pxOverflowDelayedTaskList k"
    using core_okD(5) [OF S(1)] by (simp add: delay_ok_def)
  have "core_ok ?r"
  proof -
    have "core_ok (suspended_insert_end ?t k1)" by (rule core_suspended [OF core1 prio1(1-3)])
    moreover have "core_ok (delayed_insert (pxOverflowDelayedTaskList k) ?t k2)" if "?w < xTickCount k"
    proof -
      have "core_ok ((delayed_insert (pxOverflowDelayedTaskList k) ?t k2)
          \<lparr>xNextTaskUnblockTime := xNextTaskUnblockTime k2\<rparr>)"
        by (rule core_delayed [OF core2 prio2(1-3)]) (use that ptr sel2 prio2 in auto)
      moreover have "(delayed_insert (pxOverflowDelayedTaskList k) ?t k2)
          \<lparr>xNextTaskUnblockTime := xNextTaskUnblockTime k2\<rparr> =
          delayed_insert (pxOverflowDelayedTaskList k) ?t k2"
        using next_upd [of "delayed_insert (pxOverflowDelayedTaskList k) ?t k2"] by simp
      ultimately show ?thesis by simp
    qed
    moreover have "core_ok ((delayed_insert (pxDelayedTaskList k) ?t k2)\<lparr>xNextTaskUnblockTime :=
       (if ?w < xNextTaskUnblockTime k then ?w else xNextTaskUnblockTime k)\<rparr>)" if "\<not> ?w < xTickCount k"
      by (rule core_delayed [OF core2 prio2(1-3)]) (use that ptr sel2 prio2 in auto)
    ultimately show ?thesis unfolding r by auto
  qed
  moreover have "mask_ok {} ?r"
    using mask1 mask2 unfolding r mask_ok_def by (simp del: members.simps)
  moreover have "attached_ok {} ?r"
    using S(3) unfolding r attached_ok_def by (auto simp: sel1 k2_def)
  moreover have "current_not_due ?r"
  proof -
    have due: "xTickCount k < stateValue (tcbs k u)" if "u \<in> set (xDelayedTaskLists k (pxDelayedTaskList k))" for u
      using ok that by (simp add: kern_ok_def current_not_due_def)
    have sub: "u \<in> set (xDelayedTaskLists k d)" if "u \<in> set (remove1 ?t (xDelayedTaskLists k d))" for u d
      using that set_remove1_subset by fast
    have nt: "?t \<notin> set (remove1 ?t (xDelayedTaskLists k d))" for d
      using core_okD(6) [OF S(1), of "Delayed d"] by simp
    have strict: "xTickCount k < ?w" if "\<not> ?w < xTickCount k"
      using that n by (metis add.right_neutral add_left_cancel not_less_iff_gr_or_eq)
    show ?thesis
      unfolding current_not_due_def r
      using due sub nt strict ptr
      by (auto simp: sel1 sel2 k2_def set_insort_after split: if_splits)
  qed
  ultimately show "kern_ok ?r" by (simp add: kern_ok_def)
  show "pxCurrentTCB ?r = ?t" by (simp add: r sel1 sel2)
  show "\<And>u. u \<noteq> ?t \<Longrightarrow> tcbs ?r u = tcbs k u" by (simp add: r sel1 k2_def)
  show "(if n = portMAX_DELAY \<and> b
      then tcbs ?r ?t = (tcbs k ?t)\<lparr>stateContainer := Some Suspended\<rparr>
      else tcbs ?r ?t = (tcbs k ?t)\<lparr>stateValue := ?w, stateContainer := Some (Delayed
           (if ?w < xTickCount k then pxOverflowDelayedTaskList k else pxDelayedTaskList k))\<rparr>)"
    unfolding r by (simp add: sel1 k2_def)
qed

section \<open>The tick\<close>

text \<open>The fields of the whole machine that the wake-up loop does not touch.\<close>

definition same_clock :: "kern \<Rightarrow> kern \<Rightarrow> bool" where
  "same_clock k k' \<longleftrightarrow> xTickCount k' = xTickCount k \<and> xNumOfOverflows k' = xNumOfOverflows k \<and>
     pxDelayedTaskList k' = pxDelayedTaskList k \<and>
     pxOverflowDelayedTaskList k' = pxOverflowDelayedTaskList k \<and>
     uxSchedulerSuspended k' = uxSchedulerSuspended k \<and> pxCurrentTCB k' = pxCurrentTCB k"

definition woken :: "tcb \<Rightarrow> tcb" where
  "woken b = b\<lparr>stateContainer := Some (Ready (uxPriority b)), eventContainer := None\<rparr>"

lemma core_next_time:
  "core_ok k \<Longrightarrow> (\<And>t. t \<in> set (xDelayedTaskLists k (pxDelayedTaskList k)) \<Longrightarrow> w \<le> stateValue (tcbs k t)) \<Longrightarrow>
   core_ok (k\<lparr>xNextTaskUnblockTime := w\<rparr>)"
  by (simp add: core_ok_def rings_ok_def containers_ok_def events_ok_def prio_ok_def delay_ok_def)

lemma sched_next_time:
  "sched_ok k \<Longrightarrow> (\<And>t. t \<in> set (xDelayedTaskLists k (pxDelayedTaskList k)) \<Longrightarrow> w \<le> stateValue (tcbs k t)) \<Longrightarrow>
   sched_ok (k\<lparr>xNextTaskUnblockTime := w\<rparr>)"
  by (auto simp: sched_ok_def core_next_time mask_ok_def attached_ok_def)

lemma delayed_not_none:
  "core_ok k \<Longrightarrow> t \<in> set (xDelayedTaskLists k d) \<Longrightarrow> stateContainer (tcbs k t) = Some (Delayed d)"
  using core_okD(7) [of k t "Delayed d"] by simp

lemma unblock_loop_returns:
  assumes "sched_ok k" and "xTickCount k = n"
  shows "\<exists>sw k'. unblock_loop n sw0 k = Some (sw, k') \<and> sched_ok k' \<and> current_not_due k' \<and>
    same_clock k k' \<and>
    (\<forall>t. tcbs k' t = (if t \<in> set (xDelayedTaskLists k (pxDelayedTaskList k)) \<and> stateValue (tcbs k t) \<le> n
       then woken (tcbs k t) else tcbs k t))"
  using assms
proof (induction "xDelayedTaskLists k (pxDelayedTaskList k)" arbitrary: k sw0)
  case Nil
  then show ?case
    by (subst unblock_loop.simps)
      (auto simp: same_clock_def current_not_due_def intro!: sched_next_time split: list.split)
next
  case (Cons t ts)
  note S = sched_okD [OF Cons.prems(1)]
  have xs: "xDelayedTaskLists k (pxDelayedTaskList k) = t # ts" using Cons.hyps(2) by simp
  have srt: "sorted (map (\<lambda>u. stateValue (tcbs k u)) (t # ts))" and dist: "distinct (t # ts)"
    using core_okD(5) [OF S(1)] core_okD(6) [OF S(1), of "Delayed (pxDelayedTaskList k)"] xs
    by (auto simp: delay_ok_def dest: spec [of _ "pxDelayedTaskList k"])
  show ?case
  proof (cases "n < stateValue (tcbs k t)")
    case True
    have later: "stateValue (tcbs k t) \<le> stateValue (tcbs k u)" if "u \<in> set (t # ts)" for u
      using srt that by auto
    let ?k = "k\<lparr>xNextTaskUnblockTime := stateValue (tcbs k t)\<rparr>"
    have "unblock_loop n sw0 k = Some (sw0, ?k)"
      using True xs by (subst unblock_loop.simps) simp
    moreover have "sched_ok ?k" using later xs by (intro sched_next_time Cons.prems) simp
    moreover have "n < stateValue (tcbs k u)" if "u \<in> set (t # ts)" for u
      using later [OF that] True by simp
    ultimately show ?thesis
      using xs Cons.prems(2) by (fastforce simp: same_clock_def current_not_due_def)
  next
    case False
    define k1 where "k1 = prvAddTaskToReadyList t (remove_event_item t (snd (remove_state_item t k)))"
    have st: "stateContainer (tcbs k t) \<noteq> None"
      using delayed_not_none [OF S(1), of t "pxDelayedTaskList k"] xs by simp
    have ok1: "sched_ok k1" unfolding k1_def by (rule sched_wake_event [OF Cons.prems(1) st])
    have xs1: "xDelayedTaskLists k1 (pxDelayedTaskList k1) = ts"
      by (simp add: k1_def delayed_remove [OF core_okD(2) [OF S(1)]] xs)
    have tcb1: "tcbs k1 u = (if u = t then woken (tcbs k t) else tcbs k u)" for u
      by (simp add: k1_def woken_def)
    have clk: "same_clock k k1" by (simp add: same_clock_def k1_def)
    let ?sw = "sw0 \<or> uxPriority (tcbs k (pxCurrentTCB k)) \<le> uxPriority (tcbs k t)"
    obtain sw k' where k': "unblock_loop n ?sw k1 = Some (sw, k')" "sched_ok k'" "current_not_due k'"
      "same_clock k1 k'" "\<forall>u. tcbs k' u = (if u \<in> set ts \<and> stateValue (tcbs k1 u) \<le> n
         then woken (tcbs k1 u) else tcbs k1 u)"
      using Cons.hyps(1) [OF xs1 [symmetric] ok1, of ?sw] clk Cons.prems(2) xs1
      by (auto simp: same_clock_def)
    have "unblock_loop n sw0 k = Some (sw, k')"
      using False xs k'(1) by (subst unblock_loop.simps) (simp add: k1_def)
    moreover have "\<forall>u. tcbs k' u = (if u \<in> set (t # ts) \<and> stateValue (tcbs k u) \<le> n
         then woken (tcbs k u) else tcbs k u)"
      using k'(5) False dist by (auto simp: tcb1)
    moreover have "same_clock k k'" using clk k'(4) by (simp add: same_clock_def)
    ultimately show ?thesis using k'(2,3) xs by auto
  qed
qed

text \<open>The tick itself, with the scheduler running: nothing but due tasks changes place.\<close>

definition due_at :: "kern \<Rightarrow> u32 \<Rightarrow> nat \<Rightarrow> bool" where
  "due_at k n t \<longleftrightarrow> (stateContainer (tcbs k t) = Some (Delayed (pxDelayedTaskList k)) \<or>
     stateContainer (tcbs k t) = Some (Delayed (pxOverflowDelayedTaskList k))) \<and>
     stateValue (tcbs k t) = n"

lemma tick_returns:
  assumes ok: "kern_ok k" and run: "uxSchedulerSuspended k = 0"
  shows "\<exists>sw k'. xTaskIncrementTick k = Some (sw, k') \<and> kern_ok k' \<and>
    xTickCount k' = xTickCount k + 1 \<and> uxSchedulerSuspended k' = 0 \<and> pxCurrentTCB k' = pxCurrentTCB k \<and>
    (\<forall>t. tcbs k' t = (if due_at k (xTickCount k + 1) t then woken (tcbs k t) else tcbs k t)) \<and>
    {pxDelayedTaskList k', pxOverflowDelayedTaskList k'} = {pxDelayedTaskList k, pxOverflowDelayedTaskList k}"
proof -
  let ?n = "xTickCount k + 1" and ?cur = "pxDelayedTaskList k" and ?ovf = "pxOverflowDelayedTaskList k"
  note S = sched_okD [OF ok [unfolded kern_ok_sched, THEN conjunct1]]
  note dly = core_okD(5) [OF S(1), unfolded delay_ok_def]
  have due: "xTickCount k < stateValue (tcbs k t)" if "t \<in> set (xDelayedTaskLists k ?cur)" for t
    using ok that by (simp add: kern_ok_def current_not_due_def)
  have mem: "t \<in> set (xDelayedTaskLists k d) \<longleftrightarrow> stateContainer (tcbs k t) = Some (Delayed d)" for t d
    using core_okD(7) [OF S(1), of t "Delayed d"] by simp
  define k1 where "k1 = (if ?n = 0 then taskSWITCH_DELAYED_LISTS (k\<lparr>xTickCount := ?n\<rparr>) else k\<lparr>xTickCount := ?n\<rparr>)"
  have "\<exists>k1'. k1' = k1 \<and> sched_ok k1 \<and> xTickCount k1 = ?n \<and> tcbs k1 = tcbs k \<and> xDelayedTaskLists k1 = xDelayedTaskLists k \<and>
     uxSchedulerSuspended k1 = 0 \<and> pxCurrentTCB k1 = pxCurrentTCB k \<and>
     (if ?n = 0 then pxDelayedTaskList k1 = ?ovf \<and> pxOverflowDelayedTaskList k1 = ?cur
      else pxDelayedTaskList k1 = ?cur \<and> pxOverflowDelayedTaskList k1 = ?ovf) \<and>
     (\<forall>t. t \<in> set (xDelayedTaskLists k (pxDelayedTaskList k1)) \<and> stateValue (tcbs k t) \<le> ?n \<longleftrightarrow>
        due_at k ?n t)"
  proof (cases "?n = 0")
    case False
    then have k1: "k1 = k\<lparr>xTickCount := ?n\<rparr>" by (simp add: k1_def)
    note step = word_step [OF False]
    have "core_ok k1"
    proof -
      have "delay_ok k1"
        using dly due step(1) unfolding delay_ok_def k1 by (auto simp: step(3) intro: less_trans)
      then show ?thesis
        using S(1) by (simp add: k1 core_ok_def rings_ok_def containers_ok_def events_ok_def prio_ok_def)
    qed
    moreover have "mask_ok {} k1" "attached_ok {} k1"
      using S(2,3) by (simp_all add: k1 mask_ok_def attached_ok_def)
    moreover have "stateValue (tcbs k t) \<le> ?n \<longleftrightarrow> stateValue (tcbs k t) = ?n"
      if "t \<in> set (xDelayedTaskLists k ?cur)" for t
      using due [OF that] step(3) [of "stateValue (tcbs k t)"] by auto
    moreover have "stateValue (tcbs k t) \<noteq> ?n" if "t \<in> set (xDelayedTaskLists k ?ovf)" for t
      using dly that step(1) by force
    ultimately show ?thesis using False run by (auto simp: k1 sched_ok_def due_at_def mem)
  next
    case True
    then have max: "xTickCount k = portMAX_DELAY"
      by (simp add: portMAX_DELAY_def eq_neg_iff_add_eq_0 [symmetric])
    have none: "xDelayedTaskLists k ?cur = []"
      using due max max_delay_top by (metis list.set_intros(1) neq_Nil_conv not_less)
    have k1: "k1 = taskSWITCH_DELAYED_LISTS (k\<lparr>xTickCount := ?n\<rparr>)" using True by (simp add: k1_def)
    have sel: "xTickCount k1 = 0" "tcbs k1 = tcbs k" "xDelayedTaskLists k1 = xDelayedTaskLists k"
      "pxDelayedTaskList k1 = ?ovf" "pxOverflowDelayedTaskList k1 = ?cur" "pxReadyTasksLists k1 = pxReadyTasksLists k"
      "uxSchedulerSuspended k1 = 0" "pxCurrentTCB k1 = pxCurrentTCB k"
      "uxTopReadyPriority k1 = uxTopReadyPriority k" "members k1 c = members k c"
      "event_members k1 e = event_members k e" for c e
      using True run by (auto simp: k1 taskSWITCH_DELAYED_LISTS_def prvResetNextTaskUnblockTime_def split: list.split)
    have next1: "xNextTaskUnblockTime k1 \<le> stateValue (tcbs k t)" if m: "t \<in> set (xDelayedTaskLists k ?ovf)" for t
    proof -
      obtain u us where x: "xDelayedTaskLists k ?ovf = u # us" using m by (cases "xDelayedTaskLists k ?ovf") auto
      have "sorted (map (\<lambda>t. stateValue (tcbs k t)) (u # us))" using dly x by metis
      then show ?thesis
        using m x by (auto simp: k1 taskSWITCH_DELAYED_LISTS_def prvResetNextTaskUnblockTime_def)
    qed
    have "core_ok k1"
      using S(1) next1 dly none
      by (auto simp: core_ok_def rings_ok_def containers_ok_def events_ok_def prio_ok_def delay_ok_def sel
          simp del: members.simps event_members.simps)
    moreover have "mask_ok {} k1" "attached_ok {} k1"
      using S(2,3) by (simp_all add: sel mask_ok_def attached_ok_def del: members.simps)
    moreover have "t \<notin> set (xDelayedTaskLists k ?cur)" for t using none by simp
    ultimately show ?thesis using True by (auto simp: sel sched_ok_def due_at_def mem)
  qed
  then have k1: "sched_ok k1" "xTickCount k1 = ?n" "tcbs k1 = tcbs k" "xDelayedTaskLists k1 = xDelayedTaskLists k"
     "uxSchedulerSuspended k1 = 0" "pxCurrentTCB k1 = pxCurrentTCB k"
     "{pxDelayedTaskList k1, pxOverflowDelayedTaskList k1} = {?cur, ?ovf}"
     "\<And>t. t \<in> set (xDelayedTaskLists k (pxDelayedTaskList k1)) \<and> stateValue (tcbs k t) \<le> ?n \<longleftrightarrow> due_at k ?n t"
    by (auto split: if_splits)
  note N = core_okD(5) [OF sched_okD(1) [OF k1(1)], unfolded delay_ok_def]
  define k2 where "k2 = (if xNextTaskUnblockTime k1 \<le> ?n then unblock_loop ?n False k1 else Some (False, k1))"
  have "\<exists>sw k'. k2 = Some (sw, k') \<and> sched_ok k' \<and> current_not_due k' \<and> same_clock k1 k' \<and>
    (\<forall>t. tcbs k' t = (if due_at k ?n t then woken (tcbs k t) else tcbs k t))"
  proof (cases "xNextTaskUnblockTime k1 \<le> ?n")
    case True
    show ?thesis
      unfolding k2_def if_P [OF True]
      using unblock_loop_returns [OF k1(1,2), of False] unfolding k1(3,4,8) .
  next
    case False
    have none: "\<not> due_at k ?n t" for t
      using N k1(3,4) k1(8) [of t] False by (metis order_trans)
    have "current_not_due k1"
      unfolding current_not_due_def using N False k1(2) by (metis not_le order_trans)
    then show ?thesis using False k1(1) none by (auto simp: k2_def same_clock_def k1(3))
  qed
  then obtain sw k' where k': "k2 = Some (sw, k')" "sched_ok k'" "current_not_due k'" "same_clock k1 k'"
    "\<forall>t. tcbs k' t = (if due_at k ?n t then woken (tcbs k t) else tcbs k t)" by blast
  have "\<exists>sw. xTaskIncrementTick k = Some (sw, k')"
    unfolding xTaskIncrementTick_def Let_def if_P [OF run] k1_def [symmetric] k2_def [symmetric]
    using k'(1) by simp
  then show ?thesis
    using k' k1 by (auto simp: kern_ok_sched same_clock_def)
qed

fun ticks :: "nat \<Rightarrow> kern \<Rightarrow> kern option" where
  "ticks 0 k = Some k"
| "ticks (Suc m) k = Option.bind (xTaskIncrementTick k) (\<lambda>(sw, k). ticks m k)"

lemma ticks_wake_on_time:
  assumes "kern_ok k" and "uxSchedulerSuspended k = 0"
    and "stateContainer (tcbs k t) = Some (Delayed d)"
      "d \<in> {pxDelayedTaskList k, pxOverflowDelayedTaskList k}"
    and "stateValue (tcbs k t) = xTickCount k + of_nat j" "0 < j" "j < 4294967296"
  shows "\<exists>k'. ticks m k = Some k' \<and> kern_ok k' \<and> xTickCount k' = xTickCount k + of_nat m \<and>
    (stateContainer (tcbs k' t) = Some (Ready (uxPriority (tcbs k t))) \<longleftrightarrow> j \<le> m)"
  using assms
proof (induction m arbitrary: k j)
  case 0
  then show ?case by auto
next
  case (Suc m)
  obtain sw k1 where k1: "xTaskIncrementTick k = Some (sw, k1)" "kern_ok k1" "uxSchedulerSuspended k1 = 0"
    "xTickCount k1 = xTickCount k + 1"
    "\<forall>t. tcbs k1 t = (if due_at k (xTickCount k + 1) t then woken (tcbs k t) else tcbs k t)"
    "{pxDelayedTaskList k1, pxOverflowDelayedTaskList k1} = {pxDelayedTaskList k, pxOverflowDelayedTaskList k}"
    using tick_returns [OF Suc.prems(1,2)] by auto
  have due: "due_at k (xTickCount k + 1) t \<longleftrightarrow> j = 1"
  proof -
    have "(of_nat j :: u32) = 1 \<longleftrightarrow> j = 1"
    proof
      assume "(of_nat j :: u32) = 1"
      then have "unat (of_nat j :: u32) = 1" by simp
      then show "j = 1" using unat_of_nat_u32 [OF Suc.prems(7)] by simp
    qed simp
    then show ?thesis using Suc.prems by (auto simp: due_at_def)
  qed
  show ?case
  proof (cases "j = 1")
    case False
    then have "tcbs k1 t = tcbs k t" using k1(5) due by simp
    then have "\<exists>k'. ticks m k1 = Some k' \<and> kern_ok k' \<and> xTickCount k' = xTickCount k1 + of_nat m \<and>
        (stateContainer (tcbs k' t) = Some (Ready (uxPriority (tcbs k1 t))) \<longleftrightarrow> j - 1 \<le> m)"
      using Suc.prems False k1(4,6)
      by (intro Suc.IH [OF k1(2,3)]) (auto simp: of_nat_diff)
    then show ?thesis using k1(1,4) \<open>tcbs k1 t = tcbs k t\<close> Suc.prems(6) by (auto simp: add.assoc)
  next
    case True
    have stay: "\<exists>k'. ticks m k1 = Some k' \<and> kern_ok k' \<and> xTickCount k' = xTickCount k1 + of_nat m \<and>
        tcbs k' t = tcbs k1 t"
      if "stateContainer (tcbs k1 t) = Some (Ready p)" "kern_ok k1" "uxSchedulerSuspended k1 = 0" for k1 p
      using that
    proof (induction m arbitrary: k1)
      case (Suc m)
      obtain sw k2 where k2: "xTaskIncrementTick k1 = Some (sw, k2)" "kern_ok k2" "uxSchedulerSuspended k2 = 0"
        "xTickCount k2 = xTickCount k1 + 1" "tcbs k2 t = tcbs k1 t"
        using tick_returns [OF Suc.prems(2,3)] Suc.prems(1) by (auto simp: due_at_def)
      then show ?case using Suc.IH [of k2] Suc.prems(1) by (auto simp: add.assoc)
    qed simp
    have "stateContainer (tcbs k1 t) = Some (Ready (uxPriority (tcbs k t)))"
      using k1(5) due True by (simp add: woken_def)
    then show ?thesis using stay [OF _ k1(2,3)] k1(1,4) True by (fastforce simp: add.assoc)
  qed
qed

section \<open>Selecting the next task\<close>

lemma clz_highest:
  assumes "w \<noteq> 0"
  shows "clz w < 32" "bit w (31 - clz w)" "31 - clz w < i \<Longrightarrow> i < 32 \<Longrightarrow> \<not> bit w i"
proof -
  let ?xs = "rev [0..<32]" and ?P = "\<lambda>i. \<not> bit w i"
  have nth: "?xs ! j = 31 - j" if "j < 32" for j using that by (simp add: rev_nth)
  obtain b where b: "b < 32" "bit w b"
    using assms bit_word_eqI [of w 0] by auto
  have lt: "clz w < 32"
  proof (rule ccontr)
    assume "\<not> ?thesis"
    then have "length (takeWhile ?P ?xs) = length ?xs"
      using length_takeWhile_le [of ?P ?xs] by (simp add: clz_def)
    then have "takeWhile ?P ?xs = ?xs" by (metis takeWhile_eq_take take_all order_refl)
    then have "\<forall>i \<in> set ?xs. ?P i" by (simp add: takeWhile_eq_all_conv)
    then show False using b by auto
  qed
  then show "clz w < 32" .
  show "bit w (31 - clz w)"
    using nth_length_takeWhile [of ?P ?xs] lt nth [of "clz w"] by (simp add: clz_def)
  show "\<not> bit w i" if "31 - clz w < i" "i < 32"
  proof -
    have "31 - i < length (takeWhile ?P ?xs)" using that lt by (simp add: clz_def)
    note nth_mem [OF this] takeWhile_nth [OF this]
    then have "?P (?xs ! (31 - i))" by (metis set_takeWhileD)
    then show ?thesis using nth [of "31 - i"] that by simp
  qed
qed

lemma ring_next_props:
  assumes "distinct r" "End p \<in> set r"
  shows "set (ring_next p r) = set r" "distinct (ring_next p r)"
  using assms by (simp_all add: ring_next_def Let_def distinct1_rotate)

lemma walk_order_items: "set (walk_order p r) = set r - {End p}"
  by (auto simp: walk_order_def)

lemma select_returns:
  assumes ok: "sched_ok k" and ne: "uxTopReadyPriority k \<noteq> 0"
  shows "\<exists>t p k'. taskSELECT_HIGHEST_PRIORITY_TASK k = Some k' \<and> pxCurrentTCB k' = t \<and>
    t \<in> set (members k (Ready p)) \<and> p < 32 \<and> (\<forall>q < 32. p < q \<longrightarrow> members k (Ready q) = []) \<and>
    Item t = hd (walk_order p (pxReadyTasksLists k p)) \<and>
    k' = k\<lparr>pxReadyTasksLists := (pxReadyTasksLists k)(p := ring_next p (pxReadyTasksLists k p)), pxCurrentTCB := t\<rparr>"
proof -
  note S = sched_okD [OF ok]
  define p where "p = 31 - clz (uxTopReadyPriority k)"
  note hi = clz_highest [OF ne, folded p_def]
  have p: "p < 32" by (simp add: p_def)
  have mem: "members k (Ready p) \<noteq> []" "\<forall>q < 32. p < q \<longrightarrow> members k (Ready q) = []"
    using S(2) hi(2,3) p unfolding mask_ok_def by blast+
  let ?r = "pxReadyTasksLists k p"
  have R: "distinct ?r" "End p \<in> set ?r" "\<And>q. End q \<in> set ?r \<Longrightarrow> q = p"
    using core_okD(1) [OF S(1)] by (auto simp: rings_ok_def)
  have "ring_tasks ?r \<noteq> []" using mem(1) by simp
  then obtain t0 where "t0 \<in> set (ring_tasks ?r)" by (cases "ring_tasks ?r") auto
  then have "Item t0 \<in> set (walk_order p ?r)" by (simp add: in_ring_tasks walk_order_items)
  then have w: "walk_order p ?r \<noteq> []" by auto
  obtain x where x: "hd (walk_order p ?r) = x" by simp
  then have "x \<in> set ?r" "x \<noteq> End p"
    using hd_in_set [OF w] by (auto simp: walk_order_items)
  then obtain t where t: "hd (walk_order p ?r) = Item t" "Item t \<in> set ?r"
    using R(3) x by (metis ptr.exhaust)
  have "hd (ring_next p ?r) = Item t" using walk_order_next(1) [OF R(1,2) w] t by simp
  then have "taskSELECT_HIGHEST_PRIORITY_TASK k =
      Some (k\<lparr>pxReadyTasksLists := (pxReadyTasksLists k)(p := ring_next p ?r), pxCurrentTCB := t\<rparr>)"
    using ne by (simp add: taskSELECT_HIGHEST_PRIORITY_TASK_def Let_def p_def [symmetric])
  moreover have "t \<in> set (members k (Ready p))" using t by (simp add: in_ring_tasks)
  ultimately show ?thesis using p mem(2) t(1) by force
qed

lemma sched_rotate:
  assumes ok: "sched_ok k"
  shows "sched_ok (k\<lparr>pxReadyTasksLists := (pxReadyTasksLists k)(p := ring_next p (pxReadyTasksLists k p)), pxCurrentTCB := t\<rparr>)"
    (is "sched_ok ?k")
proof -
  note S = sched_okD [OF ok] note D = core_okD [OF S(1)]
  have R: "set (pxReadyTasksLists ?k q) = set (pxReadyTasksLists k q)" "distinct (pxReadyTasksLists ?k q)" for q
    using D(1) ring_next_props [of "pxReadyTasksLists k q" q] by (auto simp: rings_ok_def)
  have m: "set (members ?k c) = set (members k c)" "distinct (members ?k c)" for c
  proof -
    have "set (members ?k (Ready q)) = set (members k (Ready q))" "distinct (members ?k (Ready q))" for q
      using R [of q] unfolding members.simps by (auto simp: in_ring_tasks intro: distinct_ring_tasks)
    moreover have "members ?k c = members k c" if "\<forall>q. c \<noteq> Ready q" using that by (cases c) auto
    ultimately show "set (members ?k c) = set (members k c)" "distinct (members ?k c)"
      using D(6) by metis+
  qed
  have e: "members ?k c = [] \<longleftrightarrow> members k c = []" for c using m(1) [of c] by (metis set_empty)
  have "event_members ?k b = event_members k b" for b by (cases b) simp_all
  then have "core_ok ?k"
    using D(1,3,4,5) D(7) R m
    by (simp add: core_ok_def containers_ok_def events_ok_def prio_ok_def delay_ok_def rings_ok_def del: members.simps event_members.simps)
  then show ?thesis using S(2,3) e by (simp add: sched_ok_def mask_ok_def attached_ok_def del: members.simps)
qed

section \<open>Every operation keeps the invariant\<close>

lemmas all_ok_defs = kern_ok_def core_ok_def rings_ok_def containers_ok_def events_ok_def
  prio_ok_def mask_ok_def delay_ok_def attached_ok_def current_not_due_def

lemma kern_ok_scalar [simp]:
  "kern_ok (k\<lparr>pendSV := a\<rparr>) = kern_ok k"
  "kern_ok (k\<lparr>xYieldPending := a\<rparr>) = kern_ok k"
  "kern_ok (k\<lparr>uxSchedulerSuspended := n\<rparr>) = kern_ok k"
  "kern_ok (k\<lparr>uxPendedTicks := n\<rparr>) = kern_ok k"
  "kern_ok (k\<lparr>uxCurrentNumberOfTasks := n\<rparr>) = kern_ok k"
  "kern_ok (k\<lparr>uxDeletedTasksWaitingCleanUp := n\<rparr>) = kern_ok k"
  "kern_ok (k\<lparr>pxCurrentTCB := t\<rparr>) = kern_ok k"
  "kern_ok (k\<lparr>xSchedulerRunning := a\<rparr>) = kern_ok k"
  by (simp_all add: all_ok_defs del: members.simps event_members.simps)

lemma kern_portYIELD [simp]: "kern_ok (portYIELD k) = kern_ok k"
  by (simp add: portYIELD_def)

lemma kern_switch_context:
  assumes "kern_ok k" and "vTaskSwitchContext k = Some k'"
  shows "kern_ok k'"
proof (cases "uxSchedulerSuspended k = 0")
  case True
  let ?k = "k\<lparr>xYieldPending := False\<rparr>"
  have s: "taskSELECT_HIGHEST_PRIORITY_TASK ?k = Some k'"
    using True assms(2) by (simp add: vTaskSwitchContext_def)
  then have "uxTopReadyPriority ?k \<noteq> 0"
    by (auto simp: taskSELECT_HIGHEST_PRIORITY_TASK_def split: if_splits)
  moreover have ok: "kern_ok ?k" using assms(1) by simp
  ultimately obtain t p where k': "k' = ?k\<lparr>pxReadyTasksLists := (pxReadyTasksLists ?k)
      (p := ring_next p (pxReadyTasksLists ?k p)), pxCurrentTCB := t\<rparr>"
    using select_returns [of ?k] s by (auto simp: kern_ok_sched)
  have "sched_ok k'" unfolding k' using ok by (intro sched_rotate) (simp add: kern_ok_sched)
  moreover have "current_not_due k'" using ok by (simp add: k' kern_ok_def current_not_due_def)
  ultimately show ?thesis by (simp add: kern_ok_sched)
qed (use assms in \<open>auto simp: vTaskSwitchContext_def\<close>)

lemma kern_PendSV: "kern_ok k \<Longrightarrow> PendSV k = Some k' \<Longrightarrow> kern_ok k'"
  by (auto simp: PendSV_def split: if_splits intro: kern_switch_context [of "k\<lparr>pendSV := False\<rparr>"])

lemma kern_upd_tcb:
  assumes "stateContainer (f (tcbs k t)) = stateContainer (tcbs k t)"
    and "eventContainer (f (tcbs k t)) = eventContainer (tcbs k t)"
    and "stateValue (f (tcbs k t)) = stateValue (tcbs k t)"
    and "uxPriority (f (tcbs k t)) = uxPriority (tcbs k t) \<or>
      uxPriority (f (tcbs k t)) < 32 \<and> (\<forall>p. stateContainer (tcbs k t) \<noteq> Some (Ready p))"
    and "uxBasePriority (f (tcbs k t)) = uxBasePriority (tcbs k t) \<or> uxBasePriority (f (tcbs k t)) < 32"
    and "ucNotifyState (f (tcbs k t)) = ucNotifyState (tcbs k t) \<or>
      ucNotifyState (f (tcbs k t)) \<noteq> taskWAITING_NOTIFICATION \<or> eventContainer (tcbs k t) = None"
    and "kern_ok k"
  shows "kern_ok (upd_tcb t f k)"
proof -
  have "core_ok (upd_tcb t f k)" using assms by (intro core_upd_tcb) (auto simp: kern_ok_def)
  moreover have "attached_ok {} (upd_tcb t f k)"
    using assms(1,2,6,7) by (auto simp: kern_ok_def attached_ok_def)
  moreover have "current_not_due (upd_tcb t f k)"
    using assms(3,7) by (auto simp: kern_ok_def current_not_due_def)
  ultimately show ?thesis using assms(7) by (simp add: kern_ok_def)
qed

lemma kern_next_time:
  "kern_ok k \<Longrightarrow> (\<And>t. t \<in> set (xDelayedTaskLists k (pxDelayedTaskList k)) \<Longrightarrow> w \<le> stateValue (tcbs k t)) \<Longrightarrow>
   kern_ok (k\<lparr>xNextTaskUnblockTime := w\<rparr>)"
  by (auto simp: kern_ok_sched sched_next_time current_not_due_def)

lemma kern_reset_time: "kern_ok k \<Longrightarrow> kern_ok (prvResetNextTaskUnblockTime k)"
proof -
  assume ok: "kern_ok k"
  have s: "sorted (map (\<lambda>t. stateValue (tcbs k t)) (xDelayedTaskLists k (pxDelayedTaskList k)))"
    using ok by (simp add: kern_ok_def core_ok_def delay_ok_def)
  show ?thesis
    using s kern_next_time [OF ok]
    by (cases "xDelayedTaskLists k (pxDelayedTaskList k)") (auto simp: prvResetNextTaskUnblockTime_def)
qed

lemma reset_time_sel [simp]:
  "tcbs (prvResetNextTaskUnblockTime k) = tcbs k"
  "pxCurrentTCB (prvResetNextTaskUnblockTime k) = pxCurrentTCB k"
  by (simp_all add: prvResetNextTaskUnblockTime_def split: list.split)

lemma kern_remove_event: "kern_ok k \<Longrightarrow> kern_ok (remove_event_item t k)"
  by (simp add: kern_ok_sched sched_remove_event current_not_due_def)

lemma kern_pending:
  "kern_ok k \<Longrightarrow> eventContainer (tcbs k t) = None \<Longrightarrow> stateContainer (tcbs k t) \<noteq> None \<Longrightarrow>
   ucNotifyState (tcbs k t) \<noteq> taskWAITING_NOTIFICATION \<Longrightarrow> kern_ok (pending_insert_end t k)"
  by (simp add: kern_ok_def core_pending mask_ok_def del: members.simps)
    (simp add: attached_ok_def current_not_due_def)

lemma kern_event_insert:
  "kern_ok k \<Longrightarrow> eventContainer (tcbs k t) = None \<Longrightarrow> stateContainer (tcbs k t) \<noteq> None \<Longrightarrow>
   ucNotifyState (tcbs k t) \<noteq> taskWAITING_NOTIFICATION \<Longrightarrow> kern_ok (event_insert e t k)"
  by (simp add: kern_ok_def core_event_insert mask_ok_def del: members.simps)
    (simp add: attached_ok_def current_not_due_def)

lemma kern_attached:
  "kern_ok k \<Longrightarrow> eventContainer (tcbs k t) \<noteq> None \<Longrightarrow> stateContainer (tcbs k t) \<noteq> None"
  "kern_ok k \<Longrightarrow> ucNotifyState (tcbs k t) = taskWAITING_NOTIFICATION \<Longrightarrow> eventContainer (tcbs k t) = None"
  by (auto simp: kern_ok_def attached_ok_def)

text \<open>Notifications.\<close>

definition exists_task :: "nat \<Rightarrow> kern \<Rightarrow> bool" where
  "exists_task t k \<longleftrightarrow> stateContainer (tcbs k t) \<noteq> None"

text \<open>The tasks that are in some list.\<close>

definition tasks :: "kern \<Rightarrow> nat set" where
  "tasks k = {t. exists_task t k}"

lemma tasks_cong:
  "(\<And>u. stateContainer (tcbs k' u) = None \<longleftrightarrow> stateContainer (tcbs k u) = None) \<Longrightarrow> tasks k' = tasks k"
  by (simp add: tasks_def exists_task_def)

lemma kern_notify_state:
  "kern_ok k \<Longrightarrow> (st = taskWAITING_NOTIFICATION \<Longrightarrow> eventContainer (tcbs k t) = None) \<Longrightarrow>
   kern_ok (upd_tcb t (\<lambda>b. b\<lparr>ucNotifyState := st, ulNotifiedValue := g b\<rparr>) k)"
  by (rule kern_upd_tcb) auto

lemma kern_GenericNotify:
  assumes ok: "kern_ok k" and t: "exists_task t k"
  shows "kern_ok (snd (xTaskGenericNotify t v a k))"
proof -
  let ?k = "\<lambda>w. upd_tcb t (\<lambda>b. b\<lparr>ucNotifyState := taskNOTIFICATION_RECEIVED, ulNotifiedValue := w\<rparr>) k"
  have k1: "kern_ok (?k w)" for w by (rule kern_notify_state) (use ok in auto)
  then have "kern_ok (wake t (?k w))" for w
    using t by (intro kern_wake) (auto simp: exists_task_def)
  with k1 show ?thesis
    by (auto simp: xTaskGenericNotify_def Let_def case_prod_beta)
qed

lemma kern_unblock_from_isr:
  assumes "kern_ok k" and "exists_task t k" and "eventContainer (tcbs k t) = None"
    and "ucNotifyState (tcbs k t) \<noteq> taskWAITING_NOTIFICATION"
  shows "kern_ok (snd (notify_unblock_from_isr t w k))"
  using assms kern_wake [OF assms(1)] kern_pending [OF assms(1,3)]
  by (auto simp: notify_unblock_from_isr_def exists_task_def Let_def split: option.split)

lemma kern_GenericNotifyFromISR:
  assumes ok: "kern_ok k" and t: "exists_task t k"
  shows "kern_ok (snd (snd (xTaskGenericNotifyFromISR t v a w k)))"
proof -
  let ?k = "\<lambda>w. upd_tcb t (\<lambda>b. b\<lparr>ucNotifyState := taskNOTIFICATION_RECEIVED, ulNotifiedValue := w\<rparr>) k"
  have k1: "kern_ok (?k u)" for u by (rule kern_notify_state) (use ok in auto)
  then have "kern_ok (snd (notify_unblock_from_isr t w (?k u)))"
    if "ucNotifyState (tcbs k t) = taskWAITING_NOTIFICATION" for u
    using t kern_attached(2) [OF ok that] by (intro kern_unblock_from_isr) (auto simp: exists_task_def)
  with k1 show ?thesis by (simp add: xTaskGenericNotifyFromISR_def Let_def case_prod_beta)
qed

lemma kern_NotifyGiveFromISR:
  assumes ok: "kern_ok k" and t: "exists_task t k"
  shows "kern_ok (snd (vTaskNotifyGiveFromISR t w k))"
proof -
  let ?k = "upd_tcb t (\<lambda>b. b\<lparr>ucNotifyState := taskNOTIFICATION_RECEIVED,
               ulNotifiedValue := ulNotifiedValue b + 1\<rparr>) k"
  have k1: "kern_ok ?k" by (rule kern_notify_state) (use ok in auto)
  then have "kern_ok (snd (notify_unblock_from_isr t w ?k))"
    if "ucNotifyState (tcbs k t) = taskWAITING_NOTIFICATION"
    using t kern_attached(2) [OF ok that] by (intro kern_unblock_from_isr) (auto simp: exists_task_def)
  with k1 show ?thesis by (simp add: vTaskNotifyGiveFromISR_def Let_def)
qed

definition running :: "kern \<Rightarrow> bool" where
  "running k \<longleftrightarrow> (\<exists>p. stateContainer (tcbs k (pxCurrentTCB k)) = Some (Ready p)) \<and>
     eventContainer (tcbs k (pxCurrentTCB k)) = None"

lemma kern_block_running: "kern_ok k \<Longrightarrow> running k \<Longrightarrow> 0 < n \<Longrightarrow> kern_ok (prvAddCurrentTaskToDelayedList n b k)"
  by (auto simp: running_def intro: kern_block(1))

lemma kern_NotifyTake_enter:
  assumes "kern_ok k" and "running k"
  shows "kern_ok (ulTaskNotifyTake_enter n k)"
proof -
  let ?k = "upd_tcb (pxCurrentTCB k) (ucNotifyState_update (\<lambda>_. taskWAITING_NOTIFICATION)) k"
  have "kern_ok ?k" by (rule kern_upd_tcb) (use assms in \<open>auto simp: running_def\<close>)
  moreover have "running ?k" using assms(2) by (simp add: running_def)
  ultimately show ?thesis
    using assms(1) by (auto simp: ulTaskNotifyTake_enter_def Let_def intro: kern_block_running)
qed

lemma kern_NotifyTake_exit: "kern_ok k \<Longrightarrow> kern_ok (snd (ulTaskNotifyTake_exit c k))"
proof -
  assume ok: "kern_ok k"
  have 1: "kern_ok k' \<Longrightarrow> kern_ok (upd_tcb t (ucNotifyState_update (\<lambda>_. taskNOT_WAITING_NOTIFICATION)) k')" for t k'
    by (rule kern_upd_tcb) auto
  have "kern_ok (upd_tcb t (ulNotifiedValue_update (\<lambda>_. v)) k)" for t v
    by (rule kern_upd_tcb) (use ok in auto)
  with ok show ?thesis unfolding ulTaskNotifyTake_exit_def Let_def by (auto intro!: 1)
qed

lemma kern_NotifyWait_enter:
  assumes "kern_ok k" and "running k"
  shows "kern_ok (xTaskNotifyWait_enter m n k)"
proof -
  let ?k = "upd_tcb (pxCurrentTCB k) (\<lambda>b. b\<lparr>ulNotifiedValue := ulNotifiedValue b AND NOT m,
     ucNotifyState := taskWAITING_NOTIFICATION\<rparr>) k"
  have "kern_ok ?k" by (rule kern_upd_tcb) (use assms in \<open>auto simp: running_def\<close>)
  moreover have "running ?k" using assms(2) by (simp add: running_def)
  ultimately show ?thesis
    using assms(1) by (auto simp: xTaskNotifyWait_enter_def Let_def intro: kern_block_running)
qed

lemma kern_NotifyWait_exit: "kern_ok k \<Longrightarrow> kern_ok (snd (xTaskNotifyWait_exit m k))"
proof -
  assume ok: "kern_ok k"
  have 1: "kern_ok k' \<Longrightarrow> kern_ok (upd_tcb t (ucNotifyState_update (\<lambda>_. taskNOT_WAITING_NOTIFICATION)) k')" for t k'
    by (rule kern_upd_tcb) auto
  have "kern_ok (upd_tcb t (ulNotifiedValue_update f) k)" for t f
    by (rule kern_upd_tcb) (use ok in auto)
  with ok show ?thesis unfolding xTaskNotifyWait_exit_def Let_def by (auto intro!: 1)
qed

lemma kern_NotifyStateClear: "kern_ok k \<Longrightarrow> kern_ok (snd (xTaskNotifyStateClear h k))"
  unfolding xTaskNotifyStateClear_def Let_def by (auto intro!: kern_upd_tcb)

text \<open>Taking a task out of its state list, the ready mask kept exact.\<close>

definition detach :: "nat \<Rightarrow> kern \<Rightarrow> kern" where
  "detach t k = (case remove_state_item t k of (n, k') \<Rightarrow>
     if n = 0 then taskRESET_READY_PRIORITY (uxPriority (tcbs k' t)) k' else k')"

lemma detach_sel:
  assumes "core_ok k"
  shows "tcbs (detach t k) u = (if u = t then (tcbs k t)\<lparr>stateContainer := None\<rparr> else tcbs k u)"
    "pxCurrentTCB (detach t k) = pxCurrentTCB k" "xTickCount (detach t k) = xTickCount k"
    "event_members (detach t k) e = event_members k e"
    "pxDelayedTaskList (detach t k) = pxDelayedTaskList k"
    "xDelayedTaskLists (detach t k) d = remove1 t (xDelayedTaskLists k d)"
  using delayed_remove [OF core_okD(2) [OF assms]] by (simp_all add: detach_def case_prod_beta)

lemma detach_ok:
  assumes "kern_ok k"
  shows "core_ok (detach t k)" "mask_ok {} (detach t k)" "attached_ok {t} (detach t k)"
    "current_not_due (detach t k)"
proof -
  have c: "core_ok k" "mask_ok {} k" using assms by (auto simp: kern_ok_def)
  show "core_ok (detach t k)" using core_remove [OF c(1)] by (simp add: detach_def case_prod_beta)
  show "mask_ok {} (detach t k)" unfolding detach_def by (rule mask_remove_taskRESET [OF c])
  show "attached_ok {t} (detach t k)"
    using assms by (auto simp: kern_ok_def attached_ok_def detach_sel [OF c(1)])
  show "current_not_due (detach t k)"
    using assms set_remove1_subset [of t]
    by (fastforce simp: kern_ok_def current_not_due_def detach_sel [OF c(1)])
qed

text \<open>Putting the task in hand back, into the list of suspended or deleted tasks or a ready list.\<close>

lemma kern_put_back:
  assumes "core_ok k" "mask_ok {} k" "attached_ok {t} k" "current_not_due k"
    and "stateContainer (tcbs k t) = None" "uxPriority (tcbs k t) < 32" "uxBasePriority (tcbs k t) < 32"
    and "ucNotifyState (tcbs k t) = taskWAITING_NOTIFICATION \<longrightarrow> eventContainer (tcbs k t) = None"
  shows "kern_ok (suspended_insert_end t k)" "kern_ok (termination_insert_end t k)"
    "kern_ok (prvAddTaskToReadyList t k)"
proof -
  have "core_ok (suspended_insert_end t k)" "core_ok (termination_insert_end t k)"
    "core_ok (prvAddTaskToReadyList t k)"
    using assms by (auto intro: core_suspended core_termination core_add_ready)
  moreover have "mask_ok {} (suspended_insert_end t k)" "mask_ok {} (termination_insert_end t k)"
    "mask_ok {} (prvAddTaskToReadyList t k)"
    using assms(2) mask_add_ready [OF assms(2), of t] by (simp_all add: mask_ok_def del: members.simps)
  moreover have "attached_ok {} (suspended_insert_end t k)" "attached_ok {} (termination_insert_end t k)"
    "attached_ok {} (prvAddTaskToReadyList t k)"
    using assms(3,8) by (auto simp: attached_ok_def)
  moreover have "current_not_due (suspended_insert_end t k)" "current_not_due (termination_insert_end t k)"
    "current_not_due (prvAddTaskToReadyList t k)"
    using assms(4) by (auto simp: current_not_due_def)
  ultimately show "kern_ok (suspended_insert_end t k)" "kern_ok (termination_insert_end t k)"
    "kern_ok (prvAddTaskToReadyList t k)" by (simp_all add: kern_ok_def)
qed

lemma detached_event:
  assumes ok: "kern_ok k" and t: "exists_task t k"
  defines "d \<equiv> remove_event_item t (detach t k)"
  shows "core_ok d" "mask_ok {} d" "attached_ok {t} d" "current_not_due d"
    "stateContainer (tcbs d t) = None" "uxPriority (tcbs d t) < 32" "uxBasePriority (tcbs d t) < 32"
    "ucNotifyState (tcbs d t) = taskWAITING_NOTIFICATION \<longrightarrow> eventContainer (tcbs d t) = None"
proof -
  have c: "core_ok k" using ok by (simp add: kern_ok_def)
  obtain b where b: "stateContainer (tcbs k t) = Some b" using t by (auto simp: exists_task_def)
  note D = detach_ok [OF ok, of t]
  show "core_ok d" unfolding d_def by (rule core_remove_event [OF D(1)])
  show "mask_ok {} d" "attached_ok {t} d" "current_not_due d"
    using D(2,3,4) by (simp_all add: d_def mask_ok_def attached_ok_def current_not_due_def del: members.simps)
  show "stateContainer (tcbs d t) = None" "uxPriority (tcbs d t) < 32" "uxBasePriority (tcbs d t) < 32"
    "ucNotifyState (tcbs d t) = taskWAITING_NOTIFICATION \<longrightarrow> eventContainer (tcbs d t) = None"
    using core_okD(10,11) [OF c b] by (simp_all add: d_def detach_sel [OF c])
qed

lemma kern_Suspend:
  assumes ok: "kern_ok k" and t: "exists_task (prvGetTCBFromHandle h k) k"
    and s: "vTaskSuspend h k = Some k'"
  shows "kern_ok k'"
proof -
  let ?t = "prvGetTCBFromHandle h k"
  define d where "d = suspended_insert_end ?t (remove_event_item ?t (detach ?t k))"
  define e where "e = (if xSchedulerRunning d then prvResetNextTaskUnblockTime d else d)"
  have "kern_ok d" unfolding d_def using kern_put_back(1) [OF detached_event [OF ok t]] .
  then have e: "kern_ok e" using kern_reset_time by (simp add: e_def)
  have "vTaskSuspend h k =
    (if ?t = pxCurrentTCB e then
       (if xSchedulerRunning e then Some (portYIELD e)
        else if of_nat (length (xSuspendedTaskList e)) = uxCurrentNumberOfTasks e
        then Some (e\<lparr>pxCurrentTCB := 0\<rparr>) else vTaskSwitchContext e)
     else Some e)"
    unfolding vTaskSuspend_def Let_def e_def d_def detach_def case_prod_beta by (rule refl)
  then show ?thesis using s e by (auto split: if_splits intro: kern_switch_context)
qed

lemma kern_Delete:
  assumes ok: "kern_ok k" and t: "exists_task (prvGetTCBFromHandle h k) k"
  shows "kern_ok (vTaskDelete h k)"
proof -
  let ?t = "prvGetTCBFromHandle h k"
  define d where "d = remove_event_item ?t (detach ?t k)"
  have d: "kern_ok (termination_insert_end ?t d)"
    unfolding d_def using kern_put_back(2) [OF detached_event [OF ok t]] .
  have gone: "kern_ok d"
  proof -
    have "eventContainer (tcbs d ?t) = None" by (simp add: d_def)
    moreover have "attached_ok {?t} d" using detached_event(3) [OF ok t] by (simp add: d_def)
    ultimately have "attached_ok {} d"
      unfolding attached_ok_def by (metis empty_iff insert_iff)
    then show ?thesis
      using detached_event(1,2,4) [OF ok t] unfolding d_def [symmetric] by (simp add: kern_ok_def)
  qed
  have "vTaskDelete h k =
    (let k = (if ?t = pxCurrentTCB d then (termination_insert_end ?t d)
                \<lparr>uxDeletedTasksWaitingCleanUp := uxDeletedTasksWaitingCleanUp d + 1\<rparr>
              else prvResetNextTaskUnblockTime
                (d\<lparr>uxCurrentNumberOfTasks := uxCurrentNumberOfTasks d - 1\<rparr>))
     in if xSchedulerRunning k \<and> ?t = pxCurrentTCB k then portYIELD k else k)"
    unfolding vTaskDelete_def d_def detach_def case_prod_beta Let_def by simp
  then show ?thesis
    using d gone by (cases "?t = pxCurrentTCB d") (simp_all add: Let_def kern_reset_time)
qed

lemma kern_Resume: "kern_ok k \<Longrightarrow> kern_ok (vTaskResume t k)"
  using kern_wake [of k t]
  by (auto simp: vTaskResume_def Let_def prvTaskIsTaskSuspended_def)

lemma kern_ResumeFromISR:
  "kern_ok k \<Longrightarrow> ucNotifyState (tcbs k t) \<noteq> taskWAITING_NOTIFICATION \<Longrightarrow> kern_ok (snd (xTaskResumeFromISR t k))"
  using kern_wake [of k t] kern_pending [of k t]
  by (auto simp: xTaskResumeFromISR_def prvTaskIsTaskSuspended_def)

lemma kern_PlaceOnEventList:
  assumes "kern_ok k" and "running k" and "0 < n"
    and "ucNotifyState (tcbs k (pxCurrentTCB k)) \<noteq> taskWAITING_NOTIFICATION"
  shows "kern_ok (vTaskPlaceOnEventList e n k)"
proof -
  let ?k = "event_insert e (pxCurrentTCB k) k"
  have "kern_ok ?k" using assms by (intro kern_event_insert) (auto simp: running_def)
  moreover obtain p where "stateContainer (tcbs ?k (pxCurrentTCB ?k)) = Some (Ready p)"
    using assms(2) by (auto simp: running_def)
  ultimately show ?thesis using assms(3) unfolding vTaskPlaceOnEventList_def by (intro kern_block(1))
qed

lemma kern_RemoveFromEventList:
  assumes ok: "kern_ok k" and r: "xTaskRemoveFromEventList e k = Some (y, k')"
  shows "kern_ok k'"
proof -
  obtain t ts where ev: "eventLists k e = t # ts"
    using r by (auto simp: xTaskRemoveFromEventList_def split: list.splits)
  have "core_ok k" using ok by (simp add: kern_ok_def)
  from core_okD(9) [OF this, of t "EventList e"] ev
  have c: "eventContainer (tcbs k t) = Some (EventList e)" by simp
  let ?k = "remove_event_item t k"
  have ok1: "kern_ok ?k" by (rule kern_remove_event [OF ok])
  have st: "stateContainer (tcbs ?k t) \<noteq> None" "ucNotifyState (tcbs ?k t) \<noteq> taskWAITING_NOTIFICATION"
    "eventContainer (tcbs ?k t) = None"
    using kern_attached [OF ok, of t] c by auto
  have "kern_ok (wake t ?k)" "kern_ok (pending_insert_end t ?k)"
    using kern_wake [OF ok1 st(1)] kern_pending [OF ok1 st(3,1,2)] by simp_all
  then show ?thesis
    using r ev by (auto simp: xTaskRemoveFromEventList_def Let_def split: if_splits)
qed

text \<open>Priorities: a change of the block of a ready task commutes with taking it out of its list.\<close>

lemma remove_state_upd_tcb:
  assumes "\<And>b. f (b\<lparr>stateContainer := None\<rparr>) = (f b)\<lparr>stateContainer := None\<rparr>"
    and "stateContainer (f (tcbs k t)) = stateContainer (tcbs k t)"
  shows "snd (remove_state_item t (upd_tcb t f k)) = upd_tcb t f (snd (remove_state_item t k))"
    "fst (remove_state_item t (upd_tcb t f k)) = fst (remove_state_item t k)"
proof -
  have d: "drop_member t c (upd_tcb t f k) = upd_tcb t f (drop_member t c k)" for c
    by (cases c) (simp_all add: upd_tcb_def)
  have u: "upd_tcb t (stateContainer_update (\<lambda>_. None)) (upd_tcb t f k') =
      upd_tcb t f (upd_tcb t (stateContainer_update (\<lambda>_. None)) k')" for k'
    using assms(1) by (simp add: upd_tcb_def)
  show "snd (remove_state_item t (upd_tcb t f k)) = upd_tcb t f (snd (remove_state_item t k))"
    "fst (remove_state_item t (upd_tcb t f k)) = fst (remove_state_item t k)"
    using assms(2) by (auto simp: remove_state_item_def Let_def d u split: option.splits)
qed

lemma upd_tcb_resets:
  "portRESET_READY_PRIORITY p (upd_tcb t f k) = upd_tcb t f (portRESET_READY_PRIORITY p k)"
  by (simp add: portRESET_READY_PRIORITY_def upd_tcb_def)

definition prio_change :: "(tcb \<Rightarrow> tcb) \<Rightarrow> bool" where
  "prio_change f \<longleftrightarrow> (\<forall>b. \<exists>p q v. p < 32 \<and> q < 32 \<and> f b = b\<lparr>uxPriority := p, uxBasePriority := q, eventValue := v\<rparr>)"

lemma kern_reprioritise:
  assumes ok: "kern_ok k" and c: "stateContainer (tcbs k t) = Some (Ready used)"
    and f: "\<And>b. f (b\<lparr>stateContainer := None\<rparr>) = (f b)\<lparr>stateContainer := None\<rparr>"
    and g: "f (tcbs k t) = (tcbs k t)\<lparr>uxPriority := p, uxBasePriority := q, eventValue := v\<rparr>"
    and pq: "p < 32" "q < 32"
  shows "kern_ok (case remove_state_item t (upd_tcb t f k) of (n, k') \<Rightarrow>
     prvAddTaskToReadyList t (if n = 0 then portRESET_READY_PRIORITY used k' else k'))"
proof -
  have cc: "core_ok k" "mask_ok {} k" using ok by (auto simp: kern_ok_def)
  have used: "uxPriority (tcbs k t) = used" by (rule core_okD(12) [OF cc(1) c])
  have fst0: "fst (remove_state_item t k) = 0 \<longleftrightarrow> members (snd (remove_state_item t k)) (Ready used) = []"
    by (rule members_remove_empty [OF cc(1) c])
  have e: "(if fst (remove_state_item t k) = 0
      then portRESET_READY_PRIORITY used (snd (remove_state_item t k)) else snd (remove_state_item t k)) = detach t k"
    using fst0 used by (simp add: detach_def case_prod_beta taskRESET_READY_PRIORITY_def)
  have r: "remove_state_item t (upd_tcb t f k) = (fst (remove_state_item t k), upd_tcb t f (snd (remove_state_item t k)))"
    using remove_state_upd_tcb [of f k t, OF f] g by (simp add: prod_eq_iff)
  have "(case remove_state_item t (upd_tcb t f k) of (n, k') \<Rightarrow>
      prvAddTaskToReadyList t (if n = 0 then portRESET_READY_PRIORITY used k' else k')) =
      prvAddTaskToReadyList t (upd_tcb t f (detach t k))"
    unfolding r by (simp add: upd_tcb_resets e [symmetric])
  moreover have "kern_ok (prvAddTaskToReadyList t (upd_tcb t f (detach t k)))"
  proof (rule kern_put_back(3))
    note D = detach_ok [OF ok, of t]
    have fb: "f (tcbs (detach t k) t) = (tcbs k t)\<lparr>stateContainer := None, uxPriority := p, uxBasePriority := q, eventValue := v\<rparr>"
      by (simp add: detach_sel [OF cc(1)] f g)
    show "core_ok (upd_tcb t f (detach t k))"
      by (rule core_upd_tcb) (use D(1) fb pq in \<open>simp_all add: detach_sel [OF cc(1)]\<close>)
    show "mask_ok {} (upd_tcb t f (detach t k))" using D(2) by simp
    show "attached_ok {t} (upd_tcb t f (detach t k))" using D(3) by (auto simp: attached_ok_def)
    show "current_not_due (upd_tcb t f (detach t k))"
      using D(4) fb by (auto simp: current_not_due_def detach_sel [OF cc(1)])
    show "ucNotifyState (tcbs (upd_tcb t f (detach t k)) t) = taskWAITING_NOTIFICATION \<longrightarrow>
        eventContainer (tcbs (upd_tcb t f (detach t k)) t) = None"
      using fb kern_attached(2) [OF ok, of t] by simp
  qed (use detach_sel [OF cc(1)] f g pq in simp_all)
  ultimately show ?thesis by simp
qed

definition set_prios :: "nat \<Rightarrow> nat \<Rightarrow> tcb \<Rightarrow> tcb" where
  "set_prios p q b = b\<lparr>uxPriority := p, uxBasePriority := q,
     eventValue := (if eventValue b AND taskEVENT_LIST_ITEM_VALUE_IN_USE = 0
        then of_nat (configMAX_PRIORITIES - q) else eventValue b)\<rparr>"

lemma kern_PrioritySet:
  assumes ok: "kern_ok k" and t: "exists_task (prvGetTCBFromHandle h k) k"
  shows "kern_ok (vTaskPrioritySet h n k)"
proof -
  let ?t = "prvGetTCBFromHandle h k"
  let ?b = "tcbs k ?t"
  define new where "new = (if configMAX_PRIORITIES \<le> n then configMAX_PRIORITIES - 1 else n)"
  define p where "p = (if uxBasePriority ?b = uxPriority ?b then new else uxPriority ?b)"
  obtain c where c: "stateContainer ?b = Some c" using t by (auto simp: exists_task_def)
  have cc: "core_ok k" using ok by (simp add: kern_ok_def)
  have lt: "new < 32" "p < 32"
    using core_okD(10) [OF cc c] by (auto simp: configMAX_PRIORITIES_def new_def p_def)
  have u: "set_event_value ?t new (upd_tcb ?t (uxBasePriority_update (\<lambda>_. new))
      (if uxBasePriority ?b = uxPriority ?b then upd_tcb ?t (uxPriority_update (\<lambda>_. new)) k else k)) =
      upd_tcb ?t (set_prios p new) k"
    by (simp add: set_event_value_def upd_tcb_def set_prios_def p_def)
  define k1 where "k1 = (if stateContainer ?b = Some (Ready (uxPriority ?b))
      then (case remove_state_item ?t (upd_tcb ?t (set_prios p new) k) of (m, k') \<Rightarrow>
        prvAddTaskToReadyList ?t (if m = 0 then portRESET_READY_PRIORITY (uxPriority ?b) k' else k'))
      else upd_tcb ?t (set_prios p new) k)"
  have "kern_ok k1"
  proof (cases "stateContainer ?b = Some (Ready (uxPriority ?b))")
    case True
    show ?thesis
      unfolding k1_def if_P [OF True]
      by (rule kern_reprioritise [OF ok True, where p = p and q = new and v = "eventValue (set_prios p new ?b)"])
        (use lt in \<open>simp_all add: set_prios_def\<close>)
  next
    case False
    have "\<forall>p. stateContainer ?b \<noteq> Some (Ready p)" using False core_okD(12) [OF cc] by metis
    then have "kern_ok (upd_tcb ?t (set_prios p new) k)"
      using lt ok by (intro kern_upd_tcb) (simp_all add: set_prios_def)
    then show ?thesis using False by (simp add: k1_def)
  qed
  moreover have "vTaskPrioritySet h n k = k \<or> vTaskPrioritySet h n k = k1 \<or> vTaskPrioritySet h n k = portYIELD k1"
    unfolding vTaskPrioritySet_def Let_def new_def [symmetric] u k1_def
    by (simp add: case_prod_beta set_prios_def)
  ultimately show ?thesis using ok by auto
qed

text \<open>Mutexes: inheritance raises the holder to the caller's priority, disinheritance restores it.\<close>

lemma kern_PriorityInherit:
  assumes ok: "kern_ok k" and t: "exists_task t k" and cur: "exists_task (pxCurrentTCB k) k"
  shows "kern_ok (vTaskPriorityInherit t k)"
proof (cases "t \<noteq> 0 \<and> uxPriority (tcbs k t) < uxPriority (tcbs k (pxCurrentTCB k))")
  case True
  define cp where "cp = uxPriority (tcbs k (pxCurrentTCB k))"
  have cc: "core_ok k" using ok by (simp add: kern_ok_def)
  have lt: "cp < 32" using core_okD(10) [OF cc] cur by (auto simp: cp_def exists_task_def)
  define k1 where "k1 = set_event_value t cp k"
  have ok1: "kern_ok k1" unfolding k1_def set_event_value_def using ok by (auto intro!: kern_upd_tcb)
  have cc1: "core_ok k1" using ok1 by (simp add: kern_ok_def)
  have t1: "exists_task t k1" using t by (simp add: k1_def set_event_value_def exists_task_def)
  have b: "uxBasePriority (tcbs k1 t) < 32" using core_okD(11) [OF cc1] t1 by (auto simp: exists_task_def)
  have r: "vTaskPriorityInherit t k =
    (if stateContainer (tcbs k1 t) = Some (Ready (uxPriority (tcbs k1 t)))
     then prvAddTaskToReadyList t (upd_tcb t (uxPriority_update (\<lambda>_. cp)) (detach t k1))
     else upd_tcb t (uxPriority_update (\<lambda>_. cp)) k1)"
    using True by (simp add: vTaskPriorityInherit_def Let_def cp_def [symmetric] k1_def [symmetric]
        detach_def case_prod_beta)
  show ?thesis
  proof (cases "stateContainer (tcbs k1 t) = Some (Ready (uxPriority (tcbs k1 t)))")
    case True
    note D = detach_ok [OF ok1, of t]
    have "kern_ok (prvAddTaskToReadyList t (upd_tcb t (uxPriority_update (\<lambda>_. cp)) (detach t k1)))"
    proof (rule kern_put_back(3))
      show "core_ok (upd_tcb t (uxPriority_update (\<lambda>_. cp)) (detach t k1))"
        by (rule core_upd_tcb) (use D(1) lt in \<open>simp_all add: detach_sel [OF cc1]\<close>)
      show "attached_ok {t} (upd_tcb t (uxPriority_update (\<lambda>_. cp)) (detach t k1))"
        using D(3) by (auto simp: attached_ok_def)
      show "current_not_due (upd_tcb t (uxPriority_update (\<lambda>_. cp)) (detach t k1))"
        using D(4) by (auto simp: current_not_due_def)
    qed (use D(2) lt b detach_sel [OF cc1] kern_attached(2) [OF ok1, of t] in simp_all)
    then show ?thesis using r True by simp
  next
    case False
    have "\<forall>p. stateContainer (tcbs k1 t) \<noteq> Some (Ready p)" using False core_okD(12) [OF cc1] by metis
    then have "kern_ok (upd_tcb t (uxPriority_update (\<lambda>_. cp)) k1)"
      using lt ok1 by (intro kern_upd_tcb) simp_all
    then show ?thesis using r False by simp
  qed
qed (use ok in \<open>auto simp: vTaskPriorityInherit_def Let_def\<close>)

lemma kern_PriorityDisinherit:
  assumes ok: "kern_ok k" and t: "exists_task t k"
  shows "kern_ok (snd (xTaskPriorityDisinherit t k))"
proof -
  define k1 where "k1 = upd_tcb t (uxMutexesHeld_update (\<lambda>n. n - 1)) k"
  have ok1: "kern_ok k1" unfolding k1_def by (rule kern_upd_tcb) (use ok in simp_all)
  have cc1: "core_ok k1" using ok1 by (simp add: kern_ok_def)
  obtain c where "stateContainer (tcbs k1 t) = Some c" using t by (auto simp: exists_task_def k1_def)
  then have b: "uxBasePriority (tcbs k1 t) < 32" by (rule core_okD(11) [OF cc1])
  define f where "f = (\<lambda>b :: tcb. b\<lparr>uxPriority := uxBasePriority b,
     eventValue := of_nat (configMAX_PRIORITIES - uxBasePriority b)\<rparr>)"
  have u: "upd_tcb t (\<lambda>b. b\<lparr>eventValue := of_nat (configMAX_PRIORITIES - uxPriority b)\<rparr>)
      (upd_tcb t (\<lambda>b. b\<lparr>uxPriority := uxBasePriority b\<rparr>) k') = upd_tcb t f k'" for k'
    by (simp add: upd_tcb_def f_def)
  have r: "snd (xTaskPriorityDisinherit t k) =
    (if t = 0 then k
     else if uxPriority (tcbs k1 t) \<noteq> uxBasePriority (tcbs k1 t) \<and> uxMutexesHeld (tcbs k1 t) = 0
     then prvAddTaskToReadyList t (upd_tcb t f (detach t k1)) else k1)"
    unfolding xTaskPriorityDisinherit_def Let_def k1_def [symmetric] u [symmetric]
    by (simp add: detach_def case_prod_beta)
  note D = detach_ok [OF ok1, of t]
  have "kern_ok (prvAddTaskToReadyList t (upd_tcb t f (detach t k1)))"
  proof (rule kern_put_back(3))
    show "core_ok (upd_tcb t f (detach t k1))"
      by (rule core_upd_tcb) (use D(1) b in \<open>simp_all add: detach_sel [OF cc1] f_def\<close>)
    show "attached_ok {t} (upd_tcb t f (detach t k1))" using D(3) by (auto simp: attached_ok_def)
    show "current_not_due (upd_tcb t f (detach t k1))" using D(4) by (auto simp: current_not_due_def f_def)
  qed (use D(2) b detach_sel [OF cc1] kern_attached(2) [OF ok1, of t] in \<open>simp_all add: f_def\<close>)
  then show ?thesis using r ok ok1 by simp
qed

text \<open>Resuming the scheduler: the pending ready list is drained, the pended ticks are run.\<close>

lemma xPending_remove_event:
  "core_ok k \<Longrightarrow> xPendingReadyList k = t # ts \<Longrightarrow> xPendingReadyList (remove_event_item t k) = ts"
proof -
  assume c: "core_ok k" and x: "xPendingReadyList k = t # ts"
  have "eventContainer (tcbs k t) = Some PendingReady"
    using core_okD(9) [OF c, of t PendingReady] x by simp
  then show ?thesis using x by (simp add: remove_event_item_def)
qed

lemma drain_step:
  assumes ok: "kern_ok k" and x: "xPendingReadyList k = t # ts"
  obtains k2 where "\<And>m. drain_pending m k = drain_pending True k2" "kern_ok k2" "xPendingReadyList k2 = ts"
    "uxSchedulerSuspended k2 = uxSchedulerSuspended k" "tasks k2 = tasks k"
proof -
  have c: "core_ok k" using ok by (simp add: kern_ok_def)
  have e: "eventContainer (tcbs k t) = Some PendingReady"
    using core_okD(9) [OF c, of t PendingReady] x by simp
  then have st: "stateContainer (tcbs k t) \<noteq> None" using kern_attached(1) [OF ok, of t] by simp
  define k1 where "k1 = wake t (remove_event_item t k)"
  have ok1: "kern_ok k1"
    unfolding k1_def using st by (intro kern_wake kern_remove_event ok) simp
  have "tasks k1 = tasks k" by (rule tasks_cong) (use st in \<open>simp add: k1_def\<close>)
  then have s: "xPendingReadyList k1 = ts" "uxSchedulerSuspended k1 = uxSchedulerSuspended k" "tasks k1 = tasks k"
    using xPending_remove_event [OF c x] by (simp_all add: k1_def)
  define k2 where "k2 = (if uxPriority (tcbs k1 (pxCurrentTCB k1)) \<le> uxPriority (tcbs k1 t)
      then k1\<lparr>xYieldPending := True\<rparr> else k1)"
  have "drain_pending m k = drain_pending True k2" for m
    by (subst drain_pending.simps) (simp add: x Let_def k1_def [symmetric] k2_def)
  moreover have "tasks k2 = tasks k" using s(3) by (auto simp: k2_def tasks_def exists_task_def)
  ultimately show ?thesis using that [of k2] ok1 s by (simp add: k2_def)
qed

lemma drain_pending_returns:
  assumes "kern_ok k"
  shows "\<exists>m' k'. drain_pending m k = Some (m', k') \<and> kern_ok k' \<and> xPendingReadyList k' = [] \<and>
    uxSchedulerSuspended k' = uxSchedulerSuspended k \<and> tasks k' = tasks k"
  using assms
proof (induction "xPendingReadyList k" arbitrary: k m)
  case Nil
  then show ?case by (subst drain_pending.simps) simp
next
  case (Cons t ts)
  obtain k2 where k2: "drain_pending m k = drain_pending True k2" "kern_ok k2" "xPendingReadyList k2 = ts"
    "uxSchedulerSuspended k2 = uxSchedulerSuspended k" "tasks k2 = tasks k"
    using drain_step [OF Cons.prems Cons.hyps(2) [symmetric]] by metis
  then show ?case using Cons.hyps(1) [of k2 True] by simp
qed

lemma tick_tasks:
  assumes ok: "kern_ok k" and r: "xTaskIncrementTick k = Some (sw, k')"
  shows "tasks k' = tasks k"
proof (cases "uxSchedulerSuspended k = 0")
  case True
  have t: "tcbs k' u = (if due_at k (xTickCount k + 1) u then woken (tcbs k u) else tcbs k u)" for u
    using tick_returns [OF ok True] r by auto
  show ?thesis by (rule tasks_cong) (auto simp: t woken_def due_at_def)
next
  case False
  then show ?thesis using r by (auto simp: xTaskIncrementTick_def tasks_def exists_task_def)
qed

lemma pended_ticks_returns:
  assumes "kern_ok k" and "uxSchedulerSuspended k = 0"
  shows "\<exists>k'. pended_ticks n k = Some k' \<and> kern_ok k' \<and> xTickCount k' = xTickCount k + of_nat n \<and> tasks k' = tasks k"
  using assms
proof (induction n arbitrary: k)
  case (Suc n)
  obtain sw k1 where k1: "xTaskIncrementTick k = Some (sw, k1)" "kern_ok k1" "uxSchedulerSuspended k1 = 0"
    "xTickCount k1 = xTickCount k + 1"
    using tick_returns [OF Suc.prems] by auto
  let ?k = "if sw then k1\<lparr>xYieldPending := True\<rparr> else k1"
  have t: "tasks ?k = tasks k" using tick_tasks [OF Suc.prems(1) k1(1)] by (simp add: tasks_def exists_task_def)
  have "\<exists>k'. pended_ticks n ?k = Some k' \<and> kern_ok k' \<and> xTickCount k' = xTickCount ?k + of_nat n \<and> tasks k' = tasks ?k"
    using k1 by (intro Suc.IH) simp_all
  then show ?case using k1 t by (auto simp: add.assoc split: if_splits)
qed simp

lemma ResumeAll_tasks:
  assumes ok: "kern_ok k"
  shows "\<exists>y k'. xTaskResumeAll k = Some (y, k') \<and> kern_ok k' \<and> tasks k' = tasks k"
proof -
  let ?k = "k\<lparr>uxSchedulerSuspended := uxSchedulerSuspended k - 1\<rparr>"
  have t: "tasks ?k = tasks k" by (simp add: tasks_def exists_task_def)
  show ?thesis
  proof (cases "uxSchedulerSuspended ?k = 0 \<and> 0 < uxCurrentNumberOfTasks ?k")
    case True
    obtain m k1 where k1: "drain_pending False ?k = Some (m, k1)" "kern_ok k1" "uxSchedulerSuspended k1 = 0" "tasks k1 = tasks k"
      using drain_pending_returns [of ?k False] ok True t by auto
    define k2 where "k2 = (if m then prvResetNextTaskUnblockTime k1 else k1)"
    have k2: "kern_ok k2" "uxSchedulerSuspended k2 = 0" "tasks k2 = tasks k"
      using k1 kern_reset_time
      by (auto simp: k2_def prvResetNextTaskUnblockTime_def tasks_def exists_task_def split: list.split)
    obtain k3 where k3: "pended_ticks (unat (uxPendedTicks k2)) k2 = Some k3" "kern_ok k3" "tasks k3 = tasks k"
      using pended_ticks_returns [OF k2(1,2)] k2(3) by blast
    have r: "xTaskResumeAll k = map_option (\<lambda>k. if xYieldPending k then (True, portYIELD k) else (False, k))
        (if 0 < uxPendedTicks k2 then map_option (\<lambda>k. k\<lparr>uxPendedTicks := 0\<rparr>) (Some k3) else Some k2)"
      using True k1(1) k3(1) by (simp add: xTaskResumeAll_def Let_def k2_def)
    define k4 where "k4 = (if 0 < uxPendedTicks k2 then k3\<lparr>uxPendedTicks := 0\<rparr> else k2)"
    have k4: "kern_ok k4" "tasks k4 = tasks k"
      using k2 k3 by (simp_all add: k4_def tasks_def exists_task_def)
    have "xTaskResumeAll k = Some (if xYieldPending k4 then (True, portYIELD k4) else (False, k4))"
      using r by (simp add: k4_def)
    moreover have "tasks (portYIELD k4) = tasks k"
      using k4(2) by (simp add: portYIELD_def tasks_def exists_task_def)
    ultimately show ?thesis using k4
      by (intro exI [of _ "xYieldPending k4"] exI [of _ "if xYieldPending k4 then portYIELD k4 else k4"]) simp
  next
    case False
    then have "xTaskResumeAll k = Some (False, ?k)"
      unfolding xTaskResumeAll_def Let_def by (rule if_not_P)
    then show ?thesis using ok t by auto
  qed
qed

lemma ResumeAll_returns: "kern_ok k \<Longrightarrow> \<exists>y k'. xTaskResumeAll k = Some (y, k') \<and> kern_ok k'"
  using ResumeAll_tasks by blast

lemma kern_CreateTask:
  assumes ok: "kern_ok k" and t: "\<not> exists_task t k" "eventContainer (tcbs k t) = None"
    and cur: "pxCurrentTCB k \<noteq> 0"
  shows "kern_ok (prvAddNewTaskToReadyList t (prvInitialiseNewTask t p k))"
proof -
  define k1 where "k1 = prvInitialiseNewTask t p k"
  obtain f where f: "k1 = upd_tcb t f k" "stateContainer (f (tcbs k t)) = None" "eventContainer (f (tcbs k t)) = None"
    "stateValue (f (tcbs k t)) = stateValue (tcbs k t)" "uxPriority (f (tcbs k t)) < 32"
    "uxBasePriority (f (tcbs k t)) < 32" "ucNotifyState (f (tcbs k t)) = taskNOT_WAITING_NOTIFICATION"
    unfolding k1_def prvInitialiseNewTask_def Let_def by (auto simp: configMAX_PRIORITIES_def)
  have n: "stateContainer (tcbs k t) = None" using t(1) by (simp add: exists_task_def)
  have ok1: "kern_ok k1" unfolding f(1) by (rule kern_upd_tcb) (use f n t ok in auto)
  have cur1: "pxCurrentTCB k1 = pxCurrentTCB k" by (simp add: f(1))
  define k2 where "k2 = (let k = k1\<lparr>uxCurrentNumberOfTasks := uxCurrentNumberOfTasks k1 + 1\<rparr>
     in if \<not> xSchedulerRunning k \<and> uxPriority (tcbs k (pxCurrentTCB k)) \<le> uxPriority (tcbs k t)
        then k\<lparr>pxCurrentTCB := t\<rparr> else k)"
  have ok2: "kern_ok k2" using ok1 by (simp add: k2_def Let_def)
  have t2: "tcbs k2 t = f (tcbs k t)" by (simp add: k2_def f(1) Let_def)
  have "kern_ok (prvAddTaskToReadyList t k2)"
    by (rule kern_put_back(3)) (use ok2 t2 f in \<open>auto simp: kern_ok_def attached_ok_def\<close>)
  moreover have "prvAddNewTaskToReadyList t k1 = (let k = prvAddTaskToReadyList t k2
     in if xSchedulerRunning k \<and> uxPriority (tcbs k (pxCurrentTCB k)) < uxPriority (tcbs k t)
        then portYIELD k else k)"
    using cur by (auto simp: prvAddNewTaskToReadyList_def Let_def k2_def cur1)
  ultimately show ?thesis by (simp add: k1_def [symmetric] Let_def)
qed

end
