(* ===== verification/RtosKernel.thy ===== *)
theory RtosKernel
  imports RtosSched
begin

text \<open>
  The scheduler as a state machine: one step is one critical section of a task, one interrupt
  service, or one context switch, in any order. The properties of the scheduler are stated here:
  the invariant in every reachable state, the choice of the highest-priority ready task, delays
  that end on their tick, time-outs across the wrap of the tick counter, and notifications that
  are neither lost nor duplicated.
\<close>

section \<open>Steps\<close>

text \<open>A task call is made by the running task, which is ready and in no event list; a
  notification addresses a task that has not been deleted; a task that blocks on an event list,
  or is resumed by an interrupt, does not wait for a notification at the same time. The steps that
  make and delete tasks are apart, as they change which tasks there are.\<close>

inductive kstep :: "kern \<Rightarrow> kern \<Rightarrow> bool" where
  tick: "xTaskIncrementTick k = Some (sw, k') \<Longrightarrow> kstep k (if sw then portYIELD k' else k')"
| switch: "PendSV k = Some k' \<Longrightarrow> kstep k k'"
| suspend_all: "running k \<Longrightarrow> kstep k (vTaskSuspendAll k)"
| resume_all: "xTaskResumeAll k = Some (y, k') \<Longrightarrow> kstep k k'"
| delay: "running k \<Longrightarrow> 0 < n \<Longrightarrow> kstep k (prvAddCurrentTaskToDelayedList n b k)"
| suspend: "exists_task (prvGetTCBFromHandle h k) k \<Longrightarrow> vTaskSuspend h k = Some k' \<Longrightarrow> kstep k k'"
| resume: "running k \<Longrightarrow> kstep k (vTaskResume t k)"
| resume_isr: "ucNotifyState (tcbs k t) \<noteq> taskWAITING_NOTIFICATION \<Longrightarrow> kstep k (snd (xTaskResumeFromISR t k))"
| priority_set: "exists_task (prvGetTCBFromHandle h k) k \<Longrightarrow> kstep k (vTaskPrioritySet h n k)"
| inherit: "running k \<Longrightarrow> exists_task t k \<Longrightarrow> kstep k (vTaskPriorityInherit t k)"
| disinherit: "exists_task t k \<Longrightarrow> kstep k (snd (xTaskPriorityDisinherit t k))"
| place: "running k \<Longrightarrow> 0 < n \<Longrightarrow> ucNotifyState (tcbs k (pxCurrentTCB k)) \<noteq> taskWAITING_NOTIFICATION \<Longrightarrow>
    kstep k (vTaskPlaceOnEventList e n k)"
| unblock: "xTaskRemoveFromEventList e k = Some (y, k') \<Longrightarrow> kstep k k'"
| missed: "kstep k (vTaskMissedYield k)"
| notify: "exists_task t k \<Longrightarrow> kstep k (snd (xTaskGenericNotify t v a k))"
| notify_isr: "exists_task t k \<Longrightarrow> kstep k (snd (snd (xTaskGenericNotifyFromISR t v a w k)))"
| give_isr: "exists_task t k \<Longrightarrow> kstep k (snd (vTaskNotifyGiveFromISR t w k))"
| take_enter: "running k \<Longrightarrow> kstep k (ulTaskNotifyTake_enter n k)"
| take_exit: "kstep k (snd (ulTaskNotifyTake_exit c k))"
| wait_enter: "running k \<Longrightarrow> kstep k (xTaskNotifyWait_enter m n k)"
| wait_exit: "kstep k (snd (xTaskNotifyWait_exit m k))"
| notify_clear: "kstep k (snd (xTaskNotifyStateClear h k))"

text \<open>The machine as \<open>xTaskCreate\<close> leaves it after the first task.\<close>

definition first_task :: "nat \<Rightarrow> nat \<Rightarrow> kern \<Rightarrow> kern" where
  "first_task t p k = prvAddNewTaskToReadyList t (prvInitialiseNewTask t p k)"

definition zeroed :: "kern \<Rightarrow> bool" where
  "zeroed k \<longleftrightarrow> pxCurrentTCB k = 0 \<and> uxCurrentNumberOfTasks k = 0 \<and> uxTopReadyPriority k = 0 \<and>
     xTickCount k = 0 \<and> (\<forall>e. eventLists k e = []) \<and>
     (\<forall>t. stateContainer (tcbs k t) = None \<and> eventContainer (tcbs k t) = None \<and>
        ucNotifyState (tcbs k t) = taskNOT_WAITING_NOTIFICATION)"

text \<open>\<open>reachable A k\<close>: by some history the machine has come to \<open>k\<close>, and \<open>A\<close> are the tasks that have been
  created in it and not been deleted by another task; a task that deletes itself stays until the
  idle task frees it.\<close>

inductive reachable :: "nat set \<Rightarrow> kern \<Rightarrow> bool" where
  start: "zeroed k \<Longrightarrow> t \<noteq> 0 \<Longrightarrow> reachable {t} (first_task t p k)"
| create: "reachable A k \<Longrightarrow> t \<notin> A \<Longrightarrow> eventContainer (tcbs k t) = None \<Longrightarrow> pxCurrentTCB k \<noteq> 0 \<Longrightarrow>
    reachable (insert t A) (prvAddNewTaskToReadyList t (prvInitialiseNewTask t p k))"
| delete: "reachable A k \<Longrightarrow> prvGetTCBFromHandle h k \<in> A \<Longrightarrow>
    reachable (if prvGetTCBFromHandle h k = pxCurrentTCB k then A else A - {prvGetTCBFromHandle h k}) (vTaskDelete h k)"
| step: "reachable A k \<Longrightarrow> kstep k k' \<Longrightarrow> reachable A k'"

inductive_cases kstepE: "kstep k k'"

lemma kern_tick:
  assumes ok: "kern_ok k" and r: "xTaskIncrementTick k = Some (sw, k')"
  shows "kern_ok k'"
proof (cases "uxSchedulerSuspended k = 0")
  case True
  then show ?thesis using tick_returns [OF ok] r by auto
next
  case False
  then show ?thesis using r ok by (auto simp: xTaskIncrementTick_def)
qed

lemma kstep_ok: "kstep k k' \<Longrightarrow> kern_ok k \<Longrightarrow> kern_ok k'"
proof (induction rule: kstep.induct)
  case (tick k sw k')
  then show ?case using kern_tick by auto
next
  case (resume_all k y k')
  then show ?case using ResumeAll_returns [of k] by auto
next
  case (inherit k t)
  then show ?case by (intro kern_PriorityInherit) (auto simp: exists_task_def running_def)
qed (auto simp: vTaskSuspendAll_def vTaskMissedYield_def
    intro: kern_PendSV kern_block_running kern_Suspend kern_Resume
      kern_ResumeFromISR kern_PrioritySet kern_PriorityDisinherit kern_PlaceOnEventList
      kern_RemoveFromEventList kern_GenericNotify kern_GenericNotifyFromISR kern_NotifyGiveFromISR
      kern_NotifyTake_enter kern_NotifyTake_exit kern_NotifyWait_enter kern_NotifyWait_exit
      kern_NotifyStateClear)

lemma zeroed_lists:
  assumes "zeroed k"
  shows "kern_ok (prvInitialiseTaskLists k)"
proof -
  let ?k = "prvInitialiseTaskLists k"
  have m: "members ?k c = []" for c
    by (cases c) (simp_all add: prvInitialiseTaskLists_def ring_tasks_def)
  have e: "event_members ?k b = []" for b
    using assms by (cases b) (simp_all add: prvInitialiseTaskLists_def zeroed_def)
  have t: "tcbs ?k = tcbs k" "uxTopReadyPriority ?k = 0" "xDelayedTaskLists ?k d = []"
    "pxDelayedTaskList ?k \<noteq> pxOverflowDelayedTaskList ?k" "pxReadyTasksLists ?k p = [End p]" for d p
    using assms by (simp_all add: prvInitialiseTaskLists_def zeroed_def)
  show ?thesis
    using assms by (simp add: all_ok_defs m e t zeroed_def del: members.simps event_members.simps)
qed

lemma first_task_ok:
  assumes z: "zeroed k" and t: "t \<noteq> 0"
  shows "kern_ok (first_task t p k)"
proof -
  define k1 where "k1 = prvInitialiseNewTask t p k"
  define k2 where "k2 = prvInitialiseTaskLists (k1\<lparr>uxCurrentNumberOfTasks := 1, pxCurrentTCB := t\<rparr>)"
  have z1: "zeroed (k1\<lparr>uxCurrentNumberOfTasks := 0, pxCurrentTCB := 0\<rparr>)"
    using z by (auto simp: zeroed_def k1_def prvInitialiseNewTask_def Let_def)
  have "k2 = (prvInitialiseTaskLists (k1\<lparr>uxCurrentNumberOfTasks := 0, pxCurrentTCB := 0\<rparr>))
      \<lparr>uxCurrentNumberOfTasks := 1, pxCurrentTCB := t\<rparr>"
    by (simp add: k2_def prvInitialiseTaskLists_def)
  then have ok2: "kern_ok k2" using zeroed_lists [OF z1] by simp
  have t2: "uxPriority (tcbs k2 t) < 32" "uxBasePriority (tcbs k2 t) < 32"
    "stateContainer (tcbs k2 t) = None" "eventContainer (tcbs k2 t) = None"
    by (simp_all add: k2_def prvInitialiseTaskLists_def k1_def prvInitialiseNewTask_def Let_def
        configMAX_PRIORITIES_def)
  have "kern_ok (prvAddTaskToReadyList t k2)"
    by (rule kern_put_back(3)) (use ok2 t2 in \<open>auto simp: kern_ok_def attached_ok_def\<close>)
  moreover have "first_task t p k = (let k = prvAddTaskToReadyList t k2
     in if xSchedulerRunning k \<and> uxPriority (tcbs k (pxCurrentTCB k)) < uxPriority (tcbs k t)
        then portYIELD k else k)"
  proof -
    have "pxCurrentTCB k1 = 0" "uxCurrentNumberOfTasks k1 = 0"
      using z by (simp_all add: k1_def prvInitialiseNewTask_def Let_def zeroed_def)
    then show ?thesis
      by (auto simp: first_task_def prvAddNewTaskToReadyList_def k1_def [symmetric] k2_def Let_def)
  qed
  ultimately show ?thesis by (simp add: Let_def)
qed

section \<open>No task is lost\<close>

lemma tasks_tcb [simp]:
  "tasks (remove_event_item t k) = tasks k" "tasks (pending_insert_end t k) = tasks k"
  "tasks (event_insert e t k) = tasks k" "tasks (prvResetNextTaskUnblockTime k) = tasks k"
  "tasks (portYIELD k) = tasks k" "tasks (taskRESET_READY_PRIORITY p k) = tasks k"
  "tasks (portRESET_READY_PRIORITY p k) = tasks k" "tasks (set_event_value t n k) = tasks k"
  by (rule tasks_cong; simp add: portYIELD_def set_event_value_def)+

lemma tasks_insert [simp]:
  "tasks (prvAddTaskToReadyList t k) = insert t (tasks k)" "tasks (suspended_insert_end t k) = insert t (tasks k)"
  "tasks (termination_insert_end t k) = insert t (tasks k)" "tasks (delayed_insert d t k) = insert t (tasks k)"
  "tasks (snd (remove_state_item t k)) = tasks k - {t}"
  by (auto simp: tasks_def exists_task_def)

lemma tasks_scalar [simp]:
  "tasks (k\<lparr>xYieldPending := y\<rparr>) = tasks k" "tasks (k\<lparr>uxCurrentNumberOfTasks := n\<rparr>) = tasks k"
  "tasks (k\<lparr>uxDeletedTasksWaitingCleanUp := n\<rparr>) = tasks k" "tasks (k\<lparr>pxCurrentTCB := t\<rparr>) = tasks k"
  "tasks (k\<lparr>uxSchedulerSuspended := n\<rparr>) = tasks k" "tasks (k\<lparr>pendSV := y\<rparr>) = tasks k"
  "tasks (k\<lparr>xNextTaskUnblockTime := n\<rparr>) = tasks k" "tasks (k\<lparr>pxReadyTasksLists := r\<rparr>) = tasks k"
  by (simp_all add: tasks_def exists_task_def)

lemma tasks_upd_tcb: "(\<And>b. stateContainer (f b) = stateContainer b) \<Longrightarrow> tasks (upd_tcb t f k) = tasks k"
  by (rule tasks_cong) simp

lemma in_tasks: "t \<in> tasks k \<longleftrightarrow> stateContainer (tcbs k t) \<noteq> None"
  by (simp add: tasks_def exists_task_def)

lemma tasks_block: "running k \<Longrightarrow> tasks (prvAddCurrentTaskToDelayedList n b k) = tasks k"
proof -
  assume "running k"
  then have "pxCurrentTCB k \<in> tasks k" by (auto simp: running_def in_tasks)
  then show ?thesis
    by (auto simp: prvAddCurrentTaskToDelayedList_def Let_def case_prod_beta tasks_upd_tcb)
qed

lemma tasks_switch: "vTaskSwitchContext k = Some k' \<Longrightarrow> tasks k' = tasks k"
  by (auto simp: vTaskSwitchContext_def taskSELECT_HIGHEST_PRIORITY_TASK_def Let_def split: if_splits ptr.splits)

text \<open>What \<open>vTaskSuspend\<close> makes of the lists, before it looks for another task to run.\<close>

definition put_aside :: "nat \<Rightarrow> kern \<Rightarrow> kern" where
  "put_aside t k =
    (let (n, k) = remove_state_item t k;
         k = (if n = 0 then taskRESET_READY_PRIORITY (uxPriority (tcbs k t)) k else k);
         k = suspended_insert_end t (remove_event_item t k)
     in if xSchedulerRunning k then prvResetNextTaskUnblockTime k else k)"

lemma Suspend_put_aside:
  "vTaskSuspend h k =
    (let t = prvGetTCBFromHandle h k; k = put_aside t k
     in if t = pxCurrentTCB k then
          (if xSchedulerRunning k then Some (portYIELD k)
           else if of_nat (length (xSuspendedTaskList k)) = uxCurrentNumberOfTasks k
           then Some (k\<lparr>pxCurrentTCB := 0\<rparr>) else vTaskSwitchContext k)
        else Some k)"
  unfolding vTaskSuspend_def put_aside_def Let_def case_prod_beta by (rule refl)

lemma put_aside_tasks: "t \<in> tasks k \<Longrightarrow> tasks (put_aside t k) = tasks k"
  by (auto simp: put_aside_def Let_def case_prod_beta)

lemma put_aside_current: "pxCurrentTCB (put_aside t k) = pxCurrentTCB k"
  by (simp add: put_aside_def Let_def case_prod_beta)

lemma tasks_Suspend:
  assumes "exists_task (prvGetTCBFromHandle h k) k" and "vTaskSuspend h k = Some k'"
  shows "tasks k' = tasks k"
proof -
  let ?k = "put_aside (prvGetTCBFromHandle h k) k"
  have "tasks ?k = tasks k" using assms(1) by (intro put_aside_tasks) (simp add: tasks_def)
  moreover have "k' = portYIELD ?k \<or> k' = ?k\<lparr>pxCurrentTCB := 0\<rparr> \<or> vTaskSwitchContext ?k = Some k' \<or> k' = ?k"
    using assms(2) unfolding Suspend_put_aside Let_def by (auto split: if_splits)
  ultimately show ?thesis using tasks_switch by auto
qed

lemma set_event_container [simp]: "stateContainer (tcbs (set_event_value t n k) u) = stateContainer (tcbs k u)"
  by (simp add: set_event_value_def)

lemma tasks_PrioritySet: "tasks (vTaskPrioritySet h n k) = tasks k"
  by (auto simp: vTaskPrioritySet_def Let_def case_prod_beta tasks_upd_tcb in_tasks)

lemma tasks_PriorityInherit: "tasks (vTaskPriorityInherit t k) = tasks k"
  by (auto simp: vTaskPriorityInherit_def Let_def case_prod_beta tasks_upd_tcb in_tasks)

lemma tasks_PriorityDisinherit: "exists_task t k \<Longrightarrow> tasks (snd (xTaskPriorityDisinherit t k)) = tasks k"
  by (auto simp: xTaskPriorityDisinherit_def Let_def case_prod_beta tasks_upd_tcb in_tasks exists_task_def)

lemma tasks_Resume: "tasks (vTaskResume t k) = tasks k" "tasks (snd (xTaskResumeFromISR t k)) = tasks k"
  by (auto simp: vTaskResume_def xTaskResumeFromISR_def prvTaskIsTaskSuspended_def Let_def in_tasks)

lemma tasks_RemoveFromEventList:
  assumes ok: "kern_ok k" and r: "xTaskRemoveFromEventList e k = Some (y, k')"
  shows "tasks k' = tasks k"
proof -
  obtain t ts where ev: "eventLists k e = t # ts"
    using r by (auto simp: xTaskRemoveFromEventList_def split: list.splits)
  have "core_ok k" using ok by (simp add: kern_ok_def)
  from core_okD(9) [OF this, of t "EventList e"] ev
  have "t \<in> tasks k" using kern_attached(1) [OF ok, of t] by (simp add: in_tasks)
  then show ?thesis
    using r ev by (auto simp: xTaskRemoveFromEventList_def Let_def split: if_splits)
qed

lemma tasks_unblock_isr: "t \<in> tasks k \<Longrightarrow> tasks (snd (notify_unblock_from_isr t w k)) = tasks k"
  by (auto simp: notify_unblock_from_isr_def Let_def split: option.split)

lemma tasks_notify:
  assumes "exists_task t k"
  shows "tasks (snd (xTaskGenericNotify t v a k)) = tasks k"
    "tasks (snd (snd (xTaskGenericNotifyFromISR t v a w k))) = tasks k"
    "tasks (snd (vTaskNotifyGiveFromISR t w k)) = tasks k"
proof -
  have t: "t \<in> tasks k" using assms by (simp add: tasks_def)
  have u: "tasks (upd_tcb t (\<lambda>b. b\<lparr>ucNotifyState := s, ulNotifiedValue := g b\<rparr>) k) = tasks k" for s g
    by (rule tasks_upd_tcb) simp
  show "tasks (snd (xTaskGenericNotify t v a k)) = tasks k"
    using t by (auto simp: xTaskGenericNotify_def Let_def case_prod_beta u)
  show "tasks (snd (snd (xTaskGenericNotifyFromISR t v a w k))) = tasks k"
    using t by (simp add: xTaskGenericNotifyFromISR_def Let_def case_prod_beta u tasks_unblock_isr)
  show "tasks (snd (vTaskNotifyGiveFromISR t w k)) = tasks k"
    using t by (simp add: vTaskNotifyGiveFromISR_def Let_def u tasks_unblock_isr)
qed

lemma tasks_wait:
  "running k \<Longrightarrow> tasks (ulTaskNotifyTake_enter n k) = tasks k" "tasks (snd (ulTaskNotifyTake_exit c k)) = tasks k"
  "running k \<Longrightarrow> tasks (xTaskNotifyWait_enter m n k) = tasks k" "tasks (snd (xTaskNotifyWait_exit m k)) = tasks k"
  "tasks (snd (xTaskNotifyStateClear h k)) = tasks k"
proof -
  have r: "running (upd_tcb t f k) = running k" if "\<And>b. stateContainer (f b) = stateContainer b" "\<And>b. eventContainer (f b) = eventContainer b" for t f
    using that by (simp add: running_def)
  show "running k \<Longrightarrow> tasks (ulTaskNotifyTake_enter n k) = tasks k" "running k \<Longrightarrow> tasks (xTaskNotifyWait_enter m n k) = tasks k"
    by (simp_all add: ulTaskNotifyTake_enter_def xTaskNotifyWait_enter_def Let_def tasks_upd_tcb tasks_block r)
  show "tasks (snd (ulTaskNotifyTake_exit c k)) = tasks k" "tasks (snd (xTaskNotifyWait_exit m k)) = tasks k"
    "tasks (snd (xTaskNotifyStateClear h k)) = tasks k"
    by (simp_all add: ulTaskNotifyTake_exit_def xTaskNotifyWait_exit_def xTaskNotifyStateClear_def Let_def tasks_upd_tcb)
qed

lemma kstep_tasks: "kstep k k' \<Longrightarrow> kern_ok k \<Longrightarrow> tasks k' = tasks k"
proof (induction rule: kstep.induct)
  case (tick k sw k')
  then show ?case using tick_tasks by auto
next
  case (switch k k')
  then show ?case using tasks_switch by (force simp: PendSV_def split: if_splits)
next
  case (resume_all k y k')
  then show ?case using ResumeAll_tasks [of k] by auto
next
  case (place k n e)
  then have "tasks (event_insert e (pxCurrentTCB k) k) = tasks k" "pxCurrentTCB k \<in> tasks k"
    by (auto simp: running_def in_tasks)
  then show ?case
    by (auto simp: vTaskPlaceOnEventList_def prvAddCurrentTaskToDelayedList_def Let_def case_prod_beta tasks_upd_tcb)
qed (auto simp: vTaskSuspendAll_def vTaskMissedYield_def tasks_block tasks_PrioritySet tasks_PriorityInherit
    tasks_PriorityDisinherit tasks_Resume tasks_notify tasks_wait dest: tasks_Suspend tasks_RemoveFromEventList)

lemma tasks_initialise: "tasks (prvInitialiseNewTask t p k) = tasks k - {t}" "tasks (prvInitialiseTaskLists k) = tasks k"
  by (rule set_eqI; auto simp: prvInitialiseNewTask_def prvInitialiseTaskLists_def Let_def in_tasks)+

lemma tasks_add: "tasks (prvAddNewTaskToReadyList t k) = insert t (tasks k)"
  by (simp add: prvAddNewTaskToReadyList_def Let_def tasks_initialise)

lemma tasks_create: "tasks (prvAddNewTaskToReadyList t (prvInitialiseNewTask t p k)) = insert t (tasks k)"
  by (simp add: tasks_add tasks_initialise)

lemma tasks_first: "zeroed k \<Longrightarrow> tasks (first_task t p k) = {t}"
proof -
  assume "zeroed k"
  then have "tasks k = {}" by (auto simp: zeroed_def in_tasks)
  then show ?thesis by (simp add: first_task_def tasks_create)
qed

lemma tasks_delete:
  assumes "prvGetTCBFromHandle h k \<in> tasks k"
  shows "tasks (vTaskDelete h k) =
    (if prvGetTCBFromHandle h k = pxCurrentTCB k then tasks k else tasks k - {prvGetTCBFromHandle h k})"
  using assms by (auto simp: vTaskDelete_def Let_def case_prod_beta)

lemma reachable_both: "reachable A k \<Longrightarrow> kern_ok k \<and> tasks k = A"
proof (induction rule: reachable.induct)
  case (start k t p)
  then show ?case by (simp add: first_task_ok tasks_first)
next
  case (create A k t p)
  then have "\<not> exists_task t k" by (auto simp: tasks_def)
  then show ?case using create by (simp add: tasks_create kern_CreateTask)
next
  case (delete A k h)
  then have "exists_task (prvGetTCBFromHandle h k) k" by (auto simp: tasks_def)
  then show ?case using delete.IH delete.hyps tasks_delete [of h k] by (simp add: kern_Delete)
next
  case (step A k k')
  then show ?case using kstep_ok kstep_tasks by simp
qed

lemmas reachable_ok = reachable_both [THEN conjunct1] and reachable_tasks = reachable_both [THEN conjunct2]

text \<open>What blocking a task leaves alone.\<close>

lemma drop_member_counts:
  "uxPendedTicks (drop_member t c k) = uxPendedTicks k"
  by (cases c) simp_all

lemma block_parts_sel:
  "uxSchedulerSuspended (delayed_insert d t k) = uxSchedulerSuspended k"
  "uxSchedulerSuspended (suspended_insert_end t k) = uxSchedulerSuspended k"
  "uxSchedulerSuspended (portRESET_READY_PRIORITY p k) = uxSchedulerSuspended k"
  "uxSchedulerSuspended (snd (remove_state_item t k)) = uxSchedulerSuspended k"
  "xPendingReadyList (delayed_insert d t k) = xPendingReadyList k"
  "xPendingReadyList (suspended_insert_end t k) = xPendingReadyList k"
  "xPendingReadyList (portRESET_READY_PRIORITY p k) = xPendingReadyList k"
  "xPendingReadyList (snd (remove_state_item t k)) = xPendingReadyList k"
  "uxPendedTicks (delayed_insert d t k) = uxPendedTicks k"
  "uxPendedTicks (suspended_insert_end t k) = uxPendedTicks k"
  "uxPendedTicks (portRESET_READY_PRIORITY p k) = uxPendedTicks k"
  "uxPendedTicks (snd (remove_state_item t k)) = uxPendedTicks k"
  by (simp_all add: delayed_insert_def suspended_insert_end_def portRESET_READY_PRIORITY_def
      remove_state_item_def drop_member_counts split: option.split)
    (simp_all add: drop_member_sel)

section \<open>Properties\<close>

text \<open>C22: In every state the scheduler can reach, by any interleaving of task calls,
  interrupts and context switches, every task that was created and not deleted by another is in exactly one
  of the lists of ready, delayed, suspended and deleted tasks, no other task is in any of them, each is in the
  list its state item names, the ready bit map marks exactly the non-empty ready lists, the delayed lists are sorted and not
  overdue, and the next unblock time is not later than any wake time.\<close>

theorem scheduler_invariant:
  assumes "reachable A k"
  shows "(\<forall>t. if t \<in> A then \<exists>!c. t \<in> set (members k c) else \<forall>c. t \<notin> set (members k c)) \<and>
    (\<forall>t c. t \<in> set (members k c) \<longleftrightarrow> stateContainer (tcbs k t) = Some c) \<and>
    (\<forall>c. distinct (members k c)) \<and>
    (\<forall>p < 32. bit (uxTopReadyPriority k) p \<longleftrightarrow> members k (Ready p) \<noteq> []) \<and>
    (\<forall>t p. stateContainer (tcbs k t) = Some (Ready p) \<longrightarrow> p = uxPriority (tcbs k t) \<and> p < 32) \<and>
    (\<forall>d. sorted (map (\<lambda>t. stateValue (tcbs k t)) (xDelayedTaskLists k d))) \<and>
    (\<forall>t \<in> set (xDelayedTaskLists k (pxDelayedTaskList k)).
      xTickCount k < stateValue (tcbs k t) \<and> xNextTaskUnblockTime k \<le> stateValue (tcbs k t)) \<and>
    (\<forall>t \<in> set (xDelayedTaskLists k (pxOverflowDelayedTaskList k)). stateValue (tcbs k t) < xTickCount k)"
proof -
  have ok: "kern_ok k" by (rule reachable_ok [OF assms])
  then have c: "core_ok k" by (simp add: kern_ok_def)
  have m: "\<forall>t c. t \<in> set (members k c) \<longleftrightarrow> stateContainer (tcbs k t) = Some c" "\<forall>c. distinct (members k c)"
    using core_okD(6,7) [OF c] by auto
  have A: "t \<in> A \<longleftrightarrow> stateContainer (tcbs k t) \<noteq> None" for t
    unfolding reachable_tasks [OF assms, symmetric] by (rule in_tasks)
  have "if t \<in> A then \<exists>!c. t \<in> set (members k c) else \<forall>c. t \<notin> set (members k c)" for t
  proof (cases "stateContainer (tcbs k t)")
    case None
    then show ?thesis using A m(1) by simp
  next
    case (Some a)
    then have "t \<in> A" "t \<in> set (members k c) \<longleftrightarrow> c = a" for c using A m(1) by auto
    then show ?thesis by simp
  qed
  moreover note m
  moreover have "\<forall>t p. stateContainer (tcbs k t) = Some (Ready p) \<longrightarrow> p = uxPriority (tcbs k t) \<and> p < 32"
    using core_okD(10,12) [OF c] by metis
  moreover have "\<forall>p < 32. bit (uxTopReadyPriority k) p \<longleftrightarrow> members k (Ready p) \<noteq> []"
    "\<forall>d. sorted (map (\<lambda>t. stateValue (tcbs k t)) (xDelayedTaskLists k d))"
    "\<forall>t \<in> set (xDelayedTaskLists k (pxDelayedTaskList k)).
      xTickCount k < stateValue (tcbs k t) \<and> xNextTaskUnblockTime k \<le> stateValue (tcbs k t)"
    "\<forall>t \<in> set (xDelayedTaskLists k (pxOverflowDelayedTaskList k)). stateValue (tcbs k t) < xTickCount k"
    using ok by (auto simp: all_ok_defs simp del: members.simps event_members.simps)
  ultimately show ?thesis by blast
qed

text \<open>A machine just started, with zeroed memory.\<close>

definition boot :: kern where
  "boot = \<lparr>tcbs = (\<lambda>_. \<lparr>uxPriority = 0, uxBasePriority = 0, uxMutexesHeld = 0, ulNotifiedValue = 0,
       ucNotifyState = taskNOT_WAITING_NOTIFICATION, stateValue = 0, stateContainer = None,
       eventValue = 0, eventContainer = None\<rparr>),
     pxCurrentTCB = 0, pxReadyTasksLists = (\<lambda>_. []), xDelayedTaskLists = (\<lambda>_. []),
     pxDelayedTaskList = 0, pxOverflowDelayedTaskList = 0, xPendingReadyList = [],
     xTasksWaitingTermination = [], xSuspendedTaskList = [], eventLists = (\<lambda>_. []),
     uxDeletedTasksWaitingCleanUp = 0, uxCurrentNumberOfTasks = 0, xTickCount = 0,
     uxTopReadyPriority = 0, xSchedulerRunning = False, uxPendedTicks = 0, xYieldPending = False,
     xNumOfOverflows = 0, xNextTaskUnblockTime = 0, uxSchedulerSuspended = 0, pendSV = False\<rparr>"

text \<open>Two tasks, task 1 of priority 3 and task 2 of priority 5, the scheduler started.\<close>

definition two_tasks :: kern where
  "two_tasks = (prvAddNewTaskToReadyList 2 (prvInitialiseNewTask 2 5 (first_task 1 3 boot)))
     \<lparr>xSchedulerRunning := True\<rparr>"

lemma boot_zeroed: "zeroed boot"
  by (simp add: zeroed_def boot_def)

lemma first_boot: "reachable {1} (first_task 1 3 boot)"
  by (rule start) (simp_all add: boot_zeroed)

lemmas state_eval = first_task_def prvAddNewTaskToReadyList_def prvInitialiseNewTask_def
  prvAddTaskToReadyList_def portRECORD_READY_PRIORITY_def prvInitialiseTaskLists_def upd_tcb_def
  boot_def configMAX_PRIORITIES_def ring_tasks_def

lemma two_reachable: "reachable {2, 1} (prvAddNewTaskToReadyList 2 (prvInitialiseNewTask 2 5 (first_task 1 3 boot)))"
  by (rule reachable.create [OF first_boot])
    (simp_all add: exists_task_def state_eval Let_def)

lemma two_tasks_ok: "kern_ok two_tasks"
  using reachable_ok [OF two_reachable] by (simp add: two_tasks_def)

text \<open>The second task suspends the first.\<close>

definition one_suspended :: kern where
  "one_suspended = the (vTaskSuspend 1 (prvAddNewTaskToReadyList 2 (prvInitialiseNewTask 2 5 (first_task 1 3 boot))))"

lemma Suspend_other: "t \<noteq> 0 \<Longrightarrow> t \<noteq> pxCurrentTCB k \<Longrightarrow> vTaskSuspend t k = Some (put_aside t k)"
  by (simp add: Suspend_put_aside prvGetTCBFromHandle_def put_aside_current)

lemma one_suspended_reachable: "reachable {2, 1} one_suspended"
proof -
  define k where "k = prvAddNewTaskToReadyList 2 (prvInitialiseNewTask 2 5 (first_task 1 3 boot))"
  have r: "reachable {2, 1} k" using two_reachable by (simp add: k_def)
  have t: "exists_task (prvGetTCBFromHandle 1 k) k"
    using reachable_tasks [OF r] by (auto simp: prvGetTCBFromHandle_def tasks_def)
  have "pxCurrentTCB k = 2" by (simp add: k_def state_eval Let_def)
  then obtain k' where "vTaskSuspend 1 k = Some k'" using Suspend_other [of 1 k] by auto
  then show ?thesis
    using reachable.step [OF r kstep.suspend [OF t]] unfolding one_suspended_def k_def [symmetric] by simp
qed

lemma scheduler_invariant_witness:
  "(\<exists>!c. 2 \<in> set (members one_suspended c)) \<and> (\<exists>!c. 1 \<in> set (members one_suspended c)) \<and>
    (bit (uxTopReadyPriority one_suspended) 3 \<longleftrightarrow> members one_suspended (Ready 3) \<noteq> [])"
proof -
  have p: "(3 :: nat) < 32" by simp
  from scheduler_invariant [OF one_suspended_reachable]
  have "\<forall>t. if t \<in> {2, 1 :: nat} then \<exists>!c. t \<in> set (members one_suspended c) else \<forall>c. t \<notin> set (members one_suspended c)"
    "\<forall>p < 32. bit (uxTopReadyPriority one_suspended) p \<longleftrightarrow> members one_suspended (Ready p) \<noteq> []" by blast+
  then show ?thesis using p by (metis insertI1 insertI2)
qed

text \<open>C27: \<open>vTaskSwitchContext\<close>, when the scheduler is not suspended and some task is ready,
  always finds a task to run: a ready task of the highest priority for which there is one, the
  next of its priority in round-robin order; no other task changes, and the invariant is kept.\<close>

theorem switch_selects_highest:
  assumes "kern_ok k" and "uxSchedulerSuspended k = 0"
    and "stateContainer (tcbs k u) = Some (Ready q)"
  shows "\<exists>k' p. vTaskSwitchContext k = Some k' \<and> kern_ok k' \<and> tcbs k' = tcbs k \<and>
    stateContainer (tcbs k (pxCurrentTCB k')) = Some (Ready p) \<and>
    (\<forall>v r. stateContainer (tcbs k v) = Some (Ready r) \<longrightarrow> r \<le> p) \<and>
    Item (pxCurrentTCB k') = hd (walk_order p (pxReadyTasksLists k p)) \<and>
    walk_order p (pxReadyTasksLists k' p) = rotate1 (walk_order p (pxReadyTasksLists k p)) \<and>
    \<not> xYieldPending k'"
proof -
  let ?k = "k\<lparr>xYieldPending := False\<rparr>"
  have ok: "kern_ok ?k" using assms(1) by simp
  have c: "core_ok ?k" using ok by (simp add: kern_ok_def)
  note mem = core_okD(7) [OF c]
  have "members ?k (Ready q) \<noteq> []" using mem [of u "Ready q"] assms(3) by auto
  moreover have "q < 32" using core_okD(10,12) [OF c] assms(3) by force
  ultimately have ne: "uxTopReadyPriority ?k \<noteq> 0"
    using ok unfolding kern_ok_def mask_ok_def by auto
  obtain t p k' where s: "taskSELECT_HIGHEST_PRIORITY_TASK ?k = Some k'" "pxCurrentTCB k' = t"
    "t \<in> set (members ?k (Ready p))" "p < 32" "\<forall>q < 32. p < q \<longrightarrow> members ?k (Ready q) = []"
    "Item t = hd (walk_order p (pxReadyTasksLists ?k p))"
    "k' = ?k\<lparr>pxReadyTasksLists := (pxReadyTasksLists ?k)(p := ring_next p (pxReadyTasksLists ?k p)), pxCurrentTCB := t\<rparr>"
    using select_returns [of ?k] ok ne unfolding kern_ok_sched by blast
  have sw: "vTaskSwitchContext k = Some k'" using assms(2) s(1) by (simp add: vTaskSwitchContext_def)
  have top: "r \<le> p" if "stateContainer (tcbs k v) = Some (Ready r)" for v r
  proof (rule ccontr)
    assume "\<not> r \<le> p"
    moreover have "r < 32" using core_okD(10,12) [OF c] that by force
    moreover have "members ?k (Ready r) \<noteq> []" using mem [of v "Ready r"] that by auto
    ultimately show False using s(5) by auto
  qed
  have w: "walk_order p (pxReadyTasksLists k p) \<noteq> []"
  proof -
    have "Item t \<in> set (walk_order p (pxReadyTasksLists k p))"
      using s(3) by (simp add: in_ring_tasks walk_order_items)
    then show ?thesis by auto
  qed
  have "distinct (pxReadyTasksLists k p)" "End p \<in> set (pxReadyTasksLists k p)"
    using core_okD(1) [OF c] by (simp_all add: rings_ok_def)
  then have "walk_order p (ring_next p (pxReadyTasksLists k p)) = rotate1 (walk_order p (pxReadyTasksLists k p))"
    by (rule walk_order_next(2) [OF _ _ w])
  moreover have "kern_ok k'" by (rule kern_switch_context [OF assms(1) sw])
  moreover have "stateContainer (tcbs k t) = Some (Ready p)" using mem [of t "Ready p"] s(3) by simp
  ultimately show ?thesis using sw top s(2,6,7) by (intro exI [of _ k'] exI [of _ p]) auto
qed

lemma switch_selects_highest_witness:
  "\<exists>k'. vTaskSwitchContext two_tasks = Some k' \<and> kern_ok k' \<and> stateContainer (tcbs two_tasks (pxCurrentTCB k')) = Some (Ready 5)"
proof -
  have "stateContainer (tcbs two_tasks 2) = Some (Ready 5)" "uxSchedulerSuspended two_tasks = 0"
    by (simp_all add: two_tasks_def state_eval Let_def)
  moreover have "\<forall>v r. stateContainer (tcbs two_tasks v) = Some (Ready r) \<longrightarrow> r \<le> 5"
    by (simp add: two_tasks_def state_eval Let_def)
  ultimately obtain k' p where "vTaskSwitchContext two_tasks = Some k'" "kern_ok k'"
    "stateContainer (tcbs two_tasks (pxCurrentTCB k')) = Some (Ready p)"
    "\<forall>v r. stateContainer (tcbs two_tasks v) = Some (Ready r) \<longrightarrow> r \<le> p" "p \<le> 5"
    using switch_selects_highest [OF two_tasks_ok, of 2 5] by metis
  moreover from this have "p = 5"
    using \<open>stateContainer (tcbs two_tasks 2) = Some (Ready 5)\<close> by (metis le_antisym)
  ultimately show ?thesis by blast
qed

text \<open>C23: \<open>vTaskDelay(n)\<close> blocks the calling task for exactly \<open>n\<close> ticks: after \<open>m\<close> further
  ticks the task is ready if and only if \<open>n \<le> m\<close>, for every \<open>n > 0\<close> and also when the 32-bit tick
  counter wraps in between; every tick returns and keeps the invariant.\<close>

theorem vTaskDelay_exact:
  assumes "kern_ok k" and "stateContainer (tcbs k (pxCurrentTCB k)) = Some (Ready p)"
    and "uxSchedulerSuspended k = 0" "xPendingReadyList k = []" "uxPendedTicks k = 0" and "0 < n"
  shows "\<exists>k0. vTaskDelay n k = Some k0 \<and> (\<forall>m. \<exists>k'. ticks m k0 = Some k' \<and> kern_ok k' \<and>
    (stateContainer (tcbs k' (pxCurrentTCB k)) = Some (Ready p) \<longleftrightarrow> unat n \<le> m))"
proof -
  let ?s = "vTaskSuspendAll k" and ?t = "pxCurrentTCB k"
  define k1 where "k1 = prvAddCurrentTaskToDelayedList n False ?s"
  have ok: "kern_ok ?s" using assms(1) by (simp add: vTaskSuspendAll_def)
  have sel: "tcbs ?s = tcbs k" "pxCurrentTCB ?s = ?t" "xTickCount ?s = xTickCount k"
    "pxDelayedTaskList ?s = pxDelayedTaskList k" "pxOverflowDelayedTaskList ?s = pxOverflowDelayedTaskList k"
    "uxSchedulerSuspended ?s = 1" "xPendingReadyList ?s = []" "uxPendedTicks ?s = 0"
    using assms(3-5) by (simp_all add: vTaskSuspendAll_def)
  have run: "stateContainer (tcbs ?s (pxCurrentTCB ?s)) = Some (Ready p)" using assms(2) sel by simp
  note B = kern_block [OF ok run assms(6), where b = False, folded k1_def, simplified sel]
  have prio: "uxPriority (tcbs k ?t) = p"
    using assms(1,2) core_okD(12) [of k] by (simp add: kern_ok_def)
  have same: "uxSchedulerSuspended k1 = 1" "xPendingReadyList k1 = []" "uxPendedTicks k1 = 0"
    "xTickCount k1 = xTickCount k" "pxDelayedTaskList k1 = pxDelayedTaskList k"
    "pxOverflowDelayedTaskList k1 = pxOverflowDelayedTaskList k"
    using sel by (auto simp: k1_def prvAddCurrentTaskToDelayedList_def Let_def case_prod_beta block_parts_sel)
  define k2 where "k2 = k1\<lparr>uxSchedulerSuspended := 0\<rparr>"
  have drain: "drain_pending False k2 = Some (False, k2)"
    by (subst drain_pending.simps) (simp add: k2_def same)
  have resume: "xTaskResumeAll k1 = (if 0 < uxCurrentNumberOfTasks k2 \<and> xYieldPending k2
      then Some (True, portYIELD k2) else Some (False, k2))"
    using drain unfolding xTaskResumeAll_def Let_def same(1) by (simp add: k2_def same)
  have delay: "vTaskDelay n k = Some (portYIELD k2)"
    using assms(6) resume by (auto simp: vTaskDelay_def k1_def)
  let ?k0 = "portYIELD k2"
  have ok0: "kern_ok ?k0" using B(1) by (simp add: k2_def)
  have sel0: "uxSchedulerSuspended ?k0 = 0" "tcbs ?k0 = tcbs k1" "xTickCount ?k0 = xTickCount k"
    "pxDelayedTaskList ?k0 = pxDelayedTaskList k" "pxOverflowDelayedTaskList ?k0 = pxOverflowDelayedTaskList k"
    by (simp_all add: portYIELD_def k2_def same)
  have "\<exists>k'. ticks m ?k0 = Some k' \<and> kern_ok k' \<and>
      (stateContainer (tcbs k' ?t) = Some (Ready p) \<longleftrightarrow> unat n \<le> m)" for m
  proof -
    have n: "0 < unat n" using assms(6) by (simp add: word_less_nat_alt)
    have "\<exists>k'. ticks m ?k0 = Some k' \<and> kern_ok k' \<and> xTickCount k' = xTickCount ?k0 + of_nat m \<and>
      (stateContainer (tcbs k' ?t) = Some (Ready (uxPriority (tcbs ?k0 ?t))) \<longleftrightarrow> unat n \<le> m)"
      by (rule ticks_wake_on_time [OF ok0 sel0(1), where d = "if xTickCount k + n < xTickCount k
          then pxOverflowDelayedTaskList k else pxDelayedTaskList k"])
        (use B(4) n in \<open>simp_all add: sel0\<close>)
    then show ?thesis using B(4) prio by (auto simp: sel0)
  qed
  then show ?thesis using delay by blast
qed

lemma vTaskDelay_exact_witness:
  "\<exists>k0 k1 k2. vTaskDelay 2 two_tasks = Some k0 \<and> ticks 1 k0 = Some k1 \<and> ticks 2 k0 = Some k2 \<and>
     stateContainer (tcbs k1 2) \<noteq> Some (Ready 5) \<and> stateContainer (tcbs k2 2) = Some (Ready 5)"
proof -
  have "pxCurrentTCB two_tasks = 2" "stateContainer (tcbs two_tasks 2) = Some (Ready 5)"
    "uxSchedulerSuspended two_tasks = 0" "xPendingReadyList two_tasks = []" "uxPendedTicks two_tasks = 0"
    by (simp_all add: two_tasks_def state_eval Let_def)
  then obtain k0 where k0: "vTaskDelay 2 two_tasks = Some k0"
    "\<forall>m. \<exists>k'. ticks m k0 = Some k' \<and> kern_ok k' \<and>
      (stateContainer (tcbs k' 2) = Some (Ready 5) \<longleftrightarrow> unat (2 :: u32) \<le> m)"
    using vTaskDelay_exact [OF two_tasks_ok, of 5 2] by auto
  from k0(2) [rule_format, of 1] k0(2) [rule_format, of 2] k0(1) show ?thesis by auto
qed

text \<open>A time-out of \<open>w\<close> ticks (other than \<open>portMAX_DELAY\<close>) that was started \<open>m\<close> ticks ago,
  \<open>m\<close> less than a full turn of the counter, has expired exactly if \<open>w \<le> m\<close>, although both the
  tick counter and the overflow counter wrap; until then the remaining wait is \<open>w - m\<close> and the
  time-out restarts now.\<close>

theorem xTaskCheckForTimeOut_exact:
  assumes "m < 4294967296" and "w \<noteq> portMAX_DELAY"
    and "xTickCount k = xTickCount k0 + of_nat m"
    and "xNumOfOverflows k = xNumOfOverflows k0 + of_nat ((unat (xTickCount k0) + m) div 4294967296)"
  shows "xTaskCheckForTimeOut (vTaskSetTimeOutState k0) w k =
    (if unat w \<le> m then (True, vTaskSetTimeOutState k0, w)
     else (False, vTaskSetTimeOutState k, w - of_nat m))"
proof -
  let ?e = "xTickCount k0"
  have um: "unat (of_nat m :: u32) = m" by (rule unat_of_nat_u32 [OF assms(1)])
  have now: "unat (xTickCount k) = (unat ?e + m) mod 4294967296"
    by (simp add: assms(3) unat_word_ariths um)
  have diff: "xTickCount k - ?e = of_nat m" by (simp add: assms(3))
  have less: "(of_nat m :: u32) < w \<longleftrightarrow> \<not> unat w \<le> m" by (simp add: word_less_nat_alt um not_le)
  have first: "\<not> (xNumOfOverflows k \<noteq> xNumOfOverflows k0 \<and> ?e \<le> xTickCount k)"
  proof (cases "unat ?e + m < 4294967296")
    case True
    then show ?thesis by (simp add: assms(4))
  next
    case False
    have "unat ?e + m < 2 * 4294967296" using assms(1) unat_u32_lt [of ?e] by linarith
    then have "(unat ?e + m) mod 4294967296 = unat ?e + m - 4294967296"
      using False by (simp add: mod_if)
    then have "unat (xTickCount k) = unat ?e + m - 4294967296" using now by simp
    then have "unat (xTickCount k) < unat ?e" using False assms(1) by arith
    then show ?thesis by (simp add: word_le_nat_alt)
  qed
  show ?thesis
    using assms(2) first less
    by (auto simp: xTaskCheckForTimeOut_def vTaskSetTimeOutState_def Let_def diff)
qed

lemma xTaskCheckForTimeOut_exact_witness:
  "xTaskCheckForTimeOut (vTaskSetTimeOutState (boot\<lparr>xTickCount := 0xFFFFFFFE\<rparr>)) 10
     (boot\<lparr>xTickCount := 5, xNumOfOverflows := 1\<rparr>) =
   (False, \<lparr>xOverflowCount = 1, xTimeOnEntering = 5\<rparr>, 3)"
  using xTaskCheckForTimeOut_exact [of 7 10 "boot\<lparr>xTickCount := 5, xNumOfOverflows := 1\<rparr>"
      "boot\<lparr>xTickCount := 0xFFFFFFFE\<rparr>"]
  by (simp add: boot_def portMAX_DELAY_def vTaskSetTimeOutState_def)

text \<open>What one notification from an interrupt does, in every state of its target.\<close>

lemma NotifyGiveFromISR_spec:
  assumes "kern_ok k" and "exists_task t k"
  shows "\<exists>w' k'. vTaskNotifyGiveFromISR t (Some w) k = (Some w', k') \<and> kern_ok k' \<and>
    ulNotifiedValue (tcbs k' t) = ulNotifiedValue (tcbs k t) + 1 \<and>
    ucNotifyState (tcbs k' t) = taskNOTIFICATION_RECEIVED \<and>
    (\<forall>u. u \<noteq> t \<longrightarrow> tcbs k' u = tcbs k u) \<and>
    (ucNotifyState (tcbs k t) = taskWAITING_NOTIFICATION \<longrightarrow>
      (if uxSchedulerSuspended k = 0 then stateContainer (tcbs k' t) = Some (Ready (uxPriority (tcbs k t)))
       else xPendingReadyList k' = xPendingReadyList k @ [t]) \<and>
      (w' \<longleftrightarrow> w \<or> uxPriority (tcbs k (pxCurrentTCB k)) < uxPriority (tcbs k t))) \<and>
    (ucNotifyState (tcbs k t) \<noteq> taskWAITING_NOTIFICATION \<longrightarrow> w' = w \<and>
      stateContainer (tcbs k' t) = stateContainer (tcbs k t))"
proof -
  let ?r = "vTaskNotifyGiveFromISR t (Some w) k"
  define k1 where "k1 = upd_tcb t (\<lambda>b. b\<lparr>ucNotifyState := taskNOTIFICATION_RECEIVED,
     ulNotifiedValue := ulNotifiedValue b + 1\<rparr>) k"
  have k1: "tcbs k1 u = (if u = t then (tcbs k t)\<lparr>ucNotifyState := taskNOTIFICATION_RECEIVED,
       ulNotifiedValue := ulNotifiedValue (tcbs k t) + 1\<rparr> else tcbs k u)"
    "uxSchedulerSuspended k1 = uxSchedulerSuspended k" "pxCurrentTCB k1 = pxCurrentTCB k"
    "xPendingReadyList k1 = xPendingReadyList k" for u
    by (simp_all add: k1_def)
  have r: "?r = (if ucNotifyState (tcbs k t) = taskWAITING_NOTIFICATION
      then notify_unblock_from_isr t (Some w) k1 else (Some w, k1))"
    by (simp add: vTaskNotifyGiveFromISR_def Let_def k1_def)
  define k2 where "k2 = (if uxSchedulerSuspended k = 0 then wake t k1 else pending_insert_end t k1)"
  have k2: "uxPriority (tcbs k2 u) = uxPriority (tcbs k u)" "pxCurrentTCB k2 = pxCurrentTCB k" for u
    by (simp_all add: k2_def k1)
  have n: "notify_unblock_from_isr t (Some w) k1 =
      (Some (w \<or> uxPriority (tcbs k (pxCurrentTCB k)) < uxPriority (tcbs k t)), k2)"
    unfolding notify_unblock_from_isr_def Let_def k1(2) k2_def [symmetric] by (simp add: k2)
  have ok: "kern_ok (snd ?r)" by (rule kern_NotifyGiveFromISR [OF assms])
  show ?thesis
  proof (cases "ucNotifyState (tcbs k t) = taskWAITING_NOTIFICATION")
    case True
    have "xPendingReadyList (pending_insert_end t k1) = xPendingReadyList k @ [t]"
      by (simp add: pending_insert_end_def k1)
    then show ?thesis using True r n ok by (auto simp: k2_def k1)
  next
    case False
    then show ?thesis using r ok by (auto simp: k1)
  qed
qed

text \<open>A notification from an interrupt is never lost: the value goes up by one and the
  state becomes received, whatever the target was doing; a target that waits for a notification is
  ready at once, at its own priority, when the scheduler runs, and in the pending ready list when
  it is suspended; the caller is told to switch exactly if the target's priority is higher.\<close>

theorem notify_give_wakes:
  assumes "kern_ok k" and "exists_task t k"
  shows "\<exists>w' k'. vTaskNotifyGiveFromISR t (Some w) k = (Some w', k') \<and> kern_ok k' \<and>
    ulNotifiedValue (tcbs k' t) = ulNotifiedValue (tcbs k t) + 1 \<and>
    ucNotifyState (tcbs k' t) = taskNOTIFICATION_RECEIVED \<and>
    (\<forall>u. u \<noteq> t \<longrightarrow> tcbs k' u = tcbs k u) \<and>
    (ucNotifyState (tcbs k t) = taskWAITING_NOTIFICATION \<longrightarrow>
      (if uxSchedulerSuspended k = 0 then stateContainer (tcbs k' t) = Some (Ready (uxPriority (tcbs k t)))
       else xPendingReadyList k' = xPendingReadyList k @ [t]) \<and>
      (w' \<longleftrightarrow> w \<or> uxPriority (tcbs k (pxCurrentTCB k)) < uxPriority (tcbs k t))) \<and>
    (ucNotifyState (tcbs k t) \<noteq> taskWAITING_NOTIFICATION \<longrightarrow> w' = w \<and>
      stateContainer (tcbs k' t) = stateContainer (tcbs k t))"
  using assms by (rule NotifyGiveFromISR_spec)

lemma notify_give_wakes_witness:
  "\<exists>w' k'. vTaskNotifyGiveFromISR 1 (Some False) two_tasks = (Some w', k') \<and> kern_ok k' \<and>
     ulNotifiedValue (tcbs k' 1) = 1"
proof -
  have "exists_task 1 two_tasks" "ulNotifiedValue (tcbs two_tasks 1) = 0"
    by (simp_all add: exists_task_def two_tasks_def state_eval Let_def)
  then show ?thesis using notify_give_wakes [OF two_tasks_ok, where t = 1 and w = False] by fastforce
qed

end
