(* ===== verification/InputExti.thy ===== *)
theory InputExti
  imports Gpio RtosKernel
begin

unbundle bit_operations_syntax

text \<open>
  The two inputs of the module: polling (User/input/input.c), the set-up of their external
  interrupts (User/input/input_exti.c), and the path of an edge from the pin through
  EXTI, the interrupt handlers of User/stm32f4xx_it.c and \<open>HAL_GPIO_EXTI_IRQHandler\<close> to the
  notification of the sending task. The interrupt controller is a record of its priority and
  enable registers.
\<close>

section \<open>Polling\<close>

definition INPUT1_GPIO_PORT :: gpio_port where "INPUT1_GPIO_PORT = GPIOA"
definition INPUT1_PIN :: u16 where "INPUT1_PIN = GPIO_PIN 0"
definition INPUT2_GPIO_PORT :: gpio_port where "INPUT2_GPIO_PORT = GPIOC"
definition INPUT2_PIN :: u16 where "INPUT2_PIN = GPIO_PIN 13"

lemmas input_pins = INPUT1_GPIO_PORT_def INPUT1_PIN_def INPUT2_GPIO_PORT_def INPUT2_PIN_def

text \<open>\<open>Alternate\<close> of the structure is never assigned: it is the parameter \<open>junk\<close>.\<close>

definition Input_GPIO_Config :: "u32 \<Rightarrow> hw \<Rightarrow> hw" where
  "Input_GPIO_Config junk h =
    (let h = HAL_RCC_GPIO_CLK_ENABLE GPIOC (HAL_RCC_GPIO_CLK_ENABLE GPIOA h);
         i = \<lparr>Pin = ucast INPUT1_PIN, Mode = GPIO_MODE_INPUT, Pull = GPIO_NOPULL,
              Speed = GPIO_SPEED_FREQ_VERY_HIGH, Alternate = junk\<rparr>;
         h = HAL_GPIO_Init INPUT1_GPIO_PORT i h;
         i = i\<lparr>Pin := ucast INPUT2_PIN\<rparr>
     in HAL_GPIO_Init INPUT2_GPIO_PORT i h)"

definition Input_Scan :: "hw \<Rightarrow> u8" where
  "Input_Scan h =
    (if HAL_GPIO_ReadPin h INPUT1_GPIO_PORT INPUT1_PIN \<noteq> GPIO_PIN_RESET
     then (if HAL_GPIO_ReadPin h INPUT2_GPIO_PORT INPUT2_PIN \<noteq> GPIO_PIN_RESET then 11 else 10)
     else if HAL_GPIO_ReadPin h INPUT2_GPIO_PORT INPUT2_PIN \<noteq> GPIO_PIN_RESET then 1 else 0)"

section \<open>The interrupt controller\<close>

datatype IRQn = EXTI0_IRQn | USART1_IRQn | EXTI15_10_IRQn | ETH_IRQn | DMA2_Stream5_IRQn

record nvic =
  PRIGROUP :: u32
  IP :: "IRQn \<Rightarrow> u8"
  ISER :: "IRQn \<Rightarrow> bool"

definition NVIC_PRIO_BITS :: nat where
  "NVIC_PRIO_BITS = 4"

definition NVIC_EncodePriority :: "u32 \<Rightarrow> u32 \<Rightarrow> u32 \<Rightarrow> u32" where
  "NVIC_EncodePriority PriorityGroup PreemptPriority SubPriority =
    (let g = unat (PriorityGroup AND 7);
         pre = (if NVIC_PRIO_BITS < 7 - g then NVIC_PRIO_BITS else 7 - g);
         sub = (if g + NVIC_PRIO_BITS < 7 then 0 else g + NVIC_PRIO_BITS - 7)
     in push_bit sub (PreemptPriority AND (push_bit pre 1 - 1)) OR
        (SubPriority AND (push_bit sub 1 - 1)))"

definition HAL_NVIC_SetPriority :: "IRQn \<Rightarrow> u32 \<Rightarrow> u32 \<Rightarrow> nvic \<Rightarrow> nvic" where
  "HAL_NVIC_SetPriority irq pre sub n =
     n\<lparr>IP := (IP n)(irq := ucast (push_bit (8 - NVIC_PRIO_BITS)
        (NVIC_EncodePriority (PRIGROUP n) pre sub)))\<rparr>"

definition HAL_NVIC_EnableIRQ :: "IRQn \<Rightarrow> nvic \<Rightarrow> nvic" where
  "HAL_NVIC_EnableIRQ irq n = n\<lparr>ISER := (ISER n)(irq := True)\<rparr>"

section \<open>Setting up the input interrupts\<close>

text \<open>Only \<open>Pin\<close> and \<open>Mode\<close> of the structure are assigned; the other members are what the
  stack held, the parameter \<open>junk\<close>.\<close>

definition INPUT_EXTI_Init :: "GPIO_InitTypeDef \<Rightarrow> hw \<times> nvic \<Rightarrow> hw \<times> nvic" where
  "INPUT_EXTI_Init junk = (\<lambda>(h, n).
    let i = junk\<lparr>Pin := ucast (GPIO_PIN 0), Mode := GPIO_MODE_IT_RISING_FALLING\<rparr>;
        h = HAL_GPIO_Init GPIOA i h;
        i = i\<lparr>Pin := ucast (GPIO_PIN 13)\<rparr>;
        h = HAL_GPIO_Init GPIOC i h;
        n = HAL_NVIC_EnableIRQ EXTI0_IRQn (HAL_NVIC_SetPriority EXTI0_IRQn 10 0 n);
        n = HAL_NVIC_EnableIRQ EXTI15_10_IRQn (HAL_NVIC_SetPriority EXTI15_10_IRQn 10 0 n)
    in (h, n))"

section \<open>From the edge to the task\<close>

text \<open>What EXTI does on an edge of line \<open>n\<close>, and whether it then asks for an interrupt.\<close>

definition exti_edge :: "nat \<Rightarrow> bool \<Rightarrow> hw \<Rightarrow> hw" where
  "exti_edge n rising h =
    (if (if rising then bit (RTSR h) n else bit (FTSR h) n)
     then h\<lparr>PR := PR h OR push_bit n 1\<rparr> else h)"

definition exti_request :: "nat \<Rightarrow> hw \<Rightarrow> bool" where
  "exti_request n h \<longleftrightarrow> bit (PR h) n \<and> bit (IMR h) n"

text \<open>A write to the pending register clears the bits written as one.\<close>

definition HAL_GPIO_EXTI_CLEAR_IT :: "u16 \<Rightarrow> hw \<Rightarrow> hw" where
  "HAL_GPIO_EXTI_CLEAR_IT pin h = h\<lparr>PR := PR h AND NOT (ucast pin)\<rparr>"

definition portYIELD_FROM_ISR :: "bool \<Rightarrow> kern \<Rightarrow> kern" where
  "portYIELD_FROM_ISR x k = (if x then portYIELD k else k)"

text \<open>\<open>xHigherPriorityTaskWoken\<close> is not initialised: \<open>junk\<close> is whether it holds non-zero.\<close>

definition HAL_GPIO_EXTI_Callback :: "nat \<Rightarrow> bool \<Rightarrow> u16 \<Rightarrow> kern \<Rightarrow> kern" where
  "HAL_GPIO_EXTI_Callback Ethsend_Task_Handle junk pin k =
    (if pin = INPUT1_PIN then
       (let (w, k) = vTaskNotifyGiveFromISR Ethsend_Task_Handle (Some junk) k
        in portYIELD_FROM_ISR (w = Some True) k)
     else if pin = INPUT2_PIN then
       (let (w, k) = vTaskNotifyGiveFromISR Ethsend_Task_Handle (Some junk) k
        in portYIELD_FROM_ISR (w = Some True) k)
     else k)"

definition HAL_GPIO_EXTI_IRQHandler :: "nat \<Rightarrow> bool \<Rightarrow> u16 \<Rightarrow> hw \<times> kern \<Rightarrow> hw \<times> kern" where
  "HAL_GPIO_EXTI_IRQHandler handle junk pin = (\<lambda>(h, k).
     if PR h AND ucast pin \<noteq> 0
     then (HAL_GPIO_EXTI_CLEAR_IT pin h, HAL_GPIO_EXTI_Callback handle junk pin k)
     else (h, k))"

definition INPUT1_IRQHandler :: "nat \<Rightarrow> bool \<Rightarrow> hw \<times> kern \<Rightarrow> hw \<times> kern" where
  "INPUT1_IRQHandler handle junk = HAL_GPIO_EXTI_IRQHandler handle junk INPUT1_PIN"

definition INPUT2_IRQHandler :: "nat \<Rightarrow> bool \<Rightarrow> hw \<times> kern \<Rightarrow> hw \<times> kern" where
  "INPUT2_IRQHandler handle junk = HAL_GPIO_EXTI_IRQHandler handle junk INPUT2_PIN"

section \<open>Lemmas\<close>

lemma exti_mode_bits:
  "GPIO_MODE_IT_RISING_FALLING AND EXTI_MODE = EXTI_MODE"
  "GPIO_MODE_IT_RISING_FALLING AND GPIO_MODE_IT = GPIO_MODE_IT"
  "GPIO_MODE_IT_RISING_FALLING AND RISING_EDGE = RISING_EDGE"
  "GPIO_MODE_IT_RISING_FALLING AND FALLING_EDGE = FALLING_EDGE"
  by (simp_all add: GPIO_MODE_IT_RISING_FALLING_def EXTI_MODE_def GPIO_MODE_IT_def RISING_EDGE_def
      FALLING_EDGE_def)

text \<open>The source of an EXTI line is a four-bit field of the selector registers.\<close>

lemma field15_rmw_same:
  "s + 4 \<le> 32 \<Longrightarrow> v AND 15 = v \<Longrightarrow> field 15 s (rmw 15 s v r) = v"
  by (rule field_rmw_same [OF bit_mask15])

lemma field15_rmw_other:
  "v AND 15 = v \<Longrightarrow> s' + 4 \<le> s \<or> s + 4 \<le> s' \<Longrightarrow> s' + 4 \<le> 32 \<Longrightarrow>
   field 15 s' (rmw 15 s v r) = field 15 s' r"
  by (rule field_rmw_other [OF bit_mask15])

lemma GPIO_GET_INDEX_fits: "GPIO_GET_INDEX p AND 15 = GPIO_GET_INDEX p"
  by (cases p) simp_all

lemma HAL_GPIO_Init_EXTICR:
  assumes k: "k < 16"
  shows "field 15 (4 * (k mod 4)) (EXTICR (HAL_GPIO_Init p i h) (k div 4)) =
    (if Mode i AND EXTI_MODE = EXTI_MODE \<and> bit (Pin i) k then GPIO_GET_INDEX p
     else field 15 (4 * (k mod 4)) (EXTICR h (k div 4)))"
proof -
  let ?obs = "\<lambda>h. field 15 (4 * (k mod 4)) (EXTICR h (k div 4))"
  have m: "4 * (n mod 4) + 4 \<le> 32" for n :: nat
  proof -
    have "n mod 4 < 4" by simp
    then show ?thesis by simp
  qed
  have pos: "?obs (HAL_GPIO_Init_pos p i j s) =
      (if Mode i AND EXTI_MODE = EXTI_MODE \<and> bit (Pin i) j \<and> j = k then GPIO_GET_INDEX p else ?obs s)"
    if j: "j < 16" for j s
  proof (cases "Mode i AND EXTI_MODE = EXTI_MODE \<and> bit (Pin i) j")
    case True
    have e: "EXTICR (HAL_GPIO_Init_pos p i j s) (k div 4) =
        (if k div 4 = j div 4 then rmw 0xF (4 * (j mod 4)) (GPIO_GET_INDEX p) (EXTICR s (k div 4))
         else EXTICR s (k div 4))"
      using True j by (auto simp: HAL_GPIO_Init_pos_def Let_def pin_selected init_exti_pin_def)
    show ?thesis
    proof (cases "j = k")
      case True
      then show ?thesis using e \<open>Mode i AND EXTI_MODE = EXTI_MODE \<and> bit (Pin i) j\<close>
        by (simp add: field15_rmw_same [OF m GPIO_GET_INDEX_fits])
    next
      case False
      have "4 * (k mod 4) + 4 \<le> 4 * (j mod 4) \<or> 4 * (j mod 4) + 4 \<le> 4 * (k mod 4)"
        if "k div 4 = j div 4"
      proof -
        have "k mod 4 \<noteq> j mod 4" using that False by (metis div_mult_mod_eq)
        then show ?thesis by linarith
      qed
      then show ?thesis using False e
        by (auto simp: field15_rmw_other [OF GPIO_GET_INDEX_fits _ m])
    qed
  next
    case False
    then have "EXTICR (HAL_GPIO_Init_pos p i j s) = EXTICR s"
      using j by (auto simp: HAL_GPIO_Init_pos_def Let_def pin_selected init_exti_pin_def)
    then show ?thesis using False by auto
  qed
  show ?thesis
    unfolding HAL_GPIO_Init_def
    using fold_observe [of "[0..<16]" k ?obs "HAL_GPIO_Init_pos p i"
        "\<lambda>x. if Mode i AND EXTI_MODE = EXTI_MODE \<and> bit (Pin i) k then GPIO_GET_INDEX p else x" h] pos k
    by simp
qed

section \<open>Properties\<close>

lemma Init_mode_irrelevant:
  "EXTICR (HAL_RCC_GPIO_CLK_ENABLE p h) = EXTICR h" by (simp add: HAL_RCC_GPIO_CLK_ENABLE_def)

lemma bit_edge:
  "k < 32 \<Longrightarrow> bit (RTSR h) k \<Longrightarrow> bit (FTSR h) k \<Longrightarrow> bit (IMR h) k \<Longrightarrow> exti_request k (exti_edge k r h)"
  by (simp add: exti_request_def exti_edge_def bit_or_iff bit_exp_iff)

text \<open>After \<open>INPUT_EXTI_Init\<close>, whatever the uninitialised members of its structure held, both
  edges of PA0 and of PC13 ask for their interrupt, the two lines are connected to those ports,
  both interrupts are enabled, and with four bits of pre-emption priority their priority byte is
  0xA0, numerically above \<open>configMAX_SYSCALL_INTERRUPT_PRIORITY\<close> = 0x50, so the handlers may call
  the kernel; no other line is connected or unmasked.\<close>

theorem INPUT_EXTI_Init_arms:
  assumes "PRIGROUP n = 3" and "INPUT_EXTI_Init junk (h, n) = (h', n')"
  shows "(\<forall>r. exti_request 0 (exti_edge 0 r h') \<and> exti_request 13 (exti_edge 13 r h')) \<and>
    field 15 0 (EXTICR h' 0) = GPIO_GET_INDEX INPUT1_GPIO_PORT \<and>
    field 15 4 (EXTICR h' 3) = GPIO_GET_INDEX INPUT2_GPIO_PORT \<and>
    (\<forall>k < 16. k \<noteq> 0 \<longrightarrow> k \<noteq> 13 \<longrightarrow> bit (IMR h') k = bit (IMR h) k \<and>
      field 15 (4 * (k mod 4)) (EXTICR h' (k div 4)) = field 15 (4 * (k mod 4)) (EXTICR h (k div 4))) \<and>
    ISER n' EXTI0_IRQn \<and> ISER n' EXTI15_10_IRQn \<and>
    IP n' EXTI0_IRQn = 0xA0 \<and> IP n' EXTI15_10_IRQn = 0xA0"
proof -
  define i0 where "i0 = junk\<lparr>Pin := ucast (GPIO_PIN 0), Mode := GPIO_MODE_IT_RISING_FALLING\<rparr>"
  define i13 where "i13 = i0\<lparr>Pin := ucast (GPIO_PIN 13)\<rparr>"
  have h': "h' = HAL_GPIO_Init GPIOC i13 (HAL_GPIO_Init GPIOA i0 h)"
    using assms(2) by (simp add: INPUT_EXTI_Init_def Let_def i0_def i13_def)
  have n': "n' = HAL_NVIC_EnableIRQ EXTI15_10_IRQn (HAL_NVIC_SetPriority EXTI15_10_IRQn 10 0
      (HAL_NVIC_EnableIRQ EXTI0_IRQn (HAL_NVIC_SetPriority EXTI0_IRQn 10 0 n)))"
    using assms(2) by (simp add: INPUT_EXTI_Init_def Let_def)
  have m: "Mode i0 = GPIO_MODE_IT_RISING_FALLING" "Mode i13 = GPIO_MODE_IT_RISING_FALLING"
    "\<And>k. bit (Pin i0) k \<longleftrightarrow> k = 0" "\<And>k. bit (Pin i13) k \<longleftrightarrow> k = 13"
    by (simp_all add: i0_def i13_def bit_pin_u32)
  have imr: "bit (IMR h') k \<longleftrightarrow> k = 0 \<or> k = 13 \<or> bit (IMR h) k" if "k < 16" for k
    using that by (auto simp: h' HAL_GPIO_Init_IMR m exti_mode_bits)
  have edge: "bit (RTSR h') k \<longleftrightarrow> k = 0 \<or> k = 13 \<or> bit (RTSR h) k"
    "bit (FTSR h') k \<longleftrightarrow> k = 0 \<or> k = 13 \<or> bit (FTSR h) k" if "k < 16" for k
    using that by (auto simp: h' HAL_GPIO_Init_RTSR HAL_GPIO_Init_FTSR m exti_mode_bits)
  have src: "field 15 (4 * (k mod 4)) (EXTICR h' (k div 4)) =
      (if k = 13 then 2 else if k = 0 then 0 else field 15 (4 * (k mod 4)) (EXTICR h (k div 4)))"
    if "k < 16" for k
    using that by (simp add: h' HAL_GPIO_Init_EXTICR m exti_mode_bits)
  have "\<forall>r. exti_request 0 (exti_edge 0 r h') \<and> exti_request 13 (exti_edge 13 r h')"
    by (intro allI conjI bit_edge) (simp_all add: imr edge)
  moreover have "IP n' EXTI0_IRQn = 0xA0" "IP n' EXTI15_10_IRQn = 0xA0"
    using assms(1) by (simp_all add: n' HAL_NVIC_SetPriority_def HAL_NVIC_EnableIRQ_def
        NVIC_EncodePriority_def NVIC_PRIO_BITS_def push_bit_eq_mult)
  moreover have "ISER n' EXTI0_IRQn" "ISER n' EXTI15_10_IRQn"
    by (simp_all add: n' HAL_NVIC_EnableIRQ_def HAL_NVIC_SetPriority_def)
  ultimately show ?thesis using src [of 0] src [of 13] src imr by (simp add: input_pins)
qed

lemma INPUT_EXTI_Init_arms_witness:
  "exti_request 13 (exti_edge 13 True (fst (INPUT_EXTI_Init \<lparr>Pin = 7, Mode = 7, Pull = 7, Speed = 7, Alternate = 7\<rparr>
     (hw_default, \<lparr>PRIGROUP = 3, IP = (\<lambda>_. 0), ISER = (\<lambda>_. False)\<rparr>))))"
  using INPUT_EXTI_Init_arms [of "\<lparr>PRIGROUP = 3, IP = (\<lambda>_. 0), ISER = (\<lambda>_. False)\<rparr>"
      "\<lparr>Pin = 7, Mode = 7, Pull = 7, Speed = 7, Alternate = 7\<rparr>" hw_default]
  by (metis nvic.select_convs(1) prod.collapse)

text \<open>C29: One edge, one notification: when the pending bit of an input's line is set, its handler
  clears that bit and no other, adds exactly one to the notification value of the sending task,
  keeps the invariant of the kernel, and makes the task ready if it waits for a notification (and
  the scheduler runs); run again, it does nothing.\<close>

theorem input_edge_notifies:
  assumes "kern_ok k" "exists_task t k" and "pin = INPUT1_PIN \<or> pin = INPUT2_PIN"
    and "PR h AND ucast pin \<noteq> 0"
  shows "\<exists>h' k'. HAL_GPIO_EXTI_IRQHandler t junk pin (h, k) = (h', k') \<and> kern_ok k' \<and>
    HAL_GPIO_EXTI_IRQHandler t junk pin (h', k') = (h', k') \<and>
    (\<forall>b < 32. bit (PR h') b \<longleftrightarrow> bit (PR h) b \<and> \<not> bit (ucast pin :: u32) b) \<and>
    ulNotifiedValue (tcbs k' t) = ulNotifiedValue (tcbs k t) + 1 \<and>
    (\<forall>u. u \<noteq> t \<longrightarrow> tcbs k' u = tcbs k u) \<and>
    (ucNotifyState (tcbs k t) = taskWAITING_NOTIFICATION \<and> uxSchedulerSuspended k = 0 \<longrightarrow>
      stateContainer (tcbs k' t) = Some (Ready (uxPriority (tcbs k t))))"
proof -
  obtain w' k1 where g: "vTaskNotifyGiveFromISR t (Some junk) k = (Some w', k1)" "kern_ok k1"
    "ulNotifiedValue (tcbs k1 t) = ulNotifiedValue (tcbs k t) + 1"
    "\<forall>u. u \<noteq> t \<longrightarrow> tcbs k1 u = tcbs k u"
    "ucNotifyState (tcbs k t) = taskWAITING_NOTIFICATION \<and> uxSchedulerSuspended k = 0 \<longrightarrow>
      stateContainer (tcbs k1 t) = Some (Ready (uxPriority (tcbs k t)))"
    using NotifyGiveFromISR_spec [OF assms(1,2), of junk] by metis
  let ?k = "portYIELD_FROM_ISR (w' = True) k1" and ?h = "HAL_GPIO_EXTI_CLEAR_IT pin h"
  have cb: "HAL_GPIO_EXTI_Callback t junk pin k = ?k"
    using assms(3) g(1) by (auto simp: HAL_GPIO_EXTI_Callback_def)
  have y: "tcbs ?k = tcbs k1" "kern_ok ?k"
    using g(2) by (simp_all add: portYIELD_FROM_ISR_def portYIELD_def)
  have pr: "PR ?h AND ucast pin = 0"
    by (simp add: HAL_GPIO_EXTI_CLEAR_IT_def and.assoc)
  have "HAL_GPIO_EXTI_IRQHandler t junk pin (h, k) = (?h, ?k)"
    using assms(4) cb by (simp add: HAL_GPIO_EXTI_IRQHandler_def)
  moreover have "HAL_GPIO_EXTI_IRQHandler t junk pin (?h, ?k) = (?h, ?k)"
    using pr by (simp add: HAL_GPIO_EXTI_IRQHandler_def)
  moreover have "\<forall>b < 32. bit (PR ?h) b \<longleftrightarrow> bit (PR h) b \<and> \<not> bit (ucast pin :: u32) b"
    by (auto simp: HAL_GPIO_EXTI_CLEAR_IT_def bit_and_iff bit_not_iff)
  ultimately show ?thesis using g(3-5) y by auto
qed

lemma input_edge_notifies_witness:
  "\<exists>h' k'. HAL_GPIO_EXTI_IRQHandler 1 False INPUT1_PIN (hw_default\<lparr>PR := 1\<rparr>, two_tasks) = (h', k') \<and>
     ulNotifiedValue (tcbs k' 1) = 1"
proof -
  have "exists_task 1 two_tasks" "ulNotifiedValue (tcbs two_tasks 1) = 0"
    by (simp_all add: exists_task_def two_tasks_def state_eval Let_def)
  then show ?thesis
    using input_edge_notifies [OF two_tasks_ok, of 1 INPUT1_PIN "hw_default\<lparr>PR := 1\<rparr>" False]
    by (fastforce simp: INPUT1_PIN_def GPIO_PIN_def)
qed

text \<open>\<open>Input_Scan\<close> reports the two inputs as two decimal digits, the first input the tens.\<close>

theorem Input_Scan_digits:
  "unat (Input_Scan h) = 10 * of_bool (bit (IDR (gpio h GPIOA)) 0) + of_bool (bit (IDR (gpio h GPIOC)) 13)"
proof -
  have r: "HAL_GPIO_ReadPin h p (GPIO_PIN k) = GPIO_PIN_RESET \<longleftrightarrow> \<not> bit (IDR (gpio h p)) k"
    if "k < 16" for k p
  proof -
    have "IDR (gpio h p) AND ucast (GPIO_PIN k) = 0 \<longleftrightarrow> \<not> bit (IDR (gpio h p)) k"
    proof -
      have "IDR (gpio h p) AND ucast (GPIO_PIN k) = 0 \<longleftrightarrow>
          (\<forall>n. \<not> (bit (IDR (gpio h p)) n \<and> n = k))"
        unfolding bit_eq_iff [of "IDR (gpio h p) AND ucast (GPIO_PIN k)"]
        using that by (simp add: bit_and_iff bit_pin_u32) (metis less_trans numeral_less_iff semiring_norm(76) semiring_norm(78))
      then show ?thesis by auto
    qed
    then show ?thesis by (simp add: HAL_GPIO_ReadPin_def)
  qed
  show ?thesis by (simp add: Input_Scan_def input_pins r)
qed

end
