(* ===== verification/LwipDef.thy ===== *)
theory LwipDef
  imports CLib
begin

unbundle bit_operations_syntax

text \<open>
  The portable helpers of LwIP (LwIP/core/def.c and include/lwip/def.h): byte order on this
  little-endian machine, and the text functions \<open>lwip_strnstr\<close>, \<open>lwip_stricmp\<close>,
  \<open>lwip_strnicmp\<close> and \<open>lwip_itoa\<close>. A pointer into a text is the text from there on; reading
  past the end of a text is undefined and gives \<open>None\<close>.
\<close>

section \<open>Byte order\<close>

definition PP_HTONS :: "u16 \<Rightarrow> u16" where
  "PP_HTONS x = push_bit 8 (x AND 0x00ff) OR drop_bit 8 (x AND 0xff00)"

definition PP_HTONL :: "u32 \<Rightarrow> u32" where
  "PP_HTONL x = push_bit 24 (x AND 0x000000ff) OR push_bit 8 (x AND 0x0000ff00) OR
     drop_bit 8 (x AND 0x00ff0000) OR drop_bit 24 (x AND 0xff000000)"

definition lwip_htons :: "u16 \<Rightarrow> u16" where
  "lwip_htons n = PP_HTONS n"

definition lwip_htonl :: "u32 \<Rightarrow> u32" where
  "lwip_htonl n = PP_HTONL n"

definition LWIP_MAKEU32 :: "u32 \<Rightarrow> u32 \<Rightarrow> u32 \<Rightarrow> u32 \<Rightarrow> u32" where
  "LWIP_MAKEU32 a b c d = push_bit 24 (a AND 0xff) OR push_bit 16 (b AND 0xff) OR
     push_bit 8 (c AND 0xff) OR (d AND 0xff)"

lemma bit_mask8_u16: "bit (0xff :: u16) n \<longleftrightarrow> n < 8"
proof -
  have "(0xff :: u16) = mask 8" by (simp add: mask_eq_exp_minus_1)
  then show ?thesis by (simp only: bit_mask_iff) auto
qed

lemma bit_mask8_u32: "bit (0xff :: u32) n \<longleftrightarrow> n < 8"
proof -
  have "(0xff :: u32) = mask 8" by (simp add: mask_eq_exp_minus_1)
  then show ?thesis by (simp only: bit_mask_iff) auto
qed

lemma bit_shifted_masks:
  "bit (0xff00 :: u16) n \<longleftrightarrow> 8 \<le> n \<and> n < 16"
  "bit (0xff00 :: u32) n \<longleftrightarrow> 8 \<le> n \<and> n < 16"
  "bit (0xff0000 :: u32) n \<longleftrightarrow> 16 \<le> n \<and> n < 24"
  "bit (0xff000000 :: u32) n \<longleftrightarrow> 24 \<le> n \<and> n < 32"
proof -
  have e: "(0xff00 :: u16) = push_bit 8 0xff" "(0xff00 :: u32) = push_bit 8 0xff"
    "(0xff0000 :: u32) = push_bit 16 0xff" "(0xff000000 :: u32) = push_bit 24 0xff"
    by (simp_all add: push_bit_eq_mult)
  show "bit (0xff00 :: u16) n \<longleftrightarrow> 8 \<le> n \<and> n < 16" "bit (0xff00 :: u32) n \<longleftrightarrow> 8 \<le> n \<and> n < 16"
    "bit (0xff0000 :: u32) n \<longleftrightarrow> 16 \<le> n \<and> n < 24" "bit (0xff000000 :: u32) n \<longleftrightarrow> 24 \<le> n \<and> n < 32"
    unfolding e bit_push_bit_iff bit_mask8_u16 bit_mask8_u32 by auto
qed

lemmas byte_bits = bit_or_iff bit_and_iff bit_push_bit_iff bit_drop_bit_eq o_apply bit_mask8_u16
  bit_mask8_u32 bit_shifted_masks

lemma bit_PP_HTONS: "n < 16 \<Longrightarrow> bit (PP_HTONS x) n = bit x (if n < 8 then n + 8 else n - 8)"
  unfolding PP_HTONS_def byte_bits by (auto simp: add.commute)

lemma bit_PP_HTONL:
  "n < 32 \<Longrightarrow> bit (PP_HTONL x) n = bit x (if n < 8 then n + 24 else if n < 16 then n + 8
     else if n < 24 then n - 8 else n - 24)"
  unfolding PP_HTONL_def byte_bits by (auto simp: add.commute dest: bit_imp_le_length)

text \<open>Changing the byte order twice gives the number back.\<close>

lemma lwip_htons_twice: "lwip_htons (lwip_htons x) = x"
  unfolding lwip_htons_def by (rule bit_word_eqI) (auto simp: bit_PP_HTONS)

lemma lwip_htonl_twice: "lwip_htonl (lwip_htonl x) = x"
  unfolding lwip_htonl_def by (rule bit_word_eqI) (auto simp: bit_PP_HTONL)

text \<open>The bytes of an address made of four numbers: only the low byte of each counts.\<close>

lemma bit_LWIP_MAKEU32:
  "n < 32 \<Longrightarrow> bit (LWIP_MAKEU32 a b c d) n =
     (if n < 8 then bit d n else if n < 16 then bit c (n - 8)
      else if n < 24 then bit b (n - 16) else bit a (n - 24))"
  unfolding LWIP_MAKEU32_def byte_bits by auto

section \<open>Comparing texts\<close>

text \<open>\<open>c | 0x20\<close> on a character.\<close>

definition upc :: "char \<Rightarrow> nat" where
  "upc c = of_char c OR 0x20"

definition chars_differ :: "char \<Rightarrow> char \<Rightarrow> bool" where
  "chars_differ c1 c2 \<longleftrightarrow> c1 \<noteq> c2 \<and> \<not> (97 \<le> upc c1 \<and> upc c1 \<le> 122 \<and> upc c1 = upc c2)"

fun lwip_stricmp :: "string \<Rightarrow> string \<Rightarrow> int option" where
  "lwip_stricmp (c1 # s1) (c2 # s2) =
     (if chars_differ c1 c2 then Some 1 else if c1 = NUL then Some 0 else lwip_stricmp s1 s2)"
| "lwip_stricmp _ _ = None"

fun lwip_strnicmp :: "string \<Rightarrow> string \<Rightarrow> u32 \<Rightarrow> int option" where
  "lwip_strnicmp (c1 # s1) (c2 # s2) len =
     (if chars_differ c1 c2 then Some 1
      else if len - 1 \<noteq> 0 \<and> c1 \<noteq> NUL then lwip_strnicmp s1 s2 (len - 1) else Some 0)"
| "lwip_strnicmp _ _ _ = None"

definition lower :: "char \<Rightarrow> char" where
  "lower c = (if 65 \<le> (of_char c :: nat) \<and> (of_char c :: nat) \<le> 90 then char_of (of_char c + 32 :: nat) else c)"

lemma of_char_lt: "(of_char c :: nat) < 256"
  using of_char_mod_256 [of c, where ?'a = nat] by (metis mod_less_divisor zero_less_numeral)

lemma of_char_lower:
  "(of_char (lower c) :: nat) =
    (if 65 \<le> (of_char c :: nat) \<and> (of_char c :: nat) \<le> 90 then of_char c + 32 else of_char c)"
  by (simp add: lower_def)

lemma upc_value:
  "upc c = (of_char c :: nat) + (if even ((of_char c :: nat) div 32) then 32 else 0)"
proof -
  have "upc c = set_bit 5 (of_char c)" by (simp add: upc_def set_bit_eq_or)
  then show ?thesis by (simp add: set_bit_eq bit_iff_odd)
qed

lemma div32_cases:
  fixes n :: nat
  shows "n < 32 \<and> n div 32 = 0 \<or> 32 \<le> n \<and> n < 64 \<and> n div 32 = 1 \<or> 64 \<le> n \<and> n < 96 \<and> n div 32 = 2 \<or>
    96 \<le> n \<and> n < 128 \<and> n div 32 = 3 \<or> 128 \<le> n"
  by linarith

lemma letter_range:
  fixes n :: nat
  shows "97 \<le> n + (if even (n div 32) then 32 else 0) \<and> n + (if even (n div 32) then 32 else 0) \<le> 122
      \<longleftrightarrow> 65 \<le> n \<and> n \<le> 90 \<or> 97 \<le> n \<and> n \<le> 122"
    and "65 \<le> n \<Longrightarrow> n \<le> 90 \<Longrightarrow> even (n div 32)" and "97 \<le> n \<Longrightarrow> n \<le> 122 \<Longrightarrow> odd (n div 32)"
  using div32_cases [of n] by auto

lemma chars_differ_iff: "chars_differ c1 c2 \<longleftrightarrow> lower c1 \<noteq> lower c2"
proof -
  have e: "lower c1 = lower c2 \<longleftrightarrow> (of_char (lower c1) :: nat) = of_char (lower c2)"
    by (simp only: of_char_eq_iff)
  have f: "c1 = c2 \<longleftrightarrow> (of_char c1 :: nat) = of_char c2" by (simp only: of_char_eq_iff)
  define a where "a = (of_char c1 :: nat)"
  define b where "b = (of_char c2 :: nat)"
  show ?thesis
    unfolding chars_differ_def e f upc_value of_char_lower a_def [symmetric] b_def [symmetric]
    using letter_range [of a] letter_range [of b] by (auto split: if_splits)
qed

lemma lower_NUL: "lower c = NUL \<longleftrightarrow> c = NUL" "NUL = lower c \<longleftrightarrow> c = NUL"
proof -
  have "(of_char (lower c) :: nat) = of_char NUL \<longleftrightarrow> (of_char c :: nat) = of_char NUL"
    unfolding of_char_lower by auto
  then show "lower c = NUL \<longleftrightarrow> c = NUL" "NUL = lower c \<longleftrightarrow> c = NUL"
    unfolding of_char_eq_iff by auto
qed

text \<open>\<open>lwip_stricmp\<close> says equal exactly when the texts are equal up to the case of letters.\<close>

lemma lwip_stricmp_iff:
  "NUL \<notin> set s \<Longrightarrow> NUL \<notin> set t \<Longrightarrow>
   lwip_stricmp (s @ [NUL]) (t @ [NUL]) = Some (if map lower s = map lower t then 0 else 1)"
proof (induction s arbitrary: t)
  case Nil
  have "lower NUL = NUL" by (simp add: lower_def)
  moreover have "a \<noteq> NUL \<Longrightarrow> lower a \<noteq> NUL" for a by (simp add: lower_NUL)
  ultimately show ?case using Nil by (cases t) (simp_all add: chars_differ_iff, metis)
next
  case (Cons a s)
  have "lower NUL = NUL" by (simp add: lower_def)
  moreover have "lower a \<noteq> NUL" using Cons.prems by (auto simp: lower_NUL)
  ultimately show ?case using Cons by (cases t) (auto simp: chars_differ_iff)
qed

section \<open>\<open>lwip_strnstr\<close>\<close>

text \<open>\<open>p\<close> walks through the text; the result is the number of characters before the
  match, \<open>Some None\<close> for NULL.\<close>

fun strnstr_from :: "nat \<Rightarrow> string \<Rightarrow> string \<Rightarrow> nat \<Rightarrow> nat option option" where
  "strnstr_from i [] token n = None"
| "strnstr_from i (c # p) token n =
     (if c \<noteq> NUL \<and> i + length token \<le> n then
        if c = hd token then
          (case strncmp (c # p) token (length token) of
             None \<Rightarrow> None
           | Some r \<Rightarrow> if r = 0 then Some (Some i) else strnstr_from (Suc i) p token n)
        else strnstr_from (Suc i) p token n
      else Some None)"

definition lwip_strnstr :: "string \<Rightarrow> string \<Rightarrow> nat \<Rightarrow> nat option option" where
  "lwip_strnstr buffer token n =
     (if length token = 0 then Some (Some 0) else strnstr_from 0 buffer token n)"

section \<open>\<open>lwip_itoa\<close>\<close>

text \<open>\<open>res\<close> and \<open>tmp\<close> are positions in the buffer.\<close>

fun itoa_digits :: "nat \<Rightarrow> nat \<Rightarrow> nat \<Rightarrow> string \<Rightarrow> nat \<times> nat \<times> string" where
  "itoa_digits res n tmp buf =
     (if n \<noteq> 0 \<and> res < tmp
      then itoa_digits res (n div 10) (tmp - 1) (buf[tmp - 1 := digit_char (n mod 10)])
      else (n, tmp, buf))"

declare itoa_digits.simps [simp del]

definition memmove_in :: "string \<Rightarrow> nat \<Rightarrow> nat \<Rightarrow> nat \<Rightarrow> string" where
  "memmove_in buf dst src n = take dst buf @ take n (drop src buf) @ drop (dst + n) buf"

text \<open>\<open>-number\<close> overflows for the least integer: undefined.\<close>

definition lwip_itoa :: "string \<Rightarrow> nat \<Rightarrow> int \<Rightarrow> string option" where
  "lwip_itoa result bufsize number =
    (if number = - 2147483648 then None
     else let n = nat \<bar>number\<bar> in
       if bufsize < 2 then Some (if bufsize = 1 then result[0 := NUL] else result)
       else
         let (res, buf) = (if number < 0 then (1, result[0 := CHR ''-'']) else (0, result));
             buf = buf[bufsize - 1 := NUL];
             (n, tmp, buf) = itoa_digits res n (bufsize - 1) buf
         in if n \<noteq> 0 then Some (buf[0 := NUL])
            else if buf ! tmp = NUL then Some (buf[res := CHR ''0'', Suc res := NUL])
            else Some (memmove_in buf res tmp (bufsize - tmp)))"

lemma itoa_digits_spec:
  assumes "tmp < length buf" and "0 < n"
  shows "(res + length (show_nat n) \<le> tmp \<longrightarrow> itoa_digits res n tmp buf =
       (0, tmp - length (show_nat n), take (tmp - length (show_nat n)) buf @ show_nat n @ drop tmp buf)) \<and>
     (\<not> res + length (show_nat n) \<le> tmp \<longrightarrow> fst (itoa_digits res n tmp buf) \<noteq> 0 \<and>
        length (snd (snd (itoa_digits res n tmp buf))) = length buf)"
  using assms
proof (induction n arbitrary: tmp buf rule: less_induct)
  case (less n)
  let ?buf = "buf[tmp - 1 := digit_char (n mod 10)]"
  show ?case
  proof (cases "res < tmp")
    case False
    then have "itoa_digits res n tmp buf = (n, tmp, buf)" by (simp add: itoa_digits.simps)
    moreover have "\<not> res + length (show_nat n) \<le> tmp"
      using False show_nat_nonempty [of n] by (cases "show_nat n") auto
    ultimately show ?thesis using less.prems by simp
  next
    case True
    then have step: "itoa_digits res n tmp buf = itoa_digits res (n div 10) (tmp - 1) ?buf"
      using less.prems by (subst itoa_digits.simps) simp
    have d: "take (tmp - 1) ?buf = take (tmp - 1) buf" "drop (tmp - 1) ?buf = digit_char (n mod 10) # drop tmp buf"
      using True less.prems by (simp_all add: drop_update_swap Cons_nth_drop_Suc [symmetric])
    show ?thesis
    proof (cases "n < 10")
      case one: True
      then have "itoa_digits res n tmp buf = (0, tmp - 1, ?buf)"
        using step by (simp add: itoa_digits.simps)
      moreover have "?buf = take (tmp - 1) buf @ digit_char n # drop tmp buf"
        using d one by (metis append_take_drop_id mod_less)
      moreover have "show_nat n = [digit_char n]" using one by (simp add: show_nat.simps)
      ultimately show ?thesis using True by simp
    next
      case False
      then have s: "show_nat n = show_nat (n div 10) @ [digit_char (n mod 10)]" "0 < n div 10" "n div 10 < n"
        by (simp_all add: show_nat.simps [of n])
      have "tmp - 1 < length ?buf" using less.prems by simp
      note IH = less.IH [OF s(3) this s(2)]
      have "res + length (show_nat n) \<le> tmp \<longleftrightarrow> res + length (show_nat (n div 10)) \<le> tmp - 1"
        using s True by auto
      then show ?thesis using IH s(1) step d by (auto simp: min_def)
    qed
  qed
qed

definition show_int :: "int \<Rightarrow> string" where
  "show_int i = (if i < 0 then CHR ''-'' # show_nat (nat (- i)) else show_nat (nat i))"

text \<open>The buffer before the digits are written, its sign and its NUL.\<close>

definition itoa_buf :: "string \<Rightarrow> int \<Rightarrow> string" where
  "itoa_buf result number =
     (if number < 0 then result[0 := CHR ''-''] else result)[length result - 1 := NUL]"

abbreviation sign_len :: "int \<Rightarrow> nat" where
  "sign_len number \<equiv> (if number < 0 then 1 else 0)"

lemma itoa_buf_length [simp]: "length (itoa_buf result number) = length result"
  by (simp add: itoa_buf_def)

lemma itoa_buf_end:
  assumes "2 \<le> length result"
  shows "itoa_buf result number ! (length result - 1) = NUL"
    and "drop (length result - 1) (itoa_buf result number) = [NUL]"
proof -
  show *: "itoa_buf result number ! (length result - 1) = NUL" using assms by (simp add: itoa_buf_def)
  show "drop (length result - 1) (itoa_buf result number) = [NUL]"
    using assms * Cons_nth_drop_Suc [of "length result - 1" "itoa_buf result number"] by simp
qed

lemma itoa_buf_sign:
  assumes "2 \<le> length result"
  shows "show_int number = take (sign_len number) (itoa_buf result number) @ show_nat (nat \<bar>number\<bar>)"
proof (cases "number < 0")
  case True
  then have "take 1 (itoa_buf result number) = ''-''"
    using assms by (cases result) (auto simp: itoa_buf_def nth_list_update take_Suc split: nat.split)
  then show ?thesis using True by (simp add: show_int_def)
qed (simp add: show_int_def)

lemma itoa_unfold:
  assumes "2 \<le> length result" "- 2147483648 < number"
  shows "lwip_itoa result (length result) number =
     (let (n, tmp, buf) = itoa_digits (sign_len number) (nat \<bar>number\<bar>) (length result - 1) (itoa_buf result number)
      in if n \<noteq> 0 then Some (buf[0 := NUL])
         else if buf ! tmp = NUL then Some (buf[sign_len number := CHR ''0'', Suc (sign_len number) := NUL])
         else Some (memmove_in buf (sign_len number) tmp (length result - tmp)))"
  using assms unfolding lwip_itoa_def itoa_buf_def
  by (cases "number < 0") (simp_all add: Let_def flip: One_nat_def)

lemma itoa_zero:
  assumes "2 \<le> length result"
  shows "\<exists>r. lwip_itoa result (length result) 0 = Some r \<and> length r = length result \<and> c_string r = Some ''0''"
proof -
  have "itoa_digits 0 0 (length result - 1) (itoa_buf result 0) = (0, length result - 1, itoa_buf result 0)"
    by (simp add: itoa_digits.simps)
  then have r: "lwip_itoa result (length result) 0 = Some ((itoa_buf result 0)[0 := CHR ''0'', 1 := NUL])"
    using itoa_unfold [OF assms, of 0] itoa_buf_end [OF assms, of 0] by simp
  obtain x y z where "itoa_buf result 0 = x # y # z"
    using assms itoa_buf_length [of result 0] by (metis Suc_le_length_iff numeral_2_eq_2)
  then show ?thesis using r itoa_buf_length [of result 0] by (auto simp: c_string_def)
qed

lemma itoa_fits:
  assumes "2 \<le> length result" "- 2147483648 < number" "number \<noteq> 0" "length (show_int number) < length result"
  shows "\<exists>rest. lwip_itoa result (length result) number = Some (show_int number @ NUL # rest) \<and>
    length (show_int number @ NUL # rest) = length result"
proof -
  define n where "n = nat \<bar>number\<bar>"
  define buf where "buf = itoa_buf result number"
  define L where "L = length (show_nat n)"
  define k where "k = length result - 1 - L"
  define b where "b = take k buf @ show_nat n @ drop (length result - 1) buf"
  have sh: "show_int number = take (sign_len number) buf @ show_nat n"
    using itoa_buf_sign [OF assms(1)] by (simp add: buf_def n_def)
  have rl: "length (take (sign_len number) buf) = sign_len number" using assms(1) by (simp add: buf_def)
  have fits: "sign_len number + L \<le> length result - 1"
    using assms(4) unfolding sh length_append rl L_def by linarith
  then have fits': "sign_len number \<le> k" "length result - 1 = k + L" "length result - k = Suc L" "k \<le> length result"
    using assms(1) unfolding k_def by linarith+
  have "itoa_digits (sign_len number) n (length result - 1) buf = (0, k, b)"
    using itoa_digits_spec [of "length result - 1" buf n "sign_len number"] fits assms(1,3)
    by (auto simp: n_def buf_def b_def k_def L_def)
  moreover have tk: "length (take k buf) = k" using fits' by (simp add: buf_def)
  moreover obtain c cs where "show_nat n = c # cs" by (cases "show_nat n") auto
  then have "b ! k \<noteq> NUL" using tk NUL_not_in_show_nat [of n] by (auto simp: b_def nth_append)
  ultimately have r: "lwip_itoa result (length result) number = Some (memmove_in b (sign_len number) k (length result - k))"
    using itoa_unfold [OF assms(1,2)] by (simp add: n_def buf_def)
  have db: "drop k b = show_nat n @ [NUL]"
    using tk itoa_buf_end(2) [OF assms(1)] by (simp add: b_def buf_def)
  have tb: "take (sign_len number) b = take (sign_len number) buf"
    using tk fits'(1) by (simp add: b_def min_def)
  have m: "memmove_in b (sign_len number) k (length result - k) =
      show_int number @ NUL # drop (sign_len number + Suc L) b"
    unfolding memmove_in_def fits'(3) db tb sh by (simp add: L_def)
  have "length b = length result"
    using fits'(2) tk assms(1) by (simp add: b_def buf_def L_def)
  then have "length (show_int number @ NUL # drop (sign_len number + Suc L) b) = length result"
    using fits assms(1) rl unfolding sh L_def by simp
  then show ?thesis using r m by auto
qed

lemma itoa_overflows:
  assumes "2 \<le> length result" "- 2147483648 < number" "number \<noteq> 0" "\<not> length (show_int number) < length result"
  shows "\<exists>r. lwip_itoa result (length result) number = Some r \<and> length r = length result \<and> c_string r = Some []"
proof -
  obtain n t b where i: "itoa_digits (sign_len number) (nat \<bar>number\<bar>) (length result - 1) (itoa_buf result number) = (n, t, b)"
    by (metis prod_cases3)
  have "\<not> sign_len number + length (show_nat (nat \<bar>number\<bar>)) \<le> length result - 1"
    using assms(1,4) itoa_buf_sign [OF assms(1), of number] by simp
  then have "n \<noteq> 0" "length b = length result"
    using itoa_digits_spec [of "length result - 1" "itoa_buf result number" "nat \<bar>number\<bar>" "sign_len number"] i assms(1,3)
    by auto
  moreover from this obtain x y where "b = x # y" using assms(1) by (cases b) auto
  ultimately show ?thesis using itoa_unfold [OF assms(1,2)] i by (auto simp: c_string_def)
qed

text \<open>The text \<open>lwip_itoa\<close> leaves is the number in decimal when it fits with its NUL, and
  empty when it does not; it never writes outside the buffer.\<close>

theorem lwip_itoa_correct:
  assumes "length result = bufsize" "2 \<le> bufsize" "- 2147483648 < number"
  shows "\<exists>r. lwip_itoa result bufsize number = Some r \<and> length r = bufsize \<and>
    c_string r = Some (if length (show_int number) < bufsize then show_int number else [])"
proof -
  have l: "2 \<le> length result" using assms by simp
  consider "number = 0" | "number \<noteq> 0" "length (show_int number) < length result"
    | "number \<noteq> 0" "\<not> length (show_int number) < length result" by blast
  then have "\<exists>r. lwip_itoa result (length result) number = Some r \<and> length r = length result \<and>
    c_string r = Some (if length (show_int number) < length result then show_int number else [])"
  proof cases
    case 1
    then have "show_int number = ''0''" by (simp add: show_int_def show_nat.simps digit_char_chars)
    then show ?thesis using itoa_zero [OF l] 1 l by simp
  next
    case 2
    have "NUL \<notin> set (show_int number)" by (simp add: show_int_def)
    then have "c_string (show_int number @ NUL # rest) = Some (show_int number)" for rest
      by (rule c_string_append)
    then show ?thesis using itoa_fits [OF l assms(3) 2] 2(2) by auto
  next
    case 3
    then show ?thesis using itoa_overflows [OF l assms(3) 3] by simp
  qed
  then show ?thesis using assms(1) by simp
qed

lemma lwip_itoa_correct_witness:
  "\<exists>r. lwip_itoa (replicate 8 CHR ''x'') 8 (- 1234) = Some r \<and> c_string r = Some ''-1234''"
proof -
  have "show_int (- 1234) = ''-1234''"
    by (simp add: show_int_def show_nat.simps digit_char_chars)
  then show ?thesis
    using lwip_itoa_correct [of "replicate 8 CHR ''x''" 8 "- 1234"] by auto
qed

end
