(* ===== verification/Client.thy ===== *)
theory Client
  imports InputExti LwipDef "HOL-Library.Sublist"
begin

unbundle bit_operations_syntax

text \<open>
  The two network tasks of User/client.c. \<open>client\<close> is a state machine: it stands before one
  call (of LwIP, of the kernel, of \<open>Input_Scan\<close>) at a time, and the call with its result is the
  event that moves it on. \<open>clientrecv\<close> is a function of what \<open>netconn_recv\<close> returns, call by call.
  The results of the LwIP calls are arbitrary.
\<close>

section \<open>The sending task\<close>

record endpoint =
  ip_addr0 :: u16
  ip_addr1 :: u16
  ip_addr2 :: u16
  ip_addr3 :: u16
  ip_port :: u16

definition IP4_ADDR :: "u16 \<Rightarrow> u16 \<Rightarrow> u16 \<Rightarrow> u16 \<Rightarrow> u32" where
  "IP4_ADDR a b c d = PP_HTONL (LWIP_MAKEU32 (ucast a) (ucast b) (ucast c) (ucast d))"

definition send_buf1 :: string where
  "send_buf1 = ''Input1 is high,Input2 is high.'' @ [CHR 0x0A, NUL]"
definition send_buf2 :: string where
  "send_buf2 = ''Input1 is high,Input2 is low.'' @ [CHR 0x0A, NUL]"
definition send_buf3 :: string where
  "send_buf3 = ''Input1 is low,Input2 is high.'' @ [CHR 0x0A, NUL]"
definition send_buf4 :: string where
  "send_buf4 = ''Input1 is low,Input2 is low.'' @ [CHR 0x0A, NUL]"

lemmas send_bufs = send_buf1_def send_buf2_def send_buf3_def send_buf4_def

text \<open>Where the task stands: the call it makes next. The connection is a number, NULL is
  \<open>None\<close> in the result of \<open>netconn_new\<close>.\<close>

datatype client_pc =
    At_new | At_new_delay | At_connect nat | At_close nat | At_close_delay
  | At_take nat | At_scan nat | At_write nat string

datatype client_event =
    Netconn_new "nat option" | Netconn_connect nat u32 u16 int | Netconn_close nat
  | Task_delay u32 | Notify_take u32 | Scanned u8 | Netconn_write nat string int

fun client_next :: "endpoint \<Rightarrow> client_pc \<Rightarrow> client_event \<Rightarrow> client_pc option" where
  "client_next g At_new (Netconn_new conn) =
     Some (case conn of None \<Rightarrow> At_new_delay | Some c \<Rightarrow> At_connect c)"
| "client_next g At_new_delay (Task_delay n) = (if n = 10 then Some At_new else None)"
| "client_next g (At_connect c) (Netconn_connect c' ipaddr port ret) =
     (if c' = c \<and> ipaddr = IP4_ADDR (ip_addr0 g) (ip_addr1 g) (ip_addr2 g) (ip_addr3 g) \<and>
         port = ip_port g
      then Some (if ret = - 1 then At_close c else At_take c) else None)"
| "client_next g (At_close c) (Netconn_close c') = (if c' = c then Some At_close_delay else None)"
| "client_next g At_close_delay (Task_delay n) = (if n = 10 then Some At_new else None)"
| "client_next g (At_take c) (Notify_take v) =
     (let NotifyValue = ucast v :: u16
      in Some (if NotifyValue \<noteq> 0 then At_scan c else At_take c))"
| "client_next g (At_scan c) (Scanned s) =
     Some (if s = 11 then At_write c send_buf1
           else if s = 10 then At_write c send_buf2
           else if s = 01 then At_write c send_buf3
           else if s = 00 then At_write c send_buf4
           else At_take c)"
| "client_next g (At_write c b) (Netconn_write c' b' ret) =
     (if c' = c \<and> b' = b then Some (At_take c) else None)"
| "client_next g _ _ = None"

text \<open>A sequence of calls the task can make, and where it then stands.\<close>

fun client_run :: "endpoint \<Rightarrow> client_pc \<Rightarrow> client_event list \<Rightarrow> client_pc option" where
  "client_run g pc [] = Some pc"
| "client_run g pc (e # es) = Option.bind (client_next g pc e) (\<lambda>pc. client_run g pc es)"

section \<open>What wakes it\<close>

definition xTaskNotifyGive :: "nat \<Rightarrow> kern \<Rightarrow> kern" where
  "xTaskNotifyGive h k = snd (xTaskGenericNotify h 0 eIncrement k)"

definition Swtmr1_Callback :: "nat \<Rightarrow> kern \<Rightarrow> kern" where
  "Swtmr1_Callback Ethsend_Task_Handle k = xTaskNotifyGive Ethsend_Task_Handle k"

section \<open>The receiving task\<close>

text \<open>A \<open>netbuf\<close>: the payloads of the chain from \<open>p\<close> and from \<open>ptr\<close>.\<close>

record netbuf =
  nb_p :: "string list"
  nb_ptr :: "string list"

definition netbuf_next :: "netbuf \<Rightarrow> int \<times> netbuf" where
  "netbuf_next buf =
    (if tl (nb_ptr buf) = [] then (- 1, buf)
     else let buf = buf\<lparr>nb_ptr := tl (nb_ptr buf)\<rparr>
          in (if tl (nb_ptr buf) = [] then 1 else 0, buf))"

text \<open>The body of the loop over the chain: the local buffer \<open>msg\<close>, the outputs, the kernel.
  \<open>None\<close> is undefined behaviour (a write past the end of \<open>msg\<close>).\<close>

type_synonym recv_state = "string \<times> hw \<times> kern"

definition clientrecv_chunk :: "nat \<Rightarrow> string \<Rightarrow> recv_state \<Rightarrow> recv_state option" where
  "clientrecv_chunk Ethsend_Task_Handle payload = (\<lambda>(msg, h, k).
    Option.bind (strncpy msg payload (length payload)) (\<lambda>msg.
    Option.bind (strncmp msg ''LED1'' 4) (\<lambda>c1.
    Option.bind
      (if c1 = 0 then Some (LED_TOGGLE L1 h, k)
       else Option.bind (strncmp msg ''LED2'' 4) (\<lambda>c2.
         if c2 = 0 then Some (LED_TOGGLE L2 h, k)
         else Option.bind (strncmp msg ''LED3'' 4) (\<lambda>c3.
           if c3 = 0 then Some (LED_TOGGLE L3 h, k)
           else Option.bind (strncmp msg ''query'' 5) (\<lambda>c4.
             Some (h, if c4 = 0 then xTaskNotifyGive Ethsend_Task_Handle k else k)))))
      (\<lambda>(h, k). map_option (\<lambda>msg. (msg, h, k)) (memset msg NUL 100)))))"

lemma netbuf_next_shorter:
  "0 \<le> fst (netbuf_next b) \<Longrightarrow> length (nb_ptr (snd (netbuf_next b))) < length (nb_ptr b)"
  by (cases "nb_ptr b") (auto simp: netbuf_next_def Let_def split: if_splits)

function clientrecv_buf :: "nat \<Rightarrow> netbuf \<Rightarrow> recv_state \<Rightarrow> recv_state option" where
  "clientrecv_buf Ethsend_Task_Handle recv_buf s =
    Option.bind (clientrecv_chunk Ethsend_Task_Handle (hd (nb_p recv_buf)) s) (\<lambda>s.
      if 0 \<le> fst (netbuf_next recv_buf)
      then clientrecv_buf Ethsend_Task_Handle (snd (netbuf_next recv_buf)) s
      else Some s)"
  by pat_completeness auto
termination
  by (relation "measure (\<lambda>(_, b, _). length (nb_ptr b))")
    (simp_all add: netbuf_next_shorter)

declare clientrecv_buf.simps [simp del]

text \<open>The results of \<open>netconn_recv\<close> in order; the second result is whether the task function has
  returned.\<close>

fun clientrecv :: "nat \<Rightarrow> (int \<times> string list) list \<Rightarrow> recv_state \<Rightarrow> (recv_state \<times> bool) option" where
  "clientrecv Ethsend_Task_Handle [] s = Some (s, False)"
| "clientrecv Ethsend_Task_Handle ((err, chain) # rs) s =
     (if err = 0
      then Option.bind (clientrecv_buf Ethsend_Task_Handle \<lparr>nb_p = chain, nb_ptr = chain\<rparr> s)
             (clientrecv Ethsend_Task_Handle rs)
      else Some (s, True))"

section \<open>Runs of the sending task\<close>

lemma client_run_append:
  "client_run g pc (es @ fs) = Option.bind (client_run g pc es) (\<lambda>pc. client_run g pc fs)"
  by (induction es arbitrary: pc) (auto split: bind_splits)

text \<open>The call a state of the task makes is the only one it can make.\<close>


lemma client_next_cases:
  assumes "client_next g pc e = Some pc'"
  obtains (new) conn where "pc = At_new" "e = Netconn_new conn"
      "pc' = (case conn of None \<Rightarrow> At_new_delay | Some c \<Rightarrow> At_connect c)"
  | (new_delay) "pc = At_new_delay" "e = Task_delay 10" "pc' = At_new"
  | (connect) c ret where "pc = At_connect c"
      "e = Netconn_connect c (IP4_ADDR (ip_addr0 g) (ip_addr1 g) (ip_addr2 g) (ip_addr3 g)) (ip_port g) ret"
      "pc' = (if ret = - 1 then At_close c else At_take c)"
  | (close) c where "pc = At_close c" "e = Netconn_close c" "pc' = At_close_delay"
  | (close_delay) "pc = At_close_delay" "e = Task_delay 10" "pc' = At_new"
  | (take) c v where "pc = At_take c" "e = Notify_take v"
      "pc' = (if (ucast v :: u16) \<noteq> 0 then At_scan c else At_take c)"
  | (scan) c s where "pc = At_scan c" "e = Scanned s"
      "pc' = (if s = 11 then At_write c send_buf1 else if s = 10 then At_write c send_buf2
         else if s = 01 then At_write c send_buf3 else if s = 00 then At_write c send_buf4
         else At_take c)"
  | (wrote) c b ret where "pc = At_write c b" "e = Netconn_write c b ret" "pc' = At_take c"
  using assms
  by (cases "(g, pc, e)" rule: client_next.cases) (auto simp: Let_def split: if_splits)

section \<open>What a message does\<close>

datatype command = Toggle led | Query | Ignore

definition parse_command :: "string \<Rightarrow> command" where
  "parse_command s =
    (if take 4 s = ''LED1'' then Toggle L1 else if take 4 s = ''LED2'' then Toggle L2
     else if take 4 s = ''LED3'' then Toggle L3 else if take 5 s = ''query'' then Query else Ignore)"

fun run_command :: "nat \<Rightarrow> command \<Rightarrow> hw \<times> kern \<Rightarrow> hw \<times> kern" where
  "run_command t (Toggle l) (h, k) = (LED_TOGGLE l h, k)"
| "run_command t Query (h, k) = (h, xTaskNotifyGive t k)"
| "run_command t Ignore (h, k) = (h, k)"

abbreviation clear_msg :: string where "clear_msg \<equiv> replicate 100 NUL"

lemma strncpy_bytes_all:
  "strncpy_bytes s (length s) = Some (takeWhile (\<lambda>c. c \<noteq> NUL) s @
     replicate (length s - length (takeWhile (\<lambda>c. c \<noteq> NUL) s)) NUL)"
  by (induction s) auto

text \<open>What \<open>strncpy\<close> leaves in \<open>msg\<close>.\<close>

definition copied :: "string \<Rightarrow> string \<Rightarrow> string" where
  "copied msg s = takeWhile (\<lambda>c. c \<noteq> NUL) s @
     replicate (length s - length (takeWhile (\<lambda>c. c \<noteq> NUL) s)) NUL @ drop (length s) msg"

lemma strncpy_copied: "length s \<le> length msg \<Longrightarrow> strncpy msg s (length s) = Some (copied msg s)"
  by (simp add: strncpy_def strncpy_bytes_all copied_def)

lemma length_copied: "length s \<le> length msg \<Longrightarrow> length (copied msg s) = length msg"
  using length_takeWhile_le [of "\<lambda>c. c \<noteq> NUL" s] by (simp add: copied_def)

text \<open>A text that stops in the middle of a command is completed by what \<open>msg\<close> held before.\<close>

definition cut_command :: "string \<Rightarrow> bool" where
  "cut_command s \<longleftrightarrow> (\<exists>w \<in> {''LED1'', ''LED2'', ''LED3'', ''query''}. strict_prefix s w)"

text \<open>Otherwise, or with a cleared \<open>msg\<close>, a command is at the start of the copy exactly if it is at
  the start of the text.\<close>

lemma copy_starts_with:
  assumes w: "NUL \<notin> set w" "length w \<le> 100" and s: "length s \<le> 100"
    and m: "msg = clear_msg \<or> \<not> strict_prefix s w"
  shows "take (length w) (copied msg s) = w \<longleftrightarrow> take (length w) s = w"
proof -
  define u r where "u = takeWhile (\<lambda>c. c \<noteq> NUL) s" and "r = dropWhile (\<lambda>c. c \<noteq> NUL) s"
  have sp: "s = u @ r" by (simp add: u_def r_def)
  have cp: "copied msg s = u @ replicate (length r) NUL @ drop (length s) msg"
    unfolding copied_def u_def [symmetric] by (simp add: sp)
  consider (long) "length w \<le> length u" | (null) t where "length u < length w" "r = NUL # t"
    | (short) "length u < length w" "r = []"
    unfolding r_def by (cases "dropWhile (\<lambda>c. c \<noteq> NUL) s") (auto simp: dropWhile_eq_Cons_conv not_less [symmetric])
  then show ?thesis
  proof cases
    case long
    then show ?thesis by (simp add: cp) (simp add: sp)
  next
    case null
    then obtain n where n: "length w = length u + Suc n" by (metis add_Suc_right less_imp_Suc_add)
    have "NUL \<in> set (take (length w) (copied msg s))" unfolding cp null(2) by (simp add: n)
    moreover have "NUL \<in> set (take (length w) s)" unfolding sp null(2) by (simp add: n)
    ultimately show ?thesis using w(1) by metis
  next
    case short
    have "take (length w) s \<noteq> w"
      using short unfolding sp by (metis append_Nil2 length_take less_irrefl min.absorb4 min.commute)
    moreover have "take (length w) (copied msg s) \<noteq> w"
    proof
      assume t: "take (length w) (copied msg s) = w"
      have su: "u = s" using short(2) sp by simp
      have "take (length w) (s @ drop (length s) msg) = w" using t cp short(2) by (simp add: su)
      then have p: "w = s @ take (length w - length s) (drop (length s) msg)"
        using short(1) by (simp add: su)
      then have "strict_prefix s w" using short sp by (metis append_Nil2 less_irrefl prefixI strict_prefixI)
      then have "msg = clear_msg" using m by simp
      then have "NUL \<in> set (take (length w - length s) (drop (length s) msg))"
        using short sp w(2) by (cases "length w - length s") auto
      then show False using p w(1) by (metis UnCI set_append)
    qed
    ultimately show ?thesis by simp
  qed
qed

lemma strncmp_copy:
  assumes "NUL \<notin> set w" "length w \<le> 100" "length s \<le> 100" "length msg = 100"
    and "msg = clear_msg \<or> \<not> strict_prefix s w"
  shows "\<exists>c. strncmp (copied msg s) w (length w) = Some c \<and> (c = 0 \<longleftrightarrow> take (length w) s = w)"
proof -
  have l: "length w \<le> length (copied msg s)" using assms(2-4) by (simp add: length_copied)
  obtain c where c: "strncmp (copied msg s) w (length w) = Some c"
    using strncmp_defined [OF order_refl l] by blast
  have "c = 0 \<longleftrightarrow> strncmp (copied msg s) w (length w) = Some 0" using c by simp
  also have "\<dots> \<longleftrightarrow> take (length w) s = w"
    using strncmp_zero_iff [of "length w" w "copied msg s"] l assms(1)
      copy_starts_with [OF assms(1-3,5)] by simp
  finally show ?thesis using c by blast
qed

text \<open>One pass of the loop runs the command the text starts with and clears the buffer.\<close>

lemma clientrecv_chunk_runs:
  assumes "length s \<le> 100" and "length msg = 100" and "msg = clear_msg \<or> \<not> cut_command s"
  shows "clientrecv_chunk t s (msg, h, k) =
    Some (clear_msg, run_command t (parse_command s) (h, k))"
proof -
  let ?m = "copied msg s"
  have cmp: "\<exists>c. strncmp ?m w n = Some c \<and> (c = 0 \<longleftrightarrow> take n s = w)"
    if "length w = n" "NUL \<notin> set w" "length w \<le> 100" "w \<in> {''LED1'', ''LED2'', ''LED3'', ''query''}" for w n
    using strncmp_copy [OF that(2,3) assms(1,2)] assms(3) that(4) unfolding that(1) cut_command_def by blast
  obtain c1 c2 c3 c4 where c:
    "strncmp ?m ''LED1'' 4 = Some c1" "c1 = 0 \<longleftrightarrow> take 4 s = ''LED1''"
    "strncmp ?m ''LED2'' 4 = Some c2" "c2 = 0 \<longleftrightarrow> take 4 s = ''LED2''"
    "strncmp ?m ''LED3'' 4 = Some c3" "c3 = 0 \<longleftrightarrow> take 4 s = ''LED3''"
    "strncmp ?m ''query'' 5 = Some c4" "c4 = 0 \<longleftrightarrow> take 5 s = ''query''"
    using cmp [of "''LED1''" 4] cmp [of "''LED2''" 4] cmp [of "''LED3''" 4] cmp [of "''query''" 5]
    by (simp only: list.size list.set) fastforce
  have m: "memset ?m NUL 100 = Some clear_msg"
    using assms(1,2) by (simp add: memset_def length_copied)
  have cp: "strncpy msg s (length s) = Some ?m" using assms(1,2) by (simp add: strncpy_copied)
  show ?thesis
    unfolding clientrecv_chunk_def prod.case cp Option.bind.simps c(1,3,5,7)
    by (simp add: c(2,4,6,8) m parse_command_def)
qed

text \<open>A text longer than \<open>msg\<close> is copied past its end.\<close>

lemma clientrecv_chunk_overflows:
  "length msg = 100 \<Longrightarrow> 100 < length s \<Longrightarrow> clientrecv_chunk t s (msg, h, k) = None"
  by (simp add: clientrecv_chunk_def strncpy_def)

text \<open>The loop takes as many steps as the chain has buffers, and every step looks at the first.\<close>

lemma clientrecv_buf_repeats:
  assumes "length s \<le> 100"
  shows "ps \<noteq> [] \<Longrightarrow> length msg = 100 \<Longrightarrow> msg = clear_msg \<or> \<not> cut_command s \<Longrightarrow>
    clientrecv_buf t \<lparr>nb_p = s # rest, nb_ptr = ps\<rparr> (msg, hk) =
      Some (clear_msg, (run_command t (parse_command s) ^^ length ps) hk)"
proof (induction ps arbitrary: msg hk)
  case (Cons p ps)
  obtain h k where hk: "hk = (h, k)" by (cases hk)
  note chunk = clientrecv_chunk_runs [OF assms Cons.prems(2,3)]
  show ?case
  proof (cases ps)
    case Nil
    then show ?thesis
      by (subst clientrecv_buf.simps) (simp add: hk netbuf_next_def chunk)
  next
    case (Cons q qs)
    have n: "netbuf_next \<lparr>nb_p = s # rest, nb_ptr = p # ps\<rparr> =
        (if qs = [] then 1 else 0, \<lparr>nb_p = s # rest, nb_ptr = ps\<rparr>)"
      by (simp add: netbuf_next_def Cons)
    have "clientrecv_buf t \<lparr>nb_p = s # rest, nb_ptr = p # ps\<rparr> (msg, hk) =
        clientrecv_buf t \<lparr>nb_p = s # rest, nb_ptr = ps\<rparr> (clear_msg, run_command t (parse_command s) hk)"
      by (subst clientrecv_buf.simps) (simp add: n hk chunk)
    also have "\<dots> = Some (clear_msg, (run_command t (parse_command s) ^^ length ps) (run_command t (parse_command s) hk))"
      by (rule Cons.IH) (simp_all add: Cons)
    finally show ?thesis by (simp add: funpow_swap1)
  qed
qed simp

section \<open>Properties of the sending task\<close>

definition report :: "bool \<Rightarrow> bool \<Rightarrow> string" where
  "report in1 in2 = ''Input1 is '' @ (if in1 then ''high'' else ''low'') @ '',Input2 is '' @
     (if in2 then ''high'' else ''low'') @ ''.'' @ [CHR 0x0A, NUL]"

text \<open>What a run so far says about where the task stands.\<close>

definition connected :: "endpoint \<Rightarrow> nat \<Rightarrow> int \<Rightarrow> client_event list \<Rightarrow> bool" where
  "connected g c result es \<longleftrightarrow> (\<exists>us vs. es = us @ [Netconn_new (Some c),
      Netconn_connect c (IP4_ADDR (ip_addr0 g) (ip_addr1 g) (ip_addr2 g) (ip_addr3 g)) (ip_port g) result] @ vs
      \<and> (\<forall>x. Netconn_new x \<notin> set vs))"

text \<open>The newest connection attempt did not give -1, which is all that the task looks at.\<close>

definition went_on :: "endpoint \<Rightarrow> nat \<Rightarrow> client_event list \<Rightarrow> bool" where
  "went_on g c es \<longleftrightarrow> (\<exists>result. connected g c result es \<and> result \<noteq> - 1)"

definition woken :: "client_event list \<Rightarrow> bool" where
  "woken es \<longleftrightarrow> (\<exists>us v. es = us @ [Notify_take v] \<and> unat v mod 65536 \<noteq> 0)"

fun run_inv :: "endpoint \<Rightarrow> client_event list \<Rightarrow> client_pc \<Rightarrow> bool" where
  "run_inv g es (At_connect c) \<longleftrightarrow> (\<exists>us. es = us @ [Netconn_new (Some c)])"
| "run_inv g es (At_take c) \<longleftrightarrow> went_on g c es"
| "run_inv g es (At_scan c) \<longleftrightarrow> went_on g c es \<and> woken es"
| "run_inv g es (At_write c b) \<longleftrightarrow> went_on g c es \<and> (\<exists>us s. es = us @ [Scanned s] \<and> woken us \<and>
     s \<in> {0, 1, 10, 11} \<and> b = report (s \<in> {10, 11}) (s \<in> {1, 11}))"
| "run_inv g es _ \<longleftrightarrow> True"

lemma connected_snoc: "connected g c r es \<Longrightarrow> (\<And>x. e \<noteq> Netconn_new x) \<Longrightarrow> connected g c r (es @ [e])"
proof -
  assume "connected g c r es" and e: "\<And>x. e \<noteq> Netconn_new x"
  then obtain us vs where "es = us @ [Netconn_new (Some c),
      Netconn_connect c (IP4_ADDR (ip_addr0 g) (ip_addr1 g) (ip_addr2 g) (ip_addr3 g)) (ip_port g) r] @ vs"
    "\<forall>x. Netconn_new x \<notin> set vs"
    unfolding connected_def by blast
  with e show "connected g c r (es @ [e])"
    unfolding connected_def by (intro exI [of _ us] exI [of _ "vs @ [e]"]) (auto dest: not_sym)
qed

lemma went_on_snoc: "went_on g c es \<Longrightarrow> (\<And>x. e \<noteq> Netconn_new x) \<Longrightarrow> went_on g c (es @ [e])"
  unfolding went_on_def using connected_snoc by blast

lemma ucast_u16_zero: "(ucast (v :: u32) :: u16) \<noteq> 0 \<longleftrightarrow> unat v mod 65536 \<noteq> 0"
  by (metis unat_eq_zero unat_ucast_u32_u16)

lemma client_run_inv: "client_run g At_new es = Some pc \<Longrightarrow> run_inv g es pc"
proof (induction es arbitrary: pc rule: rev_induct)
  case (snoc e es)
  then obtain pc0 where pc0: "client_run g At_new es = Some pc0" "client_next g pc0 e = Some pc"
    by (auto simp: client_run_append split: bind_splits)
  have inv: "run_inv g es pc0" by (rule snoc.IH [OF pc0(1)])
  show ?case
    using pc0(2)
  proof (cases rule: client_next_cases)
    case (connect c ret)
    obtain us where "es = us @ [Netconn_new (Some c)]" using inv connect by auto
    then have "connected g c ret (es @ [e])"
      using connect unfolding connected_def by (intro exI [of _ us] exI [of _ "[]"]) simp
    then show ?thesis using connect by (auto simp: went_on_def)
  next
    case (take c v)
    have "went_on g c (es @ [e])" using inv take by (simp add: went_on_snoc)
    then show ?thesis using take by (auto simp: woken_def ucast_u16_zero)
  next
    case (scan c s)
    have "went_on g c (es @ [e])" using inv scan by (simp add: went_on_snoc)
    moreover have "woken es" using inv scan by simp
    ultimately show ?thesis using scan by (auto simp: report_def send_bufs)
  next
    case (wrote c b ret)
    then show ?thesis using inv by (auto intro: went_on_snoc)
  qed (use inv in \<open>auto split: option.split\<close>)
qed simp

lemma connected_unique:
  assumes "connected g c r es" "connected g d q es"
  shows "d = c \<and> q = r"
proof -
  let ?e = "\<lambda>c r. Netconn_connect c (IP4_ADDR (ip_addr0 g) (ip_addr1 g) (ip_addr2 g) (ip_addr3 g)) (ip_port g) r"
  obtain us vs where a: "es = us @ [Netconn_new (Some c), ?e c r] @ vs" "\<forall>x. Netconn_new x \<notin> set vs"
    using assms(1) unfolding connected_def by blast
  obtain us' vs' where b: "es = us' @ [Netconn_new (Some d), ?e d q] @ vs'" "\<forall>x. Netconn_new x \<notin> set vs'"
    using assms(2) unfolding connected_def by blast
  let ?p = "\<lambda>e. \<forall>x. e \<noteq> Netconn_new x"
  have "takeWhile ?p (rev es) = rev vs @ [?e c r]"
    unfolding a(1) using a(2) by (subst rev_append)+ (simp add: takeWhile_append, metis)
  moreover have "takeWhile ?p (rev es) = rev vs' @ [?e d q]"
    unfolding b(1) using b(2) by (subst rev_append)+ (simp add: takeWhile_append, metis)
  ultimately show ?thesis by simp
qed

text \<open>C2: In every run of the task from its start, it makes a call of \<open>netconn_write\<close> exactly when its last
  two calls were a wait that took notifications (not a multiple of 65536 of them) and a reading of the inputs; it
  then writes the report of that reading on the connection of its newest call of \<open>netconn_connect\<close>, which went to the
  configured address and port and did not give -1. So it writes on an open connection if failed
  attempts give -1; any other error, as for a refused connection, is taken for success.\<close>

theorem client_reports:
  assumes run: "client_run g At_new es = Some pc"
  shows "(client_next g pc (Netconn_write c b ret) \<noteq> None \<longleftrightarrow>
      (\<exists>result. connected g c result es \<and> result \<noteq> - 1) \<and>
      (\<exists>us v s. es = us @ [Notify_take v, Scanned s] \<and> unat v mod 65536 \<noteq> 0 \<and>
         s \<in> {0, 1, 10, 11} \<and> b = report (s \<in> {10, 11}) (s \<in> {1, 11}))) \<and>
    (client_next g pc (Netconn_write c b ret) \<noteq> None \<and>
       (\<forall>d a p r. Netconn_connect d a p r \<in> set es \<longrightarrow> r \<in> {0, - 1}) \<longrightarrow> connected g c 0 es)"
proof -
  have sound: "went_on g c es \<and> (\<exists>us v s. es = us @ [Notify_take v, Scanned s] \<and> unat v mod 65536 \<noteq> 0 \<and>
      s \<in> {0, 1, 10, 11} \<and> b = report (s \<in> {10, 11}) (s \<in> {1, 11}))" if "pc = At_write c b"
    using client_run_inv [OF run] unfolding that by (auto simp: woken_def)
  have complete: "pc = At_write c b" if w: "went_on g c es"
    and u: "es = us @ [Notify_take v, Scanned s]" "s \<in> {0, 1, 10, 11}" "b = report (s \<in> {10, 11}) (s \<in> {1, 11})" for us v s
  proof -
    obtain pc0 where pc0: "client_next g pc0 (Scanned s) = Some pc"
      using run unfolding u(1) by (auto simp: client_run_append split: bind_splits)
    then obtain d where "pc = At_write d b"
      by (cases rule: client_next_cases) (use u(2,3) in \<open>auto simp: report_def send_bufs\<close>)
    moreover from this have "went_on g d es" using client_run_inv [OF run] by simp
    ultimately show ?thesis using w connected_unique unfolding went_on_def by metis
  qed
  have "client_next g pc (Netconn_write c b ret) \<noteq> None \<longleftrightarrow> pc = At_write c b" by (cases pc) auto
  moreover have "connected g c 0 es" if w: "went_on g c es" "\<forall>d a p r. Netconn_connect d a p r \<in> set es \<longrightarrow> r \<in> {0, - 1}"
  proof -
    obtain result where r: "connected g c result es" "result \<noteq> - 1" using w(1) unfolding went_on_def by blast
    then have "result \<in> {0, - 1}" using w(2) unfolding connected_def by force
    then show ?thesis using r by auto
  qed
  ultimately show ?thesis using sound complete unfolding went_on_def by blast
qed

definition sample_endpoint :: endpoint where
  "sample_endpoint = \<lparr>ip_addr0 = 192, ip_addr1 = 168, ip_addr2 = 2, ip_addr3 = 187, ip_port = 5000\<rparr>"

definition sample_run :: "client_event list" where
  "sample_run = [Netconn_new None, Task_delay 10, Netconn_new (Some 7),
     Netconn_connect 7 (IP4_ADDR 192 168 2 187) 5000 0, Notify_take 2, Scanned 10]"

lemma client_reports_witness:
  "client_run sample_endpoint At_new sample_run = Some (At_write 7 send_buf2) \<and> connected sample_endpoint 7 0 sample_run"
proof -
  have r: "client_run sample_endpoint At_new sample_run = Some (At_write 7 send_buf2)"
    by (simp add: sample_run_def sample_endpoint_def send_bufs)
  have "\<forall>d a p r. Netconn_connect d a p r \<in> set sample_run \<longrightarrow> r \<in> {0, - 1}" by (simp add: sample_run_def)
  then show ?thesis using client_reports [OF r, of 7 send_buf2 0] r by simp
qed

fun count_wakes :: "client_event list \<Rightarrow> nat" where
  "count_wakes [] = 0"
| "count_wakes (Notify_take v # es) = (if unat v mod 65536 \<noteq> 0 then 1 else 0) + count_wakes es"
| "count_wakes (_ # es) = count_wakes es"

fun count_writes :: "client_event list \<Rightarrow> nat" where
  "count_writes [] = 0"
| "count_writes (Netconn_write c b r # es) = 1 + count_writes es"
| "count_writes (_ # es) = count_writes es"

lemma client_stays:
  assumes "client_run g pc es = Some pc'" and "pc \<in> {At_take c, At_scan c} \<union> range (At_write c)"
    and "\<forall>s. Scanned s \<in> set es \<longrightarrow> s \<in> {0, 1, 10, 11}"
  shows "pc' \<in> {At_take c, At_scan c} \<union> range (At_write c) \<and>
    (\<forall>e \<in> set es. (\<exists>v. e = Notify_take v) \<or> (\<exists>s. e = Scanned s) \<or> (\<exists>b r. e = Netconn_write c b r)) \<and>
    count_writes es + (if pc' = At_take c then 0 else 1) = count_wakes es + (if pc = At_take c then 0 else 1)"
  using assms
proof (induction es arbitrary: pc)
  case (Cons e es)
  then obtain pc1 where pc1: "client_next g pc e = Some pc1" "client_run g pc1 es = Some pc'"
    by (auto split: bind_splits)
  have s: "\<forall>s. Scanned s \<in> set es \<longrightarrow> s \<in> {0, 1, 10, 11}" using Cons.prems(3) by simp
  have "pc1 \<in> {At_take c, At_scan c} \<union> range (At_write c)"
    using pc1(1) Cons.prems(2) by (cases rule: client_next_cases) (auto split: if_splits)
  note IH = Cons.IH [OF pc1(2) this s]
  show ?case
    using pc1(1)
  proof (cases rule: client_next_cases)
    case (scan d r)
    then have "r \<in> {0, 1, 10, 11}" "d = c" using Cons.prems(2,3) by auto
    then show ?thesis using IH scan by auto
  qed (use IH Cons.prems(2) in \<open>auto simp: ucast_u16_zero\<close>)
qed auto

text \<open>Once the task waits for notifications on a connection, it stays with it for ever: whatever
  its writes return, it never opens or closes a connection again, and between two waits it sends
  one report for each wake whose count is not a multiple of 65536.\<close>

theorem client_never_reconnects:
  assumes "client_run g (At_take c) es = Some pc"
    and "\<forall>s. Scanned s \<in> set es \<longrightarrow> s \<in> {0, 1, 10, 11}"
  shows "pc \<in> {At_take c, At_scan c} \<union> range (At_write c) \<and>
    (\<forall>x. Netconn_new x \<notin> set es) \<and> (\<forall>d. Netconn_close d \<notin> set es) \<and>
    (pc = At_take c \<longrightarrow> count_writes es = count_wakes es)"
  using client_stays [OF assms(1) _ assms(2), of c] by auto

lemma client_never_reconnects_witness:
  "client_run sample_endpoint (At_take 7) [Notify_take 1, Scanned 0, Netconn_write 7 send_buf4 (- 15),
     Notify_take 65536, Notify_take 3, Scanned 11, Netconn_write 7 send_buf1 (- 11)] = Some (At_take 7) \<and>
   count_wakes [Notify_take 1, Scanned 0, Netconn_write 7 send_buf4 (- 15),
     Notify_take 65536, Notify_take 3, Scanned 11, Netconn_write 7 send_buf1 (- 11)] = 2"
  (is "client_run _ _ ?es = _ \<and> _")
proof -
  have r: "client_run sample_endpoint (At_take 7) ?es = Some (At_take 7)"
    by (simp add: send_bufs ucast_u16_zero)
  then show ?thesis using client_never_reconnects [OF r] by simp
qed

lemma no_wakes: "\<forall>u. Notify_take u \<in> set es \<longrightarrow> u = 0 \<Longrightarrow> count_wakes es = 0"
proof (induction es)
  case (Cons e es)
  then have z: "count_wakes es = 0" by simp
  show ?case
  proof (cases e)
    case (Notify_take v)
    then have "v = 0" using Cons.prems by simp
    then show ?thesis using Notify_take z by simp
  qed (use z in simp_all)
qed simp

section \<open>Properties of the wake-ups\<close>

text \<open>What notifies the sending task: an edge on an input, the timer, a query.\<close>

datatype source = Edge bool u16 | Timer | Query_received

fun notify_by :: "nat \<Rightarrow> source \<Rightarrow> kern \<Rightarrow> kern" where
  "notify_by t (Edge junk pin) k = HAL_GPIO_EXTI_Callback t junk pin k"
| "notify_by t Timer k = Swtmr1_Callback t k"
| "notify_by t Query_received k = xTaskNotifyGive t k"

fun input_source :: "source \<Rightarrow> bool" where
  "input_source (Edge junk pin) \<longleftrightarrow> pin \<in> {INPUT1_PIN, INPUT2_PIN}"
| "input_source _ \<longleftrightarrow> True"

lemma notify_unblock_value:
  "ulNotifiedValue (tcbs (snd (notify_unblock_from_isr t w k)) u) = ulNotifiedValue (tcbs k u)"
  by (simp add: notify_unblock_from_isr_def Let_def split: option.split)

lemma give_isr_value:
  "ulNotifiedValue (tcbs (snd (vTaskNotifyGiveFromISR t w k)) t) = ulNotifiedValue (tcbs k t) + 1"
  by (simp add: vTaskNotifyGiveFromISR_def Let_def notify_unblock_value)

lemma give_value: "ulNotifiedValue (tcbs (xTaskNotifyGive t k) t) = ulNotifiedValue (tcbs k t) + 1"
  by (simp add: xTaskNotifyGive_def xTaskGenericNotify_def apply_action_def Let_def portYIELD_def)

lemma notify_by_value:
  "input_source s \<Longrightarrow> ulNotifiedValue (tcbs (notify_by t s k) t) = ulNotifiedValue (tcbs k t) + 1"
proof (cases s)
  case (Edge junk pin)
  assume "input_source s"
  then have "notify_by t s k = (let (w, k) = vTaskNotifyGiveFromISR t (Some junk) k
      in portYIELD_FROM_ISR (w = Some True) k)"
    using Edge by (auto simp: HAL_GPIO_EXTI_Callback_def)
  then show ?thesis
    by (simp add: Let_def case_prod_beta portYIELD_FROM_ISR_def portYIELD_def give_isr_value)
qed (simp_all add: Swtmr1_Callback_def give_value)

lemma notify_all_value:
  "\<forall>s \<in> set ss. input_source s \<Longrightarrow>
   ulNotifiedValue (tcbs (fold (notify_by t) ss k) t) = ulNotifiedValue (tcbs k t) + of_nat (length ss)"
  by (induction ss arbitrary: k) (simp_all add: notify_by_value add.assoc)

text \<open>C3: Edges, timer ticks and queries that arrive while the task is busy are not queued but
  counted, in any order: when the task next runs, any number of them that is not a multiple of
  65536 makes it take one reading and write the report of it, after which it waits again with the
  count zero; until it is notified again it writes exactly this one report. At a multiple of 65536 all of them are lost: no report is written.\<close>

theorem notifications_coalesce:
  assumes "ulNotifiedValue (tcbs k t) = 0" and "\<forall>s \<in> set ss. input_source s"
    and "pxCurrentTCB k' = t" "tcbs k' t = tcbs (fold (notify_by t) ss k) t" and "length ss < 4294967296"
  defines "v \<equiv> fst (ulTaskNotifyTake_exit True k')"
  shows "ulNotifiedValue (tcbs (snd (ulTaskNotifyTake_exit True k')) t) = 0 \<and>
    (\<forall>s \<in> {0, 1, 10, 11}. \<forall>ret.
      client_run g (At_take c) [Notify_take v, Scanned s, Netconn_write c (report (s \<in> {10, 11}) (s \<in> {1, 11})) ret] =
        (if length ss mod 65536 \<noteq> 0 then Some (At_take c) else None)) \<and>
    (\<forall>es. client_run g (At_take c) (Notify_take v # es) = Some (At_take c) \<and>
        (\<forall>u. Notify_take u \<in> set es \<longrightarrow> u = 0) \<and> (\<forall>s. Scanned s \<in> set es \<longrightarrow> s \<in> {0, 1, 10, 11}) \<longrightarrow>
      count_writes es = (if length ss mod 65536 \<noteq> 0 then 1 else 0))"
proof -
  have val: "ulNotifiedValue (tcbs k' t) = of_nat (length ss)"
    using notify_all_value [OF assms(2), of t k] assms(1,4) by simp
  then have uv: "unat v = length ss" and z: "ulNotifiedValue (tcbs (snd (ulTaskNotifyTake_exit True k')) t) = 0"
    using unat_of_nat_u32 [OF assms(5)] assms(3) by (simp_all add: v_def ulTaskNotifyTake_exit_def Let_def)
  have "client_run g (At_take c) [Notify_take v, Scanned s, Netconn_write c (report (s \<in> {10, 11}) (s \<in> {1, 11})) ret] =
      (if length ss mod 65536 \<noteq> 0 then Some (At_take c) else None)" if "s \<in> {0, 1, 10, 11}" for s ret
    using that uv by (auto simp: ucast_u16_zero report_def send_bufs)
  moreover have "count_writes es = (if length ss mod 65536 \<noteq> 0 then 1 else 0)"
    if r: "client_run g (At_take c) (Notify_take v # es) = Some (At_take c)" "\<forall>u. Notify_take u \<in> set es \<longrightarrow> u = 0"
      "\<forall>s. Scanned s \<in> set es \<longrightarrow> s \<in> {0, 1, 10, 11}" for es
  proof -
    have "count_wakes es = 0" using r(2) by (rule no_wakes)
    moreover have "count_writes (Notify_take v # es) = count_wakes (Notify_take v # es)"
      using client_stays [OF r(1), of c] r(3) by simp
    ultimately show ?thesis using uv by simp
  qed
  ultimately show ?thesis using z by blast
qed

lemma notifications_coalesce_witness:
  "client_run sample_endpoint (At_take 7) [Notify_take (fst (ulTaskNotifyTake_exit True
     (fold (notify_by 2) [Edge False INPUT1_PIN, Timer, Query_received] two_tasks))),
     Scanned 10, Netconn_write 7 (report True False) 0] = Some (At_take 7)"
proof -
  let ?ss = "[Edge False INPUT1_PIN, Timer, Query_received]"
  have z: "ulNotifiedValue (tcbs two_tasks 2) = 0"
    by (simp add: two_tasks_def state_eval Let_def)
  have i: "\<forall>s \<in> set ?ss. input_source s" by simp
  have t: "pxCurrentTCB (fold (notify_by 2) ?ss two_tasks) = 2"
    by (simp add: two_tasks_def state_eval Let_def HAL_GPIO_EXTI_Callback_def vTaskNotifyGiveFromISR_def
        portYIELD_FROM_ISR_def Swtmr1_Callback_def xTaskNotifyGive_def xTaskGenericNotify_def
        apply_action_def INPUT1_PIN_def)
  have l: "length ?ss < 4294967296" "length ?ss mod 65536 \<noteq> 0" by simp_all
  show ?thesis
    using notifications_coalesce [OF z i t refl l(1), of sample_endpoint 7, THEN conjunct2, THEN conjunct1, rule_format, of 10 0] l(2)
    by (simp del: client_run.simps)
qed

section \<open>Properties of the receiving task\<close>

fun chain_command :: "string list \<Rightarrow> command list" where
  "chain_command chain = replicate (length chain) (parse_command (hd chain))"

lemma run_commands_led:
  "led_lit (fst (fold (run_command t) cs (h, k))) l \<longleftrightarrow>
   (led_lit h l \<noteq> odd (count_list cs (Toggle l)))"
proof (induction cs arbitrary: h k)
  case (Cons c cs)
  then show ?case by (cases c) (auto simp: led_lit_TOGGLE)
qed simp

lemma run_commands_query:
  "ulNotifiedValue (tcbs (snd (fold (run_command t) cs (h, k))) t) =
   ulNotifiedValue (tcbs k t) + of_nat (count_list cs Query)"
proof (induction cs arbitrary: h k)
  case (Cons c cs)
  then show ?case by (cases c) (auto simp: give_value)
qed simp

lemma fold_replicate: "fold f (replicate n x) s = (f x ^^ n) s"
  by (induction n arbitrary: s) (simp_all add: funpow_swap1)

lemma clientrecv_runs:
  "\<forall>(e, ch) \<in> set rs. e = 0 \<and> ch \<noteq> [] \<and> length (hd ch) \<le> 100 \<Longrightarrow> length msg = 100 \<Longrightarrow>
   msg = clear_msg \<or> (rs \<noteq> [] \<longrightarrow> \<not> cut_command (hd (snd (hd rs)))) \<Longrightarrow>
   clientrecv t rs (msg, hk) = Some ((if rs = [] then msg else clear_msg,
     fold (run_command t) (concat (map (chain_command \<circ> snd) rs)) hk), False)"
proof (induction rs arbitrary: msg hk)
  case (Cons r rs)
  obtain s rest where r: "r = (0, s # rest)" "length s \<le> 100"
    using Cons.prems(1) by (cases r; cases "snd r") auto
  have m: "msg = clear_msg \<or> \<not> cut_command s" using Cons.prems(3) by (auto simp: r(1))
  have "clientrecv_buf t \<lparr>nb_p = s # rest, nb_ptr = s # rest\<rparr> (msg, hk) =
      Some (clear_msg, (run_command t (parse_command s) ^^ length (s # rest)) hk)"
    by (rule clientrecv_buf_repeats [OF r(2) _ Cons.prems(2) m]) simp
  moreover have "clientrecv t rs (clear_msg, hk') = Some ((if rs = [] then clear_msg else clear_msg,
      fold (run_command t) (concat (map (chain_command \<circ> snd) rs)) hk'), False)" for hk'
    by (rule Cons.IH) (use Cons.prems(1) in simp_all)
  ultimately show ?case by (simp add: r(1) fold_replicate funpow_swap1 comp_def)
qed simp

text \<open>C4: The receiving task, started with anything in its uninitialised buffer \<open>msg\<close> and given any
  sequence of received chains of buffers whose first buffer has at most 100 bytes, the very first
  of them not stopping in the middle of a command: it does not return, and each chain runs the
  command its first buffer starts with as many times as the chain has buffers, so an LED changes
  exactly if it is named an odd number of times, and each query adds one notification. After the
  first chain \<open>msg\<close> is cleared, so later messages may be as short as they like.\<close>

theorem clientrecv_commands:
  assumes "\<forall>(e, ch) \<in> set rs. e = 0 \<and> ch \<noteq> [] \<and> length (hd ch) \<le> 100"
    and "length msg = 100" and "rs \<noteq> [] \<Longrightarrow> \<not> cut_command (hd (snd (hd rs)))"
  shows "\<exists>h' k'. clientrecv t rs (msg, h, k) = Some ((if rs = [] then msg else clear_msg, h', k'), False) \<and>
    (\<forall>l. led_lit h' l \<longleftrightarrow>
      (led_lit h l \<noteq> odd (\<Sum>(e, ch) \<leftarrow> rs. if parse_command (hd ch) = Toggle l then length ch else 0))) \<and>
    ulNotifiedValue (tcbs k' t) = ulNotifiedValue (tcbs k t) +
      of_nat (\<Sum>(e, ch) \<leftarrow> rs. if parse_command (hd ch) = Query then length ch else 0)"
proof -
  let ?cs = "concat (map (chain_command \<circ> snd) rs)"
  have cl: "count_list (replicate n y) x = (if x = y then n else 0)" for n and x y :: command
    by (induction n) auto
  have c: "count_list ?cs x = (\<Sum>(e, ch) \<leftarrow> rs. if parse_command (hd ch) = x then length ch else 0)" for x
    by (induction rs) (auto simp: cl count_list_append)
  obtain h' k' where hk: "fold (run_command t) ?cs (h, k) = (h', k')" by (cases "fold (run_command t) ?cs (h, k)")
  show ?thesis
    using clientrecv_runs [OF assms(1,2), of t "(h, k)"] assms(3) run_commands_led [of t ?cs h k]
      run_commands_query [of t ?cs h k] by (simp add: hk c)
qed

text \<open>Without that condition it can be otherwise: three bytes received first toggle an LED when the
  fourth is in \<open>msg\<close> by chance.\<close>

lemma first_message_completed:
  "\<exists>h' k'. clientrecv t [(0, [''LED''])] (''abc2'' @ replicate 96 NUL, h, k) = Some ((clear_msg, h', k'), False) \<and>
     h' = LED_TOGGLE L2 h \<and> k' = k"
proof -
  let ?m = "''LED2'' @ replicate 96 NUL"
  have "strncpy (''abc2'' @ replicate 96 NUL) ''LED'' 3 = Some ?m"
    by (simp add: strncpy_def numeral_3_eq_3)
  moreover have "memset ?m NUL 100 = Some clear_msg" by (simp add: memset_def)
  moreover have "strncmp ?m ''LED1'' 4 = Some 1" "strncmp ?m ''LED2'' 4 = Some 0"
    by (simp_all add: numeral_eq_Suc)
  ultimately show ?thesis
    by (subst clientrecv.simps, subst clientrecv_buf.simps)
      (simp add: clientrecv_chunk_def netbuf_next_def numeral_3_eq_3 del: append.simps replicate.simps)
qed

lemma clientrecv_commands_witness:
  "\<exists>h' k'. clientrecv 2 [(0, [''LED1'']), (0, [''query?'']), (0, [''LED2 on'', ''LED3''])]
       (replicate 100 (CHR ''x''), hw_default, two_tasks) = Some ((clear_msg, h', k'), False) \<and>
     \<not> led_lit h' L1 \<and> led_lit h' L2 \<and> led_lit h' L3"
proof -
  let ?rs = "[(0, [''LED1'']), (0, [''query?'']), (0, [''LED2 on'', ''LED3''])] :: (int \<times> string list) list"
  have "led_lit hw_default l" for l by (simp add: led_lit_def hw_default_def)
  moreover have P: "\<forall>(e, ch) \<in> set ?rs. e = 0 \<and> ch \<noteq> [] \<and> length (hd ch) \<le> 100"
    "length (replicate 100 (CHR ''x'')) = 100" "\<not> cut_command (hd (snd (hd ?rs)))"
    by (simp_all add: cut_command_def strict_prefix_def)
  ultimately show ?thesis
    using clientrecv_commands [OF P, of 2 hw_default two_tasks] by (force simp: parse_command_def)
qed

text \<open>A command in a chain of two buffers has no effect on the LEDs, and the second buffer is
  never looked at; the first receive error ends the task.\<close>

theorem clientrecv_chain_of_two:
  assumes "length s \<le> 100" and "err \<noteq> 0" and "parse_command s = Toggle l"
  shows "\<exists>h' k'. clientrecv t [(0, [s, s']), (err, ch)] (clear_msg, h, k) = Some ((clear_msg, h', k'), True) \<and>
    (\<forall>l. led_lit h' l = led_lit h l) \<and> k' = k"
  using clientrecv_buf_repeats [OF assms(1), of "[s, s']" clear_msg t "[s']" "(h, k)"] assms(2,3)
  by (auto simp: numeral_2_eq_2 led_lit_TOGGLE)

lemma clientrecv_chain_of_two_witness:
  "\<exists>h' k'. clientrecv 2 [(0, [''LED1'', ''LED2'']), (- 15, [])] (clear_msg, hw_default, two_tasks) =
     Some ((clear_msg, h', k'), True) \<and> led_lit h' L2 = led_lit hw_default L2"
  using clientrecv_chain_of_two [of "''LED1''" "- 15" L1 2 "''LED2''" "[]" hw_default two_tasks]
  by (auto simp: parse_command_def)

end
