(* ===== verification/Blocks.thy ===== *)
theory Blocks
  imports Main
begin

text \<open>
  A heap as the list of its blocks in address order: a size and whether the block is allocated.
  The abstract state of the two heaps of the program (FreeRTOS/port/MemMang/heap_4.c and
  LwIP/core/mem.c), with what allocation and release do to it.
\<close>

type_synonym block = "nat \<times> bool"

definition bytes :: "block list \<Rightarrow> nat" where
  "bytes bs = sum_list (map fst bs)"

definition free_total :: "block list \<Rightarrow> nat" where
  "free_total bs = sum_list (map fst (filter (\<lambda>b. \<not> snd b) bs))"

text \<open>The allocated blocks, with their addresses.\<close>

fun allocs :: "nat \<Rightarrow> block list \<Rightarrow> (nat \<times> nat) set" where
  "allocs a [] = {}"
| "allocs a ((s, al) # bs) = (if al then {(a, s)} else {}) \<union> allocs (a + s) bs"

lemma bytes_simps [simp]:
  "bytes [] = 0" "bytes ((s, al) # bs) = s + bytes bs" "bytes (xs @ ys) = bytes xs + bytes ys"
  by (simp_all add: bytes_def)

lemma free_total_simps [simp]:
  "free_total [] = 0" "free_total ((s, True) # bs) = free_total bs"
  "free_total ((s, False) # bs) = s + free_total bs"
  "free_total (xs @ ys) = free_total xs + free_total ys"
  by (simp_all add: free_total_def)

lemma free_total_le: "free_total bs \<le> bytes bs"
  by (induction bs) (auto simp: bytes_def free_total_def)

lemma allocs_append: "allocs a (xs @ ys) = allocs a xs \<union> allocs (a + bytes xs) ys"
  by (induction xs arbitrary: a) (auto simp: add.assoc)

text \<open>Every block has at least the size \<open>lo\<close>, a multiple of \<open>g\<close>.\<close>

definition blocks_ok :: "nat \<Rightarrow> nat \<Rightarrow> block list \<Rightarrow> bool" where
  "blocks_ok lo g bs \<longleftrightarrow> (\<forall>b \<in> set bs. lo \<le> fst b \<and> fst b mod g = 0)"

lemma blocks_ok_simps [simp]:
  "blocks_ok lo g []" "blocks_ok lo g ((s, al) # bs) \<longleftrightarrow> lo \<le> s \<and> s mod g = 0 \<and> blocks_ok lo g bs"
  "blocks_ok lo g (xs @ ys) \<longleftrightarrow> blocks_ok lo g xs \<and> blocks_ok lo g ys"
  by (auto simp: blocks_ok_def)

lemma allocs_range:
  "blocks_ok lo g bs \<Longrightarrow> (y, s) \<in> allocs a bs \<Longrightarrow> a \<le> y \<and> y + s \<le> a + bytes bs \<and> lo \<le> s \<and> s mod g = 0"
proof (induction bs arbitrary: a)
  case (Cons b bs)
  obtain t al where b: "b = (t, al)" by (cases b)
  show ?case using Cons.IH [of "a + t"] Cons.prems by (auto simp: b split: if_splits)
qed simp

text \<open>A released block joins its free neighbours.\<close>

fun merge_right :: "nat \<Rightarrow> block list \<Rightarrow> block list" where
  "merge_right s [] = [(s, False)]"
| "merge_right s ((t, al) # ys) = (if al then (s, False) # (t, al) # ys else (s + t, False) # ys)"

fun insert_free :: "block list \<Rightarrow> nat \<Rightarrow> block list \<Rightarrow> block list" where
  "insert_free [] s ys = merge_right s ys"
| "insert_free ((t, al) # xs) s ys =
     (if xs = [] \<and> \<not> al then merge_right (t + s) ys else (t, al) # insert_free xs s ys)"

lemma insert_free_snoc:
  "insert_free (xs @ [(t, al)]) s ys = (if al then xs @ (t, al) # merge_right s ys else xs @ merge_right (t + s) ys)"
  by (induction xs) (auto simp: split: prod.splits)

lemma bytes_insert_free [simp]: "bytes (insert_free xs s ys) = bytes xs + s + bytes ys"
proof -
  have m: "bytes (merge_right s ys) = s + bytes ys" for s ys by (cases "(s, ys)" rule: merge_right.cases) auto
  show ?thesis by (induction xs s ys rule: insert_free.induct) (auto simp: m)
qed

lemma free_insert_free [simp]:
  "free_total (insert_free xs s ys) = free_total xs + s + free_total ys"
proof -
  have m: "free_total (merge_right s ys) = s + free_total ys" for s ys
    by (cases "(s, ys)" rule: merge_right.cases) (auto simp: free_total_def)
  have c: "free_total ((t, al) # bs) = (if al then 0 else t) + free_total bs" for t al bs by simp
  show ?thesis by (induction xs s ys rule: insert_free.induct) (auto simp: m c simp del: free_total_simps(2,3))
qed

lemma blocks_ok_insert_free:
  "blocks_ok lo g xs \<Longrightarrow> blocks_ok lo g [(s, False)] \<Longrightarrow> blocks_ok lo g ys \<Longrightarrow> blocks_ok lo g (insert_free xs s ys)"
proof -
  have m: "lo \<le> s \<Longrightarrow> s mod g = 0 \<Longrightarrow> blocks_ok lo g ys \<Longrightarrow> blocks_ok lo g (merge_right s ys)" for s ys
    by (cases "(s, ys)" rule: merge_right.cases) (auto simp: mod_add_eq [symmetric])
  show "blocks_ok lo g xs \<Longrightarrow> blocks_ok lo g [(s, False)] \<Longrightarrow> blocks_ok lo g ys \<Longrightarrow> blocks_ok lo g (insert_free xs s ys)"
    by (induction xs s ys rule: insert_free.induct) (auto simp: m mod_add_eq [symmetric])
qed

lemma allocs_insert_free:
  "allocs a (insert_free xs s ys) = allocs a xs \<union> allocs (a + bytes xs + s) ys"
proof -
  have m: "allocs a (merge_right s ys) = allocs (a + s) ys" for a s ys
    by (cases "(s, ys)" rule: merge_right.cases) (auto simp: add.assoc)
  show ?thesis
  proof (cases xs rule: rev_cases)
    case (snoc us u)
    obtain t al where u: "u = (t, al)" by (cases u)
    show ?thesis by (cases al) (simp_all add: snoc u m insert_free_snoc allocs_append add.assoc)
  qed (simp add: m)
qed

lemma allocs_remove:
  assumes "0 < lo" and "blocks_ok lo g (xs @ (s, True) # ys)"
  shows "allocs a (insert_free xs s ys) = allocs a (xs @ (s, True) # ys) - {(a + bytes xs, s)}"
proof -
  have "(a + bytes xs, s) \<notin> allocs a xs" "(a + bytes xs, s) \<notin> allocs (a + bytes xs + s) ys"
    using allocs_range [of lo g xs "a + bytes xs" s a] allocs_range [of lo g ys "a + bytes xs" s "a + bytes xs + s"] assms
    by auto
  then show ?thesis by (auto simp: allocs_insert_free allocs_append)
qed

text \<open>No two free blocks are neighbours.\<close>

fun coalesced :: "block list \<Rightarrow> bool" where
  "coalesced [] \<longleftrightarrow> True"
| "coalesced [b] \<longleftrightarrow> True"
| "coalesced (b # c # bs) \<longleftrightarrow> (snd b \<or> snd c) \<and> coalesced (c # bs)"

lemma coalesced_Cons: "coalesced (b # bs) \<longleftrightarrow> (bs = [] \<or> snd b \<or> snd (hd bs)) \<and> coalesced bs"
  by (cases bs) auto

lemma coalesced_append:
  "coalesced (xs @ ys) \<longleftrightarrow> coalesced xs \<and> coalesced ys \<and> (xs = [] \<or> ys = [] \<or> snd (last xs) \<or> snd (hd ys))"
  by (induction xs) (auto simp: coalesced_Cons hd_append split: if_splits)

lemma coalesced_insert_free:
  "coalesced xs \<Longrightarrow> coalesced ys \<Longrightarrow> coalesced (insert_free xs s ys)"
proof -
  have m: "coalesced ys \<Longrightarrow> coalesced (merge_right s ys)" "merge_right s ys \<noteq> []" for s
    by (cases "(s, ys)" rule: merge_right.cases; auto simp: coalesced_Cons)+
  assume "coalesced xs" "coalesced ys"
  then show ?thesis
    by (cases xs rule: rev_cases) (auto simp: m insert_free_snoc coalesced_append coalesced_Cons)
qed

definition none_fits :: "nat \<Rightarrow> block list \<Rightarrow> bool" where
  "none_fits w bs \<longleftrightarrow> (\<forall>s. (s, False) \<in> set bs \<longrightarrow> s < w)"

lemma fits_or_not:
  obtains (none) "none_fits w bs"
  | (fits) xs s ys where "bs = xs @ (s, False) # ys" "none_fits w xs" "w \<le> s"
proof (cases "none_fits w bs")
  case True
  then show thesis by (rule none)
next
  case False
  then obtain t where "(t, False) \<in> set bs" "\<not> t < w" unfolding none_fits_def by blast
  then have "\<exists>b \<in> set bs. \<not> snd b \<and> w \<le> fst b" by (intro bexI [of _ "(t, False)"]) simp_all
  from split_list_first_prop [OF this] obtain xs b ys where "bs = xs @ b # ys"
    "\<not> snd b \<and> w \<le> fst b" "\<forall>c \<in> set xs. \<not> (\<not> snd c \<and> w \<le> fst c)"
    by (elim exE conjE) blast
  obtain s where b: "b = (s, False)" "w \<le> s" using \<open>\<not> snd b \<and> w \<le> fst b\<close> by (cases b) simp
  have "none_fits w xs"
    using \<open>\<forall>c \<in> set xs. \<not> (\<not> snd c \<and> w \<le> fst c)\<close> unfolding none_fits_def by (metis fst_conv not_le snd_conv)
  with b \<open>bs = xs @ b # ys\<close> show thesis by (intro fits [of xs s ys]) simp_all
qed

lemma free_total_member: "(s, False) \<in> set bs \<Longrightarrow> s \<le> free_total bs"
proof (induction bs)
  case (Cons b bs)
  obtain t al where b: "b = (t, al)" by (cases b)
  show ?case using Cons by (cases al) (auto simp: b)
qed simp

lemma none_fits_free_total: "free_total bs < w \<Longrightarrow> none_fits w bs"
  unfolding none_fits_def using free_total_member by fastforce

text \<open>Blocks laid end to end: the live ones lie apart, aligned, and add up with the free ones.\<close>

lemma allocs_apart:
  "(y, s) \<in> allocs a bs \<Longrightarrow> (z, r) \<in> allocs a bs \<Longrightarrow> blocks_ok lo g bs \<Longrightarrow>
   (z, r) = (y, s) \<or> y + s \<le> z \<or> z + r \<le> y"
proof (induction bs arbitrary: a)
  case (Cons b bs)
  obtain t al where b: "b = (t, al)" by (cases b)
  show ?case
    using Cons.IH [of "a + t"] Cons.prems allocs_range [of lo g bs y s "a + t"] allocs_range [of lo g bs z r "a + t"]
    by (auto simp: b split: if_splits)
qed simp

lemma allocs_aligned: "(y, s) \<in> allocs a bs \<Longrightarrow> blocks_ok lo g bs \<Longrightarrow> a mod g = 0 \<Longrightarrow> y mod g = 0"
proof (induction bs arbitrary: a)
  case (Cons b bs)
  obtain t al where b: "b = (t, al)" by (cases b)
  show ?case using Cons.IH [of "a + t"] Cons.prems by (auto simp: b mod_add_eq [symmetric] split: if_splits)
qed simp

lemma allocs_sum:
  "blocks_ok lo g bs \<Longrightarrow> 0 < lo \<Longrightarrow> finite (allocs a bs) \<and> free_total bs + (\<Sum>(y, s) \<in> allocs a bs. s) = bytes bs"
proof (induction bs arbitrary: a)
  case (Cons b bs)
  obtain t al where b: "b = (t, al)" by (cases b)
  have "(a, t) \<notin> allocs (a + t) bs" using allocs_range [of lo g bs a t "a + t"] Cons.prems by (auto simp: b)
  then show ?case using Cons.IH [of "a + t"] Cons.prems by (cases al) (auto simp: b)
qed simp

lemma coalesced_all_free:
  "coalesced bs \<Longrightarrow> allocs a bs = {} \<Longrightarrow> 0 < bytes bs \<Longrightarrow> bs = [(bytes bs, False)]"
proof -
  assume A: "coalesced bs" "allocs a bs = {}" "0 < bytes bs"
  obtain s al cs where b: "bs = (s, al) # cs" using A(3) by (cases bs) auto
  moreover have "\<not> al" using A(2) by (auto simp: b)
  moreover have "cs = []"
  proof (rule ccontr)
    assume "cs \<noteq> []"
    then obtain t al' ds where "cs = (t, al') # ds" by (cases cs) auto
    then show False using A by (auto simp: b split: if_splits)
  qed
  ultimately show ?thesis by simp
qed

end
