(* ===== verification/RtosHeap.thy ===== *)
theory RtosHeap
  imports RtosKernel Blocks
begin

unbundle bit_operations_syntax

text \<open>
  The heap of FreeRTOS (FreeRTOS/port/MemMang/heap_4.c): a free list in address order, first fit,
  split and coalesce. Addresses are natural numbers (the 25 KB array lies far below the end of the
  address space); sizes are 32-bit words, the top bit of a block's size marking it allocated. The
  headers of the blocks are a map from their addresses.
\<close>

section \<open>State\<close>

record BlockLink_t =
  pxNextFreeBlock :: nat
  xBlockSize :: u32

text \<open>\<open>xStart\<close> and \<open>ucHeap\<close> are the addresses of those two objects; NULL is 0.\<close>

record heap =
  links :: "nat \<Rightarrow> BlockLink_t"
  xStart :: nat
  ucHeap :: nat
  pxEnd :: nat
  xFreeBytesRemaining :: u32
  xMinimumEverFreeBytesRemaining :: u32
  xBlockAllocatedBit :: u32

definition configTOTAL_HEAP_SIZE :: nat where "configTOTAL_HEAP_SIZE = 25 * 1024"
definition portBYTE_ALIGNMENT :: nat where "portBYTE_ALIGNMENT = 8"
definition xHeapStructSize :: nat where "xHeapStructSize = 8"
definition heapMINIMUM_BLOCK_SIZE :: u32 where "heapMINIMUM_BLOCK_SIZE = of_nat (xHeapStructSize * 2)"

lemmas heap_consts = configTOTAL_HEAP_SIZE_def portBYTE_ALIGNMENT_def xHeapStructSize_def
  heapMINIMUM_BLOCK_SIZE_def

definition upd_link :: "nat \<Rightarrow> (BlockLink_t \<Rightarrow> BlockLink_t) \<Rightarrow> heap \<Rightarrow> heap" where
  "upd_link a f h = h\<lparr>links := (links h)(a := f (links h a))\<rparr>"

section \<open>Operations\<close>

definition prvHeapInit :: "heap \<Rightarrow> heap" where
  "prvHeapInit h =
    (let uxAddress = ucHeap h; xTotalHeapSize = configTOTAL_HEAP_SIZE;
         (uxAddress, xTotalHeapSize) =
           (if uxAddress mod portBYTE_ALIGNMENT \<noteq> 0
            then let u = (uxAddress + (portBYTE_ALIGNMENT - 1)) div portBYTE_ALIGNMENT * portBYTE_ALIGNMENT
                 in (u, xTotalHeapSize - (u - ucHeap h))
            else (uxAddress, xTotalHeapSize));
         pucAlignedHeap = uxAddress;
         h = upd_link (xStart h) (\<lambda>_. \<lparr>pxNextFreeBlock = pucAlignedHeap, xBlockSize = 0\<rparr>) h;
         uxAddress = (pucAlignedHeap + xTotalHeapSize - xHeapStructSize) div portBYTE_ALIGNMENT * portBYTE_ALIGNMENT;
         h = h\<lparr>pxEnd := uxAddress\<rparr>;
         h = upd_link uxAddress (\<lambda>_. \<lparr>pxNextFreeBlock = 0, xBlockSize = 0\<rparr>) h;
         h = upd_link pucAlignedHeap (\<lambda>_. \<lparr>pxNextFreeBlock = pxEnd h,
               xBlockSize = of_nat (uxAddress - pucAlignedHeap)\<rparr>) h
     in h\<lparr>xMinimumEverFreeBytesRemaining := xBlockSize (links h pucAlignedHeap),
          xFreeBytesRemaining := xBlockSize (links h pucAlignedHeap),
          xBlockAllocatedBit := push_bit 31 1\<rparr>)"

partial_function (option) insert_place :: "heap \<Rightarrow> nat \<Rightarrow> nat \<Rightarrow> nat option" where
  "insert_place h pxBlockToInsert pxIterator =
    (if pxNextFreeBlock (links h pxIterator) < pxBlockToInsert
     then insert_place h pxBlockToInsert (pxNextFreeBlock (links h pxIterator))
     else Some pxIterator)"

definition insert_at :: "nat \<Rightarrow> nat \<Rightarrow> heap \<Rightarrow> heap" where
  "insert_at pxIterator pxBlockToInsert h =
    (let (pxBlockToInsert, h) =
           (if pxIterator + unat (xBlockSize (links h pxIterator)) = pxBlockToInsert
            then (pxIterator, upd_link pxIterator
                   (xBlockSize_update (\<lambda>s. s + xBlockSize (links h pxBlockToInsert))) h)
            else (pxBlockToInsert, h));
         next = pxNextFreeBlock (links h pxIterator);
         h = (if pxBlockToInsert + unat (xBlockSize (links h pxBlockToInsert)) = next
              then (if next \<noteq> pxEnd h
                    then upd_link pxBlockToInsert
                      (\<lambda>b. \<lparr>pxNextFreeBlock = pxNextFreeBlock (links h next),
                             xBlockSize = xBlockSize b + xBlockSize (links h next)\<rparr>) h
                    else upd_link pxBlockToInsert (pxNextFreeBlock_update (\<lambda>_. pxEnd h)) h)
              else upd_link pxBlockToInsert (pxNextFreeBlock_update (\<lambda>_. next)) h)
     in if pxIterator \<noteq> pxBlockToInsert
        then upd_link pxIterator (pxNextFreeBlock_update (\<lambda>_. pxBlockToInsert)) h else h)"

definition prvInsertBlockIntoFreeList :: "nat \<Rightarrow> heap \<Rightarrow> heap option" where
  "prvInsertBlockIntoFreeList pxBlockToInsert h =
     map_option (\<lambda>it. insert_at it pxBlockToInsert h) (insert_place h pxBlockToInsert (xStart h))"

definition adjust_size :: "u32 \<Rightarrow> u32" where
  "adjust_size xWantedSize =
    (if 0 < xWantedSize then
       let w = xWantedSize + of_nat xHeapStructSize
       in if w AND 7 \<noteq> 0 then w + (of_nat portBYTE_ALIGNMENT - (w AND 7)) else w
     else xWantedSize)"

partial_function (option) find_block :: "heap \<Rightarrow> u32 \<Rightarrow> nat \<Rightarrow> nat \<Rightarrow> (nat \<times> nat) option" where
  "find_block h xWantedSize pxPreviousBlock pxBlock =
    (if xBlockSize (links h pxBlock) < xWantedSize \<and> pxNextFreeBlock (links h pxBlock) \<noteq> 0
     then find_block h xWantedSize pxBlock (pxNextFreeBlock (links h pxBlock))
     else Some (pxPreviousBlock, pxBlock))"

text \<open>The end of the branch of \<open>pvPortMalloc\<close> for \<open>pxBlock != pxEnd\<close>: the counters and the
  header of the block; before it, the block is taken out of the list and split.\<close>

definition mark_allocated :: "nat \<Rightarrow> heap \<Rightarrow> heap" where
  "mark_allocated pxBlock h =
    (let h = h\<lparr>xFreeBytesRemaining := xFreeBytesRemaining h - xBlockSize (links h pxBlock)\<rparr>;
         h = (if xFreeBytesRemaining h < xMinimumEverFreeBytesRemaining h
              then h\<lparr>xMinimumEverFreeBytesRemaining := xFreeBytesRemaining h\<rparr> else h)
     in upd_link pxBlock
          (\<lambda>b. \<lparr>pxNextFreeBlock = 0, xBlockSize = xBlockSize b OR xBlockAllocatedBit h\<rparr>) h)"

definition take_block :: "u32 \<Rightarrow> nat \<Rightarrow> nat \<Rightarrow> heap \<Rightarrow> (nat \<times> heap) option" where
  "take_block xWantedSize pxPreviousBlock pxBlock h =
    (let pvReturn = pxNextFreeBlock (links h pxPreviousBlock) + xHeapStructSize;
         h = upd_link pxPreviousBlock
               (pxNextFreeBlock_update (\<lambda>_. pxNextFreeBlock (links h pxBlock))) h
     in map_option (\<lambda>h. (pvReturn, mark_allocated pxBlock h))
       (if heapMINIMUM_BLOCK_SIZE < xBlockSize (links h pxBlock) - xWantedSize then
          let pxNewBlockLink = pxBlock + unat xWantedSize;
              h = upd_link pxNewBlockLink
                    (xBlockSize_update (\<lambda>_. xBlockSize (links h pxBlock) - xWantedSize)) h;
              h = upd_link pxBlock (xBlockSize_update (\<lambda>_. xWantedSize)) h
          in prvInsertBlockIntoFreeList pxNewBlockLink h
        else Some h))"

definition malloc_body :: "u32 \<Rightarrow> heap \<Rightarrow> (nat \<times> heap) option" where
  "malloc_body xWantedSize h =
    (let h = (if pxEnd h = 0 then prvHeapInit h else h)
     in if xWantedSize AND xBlockAllocatedBit h = 0 then
          let w = adjust_size xWantedSize
          in if 0 < w \<and> w \<le> xFreeBytesRemaining h then
               Option.bind (find_block h w (xStart h) (pxNextFreeBlock (links h (xStart h))))
                 (\<lambda>(pxPreviousBlock, pxBlock).
                   if pxBlock \<noteq> pxEnd h then take_block w pxPreviousBlock pxBlock h else Some (0, h))
             else Some (0, h)
        else Some (0, h))"

text \<open>The whole call: the scheduler is suspended around the body.\<close>

definition pvPortMalloc :: "u32 \<Rightarrow> heap \<times> kern \<Rightarrow> (nat \<times> heap \<times> kern) option" where
  "pvPortMalloc xWantedSize = (\<lambda>(h, k).
    Option.bind (malloc_body xWantedSize h) (\<lambda>(p, h).
    map_option (\<lambda>(_, k). (p, h, k)) (xTaskResumeAll (vTaskSuspendAll k))))"

definition vPortFree :: "nat \<Rightarrow> heap \<times> kern \<Rightarrow> (heap \<times> kern) option" where
  "vPortFree pv = (\<lambda>(h, k).
    if pv \<noteq> 0 then
      let pxLink = pv - xHeapStructSize
      in if xBlockSize (links h pxLink) AND xBlockAllocatedBit h \<noteq> 0 \<and> pxNextFreeBlock (links h pxLink) = 0
         then
           let h = upd_link pxLink (xBlockSize_update (\<lambda>s. s AND NOT (xBlockAllocatedBit h))) h;
               k = vTaskSuspendAll k;
               h = h\<lparr>xFreeBytesRemaining := xFreeBytesRemaining h + xBlockSize (links h pxLink)\<rparr>
           in Option.bind (prvInsertBlockIntoFreeList pxLink h) (\<lambda>h.
                map_option (\<lambda>(_, k). (h, k)) (xTaskResumeAll k))
         else Some (h, k)
    else Some (h, k))"

definition xPortGetFreeHeapSize :: "heap \<Rightarrow> u32" where
  "xPortGetFreeHeapSize h = xFreeBytesRemaining h"

definition xPortGetMinimumEverFreeHeapSize :: "heap \<Rightarrow> u32" where
  "xPortGetMinimumEverFreeHeapSize h = xMinimumEverFreeBytesRemaining h"

section \<open>The blocks of the heap\<close>

text \<open>
  The heap is a sequence of blocks, each with its size and whether it is allocated, that follow
  each other in memory. \<open>seg m a bs n n'\<close>: the blocks \<open>bs\<close> start at \<open>a\<close>, the free list enters them
  with the pointer \<open>n\<close> and leaves them with \<open>n'\<close>.
\<close>

abbreviation sized :: "block list \<Rightarrow> bool" where
  "sized \<equiv> blocks_ok 16 8"

definition alloc_bit :: u32 where "alloc_bit = push_bit 31 1"

fun seg :: "(nat \<Rightarrow> BlockLink_t) \<Rightarrow> nat \<Rightarrow> block list \<Rightarrow> nat \<Rightarrow> nat \<Rightarrow> bool" where
  "seg m a [] n n' \<longleftrightarrow> n = n'"
| "seg m a ((s, al) # bs) n n' \<longleftrightarrow>
     (if al then seg m (a + s) bs n n'
      else n = a \<and> xBlockSize (m a) = of_nat s \<and> seg m (a + s) bs (pxNextFreeBlock (m a)) n')"

text \<open>What the headers of the allocated blocks hold.\<close>

definition heads :: "(nat \<Rightarrow> BlockLink_t) \<Rightarrow> (nat \<times> nat) set \<Rightarrow> bool" where
  "heads m S \<longleftrightarrow> (\<forall>(y, s) \<in> S. m y = \<lparr>pxNextFreeBlock = 0, xBlockSize = of_nat s OR alloc_bit\<rparr>)"

text \<open>The last free block, or the given address if there is none.\<close>

fun last_free :: "nat \<Rightarrow> nat \<Rightarrow> block list \<Rightarrow> nat" where
  "last_free x a [] = x"
| "last_free x a ((s, al) # bs) = last_free (if al then x else a) (a + s) bs"

lemma seg_append:
  "seg m a (xs @ ys) n n' \<longleftrightarrow> (\<exists>k. seg m a xs n k \<and> seg m (a + bytes xs) ys k n')"
proof (induction xs arbitrary: a n)
  case (Cons x xs)
  obtain s al where x: "x = (s, al)" by (cases x)
  show ?case by (cases al) (simp_all add: x Cons.IH add.assoc)
qed simp

lemma last_free_append:
  "last_free x a (xs @ ys) = last_free (last_free x a xs) (a + bytes xs) ys"
  by (induction xs arbitrary: x a) (auto simp: add.assoc)

lemma heads_union [simp]: "heads m (S \<union> T) \<longleftrightarrow> heads m S \<and> heads m T" "heads m {}"
  "heads m (insert (y, s) S) \<longleftrightarrow> m y = \<lparr>pxNextFreeBlock = 0, xBlockSize = of_nat s OR alloc_bit\<rparr> \<and> heads m S"
  by (auto simp: heads_def)

lemma heads_frame: "heads m S \<Longrightarrow> (\<And>y s. (y, s) \<in> S \<Longrightarrow> m' y = m y) \<Longrightarrow> heads m' S"
  by (fastforce simp: heads_def)

lemma seg_frame:
  assumes "\<And>y. a \<le> y \<Longrightarrow> y < a + bytes bs \<Longrightarrow> m' y = m y" and "sized bs"
  shows "seg m' a bs n n' = seg m a bs n n'"
  using assms
proof (induction bs arbitrary: a n)
  case (Cons b bs)
  obtain s al where b: "b = (s, al)" by (cases b)
  have "m' a = m a" using Cons.prems by (simp add: b)
  moreover have "seg m' (a + s) bs n n' = seg m (a + s) bs n n'" for n
    using Cons.prems by (intro Cons.IH) (simp_all add: b)
  ultimately show ?case by (simp add: b)
qed simp

lemma last_free_range: "sized bs \<Longrightarrow> last_free x a bs = x \<or> a \<le> last_free x a bs \<and> last_free x a bs < a + bytes bs"
proof (induction bs arbitrary: x a)
  case (Cons b bs)
  obtain s al where b: "b = (s, al)" by (cases b)
  show ?case using Cons.IH [of "if al then x else a" "a + s"] Cons.prems by (auto simp: b)
qed simp

lemma last_free_not_alloc:
  "sized bs \<Longrightarrow> x < a \<or> a + bytes bs \<le> x \<Longrightarrow> (last_free x a bs, s) \<notin> allocs a bs"
proof (induction bs arbitrary: x a)
  case (Cons b bs)
  obtain t al where b: "b = (t, al)" by (cases b)
  have "last_free y (a + t) bs \<noteq> a" if "y \<noteq> a" for y
    using last_free_range [of bs y "a + t"] Cons.prems that by (auto simp: b)
  moreover have "(last_free y (a + t) bs, s) \<notin> allocs (a + t) bs" if "y = a \<or> y = x" for y
    using that Cons.prems by (intro Cons.IH) (auto simp: b)
  ultimately show ?case using Cons.prems by (auto simp: b)
qed simp

text \<open>The pointer that leaves a run of blocks is kept in the last free one, or before the run.\<close>

lemma seg_last:
  "seg m a bs (pxNextFreeBlock (m x)) n' \<Longrightarrow> pxNextFreeBlock (m (last_free x a bs)) = n'"
  by (induction bs arbitrary: x a) (auto split: if_splits)

lemma seg_set_last:
  assumes "seg m a bs (pxNextFreeBlock (m x)) n'" "sized bs" "x < a \<or> a + bytes bs \<le> x"
    and "\<And>y. y \<noteq> last_free x a bs \<Longrightarrow> a \<le> y \<and> y < a + bytes bs \<or> y = x \<Longrightarrow> m' y = m y"
    and "pxNextFreeBlock (m' (last_free x a bs)) = n''"
    and "xBlockSize (m' (last_free x a bs)) = xBlockSize (m (last_free x a bs))"
  shows "seg m' a bs (pxNextFreeBlock (m' x)) n''"
  using assms
proof (induction bs arbitrary: x a)
  case (Cons b bs)
  obtain s al where b: "b = (s, al)" by (cases b)
  have ne: "last_free y (a + s) bs = y \<or> a + s \<le> last_free y (a + s) bs" for y
    using last_free_range [of bs y "a + s"] Cons.prems(2) by (auto simp: b)
  have s: "0 < s" using Cons.prems(2) by (simp add: b)
  show ?case
  proof (cases al)
    case True
    have lf: "last_free x (a + s) bs \<noteq> a" using ne [of x] Cons.prems(3) s by (auto simp: b)
    then have "m' a = m a" using Cons.prems(4) [of a] s by (auto simp: b True)
    moreover have "seg m' (a + s) bs (pxNextFreeBlock (m' x)) n''"
      using Cons.prems by (intro Cons.IH) (auto simp: b True)
    ultimately show ?thesis using Cons.prems(1) by (simp add: b True)
  next
    case False
    have "seg m' (a + s) bs (pxNextFreeBlock (m' a)) n''"
      using Cons.prems s by (intro Cons.IH) (auto simp: b False)
    moreover have "pxNextFreeBlock (m' x) = a" 
    proof -
      have "last_free a (a + s) bs \<noteq> x"
        using ne [of a] last_free_range [of bs a "a + s"] Cons.prems(2,3) s by (auto simp: b)
      then have "m' x = m x" using Cons.prems(4) [of x] by (simp add: b False)
      then show ?thesis using Cons.prems(1) by (simp add: b False)
    qed
    moreover have "xBlockSize (m' a) = of_nat s"
    proof (cases "last_free a (a + s) bs = a")
      case True
      then show ?thesis using Cons.prems(1,6) by (simp add: b False)
    next
      case other: False
      then show ?thesis using Cons.prems(1,4) s by (auto simp: b False)
    qed
    ultimately show ?thesis by (simp add: b False)
  qed
qed auto

section \<open>Inserting a block into the free list\<close>

lemma unat_size: "s < 2147483648 \<Longrightarrow> unat (of_nat s :: u32) = s"
  by (rule unat_of_nat_u32) simp

text \<open>Where the free list enters a run of blocks.\<close>

lemma seg_enters:
  assumes "seg m a bs n (a + bytes bs)" and "sized bs"
  shows "a \<le> n" and "n = a \<longleftrightarrow> bs = [] \<or> \<not> snd (hd bs)"
proof -
  have "a \<le> n \<and> (n = a \<longleftrightarrow> bs = [] \<or> \<not> snd (hd bs))"
    using assms
  proof (induction bs arbitrary: a n)
    case (Cons b bs)
    obtain s al where b: "b = (s, al)" by (cases b)
    show ?case using Cons.IH [of "a + s" n] Cons.prems by (cases al) (auto simp: b add.assoc)
  qed simp
  then show "a \<le> n" "n = a \<longleftrightarrow> bs = [] \<or> \<not> snd (hd bs)" by auto
qed

lemma last_free_end:
  assumes "seg m a bs n n'" "sized bs" "bytes bs < 2147483648" "last_free x a bs \<noteq> x"
  shows "last_free x a bs + unat (xBlockSize (m (last_free x a bs))) \<le> a + bytes bs"
  using assms
proof (induction bs arbitrary: x a n)
  case (Cons b bs)
  obtain s al where b: "b = (s, al)" by (cases b)
  show ?case
  proof (cases "last_free (if al then x else a) (a + s) bs = (if al then x else a)")
    case True
    then show ?thesis using Cons.prems by (auto simp: b unat_size split: if_splits)
  next
    case False
    show ?thesis
      using Cons.IH [of "a + s" _ "if al then x else a"] Cons.prems False by (auto simp: b add.assoc split: if_splits)
  qed
qed simp

lemma insert_place_walk:
  assumes "seg (links h) a xs (pxNextFreeBlock (links h x)) k" "sized xs" "a + bytes xs \<le> b"
  shows "insert_place h b x = insert_place h b (last_free x a xs)"
  using assms
proof (induction xs arbitrary: a x)
  case (Cons y xs)
  obtain s al where y: "y = (s, al)" by (cases y)
  have "insert_place h b x = insert_place h b a" if "\<not> al"
    using Cons.prems that by (subst insert_place.simps) (auto simp: y)
  then show ?case using Cons.IH [of "a + s" "if al then x else a"] Cons.prems by (auto simp: y add.assoc)
qed simp

lemma upd_link_sel [simp]:
  "links (upd_link a f h) b = (if b = a then f (links h a) else links h b)"
  "xStart (upd_link a f h) = xStart h" "ucHeap (upd_link a f h) = ucHeap h" "pxEnd (upd_link a f h) = pxEnd h"
  "xFreeBytesRemaining (upd_link a f h) = xFreeBytesRemaining h"
  "xMinimumEverFreeBytesRemaining (upd_link a f h) = xMinimumEverFreeBytesRemaining h"
  "xBlockAllocatedBit (upd_link a f h) = xBlockAllocatedBit h"
  by (simp_all add: upd_link_def)

text \<open>What the right half of the insertion leaves in the header of the inserted block.\<close>

lemma insert_right:
  assumes "seg m (b + s) ys k e" "e = b + s + bytes ys" "sized ys" "k' = (if k = e then e else pxNextFreeBlock (m k))"
  shows "\<exists>s' ys' nx. merge_right (t + s) ys = (s', False) # ys' \<and> seg m (b + s + (s' - (t + s))) ys' nx e \<and>
    t + s \<le> s' \<and> bytes ys' + s' = t + s + bytes ys \<and> sized ys' \<and>
    (if b + s = k then if k \<noteq> e then nx = pxNextFreeBlock (m k) \<and> of_nat s' = of_nat (t + s) + xBlockSize (m k)
       else nx = e \<and> s' = t + s else nx = k \<and> s' = t + s)"
proof (cases ys)
  case Nil
  then show ?thesis using assms by (intro exI [of _ "t + s"] exI [of _ "[]"] exI [of _ e]) auto
next
  case (Cons y zs)
  obtain u al where y: "y = (u, al)" by (cases y)
  note E = seg_enters [of m "b + s" ys k]
  show ?thesis
  proof (cases al)
    case True
    then have "k \<noteq> b + s" using E assms by (simp add: Cons y)
    then show ?thesis using assms True by (intro exI [of _ "t + s"] exI [of _ ys] exI [of _ k]) (auto simp: Cons y)
  next
    case False
    then have "k = b + s" "k \<noteq> e" using assms by (auto simp: Cons y)
    then show ?thesis using assms False
      by (intro exI [of _ "t + s + u"] exI [of _ zs] exI [of _ "pxNextFreeBlock (m k)"]) (auto simp: Cons y add.assoc)
  qed
qed

text \<open>Where the insertion stops, and when it joins the block to the one before it.\<close>

lemma insert_place_found:
  assumes "seg (links h) a xs (pxNextFreeBlock (links h (xStart h))) k" "sized xs" "a + bytes xs < k"
  shows "insert_place h (a + bytes xs) (xStart h) = Some (last_free (xStart h) a xs)"
proof -
  have "pxNextFreeBlock (links h (last_free (xStart h) a xs)) = k" by (rule seg_last [OF assms(1)])
  then show ?thesis
    using insert_place_walk [OF assms(1,2) order_refl] assms(3) by (subst (asm) insert_place.simps) simp
qed

lemma joins_left:
  assumes "seg m a xs n k" "sized xs" "bytes xs < 2147483648" "x < a \<or> a + bytes xs < x"
    and "xBlockSize (m x) = 0"
  shows "last_free x a xs + unat (xBlockSize (m (last_free x a xs))) = a + bytes xs \<longleftrightarrow>
    xs \<noteq> [] \<and> \<not> snd (last xs)"
proof (cases xs rule: rev_cases)
  case Nil
  then show ?thesis using assms by auto
next
  case (snoc xs' y)
  obtain t al where y: "y = (t, al)" by (cases y)
  obtain j where j: "seg m a xs' n j" "seg m (a + bytes xs') [(t, al)] j k"
    using assms(1) by (auto simp: snoc y seg_append)
  show ?thesis
  proof (cases al)
    case True
    have "last_free x a xs' + unat (xBlockSize (m (last_free x a xs'))) \<noteq> a + (bytes xs' + t)"
    proof (cases "last_free x a xs' = x")
      case True
      then show ?thesis using assms(4,5) by (auto simp: snoc y)
    next
      case False
      then have "last_free x a xs' + unat (xBlockSize (m (last_free x a xs'))) \<le> a + bytes xs'"
        using assms(2,3) by (intro last_free_end [OF j(1)]) (auto simp: snoc y)
      then show ?thesis using assms(2) by (simp add: snoc y)
    qed
    then show ?thesis by (simp add: snoc y last_free_append True)
  next
    case False
    then show ?thesis using j(2) assms(3) by (simp add: snoc y last_free_append unat_size)
  qed
qed

lemma insert_correct:
  assumes ch: "seg (links h) a xs (pxNextFreeBlock (links h (xStart h))) k"
      "seg (links h) (a + bytes xs + s) ys k (pxEnd h)"
    and b: "xBlockSize (links h (a + bytes xs)) = of_nat s" "16 \<le> s" "s mod 8 = 0"
    and e: "pxEnd h = a + bytes xs + s + bytes ys" "bytes xs + s + bytes ys < 2147483648"
    and sz: "sized xs" "sized ys"
    and x: "xStart h < a \<or> pxEnd h < xStart h" "xBlockSize (links h (xStart h)) = 0"
  shows "\<exists>m. prvInsertBlockIntoFreeList (a + bytes xs) h = Some (h\<lparr>links := m\<rparr>) \<and>
    seg m a (insert_free xs s ys) (pxNextFreeBlock (m (xStart h))) (pxEnd h) \<and>
    (\<forall>y. (y < a \<or> pxEnd h \<le> y) \<and> y \<noteq> xStart h \<longrightarrow> m y = links h y) \<and>
    xBlockSize (m (xStart h)) = 0 \<and>
    (\<forall>(y, r) \<in> allocs a (insert_free xs s ys). m y = links h y)"
proof -
  define x where "x = xStart h"
  define it where "it = last_free x a xs"
  define B where "B = a + bytes xs"
  note E = seg_enters [of "links h" "B + s" ys k]
  have k: "B + s \<le> k" using E(1) ch(2) e(1) sz(2) by (simp add: B_def add.assoc)
  then have place: "insert_place h B (xStart h) = Some it"
    using insert_place_found [OF ch(1) sz(1)] b(2) by (simp add: B_def it_def x_def)
  have nit: "pxNextFreeBlock (links h it) = k"
    unfolding it_def x_def by (rule seg_last [OF ch(1)])
  have left: "it + unat (xBlockSize (links h it)) = B \<longleftrightarrow> xs \<noteq> [] \<and> \<not> snd (last xs)"
    unfolding it_def B_def x_def
    by (rule joins_left [OF ch(1) sz(1)]) (use e x in auto)
  have itr: "it = x \<or> a \<le> it \<and> it < B"
    using last_free_range [OF sz(1), of x a] by (simp add: it_def B_def)
  define t where "t = (if xs \<noteq> [] \<and> \<not> snd (last xs) then fst (last xs) else 0)"
  define p where "p = (if xs \<noteq> [] \<and> \<not> snd (last xs) then it else B)"
  define us where "us = (if xs \<noteq> [] \<and> \<not> snd (last xs) then butlast xs else xs)"
  have p: "p = a + bytes us" "p + t = B" "p \<noteq> x" and ins: "insert_free xs s ys = us @ merge_right (t + s) ys"
    and us: "seg (links h) a us (pxNextFreeBlock (links h x)) (if it = p then it else k)"
      "sized us" "it \<noteq> p \<Longrightarrow> it = last_free x a us" "bytes us \<le> bytes xs"
    and sp: "xBlockSize (links h p) = of_nat (if it = p then t else s)"
  proof -
    have "p = a + bytes us \<and> p + t = B \<and> insert_free xs s ys = us @ merge_right (t + s) ys \<and>
      seg (links h) a us (pxNextFreeBlock (links h x)) (if it = p then it else k) \<and> sized us \<and>
      (it \<noteq> p \<longrightarrow> it = last_free x a us) \<and> xBlockSize (links h p) = of_nat (if it = p then t else s) \<and>
      bytes us \<le> bytes xs"
    proof (cases "xs \<noteq> [] \<and> \<not> snd (last xs)")
      case True
      then obtain xs' u where xs: "xs = xs' @ [(u, False)]" by (cases xs rule: rev_cases) auto
      then have "it = a + bytes xs'" by (simp add: it_def last_free_append)
      moreover have "seg (links h) a xs' (pxNextFreeBlock (links h x)) (a + bytes xs')"
        "xBlockSize (links h (a + bytes xs')) = of_nat u"
        using ch(1) by (auto simp: xs seg_append x_def)
      ultimately show ?thesis
        using sz(1) by (simp add: xs p_def t_def us_def B_def insert_free_snoc)
    next
      case False
      have "it \<noteq> B" using itr x e by (auto simp: x_def B_def)
      moreover have "insert_free xs s ys = xs @ merge_right s ys"
        using False by (cases xs rule: rev_cases) (auto simp: insert_free_snoc)
      ultimately show ?thesis using False sz(1) ch(1) b(1)
        by (auto simp: p_def t_def us_def B_def it_def x_def)
    qed
    then show "p = a + bytes us" "p + t = B" "insert_free xs s ys = us @ merge_right (t + s) ys"
      "seg (links h) a us (pxNextFreeBlock (links h x)) (if it = p then it else k)"
      "sized us" "it \<noteq> p \<Longrightarrow> it = last_free x a us" "bytes us \<le> bytes xs"
      "xBlockSize (links h p) = of_nat (if it = p then t else s)" by blast+
    then show "p \<noteq> x" using x e by (auto simp: x_def)
  qed
  obtain s' ys' nx where R: "merge_right (t + s) ys = (s', False) # ys'"
    "seg (links h) (B + s + (s' - (t + s))) ys' nx (pxEnd h)" "t + s \<le> s'"
    "bytes ys' + s' = t + s + bytes ys" "sized ys'"
    "if B + s = k then if k \<noteq> pxEnd h then nx = pxNextFreeBlock (links h k) \<and>
       of_nat s' = of_nat (t + s) + xBlockSize (links h k) else nx = pxEnd h \<and> s' = t + s
     else nx = k \<and> s' = t + s"
    using insert_right [of "links h" B s ys k "pxEnd h" "if k = pxEnd h then pxEnd h else pxNextFreeBlock (links h k)" t]
      ch(2) e(1) sz(2) by (auto simp: B_def)
  define m where "m = (links h)(p := \<lparr>pxNextFreeBlock = nx, xBlockSize = of_nat s'\<rparr>)"
  define m' where "m' = (if it = p then m else m(it := (m it)\<lparr>pxNextFreeBlock := p\<rparr>))"
  have "t + s < 2147483648"
    using R(3,4) e(2) p(1,2) us(4) unfolding B_def by linarith
  then have un: "unat (of_nat (t + s) :: u32) = t + s" by (rule unat_size)
  have itp: "it = p \<longleftrightarrow> xs \<noteq> [] \<and> \<not> snd (last xs)"
    using itr p(3) x e by (auto simp: p_def B_def x_def)
  have at: "insert_at it B h = h\<lparr>links := m'\<rparr>"
  proof (cases "it = p")
    case True
    then have "xs \<noteq> [] \<and> \<not> snd (last xs)" using itp by simp
    moreover have "p + unat (of_nat t + of_nat s :: u32) = k \<longleftrightarrow> B + s = k" using un p(2) by auto
    moreover have "k \<noteq> p" "B \<noteq> p \<Longrightarrow> True" using k b(2) p(2) by auto
    moreover have "links h p = \<lparr>pxNextFreeBlock = k, xBlockSize = of_nat t\<rparr>"
      using sp nit True by (cases "links h p") simp
    ultimately show ?thesis
      using True R(6) b(1) nit left
      by (auto simp: insert_at_def Let_def m'_def m_def upd_link_def B_def [symmetric] add.commute split: if_splits)
  next
    case False
    then have c: "\<not> (xs \<noteq> [] \<and> \<not> snd (last xs))" using itp by simp
    then have pB: "p = B" "t = 0" by (auto simp: p_def t_def)
    moreover have "B + unat (of_nat s :: u32) = k \<longleftrightarrow> B + s = k" using un pB by simp
    moreover have "k \<noteq> B" using k b(2) by simp
    moreover obtain v where "links h B = \<lparr>pxNextFreeBlock = v, xBlockSize = of_nat s\<rparr>"
      using b(1) unfolding B_def [symmetric] by (cases "links h B") simp
    ultimately show ?thesis
      using False R(6) nit left c
      by (auto simp: insert_at_def Let_def m'_def m_def upd_link_def B_def [symmetric] fun_upd_twist split: if_splits)
  qed
  have pe: "p < B + s" "B + s \<le> pxEnd h" using p(2) b(2) e(1) by (auto simp: B_def)
  have far: "m' y = links h y" if "y \<noteq> p" "y \<noteq> it" for y
    using that by (simp add: m'_def m_def)
  have mp: "m' p = \<lparr>pxNextFreeBlock = nx, xBlockSize = of_nat s'\<rparr>"
    by (simp add: m'_def m_def)
  have head: "seg m' a us (pxNextFreeBlock (m' x)) p"
  proof (cases "it = p")
    case True
    have "seg m' a us (pxNextFreeBlock (links h x)) p"
      using us(1) True by (subst seg_frame [OF _ us(2)]) (auto simp: far p(1))
    then show ?thesis using True p(3) by (simp add: far)
  next
    case False
    note it = us(3) [OF False]
    show ?thesis
    proof (rule seg_set_last [OF _ us(2)])
      show "seg (links h) a us (pxNextFreeBlock (links h x)) k" using us(1) False by simp
      show "x < a \<or> a + bytes us \<le> x" using x pe p(1) by (auto simp: x_def)
      show "m' y = links h y" if "y \<noteq> last_free x a us" "a \<le> y \<and> y < a + bytes us \<or> y = x" for y
        using that p(1,3) it by (auto intro!: far)
      show "pxNextFreeBlock (m' (last_free x a us)) = p" using False it by (simp add: m'_def)
      show "xBlockSize (m' (last_free x a us)) = xBlockSize (links h (last_free x a us))"
        using False it by (simp add: m'_def m_def)
    qed
  qed
  have "seg m' (p + s') ys' nx (pxEnd h)"
  proof -
    have "B + s + (s' - (t + s)) = p + s'" using R(3) p(2) by simp
    then have "seg (links h) (p + s') ys' nx (pxEnd h)" using R(2) by simp
    moreover have "m' y = links h y" if "p + s' \<le> y" "y < p + s' + bytes ys'" for y
    proof -
      have "p + s' + bytes ys' = pxEnd h" using R(4) p(2) e(1) by (simp add: B_def)
      then have "y \<noteq> p" "y \<noteq> it" using that itr x R(3) p(1,2) b(2) by (auto simp: x_def)
      then show ?thesis by (rule far)
    qed
    ultimately show ?thesis using seg_frame [OF _ R(5)] by blast
  qed
  then have "seg m' a (insert_free xs s ys) (pxNextFreeBlock (m' x)) (pxEnd h)"
    using head mp by (auto simp: ins R(1) seg_append p(1) [symmetric])
  moreover have "m' y = links h y" if "y < a \<or> pxEnd h \<le> y" "y \<noteq> xStart h" for y
    using that itr pe p(1) by (intro far) (auto simp: x_def B_def)
  moreover have "xBlockSize (m' x) = 0"
    using x(2) p(3) by (cases "it = x") (auto simp: m'_def m_def x_def)
  moreover have "m' y = links h y" if "(y, r) \<in> allocs a (insert_free xs s ys)" for y r
  proof (rule far)
    have "(y, r) \<in> allocs a xs \<or> (y, r) \<in> allocs (B + s) ys"
      using that by (simp add: allocs_insert_free B_def)
    then have "(y, r) \<in> allocs a xs \<and> y < B \<and> a \<le> y \<or> B < y \<and> y < pxEnd h"
      using allocs_range [OF sz(1)] allocs_range [OF sz(2)] b(2) e(1) by (fastforce simp: B_def)
    moreover have "(it, r) \<notin> allocs a xs"
      unfolding it_def using x e(1) by (intro last_free_not_alloc [OF sz(1)]) (auto simp: x_def)
    ultimately show "y \<noteq> it" using itr x e(1) by (auto simp: x_def B_def)
    then show "y \<noteq> p"
      using \<open>(y, r) \<in> allocs a xs \<and> y < B \<and> a \<le> y \<or> B < y \<and> y < pxEnd h\<close> p(2) itp
      by (auto simp: p_def split: if_splits)
  qed
  moreover have "prvInsertBlockIntoFreeList B h = Some (h\<lparr>links := m'\<rparr>)"
    using place at by (simp add: prvInsertBlockIntoFreeList_def)
  ultimately show ?thesis by (auto simp: x_def B_def)
qed

section \<open>The invariant of the heap\<close>

definition heap_rep :: "heap \<Rightarrow> nat \<Rightarrow> block list \<Rightarrow> bool" where
  "heap_rep h a bs \<longleftrightarrow>
     seg (links h) a bs (pxNextFreeBlock (links h (xStart h))) (pxEnd h) \<and>
     heads (links h) (allocs a bs) \<and> a + bytes bs = pxEnd h \<and> sized bs \<and> coalesced bs \<and>
     bytes bs < 2147483648 \<and> 0 < a \<and> a mod 8 = 0 \<and>
     links h (pxEnd h) = \<lparr>pxNextFreeBlock = 0, xBlockSize = 0\<rparr> \<and>
     xBlockSize (links h (xStart h)) = 0 \<and> (xStart h < a \<or> pxEnd h < xStart h) \<and>
     xFreeBytesRemaining h = of_nat (free_total bs) \<and>
     xMinimumEverFreeBytesRemaining h \<le> xFreeBytesRemaining h \<and> xBlockAllocatedBit h = alloc_bit"

text \<open>The free blocks that are too small for a request.\<close>

lemma seg_nonzero:
  "seg m a bs n n' \<Longrightarrow> 0 < a \<Longrightarrow> n' \<noteq> 0 \<Longrightarrow> n \<noteq> 0"
  by (induction bs arbitrary: a n) (auto split: if_splits)

lemma find_block_walk:
  assumes "seg (links h) a xs (pxNextFreeBlock (links h x)) k" "0 < a" "k \<noteq> 0" "none_fits (unat w) xs"
    and "bytes xs < 2147483648"
  shows "find_block h w x (pxNextFreeBlock (links h x)) = find_block h w (last_free x a xs) k"
  using assms
proof (induction xs arbitrary: x a)
  case (Cons b xs)
  obtain s al where b: "b = (s, al)" by (cases b)
  show ?case
  proof (cases al)
    case True
    then show ?thesis using Cons.IH [of "a + s" x] Cons.prems by (auto simp: b none_fits_def)
  next
    case False
    have sg: "seg (links h) (a + s) xs (pxNextFreeBlock (links h a)) k" "pxNextFreeBlock (links h x) = a"
      "xBlockSize (links h a) = of_nat s"
      using Cons.prems(1) by (simp_all add: b False)
    have "pxNextFreeBlock (links h a) \<noteq> 0" by (rule seg_nonzero [OF sg(1)]) (use Cons.prems in auto)
    moreover have "xBlockSize (links h a) < w"
      using Cons.prems(4,5) sg(3) by (simp add: b False none_fits_def word_less_nat_alt unat_size)
    ultimately have "find_block h w x (pxNextFreeBlock (links h x)) =
        find_block h w a (pxNextFreeBlock (links h a))"
      using sg(2) by (subst find_block.simps) simp
    also have "\<dots> = find_block h w (last_free a (a + s) xs) k"
      using Cons.prems by (intro Cons.IH [OF sg(1)]) (auto simp: none_fits_def b)
    finally show ?thesis by (simp add: b False)
  qed
qed simp

lemma find_block_none:
  assumes "heap_rep h a bs" "none_fits (unat w) bs"
  shows "\<exists>x. find_block h w (xStart h) (pxNextFreeBlock (links h (xStart h))) = Some (x, pxEnd h)"
proof -
  have "find_block h w (xStart h) (pxNextFreeBlock (links h (xStart h))) =
      find_block h w (last_free (xStart h) a bs) (pxEnd h)"
    using assms by (intro find_block_walk) (auto simp: heap_rep_def)
  then show ?thesis using assms(1) by (subst (asm) (2) find_block.simps) (auto simp: heap_rep_def)
qed

lemma find_block_fits:
  assumes "heap_rep h a (xs @ (s, False) # ys)" "none_fits (unat w) xs" "unat w \<le> s"
  shows "find_block h w (xStart h) (pxNextFreeBlock (links h (xStart h))) =
    Some (last_free (xStart h) a xs, a + bytes xs)"
proof -
  have sg: "seg (links h) a xs (pxNextFreeBlock (links h (xStart h))) (a + bytes xs)"
    "xBlockSize (links h (a + bytes xs)) = of_nat s" "s < 2147483648"
    using assms(1) by (auto simp: heap_rep_def seg_append)
  have "find_block h w (xStart h) (pxNextFreeBlock (links h (xStart h))) =
      find_block h w (last_free (xStart h) a xs) (a + bytes xs)"
    using assms by (intro find_block_walk [OF sg(1)]) (auto simp: heap_rep_def)
  then show ?thesis
    using assms(3) sg(2,3) by (subst (asm) (2) find_block.simps) (simp add: word_less_nat_alt unat_size)
qed

lemma seg_alloc_upd:
  "sized bs \<Longrightarrow> (y, r) \<in> allocs a bs \<Longrightarrow> seg (m(y := v)) a bs n n' = seg m a bs n n'"
proof (induction bs arbitrary: a n)
  case (Cons b bs)
  obtain s al where b: "b = (s, al)" by (cases b)
  show ?case
  proof (cases "al \<and> y = a")
    case True
    have "seg (m(y := v)) (a + s) bs n n' = seg m (a + s) bs n n'" for n
      using True Cons.prems by (intro seg_frame) (auto simp: b)
    moreover have "al" using True by simp
    ultimately show ?thesis by (simp only: b seg.simps if_True)
  next
    case False
    then have "(y, r) \<in> allocs (a + s) bs" using Cons.prems(2) by (auto simp: b split: if_splits)
    moreover have "y \<noteq> a" using calculation allocs_range [of 16 8 bs y r "a + s"] Cons.prems(1) by (auto simp: b)
    ultimately show ?thesis using Cons.IH Cons.prems(1) by (simp add: b)
  qed
qed simp

lemma heap_rep_alloc_split:
  "(y, s) \<in> allocs a bs \<Longrightarrow> \<exists>xs ys. bs = xs @ (s, True) # ys \<and> y = a + bytes xs"
proof (induction bs arbitrary: a)
  case (Cons b bs)
  obtain t al where b: "b = (t, al)" by (cases b)
  show ?case
  proof (cases "al \<and> (y, s) = (a, t)")
    case True
    then show ?thesis by (intro exI [of _ "[]"] exI [of _ bs]) (simp add: b)
  next
    case False
    then have "(y, s) \<in> allocs (a + t) bs" using Cons.prems by (auto simp: b split: if_splits)
    then obtain xs ys where "bs = xs @ (s, True) # ys" "y = a + t + bytes xs" using Cons.IH by blast
    then show ?thesis by (intro exI [of _ "b # xs"] exI [of _ ys]) (simp add: b)
  qed
qed simp

section \<open>Sizes\<close>

lemma and7: "unat ((w :: u32) AND 7) = unat w mod 8"
proof -
  have "(w AND 7) = take_bit 3 w" by (simp add: take_bit_eq_mask mask_eq_exp_minus_1)
  then have "unat (w AND 7) = take_bit 3 (unat w)" by (simp only: unsigned_take_bit_eq)
  then show ?thesis by (simp add: take_bit_eq_mod)
qed

definition block_size :: "nat \<Rightarrow> nat" where
  "block_size n = (n + 15) div 8 * 8"

lemma block_size: "n + 8 \<le> block_size n" "block_size n < n + 16" "block_size n mod 8 = 0" "0 < n \<Longrightarrow> 16 \<le> block_size n"
  unfolding block_size_def by auto

lemma adjust_size_value:
  assumes "0 < n" "unat n < 2147483648"
  shows "unat (adjust_size n) = block_size (unat n)"
proof -
  have u: "unat (n + 8) = unat n + 8" using assms(2) by (simp add: unat_word_ariths)
  have m: "unat n mod 8 = unat (n + 8) mod 8" by (simp add: u)
  show ?thesis
  proof (cases "unat n mod 8 = 0")
    case True
    then have "(n + 8) AND 7 = 0" using and7 [of "n + 8"] m by (simp add: unat_eq_zero)
    moreover obtain q where "unat n = 8 * q" using True by auto
    ultimately show ?thesis using assms(1) u by (simp add: adjust_size_def heap_consts block_size_def)
  next
    case False
    then have ne: "(n + 8) AND 7 \<noteq> 0" using and7 [of "n + 8"] m by (metis unat_0)
    have "unat (8 - ((n + 8) AND 7)) = 8 - unat n mod 8"
      using and7 [of "n + 8"] m by (subst unat_sub) (simp_all add: word_le_nat_alt)
    moreover have add: "unat (a + b) = (unat a + unat b) mod 4294967296" for a b :: u32
      by (simp add: unat_word_ariths)
    ultimately have "unat (n + 8 + (8 - ((n + 8) AND 7))) = (unat n + 8 + (8 - unat n mod 8)) mod 4294967296"
      using add [of "n + 8" "8 - ((n + 8) AND 7)"] unfolding u by (simp only:)
    then have "unat (n + 8 + (8 - ((n + 8) AND 7))) = unat n + 8 + (8 - unat n mod 8)"
      using assms(2) by simp
    moreover have "adjust_size n = n + 8 + (8 - ((n + 8) AND 7))"
      using assms(1) ne by (simp add: adjust_size_def heap_consts)
    moreover have "unat n + 8 + (8 - unat n mod 8) = block_size (unat n)"
      using False unfolding block_size_def by presburger
    ultimately show ?thesis by simp
  qed
qed

lemma bit_alloc: "bit alloc_bit k \<longleftrightarrow> k = 31"
proof -
  have "alloc_bit = 2 ^ 31" by (simp add: alloc_bit_def)
  then have "bit alloc_bit k \<longleftrightarrow> bit ((2 :: u32) ^ 31) k" by (rule arg_cong)
  also have "\<dots> \<longleftrightarrow> k = 31" by (simp only: bit_exp_iff) auto
  finally show ?thesis .
qed

lemma and_alloc_bit: "(n :: u32) AND alloc_bit = 0 \<longleftrightarrow> unat n < 2147483648"
proof -
  have "n AND alloc_bit = 0 \<longleftrightarrow> \<not> bit n 31"
  proof
    assume "n AND alloc_bit = 0"
    then have "\<not> bit (n AND alloc_bit) 31" by simp
    then show "\<not> bit n 31" by (simp only: bit_and_iff bit_alloc simp_thms)
  next
    assume "\<not> bit n 31"
    then show "n AND alloc_bit = 0"
      by (intro bit_word_eqI) (auto simp: bit_and_iff bit_alloc)
  qed
  moreover have "bit n 31 \<longleftrightarrow> odd (unat n div 2147483648)"
    using bit_unsigned_iff [of n 31, where ?'a = nat] by (simp add: bit_iff_odd)
  moreover have "unat n div 2147483648 = (if unat n < 2147483648 then 0 else 1)"
    using unat_u32_lt [of n] by (auto simp del: unat_u32_lt intro: div_nat_eqI)
  ultimately show ?thesis by simp
qed

lemma clear_alloc_bit:
  assumes "s < 2147483648"
  shows "(of_nat s OR alloc_bit) AND NOT alloc_bit = of_nat s" "(of_nat s OR alloc_bit) AND alloc_bit \<noteq> 0"
proof -
  have s: "of_nat s AND alloc_bit = 0" unfolding and_alloc_bit using assms by (simp add: unat_size)
  have "\<not> bit (of_nat s :: u32) 31"
  proof
    assume "bit (of_nat s :: u32) 31"
    then have "bit (of_nat s AND alloc_bit) 31" by (simp only: bit_and_iff bit_alloc simp_thms)
    then show False by (simp only: s) simp
  qed
  then show "(of_nat s OR alloc_bit) AND NOT alloc_bit = of_nat s"
    by (intro bit_word_eqI) (auto simp: bit_and_iff bit_or_iff bit_not_iff bit_alloc)
  have "bit ((of_nat s OR alloc_bit) AND alloc_bit) 31"
    by (simp only: bit_and_iff bit_or_iff bit_alloc simp_thms)
  then show "(of_nat s OR alloc_bit) AND alloc_bit \<noteq> 0" by (metis bit_0_eq bot_apply bot_bool_def)
qed

section \<open>What \<open>pvPortMalloc\<close> and \<open>vPortFree\<close> do\<close>

text \<open>The blocks after the allocation of \<open>w\<close> bytes from a free block of \<open>s\<close> bytes.\<close>

definition split_block :: "nat \<Rightarrow> nat \<Rightarrow> block list" where
  "split_block w s = (if 16 < s - w then [(w, True), (s - w, False)] else [(s, True)])"

lemma seg_unlink:
  assumes "seg m a (xs @ (s, False) # ys) (pxNextFreeBlock (m x)) e" "sized xs" "0 < s"
    and "x < a \<or> a + bytes xs + s + bytes ys < x"
  shows "pxNextFreeBlock (m (last_free x a xs)) = a + bytes xs" "last_free x a xs \<noteq> a + bytes xs"
    and "seg m (a + bytes xs + s) ys (pxNextFreeBlock (m (a + bytes xs))) e"
    and "\<lbrakk>\<And>y. y \<noteq> last_free x a xs \<Longrightarrow> a \<le> y \<and> y < a + bytes xs \<or> y = x \<Longrightarrow> m' y = m y;
      m' (last_free x a xs) = (m (last_free x a xs))\<lparr>pxNextFreeBlock := k\<rparr>\<rbrakk>
      \<Longrightarrow> seg m' a xs (pxNextFreeBlock (m' x)) k"
proof -
  have sg: "seg m a xs (pxNextFreeBlock (m x)) (a + bytes xs)"
    "seg m (a + bytes xs + s) ys (pxNextFreeBlock (m (a + bytes xs))) e"
    using assms(1) by (auto simp: seg_append)
  show "pxNextFreeBlock (m (last_free x a xs)) = a + bytes xs" by (rule seg_last [OF sg(1)])
  show "last_free x a xs \<noteq> a + bytes xs"
    using last_free_range [OF assms(2), of x a] assms(3,4) by auto
  show "seg m (a + bytes xs + s) ys (pxNextFreeBlock (m (a + bytes xs))) e" by (rule sg(2))
  assume "\<And>y. y \<noteq> last_free x a xs \<Longrightarrow> a \<le> y \<and> y < a + bytes xs \<or> y = x \<Longrightarrow> m' y = m y"
    "m' (last_free x a xs) = (m (last_free x a xs))\<lparr>pxNextFreeBlock := k\<rparr>"
  then show "seg m' a xs (pxNextFreeBlock (m' x)) k"
    using assms(4) by (intro seg_set_last [OF sg(1) assms(2)]) auto
qed

lemma mark_allocated_eq:
  "mark_allocated b h = h\<lparr>
     links := (links h)(b := \<lparr>pxNextFreeBlock = 0, xBlockSize = xBlockSize (links h b) OR xBlockAllocatedBit h\<rparr>),
     xFreeBytesRemaining := xFreeBytesRemaining h - xBlockSize (links h b),
     xMinimumEverFreeBytesRemaining := min (xFreeBytesRemaining h - xBlockSize (links h b))
       (xMinimumEverFreeBytesRemaining h)\<rparr>"
  by (simp add: mark_allocated_def upd_link_def min_def Let_def)

lemma upd_link_links: "upd_link a f h = h\<lparr>links := (links h)(a := f (links h a))\<rparr>"
  by (simp add: upd_link_def)

lemma take_block_correct:
  assumes rep: "heap_rep h a (xs @ (s, False) # ys)" and w: "unat w \<le> s" "16 \<le> unat w" "unat w mod 8 = 0"
  shows "\<exists>h'. take_block w (last_free (xStart h) a xs) (a + bytes xs) h = Some (a + bytes xs + 8, h') \<and>
    heap_rep h' a (xs @ split_block (unat w) s @ ys)"
proof -
  define x where "x = xStart h"
  define b where "b = a + bytes xs"
  define prev where "prev = last_free x a xs"
  define m where "m = links h"
  define k where "k = pxNextFreeBlock (m b)"
  let ?w = "unat w"
  have R: "seg m a (xs @ (s, False) # ys) (pxNextFreeBlock (m x)) (pxEnd h)"
    "heads m (allocs a xs)" "heads m (allocs (b + s) ys)" "b + s + bytes ys = pxEnd h"
    "sized xs" "sized ys" "16 \<le> s" "s mod 8 = 0" "coalesced xs" "coalesced ys"
    "xs = [] \<or> snd (last xs)" "ys = [] \<or> snd (hd ys)"
    "bytes xs + s + bytes ys < 2147483648" "0 < a" "a mod 8 = 0"
    "m (pxEnd h) = \<lparr>pxNextFreeBlock = 0, xBlockSize = 0\<rparr>" "xBlockSize (m x) = 0" "x < a \<or> pxEnd h < x"
    "xFreeBytesRemaining h = of_nat (free_total xs + s + free_total ys)"
    "xMinimumEverFreeBytesRemaining h \<le> xFreeBytesRemaining h" "xBlockAllocatedBit h = alloc_bit"
    using rep by (auto simp: heap_rep_def m_def x_def b_def allocs_append coalesced_append coalesced_Cons)
  have ab: "a \<le> b" by (simp add: b_def)
  have sb: "xBlockSize (m b) = of_nat s" using R(1) by (auto simp: seg_append b_def)
  have U: "pxNextFreeBlock (m prev) = b" "prev \<noteq> b" "seg m (b + s) ys k (pxEnd h)"
    using seg_unlink(1,2,3) [OF R(1,5)] R(4,7,18) by (auto simp: prev_def b_def k_def)
  have diff: "of_nat s - w = of_nat (s - ?w)" using w(1) by (simp add: of_nat_diff)
  have s31: "s < 2147483648" using R(13) by simp
  have cond: "heapMINIMUM_BLOCK_SIZE < of_nat s - w \<longleftrightarrow> 16 < s - ?w"
    using s31 unfolding diff by (simp add: word_less_nat_alt unat_size heap_consts)
  define m1 where "m1 = m(prev := (m prev)\<lparr>pxNextFreeBlock := k\<rparr>)"
  have prevr: "prev = x \<or> a \<le> prev \<and> prev < b"
    using last_free_range [OF R(5), of x a] by (simp add: prev_def b_def)
  have prev_alloc: "(prev, r) \<notin> allocs a xs" for r
    unfolding prev_def using R(4,18) by (intro last_free_not_alloc [OF R(5)]) (auto simp: b_def)
  have seg_xs: "seg m' a xs (pxNextFreeBlock (m' x)) k"
    if "\<And>y. a \<le> y \<and> y < b \<or> y = x \<Longrightarrow> m' y = m1 y" for m'
  proof (rule seg_unlink(4) [OF R(1,5)])
    show "0 < s" using R(7) by simp
    show "x < a \<or> a + bytes xs + s + bytes ys < x" using R(4,18) by (auto simp: b_def)
    show "m' y = m y" if "y \<noteq> last_free x a xs" "a \<le> y \<and> y < a + bytes xs \<or> y = x" for y
      using that \<open>\<And>y. _ \<Longrightarrow> m' y = m1 y\<close> [of y] by (auto simp: m1_def prev_def b_def)
    show "m' (last_free x a xs) = (m (last_free x a xs))\<lparr>pxNextFreeBlock := k\<rparr>"
      using prevr \<open>\<And>y. _ \<Longrightarrow> m' y = m1 y\<close> [of prev] by (auto simp: m1_def prev_def)
  qed
  have seg_ys: "seg m' (b + s) ys k (pxEnd h)" if "\<And>y. b + s \<le> y \<Longrightarrow> y < pxEnd h \<Longrightarrow> m' y = m y" for m'
    using U(3) seg_frame [OF _ R(6), of "b + s" m' m] R(4) that by simp
  have hd_xs: "m1 y = m y" if "(y, r) \<in> allocs a xs" for y r
    using that prev_alloc by (auto simp: m1_def)
  note rg = allocs_range [OF R(5)] allocs_range [OF R(6)]
  show ?thesis
  proof (cases "16 < s - ?w")
    case False
    define m2 where "m2 = m1(b := \<lparr>pxNextFreeBlock = 0, xBlockSize = of_nat s OR alloc_bit\<rparr>)"
    define f :: u32 where "f = of_nat (free_total xs + free_total ys)"
    define h' where "h' = h\<lparr>links := m2, xFreeBytesRemaining := f,
       xMinimumEverFreeBytesRemaining := min f (xMinimumEverFreeBytesRemaining h)\<rparr>"
    have f: "xFreeBytesRemaining h - of_nat s = f" by (simp add: R(19) f_def)
    have m1b: "m1 b = m b" using U(2) by (simp add: m1_def)
    have "take_block w prev b h = Some (b + 8, h')"
    proof -
      have u: "upd_link prev (pxNextFreeBlock_update (\<lambda>_. k)) h = h\<lparr>links := m1\<rparr>"
        by (simp add: upd_link_def m1_def m_def)
      show ?thesis
        unfolding take_block_def Let_def m_def [symmetric] k_def [symmetric] u
        using False cond U(1) sb m1b f R(21)
        by (simp add: mark_allocated_eq h'_def m2_def heap_consts(3))
    qed
    moreover have "heap_rep h' a (xs @ [(s, True)] @ ys)"
    proof -
      have "seg m2 a (xs @ (s, True) # ys) (pxNextFreeBlock (m2 x)) (pxEnd h)"
      proof -
        have "seg m2 a xs (pxNextFreeBlock (m2 x)) k"
          using R(4,7,18) by (intro seg_xs) (auto simp: m2_def b_def)
        moreover have "seg m2 (b + s) ys k (pxEnd h)"
          using R(4,7,18) ab prevr by (intro seg_ys) (auto simp: m2_def m1_def)
        ultimately show ?thesis by (auto simp: seg_append b_def)
      qed
      moreover have "heads m2 (allocs a xs)"
        by (rule heads_frame [OF R(2)]) (use hd_xs rg(1) in \<open>fastforce simp: m2_def b_def\<close>)
      moreover have "heads m2 (allocs (b + s) ys)"
      proof (rule heads_frame [OF R(3)])
        fix y r assume "(y, r) \<in> allocs (b + s) ys"
        then have "b + s \<le> y" "y < pxEnd h" using rg(2) R(4) by fastforce+
        then show "m2 y = m y" using prevr ab R(7,18) by (auto simp: m2_def m1_def)
      qed
      moreover have "m2 b = \<lparr>pxNextFreeBlock = 0, xBlockSize = of_nat s OR alloc_bit\<rparr>" by (simp add: m2_def)
      moreover have "m2 (pxEnd h) = \<lparr>pxNextFreeBlock = 0, xBlockSize = 0\<rparr>" "xBlockSize (m2 x) = 0"
        using R(4,7,14,16,17,18) prevr by (auto simp: m2_def m1_def b_def)
      moreover have "coalesced (xs @ (s, True) # ys)"
        using R(9,10) by (simp add: coalesced_append coalesced_Cons)
      ultimately show ?thesis
        using R by (simp add: heap_rep_def h'_def x_def [symmetric] allocs_append b_def [symmetric] f_def add.assoc)
          (simp add: b_def add.assoc)
    qed
    ultimately show ?thesis
      using False by (auto simp: split_block_def prev_def b_def x_def)
  next
    case True
    let ?n = "b + ?w" and ?r = "s - ?w"
    define m0 where "m0 = (m1(?n := (m1 ?n)\<lparr>xBlockSize := of_nat ?r\<rparr>))(b := (m b)\<lparr>xBlockSize := w\<rparr>)"
    have nb: "?n \<noteq> prev" "?n \<noteq> b" "?n \<noteq> x" "b \<noteq> x" using prevr w(2) R(4,18) True by (auto simp: b_def)
    have m1b: "m1 b = m b" using U(2) by (simp add: m1_def)
    have m0f: "m0 y = m1 y" if "y \<noteq> b" "y \<noteq> ?n" for y using that by (simp add: m0_def)
    have I: "\<exists>m'. prvInsertBlockIntoFreeList (a + bytes (xs @ [(?w, True)])) (h\<lparr>links := m0\<rparr>) =
        Some (h\<lparr>links := m0\<rparr>\<lparr>links := m'\<rparr>) \<and>
      seg m' a (insert_free (xs @ [(?w, True)]) ?r ys) (pxNextFreeBlock (m' (xStart (h\<lparr>links := m0\<rparr>)))) (pxEnd (h\<lparr>links := m0\<rparr>)) \<and>
      (\<forall>y. (y < a \<or> pxEnd (h\<lparr>links := m0\<rparr>) \<le> y) \<and> y \<noteq> xStart (h\<lparr>links := m0\<rparr>) \<longrightarrow> m' y = links (h\<lparr>links := m0\<rparr>) y) \<and>
      xBlockSize (m' (xStart (h\<lparr>links := m0\<rparr>))) = 0 \<and>
      (\<forall>(y, r) \<in> allocs a (insert_free (xs @ [(?w, True)]) ?r ys). m' y = links (h\<lparr>links := m0\<rparr>) y)"
    proof (rule insert_correct [where k = k])
      have "seg m0 a xs (pxNextFreeBlock (m0 x)) k"
        using nb w(2) R(4,18) True by (intro seg_xs m0f) (auto simp: b_def)
      then show "seg (links (h\<lparr>links := m0\<rparr>)) a (xs @ [(?w, True)]) (pxNextFreeBlock (links (h\<lparr>links := m0\<rparr>) (xStart (h\<lparr>links := m0\<rparr>)))) k"
        by (auto simp: seg_append x_def)
      have "seg m0 (b + s) ys k (pxEnd h)"
        using R(4,7,18) ab prevr True w by (intro seg_ys) (auto simp: m0_def m1_def)
      then show "seg (links (h\<lparr>links := m0\<rparr>)) (a + bytes (xs @ [(?w, True)]) + ?r) ys k (pxEnd (h\<lparr>links := m0\<rparr>))"
        using w(1) by (simp add: b_def add.assoc)
      show "xBlockSize (links (h\<lparr>links := m0\<rparr>) (a + bytes (xs @ [(?w, True)]))) = of_nat ?r"
        using nb(2) by (simp add: m0_def b_def add.assoc)
      show "16 \<le> ?r" using True by simp
      show "?r mod 8 = 0" using R(8) w(1,3) by presburger
      show "pxEnd (h\<lparr>links := m0\<rparr>) = a + bytes (xs @ [(?w, True)]) + ?r + bytes ys"
        using R(4) w(1) by (simp add: b_def)
      show "bytes (xs @ [(?w, True)]) + ?r + bytes ys < 2147483648" using R(13) w(1) by simp
      show "sized (xs @ [(?w, True)])" "sized ys" using R(5,6) w(2,3) by simp_all
      show "xStart (h\<lparr>links := m0\<rparr>) < a \<or> pxEnd (h\<lparr>links := m0\<rparr>) < xStart (h\<lparr>links := m0\<rparr>)"
        using R(18) by (simp add: x_def)
      show "xBlockSize (links (h\<lparr>links := m0\<rparr>) (xStart (h\<lparr>links := m0\<rparr>))) = 0"
        using nb R(17) by (auto simp: m0_def m1_def x_def)
    qed
    have bs': "insert_free (xs @ [(?w, True)]) ?r ys = xs @ [(?w, True), (?r, False)] @ ys"
      using R(12) by (cases "(?r, ys)" rule: merge_right.cases) (auto simp: insert_free_snoc)
    obtain m' where M: "prvInsertBlockIntoFreeList ?n (h\<lparr>links := m0\<rparr>) = Some (h\<lparr>links := m'\<rparr>)"
      "seg m' a (xs @ [(?w, True), (?r, False)] @ ys) (pxNextFreeBlock (m' x)) (pxEnd h)"
      "\<And>y. (y < a \<or> pxEnd h \<le> y) \<Longrightarrow> y \<noteq> x \<Longrightarrow> m' y = m0 y" "xBlockSize (m' x) = 0"
      "\<And>y r. (y, r) \<in> allocs a (xs @ [(?w, True), (?r, False)] @ ys) \<Longrightarrow> m' y = m0 y"
    proof -
      have "\<exists>m'. prvInsertBlockIntoFreeList ?n (h\<lparr>links := m0\<rparr>) = Some (h\<lparr>links := m'\<rparr>) \<and>
        seg m' a (xs @ [(?w, True), (?r, False)] @ ys) (pxNextFreeBlock (m' x)) (pxEnd h) \<and>
        (\<forall>y. (y < a \<or> pxEnd h \<le> y) \<and> y \<noteq> x \<longrightarrow> m' y = m0 y) \<and> xBlockSize (m' x) = 0 \<and>
        (\<forall>(y, r) \<in> allocs a (xs @ [(?w, True), (?r, False)] @ ys). m' y = m0 y)"
        using I unfolding bs' by (simp add: x_def b_def add.assoc)
      then obtain m' where "prvInsertBlockIntoFreeList ?n (h\<lparr>links := m0\<rparr>) = Some (h\<lparr>links := m'\<rparr>) \<and>
        seg m' a (xs @ [(?w, True), (?r, False)] @ ys) (pxNextFreeBlock (m' x)) (pxEnd h) \<and>
        (\<forall>y. (y < a \<or> pxEnd h \<le> y) \<and> y \<noteq> x \<longrightarrow> m' y = m0 y) \<and> xBlockSize (m' x) = 0 \<and>
        (\<forall>(y, r) \<in> allocs a (xs @ [(?w, True), (?r, False)] @ ys). m' y = m0 y)" by (rule exE)
      then show thesis by (intro that [of m']) (blast | simp)+
    qed
    have ba: "(b, ?w) \<in> allocs a (xs @ [(?w, True), (?r, False)] @ ys)" by (simp add: allocs_append b_def)
    have m'b: "m' b = (m b)\<lparr>xBlockSize := w\<rparr>" using M(5) [OF ba] by (simp add: m0_def)
    define m2 where "m2 = m'(b := \<lparr>pxNextFreeBlock = 0, xBlockSize = w OR alloc_bit\<rparr>)"
    define f :: u32 where "f = of_nat (free_total xs + ?r + free_total ys)"
    define h' where "h' = h\<lparr>links := m2, xFreeBytesRemaining := f,
       xMinimumEverFreeBytesRemaining := min f (xMinimumEverFreeBytesRemaining h)\<rparr>"
    have f: "xFreeBytesRemaining h - w = f"
    proof -
      have "w = of_nat ?w" by simp
      then show ?thesis using w(1) by (simp add: R(19) f_def of_nat_diff)
    qed
    have sz2: "sized (xs @ [(?w, True), (?r, False)] @ ys)"
    proof -
      have "?r mod 8 = 0" using R(8) w(1,3) by presburger
      then show ?thesis using R(5,6) w(2,3) True by simp
    qed
    have "take_block w prev b h = Some (b + 8, h')"
    proof -
      have u: "upd_link prev (pxNextFreeBlock_update (\<lambda>_. k)) h = h\<lparr>links := m1\<rparr>"
        by (simp add: upd_link_def m1_def m_def)
      have v: "upd_link b (xBlockSize_update (\<lambda>_. w)) (upd_link ?n (xBlockSize_update (\<lambda>_. of_nat s - w))
          (h\<lparr>links := m1\<rparr>)) = h\<lparr>links := m0\<rparr>"
        using nb m1b diff by (simp add: upd_link_def m0_def)
      show ?thesis
        unfolding take_block_def Let_def m_def [symmetric] k_def [symmetric] u
        using True cond U(1) sb m1b f R(21) v M(1) m'b
        by (simp add: mark_allocated_eq h'_def m2_def heap_consts(3))
    qed
    moreover have "heap_rep h' a (xs @ [(?w, True), (?r, False)] @ ys)"
    proof -
      have "seg m2 a (xs @ [(?w, True), (?r, False)] @ ys) (pxNextFreeBlock (m2 x)) (pxEnd h)"
        using M(2) seg_alloc_upd [OF sz2 ba] nb(4) by (simp add: m2_def)
      moreover have "heads m2 (allocs a xs)"
      proof (rule heads_frame [OF R(2)])
        fix y r assume y: "(y, r) \<in> allocs a xs"
        then have "y < b" using rg(1) [OF y] by (simp add: b_def)
        then show "m2 y = m y"
          using M(5) [of y r] y hd_xs [OF y] by (simp add: m2_def m0_def allocs_append)
      qed
      moreover have "heads m2 (allocs (b + s) ys)"
      proof (rule heads_frame [OF R(3)])
        fix y r assume y: "(y, r) \<in> allocs (b + s) ys"
        then have "b + s \<le> y" "y < pxEnd h" using rg(2) [OF y] R(4) by auto
        moreover have "m' y = m0 y"
          using y w(1) by (intro M(5) [of y r]) (simp add: allocs_append b_def add.assoc)
        ultimately show "m2 y = m y" using prevr ab R(7,18) True w by (auto simp: m2_def m0_def m1_def)
      qed
      moreover have "m2 b = \<lparr>pxNextFreeBlock = 0, xBlockSize = of_nat ?w OR alloc_bit\<rparr>" by (simp add: m2_def)
      moreover have "m2 (pxEnd h) = \<lparr>pxNextFreeBlock = 0, xBlockSize = 0\<rparr>"
        using M(3) [of "pxEnd h"] R(4,7,16,18) prevr True w by (auto simp: m2_def m0_def m1_def b_def)
      moreover have "xBlockSize (m2 x) = 0" using M(4) nb(4) by (simp add: m2_def)
      moreover have "coalesced (xs @ [(?w, True), (?r, False)] @ ys)"
        using R(9,10,12) by (auto simp: coalesced_append coalesced_Cons)
      ultimately show ?thesis
        using R sz2 w(1)
        by (simp add: heap_rep_def h'_def x_def [symmetric] allocs_append b_def [symmetric] f_def add.assoc)
          (simp add: b_def add.assoc)
    qed
    ultimately show ?thesis
      using True by (auto simp: split_block_def prev_def b_def x_def)
  qed
qed

lemma heap_rep_nonzero: "heap_rep h a bs \<Longrightarrow> pxEnd h \<noteq> 0"
  by (auto simp: heap_rep_def)

text \<open>The body of \<open>pvPortMalloc\<close> on a heap that is set up: first fit, or nothing.\<close>

lemma malloc_body_cases:
  assumes rep: "heap_rep h a bs"
  shows "(n = 0 \<or> 2147483648 \<le> unat n \<or> none_fits (block_size (unat n)) bs) \<and> malloc_body n h = Some (0, h) \<or>
    (\<exists>xs s ys h'. 0 < n \<and> unat n < 2147483648 \<and> bs = xs @ (s, False) # ys \<and>
       none_fits (block_size (unat n)) xs \<and> block_size (unat n) \<le> s \<and>
       malloc_body n h = Some (a + bytes xs + 8, h') \<and>
       heap_rep h' a (xs @ split_block (block_size (unat n)) s @ ys))"
proof -
  have bit: "xBlockAllocatedBit h = alloc_bit" and e: "pxEnd h \<noteq> 0" and free: "xFreeBytesRemaining h = of_nat (free_total bs)"
    and small: "free_total bs < 2147483648"
    using rep heap_rep_nonzero [OF rep] free_total_le [of bs] by (auto simp: heap_rep_def)
  show ?thesis
  proof (cases "0 < n \<and> unat n < 2147483648")
    case False
    then have "n = 0 \<or> 2147483648 \<le> unat n" by (auto simp: word_less_nat_alt unat_eq_zero)
    moreover have "malloc_body n h = Some (0, h)"
      using calculation bit e by (auto simp: malloc_body_def and_alloc_bit adjust_size_def Let_def)
    ultimately show ?thesis by blast
  next
    case True
    let ?w = "adjust_size n"
    have w: "unat ?w = block_size (unat n)" by (rule adjust_size_value) (use True in auto)
    have "0 < unat n" using True by (simp add: word_less_nat_alt)
    note bsz = block_size [of "unat n"] block_size(4) [OF this]
    have w0: "0 < ?w" using bsz w by (simp add: word_less_nat_alt)
    have le: "?w \<le> xFreeBytesRemaining h \<longleftrightarrow> block_size (unat n) \<le> free_total bs"
      using small by (simp add: free word_le_nat_alt w unat_size)
    have body: "malloc_body n h = (if block_size (unat n) \<le> free_total bs
        then Option.bind (find_block h ?w (xStart h) (pxNextFreeBlock (links h (xStart h))))
          (\<lambda>(pv, b). if b \<noteq> pxEnd h then take_block ?w pv b h else Some (0, h))
        else Some (0, h))"
      using True bit e w0 le by (simp add: malloc_body_def and_alloc_bit Let_def)
    show ?thesis
    proof (cases rule: fits_or_not [where w = "block_size (unat n)" and bs = bs])
      case none
      then have "malloc_body n h = Some (0, h)"
        using body find_block_none [OF rep, of ?w] w by auto
      then show ?thesis using none by blast
    next
      case (fits xs s ys)
      have le': "block_size (unat n) \<le> free_total bs"
        using fits free_total_member [of s bs] by simp
      have fb: "find_block h ?w (xStart h) (pxNextFreeBlock (links h (xStart h))) =
          Some (last_free (xStart h) a xs, a + bytes xs)"
        using find_block_fits [of h a xs s ys ?w] rep fits w by simp
      have "a + bytes xs \<noteq> pxEnd h" using rep fits by (auto simp: heap_rep_def)
      moreover obtain h' where "take_block ?w (last_free (xStart h) a xs) (a + bytes xs) h = Some (a + bytes xs + 8, h')"
        "heap_rep h' a (xs @ split_block (unat ?w) s @ ys)"
        using take_block_correct [of h a xs s ys ?w] rep fits w bsz by auto
      ultimately have "malloc_body n h = Some (a + bytes xs + 8, h')"
        using body fb le' by simp
      then show ?thesis using True fits \<open>heap_rep h' a (xs @ split_block (unat ?w) s @ ys)\<close> w by auto
    qed
  qed
qed

lemma suspend_resume:
  "kern_ok k \<Longrightarrow> \<exists>y k'. xTaskResumeAll (vTaskSuspendAll k) = Some (y, k') \<and> kern_ok k'"
  by (rule ResumeAll_returns) (simp add: vTaskSuspendAll_def)

text \<open>Freeing a block the heap gave out: it joins its free neighbours.\<close>

lemma free_correct:
  assumes rep: "heap_rep h a (xs @ (s, True) # ys)" and k: "kern_ok k"
  shows "\<exists>h' k'. vPortFree (a + bytes xs + 8) (h, k) = Some (h', k') \<and> kern_ok k' \<and>
    heap_rep h' a (insert_free xs s ys)"
proof -
  define b where "b = a + bytes xs"
  define x where "x = xStart h"
  have R: "seg (links h) a (xs @ (s, True) # ys) (pxNextFreeBlock (links h x)) (pxEnd h)"
    "heads (links h) (allocs a xs)" "heads (links h) (allocs (b + s) ys)" "b + s + bytes ys = pxEnd h"
    "sized xs" "sized ys" "16 \<le> s" "s mod 8 = 0" "coalesced xs" "coalesced ys"
    "bytes xs + s + bytes ys < 2147483648" "0 < a" "a mod 8 = 0"
    "links h (pxEnd h) = \<lparr>pxNextFreeBlock = 0, xBlockSize = 0\<rparr>" "xBlockSize (links h x) = 0" "x < a \<or> pxEnd h < x"
    "xFreeBytesRemaining h = of_nat (free_total xs + free_total ys)"
    "xMinimumEverFreeBytesRemaining h \<le> xFreeBytesRemaining h" "xBlockAllocatedBit h = alloc_bit"
    "links h b = \<lparr>pxNextFreeBlock = 0, xBlockSize = of_nat s OR alloc_bit\<rparr>"
    using rep by (auto simp: heap_rep_def x_def b_def allocs_append coalesced_append coalesced_Cons)
  obtain j where j: "seg (links h) a xs (pxNextFreeBlock (links h x)) j" "seg (links h) (b + s) ys j (pxEnd h)"
    using R(1) by (auto simp: seg_append b_def)
  define m0 where "m0 = (links h)(b := \<lparr>pxNextFreeBlock = 0, xBlockSize = of_nat s\<rparr>)"
  define f :: u32 where "f = of_nat (free_total xs + s + free_total ys)"
  define h1 where "h1 = h\<lparr>links := m0, xFreeBytesRemaining := f\<rparr>"
  have sel: "links h1 = m0" "xStart h1 = x" "pxEnd h1 = pxEnd h" by (simp_all add: h1_def x_def)
  have xb: "x \<noteq> b" using R(4,7,16) by (auto simp: b_def)
  have fr: "seg m0 a xs (pxNextFreeBlock (m0 x)) j" "seg m0 (b + s) ys j (pxEnd h)"
  proof -
    have "seg m0 a xs (pxNextFreeBlock (links h x)) j"
      using j(1) by (subst seg_frame [OF _ R(5)]) (auto simp: m0_def b_def)
    then show "seg m0 a xs (pxNextFreeBlock (m0 x)) j" using xb by (simp add: m0_def)
    show "seg m0 (b + s) ys j (pxEnd h)"
      using j(2) R(7) by (subst seg_frame [OF _ R(6)]) (auto simp: m0_def)
  qed
  have "\<exists>m. prvInsertBlockIntoFreeList (a + bytes xs) h1 = Some (h1\<lparr>links := m\<rparr>) \<and>
    seg m a (insert_free xs s ys) (pxNextFreeBlock (m (xStart h1))) (pxEnd h1) \<and>
    (\<forall>y. (y < a \<or> pxEnd h1 \<le> y) \<and> y \<noteq> xStart h1 \<longrightarrow> m y = links h1 y) \<and>
    xBlockSize (m (xStart h1)) = 0 \<and>
    (\<forall>(y, r) \<in> allocs a (insert_free xs s ys). m y = links h1 y)"
    by (rule insert_correct [where k = j])
      (use fr R xb in \<open>auto simp: sel b_def m0_def add.assoc\<close>)
  then obtain m where M: "prvInsertBlockIntoFreeList b h1 = Some (h1\<lparr>links := m\<rparr>)"
    "seg m a (insert_free xs s ys) (pxNextFreeBlock (m x)) (pxEnd h)"
    "\<And>y. y < a \<or> pxEnd h \<le> y \<Longrightarrow> y \<noteq> x \<Longrightarrow> m y = m0 y" "xBlockSize (m x) = 0"
    "\<And>y r. (y, r) \<in> allocs a xs \<or> (y, r) \<in> allocs (b + s) ys \<Longrightarrow> m y = m0 y"
  proof -
    assume "\<exists>m. prvInsertBlockIntoFreeList (a + bytes xs) h1 = Some (h1\<lparr>links := m\<rparr>) \<and>
      seg m a (insert_free xs s ys) (pxNextFreeBlock (m (xStart h1))) (pxEnd h1) \<and>
      (\<forall>y. (y < a \<or> pxEnd h1 \<le> y) \<and> y \<noteq> xStart h1 \<longrightarrow> m y = links h1 y) \<and>
      xBlockSize (m (xStart h1)) = 0 \<and>
      (\<forall>(y, r) \<in> allocs a (insert_free xs s ys). m y = links h1 y)"
    then obtain m where "prvInsertBlockIntoFreeList b h1 = Some (h1\<lparr>links := m\<rparr>) \<and>
      seg m a (insert_free xs s ys) (pxNextFreeBlock (m x)) (pxEnd h) \<and>
      (\<forall>y. (y < a \<or> pxEnd h \<le> y) \<and> y \<noteq> x \<longrightarrow> m y = m0 y) \<and> xBlockSize (m x) = 0 \<and>
      (\<forall>(y, r) \<in> allocs a xs \<union> allocs (b + s) ys. m y = m0 y)"
      unfolding sel b_def [symmetric] allocs_insert_free by (rule exE)
    then show thesis by (intro that [of m]) (blast | simp)+
  qed
  have s31: "s < 2147483648" using R(11) by simp
  obtain y k' where k': "xTaskResumeAll (vTaskSuspendAll k) = Some (y, k')" "kern_ok k'"
    using suspend_resume [OF k] by blast
  have h1: "(upd_link b (xBlockSize_update (\<lambda>s. s AND NOT (xBlockAllocatedBit h))) h)
      \<lparr>xFreeBytesRemaining := xFreeBytesRemaining h + of_nat s\<rparr> = h1"
    using R(17,19,20) clear_alloc_bit(1) [OF s31] by (simp add: h1_def m0_def f_def upd_link_def add.commute add.left_commute)
  have "vPortFree (b + 8) (h, k) = Some (h1\<lparr>links := m\<rparr>, k')"
    using R(19,20) clear_alloc_bit [OF s31] h1 M(1) k'(1)
    by (simp add: vPortFree_def heap_consts Let_def)
  moreover have "heap_rep (h1\<lparr>links := m\<rparr>) a (insert_free xs s ys)"
  proof -
    have "heads m (allocs a xs)"
    proof (rule heads_frame [OF R(2)])
      fix y r assume y: "(y, r) \<in> allocs a xs"
      then show "m y = links h y" using M(5) [of y r] allocs_range [OF R(5) y] by (simp add: m0_def b_def)
    qed
    moreover have "heads m (allocs (b + s) ys)"
    proof (rule heads_frame [OF R(3)])
      fix y r assume y: "(y, r) \<in> allocs (b + s) ys"
      then show "m y = links h y" using M(5) [of y r] allocs_range [OF R(6) y] R(7) by (simp add: m0_def)
    qed
    moreover have "m (pxEnd h) = \<lparr>pxNextFreeBlock = 0, xBlockSize = 0\<rparr>"
    proof -
      have "a \<le> b" by (simp add: b_def)
      then have "pxEnd h \<noteq> x" "pxEnd h \<noteq> b" using R(4,7,16) by auto
      then show ?thesis using M(3) [of "pxEnd h"] R(14) by (simp add: m0_def)
    qed
    moreover have "xMinimumEverFreeBytesRemaining h \<le> f"
    proof -
      have a: "free_total xs + free_total ys < 2147483648" "free_total xs + s + free_total ys < 2147483648"
        using R(11) free_total_le [of xs] free_total_le [of ys] by linarith+
      have "unat (xFreeBytesRemaining h) \<le> unat f"
        unfolding R(17) f_def unat_size [OF a(1)] unat_size [OF a(2)] by simp
      then show ?thesis using R(18) by (simp add: word_le_nat_alt)
    qed
    moreover have "sized (insert_free xs s ys)" using R(5-8) by (intro blocks_ok_insert_free) auto
    moreover have "coalesced (insert_free xs s ys)" using R(9,10) by (rule coalesced_insert_free)
    ultimately show ?thesis
      using R M(2,4) by (simp add: heap_rep_def h1_def x_def [symmetric] allocs_insert_free f_def)
        (simp add: b_def add.assoc)
  qed
  ultimately show ?thesis using k'(2) by (auto simp: b_def)
qed

section \<open>Properties\<close>

lemma allocs_split_block: "allocs b (split_block w s) = {(b, if 16 < s - w then w else s)}"
  by (simp add: split_block_def)

text \<open>C10: \<open>pvPortMalloc\<close> always returns, keeps the invariants of heap and kernel, and either
  gives nothing and changes nothing in the heap, exactly when the request is 0, has its top bit set or
  fits in no free block; or gives an 8-aligned pointer to a block of the heap that has room for the
  request and its header and less than 32 bytes more than the request, overlaps no live block, and is
  the only change to the live blocks.\<close>

theorem pvPortMalloc_correct:
  assumes "heap_rep h a bs" and "kern_ok k"
  shows "\<exists>p h' k'. pvPortMalloc n (h, k) = Some (p, h', k') \<and> kern_ok k' \<and>
    (p = 0 \<and> h' = h \<and> (n = 0 \<or> 2147483648 \<le> unat n \<or> none_fits (block_size (unat n)) bs) \<or>
     p \<noteq> 0 \<and> 0 < n \<and> \<not> none_fits (block_size (unat n)) bs \<and> p mod 8 = 0 \<and>
     (\<exists>w bs'. heap_rep h' a bs' \<and> allocs a bs' = insert (p - 8, w) (allocs a bs) \<and>
       unat n + 8 \<le> w \<and> w < unat n + 32 \<and> a + 8 \<le> p \<and> p - 8 + w \<le> pxEnd h \<and>
       (\<forall>(y, s) \<in> allocs a bs. y + s \<le> p - 8 \<or> p - 8 + w \<le> y)))"
proof -
  obtain y k' where k': "xTaskResumeAll (vTaskSuspendAll k) = Some (y, k')" "kern_ok k'"
    using suspend_resume [OF assms(2)] by blast
  from malloc_body_cases [OF assms(1), of n] consider
    (none) "n = 0 \<or> 2147483648 \<le> unat n \<or> none_fits (block_size (unat n)) bs" "malloc_body n h = Some (0, h)"
  | (some) xs s ys h' where "0 < n" "unat n < 2147483648" "bs = xs @ (s, False) # ys"
       "block_size (unat n) \<le> s" "malloc_body n h = Some (a + bytes xs + 8, h')"
       "heap_rep h' a (xs @ split_block (block_size (unat n)) s @ ys)"
    by blast
  then show ?thesis
  proof cases
    case none
    then show ?thesis using k' by (simp add: pvPortMalloc_def)
  next
    case some
    define w where "w = (if 16 < s - block_size (unat n) then block_size (unat n) else s)"
    let ?bs = "xs @ split_block (block_size (unat n)) s @ ys" and ?b = "a + bytes xs"
    have R: "sized xs" "sized ys" "16 \<le> s" "?b + s + bytes ys = pxEnd h" "a mod 8 = 0"
      using assms(1) by (auto simp: heap_rep_def some(3))
    have w: "unat n + 8 \<le> w" "w < unat n + 32" "w \<le> s"
      using block_size [of "unat n"] some(4) by (auto simp: w_def)
    have bt: "bytes (split_block (block_size (unat n)) s) = s"
      using some(4) by (simp add: split_block_def)
    have al: "allocs a ?bs = insert (?b, w) (allocs a bs)"
      by (auto simp: allocs_append allocs_split_block bt some(3) w_def)
    have "bytes xs mod 8 = 0"
      using R(1) by (induction xs) (auto simp: mod_add_eq [symmetric])
    then have "(?b + 8) mod 8 = 0" using R(5) by (simp add: mod_add_eq [symmetric])
    moreover have "\<not> none_fits (block_size (unat n)) bs" using some(3,4) by (auto simp: none_fits_def)
    moreover have "\<forall>(y, r) \<in> allocs a bs. y + r \<le> ?b \<or> ?b + w \<le> y"
      using allocs_range [OF R(1)] allocs_range [OF R(2)] w(3) by (force simp: some(3) allocs_append)
    moreover have "pvPortMalloc n (h, k) = Some (?b + 8, h', k')"
      using some(5) k'(1) by (simp add: pvPortMalloc_def)
    moreover have "\<exists>w bs'. heap_rep h' a bs' \<and> allocs a bs' = insert (?b + 8 - 8, w) (allocs a bs) \<and>
       unat n + 8 \<le> w \<and> w < unat n + 32 \<and> a + 8 \<le> ?b + 8 \<and> ?b + 8 - 8 + w \<le> pxEnd h \<and>
       (\<forall>(y, s) \<in> allocs a bs. y + s \<le> ?b + 8 - 8 \<or> ?b + 8 - 8 + w \<le> y)"
      using some(6) al w R(4) calculation(3) by (intro exI [of _ w] exI [of _ ?bs]) auto
    ultimately show ?thesis using some(1) k'(2) by (intro exI [of _ "?b + 8"] exI [of _ h'] exI [of _ k']) simp
  qed
qed

text \<open>A heap set up by the first call.\<close>

definition fresh_heap :: "heap \<Rightarrow> bool" where
  "fresh_heap h \<longleftrightarrow> pxEnd h = 0 \<and> 0 < ucHeap h \<and>
     (xStart h + 8 \<le> ucHeap h \<or> ucHeap h + configTOTAL_HEAP_SIZE \<le> xStart h)"

definition align8 :: "nat \<Rightarrow> nat" where
  "align8 n = (n + 7) div 8 * 8"

definition heap_bytes :: "nat \<Rightarrow> nat" where
  "heap_bytes u = (u + configTOTAL_HEAP_SIZE - 8) div 8 * 8 - align8 u"

lemma heap_bytes: "25584 \<le> heap_bytes u" "heap_bytes u mod 8 = 0" "heap_bytes u \<le> 25592"
  "align8 u + heap_bytes u = (u + configTOTAL_HEAP_SIZE - 8) div 8 * 8" "u \<le> align8 u" "align8 u mod 8 = 0"
  "align8 u + heap_bytes u + 8 \<le> u + configTOTAL_HEAP_SIZE"
proof -
  have a: "align8 u = (u + 7) div 8 * 8" "u + configTOTAL_HEAP_SIZE - 8 = u + 25592"
    by (simp_all add: align8_def configTOTAL_HEAP_SIZE_def)
  have "heap_bytes u = ((u + 25592) div 8 - (u + 7) div 8) * 8"
    unfolding heap_bytes_def a by (simp add: diff_mult_distrib)
  then show "heap_bytes u mod 8 = 0" by simp
  have d: "(u + 25592) div 8 = u div 8 + 3199" "(u + 7) div 8 \<le> u div 8 + 1" by linarith+
  then show "25584 \<le> heap_bytes u" unfolding heap_bytes_def a by linarith
  show "heap_bytes u \<le> 25592" unfolding heap_bytes_def a by linarith
  show "align8 u + heap_bytes u = (u + configTOTAL_HEAP_SIZE - 8) div 8 * 8"
    unfolding heap_bytes_def a by linarith
  show "u \<le> align8 u" unfolding a by linarith
  show "align8 u mod 8 = 0" unfolding a by simp
  show "align8 u + heap_bytes u + 8 \<le> u + configTOTAL_HEAP_SIZE"
    unfolding heap_bytes_def a configTOTAL_HEAP_SIZE_def by linarith
qed

lemma prvHeapInit_rep:
  assumes "fresh_heap h"
  shows "heap_rep (prvHeapInit h) (align8 (ucHeap h)) [(heap_bytes (ucHeap h), False)]"
proof -
  define u where "u = ucHeap h"
  define e where "e = align8 u + heap_bytes u"
  note B = heap_bytes [of u]
  have al: "(if u mod portBYTE_ALIGNMENT \<noteq> 0
      then let v = (u + (portBYTE_ALIGNMENT - 1)) div portBYTE_ALIGNMENT * portBYTE_ALIGNMENT
           in (v, configTOTAL_HEAP_SIZE - (v - u))
      else (u, configTOTAL_HEAP_SIZE)) = (align8 u, u + configTOTAL_HEAP_SIZE - align8 u)"
  proof (cases "u mod 8 = 0")
    case True
    then obtain q where "u = 8 * q" by auto
    then show ?thesis by (simp add: align8_def heap_consts)
  next
    case False
    moreover have "configTOTAL_HEAP_SIZE - (align8 u - u) = u + configTOTAL_HEAP_SIZE - align8 u"
      using B(5) by simp
    ultimately show ?thesis by (simp add: align8_def heap_consts(2) Let_def)
  qed
  have e: "(align8 u + (u + configTOTAL_HEAP_SIZE - align8 u) - xHeapStructSize) div portBYTE_ALIGNMENT * portBYTE_ALIGNMENT = e"
  proof -
    have "align8 u + (u + configTOTAL_HEAP_SIZE - align8 u) = u + configTOTAL_HEAP_SIZE"
      using B(7) by linarith
    then show ?thesis using B(4) by (simp add: e_def heap_consts(2,3))
  qed
  define nl where "nl = (links h)(xStart h := \<lparr>pxNextFreeBlock = align8 u, xBlockSize = 0\<rparr>,
      e := \<lparr>pxNextFreeBlock = 0, xBlockSize = 0\<rparr>,
      align8 u := \<lparr>pxNextFreeBlock = e, xBlockSize = of_nat (heap_bytes u)\<rparr>)"
  have hb: "e - align8 u = heap_bytes u" by (simp add: e_def)
  have init: "prvHeapInit h = h\<lparr>links := nl, pxEnd := e, xMinimumEverFreeBytesRemaining := of_nat (heap_bytes u),
      xFreeBytesRemaining := of_nat (heap_bytes u), xBlockAllocatedBit := alloc_bit\<rparr>"
    unfolding prvHeapInit_def Let_def u_def [symmetric] al [unfolded Let_def] prod.case e hb
    by (simp add: upd_link_def nl_def alloc_bit_def)
  have x: "xStart h < align8 u \<or> e < xStart h" "xStart h \<noteq> align8 u" "xStart h \<noteq> e" "e \<noteq> align8 u"
    using assms B by (auto simp: fresh_heap_def u_def e_def)
  have ae: "align8 u + heap_bytes u = e" "0 < align8 u"
    using assms B by (auto simp: e_def fresh_heap_def u_def)
  show ?thesis
    using assms B(1-3,5,6) x ae by (simp add: init heap_rep_def nl_def u_def [symmetric] fresh_heap_def)
qed

lemma malloc_body_fresh:
  assumes "fresh_heap h"
  shows "malloc_body n h = malloc_body n (prvHeapInit h)"
proof -
  have "pxEnd (prvHeapInit h) \<noteq> 0" by (rule heap_rep_nonzero [OF prvHeapInit_rep [OF assms]])
  then show ?thesis using assms by (simp add: malloc_body_def fresh_heap_def)
qed

text \<open>Any sequence of allocations and of releases of live blocks, from the first call on.\<close>

inductive heap_run :: "heap \<Rightarrow> nat \<Rightarrow> (nat \<times> nat) set \<Rightarrow> bool" where
  init: "fresh_heap h \<Longrightarrow> pvPortMalloc 0 (h, k) = Some (p, h', k') \<Longrightarrow> heap_run h' (align8 (ucHeap h)) {}"
| alloc: "heap_run h a L \<Longrightarrow> pvPortMalloc n (h, k) = Some (p, h', k') \<Longrightarrow>
    heap_run h' a (if p = 0 then L else insert (p - 8, unat (xBlockSize (links h' (p - 8)) AND NOT alloc_bit)) L)"
| free: "heap_run h a L \<Longrightarrow> (y, s) \<in> L \<Longrightarrow> kern_ok k \<Longrightarrow> vPortFree (y + 8) (h, k) = Some (h', k') \<Longrightarrow>
    heap_run h' a (L - {(y, s)})"

lemma heads_size: "heads m S \<Longrightarrow> (y, s) \<in> S \<Longrightarrow> s < 2147483648 \<Longrightarrow> unat (xBlockSize (m y) AND NOT alloc_bit) = s"
  by (auto simp: heads_def clear_alloc_bit(1) unat_size)

lemma malloc_body_of: "pvPortMalloc n (h, k) = Some (p, h', k') \<Longrightarrow> malloc_body n h = Some (p, h')"
  by (auto simp: pvPortMalloc_def split: bind_splits)

lemma heap_run_rep: "heap_run h a L \<Longrightarrow> \<exists>bs. heap_rep h a bs \<and> allocs a bs = L \<and> 0 < bytes bs"
proof (induction rule: heap_run.induct)
  case (init h k p h' k')
  have "malloc_body 0 (prvHeapInit h) = Some (0, prvHeapInit h)"
    using malloc_body_cases [OF prvHeapInit_rep [OF init(1)], of 0] by auto
  then have "h' = prvHeapInit h" using malloc_body_of [OF init(2)] malloc_body_fresh [OF init(1)] by simp
  then show ?case using prvHeapInit_rep [OF init(1)] heap_bytes(1) [of "ucHeap h"]
    by (intro exI [of _ "[(heap_bytes (ucHeap h), False)]"]) simp
next
  case (alloc h a L n k p h' k')
  then obtain bs where bs: "heap_rep h a bs" "allocs a bs = L" "0 < bytes bs" by blast
  note body = malloc_body_of [OF alloc(2)]
  from malloc_body_cases [OF bs(1), of n] show ?case
  proof (elim disjE conjE exE)
    assume "malloc_body n h = Some (0, h)"
    then have "h' = h" "p = 0" using body by simp_all
    then show ?thesis using bs by auto
  next
    assume "malloc_body n h = Some (0, h)"
    then have "h' = h" "p = 0" using body by simp_all
    then show ?thesis using bs by auto
  next
    assume "malloc_body n h = Some (0, h)"
    then have "h' = h" "p = 0" using body by simp_all
    then show ?thesis using bs by auto
  next
    fix xs s ys h2
    assume A: "bs = xs @ (s, False) # ys" "block_size (unat n) \<le> s" "malloc_body n h = Some (a + bytes xs + 8, h2)"
      "heap_rep h2 a (xs @ split_block (block_size (unat n)) s @ ys)"
    let ?bs = "xs @ split_block (block_size (unat n)) s @ ys"
    have h2: "h' = h2" "p = a + bytes xs + 8" using A(3) body by simp_all
    have "0 < bytes ?bs" using bs(3) A(2) by (auto simp: A(1) split_block_def)
    moreover have al: "allocs a ?bs = insert (a + bytes xs, if 16 < s - block_size (unat n) then block_size (unat n) else s) L"
      using A(2) bs(2) by (auto simp: A(1) allocs_append allocs_split_block) (auto simp: split_block_def split: if_splits)
    moreover have "unat (xBlockSize (links h2 (a + bytes xs)) AND NOT alloc_bit) =
        (if 16 < s - block_size (unat n) then block_size (unat n) else s)"
    proof (rule heads_size)
      show "heads (links h2) (allocs a ?bs)" using A(4) by (simp add: heap_rep_def)
      show "(a + bytes xs, if 16 < s - block_size (unat n) then block_size (unat n) else s) \<in> allocs a ?bs"
        using al by simp
      show "(if 16 < s - block_size (unat n) then block_size (unat n) else s) < 2147483648"
        using bs(1) A(2) by (auto simp: heap_rep_def A(1))
    qed
    ultimately show ?thesis using A(4) h2 by (intro exI [of _ ?bs]) simp
  qed
next
  case (free h a L y s k h' k')
  then obtain bs where bs: "heap_rep h a bs" "allocs a bs = L" "0 < bytes bs" by blast
  obtain xs ys where xy: "bs = xs @ (s, True) # ys" "y = a + bytes xs"
    using heap_rep_alloc_split free(2) bs(2) by blast
  have "heap_rep h' a (insert_free xs s ys)"
    using free_correct [of h a xs s ys k] bs(1) free(3,4) by (auto simp: xy)
  moreover have "allocs a (insert_free xs s ys) = L - {(y, s)}"
    using allocs_remove [of 16 8 xs s ys a] bs by (auto simp: xy heap_rep_def)
  moreover have "0 < bytes (insert_free xs s ys)" using bs(3) by (auto simp: xy)
  ultimately show ?case by blast
qed

text \<open>Freeing the pointer an allocation returned restores the heap exactly: the blocks, free
  and allocated, are those from before the allocation, so a task that frees what it took leaves no
  fragmentation behind.\<close>

theorem malloc_free_restores:
  assumes "heap_rep h a bs" and "kern_ok k" and "pvPortMalloc n (h, k) = Some (p, h1, k1)" and "p \<noteq> 0"
  shows "\<exists>h2 k2. vPortFree p (h1, k1) = Some (h2, k2) \<and> kern_ok k2 \<and> heap_rep h2 a bs \<and>
    xPortGetFreeHeapSize h2 = xPortGetFreeHeapSize h"
proof -
  obtain y k' where k': "xTaskResumeAll (vTaskSuspendAll k) = Some (y, k')" "kern_ok k'"
    using suspend_resume [OF assms(2)] by blast
  obtain xs s ys where A: "bs = xs @ (s, False) # ys" "block_size (unat n) \<le> s"
    "malloc_body n h = Some (a + bytes xs + 8, h1)" "heap_rep h1 a (xs @ split_block (block_size (unat n)) s @ ys)"
    "p = a + bytes xs + 8" "k1 = k'"
    using malloc_body_cases [OF assms(1), of n] assms(3,4) k'(1) by (auto simp: pvPortMalloc_def)
  define w where "w = (if 16 < s - block_size (unat n) then block_size (unat n) else s)"
  define zs where "zs = (if 16 < s - block_size (unat n) then (s - block_size (unat n), False) # ys else ys)"
  have sp: "xs @ split_block (block_size (unat n)) s @ ys = xs @ (w, True) # zs"
    by (simp add: split_block_def w_def zs_def)
  have c: "xs = [] \<or> snd (last xs)" "ys = [] \<or> snd (hd ys)"
    using assms(1) by (auto simp: heap_rep_def A(1) coalesced_append coalesced_Cons)
  have "merge_right w zs = (s, False) # ys"
  proof (cases "16 < s - block_size (unat n)")
    case True
    then show ?thesis by (simp add: w_def zs_def)
  next
    case False
    then show ?thesis using c(2) by (cases "(s, ys)" rule: merge_right.cases) (auto simp: w_def zs_def)
  qed
  then have "insert_free xs w zs = bs"
    using c(1) by (cases xs rule: rev_cases) (auto simp: insert_free_snoc A(1))
  moreover obtain h2 k2 where "vPortFree (a + bytes xs + 8) (h1, k1) = Some (h2, k2)" "kern_ok k2"
    "heap_rep h2 a (insert_free xs w zs)"
    using free_correct [of h1 a xs w zs k1] A(4,6) k'(2) unfolding sp by blast
  ultimately show ?thesis
    using assms(1) A(5) by (auto simp: heap_rep_def xPortGetFreeHeapSize_def)
qed

text \<open>C5: In every state the heap can reach by allocations and releases of live blocks, the live
  blocks lie in the heap and do not overlap, the free-byte counter is exactly the rest of the
  heap and the recorded minimum is never above it; and when everything has been freed, the free
  list is again the one block the heap started with.\<close>

theorem heap_never_leaks:
  assumes "heap_run h a L"
  shows "(\<forall>(y, s) \<in> L. a \<le> y \<and> y + s \<le> pxEnd h \<and> y mod 8 = 0 \<and>
      (\<forall>(z, r) \<in> L. (z, r) = (y, s) \<or> y + s \<le> z \<or> z + r \<le> y)) \<and>
    unat (xFreeBytesRemaining h) + (\<Sum>(y, s) \<in> L. s) = pxEnd h - a \<and>
    xMinimumEverFreeBytesRemaining h \<le> xFreeBytesRemaining h \<and>
    (L = {} \<longrightarrow> pxNextFreeBlock (links h (xStart h)) = a \<and>
      links h a = \<lparr>pxNextFreeBlock = pxEnd h, xBlockSize = of_nat (pxEnd h - a)\<rparr>)"
proof -
  obtain bs where bs: "heap_rep h a bs" "allocs a bs = L" "0 < bytes bs" using heap_run_rep [OF assms] by blast
  have R: "sized bs" "a + bytes bs = pxEnd h" "a mod 8 = 0" "bytes bs < 2147483648"
    "seg (links h) a bs (pxNextFreeBlock (links h (xStart h))) (pxEnd h)" "coalesced bs"
    "xFreeBytesRemaining h = of_nat (free_total bs)" "0 < a"
    using bs(1) by (auto simp: heap_rep_def)
  have f: "unat (xFreeBytesRemaining h) = free_total bs"
    using R(4,7) free_total_le [of bs] by (simp add: unat_size)
  have "pxNextFreeBlock (links h (xStart h)) = a \<and>
      links h a = \<lparr>pxNextFreeBlock = pxEnd h, xBlockSize = of_nat (pxEnd h - a)\<rparr>" if e: "L = {}"
  proof -
    have b: "bs = [(bytes bs, False)]" using coalesced_all_free R(6) bs(2,3) e by blast
    have "pxEnd h - a = bytes bs" using R(2) by simp
    then show ?thesis using R(2,5) by (subst (asm) b) (cases "links h a", simp)
  qed
  moreover have "\<forall>(y, s) \<in> L. a \<le> y \<and> y + s \<le> pxEnd h \<and> y mod 8 = 0 \<and>
      (\<forall>(z, r) \<in> L. (z, r) = (y, s) \<or> y + s \<le> z \<or> z + r \<le> y)"
    using allocs_apart [of _ _ a bs] allocs_aligned [of _ _ a bs] allocs_range [OF R(1)] R(1-3) bs(2) by fastforce
  moreover have "unat (xFreeBytesRemaining h) + (\<Sum>(y, s) \<in> L. s) = pxEnd h - a"
    using allocs_sum [OF R(1), of a] bs(2) R(2) f by simp
  moreover have "xMinimumEverFreeBytesRemaining h \<le> xFreeBytesRemaining h"
    using bs(1) unfolding heap_rep_def by blast
  ultimately show ?thesis by blast
qed

section \<open>Witnesses\<close>

definition blank_heap :: heap where
  "blank_heap = \<lparr>links = (\<lambda>_. \<lparr>pxNextFreeBlock = 0, xBlockSize = 0\<rparr>), xStart = 0x20006404, ucHeap = 0x20000004,
     pxEnd = 0, xFreeBytesRemaining = 0, xMinimumEverFreeBytesRemaining = 0, xBlockAllocatedBit = 0\<rparr>"

lemma blank_fresh: "fresh_heap blank_heap"
  by (simp add: fresh_heap_def blank_heap_def configTOTAL_HEAP_SIZE_def)

lemma blank_layout: "align8 (ucHeap blank_heap) = 0x20000008" "heap_bytes (ucHeap blank_heap) = 25584"
  by (simp_all add: blank_heap_def align8_def heap_bytes_def configTOTAL_HEAP_SIZE_def)

lemma blank_rep: "heap_rep (prvHeapInit blank_heap) 0x20000008 [(25584, False)]"
  using prvHeapInit_rep [OF blank_fresh] by (simp add: blank_layout)

lemma pvPortMalloc_correct_witness:
  "\<exists>p h' k'. pvPortMalloc 100 (prvHeapInit blank_heap, two_tasks) = Some (p, h', k') \<and> p \<noteq> 0 \<and> p mod 8 = 0 \<and>
     (\<exists>w bs'. heap_rep h' 0x20000008 bs' \<and> allocs 0x20000008 bs' = {(p - 8, w)} \<and> 108 \<le> w)"
proof -
  have "\<not> none_fits (block_size 100) [(25584, False)]"
    by (simp add: none_fits_def block_size_def)
  moreover have "unat (100 :: u32) = 100" by simp
  ultimately show ?thesis
    using pvPortMalloc_correct [OF blank_rep two_tasks_ok, of 100] by fastforce
qed

lemma blank_malloc:
  "\<exists>p h k. pvPortMalloc 100 (prvHeapInit blank_heap, two_tasks) = Some (p, h, k) \<and> p \<noteq> 0 \<and>
     heap_run h 0x20000008 {(p - 8, unat (xBlockSize (links h (p - 8)) AND NOT alloc_bit))}"
proof -
  have "malloc_body 0 (prvHeapInit blank_heap) = Some (0, prvHeapInit blank_heap)"
    using malloc_body_cases [OF blank_rep, of 0] by auto
  moreover obtain y k where "xTaskResumeAll (vTaskSuspendAll two_tasks) = Some (y, k)"
    using suspend_resume [OF two_tasks_ok] by blast
  ultimately have "pvPortMalloc 0 (blank_heap, two_tasks) = Some (0, prvHeapInit blank_heap, k)"
    using malloc_body_fresh [OF blank_fresh] by (simp add: pvPortMalloc_def)
  then have run: "heap_run (prvHeapInit blank_heap) 0x20000008 {}"
    using heap_run.init [OF blank_fresh] by (simp add: blank_layout)
  obtain p h where "malloc_body 100 (prvHeapInit blank_heap) = Some (p, h)" "p \<noteq> 0"
    using malloc_body_cases [OF blank_rep, of 100] by (auto simp: none_fits_def block_size_def)
  then have "pvPortMalloc 100 (prvHeapInit blank_heap, two_tasks) = Some (p, h, k)"
    using \<open>xTaskResumeAll (vTaskSuspendAll two_tasks) = Some (y, k)\<close> by (simp add: pvPortMalloc_def)
  moreover from this have "heap_run h 0x20000008 (if p = 0 then {} else
      insert (p - 8, unat (xBlockSize (links h (p - 8)) AND NOT alloc_bit)) {})"
    by (rule heap_run.alloc [OF run])
  ultimately show ?thesis using \<open>p \<noteq> 0\<close> by auto
qed

lemma malloc_free_restores_witness:
  "\<exists>p h1 k1 h2 k2. pvPortMalloc 100 (prvHeapInit blank_heap, two_tasks) = Some (p, h1, k1) \<and>
     vPortFree p (h1, k1) = Some (h2, k2) \<and> heap_rep h2 0x20000008 [(25584, False)]"
  using blank_malloc malloc_free_restores [OF blank_rep two_tasks_ok, of 100] by blast

lemma heap_never_leaks_witness:
  "\<exists>p h L. heap_run h 0x20000008 L \<and> L \<noteq> {} \<and> (\<forall>(y, s) \<in> L. y + s \<le> pxEnd h)"
proof -
  obtain p h k where r: "heap_run h 0x20000008 {(p - 8, unat (xBlockSize (links h (p - 8)) AND NOT alloc_bit))}"
    using blank_malloc by blast
  show ?thesis using heap_never_leaks [OF r] r by blast
qed

end
