(* ===== verification/RtosQueue.thy ===== *)
theory RtosQueue
  imports RtosHeap RtosKernel
begin

unbundle bit_operations_syntax

text \<open>
  The queues of FreeRTOS (FreeRTOS/src/queue.c), which are its semaphores and mutexes as well, in
  this project's configuration: mutexes, recursive mutexes and counting semaphores on, queue sets
  and static allocation off. A queue is named by its handle, the address of its \<open>Queue_t\<close> in the
  heap; its items are bytes of the memory after it. A blocking call is a program counter that moves
  by one critical section, or one stretch with the scheduler suspended, at a time: interrupts and
  other tasks run in between.
\<close>

section \<open>State\<close>

text \<open>\<open>pcReadFrom\<close> is the union of the read pointer and the recursion count; a mutex holds its
  owner in \<open>pcTail\<close> and is marked by a NULL \<open>pcHead\<close>.\<close>

record Queue_t =
  pcHead :: u32
  pcTail :: u32
  pcWriteTo :: u32
  pcReadFrom :: u32
  uxMessagesWaiting :: u32
  uxLength :: u32
  uxItemSize :: u32
  cRxLock :: "8 word"
  cTxLock :: "8 word"

abbreviation "uxRecursiveCallCount \<equiv> pcReadFrom"
abbreviation "uxRecursiveCallCount_update \<equiv> pcReadFrom_update"
abbreviation "uxQueueType \<equiv> pcHead"
abbreviation "uxQueueType_update \<equiv> pcHead_update"

record rtos =
  rheap :: heap
  rkern :: kern
  queues :: "nat \<Rightarrow> Queue_t"
  rmem :: memory
  xQueueRegistry :: "(string option \<times> nat) list"

definition pxMutexHolder :: "Queue_t \<Rightarrow> nat" where
  "pxMutexHolder q = unat (pcTail q)"

definition set_holder :: "nat \<Rightarrow> Queue_t \<Rightarrow> Queue_t" where
  "set_holder t q = q\<lparr>pcTail := of_nat t\<rparr>"

definition queueQUEUE_IS_MUTEX :: u32 where "queueQUEUE_IS_MUTEX = 0"
definition queueUNLOCKED :: "8 word" where "queueUNLOCKED = - 1"
definition queueLOCKED_UNMODIFIED :: "8 word" where "queueLOCKED_UNMODIFIED = 0"
definition configQUEUE_REGISTRY_SIZE :: nat where "configQUEUE_REGISTRY_SIZE = 10"
definition sizeof_Queue_t :: nat where "sizeof_Queue_t = 72"

datatype position = queueSEND_TO_BACK | queueSEND_TO_FRONT | queueOVERWRITE

text \<open>The two event lists are fields of the queue: their addresses are told apart by the
  handle.\<close>

definition xTasksWaitingToSend :: "nat \<Rightarrow> nat" where "xTasksWaitingToSend h = 2 * h"
definition xTasksWaitingToReceive :: "nat \<Rightarrow> nat" where "xTasksWaitingToReceive h = 2 * h + 1"

definition upd_queue :: "nat \<Rightarrow> (Queue_t \<Rightarrow> Queue_t) \<Rightarrow> rtos \<Rightarrow> rtos" where
  "upd_queue h f s = s\<lparr>queues := (queues s)(h := f (queues s h))\<rparr>"

definition upd_kern :: "(kern \<Rightarrow> kern) \<Rightarrow> rtos \<Rightarrow> rtos" where
  "upd_kern f s = s\<lparr>rkern := f (rkern s)\<rparr>"

text \<open>A kernel call that reads the owner of a list head, and so may fail.\<close>

definition on_kern :: "(kern \<Rightarrow> kern option) \<Rightarrow> rtos \<Rightarrow> rtos option" where
  "on_kern f s = map_option (\<lambda>k. s\<lparr>rkern := k\<rparr>) (f (rkern s))"

text \<open>If the event list is not empty, its first task is unblocked; \<open>y\<close> runs if that task has a
  higher priority than the caller.\<close>

definition wake_waiter :: "(kern \<Rightarrow> kern) \<Rightarrow> nat \<Rightarrow> kern \<Rightarrow> kern option" where
  "wake_waiter y e k =
    (if eventLists k e \<noteq> []
     then map_option (\<lambda>(higher, k). if higher then y k else k) (xTaskRemoveFromEventList e k)
     else Some k)"

section \<open>Creation\<close>

definition xQueueGenericReset :: "nat \<Rightarrow> bool \<Rightarrow> rtos \<Rightarrow> rtos option" where
  "xQueueGenericReset h xNewQueue s =
    (let s = upd_queue h (\<lambda>q. q\<lparr>pcTail := pcHead q + uxLength q * uxItemSize q,
           uxMessagesWaiting := 0, pcWriteTo := pcHead q,
           pcReadFrom := pcHead q + (uxLength q - 1) * uxItemSize q,
           cRxLock := queueUNLOCKED, cTxLock := queueUNLOCKED\<rparr>) s
     in if \<not> xNewQueue then on_kern (wake_waiter portYIELD (xTasksWaitingToSend h)) s
        else Some (upd_kern (\<lambda>k. k\<lparr>eventLists := (eventLists k)
               (xTasksWaitingToSend h := [], xTasksWaitingToReceive h := [])\<rparr>) s))"

definition prvInitialiseNewQueue :: "u32 \<Rightarrow> u32 \<Rightarrow> u32 \<Rightarrow> nat \<Rightarrow> rtos \<Rightarrow> rtos option" where
  "prvInitialiseNewQueue uxQueueLength uxSize pucQueueStorage h s =
     xQueueGenericReset h True
      (upd_queue h (\<lambda>q. q\<lparr>pcHead := if uxSize = 0 then of_nat h else pucQueueStorage,
         uxLength := uxQueueLength, uxItemSize := uxSize\<rparr>) s)"

definition xQueueGenericCreate :: "u32 \<Rightarrow> u32 \<Rightarrow> rtos \<Rightarrow> (nat \<times> rtos) option" where
  "xQueueGenericCreate uxQueueLength uxSize s =
    (let xQueueSizeInBytes = (if uxSize = 0 then 0 else uxQueueLength * uxSize)
     in Option.bind (pvPortMalloc (of_nat sizeof_Queue_t + xQueueSizeInBytes) (rheap s, rkern s))
        (\<lambda>(h, hp, k). let s = s\<lparr>rheap := hp, rkern := k\<rparr>
          in if h \<noteq> 0
             then map_option (\<lambda>s. (h, s))
               (prvInitialiseNewQueue uxQueueLength uxSize (of_nat (h + sizeof_Queue_t)) h s)
             else Some (0, s)))"

section \<open>Copying items\<close>

text \<open>The result says whether the priority of the caller went down, so that it should yield.\<close>

definition prvCopyDataToQueue :: "nat \<Rightarrow> u8 list \<Rightarrow> position \<Rightarrow> rtos \<Rightarrow> bool \<times> rtos" where
  "prvCopyDataToQueue h pvItemToQueue xPosition s =
    (let q = queues s h; n = uxMessagesWaiting q; size = uxItemSize q
     in if size = 0 then
          (let (xReturn, s) =
             (if uxQueueType q = queueQUEUE_IS_MUTEX then
                let (r, k) = xTaskPriorityDisinherit (pxMutexHolder q) (rkern s)
                in (r, upd_queue h (set_holder 0) (s\<lparr>rkern := k\<rparr>))
              else (False, s))
           in (xReturn, upd_queue h (uxMessagesWaiting_update (\<lambda>_. n + 1)) s))
        else if xPosition = queueSEND_TO_BACK then
          let s = s\<lparr>rmem := write_bytes (rmem s) (pcWriteTo q) (take (unat size) pvItemToQueue)\<rparr>;
              w = pcWriteTo q + size;
              w = (if pcTail q \<le> w then pcHead q else w)
          in (False, upd_queue h (\<lambda>q. q\<lparr>pcWriteTo := w, uxMessagesWaiting := n + 1\<rparr>) s)
        else
          let s = s\<lparr>rmem := write_bytes (rmem s) (pcReadFrom q) (take (unat size) pvItemToQueue)\<rparr>;
              r = pcReadFrom q - size;
              r = (if r < pcHead q then pcTail q - size else r);
              n = (if xPosition = queueOVERWRITE \<and> 0 < n then n - 1 else n)
          in (False, upd_queue h (\<lambda>q. q\<lparr>pcReadFrom := r, uxMessagesWaiting := n + 1\<rparr>) s))"

definition prvCopyDataFromQueue :: "nat \<Rightarrow> rtos \<Rightarrow> u8 list \<times> rtos" where
  "prvCopyDataFromQueue h s =
    (let q = queues s h; size = uxItemSize q
     in if size \<noteq> 0 then
          let r = pcReadFrom q + size;
              r = (if pcTail q \<le> r then pcHead q else r)
          in (read_bytes (rmem s) r (unat size), upd_queue h (pcReadFrom_update (\<lambda>_. r)) s)
        else ([], s))"

section \<open>Locking\<close>

definition prvLockQueue :: "nat \<Rightarrow> rtos \<Rightarrow> rtos" where
  "prvLockQueue h = upd_queue h (\<lambda>q.
     q\<lparr>cRxLock := (if cRxLock q = queueUNLOCKED then queueLOCKED_UNMODIFIED else cRxLock q),
       cTxLock := (if cTxLock q = queueUNLOCKED then queueLOCKED_UNMODIFIED else cTxLock q)\<rparr>)"

text \<open>The two loops of \<open>prvUnlockQueue\<close> wake at most as many tasks as items went through the
  queue while it was locked; the count is the signed value of the lock.\<close>

fun wake_waiters :: "nat \<Rightarrow> nat \<Rightarrow> kern \<Rightarrow> kern option" where
  "wake_waiters e 0 k = Some k"
| "wake_waiters e (Suc n) k =
    (if eventLists k e \<noteq> []
     then Option.bind (xTaskRemoveFromEventList e k)
       (\<lambda>(higher, k). wake_waiters e n (if higher then vTaskMissedYield k else k))
     else Some k)"

definition prvUnlockQueue :: "nat \<Rightarrow> rtos \<Rightarrow> rtos option" where
  "prvUnlockQueue h s =
    Option.bind (on_kern (wake_waiters (xTasksWaitingToReceive h) (nat (sint (cTxLock (queues s h))))) s)
     (\<lambda>s. let s = upd_queue h (cTxLock_update (\<lambda>_. queueUNLOCKED)) s
       in map_option (upd_queue h (cRxLock_update (\<lambda>_. queueUNLOCKED)))
          (on_kern (wake_waiters (xTasksWaitingToSend h) (nat (sint (cRxLock (queues s h))))) s))"

definition prvIsQueueEmpty :: "nat \<Rightarrow> rtos \<Rightarrow> bool" where
  "prvIsQueueEmpty h s \<longleftrightarrow> uxMessagesWaiting (queues s h) = 0"

definition prvIsQueueFull :: "nat \<Rightarrow> rtos \<Rightarrow> bool" where
  "prvIsQueueFull h s \<longleftrightarrow> uxMessagesWaiting (queues s h) = uxLength (queues s h)"

section \<open>Sending and receiving from a task\<close>

text \<open>The variables of a blocking call, and where it is: at the first critical section, before or
  after the queue is locked, leaving the stretch with the scheduler suspended, or done.\<close>

record call =
  xTicksToWait :: u32
  xEntryTimeSet :: bool
  xTimeOut :: TimeOut_t

datatype outcome = Placed | Again | Expired

datatype 'r pc = Enter | Lock | Check | Leave outcome | Done 'r

definition begin_call :: "u32 \<Rightarrow> call" where
  "begin_call w = \<lparr>xTicksToWait = w, xEntryTimeSet = False,
     xTimeOut = \<lparr>xOverflowCount = 0, xTimeOnEntering = 0\<rparr>\<rparr>"

definition stamp :: "call \<Rightarrow> kern \<Rightarrow> call" where
  "stamp c k = (if xEntryTimeSet c then c
     else c\<lparr>xTimeOut := vTaskSetTimeOutState k, xEntryTimeSet := True\<rparr>)"

definition send_enter ::
    "nat \<Rightarrow> u8 list \<Rightarrow> position \<Rightarrow> call \<Rightarrow> rtos \<Rightarrow> (bool pc \<times> call \<times> rtos) option" where
  "send_enter h pvItemToQueue xCopyPosition c s =
    (if uxMessagesWaiting (queues s h) < uxLength (queues s h) \<or> xCopyPosition = queueOVERWRITE then
       let (xYieldRequired, s) = prvCopyDataToQueue h pvItemToQueue xCopyPosition s
       in map_option (\<lambda>s. (Done True, c, s))
          (if eventLists (rkern s) (xTasksWaitingToReceive h) \<noteq> []
           then on_kern (wake_waiter portYIELD (xTasksWaitingToReceive h)) s
           else if xYieldRequired then Some (upd_kern portYIELD s) else Some s)
     else if xTicksToWait c = 0 then Some (Done False, c, s)
     else Some (Lock, stamp c (rkern s), s))"

definition call_lock :: "nat \<Rightarrow> rtos \<Rightarrow> rtos" where
  "call_lock h s = prvLockQueue h (upd_kern vTaskSuspendAll s)"

definition send_check :: "nat \<Rightarrow> call \<Rightarrow> rtos \<Rightarrow> outcome \<times> call \<times> rtos" where
  "send_check h c s =
    (let (expired, to, w) = xTaskCheckForTimeOut (xTimeOut c) (xTicksToWait c) (rkern s);
         c = c\<lparr>xTimeOut := to, xTicksToWait := w\<rparr>
     in if expired then (Expired, c, s)
        else if prvIsQueueFull h s
        then (Placed, c, upd_kern (vTaskPlaceOnEventList (xTasksWaitingToSend h) w) s)
        else (Again, c, s))"

definition call_leave :: "nat \<Rightarrow> outcome \<Rightarrow> rtos \<Rightarrow> rtos option" where
  "call_leave h r s =
    Option.bind (prvUnlockQueue h s) (\<lambda>s.
      map_option (\<lambda>(yielded, k). s\<lparr>rkern := if r = Placed \<and> \<not> yielded then portYIELD k else k\<rparr>)
        (xTaskResumeAll (rkern s)))"

fun send_step ::
    "nat \<Rightarrow> u8 list \<Rightarrow> position \<Rightarrow> bool pc \<times> call \<times> rtos \<Rightarrow> (bool pc \<times> call \<times> rtos) option" where
  "send_step h pv p (Enter, c, s) = send_enter h pv p c s"
| "send_step h pv p (Lock, c, s) = Some (Check, c, call_lock h s)"
| "send_step h pv p (Check, c, s) = (case send_check h c s of (r, c, s) \<Rightarrow> Some (Leave r, c, s))"
| "send_step h pv p (Leave r, c, s) =
     map_option (\<lambda>s. (if r = Expired then Done False else Enter, c, s)) (call_leave h r s)"
| "send_step h pv p (Done b, c, s) = Some (Done b, c, s)"

definition pvTaskIncrementMutexHeldCount :: "kern \<Rightarrow> nat \<times> kern" where
  "pvTaskIncrementMutexHeldCount k =
    (pxCurrentTCB k,
     if pxCurrentTCB k \<noteq> 0 then upd_tcb (pxCurrentTCB k) (uxMutexesHeld_update (\<lambda>n. n + 1)) k else k)"

text \<open>The result of a receive is the item, and \<open>None\<close> for \<open>errQUEUE_EMPTY\<close>.\<close>

definition take_item :: "nat \<Rightarrow> rtos \<Rightarrow> (u8 list \<times> rtos) option" where
  "take_item h s =
    (let n = uxMessagesWaiting (queues s h); (pv, s) = prvCopyDataFromQueue h s;
         s = upd_queue h (uxMessagesWaiting_update (\<lambda>_. n - 1)) s;
         s = (if uxQueueType (queues s h) = queueQUEUE_IS_MUTEX then
                let (t, k) = pvTaskIncrementMutexHeldCount (rkern s)
                in upd_queue h (set_holder t) (s\<lparr>rkern := k\<rparr>)
              else s)
     in map_option (\<lambda>s. (pv, s)) (on_kern (wake_waiter portYIELD (xTasksWaitingToSend h)) s))"

definition peek_item :: "nat \<Rightarrow> rtos \<Rightarrow> (u8 list \<times> rtos) option" where
  "peek_item h s =
    (let pcOriginalReadPosition = pcReadFrom (queues s h); (pv, s) = prvCopyDataFromQueue h s;
         s = upd_queue h (pcReadFrom_update (\<lambda>_. pcOriginalReadPosition)) s
     in map_option (\<lambda>s. (pv, s)) (on_kern (wake_waiter portYIELD (xTasksWaitingToReceive h)) s))"

definition receive_enter ::
    "nat \<Rightarrow> bool \<Rightarrow> call \<Rightarrow> rtos \<Rightarrow> (u8 list option pc \<times> call \<times> rtos) option" where
  "receive_enter h xJustPeeking c s =
    (if 0 < uxMessagesWaiting (queues s h) then
       map_option (\<lambda>(pv, s). (Done (Some pv), c, s))
         (if xJustPeeking then peek_item h s else take_item h s)
     else if xTicksToWait c = 0 then Some (Done None, c, s)
     else Some (Lock, stamp c (rkern s), s))"

definition receive_check :: "nat \<Rightarrow> call \<Rightarrow> rtos \<Rightarrow> outcome \<times> call \<times> rtos" where
  "receive_check h c s =
    (let (expired, to, w) = xTaskCheckForTimeOut (xTimeOut c) (xTicksToWait c) (rkern s);
         c = c\<lparr>xTimeOut := to, xTicksToWait := w\<rparr>
     in if expired then (Expired, c, s)
        else if prvIsQueueEmpty h s then
          let s = (if uxQueueType (queues s h) = queueQUEUE_IS_MUTEX
                   then upd_kern (vTaskPriorityInherit (pxMutexHolder (queues s h))) s else s)
          in (Placed, c, upd_kern (vTaskPlaceOnEventList (xTasksWaitingToReceive h) w) s)
        else (Again, c, s))"

fun receive_step ::
    "nat \<Rightarrow> bool \<Rightarrow> u8 list option pc \<times> call \<times> rtos \<Rightarrow> (u8 list option pc \<times> call \<times> rtos) option" where
  "receive_step h peek (Enter, c, s) = receive_enter h peek c s"
| "receive_step h peek (Lock, c, s) = Some (Check, c, call_lock h s)"
| "receive_step h peek (Check, c, s) = (case receive_check h c s of (r, c, s) \<Rightarrow> Some (Leave r, c, s))"
| "receive_step h peek (Leave r, c, s) =
     map_option (\<lambda>s. (if r = Expired \<and> prvIsQueueEmpty h s then Done None else Enter, c, s))
       (call_leave h r s)"
| "receive_step h peek (Done b, c, s) = Some (Done b, c, s)"

text \<open>A whole call: before each of its steps the rest of the system runs, which is given by the
  list. \<open>None\<close> when the call has not returned at the end of the list.\<close>

fun run_call :: "('r pc \<times> call \<times> rtos \<Rightarrow> ('r pc \<times> call \<times> rtos) option) \<Rightarrow> (rtos \<Rightarrow> rtos) list \<Rightarrow>
    'r pc \<times> call \<times> rtos \<Rightarrow> ('r \<times> rtos) option" where
  "run_call st [] x = None"
| "run_call st (e # es) (p, c, s) =
    Option.bind (st (p, c, e s)) (\<lambda>(p, c, s).
      case p of Done r \<Rightarrow> Some (r, s) | _ \<Rightarrow> run_call st es (p, c, s))"

definition xQueueGenericSend ::
    "nat \<Rightarrow> u8 list \<Rightarrow> u32 \<Rightarrow> position \<Rightarrow> (rtos \<Rightarrow> rtos) list \<Rightarrow> rtos \<Rightarrow> (bool \<times> rtos) option" where
  "xQueueGenericSend h pv w p es s = run_call (send_step h pv p) es (Enter, begin_call w, s)"

definition xQueueGenericReceive ::
    "nat \<Rightarrow> u32 \<Rightarrow> bool \<Rightarrow> (rtos \<Rightarrow> rtos) list \<Rightarrow> rtos \<Rightarrow> (u8 list option \<times> rtos) option" where
  "xQueueGenericReceive h w peek es s = run_call (receive_step h peek) es (Enter, begin_call w, s)"

text \<open>A send that does not wait is its first critical section.\<close>

definition send_now :: "nat \<Rightarrow> u8 list \<Rightarrow> position \<Rightarrow> rtos \<Rightarrow> (bool \<times> rtos) option" where
  "send_now h pv p s = xQueueGenericSend h pv 0 p [\<lambda>s. s] s"

section \<open>Semaphores and mutexes\<close>

definition prvInitialiseMutex :: "nat \<Rightarrow> rtos \<Rightarrow> rtos option" where
  "prvInitialiseMutex h s =
    (if h \<noteq> 0 then
       map_option snd (send_now h [] queueSEND_TO_BACK
         (upd_queue h (\<lambda>q. (set_holder 0 q)\<lparr>pcHead := queueQUEUE_IS_MUTEX, pcReadFrom := 0\<rparr>) s))
     else Some s)"

definition xQueueCreateMutex :: "rtos \<Rightarrow> (nat \<times> rtos) option" where
  "xQueueCreateMutex s =
    Option.bind (xQueueGenericCreate 1 0 s) (\<lambda>(h, s). map_option (\<lambda>s. (h, s)) (prvInitialiseMutex h s))"

definition xQueueCreateCountingSemaphore :: "u32 \<Rightarrow> u32 \<Rightarrow> rtos \<Rightarrow> (nat \<times> rtos) option" where
  "xQueueCreateCountingSemaphore uxMaxCount uxInitialCount s =
    map_option (\<lambda>(h, s). (h, if h \<noteq> 0
        then upd_queue h (uxMessagesWaiting_update (\<lambda>_. uxInitialCount)) s else s))
      (xQueueGenericCreate uxMaxCount 0 s)"

definition xSemaphoreCreateBinary :: "rtos \<Rightarrow> (nat \<times> rtos) option" where
  "xSemaphoreCreateBinary = xQueueGenericCreate 1 0"

definition xSemaphoreGive :: "nat \<Rightarrow> rtos \<Rightarrow> (bool \<times> rtos) option" where
  "xSemaphoreGive h = send_now h [] queueSEND_TO_BACK"

definition xSemaphoreTake ::
    "nat \<Rightarrow> u32 \<Rightarrow> (rtos \<Rightarrow> rtos) list \<Rightarrow> rtos \<Rightarrow> (bool \<times> rtos) option" where
  "xSemaphoreTake h xBlockTime es s =
     map_option (\<lambda>(r, s). (r \<noteq> None, s)) (xQueueGenericReceive h xBlockTime False es s)"

definition xQueueGiveMutexRecursive :: "nat \<Rightarrow> rtos \<Rightarrow> (bool \<times> rtos) option" where
  "xQueueGiveMutexRecursive h s =
    (if pxMutexHolder (queues s h) = pxCurrentTCB (rkern s) then
       let s = upd_queue h (uxRecursiveCallCount_update (\<lambda>n. n - 1)) s
       in if uxRecursiveCallCount (queues s h) = 0
          then map_option (\<lambda>(_, s). (True, s)) (send_now h [] queueSEND_TO_BACK s)
          else Some (True, s)
     else Some (False, s))"

definition xQueueTakeMutexRecursive ::
    "nat \<Rightarrow> u32 \<Rightarrow> (rtos \<Rightarrow> rtos) list \<Rightarrow> rtos \<Rightarrow> (bool \<times> rtos) option" where
  "xQueueTakeMutexRecursive h w es s =
    (if pxMutexHolder (queues s h) = pxCurrentTCB (rkern s)
     then Some (True, upd_queue h (uxRecursiveCallCount_update (\<lambda>n. n + 1)) s)
     else map_option (\<lambda>(r, s). if r \<noteq> None
            then (True, upd_queue h (uxRecursiveCallCount_update (\<lambda>n. n + 1)) s) else (False, s))
       (xQueueGenericReceive h w False es s))"

section \<open>Sending and receiving from an interrupt\<close>

text \<open>\<open>pxWoken\<close> is the variable behind \<open>pxHigherPriorityTaskWoken\<close>, \<open>None\<close> for NULL.\<close>

definition wake_from_isr :: "nat \<Rightarrow> bool option \<Rightarrow> kern \<Rightarrow> (bool option \<times> kern) option" where
  "wake_from_isr e pxWoken k =
    (if eventLists k e \<noteq> []
     then map_option (\<lambda>(higher, k). (if higher then map_option (\<lambda>_. True) pxWoken else pxWoken, k))
       (xTaskRemoveFromEventList e k)
     else Some (pxWoken, k))"

definition xQueueGenericSendFromISR ::
    "nat \<Rightarrow> u8 list \<Rightarrow> bool option \<Rightarrow> position \<Rightarrow> rtos \<Rightarrow> (bool \<times> bool option \<times> rtos) option" where
  "xQueueGenericSendFromISR h pvItemToQueue pxWoken xCopyPosition s =
    (if uxMessagesWaiting (queues s h) < uxLength (queues s h) \<or> xCopyPosition = queueOVERWRITE then
       let lock = cTxLock (queues s h); s = snd (prvCopyDataToQueue h pvItemToQueue xCopyPosition s)
       in if lock = queueUNLOCKED
          then map_option (\<lambda>(w, k). (True, w, s\<lparr>rkern := k\<rparr>))
               (wake_from_isr (xTasksWaitingToReceive h) pxWoken (rkern s))
          else Some (True, pxWoken, upd_queue h (cTxLock_update (\<lambda>_. lock + 1)) s)
     else Some (False, pxWoken, s))"

definition xQueueGiveFromISR :: "nat \<Rightarrow> bool option \<Rightarrow> rtos \<Rightarrow> (bool \<times> bool option \<times> rtos) option" where
  "xQueueGiveFromISR h pxWoken s =
    (let n = uxMessagesWaiting (queues s h)
     in if n < uxLength (queues s h) then
          let lock = cTxLock (queues s h); s = upd_queue h (uxMessagesWaiting_update (\<lambda>_. n + 1)) s
          in if lock = queueUNLOCKED
             then map_option (\<lambda>(w, k). (True, w, s\<lparr>rkern := k\<rparr>))
               (wake_from_isr (xTasksWaitingToReceive h) pxWoken (rkern s))
             else Some (True, pxWoken, upd_queue h (cTxLock_update (\<lambda>_. lock + 1)) s)
        else Some (False, pxWoken, s))"

definition xQueueReceiveFromISR ::
    "nat \<Rightarrow> bool option \<Rightarrow> rtos \<Rightarrow> (u8 list option \<times> bool option \<times> rtos) option" where
  "xQueueReceiveFromISR h pxWoken s =
    (let n = uxMessagesWaiting (queues s h)
     in if 0 < n then
          let lock = cRxLock (queues s h); (pv, s) = prvCopyDataFromQueue h s;
              s = upd_queue h (uxMessagesWaiting_update (\<lambda>_. n - 1)) s
          in if lock = queueUNLOCKED
             then map_option (\<lambda>(w, k). (Some pv, w, s\<lparr>rkern := k\<rparr>))
               (wake_from_isr (xTasksWaitingToSend h) pxWoken (rkern s))
             else Some (Some pv, pxWoken, upd_queue h (cRxLock_update (\<lambda>_. lock + 1)) s)
        else Some (None, pxWoken, s))"

definition xQueuePeekFromISR :: "nat \<Rightarrow> rtos \<Rightarrow> u8 list option \<times> rtos" where
  "xQueuePeekFromISR h s =
    (if 0 < uxMessagesWaiting (queues s h) then
       let pcOriginalReadPosition = pcReadFrom (queues s h); (pv, s) = prvCopyDataFromQueue h s
       in (Some pv, upd_queue h (pcReadFrom_update (\<lambda>_. pcOriginalReadPosition)) s)
     else (None, s))"

section \<open>Queries, deletion and the registry\<close>

definition uxQueueMessagesWaiting :: "nat \<Rightarrow> rtos \<Rightarrow> u32" where
  "uxQueueMessagesWaiting h s = uxMessagesWaiting (queues s h)"

definition uxQueueSpacesAvailable :: "nat \<Rightarrow> rtos \<Rightarrow> u32" where
  "uxQueueSpacesAvailable h s = uxLength (queues s h) - uxMessagesWaiting (queues s h)"

definition uxQueueMessagesWaitingFromISR :: "nat \<Rightarrow> rtos \<Rightarrow> u32" where
  "uxQueueMessagesWaitingFromISR h s = uxMessagesWaiting (queues s h)"

definition xQueueIsQueueEmptyFromISR :: "nat \<Rightarrow> rtos \<Rightarrow> bool" where
  "xQueueIsQueueEmptyFromISR h s \<longleftrightarrow> uxMessagesWaiting (queues s h) = 0"

definition xQueueIsQueueFullFromISR :: "nat \<Rightarrow> rtos \<Rightarrow> bool" where
  "xQueueIsQueueFullFromISR h s \<longleftrightarrow> uxMessagesWaiting (queues s h) = uxLength (queues s h)"

fun registry_add :: "nat \<Rightarrow> string \<Rightarrow> (string option \<times> nat) list \<Rightarrow> (string option \<times> nat) list" where
  "registry_add h name [] = []"
| "registry_add h name ((n, x) # rs) =
    (if n = None then (Some name, h) # rs else (n, x) # registry_add h name rs)"

definition vQueueAddToRegistry :: "nat \<Rightarrow> string \<Rightarrow> rtos \<Rightarrow> rtos" where
  "vQueueAddToRegistry h name s = s\<lparr>xQueueRegistry := registry_add h name (xQueueRegistry s)\<rparr>"

fun registry_name :: "nat \<Rightarrow> (string option \<times> nat) list \<Rightarrow> string option" where
  "registry_name h [] = None"
| "registry_name h ((n, x) # rs) = (if x = h then n else registry_name h rs)"

definition pcQueueGetName :: "nat \<Rightarrow> rtos \<Rightarrow> string option" where
  "pcQueueGetName h s = registry_name h (xQueueRegistry s)"

fun registry_remove :: "nat \<Rightarrow> (string option \<times> nat) list \<Rightarrow> (string option \<times> nat) list" where
  "registry_remove h [] = []"
| "registry_remove h ((n, x) # rs) =
    (if x = h then (None, 0) # rs else (n, x) # registry_remove h rs)"

definition vQueueUnregisterQueue :: "nat \<Rightarrow> rtos \<Rightarrow> rtos" where
  "vQueueUnregisterQueue h s = s\<lparr>xQueueRegistry := registry_remove h (xQueueRegistry s)\<rparr>"

definition vQueueDelete :: "nat \<Rightarrow> rtos \<Rightarrow> rtos option" where
  "vQueueDelete h s =
    (let s = vQueueUnregisterQueue h s
     in map_option (\<lambda>(hp, k). s\<lparr>rheap := hp, rkern := k\<rparr>) (vPortFree h (rheap s, rkern s)))"

end
