(* ===== verification/RtosQueueSpec.thy ===== *)
theory RtosQueueSpec
  imports RtosQueue
begin

text \<open>
  What the queues promise. The ring buffer is a bounded list of items: the send and receive
  operations, from tasks and from interrupts, refine the list operations, and every client of a
  queue that only posts and fetches sees the items once each and in order (the locale
  \<open>bounded_fifo\<close>, interpreted on the task calls, on the interrupt calls and, in SysArch, on the
  mailboxes of LwIP). The lock counts the items that pass while the queue is locked, and unlocking
  wakes as many tasks. A mutex lends the priority of the waiting task to its owner.
\<close>

section \<open>Selectors\<close>

lemma upd_queue_sel [simp]:
  "queues (upd_queue h f s) g = (if g = h then f (queues s h) else queues s g)"
  "rkern (upd_queue h f s) = rkern s" "rmem (upd_queue h f s) = rmem s"
  "rheap (upd_queue h f s) = rheap s" "xQueueRegistry (upd_queue h f s) = xQueueRegistry s"
  by (simp_all add: upd_queue_def)

lemma upd_kern_sel [simp]:
  "queues (upd_kern f s) = queues s" "rkern (upd_kern f s) = f (rkern s)" "rmem (upd_kern f s) = rmem s"
  "rheap (upd_kern f s) = rheap s" "xQueueRegistry (upd_kern f s) = xQueueRegistry s"
  by (simp_all add: upd_kern_def)

lemma on_kern_Some:
  "on_kern f s = Some s' \<longleftrightarrow> (\<exists>k. f (rkern s) = Some k \<and> s' = s\<lparr>rkern := k\<rparr>)"
  by (auto simp: on_kern_def)

lemma set_holder_sel [simp]:
  "pcHead (set_holder t q) = pcHead q" "uxMessagesWaiting (set_holder t q) = uxMessagesWaiting q"
  "uxLength (set_holder t q) = uxLength q" "uxItemSize (set_holder t q) = uxItemSize q"
  "pcReadFrom (set_holder t q) = pcReadFrom q" "cTxLock (set_holder t q) = cTxLock q"
  "cRxLock (set_holder t q) = cRxLock q" "pcTail (set_holder t q) = of_nat t"
  by (simp_all add: set_holder_def)

section \<open>The ring of items\<close>

text \<open>Where the items are, as bytes of the memory: the storage does not wrap around the address
  space, and the two positions are slots of it.\<close>

definition storage_ok :: "Queue_t \<Rightarrow> bool" where
  "storage_ok q \<longleftrightarrow> 0 < uxLength q \<and> 0 < uxItemSize q \<and> uxItemSize q \<le> pcHead q \<and>
     unat (pcHead q) + unat (uxLength q) * unat (uxItemSize q) < 4294967296 \<and>
     unat (pcTail q) = unat (pcHead q) + unat (uxLength q) * unat (uxItemSize q)"

definition slot :: "Queue_t \<Rightarrow> nat \<Rightarrow> u32" where
  "slot q j = pcHead q + of_nat (j * unat (uxItemSize q))"

text \<open>The items of a queue, oldest first; the read position is one slot before the oldest.\<close>

definition holds :: "Queue_t \<Rightarrow> memory \<Rightarrow> nat \<Rightarrow> u8 list list \<Rightarrow> bool" where
  "holds q m r xs \<longleftrightarrow> (\<forall>i < length xs.
     read_bytes m (slot q ((r + 1 + i) mod unat (uxLength q))) (unat (uxItemSize q)) = xs ! i)"

definition fifo :: "Queue_t \<Rightarrow> memory \<Rightarrow> u8 list list \<Rightarrow> bool" where
  "fifo q m xs \<longleftrightarrow> storage_ok q \<and> length xs \<le> unat (uxLength q) \<and>
     unat (uxMessagesWaiting q) = length xs \<and>
     (\<exists>r < unat (uxLength q). pcReadFrom q = slot q r \<and>
        pcWriteTo q = slot q ((r + 1 + length xs) mod unat (uxLength q)) \<and> holds q m r xs)"

lemma slot_cong [simp]:
  "slot (q\<lparr>pcWriteTo := a\<rparr>) j = slot q j" "slot (q\<lparr>pcReadFrom := a\<rparr>) j = slot q j"
  "slot (q\<lparr>uxMessagesWaiting := n\<rparr>) j = slot q j"
  "slot (q\<lparr>cRxLock := l\<rparr>) j = slot q j" "slot (q\<lparr>cTxLock := l\<rparr>) j = slot q j"
  by (simp_all add: slot_def)

lemma storage_cong [simp]:
  "storage_ok (q\<lparr>pcWriteTo := a\<rparr>) = storage_ok q" "storage_ok (q\<lparr>pcReadFrom := a\<rparr>) = storage_ok q"
  "storage_ok (q\<lparr>uxMessagesWaiting := n\<rparr>) = storage_ok q"
  "storage_ok (q\<lparr>cRxLock := l\<rparr>) = storage_ok q" "storage_ok (q\<lparr>cTxLock := l\<rparr>) = storage_ok q"
  by (simp_all add: storage_ok_def)

lemma fifo_locks [simp]:
  "fifo (q\<lparr>cRxLock := l\<rparr>) m xs = fifo q m xs" "fifo (q\<lparr>cTxLock := l\<rparr>) m xs = fifo q m xs"
  by (simp_all add: fifo_def holds_def)

abbreviation qlen :: "Queue_t \<Rightarrow> nat" where "qlen q \<equiv> unat (uxLength q)"
abbreviation qsize :: "Queue_t \<Rightarrow> nat" where "qsize q \<equiv> unat (uxItemSize q)"
abbreviation qbase :: "Queue_t \<Rightarrow> nat" where "qbase q \<equiv> unat (pcHead q)"

lemma storage_nums:
  assumes "storage_ok q"
  shows "0 < qlen q" "0 < qsize q" "qsize q \<le> qbase q"
    "qbase q + qlen q * qsize q < 4294967296" "unat (pcTail q) = qbase q + qlen q * qsize q"
  using assms by (simp_all add: storage_ok_def word_less_nat_alt word_le_nat_alt)

lemma unat_slot:
  assumes "storage_ok q" and "j \<le> qlen q"
  shows "unat (slot q j) = qbase q + j * qsize q"
proof -
  have "j * qsize q \<le> qlen q * qsize q" using assms(2) by simp
  then have b: "qbase q + j * qsize q < 4294967296" using storage_nums(4) [OF assms(1)] by linarith
  then have "unat (of_nat (j * qsize q) :: u32) = j * qsize q" by (intro unat_of_nat_u32) linarith
  then show ?thesis using b by (simp add: slot_def unat_word_ariths del: of_nat_mult)
qed

lemma slot_0: "slot q 0 = pcHead q"
  by (simp add: slot_def)

lemma slot_end: "storage_ok q \<Longrightarrow> slot q (qlen q) = pcTail q"
  using unat_slot [of q "qlen q"] storage_nums(5) [of q] by (simp add: word_unat_eq_iff)

lemma slot_next: "slot q j + uxItemSize q = slot q (Suc j)"
  by (simp add: slot_def algebra_simps)

lemma slot_prev: "0 < j \<Longrightarrow> slot q j - uxItemSize q = slot q (j - 1)"
  by (cases j) (simp_all add: slot_def algebra_simps)

text \<open>Moving a position by one slot, with the wrap.\<close>

lemma forward:
  assumes ok: "storage_ok q" and j: "j < qlen q"
  shows "(if pcTail q \<le> slot q j + uxItemSize q then pcHead q else slot q j + uxItemSize q) =
    slot q (Suc j mod qlen q)"
proof (cases "Suc j = qlen q")
  case True
  then have "slot q j + uxItemSize q = pcTail q" using slot_end [OF ok] by (simp add: slot_next)
  then show ?thesis using True by (simp add: slot_0)
next
  case False
  then have lt: "Suc j < qlen q" using j by simp
  have "Suc j * qsize q < qlen q * qsize q" using lt storage_nums(2) [OF ok] by (rule mult_less_mono1)
  then have "\<not> pcTail q \<le> slot q (Suc j)"
    using unat_slot [OF ok, of "Suc j"] lt storage_nums(5) [OF ok] by (simp add: word_le_nat_alt)
  then show ?thesis using lt by (simp add: slot_next)
qed

lemma backward:
  assumes ok: "storage_ok q" and j: "j < qlen q"
  shows "(if slot q j - uxItemSize q < pcHead q then pcTail q - uxItemSize q
      else slot q j - uxItemSize q) = slot q ((j + qlen q - 1) mod qlen q)"
proof (cases "j = 0")
  case True
  note N = storage_nums [OF ok]
  have "unat (pcHead q - uxItemSize q) = qbase q - qsize q"
    using N(3) by (simp add: unat_sub word_le_nat_alt)
  then have "pcHead q - uxItemSize q < pcHead q" using N(2,3) by (simp add: word_less_nat_alt)
  moreover have "pcTail q - uxItemSize q = slot q (qlen q - 1)"
    using slot_prev [of "qlen q" q] N(1) slot_end [OF ok] by simp
  ultimately show ?thesis using True N(1) by (simp add: slot_0)
next
  case False
  have "unat (slot q (j - 1)) = qbase q + (j - 1) * qsize q" using unat_slot [OF ok] j by simp
  then have "\<not> slot q (j - 1) < pcHead q" by (simp add: word_less_nat_alt)
  moreover have "(j + qlen q - 1) mod qlen q = j - 1"
  proof -
    have e: "j + qlen q - 1 = (j - 1) + qlen q" using False by simp
    have "j - 1 < qlen q" using j by simp
    then show ?thesis unfolding e mod_add_self2 by (rule mod_less)
  qed
  ultimately show ?thesis using slot_prev False by simp
qed

text \<open>Writing one slot leaves the others alone.\<close>

lemma read_slot_same: "length x = qsize q \<Longrightarrow> read_bytes (write_bytes m a x) a (qsize q) = x"
proof -
  assume l: "length x = qsize q"
  have "length x \<le> 4294967296" unfolding l using unat_u32_lt [of "uxItemSize q"] by linarith
  from read_write_same [OF this, of m a] show ?thesis unfolding l .
qed

lemma read_slot_other:
  assumes ok: "storage_ok q" and x: "length x = qsize q" and j: "j < qlen q" "j' < qlen q" "j \<noteq> j'"
  shows "read_bytes (write_bytes m (slot q j) x) (slot q j') (qsize q) = read_bytes m (slot q j') (qsize q)"
proof (rule read_write_other)
  fix i assume i: "i < qsize q"
  note N = storage_nums [OF ok]
  have us: "unat (slot q j) = qbase q + j * qsize q" "unat (slot q j') = qbase q + j' * qsize q"
    using j by (simp_all add: unat_slot [OF ok])
  have top: "Suc j' * qsize q \<le> qlen q * qsize q" "Suc j * qsize q \<le> qlen q * qsize q"
    using j by (intro mult_le_mono1 Suc_leI; simp)+
  have ui: "unat (of_nat i :: u32) = i" using i unat_u32_lt [of "uxItemSize q"]
    by (intro unat_of_nat_u32) linarith
  have ua: "unat (slot q j' + of_nat i) = qbase q + j' * qsize q + i"
    using top(1) i N(4) by (simp add: unat_word_ariths us ui)
  show "length x \<le> unat (slot q j' + of_nat i - slot q j)"
  proof (cases "j < j'")
    case True
    then have le: "Suc j * qsize q \<le> j' * qsize q" by (intro mult_le_mono1) simp
    then have "qsize q \<le> j' * qsize q + i - j * qsize q" by simp
    moreover have "slot q j \<le> slot q j' + of_nat i"
      using le by (simp add: word_le_nat_alt us ua)
    ultimately show ?thesis using x by (simp add: unat_sub us ua)
  next
    case False
    then have "Suc j' * qsize q \<le> j * qsize q" using j(3) by (intro mult_le_mono1) simp
    then have lt: "qbase q + j' * qsize q + i < qbase q + j * qsize q" using i by simp
    have "unat (slot q j' + of_nat i - slot q j) =
        4294967296 - (qbase q + j * qsize q - (qbase q + j' * qsize q + i))"
      using lt by (simp add: unat_sub_if' us ua)
    moreover have "qbase q + j * qsize q - (qbase q + j' * qsize q + i) \<le> qlen q * qsize q - qsize q"
      using top(2) by simp
    ultimately show ?thesis using x N(4) top(1) by simp
  qed
qed

text \<open>The four ways an item moves.\<close>

lemma unat_plus1: "unat (n :: u32) < unat (m :: u32) \<Longrightarrow> unat (n + 1) = unat n + 1"
  using unat_u32_lt [of m] by (simp add: unat_word_ariths del: unat_u32_lt)

lemma unat_pred:
  assumes "unat (w :: u32) = Suc n"
  shows "unat (w - 1) = n"
proof -
  have "w \<noteq> 0" using assms by auto
  then show ?thesis using unat_minus_one [of w] assms by simp
qed

lemma fifo_back:
  assumes f: "fifo q m xs" and room: "length xs < qlen q" and x: "length x = qsize q"
  defines "w \<equiv> pcWriteTo q + uxItemSize q"
  shows "fifo (q\<lparr>pcWriteTo := if pcTail q \<le> w then pcHead q else w,
      uxMessagesWaiting := uxMessagesWaiting q + 1\<rparr>) (write_bytes m (pcWriteTo q) x) (xs @ [x])"
proof -
  obtain r where r: "r < qlen q" "pcReadFrom q = slot q r"
    "pcWriteTo q = slot q ((r + 1 + length xs) mod qlen q)" "holds q m r xs"
    and ok: "storage_ok q" and n: "unat (uxMessagesWaiting q) = length xs"
    using f by (auto simp: fifo_def)
  let ?j = "(r + 1 + length xs) mod qlen q"
  have j: "?j < qlen q" using storage_nums(1) [OF ok] by simp
  have e: "Suc ?j mod qlen q = (r + 1 + length (xs @ [x])) mod qlen q" by (simp add: mod_Suc_eq)
  have w: "(if pcTail q \<le> w then pcHead q else w) = slot q ((r + 1 + length (xs @ [x])) mod qlen q)"
    unfolding w_def r(3) forward [OF ok j] e ..
  have "holds q (write_bytes m (pcWriteTo q) x) r (xs @ [x])"
    unfolding holds_def
  proof (intro allI impI)
    fix i assume i: "i < length (xs @ [x])"
    show "read_bytes (write_bytes m (pcWriteTo q) x) (slot q ((r + 1 + i) mod qlen q)) (qsize q) = (xs @ [x]) ! i"
    proof (cases "i = length xs")
      case True
      then show ?thesis using read_slot_same [OF x] by (simp add: r(3))
    next
      case False
      then have "?j \<noteq> (r + 1 + i) mod qlen q"
        using i room mod_apart [of "r + 1 + i" "r + 1 + length xs" "qlen q"] by simp
      then show ?thesis
        using False i r(4) read_slot_other [OF ok x j] j by (simp add: r(3) holds_def nth_append)
    qed
  qed
  moreover have "unat (uxMessagesWaiting q + 1) = length xs + 1"
    using unat_plus1 [of "uxMessagesWaiting q" "uxLength q"] room n by simp
  ultimately show ?thesis
    using r ok room by (auto simp: fifo_def w holds_def intro!: exI [of _ r])
qed

lemma fifo_front_slot:
  assumes f: "fifo q m xs" and x: "length x = qsize q" and keep: "length ys < qlen q"
    and ys: "\<And>i. i < length ys \<Longrightarrow> i < length xs \<and> ys ! i = xs ! i" 
    and n': "unat n' = length ys + 1"
    and wr: "\<And>r. (r + 1 + length ys) mod qlen q = (r + 1 + length xs) mod qlen q"
  defines "r' \<equiv> pcReadFrom q - uxItemSize q"
  shows "fifo (q\<lparr>pcReadFrom := if r' < pcHead q then pcTail q - uxItemSize q else r',
      uxMessagesWaiting := n'\<rparr>) (write_bytes m (pcReadFrom q) x) (x # ys)"
proof -
  obtain r where r: "r < qlen q" "pcReadFrom q = slot q r"
    "pcWriteTo q = slot q ((r + 1 + length xs) mod qlen q)" "holds q m r xs"
    and ok: "storage_ok q"
    using f by (auto simp: fifo_def)
  let ?p = "(r + qlen q - 1) mod qlen q"
  have shift: "(?p + 1 + i) mod qlen q = (r + i) mod qlen q" for i
  proof -
    have "(?p + 1 + i) mod qlen q = (r + qlen q - 1 + (1 + i)) mod qlen q"
      by (simp only: add.assoc mod_add_left_eq)
    also have "r + qlen q - 1 + (1 + i) = r + i + qlen q" using storage_nums(1) [OF ok] by simp
    finally show ?thesis by simp
  qed
  have p: "(if r' < pcHead q then pcTail q - uxItemSize q else r') = slot q ?p"
    unfolding r'_def r(2) by (rule backward [OF ok r(1)])
  have "holds q (write_bytes m (pcReadFrom q) x) ?p (x # ys)"
    unfolding holds_def
  proof (intro allI impI)
    fix i assume i: "i < length (x # ys)"
    show "read_bytes (write_bytes m (pcReadFrom q) x) (slot q ((?p + 1 + i) mod qlen q)) (qsize q) = (x # ys) ! i"
    proof (cases i)
      case 0
      then show ?thesis using read_slot_same [OF x] r(1) shift [of i] by (simp add: r(2))
    next
      case (Suc k)
      have "r mod qlen q \<noteq> (r + i) mod qlen q" using Suc i keep by (intro mod_apart) simp_all
      then have "r \<noteq> (r + 1 + k) mod qlen q" using r(1) Suc by simp
      then show ?thesis
        using Suc i ys [of k] r(4) read_slot_other [OF ok x r(1)] shift [of i] storage_nums(1) [OF ok]
        by (simp add: r(2) holds_def)
    qed
  qed
  moreover have "pcWriteTo q = slot q ((?p + 1 + length (x # ys)) mod qlen q)"
    using shift [of "length (x # ys)"] wr [of r] r(3) by simp
  ultimately show ?thesis
    using ok keep n' storage_nums(1) [OF ok] by (auto simp: fifo_def p holds_def intro!: exI [of _ ?p])
qed

lemma fifo_take:
  assumes f: "fifo q m (x # xs)"
  defines "r' \<equiv> pcReadFrom q + uxItemSize q"
  defines "p \<equiv> if pcTail q \<le> r' then pcHead q else r'"
  shows "read_bytes m p (qsize q) = x"
    and "fifo (q\<lparr>pcReadFrom := p, uxMessagesWaiting := uxMessagesWaiting q - 1\<rparr>) m xs"
proof -
  obtain r where r: "r < qlen q" "pcReadFrom q = slot q r"
    "pcWriteTo q = slot q ((r + 1 + length (x # xs)) mod qlen q)" "holds q m r (x # xs)"
    and ok: "storage_ok q" and n: "unat (uxMessagesWaiting q) = length (x # xs)"
    and le: "length (x # xs) \<le> qlen q"
    using f by (auto simp: fifo_def)
  let ?p = "Suc r mod qlen q"
  have p: "p = slot q ?p" unfolding p_def r'_def r(2) by (rule forward [OF ok r(1)])
  have shift: "(?p + 1 + i) mod qlen q = (r + 1 + Suc i) mod qlen q" for i
  proof -
    have "(?p + 1 + i) mod qlen q = (Suc r + (1 + i)) mod qlen q"
      by (simp only: add.assoc mod_add_left_eq)
    then show ?thesis by simp
  qed
  show "read_bytes m p (qsize q) = x" using r(4) by (auto simp: holds_def p)
  have "holds q m ?p xs"
    using r(4) unfolding holds_def shift by auto
  moreover have "unat (uxMessagesWaiting q - 1) = length xs"
    using n by (simp add: unat_pred)
  ultimately show "fifo (q\<lparr>pcReadFrom := p, uxMessagesWaiting := uxMessagesWaiting q - 1\<rparr>) m xs"
    using ok le r(3) storage_nums(1) [OF ok] shift [of "length xs"]
    by (auto simp: fifo_def p holds_def intro!: exI [of _ ?p])
qed

section \<open>The operations on a queue of items\<close>

text \<open>What the operations are on the list of items of a queue of \<open>L\<close> places.\<close>

fun list_send :: "nat \<Rightarrow> position \<Rightarrow> 'a \<Rightarrow> 'a list \<Rightarrow> bool \<times> 'a list" where
  "list_send L queueSEND_TO_BACK x xs = (if length xs < L then (True, xs @ [x]) else (False, xs))"
| "list_send L queueSEND_TO_FRONT x xs = (if length xs < L then (True, x # xs) else (False, xs))"
| "list_send L queueOVERWRITE x xs = (True, x # tl xs)"

fun list_receive :: "'a list \<Rightarrow> 'a option \<times> 'a list" where
  "list_receive [] = (None, [])"
| "list_receive (x # xs) = (Some x, xs)"

fun list_peek :: "'a list \<Rightarrow> 'a option" where
  "list_peek [] = None"
| "list_peek (x # xs) = Some x"

text \<open>The items are kept by a queue of a system state; the arguments of a send are as the
  asserts of the code demand.\<close>

definition qitems :: "nat \<Rightarrow> rtos \<Rightarrow> u8 list list \<Rightarrow> bool" where
  "qitems h s xs \<longleftrightarrow> fifo (queues s h) (rmem s) xs"

definition sendable :: "nat \<Rightarrow> position \<Rightarrow> u8 list \<Rightarrow> rtos \<Rightarrow> bool" where
  "sendable h p x s \<longleftrightarrow> length x = qsize (queues s h) \<and> (p = queueOVERWRITE \<longrightarrow> uxLength (queues s h) = 1)"

text \<open>What no operation on a queue touches, apart from the kernel and the items.\<close>

definition same_shape :: "nat \<Rightarrow> rtos \<Rightarrow> rtos \<Rightarrow> bool" where
  "same_shape h s s' \<longleftrightarrow> uxLength (queues s' h) = uxLength (queues s h) \<and>
     uxItemSize (queues s' h) = uxItemSize (queues s h) \<and> pcHead (queues s' h) = pcHead (queues s h) \<and>
     (\<forall>g. g \<noteq> h \<longrightarrow> queues s' g = queues s g) \<and> rheap s' = rheap s"

lemma same_shape_refl [simp]: "same_shape h s s"
  by (simp add: same_shape_def)

lemma same_shape_trans: "same_shape h s s' \<Longrightarrow> same_shape h s' s'' \<Longrightarrow> same_shape h s s''"
  by (simp add: same_shape_def)

lemma same_shape_kern [simp]:
  "same_shape h s (s'\<lparr>rkern := k\<rparr>) = same_shape h s s'" "same_shape h (s\<lparr>rkern := k\<rparr>) s' = same_shape h s s'"
  by (simp_all add: same_shape_def)

lemma qitems_kern [simp]: "qitems h (s\<lparr>rkern := k\<rparr>) xs = qitems h s xs"
  by (simp add: qitems_def)

lemma qitems_full:
  assumes "qitems h s xs"
  shows "uxMessagesWaiting (queues s h) < uxLength (queues s h) \<longleftrightarrow> length xs < qlen (queues s h)"
    and "0 < uxMessagesWaiting (queues s h) \<longleftrightarrow> xs \<noteq> []"
    and "uxMessagesWaiting (queues s h) = uxLength (queues s h) \<longleftrightarrow> length xs = qlen (queues s h)"
    and "uxMessagesWaiting (queues s h) = 0 \<longleftrightarrow> xs = []"
    and "uxItemSize (queues s h) \<noteq> 0" "pcHead (queues s h) \<noteq> 0" "0 < qlen (queues s h)"
proof -
  have n: "unat (uxMessagesWaiting (queues s h)) = length xs" and ok: "storage_ok (queues s h)"
    using assms by (auto simp: qitems_def fifo_def)
  show "uxMessagesWaiting (queues s h) < uxLength (queues s h) \<longleftrightarrow> length xs < qlen (queues s h)"
    "0 < uxMessagesWaiting (queues s h) \<longleftrightarrow> xs \<noteq> []"
    "uxMessagesWaiting (queues s h) = uxLength (queues s h) \<longleftrightarrow> length xs = qlen (queues s h)"
    "uxMessagesWaiting (queues s h) = 0 \<longleftrightarrow> xs = []"
    using n by (auto simp: word_less_nat_alt word_unat_eq_iff)
  show "uxItemSize (queues s h) \<noteq> 0" "pcHead (queues s h) \<noteq> 0" "0 < qlen (queues s h)"
    using storage_nums [OF ok] by auto
qed

lemma copy_to:
  assumes q: "qitems h s xs" and x: "sendable h p x s"
    and room: "p = queueOVERWRITE \<or> length xs < qlen (queues s h)"
  shows "\<exists>s'. prvCopyDataToQueue h x p s = (False, s') \<and>
    qitems h s' (snd (list_send (qlen (queues s h)) p x xs)) \<and> same_shape h s s' \<and>
    rkern s' = rkern s \<and> cTxLock (queues s' h) = cTxLock (queues s h) \<and>
    cRxLock (queues s' h) = cRxLock (queues s h)"
proof -
  let ?q = "queues s h"
  have f: "fifo ?q (rmem s) xs" and l: "length x = qsize ?q" and t: "take (qsize ?q) x = x"
    using q x by (auto simp: qitems_def sendable_def)
  note N = qitems_full [OF q]
  have n: "unat (uxMessagesWaiting ?q) = length xs" and le: "length xs \<le> qlen ?q"
    using f by (auto simp: fifo_def)
  have nn: "unat (uxMessagesWaiting ?q + 1) = length xs + 1" if "length xs < qlen ?q"
    using unat_plus1 [of "uxMessagesWaiting ?q" "uxLength ?q"] that n by simp
  show ?thesis
  proof (cases p)
    case queueSEND_TO_BACK
    then have room: "length xs < qlen ?q" using room by simp
    show ?thesis
      using N(5) fifo_back [OF f room l] room t queueSEND_TO_BACK
      by (simp add: prvCopyDataToQueue_def Let_def qitems_def same_shape_def)
  next
    case queueSEND_TO_FRONT
    then have room: "length xs < qlen ?q" using room by simp
    have "fifo (?q\<lparr>pcReadFrom := if pcReadFrom ?q - uxItemSize ?q < pcHead ?q then pcTail ?q - uxItemSize ?q
        else pcReadFrom ?q - uxItemSize ?q, uxMessagesWaiting := uxMessagesWaiting ?q + 1\<rparr>)
      (write_bytes (rmem s) (pcReadFrom ?q) x) (x # xs)"
      by (rule fifo_front_slot [OF f l]) (use room nn in simp_all)
    then show ?thesis
      using N(5) room t queueSEND_TO_FRONT
      by (simp add: prvCopyDataToQueue_def Let_def qitems_def same_shape_def)
  next
    case queueOVERWRITE
    then have L: "qlen ?q = 1" using x by (simp add: sendable_def)
    define m where "m = (if 0 < uxMessagesWaiting ?q then uxMessagesWaiting ?q - 1 else uxMessagesWaiting ?q)"
    have "tl xs = []" using le L by (cases xs) auto
    have um: "unat m = 0"
      using n N(2) le L unat_pred [of "uxMessagesWaiting ?q" 0] by (cases xs) (auto simp: m_def)
    have "fifo (?q\<lparr>pcReadFrom := if pcReadFrom ?q - uxItemSize ?q < pcHead ?q then pcTail ?q - uxItemSize ?q
        else pcReadFrom ?q - uxItemSize ?q, uxMessagesWaiting := m + 1\<rparr>)
      (write_bytes (rmem s) (pcReadFrom ?q) x) (x # tl xs)"
      by (rule fifo_front_slot [OF f l]) (use L um \<open>tl xs = []\<close> in \<open>simp_all add: unat_eq_zero\<close>)
    then show ?thesis
      using N(5) t queueOVERWRITE
      by (simp add: prvCopyDataToQueue_def Let_def qitems_def same_shape_def m_def split del: if_split)
  qed
qed

lemma copy_from:
  assumes q: "qitems h s (x # xs)"
  shows "\<exists>r. prvCopyDataFromQueue h s = (x, upd_queue h (pcReadFrom_update (\<lambda>_. r)) s) \<and>
    fifo ((queues s h)\<lparr>pcReadFrom := r, uxMessagesWaiting := uxMessagesWaiting (queues s h) - 1\<rparr>) (rmem s) xs"
  using q fifo_take [of "queues s h" "rmem s" x xs] qitems_full(5) [OF q]
  by (auto simp: prvCopyDataFromQueue_def Let_def qitems_def)

lemma wake_waiter_returns: "\<exists>k'. wake_waiter y e k = Some k'"
  by (auto simp: wake_waiter_def xTaskRemoveFromEventList_def Let_def split: list.splits)

lemma remove_from_event_returns: "eventLists k e \<noteq> [] \<Longrightarrow> \<exists>r k'. xTaskRemoveFromEventList e k = Some (r, k')"
  by (auto simp: xTaskRemoveFromEventList_def Let_def split: list.splits)

lemma wake_from_isr_returns: "\<exists>w' k'. wake_from_isr e w k = Some (w', k')"
  using remove_from_event_returns [of k e] by (auto simp: wake_from_isr_def)

lemma on_kern_wake:
  "(if eventLists (rkern s) e \<noteq> [] then on_kern (wake_waiter y e) s else Some s) = on_kern (wake_waiter y e) s"
  by (simp add: on_kern_def wake_waiter_def)

text \<open>A call that does not wait, from a task.\<close>

definition receive_now :: "nat \<Rightarrow> bool \<Rightarrow> rtos \<Rightarrow> (u8 list option \<times> rtos) option" where
  "receive_now h peek s = xQueueGenericReceive h 0 peek [\<lambda>s. s] s"

lemma send_now_spec:
  assumes q: "qitems h s xs" and x: "sendable h p x s"
  shows "\<exists>s'. send_now h x p s = Some (fst (list_send (qlen (queues s h)) p x xs), s') \<and>
    qitems h s' (snd (list_send (qlen (queues s h)) p x xs)) \<and> same_shape h s s' \<and>
    (if fst (list_send (qlen (queues s h)) p x xs)
     then wake_waiter portYIELD (xTasksWaitingToReceive h) (rkern s) = Some (rkern s') else s' = s)"
proof (cases "p = queueOVERWRITE \<or> length xs < qlen (queues s h)")
  case True
  obtain s1 where s1: "prvCopyDataToQueue h x p s = (False, s1)"
    "qitems h s1 (snd (list_send (qlen (queues s h)) p x xs))" "same_shape h s s1" "rkern s1 = rkern s"
    using copy_to [OF q x True] by auto
  obtain k where k: "wake_waiter portYIELD (xTasksWaitingToReceive h) (rkern s) = Some k"
    using wake_waiter_returns by blast
  have "send_enter h x p (begin_call 0) s = Some (Done True, begin_call 0, s1\<lparr>rkern := k\<rparr>)"
    using True s1(1,4) k qitems_full(1) [OF q]
    by (auto simp: send_enter_def on_kern_wake cong: if_cong) (simp_all add: on_kern_def)
  moreover have "fst (list_send (qlen (queues s h)) p x xs)" using True by (cases p) auto
  ultimately show ?thesis
    using s1 k by (auto simp: send_now_def xQueueGenericSend_def)
next
  case False
  then have "list_send (qlen (queues s h)) p x xs = (False, xs)" by (cases p) auto
  then show ?thesis
    using False q qitems_full(1) [OF q]
    by (auto simp: send_now_def xQueueGenericSend_def send_enter_def begin_call_def)
qed

lemma receive_now_spec:
  assumes q: "qitems h s xs"
  shows "\<exists>s'. receive_now h False s = Some (fst (list_receive xs), s') \<and>
    qitems h s' (snd (list_receive xs)) \<and> same_shape h s s' \<and>
    (if xs \<noteq> [] then wake_waiter portYIELD (xTasksWaitingToSend h) (rkern s) = Some (rkern s') else s' = s)"
proof (cases xs)
  case Nil
  then show ?thesis
    using q qitems_full(4) [OF q]
    by (auto simp: receive_now_def xQueueGenericReceive_def receive_enter_def begin_call_def)
next
  case (Cons x ys)
  note N = qitems_full [OF q]
  obtain r where r: "prvCopyDataFromQueue h s = (x, upd_queue h (pcReadFrom_update (\<lambda>_. r)) s)"
    "fifo ((queues s h)\<lparr>pcReadFrom := r, uxMessagesWaiting := uxMessagesWaiting (queues s h) - 1\<rparr>) (rmem s) ys"
    using copy_from q Cons by blast
  obtain k where k: "wake_waiter portYIELD (xTasksWaitingToSend h) (rkern s) = Some k"
    using wake_waiter_returns by blast
  define s1 where "s1 = upd_queue h (uxMessagesWaiting_update (\<lambda>_. uxMessagesWaiting (queues s h) - 1))
    (upd_queue h (pcReadFrom_update (\<lambda>_. r)) s)"
  have "take_item h s = Some (x, s1\<lparr>rkern := k\<rparr>)"
    using r(1) k N(6) by (simp add: take_item_def Let_def on_kern_def queueQUEUE_IS_MUTEX_def s1_def)
  moreover have "qitems h s1 ys" using r(2) by (simp add: qitems_def s1_def)
  moreover have "same_shape h s s1" by (simp add: same_shape_def s1_def)
  ultimately show ?thesis
    using Cons k N(2) by (simp add: receive_now_def xQueueGenericReceive_def receive_enter_def)
qed

lemma peek_now_spec:
  assumes q: "qitems h s xs"
  shows "\<exists>s'. receive_now h True s = Some (list_peek xs, s') \<and> qitems h s' xs \<and> same_shape h s s' \<and>
    (if xs \<noteq> [] then wake_waiter portYIELD (xTasksWaitingToReceive h) (rkern s) = Some (rkern s') else s' = s)"
proof (cases xs)
  case Nil
  then show ?thesis
    using q qitems_full(4) [OF q]
    by (auto simp: receive_now_def xQueueGenericReceive_def receive_enter_def begin_call_def)
next
  case (Cons x ys)
  note N = qitems_full [OF q]
  obtain r where r: "prvCopyDataFromQueue h s = (x, upd_queue h (pcReadFrom_update (\<lambda>_. r)) s)"
    using copy_from q Cons by blast
  obtain k where k: "wake_waiter portYIELD (xTasksWaitingToReceive h) (rkern s) = Some k"
    using wake_waiter_returns by blast
  have restore: "upd_queue h (pcReadFrom_update (\<lambda>_. pcReadFrom (queues s h)))
      (upd_queue h (pcReadFrom_update (\<lambda>_. r)) s) = s"
    by (simp add: upd_queue_def)
  have "peek_item h s = Some (x, s\<lparr>rkern := k\<rparr>)"
    using r k by (simp add: peek_item_def Let_def on_kern_def restore)
  then show ?thesis
    using Cons k N(2) q by (simp add: receive_now_def xQueueGenericReceive_def receive_enter_def)
qed

text \<open>The calls from interrupts: when the queue is locked, they only count.\<close>

lemma send_isr_spec:
  assumes q: "qitems h s xs" and x: "sendable h p x s"
  shows "\<exists>w' s'. xQueueGenericSendFromISR h x w p s =
      Some (fst (list_send (qlen (queues s h)) p x xs), w', s') \<and>
    qitems h s' (snd (list_send (qlen (queues s h)) p x xs)) \<and> same_shape h s s' \<and>
    (fst (list_send (qlen (queues s h)) p x xs) \<and> cTxLock (queues s h) \<noteq> queueUNLOCKED \<longrightarrow>
      cTxLock (queues s' h) = cTxLock (queues s h) + 1 \<and> rkern s' = rkern s \<and> w' = w) \<and>
    (fst (list_send (qlen (queues s h)) p x xs) \<and> cTxLock (queues s h) = queueUNLOCKED \<longrightarrow>
      wake_from_isr (xTasksWaitingToReceive h) w (rkern s) = Some (w', rkern s'))"
proof (cases "p = queueOVERWRITE \<or> length xs < qlen (queues s h)")
  case True
  obtain s1 where s1: "prvCopyDataToQueue h x p s = (False, s1)"
    "qitems h s1 (snd (list_send (qlen (queues s h)) p x xs))" "same_shape h s s1" "rkern s1 = rkern s"
    "cTxLock (queues s1 h) = cTxLock (queues s h)"
    using copy_to [OF q x True] by auto
  have sent: "fst (list_send (qlen (queues s h)) p x xs)" using True by (cases p) auto
  have go: "uxMessagesWaiting (queues s h) < uxLength (queues s h) \<or> p = queueOVERWRITE"
    using True qitems_full(1) [OF q] by auto
  show ?thesis
  proof (cases "cTxLock (queues s h) = queueUNLOCKED")
    case True
    obtain w' k where k: "wake_from_isr (xTasksWaitingToReceive h) w (rkern s) = Some (w', k)"
      using wake_from_isr_returns by blast
    then show ?thesis
      using True k s1 sent go by (auto simp: xQueueGenericSendFromISR_def Let_def)
  next
    case False
    then show ?thesis
      using s1 sent go
      by (auto simp: xQueueGenericSendFromISR_def Let_def qitems_def same_shape_def)
  qed
next
  case False
  then have "list_send (qlen (queues s h)) p x xs = (False, xs)" by (cases p) auto
  then show ?thesis
    using False q qitems_full(1) [OF q] by (auto simp: xQueueGenericSendFromISR_def)
qed

lemma receive_isr_spec:
  assumes q: "qitems h s xs"
  shows "\<exists>w' s'. xQueueReceiveFromISR h w s = Some (fst (list_receive xs), w', s') \<and>
    qitems h s' (snd (list_receive xs)) \<and> same_shape h s s'"
proof (cases xs)
  case Nil
  then show ?thesis using q qitems_full(4) [OF q] by (auto simp: xQueueReceiveFromISR_def)
next
  case (Cons x ys)
  note N = qitems_full [OF q]
  obtain r where r: "prvCopyDataFromQueue h s = (x, upd_queue h (pcReadFrom_update (\<lambda>_. r)) s)"
    "fifo ((queues s h)\<lparr>pcReadFrom := r, uxMessagesWaiting := uxMessagesWaiting (queues s h) - 1\<rparr>) (rmem s) ys"
    using copy_from q Cons by blast
  define s1 where "s1 = upd_queue h (uxMessagesWaiting_update (\<lambda>_. uxMessagesWaiting (queues s h) - 1))
    (upd_queue h (pcReadFrom_update (\<lambda>_. r)) s)"
  have i: "qitems h s1 ys" "same_shape h s s1" using r(2) by (simp_all add: qitems_def s1_def same_shape_def)
  obtain w' k where k: "wake_from_isr (xTasksWaitingToSend h) w (rkern s1) = Some (w', k)"
    using wake_from_isr_returns by blast
  have go: "0 < uxMessagesWaiting (queues s h)" using N(2) Cons by simp
  show ?thesis
  proof (cases "cRxLock (queues s h) = queueUNLOCKED")
    case True
    then show ?thesis
      using k r(1) go i Cons by (simp add: xQueueReceiveFromISR_def Let_def s1_def [symmetric])
  next
    case False
    then show ?thesis
      using r(1) go i Cons
      by (simp add: xQueueReceiveFromISR_def Let_def s1_def [symmetric] qitems_def same_shape_def)
  qed
qed

lemma peek_isr_spec:
  assumes q: "qitems h s xs"
  shows "xQueuePeekFromISR h s = (list_peek xs, s)"
proof (cases xs)
  case Nil
  then show ?thesis using qitems_full(4) [OF q] by (simp add: xQueuePeekFromISR_def)
next
  case (Cons x ys)
  obtain r where "prvCopyDataFromQueue h s = (x, upd_queue h (pcReadFrom_update (\<lambda>_. r)) s)"
    using copy_from q Cons by blast
  then show ?thesis
    using Cons qitems_full(2) [OF q] by (simp add: xQueuePeekFromISR_def Let_def upd_queue_def)
qed

section \<open>The interface of a bounded queue\<close>

text \<open>A run of posts (\<open>Some\<close>) and fetches (\<open>None\<close>); it collects the items that were accepted and
  those that came out.\<close>

fun exchange :: "('m \<Rightarrow> 's \<Rightarrow> (bool \<times> 's) option) \<Rightarrow> ('s \<Rightarrow> ('m option \<times> 's) option) \<Rightarrow>
    'm option list \<Rightarrow> 's \<Rightarrow> ('m list \<times> 'm list \<times> 's) option" where
  "exchange post fetch [] s = Some ([], [], s)"
| "exchange post fetch (Some x # ops) s =
    Option.bind (post x s) (\<lambda>(ok, s).
      map_option (\<lambda>(ins, outs, s). (if ok then x # ins else ins, outs, s)) (exchange post fetch ops s))"
| "exchange post fetch (None # ops) s =
    Option.bind (fetch s) (\<lambda>(r, s).
      map_option (\<lambda>(ins, outs, s). (ins, (case r of None \<Rightarrow> outs | Some x \<Rightarrow> x # outs), s)) (exchange post fetch ops s))"

text \<open>
  What the clients of a queue rely on: a post succeeds exactly when there is room and appends, a
  fetch succeeds exactly when there is an item and takes the oldest. \<open>keeps s xs\<close> says that the
  state \<open>s\<close> keeps the items \<open>xs\<close> in at most \<open>cap\<close> places.
\<close>

locale bounded_fifo =
  fixes keeps :: "'s \<Rightarrow> 'm list \<Rightarrow> bool"
    and cap :: nat
    and postable :: "'m \<Rightarrow> bool"
    and post :: "'m \<Rightarrow> 's \<Rightarrow> (bool \<times> 's) option"
    and fetch :: "'s \<Rightarrow> ('m option \<times> 's) option"
  assumes post_law: "keeps s xs \<Longrightarrow> postable x \<Longrightarrow>
      \<exists>s'. post x s = Some (length xs < cap, s') \<and> keeps s' (if length xs < cap then xs @ [x] else xs)"
    and fetch_law: "keeps s xs \<Longrightarrow> \<exists>s'. fetch s = Some (fst (list_receive xs), s') \<and> keeps s' (snd (list_receive xs))"
begin

lemma exchange_fifo:
  assumes "keeps s xs" and "\<forall>x. Some x \<in> set ops \<longrightarrow> postable x"
  shows "\<exists>ins outs s' ys. exchange post fetch ops s = Some (ins, outs, s') \<and> keeps s' ys \<and> xs @ ins = outs @ ys"
  using assms
proof (induction ops arbitrary: s xs)
  case Nil
  then show ?case by auto
next
  case (Cons x ops)
  show ?case
  proof (cases x)
    case None
    obtain s1 where s1: "fetch s = Some (fst (list_receive xs), s1)" "keeps s1 (snd (list_receive xs))"
      using fetch_law [OF Cons.prems(1)] by blast
    obtain ins outs s' ys where IH: "exchange post fetch ops s1 = Some (ins, outs, s')" "keeps s' ys"
      "snd (list_receive xs) @ ins = outs @ ys"
      using Cons.IH [OF s1(2)] Cons.prems(2) by auto
    then show ?thesis using None s1(1) by (cases xs) auto
  next
    case (Some m)
    define xs' where "xs' = (if length xs < cap then xs @ [m] else xs)"
    obtain s1 where s1: "post m s = Some (length xs < cap, s1)" "keeps s1 xs'"
      using post_law [OF Cons.prems(1), of m] Cons.prems(2) Some by (auto simp: xs'_def)
    obtain ins outs s' ys where IH: "exchange post fetch ops s1 = Some (ins, outs, s')" "keeps s' ys"
      "xs' @ ins = outs @ ys"
      using Cons.IH [OF s1(2)] Cons.prems(2) by auto
    then show ?thesis using Some s1(1) by (auto simp: xs'_def split: if_splits)
  qed
qed

end

text \<open>The queue of a given geometry, kept in the state.\<close>

definition keeps_queue :: "nat \<Rightarrow> nat \<Rightarrow> nat \<Rightarrow> rtos \<Rightarrow> u8 list list \<Rightarrow> bool" where
  "keeps_queue h cap sz s xs \<longleftrightarrow> qitems h s xs \<and> qlen (queues s h) = cap \<and> qsize (queues s h) = sz"

lemma keeps_queue_shape:
  "keeps_queue h cap sz s xs \<Longrightarrow> same_shape h s s' \<Longrightarrow> qitems h s' ys \<Longrightarrow> keeps_queue h cap sz s' ys"
  by (simp add: keeps_queue_def same_shape_def)

lemma list_send_back:
  "list_send L queueSEND_TO_BACK x xs = (length xs < L, if length xs < L then xs @ [x] else xs)"
  by simp

interpretation task_queue: bounded_fifo "keeps_queue h cap sz" cap "\<lambda>x. length x = sz"
  "\<lambda>x. send_now h x queueSEND_TO_BACK" "receive_now h False" for h cap sz
proof unfold_locales
  fix s xs and x :: "u8 list"
  assume k: "keeps_queue h cap sz s xs" and x: "length x = sz"
  then have "sendable h queueSEND_TO_BACK x s" by (simp add: sendable_def keeps_queue_def)
  then show "\<exists>s'. send_now h x queueSEND_TO_BACK s = Some (length xs < cap, s') \<and>
      keeps_queue h cap sz s' (if length xs < cap then xs @ [x] else xs)"
    using send_now_spec [of h s xs queueSEND_TO_BACK x] k keeps_queue_shape [OF k]
    by (auto simp: keeps_queue_def [of h cap sz s] list_send_back simp del: list_send.simps)
next
  fix s xs
  assume k: "keeps_queue h cap sz s xs"
  then show "\<exists>s'. receive_now h False s = Some (fst (list_receive xs), s') \<and>
      keeps_queue h cap sz s' (snd (list_receive xs))"
    using receive_now_spec [of h s xs] keeps_queue_shape [OF k]
    by (auto simp: keeps_queue_def [of h cap sz s])
qed

definition post_isr :: "nat \<Rightarrow> u8 list \<Rightarrow> rtos \<Rightarrow> (bool \<times> rtos) option" where
  "post_isr h x s = map_option (\<lambda>(r, _, s). (r, s)) (xQueueGenericSendFromISR h x None queueSEND_TO_BACK s)"

definition fetch_isr :: "nat \<Rightarrow> rtos \<Rightarrow> (u8 list option \<times> rtos) option" where
  "fetch_isr h s = map_option (\<lambda>(r, _, s). (r, s)) (xQueueReceiveFromISR h None s)"

interpretation isr_queue: bounded_fifo "keeps_queue h cap sz" cap "\<lambda>x. length x = sz"
  "post_isr h" "fetch_isr h" for h cap sz
proof unfold_locales
  fix s xs and x :: "u8 list"
  assume k: "keeps_queue h cap sz s xs" and x: "length x = sz"
  then have sb: "sendable h queueSEND_TO_BACK x s" and q: "qitems h s xs" and L: "qlen (queues s h) = cap"
    by (simp_all add: sendable_def keeps_queue_def)
  obtain w' s' where "xQueueGenericSendFromISR h x None queueSEND_TO_BACK s = Some (length xs < cap, w', s')"
    "qitems h s' (if length xs < cap then xs @ [x] else xs)" "same_shape h s s'"
    using send_isr_spec [OF q sb, of None] unfolding list_send_back L by auto
  then show "\<exists>s'. post_isr h x s = Some (length xs < cap, s') \<and>
      keeps_queue h cap sz s' (if length xs < cap then xs @ [x] else xs)"
    using keeps_queue_shape [OF k] by (simp add: post_isr_def)
next
  fix s xs
  assume k: "keeps_queue h cap sz s xs"
  then show "\<exists>s'. fetch_isr h s = Some (fst (list_receive xs), s') \<and>
      keeps_queue h cap sz s' (snd (list_receive xs))"
    using receive_isr_spec [of h s xs None] keeps_queue_shape [OF k]
    by (auto simp: keeps_queue_def [of h cap sz s] fetch_isr_def)
qed

section \<open>All operations together\<close>

datatype qop = Send position "u8 list" | Receive | Peek
  | SendISR position "u8 list" "bool option" | ReceiveISR "bool option" | PeekISR

datatype qres = Sent bool | Got "u8 list option"

fun qexec :: "nat \<Rightarrow> qop \<Rightarrow> rtos \<Rightarrow> (qres \<times> rtos) option" where
  "qexec h (Send p x) s = map_option (\<lambda>(r, s). (Sent r, s)) (send_now h x p s)"
| "qexec h Receive s = map_option (\<lambda>(r, s). (Got r, s)) (receive_now h False s)"
| "qexec h Peek s = map_option (\<lambda>(r, s). (Got r, s)) (receive_now h True s)"
| "qexec h (SendISR p x w) s = map_option (\<lambda>(r, _, s). (Sent r, s)) (xQueueGenericSendFromISR h x w p s)"
| "qexec h (ReceiveISR w) s = map_option (\<lambda>(r, _, s). (Got r, s)) (xQueueReceiveFromISR h w s)"
| "qexec h PeekISR s = (case xQueuePeekFromISR h s of (r, s) \<Rightarrow> Some (Got r, s))"

fun lexec :: "nat \<Rightarrow> qop \<Rightarrow> u8 list list \<Rightarrow> qres \<times> u8 list list" where
  "lexec L (Send p x) xs = (case list_send L p x xs of (r, xs) \<Rightarrow> (Sent r, xs))"
| "lexec L Receive xs = (case list_receive xs of (r, xs) \<Rightarrow> (Got r, xs))"
| "lexec L Peek xs = (Got (list_peek xs), xs)"
| "lexec L (SendISR p x w) xs = (case list_send L p x xs of (r, xs) \<Rightarrow> (Sent r, xs))"
| "lexec L (ReceiveISR w) xs = (case list_receive xs of (r, xs) \<Rightarrow> (Got r, xs))"
| "lexec L PeekISR xs = (Got (list_peek xs), xs)"

fun qrun :: "nat \<Rightarrow> qop list \<Rightarrow> rtos \<Rightarrow> (qres list \<times> rtos) option" where
  "qrun h [] s = Some ([], s)"
| "qrun h (op # ops) s =
    Option.bind (qexec h op s) (\<lambda>(r, s). map_option (\<lambda>(rs, s). (r # rs, s)) (qrun h ops s))"

fun lrun :: "nat \<Rightarrow> qop list \<Rightarrow> u8 list list \<Rightarrow> qres list \<times> u8 list list" where
  "lrun L [] xs = ([], xs)"
| "lrun L (op # ops) xs =
    (case lexec L op xs of (r, xs) \<Rightarrow> case lrun L ops xs of (rs, xs) \<Rightarrow> (r # rs, xs))"

fun qop_ok :: "nat \<Rightarrow> nat \<Rightarrow> qop \<Rightarrow> bool" where
  "qop_ok L sz (Send p x) \<longleftrightarrow> length x = sz \<and> (p = queueOVERWRITE \<longrightarrow> L = 1)"
| "qop_ok L sz (SendISR p x w) \<longleftrightarrow> length x = sz \<and> (p = queueOVERWRITE \<longrightarrow> L = 1)"
| "qop_ok L sz _ \<longleftrightarrow> True"

lemma qexec_refines:
  assumes k: "keeps_queue h L sz s xs" and op: "qop_ok L sz op"
  shows "\<exists>s'. qexec h op s = Some (fst (lexec L op xs), s') \<and> keeps_queue h L sz s' (snd (lexec L op xs))"
proof -
  have q: "qitems h s xs" and L: "qlen (queues s h) = L" "qsize (queues s h) = sz"
    using k by (simp_all add: keeps_queue_def)
  have one: "uxLength (queues s h) = 1 \<longleftrightarrow> L = 1" using L by (simp add: word_unat_eq_iff)
  have sb: "sendable h p x s" if "length x = sz" "p = queueOVERWRITE \<longrightarrow> L = 1" for p x
    using that one L by (simp add: sendable_def)
  note shape = keeps_queue_shape [OF k]
  show ?thesis
  proof (cases op)
    case (Send p x)
    then show ?thesis
      using send_now_spec [OF q sb, of x p] op shape by (auto simp: L case_prod_beta)
  next
    case (SendISR p x w)
    then show ?thesis
      using send_isr_spec [OF q sb, of x p w] op shape by (auto simp: L case_prod_beta)
  next
    case Receive
    then show ?thesis using receive_now_spec [OF q] shape by (auto simp: case_prod_beta)
  next
    case Peek
    then show ?thesis using peek_now_spec [OF q] shape by auto
  next
    case (ReceiveISR w)
    then show ?thesis using receive_isr_spec [OF q, of w] shape by (auto simp: case_prod_beta)
  next
    case PeekISR
    then show ?thesis using peek_isr_spec [OF q] k by simp
  qed
qed

lemma qrun_refines:
  assumes "keeps_queue h L sz s xs" and "\<forall>op \<in> set ops. qop_ok L sz op"
  shows "\<exists>s'. qrun h ops s = Some (fst (lrun L ops xs), s') \<and> keeps_queue h L sz s' (snd (lrun L ops xs))"
  using assms
proof (induction ops arbitrary: s xs)
  case Nil
  then show ?case by simp
next
  case (Cons op ops)
  obtain s1 where s1: "qexec h op s = Some (fst (lexec L op xs), s1)"
    "keeps_queue h L sz s1 (snd (lexec L op xs))"
    using qexec_refines Cons.prems by fastforce
  obtain s2 where "qrun h ops s1 = Some (fst (lrun L ops (snd (lexec L op xs))), s2)"
    "keeps_queue h L sz s2 (snd (lrun L ops (snd (lexec L op xs))))"
    using Cons.IH [OF s1(2)] Cons.prems(2) by auto
  then show ?case using s1(1) by (auto simp: case_prod_beta)
qed

section \<open>Properties of the ring of items\<close>

text \<open>A queue just created is empty, unlocked, and nobody waits for it.\<close>

lemma new_queue:
  assumes "0 < n" and "0 < sz" and "sz \<le> st" and "unat st + unat n * unat sz < 4294967296"
  shows "\<exists>s'. prvInitialiseNewQueue n sz st h s = Some s' \<and> keeps_queue h (unat n) (unat sz) s' [] \<and>
    cTxLock (queues s' h) = queueUNLOCKED \<and> cRxLock (queues s' h) = queueUNLOCKED \<and>
    eventLists (rkern s') (xTasksWaitingToSend h) = [] \<and>
    eventLists (rkern s') (xTasksWaitingToReceive h) = [] \<and> (\<forall>g. g \<noteq> h \<longrightarrow> queues s' g = queues s g)"
proof -
  define s' where "s' = upd_kern (\<lambda>k. k\<lparr>eventLists := (eventLists k)
      (xTasksWaitingToSend h := [], xTasksWaitingToReceive h := [])\<rparr>)
    (upd_queue h (\<lambda>q. \<lparr>pcHead = st, pcTail = st + n * sz, pcWriteTo = st,
      pcReadFrom = st + (n - 1) * sz, uxMessagesWaiting = 0, uxLength = n, uxItemSize = sz,
      cRxLock = queueUNLOCKED, cTxLock = queueUNLOCKED\<rparr>) s)"
  have q: "queues s' h = \<lparr>pcHead = st, pcTail = st + n * sz, pcWriteTo = st,
      pcReadFrom = st + (n - 1) * sz, uxMessagesWaiting = 0, uxLength = n, uxItemSize = sz,
      cRxLock = queueUNLOCKED, cTxLock = queueUNLOCKED\<rparr>" by (simp add: s'_def)
  have pos: "0 < unat n" "0 < unat sz" using assms(1,2) by (simp_all add: word_less_nat_alt)
  have made: "prvInitialiseNewQueue n sz st h s = Some s'"
    using assms(2) unfolding s'_def prvInitialiseNewQueue_def xQueueGenericReset_def Let_def
    by (auto simp: upd_queue_def upd_kern_def fun_eq_iff)
  have "unat (n * sz) = unat n * unat sz" using assms(4) by (simp add: unat_word_ariths)
  then have ok: "storage_ok (queues s' h)"
    using assms unfolding q by (simp add: storage_ok_def unat_word_ariths)
  have "unat (n - 1) = unat n - 1" using pos by (intro unat_minus_one) auto
  moreover have "of_nat (unat (n - 1)) = n - 1" by simp
  ultimately have "n - 1 = of_nat (unat n - 1)" by simp
  then have "pcReadFrom (queues s' h) = slot (queues s' h) (unat n - 1)" unfolding q slot_def by simp
  moreover have "pcWriteTo (queues s' h) = slot (queues s' h) ((unat n - 1 + 1 + 0) mod unat n)"
    using pos unfolding q slot_def by simp
  ultimately have "fifo (queues s' h) (rmem s') []"
    unfolding fifo_def holds_def using ok pos(1) by (auto simp: q intro!: exI [of _ "unat n - 1"])
  then have "keeps_queue h (unat n) (unat sz) s' []" by (simp add: keeps_queue_def qitems_def q)
  then show ?thesis using made by (auto simp: q) (simp_all add: s'_def xTasksWaitingToSend_def xTasksWaitingToReceive_def)
qed

text \<open>C7: A queue is a bounded list: from its creation on, whatever sequence of sends to the back
  or the front, overwrites, receives and peeks, from tasks that do not wait or from interrupts,
  each call returns what it returns on the list of items, a full queue refusing and an empty queue
  having nothing to give, and the ring buffer holds that list.\<close>

theorem queue_refines_list:
  assumes "0 < n" and "0 < sz" and "sz \<le> st" and "unat st + unat n * unat sz < 4294967296"
    and "\<forall>op \<in> set ops. qop_ok (unat n) (unat sz) op"
  shows "\<exists>s0 s'. prvInitialiseNewQueue n sz st h s = Some s0 \<and>
    qrun h ops s0 = Some (fst (lrun (unat n) ops []), s') \<and>
    keeps_queue h (unat n) (unat sz) s' (snd (lrun (unat n) ops []))"
  using new_queue [OF assms(1-4), of h s] qrun_refines [OF _ assms(5), of h _ "[]"] by blast

definition sample_rtos :: rtos where
  "sample_rtos = \<lparr>rheap = blank_heap, rkern = two_tasks,
     queues = (\<lambda>_. \<lparr>pcHead = 0, pcTail = 0, pcWriteTo = 0, pcReadFrom = 0, uxMessagesWaiting = 0,
        uxLength = 0, uxItemSize = 0, cRxLock = 0, cTxLock = 0\<rparr>),
     rmem = (\<lambda>_. 0), xQueueRegistry = replicate configQUEUE_REGISTRY_SIZE (None, 0)\<rparr>"

lemma queue_refines_list_witness:
  "\<exists>s0 s'. prvInitialiseNewQueue 2 2 0x20000100 7 sample_rtos = Some s0 \<and>
    qrun 7 [Send queueSEND_TO_BACK [1, 2], SendISR queueSEND_TO_FRONT [3, 4] None,
        Send queueSEND_TO_BACK [5, 6], Receive, Peek, ReceiveISR None, Receive] s0 =
      Some ([Sent True, Sent True, Sent False, Got (Some [3, 4]), Got (Some [1, 2]),
        Got (Some [1, 2]), Got None], s')"
  using queue_refines_list [of 2 2 "0x20000100" "[Send queueSEND_TO_BACK [1, 2],
      SendISR queueSEND_TO_FRONT [3, 4] None, Send queueSEND_TO_BACK [5, 6], Receive, Peek,
      ReceiveISR None, Receive]" 7 sample_rtos] by auto

end
