(* ===== verification/RtosQueueSync.thy ===== *)
theory RtosQueueSync
  imports RtosQueueSpec
begin

text \<open>
  How tasks wait for each other on queues: what is promised to a task that blocks in a receive, how
  the lock count of a queue turns into woken tasks, and the priority a mutex lends to its holder.
\<close>

section \<open>Waking from an event list\<close>

lemma event_members_remove:
  "event_members (remove_event_item t k) e =
    (if eventContainer (tcbs k t) = Some e then remove1 t (event_members k e) else event_members k e)"
proof -
  have "event_members (drop_event_member t e' k) e =
      (if e' = e then remove1 t (event_members k e) else event_members k e)" for e'
    by (cases e'; cases e) auto
  then show ?thesis by (auto simp: remove_event_item_def split: option.splits)
qed

lemma eventLists_members: "eventLists k e = event_members k (EventList e)"
  by simp

lemma pending_members: "xPendingReadyList k = event_members k PendingReady"
  by simp

lemma suspended_pending: "uxSchedulerSuspended (pending_insert_end t k) = uxSchedulerSuspended k"
  by (simp add: pending_insert_end_def)

lemma RemoveFromEventList_spec:
  assumes ok: "kern_ok k" and e: "eventLists k e = t # ts"
  shows "\<exists>r k'. xTaskRemoveFromEventList e k = Some (r, k') \<and> kern_ok k' \<and>
    (r \<longleftrightarrow> uxPriority (tcbs k (pxCurrentTCB k)) < uxPriority (tcbs k t)) \<and>
    eventLists k' e = ts \<and> (\<forall>e'. e' \<noteq> e \<longrightarrow> eventLists k' e' = eventLists k e') \<and>
    pxCurrentTCB k' = pxCurrentTCB k \<and> uxSchedulerSuspended k' = uxSchedulerSuspended k \<and>
    (\<forall>u. u \<noteq> t \<longrightarrow> tcbs k' u = tcbs k u) \<and>
    (if uxSchedulerSuspended k = 0
     then xPendingReadyList k' = xPendingReadyList k \<and> tcbs k' t = (tcbs k t)
       \<lparr>eventContainer := None, stateContainer := Some (Ready (uxPriority (tcbs k t)))\<rparr>
     else xPendingReadyList k' = xPendingReadyList k @ [t] \<and>
       tcbs k' t = (tcbs k t)\<lparr>eventContainer := Some PendingReady\<rparr>)"
proof -
  have c: "core_ok k" using ok by (simp add: kern_ok_def)
  have ec: "eventContainer (tcbs k t) = Some (EventList e)"
    using core_okD(9) [OF c, of t "EventList e"] e by simp
  define k1 where "k1 = remove_event_item t k"
  define k2 where "k2 = (if uxSchedulerSuspended k = 0 then wake t k1 else pending_insert_end t k1)"
  have k2: "event_members k2 (EventList e) = ts"
    "e' \<noteq> e \<Longrightarrow> event_members k2 (EventList e') = event_members k (EventList e')"
    "event_members k2 PendingReady = (if uxSchedulerSuspended k = 0 then xPendingReadyList k
       else xPendingReadyList k @ [t])"
    "uxSchedulerSuspended k2 = uxSchedulerSuspended k" "pxCurrentTCB k2 = pxCurrentTCB k"
    "uxPriority (tcbs k2 u) = uxPriority (tcbs k u)" for e' u
    using e ec by (simp_all add: k2_def k1_def event_members_remove suspended_pending
        del: event_members.simps) (simp_all add: e)
  have "xTaskRemoveFromEventList e k =
      Some (if uxPriority (tcbs k2 (pxCurrentTCB k2)) < uxPriority (tcbs k2 t)
            then (True, k2\<lparr>xYieldPending := True\<rparr>) else (False, k2))"
    using e by (simp add: xTaskRemoveFromEventList_def Let_def k2_def k1_def)
  then obtain r k' where r: "xTaskRemoveFromEventList e k = Some (r, k')"
    "r \<longleftrightarrow> uxPriority (tcbs k (pxCurrentTCB k)) < uxPriority (tcbs k t)"
    "k' = (if r then k2\<lparr>xYieldPending := True\<rparr> else k2)"
    unfolding k2(5,6) by (cases "uxPriority (tcbs k (pxCurrentTCB k)) < uxPriority (tcbs k t)") auto
  have "kern_ok k'" by (rule kern_RemoveFromEventList [OF ok r(1)])
  moreover have "tcbs k2 t = (if uxSchedulerSuspended k = 0 then (tcbs k t)
       \<lparr>eventContainer := None, stateContainer := Some (Ready (uxPriority (tcbs k t)))\<rparr>
     else (tcbs k t)\<lparr>eventContainer := Some PendingReady\<rparr>)"
    "u \<noteq> t \<Longrightarrow> tcbs k2 u = tcbs k u" for u
    by (simp_all add: k2_def k1_def)
  ultimately show ?thesis
    using r k2 unfolding eventLists_members pending_members by (cases r) (auto simp del: event_members.simps)
qed

text \<open>The loop of \<open>prvUnlockQueue\<close>, which runs with the scheduler suspended: the first tasks of
  the list move to the pending ready list, in their order.\<close>

lemma wake_waiters_spec:
  assumes "kern_ok k" and "uxSchedulerSuspended k \<noteq> 0"
  shows "\<exists>k'. wake_waiters e n k = Some k' \<and> kern_ok k' \<and> eventLists k' e = drop n (eventLists k e) \<and>
    (\<forall>e'. e' \<noteq> e \<longrightarrow> eventLists k' e' = eventLists k e') \<and>
    xPendingReadyList k' = xPendingReadyList k @ take n (eventLists k e) \<and>
    pxCurrentTCB k' = pxCurrentTCB k \<and> uxSchedulerSuspended k' = uxSchedulerSuspended k"
  using assms
proof (induction n arbitrary: k)
  case (Suc n)
  show ?case
  proof (cases "eventLists k e")
    case (Cons t ts)
    obtain r k1 where k1: "xTaskRemoveFromEventList e k = Some (r, k1)" "kern_ok k1"
      "eventLists k1 e = ts" "\<forall>e'. e' \<noteq> e \<longrightarrow> eventLists k1 e' = eventLists k e'"
      "xPendingReadyList k1 = xPendingReadyList k @ [t]"
      "pxCurrentTCB k1 = pxCurrentTCB k" "uxSchedulerSuspended k1 = uxSchedulerSuspended k"
      using RemoveFromEventList_spec [OF Suc.prems(1) Cons] Suc.prems(2) by auto
    define k2 where "k2 = (if r then vTaskMissedYield k1 else k1)"
    have k2: "kern_ok k2" "eventLists k2 = eventLists k1" "xPendingReadyList k2 = xPendingReadyList k1"
      "pxCurrentTCB k2 = pxCurrentTCB k1" "uxSchedulerSuspended k2 = uxSchedulerSuspended k1"
      using k1(2) by (simp_all add: k2_def vTaskMissedYield_def)
    have "wake_waiters e (Suc n) k = wake_waiters e n k2" using Cons k1(1) by (simp add: k2_def)
    then show ?thesis using Suc.IH [of k2] Suc.prems(2) k1 k2 Cons by auto
  qed (use Suc.prems in simp)
qed simp

text \<open>Unlocking a queue, as a call leaves the stretch in which the scheduler is suspended.\<close>

lemma prvUnlockQueue_spec:
  fixes s :: rtos and h :: nat
  assumes ok: "kern_ok (rkern s)" and susp: "uxSchedulerSuspended (rkern s) \<noteq> 0"
  defines "r \<equiv> xTasksWaitingToReceive h" and "w \<equiv> xTasksWaitingToSend h"
  defines "n \<equiv> nat (sint (cTxLock (queues s h)))" and "m \<equiv> nat (sint (cRxLock (queues s h)))"
  shows "\<exists>s'. prvUnlockQueue h s = Some s' \<and> kern_ok (rkern s') \<and>
    queues s' h = (queues s h)\<lparr>cTxLock := queueUNLOCKED, cRxLock := queueUNLOCKED\<rparr> \<and>
    (\<forall>g. g \<noteq> h \<longrightarrow> queues s' g = queues s g) \<and> rmem s' = rmem s \<and>
    eventLists (rkern s') r = drop n (eventLists (rkern s) r) \<and>
    eventLists (rkern s') w = drop m (eventLists (rkern s) w) \<and>
    xPendingReadyList (rkern s') =
      xPendingReadyList (rkern s) @ take n (eventLists (rkern s) r) @ take m (eventLists (rkern s) w) \<and>
    pxCurrentTCB (rkern s') = pxCurrentTCB (rkern s) \<and>
    uxSchedulerSuspended (rkern s') = uxSchedulerSuspended (rkern s)"
proof -
  have ne: "w \<noteq> r" unfolding r_def w_def xTasksWaitingToSend_def xTasksWaitingToReceive_def by presburger
  obtain k1 where k1: "wake_waiters r n (rkern s) = Some k1" "kern_ok k1"
    "eventLists k1 r = drop n (eventLists (rkern s) r)" "eventLists k1 w = eventLists (rkern s) w"
    "xPendingReadyList k1 = xPendingReadyList (rkern s) @ take n (eventLists (rkern s) r)"
    "pxCurrentTCB k1 = pxCurrentTCB (rkern s)" "uxSchedulerSuspended k1 = uxSchedulerSuspended (rkern s)"
    using wake_waiters_spec [OF ok susp, of r n] ne by auto
  obtain k2 where k2: "wake_waiters w m k1 = Some k2" "kern_ok k2"
    "eventLists k2 w = drop m (eventLists k1 w)" "eventLists k2 r = eventLists k1 r"
    "xPendingReadyList k2 = xPendingReadyList k1 @ take m (eventLists k1 w)"
    "pxCurrentTCB k2 = pxCurrentTCB k1" "uxSchedulerSuspended k2 = uxSchedulerSuspended k1"
    using wake_waiters_spec [OF k1(2), of w m] ne k1(7) susp by auto
  show ?thesis
    using k1 k2 by (simp add: prvUnlockQueue_def on_kern_def Let_def r_def w_def n_def m_def)
qed

lemma block_events:
  "event_members (prvAddCurrentTaskToDelayedList n b k) e = event_members k e"
  "xPendingReadyList (prvAddCurrentTaskToDelayedList n b k) = xPendingReadyList k"
  "uxPendedTicks (prvAddCurrentTaskToDelayedList n b k) = uxPendedTicks k"
  "uxSchedulerSuspended (prvAddCurrentTaskToDelayedList n b k) = uxSchedulerSuspended k"
  by (auto simp: prvAddCurrentTaskToDelayedList_def Let_def case_prod_beta block_parts_sel
      simp del: event_members.simps)

lemma place_events:
  "event_members (vTaskPlaceOnEventList e n k) b = (if b = EventList e
     then insort_after (\<lambda>u. eventValue (tcbs k u)) (pxCurrentTCB k) (event_members k b)
     else event_members k b)"
  "xPendingReadyList (vTaskPlaceOnEventList e n k) = xPendingReadyList k"
  "uxPendedTicks (vTaskPlaceOnEventList e n k) = uxPendedTicks k"
  "uxSchedulerSuspended (vTaskPlaceOnEventList e n k) = uxSchedulerSuspended k"
proof -
  show "event_members (vTaskPlaceOnEventList e n k) b = (if b = EventList e
     then insort_after (\<lambda>u. eventValue (tcbs k u)) (pxCurrentTCB k) (event_members k b)
     else event_members k b)"
    by (simp add: vTaskPlaceOnEventList_def block_events del: event_members.simps)
qed (simp_all add: vTaskPlaceOnEventList_def block_events event_insert_def)

section \<open>Sample states\<close>

definition sample_queue :: rtos where
  "sample_queue = sample_rtos\<lparr>queues := (\<lambda>_. \<lparr>pcHead = 0x20000100, pcTail = 0x20000104,
     pcWriteTo = 0x20000100, pcReadFrom = 0x20000102, uxMessagesWaiting = 0, uxLength = 2, uxItemSize = 2,
     cRxLock = queueUNLOCKED, cTxLock = queueUNLOCKED\<rparr>)\<rparr>"

definition sample_mutex :: "u32 \<Rightarrow> u32 \<Rightarrow> rtos" where
  "sample_mutex owner n = sample_rtos\<lparr>queues := (\<lambda>_. \<lparr>pcHead = queueQUEUE_IS_MUTEX, pcTail = owner,
     pcWriteTo = 0, pcReadFrom = 0, uxMessagesWaiting = n, uxLength = 1, uxItemSize = 0,
     cRxLock = queueUNLOCKED, cTxLock = queueUNLOCKED\<rparr>)\<rparr>"

lemma sample_queue_items: "qitems h sample_queue []"
  by (auto simp: qitems_def fifo_def storage_ok_def slot_def holds_def sample_queue_def intro!: exI [of _ 1])

lemma two_tasks_state:
  "pxCurrentTCB two_tasks = 2" "running two_tasks" "exists_task 1 two_tasks" "exists_task 2 two_tasks"
  "uxSchedulerSuspended two_tasks = 0" "xPendingReadyList two_tasks = []" "uxPendedTicks two_tasks = 0"
  "ucNotifyState (tcbs two_tasks 2) = taskNOT_WAITING_NOTIFICATION" "eventLists two_tasks e = []"
  "uxPriority (tcbs two_tasks 1) = 3" "uxPriority (tcbs two_tasks 2) = 5"
  by (simp_all add: running_def exists_task_def two_tasks_def state_eval Let_def)

lemma sample_kern: "rkern sample_queue = two_tasks" "rkern (sample_mutex c n) = two_tasks"
  by (simp_all add: sample_queue_def sample_mutex_def sample_rtos_def)

section \<open>Items that pass a locked queue\<close>

text \<open>Posts from interrupts, one after the other; the results are collected.\<close>

fun isr_posts :: "nat \<Rightarrow> u8 list list \<Rightarrow> rtos \<Rightarrow> (bool list \<times> rtos) option" where
  "isr_posts h [] s = Some ([], s)"
| "isr_posts h (x # xs) s =
    Option.bind (xQueueGenericSendFromISR h x None queueSEND_TO_BACK s) (\<lambda>(r, _, s).
      map_option (\<lambda>(rs, s). (r # rs, s)) (isr_posts h xs s))"

lemma isr_posts_locked:
  assumes "qitems h s xs" and "\<forall>x \<in> set its. length x = qsize (queues s h)"
    and "length xs + length its \<le> qlen (queues s h)"
    and "cTxLock (queues s h) = of_nat n" and "n + length its \<le> 127"
  shows "\<exists>s'. isr_posts h its s = Some (replicate (length its) True, s') \<and> qitems h s' (xs @ its) \<and>
    same_shape h s s' \<and> rkern s' = rkern s \<and> cTxLock (queues s' h) = of_nat (n + length its) \<and>
    cRxLock (queues s' h) = cRxLock (queues s h)"
  using assms
proof (induction its arbitrary: s xs n)
  case (Cons x its)
  have sb: "sendable h queueSEND_TO_BACK x s" using Cons.prems(2) by (simp add: sendable_def)
  have room: "length xs < qlen (queues s h)" using Cons.prems(3) by simp
  then have sent: "list_send (qlen (queues s h)) queueSEND_TO_BACK x xs = (True, xs @ [x])" by simp
  have "(of_nat n :: 8 word) \<noteq> - 1"
  proof
    assume "(of_nat n :: 8 word) = - 1"
    moreover have "(- 1 :: 8 word) = 255" by simp
    ultimately have "unat (of_nat n :: 8 word) = unat (255 :: 8 word)" by (simp only:)
    then show False using Cons.prems(5) by (simp add: unsigned_of_nat take_bit_nat_eq_self)
  qed
  then have locked: "cTxLock (queues s h) \<noteq> queueUNLOCKED"
    by (simp add: Cons.prems(4) queueUNLOCKED_def)
  obtain s1 where s1: "prvCopyDataToQueue h x queueSEND_TO_BACK s = (False, s1)"
    "qitems h s1 (xs @ [x])" "same_shape h s s1" "rkern s1 = rkern s"
    "cTxLock (queues s1 h) = cTxLock (queues s h)" "cRxLock (queues s1 h) = cRxLock (queues s h)"
    using copy_to [OF Cons.prems(1) sb] room sent by auto
  define s2 where "s2 = upd_queue h (cTxLock_update (\<lambda>_. cTxLock (queues s h) + 1)) s1"
  have post: "xQueueGenericSendFromISR h x None queueSEND_TO_BACK s = Some (True, None, s2)"
    using s1(1) locked room qitems_full(1) [OF Cons.prems(1)]
    by (simp add: xQueueGenericSendFromISR_def Let_def s2_def)
  have s2: "qitems h s2 (xs @ [x])" "same_shape h s s2" "rkern s2 = rkern s"
    "cTxLock (queues s2 h) = of_nat (Suc n)" "cRxLock (queues s2 h) = cRxLock (queues s h)"
    using s1 Cons.prems(4) by (simp_all add: s2_def qitems_def same_shape_def)
  have "\<exists>s'. isr_posts h its s2 = Some (replicate (length its) True, s') \<and> qitems h s' ((xs @ [x]) @ its) \<and>
    same_shape h s2 s' \<and> rkern s' = rkern s2 \<and> cTxLock (queues s' h) = of_nat (Suc n + length its) \<and>
    cRxLock (queues s' h) = cRxLock (queues s2 h)"
    by (rule Cons.IH) (use Cons.prems s2 in \<open>auto simp: same_shape_def\<close>)
  then show ?case using post s2 same_shape_trans [OF s2(2)] by auto
qed simp

lemma call_lock_sel:
  "rkern (call_lock h s) = vTaskSuspendAll (rkern s)"
  "cTxLock (queues s h) = queueUNLOCKED \<Longrightarrow> cTxLock (queues (call_lock h s) h) = 0"
  "cRxLock (queues s h) = queueUNLOCKED \<Longrightarrow> cRxLock (queues (call_lock h s) h) = 0"
  "same_shape h s (call_lock h s)" "qitems h (call_lock h s) xs = qitems h s xs"
  by (simp_all add: call_lock_def prvLockQueue_def queueLOCKED_UNMODIFIED_def same_shape_def qitems_def)

text \<open>What interrupts post to a locked queue is not lost on the waiting tasks: while the
  queue is locked only the items and the count change, and unlocking moves exactly as many waiting
  receivers, the first ones in their order, to the pending ready list; up to 127 posts, the range of
  the 8-bit count.\<close>

theorem locked_posts_wake:
  assumes ok: "kern_ok (rkern s)" and susp: "uxSchedulerSuspended (rkern s) = 0"
    and q: "qitems h s xs" and lock: "cTxLock (queues s h) = queueUNLOCKED" "cRxLock (queues s h) = queueUNLOCKED"
    and its: "\<forall>x \<in> set its. length x = qsize (queues s h)"
    and room: "length xs + length its \<le> qlen (queues s h)" and few: "length its \<le> 127"
  shows "\<exists>s1 s2. isr_posts h its (call_lock h s) = Some (replicate (length its) True, s1) \<and>
    eventLists (rkern s1) = eventLists (rkern s) \<and> prvUnlockQueue h s1 = Some s2 \<and>
    kern_ok (rkern s2) \<and> qitems h s2 (xs @ its) \<and>
    cTxLock (queues s2 h) = queueUNLOCKED \<and> cRxLock (queues s2 h) = queueUNLOCKED \<and>
    eventLists (rkern s2) (xTasksWaitingToReceive h) =
      drop (length its) (eventLists (rkern s) (xTasksWaitingToReceive h)) \<and>
    xPendingReadyList (rkern s2) = xPendingReadyList (rkern s) @
      take (length its) (eventLists (rkern s) (xTasksWaitingToReceive h))"
proof -
  let ?s = "call_lock h s"
  have shape: "qlen (queues ?s h) = qlen (queues s h)" "qsize (queues ?s h) = qsize (queues s h)"
    using call_lock_sel(4) [of h s] by (simp_all add: same_shape_def)
  have "\<exists>s1. isr_posts h its ?s = Some (replicate (length its) True, s1) \<and> qitems h s1 (xs @ its) \<and>
    same_shape h ?s s1 \<and> rkern s1 = rkern ?s \<and> cTxLock (queues s1 h) = of_nat (0 + length its) \<and>
    cRxLock (queues s1 h) = cRxLock (queues ?s h)"
    by (rule isr_posts_locked) (use assms shape in \<open>simp_all add: call_lock_sel\<close>)
  then obtain s1 where s1: "isr_posts h its ?s = Some (replicate (length its) True, s1)"
    "qitems h s1 (xs @ its)" "rkern s1 = vTaskSuspendAll (rkern s)"
    "cTxLock (queues s1 h) = of_nat (length its)" "cRxLock (queues s1 h) = 0"
    using lock by (auto simp: call_lock_sel)
  have k1: "kern_ok (rkern s1)" "uxSchedulerSuspended (rkern s1) \<noteq> 0"
    "eventLists (rkern s1) = eventLists (rkern s)" "xPendingReadyList (rkern s1) = xPendingReadyList (rkern s)"
    using ok susp by (simp_all add: s1(3) vTaskSuspendAll_def)
  have "sint (of_nat (length its) :: 8 word) = int (length its)"
    using few by (simp add: sint_uint signed_take_bit_int_eq_self unsigned_of_nat take_bit_nat_eq_self)
  then have n: "nat (sint (cTxLock (queues s1 h))) = length its" "nat (sint (cRxLock (queues s1 h))) = 0"
    by (simp_all add: s1(4,5))
  obtain s2 where s2: "prvUnlockQueue h s1 = Some s2" "kern_ok (rkern s2)"
    "queues s2 h = (queues s1 h)\<lparr>cTxLock := queueUNLOCKED, cRxLock := queueUNLOCKED\<rparr>"
    "rmem s2 = rmem s1"
    "eventLists (rkern s2) (xTasksWaitingToReceive h) =
      drop (length its) (eventLists (rkern s) (xTasksWaitingToReceive h))"
    "xPendingReadyList (rkern s2) = xPendingReadyList (rkern s) @
      take (length its) (eventLists (rkern s) (xTasksWaitingToReceive h))"
    using prvUnlockQueue_spec [OF k1(1,2), of h] unfolding n k1 by auto
  have "qitems h s2 (xs @ its)" using s1(2) by (simp add: qitems_def s2(3,4))
  then show ?thesis using s1(1) k1(3) s2 by auto
qed

lemma locked_posts_wake_witness:
  "\<exists>s1 s2. isr_posts 7 [[1, 2]]
      (call_lock 7 (sample_queue\<lparr>rkern := vTaskPlaceOnEventList 15 5 two_tasks\<rparr>)) = Some ([True], s1) \<and>
    prvUnlockQueue 7 s1 = Some s2 \<and> eventLists (rkern s2) 15 = [] \<and> xPendingReadyList (rkern s2) = [2]"
proof -
  let ?k = "vTaskPlaceOnEventList 15 5 two_tasks" and ?s = "sample_queue\<lparr>rkern := vTaskPlaceOnEventList 15 5 two_tasks\<rparr>"
  have ok: "kern_ok ?k"
    by (rule kern_PlaceOnEventList [OF two_tasks_ok]) (simp_all add: two_tasks_state)
  have e: "eventLists ?k 15 = [2]" "xPendingReadyList ?k = []" "uxSchedulerSuspended ?k = 0"
    using place_events(1) [of 15 5 two_tasks "EventList 15"]
    by (simp_all add: place_events two_tasks_state insort_after_def)
  have q: "qitems 7 ?s []" using sample_queue_items by simp
  have l: "cTxLock (queues ?s 7) = queueUNLOCKED" "cRxLock (queues ?s 7) = queueUNLOCKED"
    "qsize (queues ?s 7) = 2" "qlen (queues ?s 7) = 2" by (simp_all add: sample_queue_def)
  show ?thesis
    using locked_posts_wake [of ?s 7 "[]" "[[1, 2]]"] ok e q l
    by (simp add: xTasksWaitingToReceive_def) blast
qed

section \<open>Blocking in a receive\<close>

fun receive_steps :: "nat \<Rightarrow> bool \<Rightarrow> nat \<Rightarrow> u8 list option pc \<times> call \<times> rtos \<Rightarrow>
    (u8 list option pc \<times> call \<times> rtos) option" where
  "receive_steps h peek 0 x = Some x"
| "receive_steps h peek (Suc n) x = Option.bind (receive_step h peek x) (receive_steps h peek n)"

lemma timeout_just_started:
  "0 < w \<Longrightarrow> xTickCount k' = xTickCount k \<Longrightarrow> xNumOfOverflows k' = xNumOfOverflows k \<Longrightarrow>
    \<exists>to. xTaskCheckForTimeOut (vTaskSetTimeOutState k) w k' = (False, to, w)"
  by (simp add: xTaskCheckForTimeOut_def vTaskSetTimeOutState_def Let_def)

text \<open>Resuming the scheduler when nothing happened while it was suspended, and then yielding.\<close>

lemma ResumeAll_quiet:
  assumes "uxSchedulerSuspended k = 1" and "xPendingReadyList k = []" and "uxPendedTicks k = 0"
  shows "\<exists>y. xTaskResumeAll k = Some (y, if y then portYIELD (k\<lparr>uxSchedulerSuspended := 0\<rparr>)
    else k\<lparr>uxSchedulerSuspended := 0\<rparr>)"
proof -
  let ?k = "k\<lparr>uxSchedulerSuspended := 0\<rparr>"
  have "drain_pending False ?k = Some (False, ?k)"
    by (subst drain_pending.simps) (simp add: assms(2))
  then have "xTaskResumeAll k = (if 0 < uxCurrentNumberOfTasks k \<and> xYieldPending k
      then Some (True, portYIELD ?k) else Some (False, ?k))"
    using assms unfolding xTaskResumeAll_def Let_def assms(1) by simp
  then show ?thesis by (cases "0 < uxCurrentNumberOfTasks k \<and> xYieldPending k") auto
qed

lemma ready_more:
  "uxSchedulerSuspended (taskRESET_READY_PRIORITY p k) = uxSchedulerSuspended k"
  "uxPendedTicks (taskRESET_READY_PRIORITY p k) = uxPendedTicks k"
  "xNumOfOverflows (taskRESET_READY_PRIORITY p k) = xNumOfOverflows k"
  "uxPendedTicks (prvAddTaskToReadyList t k) = uxPendedTicks k"
  by (simp_all add: taskRESET_READY_PRIORITY_def portRESET_READY_PRIORITY_def prvAddTaskToReadyList_def
      portRECORD_READY_PRIORITY_def Let_def)

lemma inherit_sel:
  "pxCurrentTCB (vTaskPriorityInherit t k) = pxCurrentTCB k"
  "event_members (vTaskPriorityInherit t k) e = event_members k e"
  "uxSchedulerSuspended (vTaskPriorityInherit t k) = uxSchedulerSuspended k"
  "uxPendedTicks (vTaskPriorityInherit t k) = uxPendedTicks k"
  "xTickCount (vTaskPriorityInherit t k) = xTickCount k"
  "xNumOfOverflows (vTaskPriorityInherit t k) = xNumOfOverflows k"
  "ucNotifyState (tcbs (vTaskPriorityInherit t k) u) = ucNotifyState (tcbs k u)"
  "uxBasePriority (tcbs (vTaskPriorityInherit t k) u) = uxBasePriority (tcbs k u)"
  "eventContainer (tcbs (vTaskPriorityInherit t k) u) = eventContainer (tcbs k u)"
  "u \<noteq> t \<Longrightarrow> tcbs (vTaskPriorityInherit t k) u = tcbs k u"
  "uxPriority (tcbs (vTaskPriorityInherit t k) t) =
    (if t \<noteq> 0 then max (uxPriority (tcbs k t)) (uxPriority (tcbs k (pxCurrentTCB k)))
     else uxPriority (tcbs k t))"
  by (auto simp: vTaskPriorityInherit_def Let_def case_prod_beta set_event_value_def block_parts_sel
      ready_more simp del: event_members.simps)

text \<open>The kernel when a receive gives up the processor.\<close>

definition blocked_in :: "nat \<Rightarrow> u32 \<Rightarrow> rtos \<Rightarrow> kern" where
  "blocked_in h w s =
    (let k = vTaskSuspendAll (rkern s);
         k = (if uxQueueType (queues s h) = queueQUEUE_IS_MUTEX
              then vTaskPriorityInherit (pxMutexHolder (queues s h)) k else k)
     in portYIELD ((vTaskPlaceOnEventList (xTasksWaitingToReceive h) w k)\<lparr>uxSchedulerSuspended := 0\<rparr>))"

lemma receive_blocks:
  assumes empty: "uxMessagesWaiting (queues s h) = 0" and w: "0 < w"
    and lock: "cTxLock (queues s h) = queueUNLOCKED" "cRxLock (queues s h) = queueUNLOCKED"
    and quiet: "uxSchedulerSuspended (rkern s) = 0" "xPendingReadyList (rkern s) = []" "uxPendedTicks (rkern s) = 0"
  shows "\<exists>c. receive_steps h peek 4 (Enter, begin_call w, s) =
    Some (Enter, c, s\<lparr>rkern := blocked_in h w s\<rparr>)"
proof -
  let ?c = "stamp (begin_call w) (rkern s)" and ?s = "call_lock h s"
  have one: "receive_step h peek (Enter, begin_call w, s) = Some (Lock, ?c, s)"
    using empty w by (simp add: receive_enter_def begin_call_def)
  have two: "receive_step h peek (Lock, ?c, s) = Some (Check, ?c, ?s)" by simp
  define k where "k = (if uxQueueType (queues s h) = queueQUEUE_IS_MUTEX
      then vTaskPriorityInherit (pxMutexHolder (queues s h)) (vTaskSuspendAll (rkern s))
      else vTaskSuspendAll (rkern s))"
  define K where "K = vTaskPlaceOnEventList (xTasksWaitingToReceive h) w k"
  have q1: "queues ?s h = (queues s h)\<lparr>cRxLock := 0, cTxLock := 0\<rparr>"
    using lock by (simp add: call_lock_def prvLockQueue_def queueLOCKED_UNMODIFIED_def)
  obtain to where to: "xTaskCheckForTimeOut (xTimeOut ?c) (xTicksToWait ?c) (rkern ?s) = (False, to, w)"
    using timeout_just_started [OF w, of "rkern ?s" "rkern s"]
    by (auto simp: call_lock_sel vTaskSuspendAll_def stamp_def begin_call_def)
  let ?c2 = "?c\<lparr>xTimeOut := to, xTicksToWait := w\<rparr>"
  define s2 where "s2 = ?s\<lparr>rkern := K\<rparr>"
  have three: "receive_step h peek (Check, ?c, ?s) = Some (Leave Placed, ?c2, s2)"
    using to empty q1
    by (simp add: receive_check_def prvIsQueueEmpty_def s2_def K_def k_def upd_kern_def
        pxMutexHolder_def call_lock_sel)
  have wk: "wake_waiters e 0 K = Some K" for e by simp
  have unlocked: "prvUnlockQueue h s2 = Some (s\<lparr>rkern := K\<rparr>)"
    using lock by (simp add: prvUnlockQueue_def on_kern_def s2_def q1 Let_def)
      (simp add: call_lock_def prvLockQueue_def upd_queue_def upd_kern_def fun_eq_iff)
  have quiet': "uxSchedulerSuspended K = 1" "xPendingReadyList K = []" "uxPendedTicks K = 0"
  proof -
    have "event_members (vTaskPriorityInherit t k') PendingReady = event_members k' PendingReady" for t k'
      by (rule inherit_sel)
    then show "uxSchedulerSuspended K = 1" "xPendingReadyList K = []" "uxPendedTicks K = 0"
      using quiet by (simp_all add: K_def k_def place_events inherit_sel vTaskSuspendAll_def)
  qed
  obtain y where y: "xTaskResumeAll K = Some (y, if y then portYIELD (K\<lparr>uxSchedulerSuspended := 0\<rparr>)
      else K\<lparr>uxSchedulerSuspended := 0\<rparr>)"
    using ResumeAll_quiet [OF quiet'] by blast
  have "call_leave h Placed s2 = Some (s\<lparr>rkern := blocked_in h w s\<rparr>)"
    using y by (simp add: call_leave_def unlocked blocked_in_def K_def k_def Let_def)
  then have four: "receive_step h peek (Leave Placed, ?c2, s2) =
      Some (Enter, ?c2, s\<lparr>rkern := blocked_in h w s\<rparr>)" by simp
  show ?thesis
    using one two three four by (auto simp: eval_nat_numeral simp del: receive_step.simps)
qed

lemma inherit_current: "tcbs (vTaskPriorityInherit t k) (pxCurrentTCB k) = tcbs k (pxCurrentTCB k)"
  by (cases "t = pxCurrentTCB k") (simp_all add: inherit_sel, simp add: vTaskPriorityInherit_def Let_def)

lemma eventValue_event_insert: "eventValue (tcbs (event_insert e t k) u) = eventValue (tcbs k u)"
  by simp

text \<open>The task that blocks is in the queue's list, in its place by priority, and not ready.\<close>

lemma blocked_in_spec:
  fixes s :: rtos
  assumes ok: "kern_ok (rkern s)" and run: "running (rkern s)" and w: "0 < w"
    and notify: "ucNotifyState (tcbs (rkern s) (pxCurrentTCB (rkern s))) \<noteq> taskWAITING_NOTIFICATION"
    and holder: "uxQueueType (queues s h) = queueQUEUE_IS_MUTEX \<Longrightarrow>
      exists_task (pxMutexHolder (queues s h)) (rkern s)"
  defines "t \<equiv> pxCurrentTCB (rkern s)" and "k' \<equiv> blocked_in h w s"
  shows "kern_ok k'" "pendSV k'" "pxCurrentTCB k' = t" "uxSchedulerSuspended k' = 0"
    "stateContainer (tcbs k' t) \<noteq> Some (Ready p)"
    "eventLists (rkern s) (xTasksWaitingToReceive h) = [] \<Longrightarrow>
      eventLists k' (xTasksWaitingToReceive h) = [t]"
    "eventContainer (tcbs k' t) = Some (EventList (xTasksWaitingToReceive h))"
    "uxPriority (tcbs k' t) = uxPriority (tcbs (rkern s) t)"
    "u \<noteq> t \<Longrightarrow> u \<noteq> pxMutexHolder (queues s h) \<Longrightarrow> tcbs k' u = tcbs (rkern s) u"
    "uxQueueType (queues s h) = queueQUEUE_IS_MUTEX \<Longrightarrow> pxMutexHolder (queues s h) \<noteq> 0 \<Longrightarrow>
      pxMutexHolder (queues s h) \<noteq> t \<Longrightarrow>
      uxPriority (tcbs k' (pxMutexHolder (queues s h))) =
        max (uxPriority (tcbs (rkern s) (pxMutexHolder (queues s h)))) (uxPriority (tcbs (rkern s) t)) \<and>
      uxBasePriority (tcbs k' (pxMutexHolder (queues s h))) =
        uxBasePriority (tcbs (rkern s) (pxMutexHolder (queues s h)))"
proof -
  let ?r = "xTasksWaitingToReceive h" and ?o = "pxMutexHolder (queues s h)"
  let ?S = "vTaskSuspendAll (rkern s)"
  define k where "k = (if uxQueueType (queues s h) = queueQUEUE_IS_MUTEX
      then vTaskPriorityInherit ?o ?S else ?S)"
  define E where "E = event_insert ?r t k"
  define K where "K = vTaskPlaceOnEventList ?r w k"
  have k': "k' = portYIELD (K\<lparr>uxSchedulerSuspended := 0\<rparr>)"
    by (simp add: k'_def blocked_in_def Let_def K_def k_def)
  have S: "kern_ok ?S" "tcbs ?S = tcbs (rkern s)" "pxCurrentTCB ?S = t"
    "event_members ?S e = event_members (rkern s) e" for e
    using ok by (simp_all add: vTaskSuspendAll_def t_def)
  have ex: "exists_task t ?S" using run S(2,3) by (auto simp: running_def exists_task_def t_def)
  have k: "kern_ok k" "tcbs k t = tcbs (rkern s) t" "pxCurrentTCB k = t"
    "event_members k e = event_members (rkern s) e" "u \<noteq> ?o \<Longrightarrow> tcbs k u = tcbs (rkern s) u" for e u
  proof -
    have "exists_task ?o ?S" if "uxQueueType (queues s h) = queueQUEUE_IS_MUTEX"
      using holder [OF that] S(2) by (simp add: exists_task_def)
    then show "kern_ok k" using kern_PriorityInherit [OF S(1)] ex S(1,3) by (auto simp: k_def)
    show "tcbs k t = tcbs (rkern s) t" using inherit_current [of ?o ?S] S(2,3) by (simp add: k_def)
    show "pxCurrentTCB k = t" "event_members k e = event_members (rkern s) e"
      "u \<noteq> ?o \<Longrightarrow> tcbs k u = tcbs (rkern s) u"
      using S(2-4) by (simp_all add: k_def inherit_sel del: event_members.simps)
  qed
  have runk: "running k" using run k(2,3) by (simp add: running_def t_def)
  have K: "kern_ok K"
    unfolding K_def by (rule kern_PlaceOnEventList [OF k(1) runk w]) (use notify k(2,3) in \<open>simp add: t_def\<close>)
  have E: "kern_ok E" "pxCurrentTCB E = t"
    unfolding E_def using kern_event_insert [OF k(1), of t ?r] runk notify k(2,3)
    by (auto simp: running_def t_def)
  obtain q where q: "stateContainer (tcbs E (pxCurrentTCB E)) = Some (Ready q)"
    using runk k(3) by (auto simp: running_def E_def)
  have KE: "K = prvAddCurrentTaskToDelayedList w True E" by (simp add: K_def vTaskPlaceOnEventList_def E_def k(3))
  note B = kern_block [OF E(1) q w, where b = True, folded KE, unfolded E(2)]
  have Et: "tcbs E t = (tcbs (rkern s) t)\<lparr>eventContainer := Some (EventList ?r)\<rparr>" by (simp add: E_def k(2))
  show "kern_ok k'" using K by (simp add: k')
  show "pendSV k'" "pxCurrentTCB k' = t" "uxSchedulerSuspended k' = 0"
    using B(2) by (simp_all add: k' portYIELD_def)
  have tk: "tcbs k' u = tcbs K u" for u by (simp add: k' portYIELD_def)
  show "stateContainer (tcbs k' t) \<noteq> Some (Ready p)"
    using B(4) by (auto simp: tk split: if_splits)
  show "eventContainer (tcbs k' t) = Some (EventList ?r)" "uxPriority (tcbs k' t) = uxPriority (tcbs (rkern s) t)"
    using B(4) by (auto simp: tk Et split: if_splits)
  have "event_members k' (EventList ?r) = event_members K (EventList ?r)" by (simp add: k' portYIELD_def)
  then have ev: "eventLists k' ?r = insort_after (\<lambda>u. eventValue (tcbs k u)) t (eventLists (rkern s) ?r)"
    using k(4) [of "EventList ?r"] by (simp add: K_def place_events(1) k(3) del: event_members.simps) simp
  show "eventLists (rkern s) ?r = [] \<Longrightarrow> eventLists k' ?r = [t]" using ev by (simp add: insort_after_def)
  show "u \<noteq> t \<Longrightarrow> u \<noteq> ?o \<Longrightarrow> tcbs k' u = tcbs (rkern s) u"
    using B(3) [of u] k(5) [of u] by (simp add: tk E_def)
  show "uxQueueType (queues s h) = queueQUEUE_IS_MUTEX \<Longrightarrow> ?o \<noteq> 0 \<Longrightarrow> ?o \<noteq> t \<Longrightarrow>
      uxPriority (tcbs k' ?o) = max (uxPriority (tcbs (rkern s) ?o)) (uxPriority (tcbs (rkern s) t)) \<and>
      uxBasePriority (tcbs k' ?o) = uxBasePriority (tcbs (rkern s) ?o)"
    using B(3) [of ?o] S(2,3) by (simp add: tk E_def k_def inherit_sel)
qed

lemma receive_enter_item:
  assumes "qitems h s (x # xs)"
  shows "\<exists>s'. receive_enter h False c s = Some (Done (Some x), c, s') \<and> qitems h s' xs \<and> same_shape h s s'"
  using receive_now_spec [OF assms] qitems_full(2) [OF assms]
  by (cases "take_item h s") (auto simp: receive_now_def xQueueGenericReceive_def receive_enter_def)

lemma wake_from_isr_spec:
  assumes ok: "kern_ok k" and e: "eventLists k e = t # ts" and susp: "uxSchedulerSuspended k = 0"
  shows "\<exists>w k'. wake_from_isr e (Some False) k = Some (Some w, k') \<and> kern_ok k' \<and>
    (w \<longleftrightarrow> uxPriority (tcbs k (pxCurrentTCB k)) < uxPriority (tcbs k t)) \<and>
    stateContainer (tcbs k' t) = Some (Ready (uxPriority (tcbs k t)))"
proof -
  obtain r k' where r: "xTaskRemoveFromEventList e k = Some (r, k')" "kern_ok k'"
    "r \<longleftrightarrow> uxPriority (tcbs k (pxCurrentTCB k)) < uxPriority (tcbs k t)"
    "stateContainer (tcbs k' t) = Some (Ready (uxPriority (tcbs k t)))"
    using RemoveFromEventList_spec [OF ok e] susp by auto
  then show ?thesis using e by (cases r) (auto simp: wake_from_isr_def)
qed

text \<open>C17: A receive that finds the queue empty and may wait gives the processor up in four steps:
  the task leaves the ready lists, waits in the queue's list, and a switch is pending. From any
  later state in which it still waits, the post of an interrupt readies it at its priority, asks for
  a switch exactly if that priority is higher than the running task's, and when the task continues
  its call returns that item.\<close>

theorem receive_blocks_until_post:
  assumes ok: "kern_ok (rkern s)" and run: "running (rkern s)" and q: "qitems h s []" and w: "0 < w"
    and lock: "cTxLock (queues s h) = queueUNLOCKED" "cRxLock (queues s h) = queueUNLOCKED"
    and quiet: "uxSchedulerSuspended (rkern s) = 0" "xPendingReadyList (rkern s) = []" "uxPendedTicks (rkern s) = 0"
    and notify: "ucNotifyState (tcbs (rkern s) (pxCurrentTCB (rkern s))) \<noteq> taskWAITING_NOTIFICATION"
    and alone: "eventLists (rkern s) (xTasksWaitingToReceive h) = []"
    and t: "t = pxCurrentTCB (rkern s)"
  shows "\<exists>c s1. receive_steps h False 4 (Enter, begin_call w, s) = Some (Enter, c, s1) \<and>
    kern_ok (rkern s1) \<and> pendSV (rkern s1) \<and> eventLists (rkern s1) (xTasksWaitingToReceive h) = [t] \<and>
    (\<forall>p. stateContainer (tcbs (rkern s1) t) \<noteq> Some (Ready p)) \<and> qitems h s1 [] \<and>
    (\<forall>s2 x. kern_ok (rkern s2) \<and> uxSchedulerSuspended (rkern s2) = 0 \<and>
        eventLists (rkern s2) (xTasksWaitingToReceive h) = [t] \<and> qitems h s2 [] \<and>
        cTxLock (queues s2 h) = queueUNLOCKED \<and> length x = qsize (queues s2 h) \<longrightarrow>
      (\<exists>woken s3 s4. xQueueGenericSendFromISR h x (Some False) queueSEND_TO_BACK s2 = Some (True, Some woken, s3) \<and>
        kern_ok (rkern s3) \<and>
        stateContainer (tcbs (rkern s3) t) = Some (Ready (uxPriority (tcbs (rkern s2) t))) \<and>
        (woken \<longleftrightarrow> uxPriority (tcbs (rkern s2) (pxCurrentTCB (rkern s2))) < uxPriority (tcbs (rkern s2) t)) \<and>
        receive_step h False (Enter, c, s3) = Some (Done (Some x), c, s4) \<and> qitems h s4 []))"
proof -
  have data: "uxQueueType (queues s h) \<noteq> queueQUEUE_IS_MUTEX"
    using qitems_full(6) [OF q] by (simp add: queueQUEUE_IS_MUTEX_def)
  have empty: "uxMessagesWaiting (queues s h) = 0" using qitems_full(4) [OF q] by simp
  obtain c where c: "receive_steps h False 4 (Enter, begin_call w, s) =
      Some (Enter, c, s\<lparr>rkern := blocked_in h w s\<rparr>)"
    using receive_blocks [OF empty w lock quiet] by blast
  note B = blocked_in_spec [OF ok run w notify, of h] 
  let ?s1 = "s\<lparr>rkern := blocked_in h w s\<rparr>"
  have later: "\<exists>woken s3 s4. xQueueGenericSendFromISR h x (Some False) queueSEND_TO_BACK s2 = Some (True, Some woken, s3) \<and>
      kern_ok (rkern s3) \<and>
      stateContainer (tcbs (rkern s3) t) = Some (Ready (uxPriority (tcbs (rkern s2) t))) \<and>
      (woken \<longleftrightarrow> uxPriority (tcbs (rkern s2) (pxCurrentTCB (rkern s2))) < uxPriority (tcbs (rkern s2) t)) \<and>
      receive_step h False (Enter, c, s3) = Some (Done (Some x), c, s4) \<and> qitems h s4 []"
    if s2: "kern_ok (rkern s2)" "uxSchedulerSuspended (rkern s2) = 0"
      "eventLists (rkern s2) (xTasksWaitingToReceive h) = [t]" "qitems h s2 []"
      "cTxLock (queues s2 h) = queueUNLOCKED" "length x = qsize (queues s2 h)" for s2 x
  proof -
    have sb: "sendable h queueSEND_TO_BACK x s2" using s2(6) by (simp add: sendable_def)
    have sent: "list_send (qlen (queues s2 h)) queueSEND_TO_BACK x [] = (True, [x])"
      using qitems_full(7) [OF s2(4)] by simp
    obtain w' s3 where s3: "xQueueGenericSendFromISR h x (Some False) queueSEND_TO_BACK s2 = Some (True, w', s3)"
      "qitems h s3 [x]" "wake_from_isr (xTasksWaitingToReceive h) (Some False) (rkern s2) = Some (w', rkern s3)"
      using send_isr_spec [OF s2(4) sb, of "Some False"] sent s2(5) by auto
    obtain s4 where "receive_enter h False c s3 = Some (Done (Some x), c, s4)" "qitems h s4 []"
      using receive_enter_item [OF s3(2)] by blast
    then show ?thesis using s3 wake_from_isr_spec [OF s2(1,3,2)] by auto
  qed
  have "qitems h ?s1 []" using q by simp
  moreover have "eventLists (rkern ?s1) (xTasksWaitingToReceive h) = [t]"
    using B(6) data alone t by simp
  moreover have "\<forall>p. stateContainer (tcbs (rkern ?s1) t) \<noteq> Some (Ready p)" using B(5) data t by simp
  moreover have "kern_ok (rkern ?s1)" "pendSV (rkern ?s1)" using B(1,2) data by simp_all
  ultimately show ?thesis using c later by blast
qed

lemma receive_blocks_until_post_witness:
  "\<exists>c s1. receive_steps 7 False 4 (Enter, begin_call 5, sample_queue) = Some (Enter, c, s1) \<and>
    eventLists (rkern s1) (xTasksWaitingToReceive 7) = [2] \<and> pendSV (rkern s1)"
proof -
  have l: "cTxLock (queues sample_queue 7) = queueUNLOCKED" "cRxLock (queues sample_queue 7) = queueUNLOCKED"
    by (simp_all add: sample_queue_def)
  have P: "kern_ok (rkern sample_queue)" "running (rkern sample_queue)"
    "ucNotifyState (tcbs (rkern sample_queue) (pxCurrentTCB (rkern sample_queue))) \<noteq> taskWAITING_NOTIFICATION"
    "uxSchedulerSuspended (rkern sample_queue) = 0" "xPendingReadyList (rkern sample_queue) = []"
    "uxPendedTicks (rkern sample_queue) = 0"
    "eventLists (rkern sample_queue) (xTasksWaitingToReceive 7) = []" "2 = pxCurrentTCB (rkern sample_queue)"
    using two_tasks_ok by (simp_all add: sample_kern two_tasks_state)
  have w: "(0 :: u32) < 5" by simp
  show ?thesis
    using receive_blocks_until_post [OF P(1,2) sample_queue_items w l P(4-6,3,7,8)] by blast
qed

section \<open>Mutexes\<close>

definition mutex_queue :: "Queue_t \<Rightarrow> bool" where
  "mutex_queue q \<longleftrightarrow> uxQueueType q = queueQUEUE_IS_MUTEX \<and> uxItemSize q = 0 \<and> uxLength q = 1"

lemma disinherit_spec:
  assumes ok: "kern_ok k" and t: "exists_task t k" "t \<noteq> 0" and held: "uxMutexesHeld (tcbs k t) = 1"
  shows "\<exists>r k'. xTaskPriorityDisinherit t k = (r, k') \<and> kern_ok k' \<and>
    uxPriority (tcbs k' t) = uxBasePriority (tcbs k t) \<and> uxMutexesHeld (tcbs k' t) = 0 \<and>
    eventLists k' = eventLists k \<and> pxCurrentTCB k' = pxCurrentTCB k \<and>
    uxSchedulerSuspended k' = uxSchedulerSuspended k \<and> (\<forall>u. u \<noteq> t \<longrightarrow> tcbs k' u = tcbs k u)"
proof -
  obtain r k' where r: "xTaskPriorityDisinherit t k = (r, k')" by fastforce
  have "event_members k' e = event_members k e" for e
    using r t(2) held
    by (auto simp: xTaskPriorityDisinherit_def Let_def case_prod_beta simp del: event_members.simps split: if_splits)
  then have "eventLists k' = eventLists k" using eventLists_members by (metis ext)
  moreover have "kern_ok k'" using kern_PriorityDisinherit [OF ok t(1)] r by simp
  ultimately show ?thesis
    using r t(2) held
    by (auto simp: xTaskPriorityDisinherit_def Let_def case_prod_beta block_parts_sel ready_more split: if_splits)
qed

lemma wake_waiter_spec:
  assumes ok: "kern_ok k" and e: "eventLists k e = t # ts" and susp: "uxSchedulerSuspended k = 0"
  shows "\<exists>k'. wake_waiter portYIELD e k = Some k' \<and> kern_ok k' \<and> pxCurrentTCB k' = pxCurrentTCB k \<and>
    (\<forall>u. u \<noteq> t \<longrightarrow> tcbs k' u = tcbs k u) \<and>
    stateContainer (tcbs k' t) = Some (Ready (uxPriority (tcbs k t))) \<and>
    (uxPriority (tcbs k (pxCurrentTCB k)) < uxPriority (tcbs k t) \<longrightarrow> pendSV k')"
proof -
  obtain r k' where r: "xTaskRemoveFromEventList e k = Some (r, k')" "kern_ok k'"
    "r \<longleftrightarrow> uxPriority (tcbs k (pxCurrentTCB k)) < uxPriority (tcbs k t)"
    "stateContainer (tcbs k' t) = Some (Ready (uxPriority (tcbs k t)))"
    "\<forall>u. u \<noteq> t \<longrightarrow> tcbs k' u = tcbs k u" "pxCurrentTCB k' = pxCurrentTCB k"
    using RemoveFromEventList_spec [OF ok e] susp by auto
  then show ?thesis using e by (cases r) (auto simp: wake_waiter_def portYIELD_def)
qed

lemma give_enter:
  assumes m: "mutex_queue (queues s h)" "uxMessagesWaiting (queues s h) = 0"
    and d: "xTaskPriorityDisinherit (pxMutexHolder (queues s h)) (rkern s) = (r, k1)"
  shows "xSemaphoreGive h s = map_option (\<lambda>k. (True, (upd_queue h (\<lambda>q. (set_holder 0 q)\<lparr>uxMessagesWaiting := 1\<rparr>) s)\<lparr>rkern := k\<rparr>))
    (if eventLists k1 (xTasksWaitingToReceive h) \<noteq> [] then wake_waiter portYIELD (xTasksWaitingToReceive h) k1
     else Some (if r then portYIELD k1 else k1))"
proof -
  define s1 where "s1 = (upd_queue h (\<lambda>q. (set_holder 0 q)\<lparr>uxMessagesWaiting := 1\<rparr>) s)\<lparr>rkern := k1\<rparr>"
  have c: "prvCopyDataToQueue h [] queueSEND_TO_BACK s = (r, s1)"
    using m d by (simp add: prvCopyDataToQueue_def Let_def mutex_queue_def s1_def upd_queue_def)
  have "send_enter h [] queueSEND_TO_BACK (begin_call 0) s =
    map_option (\<lambda>s. (Done True, begin_call 0, s))
      (if eventLists k1 (xTasksWaitingToReceive h) \<noteq> []
       then on_kern (wake_waiter portYIELD (xTasksWaitingToReceive h)) s1
       else if r then Some (upd_kern portYIELD s1) else Some s1)"
    using m c by (simp add: send_enter_def mutex_queue_def s1_def)
  then show ?thesis
    by (cases "wake_waiter portYIELD (xTasksWaitingToReceive h) k1")
      (simp_all add: xSemaphoreGive_def send_now_def xQueueGenericSend_def on_kern_def upd_kern_def s1_def)
qed

text \<open>C18: Priority inheritance: a task that blocks on a mutex held by a task of lower priority
  lends the holder its own priority at once, the holder's base priority unchanged. When the holder,
  holding no other mutex, gives the mutex back, it returns to its base priority, the mutex is free
  without a holder, the waiting task is ready, and a switch to it is pending if it has the higher
  priority.\<close>

theorem mutex_lends_priority:
  assumes ok: "kern_ok (rkern s)" and run: "running (rkern s)" and w: "0 < w"
    and mutex: "mutex_queue (queues s h)" "uxMessagesWaiting (queues s h) = 0"
    and lock: "cTxLock (queues s h) = queueUNLOCKED" "cRxLock (queues s h) = queueUNLOCKED"
    and quiet: "uxSchedulerSuspended (rkern s) = 0" "xPendingReadyList (rkern s) = []" "uxPendedTicks (rkern s) = 0"
    and notify: "ucNotifyState (tcbs (rkern s) (pxCurrentTCB (rkern s))) \<noteq> taskWAITING_NOTIFICATION"
    and alone: "eventLists (rkern s) (xTasksWaitingToReceive h) = []"
    and t: "t = pxCurrentTCB (rkern s)"
    and o: "l = pxMutexHolder (queues s h)" "l \<noteq> 0" "l \<noteq> t" "exists_task l (rkern s)"
      "uxPriority (tcbs (rkern s) l) < uxPriority (tcbs (rkern s) t)"
  shows "\<exists>c s1. receive_steps h False 4 (Enter, begin_call w, s) = Some (Enter, c, s1) \<and>
    kern_ok (rkern s1) \<and> uxPriority (tcbs (rkern s1) l) = uxPriority (tcbs (rkern s) t) \<and>
    uxBasePriority (tcbs (rkern s1) l) = uxBasePriority (tcbs (rkern s) l) \<and>
    eventLists (rkern s1) (xTasksWaitingToReceive h) = [t] \<and> queues s1 = queues s \<and>
    (\<forall>s2. kern_ok (rkern s2) \<and> uxSchedulerSuspended (rkern s2) = 0 \<and> queues s2 h = queues s h \<and>
        pxCurrentTCB (rkern s2) = l \<and> exists_task l (rkern s2) \<and> uxMutexesHeld (tcbs (rkern s2) l) = 1 \<and>
        eventLists (rkern s2) (xTasksWaitingToReceive h) = [t] \<longrightarrow>
      (\<exists>s3. xSemaphoreGive h s2 = Some (True, s3) \<and> kern_ok (rkern s3) \<and>
        uxPriority (tcbs (rkern s3) l) = uxBasePriority (tcbs (rkern s2) l) \<and>
        uxMessagesWaiting (queues s3 h) = 1 \<and> pxMutexHolder (queues s3 h) = 0 \<and>
        stateContainer (tcbs (rkern s3) t) = Some (Ready (uxPriority (tcbs (rkern s2) t))) \<and>
        (uxBasePriority (tcbs (rkern s2) l) < uxPriority (tcbs (rkern s2) t) \<longrightarrow> pendSV (rkern s3))))"
proof -
  have m: "uxQueueType (queues s h) = queueQUEUE_IS_MUTEX" using mutex(1) by (simp add: mutex_queue_def)
  obtain c where c: "receive_steps h False 4 (Enter, begin_call w, s) =
      Some (Enter, c, s\<lparr>rkern := blocked_in h w s\<rparr>)"
    using receive_blocks [OF mutex(2) w lock quiet] by blast
  have ex: "exists_task (pxMutexHolder (queues s h)) (rkern s)" using o(1,4) by simp
  note B = blocked_in_spec [OF ok run w notify, of h, OF ex]
  have later: "\<exists>s3. xSemaphoreGive h s2 = Some (True, s3) \<and> kern_ok (rkern s3) \<and>
        uxPriority (tcbs (rkern s3) l) = uxBasePriority (tcbs (rkern s2) l) \<and>
        uxMessagesWaiting (queues s3 h) = 1 \<and> pxMutexHolder (queues s3 h) = 0 \<and>
        stateContainer (tcbs (rkern s3) t) = Some (Ready (uxPriority (tcbs (rkern s2) t))) \<and>
        (uxBasePriority (tcbs (rkern s2) l) < uxPriority (tcbs (rkern s2) t) \<longrightarrow> pendSV (rkern s3))"
    if s2: "kern_ok (rkern s2)" "uxSchedulerSuspended (rkern s2) = 0" "queues s2 h = queues s h"
      "pxCurrentTCB (rkern s2) = l" "exists_task l (rkern s2)" "uxMutexesHeld (tcbs (rkern s2) l) = 1"
      "eventLists (rkern s2) (xTasksWaitingToReceive h) = [t]" for s2
  proof -
    obtain r k1 where k1: "xTaskPriorityDisinherit l (rkern s2) = (r, k1)" "kern_ok k1"
      "uxPriority (tcbs k1 l) = uxBasePriority (tcbs (rkern s2) l)"
      "eventLists k1 = eventLists (rkern s2)" "pxCurrentTCB k1 = l" "uxSchedulerSuspended k1 = 0"
      "\<forall>u. u \<noteq> l \<longrightarrow> tcbs k1 u = tcbs (rkern s2) u"
      using disinherit_spec [OF s2(1,5) o(2) s2(6)] s2(2,4) by auto
    obtain k2 where k2: "wake_waiter portYIELD (xTasksWaitingToReceive h) k1 = Some k2" "kern_ok k2"
      "tcbs k2 l = tcbs k1 l" "stateContainer (tcbs k2 t) = Some (Ready (uxPriority (tcbs k1 t)))"
      "uxPriority (tcbs k1 l) < uxPriority (tcbs k1 t) \<longrightarrow> pendSV k2"
      using wake_waiter_spec [OF k1(2), of "xTasksWaitingToReceive h" t "[]"] k1(4,5,6) s2(7) o(3) by auto
    have "xSemaphoreGive h s2 =
        Some (True, (upd_queue h (\<lambda>q. (set_holder 0 q)\<lparr>uxMessagesWaiting := 1\<rparr>) s2)\<lparr>rkern := k2\<rparr>)"
      using give_enter [of s2 h r k1] mutex s2(3,7) k1(1,4) k2(1) o(1) by simp
    moreover have "tcbs k1 t = tcbs (rkern s2) t" using k1(7) o(3) by simp
    ultimately show ?thesis using k1(3) k2 by (simp add: pxMutexHolder_def)
  qed
  have "uxPriority (tcbs (blocked_in h w s) l) = uxPriority (tcbs (rkern s) t)"
    "uxBasePriority (tcbs (blocked_in h w s) l) = uxBasePriority (tcbs (rkern s) l)"
    using B(10) m o t by auto
  moreover have "eventLists (blocked_in h w s) (xTasksWaitingToReceive h) = [t]" using B(6) alone t by simp
  ultimately show ?thesis using c later B(1) by auto
qed

lemma mutex_lends_priority_witness:
  "\<exists>c s1. receive_steps 7 False 4 (Enter, begin_call 5, sample_mutex 1 0) = Some (Enter, c, s1) \<and>
    uxPriority (tcbs (rkern s1) 1) = 5"
proof -
  have "mutex_queue (queues (sample_mutex 1 0) 7)" "uxMessagesWaiting (queues (sample_mutex 1 0) 7) = 0"
    "cTxLock (queues (sample_mutex 1 0) 7) = queueUNLOCKED" "cRxLock (queues (sample_mutex 1 0) 7) = queueUNLOCKED"
    "pxMutexHolder (queues (sample_mutex 1 0) 7) = 1"
    by (simp_all add: sample_mutex_def mutex_queue_def pxMutexHolder_def)
  note M = this
  let ?k = "rkern (sample_mutex 1 0)"
  have P: "kern_ok ?k" "running ?k" "ucNotifyState (tcbs ?k (pxCurrentTCB ?k)) \<noteq> taskWAITING_NOTIFICATION"
    "uxSchedulerSuspended ?k = 0" "xPendingReadyList ?k = []" "uxPendedTicks ?k = 0"
    "eventLists ?k (xTasksWaitingToReceive 7) = []" "2 = pxCurrentTCB ?k" "exists_task 1 ?k"
    "uxPriority (tcbs ?k 1) < uxPriority (tcbs ?k 2)" "uxPriority (tcbs ?k 2) = 5"
    using two_tasks_ok by (simp_all add: sample_kern two_tasks_state del: One_nat_def)
  have w: "(0 :: u32) < 5" "(1 :: nat) \<noteq> 0" "(1 :: nat) \<noteq> 2" by simp_all
  show ?thesis
    using mutex_lends_priority [OF P(1,2) w(1) M(1-4) P(4-6,3,7,8) M(5) [symmetric] w(2,3) P(9,10)]
    unfolding P(11) by blast
qed

text \<open>Taking and giving a recursive mutex several times, without other tasks in between.\<close>

fun takes :: "nat \<Rightarrow> nat \<Rightarrow> rtos \<Rightarrow> rtos option" where
  "takes 0 h s = Some s"
| "takes (Suc n) h s =
    Option.bind (xQueueTakeMutexRecursive h 0 [\<lambda>s. s] s) (\<lambda>(ok, s). if ok then takes n h s else None)"

fun gives :: "nat \<Rightarrow> nat \<Rightarrow> rtos \<Rightarrow> rtos option" where
  "gives 0 h s = Some s"
| "gives (Suc n) h s =
    Option.bind (xQueueGiveMutexRecursive h s) (\<lambda>(ok, s). if ok then gives n h s else None)"

text \<open>The mutex is held \<open>n\<close> times by the running task.\<close>

definition held :: "nat \<Rightarrow> nat \<Rightarrow> rtos \<Rightarrow> bool" where
  "held n h s \<longleftrightarrow> mutex_queue (queues s h) \<and> uxMessagesWaiting (queues s h) = 0 \<and>
     pxMutexHolder (queues s h) = pxCurrentTCB (rkern s) \<and> pxCurrentTCB (rkern s) \<noteq> 0 \<and>
     uxRecursiveCallCount (queues s h) = of_nat n"

definition free_mutex :: "nat \<Rightarrow> rtos \<Rightarrow> bool" where
  "free_mutex h s \<longleftrightarrow> mutex_queue (queues s h) \<and> uxMessagesWaiting (queues s h) = 1 \<and>
     pxMutexHolder (queues s h) = 0 \<and> uxRecursiveCallCount (queues s h) = 0"

lemma takes_held:
  "held m h s \<Longrightarrow> \<exists>s'. takes n h s = Some s' \<and> held (m + n) h s' \<and> rkern s' = rkern s"
proof (induction n arbitrary: m s)
  case (Suc n)
  let ?s = "upd_queue h (uxRecursiveCallCount_update (\<lambda>n. n + 1)) s"
  have "held (Suc m) h ?s" using Suc.prems by (simp add: held_def mutex_queue_def pxMutexHolder_def add.commute)
  from Suc.IH [OF this] show ?case
    using Suc.prems by (auto simp: xQueueTakeMutexRecursive_def held_def)
qed simp

lemma gives_held:
  "held (m + n) h s \<Longrightarrow> 0 < m \<Longrightarrow> m + n < 4294967296 \<Longrightarrow>
    \<exists>s'. gives n h s = Some s' \<and> held m h s' \<and> rkern s' = rkern s"
proof (induction n arbitrary: s)
  case (Suc n)
  let ?s = "upd_queue h (uxRecursiveCallCount_update (\<lambda>n. n - 1)) s"
  have h1: "held (m + n) h ?s" using Suc.prems(1) by (simp add: held_def mutex_queue_def pxMutexHolder_def)
  have "(of_nat (m + n) :: u32) \<noteq> 0"
  proof
    assume "(of_nat (m + n) :: u32) = 0"
    then have "unat (of_nat (m + n) :: u32) = 0" by simp
    then show False using Suc.prems by (simp add: unat_of_nat_u32 del: of_nat_add)
  qed
  then have "xQueueGiveMutexRecursive h s = Some (True, ?s)"
    using Suc.prems(1) h1 by (simp add: xQueueGiveMutexRecursive_def held_def Let_def)
  then show ?case using Suc.IH [OF h1] Suc.prems by simp
qed simp

lemma gives_snoc: "gives (Suc m) h s = Option.bind (gives m h s) (gives 1 h)"
proof (induction m arbitrary: s)
  case (Suc m)
  have step: "gives (Suc n) h s = (case xQueueGiveMutexRecursive h s of None \<Rightarrow> None
      | Some (ok, s') \<Rightarrow> if ok then gives n h s' else None)" for n
    by (simp split: option.split)
  show ?case
    unfolding step [of "Suc m"] step [of m] using Suc.IH
    by (simp del: gives.simps split: option.split)
qed simp

text \<open>A recursive mutex belongs to its taker until it has been given back exactly as often as
  it was taken: after \<open>n + 1\<close> takes by one task every call succeeded and the count is \<open>n + 1\<close>, after
  up to \<open>n\<close> gives the task still holds it, and the next give frees it, with the count back at zero.\<close>

theorem recursive_mutex_counts:
  assumes free: "free_mutex h s"
    and t: "pxCurrentTCB (rkern s) \<noteq> 0" "pxCurrentTCB (rkern s) < 4294967296"
    and nobody: "eventLists (rkern s) (xTasksWaitingToSend h) = []" and n: "Suc n < 4294967296"
  shows "\<exists>s1. takes (Suc n) h s = Some s1 \<and> held (Suc n) h s1 \<and>
    (\<forall>m \<le> n. \<exists>s2. gives m h s1 = Some s2 \<and> held (Suc n - m) h s2) \<and>
    (\<exists>s3. gives (Suc n) h s1 = Some s3 \<and> free_mutex h s3)"
proof -
  let ?t = "pxCurrentTCB (rkern s)"
  define k1 where "k1 = upd_tcb ?t (uxMutexesHeld_update (\<lambda>n. n + 1)) (rkern s)"
  define sa where "sa = (upd_queue h (\<lambda>q. set_holder ?t (q\<lparr>uxMessagesWaiting := 0\<rparr>)) s)\<lparr>rkern := k1\<rparr>"
  have "take_item h s = Some ([], sa)"
    using free t nobody
    by (simp add: take_item_def prvCopyDataFromQueue_def Let_def free_mutex_def mutex_queue_def
        pvTaskIncrementMutexHeldCount_def on_kern_def wake_waiter_def sa_def k1_def upd_queue_def)
  then have "xQueueTakeMutexRecursive h 0 [\<lambda>s. s] s =
      Some (True, upd_queue h (uxRecursiveCallCount_update (\<lambda>n. n + 1)) sa)"
    using free t(1)
    by (simp add: xQueueTakeMutexRecursive_def free_mutex_def xQueueGenericReceive_def receive_enter_def)
  moreover have "held 1 h (upd_queue h (uxRecursiveCallCount_update (\<lambda>n. n + 1)) sa)"
    using free t by (simp add: held_def sa_def k1_def free_mutex_def mutex_queue_def pxMutexHolder_def unat_of_nat_u32)
  ultimately obtain s1 where s1: "takes (Suc n) h s = Some s1" "held (Suc n) h s1" "rkern s1 = k1"
    using takes_held [of 1 h _ n] by (fastforce simp: sa_def)
  have some: "\<exists>s2. gives m h s1 = Some s2 \<and> held (Suc n - m) h s2 \<and> rkern s2 = k1" if "m \<le> n" for m
    using gives_held [of "Suc n - m" m h s1] that n s1(2,3) by simp
  obtain s2 where s2: "gives n h s1 = Some s2" "held 1 h s2" "rkern s2 = k1" using some [of n] by auto
  define s2' where "s2' = upd_queue h (uxRecursiveCallCount_update (\<lambda>n. n - 1)) s2"
  obtain r k2 where d: "xTaskPriorityDisinherit (pxMutexHolder (queues s2' h)) (rkern s2') = (r, k2)"
    by fastforce
  have m2: "mutex_queue (queues s2' h)" "uxMessagesWaiting (queues s2' h) = 0"
    "uxRecursiveCallCount (queues s2' h) = 0"
    using s2(2) by (simp_all add: s2'_def held_def mutex_queue_def)
  obtain k3 where give: "send_now h [] queueSEND_TO_BACK s2' =
      Some (True, (upd_queue h (\<lambda>q. (set_holder 0 q)\<lparr>uxMessagesWaiting := 1\<rparr>) s2')\<lparr>rkern := k3\<rparr>)"
    using give_enter [OF m2(1,2) d] wake_waiter_returns [of portYIELD "xTasksWaitingToReceive h" k2]
    unfolding xSemaphoreGive_def
    by (cases "eventLists k2 (xTasksWaitingToReceive h) = []") auto
  have "xQueueGiveMutexRecursive h s2 =
      Some (True, (upd_queue h (\<lambda>q. (set_holder 0 q)\<lparr>uxMessagesWaiting := 1\<rparr>) s2')\<lparr>rkern := k3\<rparr>)"
    using s2(2) m2(3) give unfolding xQueueGiveMutexRecursive_def Let_def s2'_def [symmetric]
    by (simp add: held_def)
  moreover have "free_mutex h ((upd_queue h (\<lambda>q. (set_holder 0 q)\<lparr>uxMessagesWaiting := 1\<rparr>) s2')\<lparr>rkern := k3\<rparr>)"
    using m2 by (simp add: free_mutex_def mutex_queue_def pxMutexHolder_def)
  ultimately have last: "\<exists>s3. xQueueGiveMutexRecursive h s2 = Some (True, s3) \<and> free_mutex h s3" by blast
  have "\<exists>s3. gives (Suc n) h s1 = Some s3 \<and> free_mutex h s3"
    using last s2(1) gives_snoc [of n h s1] by auto
  then show ?thesis using s1 some by blast
qed

lemma recursive_mutex_counts_witness:
  "\<exists>s1 s3. takes 3 7 (sample_mutex 0 1) = Some s1 \<and> gives 3 7 s1 = Some s3 \<and> free_mutex 7 s3"
proof -
  have "free_mutex 7 (sample_mutex 0 1)"
    by (simp add: free_mutex_def mutex_queue_def sample_mutex_def pxMutexHolder_def)
  note F = this
  have P: "pxCurrentTCB (rkern (sample_mutex 0 1)) \<noteq> 0" "pxCurrentTCB (rkern (sample_mutex 0 1)) < 4294967296"
    "eventLists (rkern (sample_mutex 0 1)) (xTasksWaitingToSend 7) = []" "Suc 2 < 4294967296"
    by (simp_all add: sample_kern two_tasks_state)
  have three: "Suc 2 = 3" by simp
  show ?thesis using recursive_mutex_counts [OF F P] unfolding three by blast
qed

end
