(* ===== verification/LwipErr.thy ===== *)
theory LwipErr
  imports Prelude
begin

text \<open>
  The error values of LwIP (LwIP/include/lwip/err.h), their numbers, and their translation into
  the error numbers of the C library (LwIP/api/err.c).
\<close>

datatype err_t = ERR_OK | ERR_MEM | ERR_BUF | ERR_TIMEOUT | ERR_RTE | ERR_INPROGRESS | ERR_VAL
  | ERR_WOULDBLOCK | ERR_USE | ERR_ALREADY | ERR_ISCONN | ERR_CONN | ERR_IF | ERR_ABRT | ERR_RST
  | ERR_CLSD | ERR_ARG

fun err_code :: "err_t \<Rightarrow> int" where
  "err_code ERR_OK = 0"
| "err_code ERR_MEM = -1"
| "err_code ERR_BUF = -2"
| "err_code ERR_TIMEOUT = -3"
| "err_code ERR_RTE = -4"
| "err_code ERR_INPROGRESS = -5"
| "err_code ERR_VAL = -6"
| "err_code ERR_WOULDBLOCK = -7"
| "err_code ERR_USE = -8"
| "err_code ERR_ALREADY = -9"
| "err_code ERR_ISCONN = -10"
| "err_code ERR_CONN = -11"
| "err_code ERR_IF = -12"
| "err_code ERR_ABRT = -13"
| "err_code ERR_RST = -14"
| "err_code ERR_CLSD = -15"
| "err_code ERR_ARG = -16"

definition err_to_errno_table :: "int list" where
  "err_to_errno_table =
     [0, 12, 105, 11, 113, 115, 22, 11, 98, 114, 106, 107, -1, 103, 104, 107, 5]"

text \<open>An \<open>err_t\<close> is a signed byte.\<close>

definition err_to_errno :: "int \<Rightarrow> int" where
  "err_to_errno err =
     (if 0 < err \<or> int (length err_to_errno_table) \<le> - err then 5
      else err_to_errno_table ! nat (- err))"

end
