(* ===== verification/SysArch.thy ===== *)
theory SysArch
  imports RtosQueueSync LwipErr
begin

unbundle bit_operations_syntax

text \<open>
  The layer between LwIP and FreeRTOS (User/arch/sys_arch.c): semaphores, mutexes, mailboxes,
  threads and time on the queues and tasks of the kernel. One tick is one millisecond
  (configTICK_RATE_HZ is 1000, portTICK_PERIOD_MS is 1). A call that may wait takes, as the queue
  calls do, the list of what the rest of the system does before each of its steps.
\<close>

section \<open>Creating tasks\<close>

text \<open>\<open>xTaskCreate\<close> takes the stack and the task block from the heap; when the second allocation
  fails the first is given back. The result is the handle, and \<open>None\<close> in it stands for
  \<open>errCOULD_NOT_ALLOCATE_REQUIRED_MEMORY\<close>.\<close>

definition sizeof_TCB_t :: u32 where "sizeof_TCB_t = 84"

definition malloc_rtos :: "u32 \<Rightarrow> rtos \<Rightarrow> (nat \<times> rtos) option" where
  "malloc_rtos n s =
     map_option (\<lambda>(p, hp, k). (p, s\<lparr>rheap := hp, rkern := k\<rparr>)) (pvPortMalloc n (rheap s, rkern s))"

definition free_rtos :: "nat \<Rightarrow> rtos \<Rightarrow> rtos option" where
  "free_rtos p s = map_option (\<lambda>(hp, k). s\<lparr>rheap := hp, rkern := k\<rparr>) (vPortFree p (rheap s, rkern s))"

definition xTaskCreate :: "u16 \<Rightarrow> nat \<Rightarrow> rtos \<Rightarrow> (nat option \<times> rtos) option" where
  "xTaskCreate usStackDepth prio s =
    Option.bind (malloc_rtos (ucast usStackDepth * 4) s) (\<lambda>(pxStack, s).
      if pxStack \<noteq> 0 then
        Option.bind (malloc_rtos sizeof_TCB_t s) (\<lambda>(pxNewTCB, s).
          if pxNewTCB \<noteq> 0
          then Some (Some pxNewTCB, upd_kern (\<lambda>k. prvAddNewTaskToReadyList pxNewTCB
                 (prvInitialiseNewTask pxNewTCB prio k)) s)
          else map_option (\<lambda>s. (None, s)) (free_rtos pxStack s))
      else Some (None, s))"

section \<open>Time and the table of time-outs\<close>

record lwip_sys =
  lwip_sys_now :: u32
  s_timeoutlist :: "nat list"
  s_nextthread :: u16

definition SYS_THREAD_MAX :: nat where "SYS_THREAD_MAX = 4"

definition sys_jiffies :: "rtos \<Rightarrow> lwip_sys \<Rightarrow> u32 \<times> lwip_sys" where
  "sys_jiffies s v = (let v = v\<lparr>lwip_sys_now := xTickCount (rkern s)\<rparr> in (lwip_sys_now v, v))"

definition sys_now :: "rtos \<Rightarrow> lwip_sys \<Rightarrow> u32 \<times> lwip_sys" where
  "sys_now s v = (let v = v\<lparr>lwip_sys_now := xTickCount (rkern s)\<rparr> in (lwip_sys_now v, v))"

definition sys_init :: "lwip_sys \<Rightarrow> lwip_sys" where
  "sys_init v = v\<lparr>s_timeoutlist := replicate SYS_THREAD_MAX 0, s_nextthread := 0\<rparr>"

text \<open>The result is the index of the entry of the running task, \<open>None\<close> for NULL.\<close>

fun find_pid :: "nat \<Rightarrow> nat \<Rightarrow> nat list \<Rightarrow> nat option" where
  "find_pid pid 0 ps = None"
| "find_pid pid (Suc n) [] = None"
| "find_pid pid (Suc n) (p # ps) = (if p = pid then Some 0 else map_option Suc (find_pid pid n ps))"

definition sys_arch_timeouts :: "rtos \<Rightarrow> lwip_sys \<Rightarrow> nat option" where
  "sys_arch_timeouts s v = find_pid (pxCurrentTCB (rkern s)) (unat (s_nextthread v)) (s_timeoutlist v)"

section \<open>Semaphores\<close>

definition SYS_ARCH_TIMEOUT :: u32 where "SYS_ARCH_TIMEOUT = 0xFFFFFFFF"

text \<open>The argument is the handle the pointer refers to; the result of the give is only printed.\<close>

definition sys_sem_signal :: "nat \<Rightarrow> rtos \<Rightarrow> rtos option" where
  "sys_sem_signal sem s = map_option snd (xSemaphoreGive sem s)"

text \<open>\<open>sys_sem_new\<close> passes the handle where \<open>sys_sem_signal\<close> expects its address: what is given
  is the first word of the queue, \<open>pcHead\<close>, which for a queue without items is the queue itself.
  Without a queue this reads address 0, and the result is \<open>None\<close>.\<close>

definition sys_sem_new :: "u8 \<Rightarrow> rtos \<Rightarrow> ((err_t \<times> nat) \<times> rtos) option" where
  "sys_sem_new count s =
    map_option (\<lambda>(sem, s). ((if sem \<noteq> 0 then ERR_OK else ERR_MEM, sem), s))
     (if count \<le> 1 then
        Option.bind (xSemaphoreCreateBinary s) (\<lambda>(sem, s).
          if count = 1 then
            (if sem \<noteq> 0
             then map_option (\<lambda>s. (sem, s)) (sys_sem_signal (unat (pcHead (queues s sem))) s)
             else None)
          else Some (sem, s))
      else xQueueCreateCountingSemaphore (ucast count) (ucast count) s)"

text \<open>The semaphore variable is the second result.\<close>

definition sys_sem_free :: "nat \<Rightarrow> rtos \<Rightarrow> (nat \<times> rtos) option" where
  "sys_sem_free sem s = map_option (\<lambda>s. (0, s)) (vQueueDelete sem s)"

definition sys_sem_valid :: "nat \<Rightarrow> bool" where
  "sys_sem_valid sem \<longleftrightarrow> sem \<noteq> 0"

definition sys_sem_set_invalid :: "nat \<Rightarrow> nat" where
  "sys_sem_set_invalid sem = 0"

definition wait_ticks :: "u32 \<Rightarrow> u32" where
  "wait_ticks timeout =
    (if timeout \<noteq> 0 then (let wait_tick = timeout div 1 in if wait_tick = 0 then 1 else wait_tick)
     else portMAX_DELAY)"

definition sys_arch_sem_wait ::
    "nat \<Rightarrow> u32 \<Rightarrow> (rtos \<Rightarrow> rtos) list \<Rightarrow> rtos \<Rightarrow> (u32 \<times> rtos) option" where
  "sys_arch_sem_wait sem timeout es s =
    (if sem = 0 then Some (SYS_ARCH_TIMEOUT, s)
     else
       let start_tick = xTickCount (rkern s)
       in map_option (\<lambda>(taken, s).
            (if taken then (xTickCount (rkern s) - start_tick) * 1 else SYS_ARCH_TIMEOUT, s))
          (xSemaphoreTake sem (wait_ticks timeout) es s))"

section \<open>Mutexes\<close>

definition sys_mutex_new :: "rtos \<Rightarrow> ((err_t \<times> nat) \<times> rtos) option" where
  "sys_mutex_new s =
     map_option (\<lambda>(m, s). ((if m \<noteq> 0 then ERR_OK else ERR_MEM, m), s)) (xQueueCreateMutex s)"

definition sys_mutex_free :: "nat \<Rightarrow> rtos \<Rightarrow> rtos option" where
  "sys_mutex_free m s = vQueueDelete m s"

definition sys_mutex_lock :: "nat \<Rightarrow> (rtos \<Rightarrow> rtos) list \<Rightarrow> rtos \<Rightarrow> rtos option" where
  "sys_mutex_lock m es s = map_option snd (xSemaphoreTake m portMAX_DELAY es s)"

definition sys_mutex_unlock :: "nat \<Rightarrow> rtos \<Rightarrow> rtos option" where
  "sys_mutex_unlock m s = map_option snd (xSemaphoreGive m s)"

section \<open>Threads\<close>

definition sys_thread_new :: "nat \<Rightarrow> nat \<Rightarrow> rtos \<Rightarrow> (nat \<times> rtos) option" where
  "sys_thread_new stacksize prio s =
     map_option (\<lambda>(r, s). (case r of Some t \<Rightarrow> t | None \<Rightarrow> 0, s)) (xTaskCreate (of_nat stacksize) prio s)"

section \<open>Mailboxes\<close>

text \<open>A message is a pointer; it goes through the queue as its four bytes, low byte first.\<close>

definition word_bytes :: "u32 \<Rightarrow> u8 list" where
  "word_bytes w = map (\<lambda>i. ucast (drop_bit (8 * i) w)) [0..<4]"

definition bytes_word :: "u8 list \<Rightarrow> u32" where
  "bytes_word bs = foldr (\<lambda>b w. push_bit 8 w OR ucast b) bs 0"

definition sys_mbox_new :: "nat \<Rightarrow> rtos \<Rightarrow> ((err_t \<times> nat) \<times> rtos) option" where
  "sys_mbox_new sz s =
     map_option (\<lambda>(m, s). ((if m = 0 then ERR_MEM else ERR_OK, m), s)) (xQueueGenericCreate (of_nat sz) 4 s)"

definition sys_mbox_free :: "nat \<Rightarrow> rtos \<Rightarrow> rtos option" where
  "sys_mbox_free mbox s = vQueueDelete mbox s"

definition sys_mbox_valid :: "nat \<Rightarrow> bool" where
  "sys_mbox_valid mbox \<longleftrightarrow> mbox \<noteq> 0"

text \<open>One call per element of the list; the loop ends with the first that succeeds.\<close>

fun sys_mbox_post :: "nat \<Rightarrow> u32 \<Rightarrow> (rtos \<Rightarrow> rtos) list list \<Rightarrow> rtos \<Rightarrow> rtos option" where
  "sys_mbox_post q msg [] s = None"
| "sys_mbox_post q msg (es # ess) s =
    Option.bind (xQueueGenericSend q (word_bytes msg) portMAX_DELAY queueSEND_TO_BACK es s)
      (\<lambda>(ok, s). if ok then Some s else sys_mbox_post q msg ess s)"

definition sys_mbox_trypost :: "nat \<Rightarrow> u32 \<Rightarrow> rtos \<Rightarrow> (err_t \<times> rtos) option" where
  "sys_mbox_trypost q msg s =
     map_option (\<lambda>(ok, s). (if ok then ERR_OK else ERR_MEM, s)) (send_now q (word_bytes msg) queueSEND_TO_BACK s)"

definition sys_mbox_trypost_fromisr :: "nat \<Rightarrow> u32 \<Rightarrow> rtos \<Rightarrow> (err_t \<times> rtos) option" where
  "sys_mbox_trypost_fromisr q msg s = sys_mbox_trypost q msg s"

text \<open>The second result is what \<open>*msg\<close> holds afterwards.\<close>

definition sys_arch_mbox_fetch ::
    "nat \<Rightarrow> u32 \<Rightarrow> (rtos \<Rightarrow> rtos) list \<Rightarrow> rtos \<Rightarrow> ((u32 \<times> u32) \<times> rtos) option" where
  "sys_arch_mbox_fetch q timeout es s =
    (let start_tick = xTickCount (rkern s)
     in map_option (\<lambda>(r, s). (case r of
            Some bs \<Rightarrow> ((xTickCount (rkern s) - start_tick) * 1, bytes_word bs)
          | None \<Rightarrow> (SYS_ARCH_TIMEOUT, 0), s))
        (xQueueGenericReceive q (wait_ticks timeout) False es s))"

text \<open>\<open>None\<close> in the result stands for \<open>SYS_MBOX_EMPTY\<close>, which leaves \<open>*msg\<close> alone.\<close>

definition sys_arch_mbox_tryfetch :: "nat \<Rightarrow> rtos \<Rightarrow> (u32 option \<times> rtos) option" where
  "sys_arch_mbox_tryfetch q s =
     map_option (\<lambda>(r, s). (map_option bytes_word r, s)) (receive_now q False s)"

section \<open>Messages as bytes\<close>

lemma bytes_word_bytes [simp]: "bytes_word (word_bytes w) = w"
proof (rule bit_word_eqI)
  fix n assume "n < LENGTH(32)"
  then have n: "n < 32" by simp
  have four: "[0..<4] = [0, 1, 2, 3 :: nat]" by (simp add: upt_rec)
  consider "n < 8" | "8 \<le> n \<and> n < 16" | "16 \<le> n \<and> n < 24" | "24 \<le> n" by linarith
  then show "bit (bytes_word (word_bytes w)) n = bit w n"
    using n unfolding bytes_word_def word_bytes_def four
    by cases (auto simp: bit_or_iff bit_push_bit_iff bit_ucast_iff bit_drop_bit_eq dest: bit_imp_le_length)
qed

lemma length_word_bytes [simp]: "length (word_bytes w) = 4"
  by (simp add: word_bytes_def)

lemma list_receive_map: "list_receive (map f xs) = (map_option f (fst (list_receive xs)), map f (snd (list_receive xs)))"
  by (cases xs) simp_all

section \<open>A mailbox is a bounded queue of messages\<close>

definition keeps_mbox :: "nat \<Rightarrow> nat \<Rightarrow> rtos \<Rightarrow> u32 list \<Rightarrow> bool" where
  "keeps_mbox q cap s ms \<longleftrightarrow> keeps_queue q cap 4 s (map word_bytes ms)"

definition mbox_put :: "nat \<Rightarrow> u32 \<Rightarrow> rtos \<Rightarrow> (bool \<times> rtos) option" where
  "mbox_put q msg s = map_option (\<lambda>(e, s). (e = ERR_OK, s)) (sys_mbox_trypost q msg s)"

interpretation mbox: bounded_fifo "keeps_mbox q cap" cap "\<lambda>_. True" "mbox_put q" "sys_arch_mbox_tryfetch q"
  for q cap
proof unfold_locales
  fix s ms and msg :: u32
  assume "keeps_mbox q cap s ms"
  then have k: "keeps_queue q cap 4 s (map word_bytes ms)" by (simp add: keeps_mbox_def)
  obtain s' where "send_now q (word_bytes msg) queueSEND_TO_BACK s = Some (length ms < cap, s')"
    "keeps_queue q cap 4 s' (if length ms < cap then map word_bytes ms @ [word_bytes msg] else map word_bytes ms)"
    using task_queue.post_law [OF k, of "word_bytes msg"] by auto
  then show "\<exists>s'. mbox_put q msg s = Some (length ms < cap, s') \<and>
      keeps_mbox q cap s' (if length ms < cap then ms @ [msg] else ms)"
    by (auto simp: mbox_put_def sys_mbox_trypost_def keeps_mbox_def split: if_splits)
next
  fix s ms
  assume "keeps_mbox q cap s ms"
  then have k: "keeps_queue q cap 4 s (map word_bytes ms)" by (simp add: keeps_mbox_def)
  obtain s' where "receive_now q False s = Some (map_option word_bytes (fst (list_receive ms)), s')"
    "keeps_queue q cap 4 s' (map word_bytes (snd (list_receive ms)))"
    using task_queue.fetch_law [OF k] by (auto simp: list_receive_map)
  then show "\<exists>s'. sys_arch_mbox_tryfetch q s = Some (fst (list_receive ms), s') \<and>
      keeps_mbox q cap s' (snd (list_receive ms))"
    by (simp add: sys_arch_mbox_tryfetch_def keeps_mbox_def option.map_comp comp_def option.map_ident)
qed

lemma keeps_mbox_length: "keeps_mbox q cap s ms \<Longrightarrow> length ms \<le> cap"
  by (auto simp: keeps_mbox_def keeps_queue_def qitems_def fifo_def)

text \<open>What the creation of a mailbox gives.\<close>

lemma mbox_new_spec:
  assumes rep: "heap_rep (rheap s) a bs" and k: "kern_ok (rkern s)" and top: "pxEnd (rheap s) < 4294967296"
    and sz: "0 < sz" "sz < 1000"
  shows "\<exists>e m s'. sys_mbox_new sz s = Some ((e, m), s') \<and>
    (e = ERR_MEM \<and> m = 0 \<and> none_fits (block_size (72 + 4 * sz)) bs \<or>
     e = ERR_OK \<and> m \<noteq> 0 \<and> keeps_mbox m sz s' [])"
proof -
  let ?n = "of_nat sizeof_Queue_t + of_nat sz * 4 :: u32"
  have u: "unat (of_nat sz :: u32) = sz" using sz(2) by (simp add: unat_of_nat_u32)
  have "?n = of_nat (72 + 4 * sz)" by (simp add: sizeof_Queue_t_def)
  then have n: "unat ?n = 72 + 4 * sz" using sz(2) by (simp add: unat_of_nat_u32 del: of_nat_add of_nat_mult)
  then have npos: "?n \<noteq> 0" by (metis add_is_0 unat_0 zero_neq_numeral)
  obtain y k' where k': "xTaskResumeAll (vTaskSuspendAll (rkern s)) = Some (y, k')"
    using suspend_resume [OF k] by blast
  from malloc_body_cases [OF rep, of ?n] consider
    (none) "none_fits (block_size (unat ?n)) bs" "malloc_body ?n (rheap s) = Some (0, rheap s)"
  | (some) xs b ys h' where "bs = xs @ (b, False) # ys" "block_size (unat ?n) \<le> b"
       "malloc_body ?n (rheap s) = Some (a + bytes xs + 8, h')"
    using n npos sz(2) by fastforce
  then show ?thesis
  proof cases
    case none
    then show ?thesis using k' n
      by (simp add: sys_mbox_new_def xQueueGenericCreate_def pvPortMalloc_def mult.commute)
  next
    case some
    let ?p = "a + bytes xs + 8"
    let ?s = "s\<lparr>rheap := h', rkern := k'\<rparr>" and ?st = "of_nat (?p + sizeof_Queue_t) :: u32"
    have "a + bytes xs + b \<le> pxEnd (rheap s)" using rep some(1) by (auto simp: heap_rep_def)
    moreover have "unat ?n + 8 \<le> b" using some(2) block_size(1) [of "unat ?n"] by linarith
    ultimately have b: "?p + 72 + 4 * sz < 4294967296" using n top by linarith
    then have st: "unat ?st = ?p + 72"
      unfolding sizeof_Queue_t_def by (intro unat_of_nat_u32) linarith
    have q: "0 < (of_nat sz :: u32)" "(0 :: u32) < 4" "4 \<le> ?st" "unat ?st + unat (of_nat sz :: u32) * unat (4 :: u32) < 4294967296"
      using st b u sz(1) by (auto simp: word_less_nat_alt word_le_nat_alt)
    obtain s' where "prvInitialiseNewQueue (of_nat sz) 4 ?st ?p ?s = Some s'" "keeps_queue ?p sz 4 s' []"
      using new_queue [OF q, of ?p ?s] u by auto
    then show ?thesis using k' some(3)
      by (simp add: sys_mbox_new_def xQueueGenericCreate_def pvPortMalloc_def keeps_mbox_def)
  qed
qed

text \<open>Posting to a mailbox that keeps \<open>ms\<close>, and fetching from it.\<close>

lemma trypost_room:
  assumes "keeps_mbox q cap s ms"
  shows "\<exists>s'. sys_mbox_trypost q msg s = Some (if length ms < cap then ERR_OK else ERR_MEM, s')"
proof -
  have "keeps_queue q cap 4 s (map word_bytes ms)" using assms by (simp add: keeps_mbox_def)
  from task_queue.post_law [OF this, of "word_bytes msg"] obtain s' where
    "send_now q (word_bytes msg) queueSEND_TO_BACK s = Some (length ms < cap, s')" by auto
  then show ?thesis by (simp add: sys_mbox_trypost_def)
qed

text \<open>C16: A mailbox created with a positive size is a bounded first-in first-out queue of exactly
  that many messages: creation fails with \<open>ERR_MEM\<close> only when no free block fits, and otherwise every run of
  \<open>sys_mbox_trypost\<close> and \<open>sys_arch_mbox_tryfetch\<close> gives out the accepted messages unchanged, each once
  and in the order they were posted. After the run the next post is accepted if fewer than \<open>sz\<close> messages
  are left and refused with \<open>ERR_MEM\<close> if there are \<open>sz\<close>, and the next fetch gives the oldest that is left.\<close>

theorem mailbox_fifo:
  assumes "heap_rep (rheap s) a bs" and "kern_ok (rkern s)" and "pxEnd (rheap s) < 4294967296"
    and "0 < sz" and "sz < 1000"
  shows "\<exists>e m s0. sys_mbox_new sz s = Some ((e, m), s0) \<and>
    (e = ERR_MEM \<and> m = 0 \<and> none_fits (block_size (72 + 4 * sz)) bs \<or>
     e = ERR_OK \<and> m \<noteq> 0 \<and>
     (\<forall>ops. \<exists>ins outs left s'. exchange (mbox_put m) (sys_arch_mbox_tryfetch m) ops s0 = Some (ins, outs, s') \<and>
        ins = outs @ left \<and> length left \<le> sz \<and>
        (\<forall>msg. \<exists>s''. sys_mbox_trypost m msg s' = Some (if length left < sz then ERR_OK else ERR_MEM, s'')) \<and>
        (\<exists>s''. sys_arch_mbox_tryfetch m s' = Some (if left = [] then None else Some (hd left), s''))))"
proof -
  obtain e m s0 where new: "sys_mbox_new sz s = Some ((e, m), s0)"
    "e = ERR_MEM \<and> m = 0 \<and> none_fits (block_size (72 + 4 * sz)) bs \<or>
     e = ERR_OK \<and> m \<noteq> 0 \<and> keeps_mbox m sz s0 []"
    using mbox_new_spec [OF assms] by blast
  have "\<exists>ins outs left s'. exchange (mbox_put m) (sys_arch_mbox_tryfetch m) ops s0 = Some (ins, outs, s') \<and>
        ins = outs @ left \<and> length left \<le> sz \<and>
        (\<forall>msg. \<exists>s''. sys_mbox_trypost m msg s' = Some (if length left < sz then ERR_OK else ERR_MEM, s'')) \<and>
        (\<exists>s''. sys_arch_mbox_tryfetch m s' = Some (if left = [] then None else Some (hd left), s''))"
    if k: "keeps_mbox m sz s0 []" for ops
  proof -
    obtain ins outs s' left where r: "exchange (mbox_put m) (sys_arch_mbox_tryfetch m) ops s0 = Some (ins, outs, s')"
      "keeps_mbox m sz s' left" "ins = outs @ left" using mbox.exchange_fifo [OF k, of ops] by auto
    have "\<exists>s''. sys_arch_mbox_tryfetch m s' = Some (if left = [] then None else Some (hd left), s'')"
      using mbox.fetch_law [OF r(2)] by (cases left) auto
    then show ?thesis using r keeps_mbox_length [OF r(2)] trypost_room [OF r(2)] by blast
  qed
  then show ?thesis using new by blast
qed

definition fresh_rtos :: rtos where
  "fresh_rtos = sample_rtos\<lparr>rheap := prvHeapInit blank_heap\<rparr>"

lemma mailbox_fifo_witness:
  "\<exists>m s0. sys_mbox_new 8 fresh_rtos = Some ((ERR_OK, m), s0) \<and> m \<noteq> 0 \<and>
    (\<exists>ins outs left s'. exchange (mbox_put m) (sys_arch_mbox_tryfetch m) [Some 7, None, Some 9] s0 =
       Some (ins, outs, s') \<and> ins = outs @ left \<and> length left \<le> 8)"
proof -
  have r: "heap_rep (rheap fresh_rtos) 0x20000008 [(25584, False)]" "kern_ok (rkern fresh_rtos)"
    using blank_rep two_tasks_ok by (simp_all add: fresh_rtos_def sample_rtos_def)
  then have "pxEnd (rheap fresh_rtos) = 0x20000008 + 25584" by (simp add: heap_rep_def)
  then have e: "pxEnd (rheap fresh_rtos) < 4294967296" by simp
  have "\<not> none_fits (block_size (72 + 4 * 8)) [(25584, False)]"
    by (simp add: none_fits_def block_size_def)
  moreover have s: "(0 :: nat) < 8" "(8 :: nat) < 1000" by simp_all
  from mailbox_fifo [OF r e s] obtain e m s0 where m: "sys_mbox_new 8 fresh_rtos = Some ((e, m), s0)"
    "e = ERR_MEM \<and> m = 0 \<and> none_fits (block_size (72 + 4 * 8)) [(25584, False)] \<or>
     e = ERR_OK \<and> m \<noteq> 0 \<and>
     (\<forall>ops. \<exists>ins outs left s'. exchange (mbox_put m) (sys_arch_mbox_tryfetch m) ops s0 = Some (ins, outs, s') \<and>
        ins = outs @ left \<and> length left \<le> 8 \<and>
        (\<forall>msg. \<exists>s''. sys_mbox_trypost m msg s' = Some (if length left < 8 then ERR_OK else ERR_MEM, s'')) \<and>
        (\<exists>s''. sys_arch_mbox_tryfetch m s' = Some (if left = [] then None else Some (hd left), s'')))"
    by (elim exE conjE) (rule that)
  ultimately have "e = ERR_OK" "m \<noteq> 0" and f: "\<exists>ins outs left s'.
      exchange (mbox_put m) (sys_arch_mbox_tryfetch m) [Some 7, None, Some 9] s0 = Some (ins, outs, s') \<and>
      ins = outs @ left \<and> length left \<le> 8" by blast+
  then show ?thesis using m(1) by blast
qed

section \<open>Waiting without end\<close>

text \<open>LwIP waits with time-out 0 where it wants to wait for ever. Between any two steps of the call
  the rest of the system may do anything.\<close>

lemma endless_step:
  assumes "receive_step h peek (p, c, s) = Some (p', c', s')"
    and "xTicksToWait c = portMAX_DELAY" and "p \<noteq> Leave Expired" and "p \<noteq> Done None"
  shows "xTicksToWait c' = portMAX_DELAY \<and> p' \<noteq> Leave Expired \<and> p' \<noteq> Done None"
proof -
  have forever: "portMAX_DELAY \<noteq> 0" by (simp add: portMAX_DELAY_def)
  show ?thesis
  proof (cases p)
    case Enter
    then show ?thesis
      using assms forever
      by (auto simp: receive_enter_def stamp_def split: if_splits option.splits)
  next
    case Check
    then show ?thesis
      using assms by (auto simp: receive_check_def xTaskCheckForTimeOut_def Let_def split: if_splits)
  next
    case (Done r)
    then show ?thesis using assms by auto
  qed (use assms in \<open>auto split: if_splits option.splits\<close>)
qed

lemma endless_run:
  assumes "run_call (receive_step h peek) es (p, c, s) = Some (r, s')"
    and "xTicksToWait c = portMAX_DELAY" and "p \<noteq> Leave Expired" and "p \<noteq> Done None"
  shows "r \<noteq> None"
  using assms
proof (induction es arbitrary: p c s)
  case Nil
  then show ?case by simp
next
  case (Cons e es)
  obtain p1 c1 s1 where st: "receive_step h peek (p, c, e s) = Some (p1, c1, s1)"
    using Cons.prems(1) by (cases "receive_step h peek (p, c, e s)") auto
  note inv = endless_step [OF st Cons.prems(2-4)]
  then show ?case using Cons.prems(1) st Cons.IH [of p1 c1 s1] by (cases p1) auto
qed

text \<open>A wait of LwIP with time-out 0 never gives up: whatever the rest of the system does, and
  however the tick counter wraps meanwhile, \<open>sys_arch_sem_wait\<close> and \<open>sys_arch_mbox_fetch\<close> return only
  with the semaphore or a message, and their result is the time that has passed.\<close>

theorem endless_waits:
  assumes "sem \<noteq> 0"
  shows "(\<forall>t s'. sys_arch_sem_wait sem 0 es s = Some (t, s') \<longrightarrow>
      t = xTickCount (rkern s') - xTickCount (rkern s) \<and>
      (\<exists>r. xQueueGenericReceive sem portMAX_DELAY False es s = Some (Some r, s'))) \<and>
    (\<forall>t msg s'. sys_arch_mbox_fetch sem 0 es s = Some ((t, msg), s') \<longrightarrow>
      t = xTickCount (rkern s') - xTickCount (rkern s) \<and>
      (\<exists>r. xQueueGenericReceive sem portMAX_DELAY False es s = Some (Some r, s') \<and> msg = bytes_word r))"
proof -
  have got: "r \<noteq> None" if "xQueueGenericReceive sem portMAX_DELAY False es s = Some (r, s')" for r s'
    using that unfolding xQueueGenericReceive_def
    by (rule endless_run) (simp_all add: begin_call_def)
  have w: "wait_ticks 0 = portMAX_DELAY" by (simp add: wait_ticks_def)
  show ?thesis using assms got
    by (auto simp: sys_arch_sem_wait_def sys_arch_mbox_fetch_def xSemaphoreTake_def w split: option.splits)
qed

lemma fetch_available:
  assumes "qitems h s (x # xs)"
  shows "xQueueGenericReceive h w False [\<lambda>s. s] s = receive_now h False s"
  using qitems_full(2) [OF assms]
  by (cases "take_item h s")
    (auto simp: receive_now_def xQueueGenericReceive_def receive_enter_def begin_call_def)

definition sample_mbox :: rtos where
  "sample_mbox = sample_rtos\<lparr>queues := (\<lambda>_. \<lparr>pcHead = 0x20000100, pcTail = 0x20000108,
     pcWriteTo = 0x20000100, pcReadFrom = 0x20000104, uxMessagesWaiting = 0, uxLength = 2, uxItemSize = 4,
     cRxLock = queueUNLOCKED, cTxLock = queueUNLOCKED\<rparr>)\<rparr>"

lemma endless_waits_witness:
  "\<exists>s1 s' t. mbox_put 7 42 sample_mbox = Some (True, s1) \<and>
    sys_arch_mbox_fetch 7 0 [\<lambda>s. s] s1 = Some ((t, 42), s') \<and>
    t = xTickCount (rkern s') - xTickCount (rkern s1)"
proof -
  have "keeps_mbox 7 2 sample_mbox []"
    
    by (auto simp: keeps_mbox_def keeps_queue_def sample_mbox_def qitems_def fifo_def storage_ok_def slot_def
        holds_def intro!: exI [of _ 1])
  then obtain s1 where s1: "mbox_put 7 42 sample_mbox = Some (True, s1)" "keeps_mbox 7 2 s1 [42]"
    using mbox.post_law [of 7 2 sample_mbox "[]" 42] by auto
  then have q: "qitems 7 s1 [word_bytes 42]" by (simp add: keeps_mbox_def keeps_queue_def)
  obtain s' where "receive_now 7 False s1 = Some (Some (word_bytes 42), s')"
    using receive_now_spec [OF q] by auto
  then have "xQueueGenericReceive 7 portMAX_DELAY False [\<lambda>s. s] s1 = Some (Some (word_bytes 42), s')"
    using fetch_available [OF q] by simp
  then obtain t where "sys_arch_mbox_fetch 7 0 [\<lambda>s. s] s1 = Some ((t, 42), s')"
    by (simp add: sys_arch_mbox_fetch_def wait_ticks_def)
  then show ?thesis using s1(1) endless_waits [of 7 "[\<lambda>s. s]" s1] by auto
qed

end
