(* ===== verification/EthDma.thy ===== *)
theory EthDma
  imports HalDef LwipErr
begin

unbundle bit_operations_syntax

text \<open>
  The Ethernet frames between LwIP and the DMA of the MAC: the descriptor rings and the handle of
  the vendor's driver (stm32f4xx_hal_eth.c) and the link output and input of
  User/arch/ethernetif.c. Descriptors are found by their address; the buffers they point to
  are bytes of the memory. What the DMA does with the descriptors it owns is outside; the
  properties say what it finds there. The table of descriptors is an array of 32-byte structures.
\<close>

section \<open>Descriptors and the handle\<close>

record ETH_DMADesc =
  Status :: u32
  ControlBufferSize :: u32
  Buffer1Addr :: u32
  Buffer2NextDescAddr :: u32

record ETH_DMARxFrameInfos =
  FSRxDesc :: u32
  LSRxDesc :: u32
  SegCount :: u32
  rx_length :: u32
  rx_buffer :: u32

datatype HAL_ETH_StateTypeDef = HAL_ETH_STATE_RESET | HAL_ETH_STATE_READY | HAL_ETH_STATE_BUSY
  | HAL_ETH_STATE_BUSY_TX | HAL_ETH_STATE_BUSY_RX | HAL_ETH_STATE_BUSY_TX_RX | HAL_ETH_STATE_BUSY_WR
  | HAL_ETH_STATE_BUSY_RD | HAL_ETH_STATE_TIMEOUT | HAL_ETH_STATE_ERROR

text \<open>\<open>heth\<close>, the registers of its \<open>Instance\<close> the code uses, and the memory. The poll demand
  registers have no content: the counters say how often they were written.\<close>

record eth =
  TxDesc :: u32
  RxDesc :: u32
  RxFrameInfos :: ETH_DMARxFrameInfos
  eth_State :: HAL_ETH_StateTypeDef
  Lock :: bool
  ChecksumMode :: u32
  RxMode :: u32
  DMASR :: u32
  DMATPDR_writes :: nat
  DMARPDR_writes :: nat
  DMATDLAR :: u32
  DMARDLAR :: u32
  descs :: "u32 \<Rightarrow> ETH_DMADesc"
  ram :: memory

definition ETH_TX_BUF_SIZE :: u32 where "ETH_TX_BUF_SIZE = 1524"
definition ETH_RX_BUF_SIZE :: u32 where "ETH_RX_BUF_SIZE = 1524"
definition ETH_RXBUFNB :: nat where "ETH_RXBUFNB = 8"
definition ETH_TXBUFNB :: nat where "ETH_TXBUFNB = 8"

definition ETH_DMATXDESC_OWN :: u32 where "ETH_DMATXDESC_OWN = 0x80000000"
definition ETH_DMATXDESC_LS :: u32 where "ETH_DMATXDESC_LS = 0x20000000"
definition ETH_DMATXDESC_FS :: u32 where "ETH_DMATXDESC_FS = 0x10000000"
definition ETH_DMATXDESC_TCH :: u32 where "ETH_DMATXDESC_TCH = 0x00100000"
definition ETH_DMATXDESC_TBS1 :: u32 where "ETH_DMATXDESC_TBS1 = 0x00001FFF"
definition ETH_DMATXDESC_CHECKSUMTCPUDPICMPFULL :: u32 where
  "ETH_DMATXDESC_CHECKSUMTCPUDPICMPFULL = 0x00C00000"
definition ETH_DMARXDESC_OWN :: u32 where "ETH_DMARXDESC_OWN = 0x80000000"
definition ETH_DMARXDESC_FL :: u32 where "ETH_DMARXDESC_FL = 0x3FFF0000"
definition ETH_DMARXDESC_FS :: u32 where "ETH_DMARXDESC_FS = 0x00000200"
definition ETH_DMARXDESC_LS :: u32 where "ETH_DMARXDESC_LS = 0x00000100"
definition ETH_DMARXDESC_DIC :: u32 where "ETH_DMARXDESC_DIC = 0x80000000"
definition ETH_DMARXDESC_RCH :: u32 where "ETH_DMARXDESC_RCH = 0x00004000"
definition ETH_DMASR_TBUS :: u32 where "ETH_DMASR_TBUS = 0x00000004"
definition ETH_DMASR_TUS :: u32 where "ETH_DMASR_TUS = 0x00000020"
definition ETH_DMASR_RBUS :: u32 where "ETH_DMASR_RBUS = 0x00000080"
definition ETH_DMA_FLAG_R :: u32 where "ETH_DMA_FLAG_R = 0x00000040"
definition ETH_DMA_FLAG_T :: u32 where "ETH_DMA_FLAG_T = 0x00000001"
definition ETH_DMA_FLAG_AIS :: u32 where "ETH_DMA_FLAG_AIS = 0x00008000"
definition ETH_DMA_IT_NIS :: u32 where "ETH_DMA_IT_NIS = 0x00010000"
definition ETH_RXINTERRUPT_MODE :: u32 where "ETH_RXINTERRUPT_MODE = 1"
definition ETH_CHECKSUM_BY_HARDWARE :: u32 where "ETH_CHECKSUM_BY_HARDWARE = 0"

lemmas eth_consts = ETH_TX_BUF_SIZE_def ETH_RX_BUF_SIZE_def ETH_RXBUFNB_def ETH_TXBUFNB_def

definition upd_desc :: "u32 \<Rightarrow> (ETH_DMADesc \<Rightarrow> ETH_DMADesc) \<Rightarrow> eth \<Rightarrow> eth" where
  "upd_desc a f s = s\<lparr>descs := (descs s)(a := f (descs s a))\<rparr>"

definition next_desc :: "eth \<Rightarrow> u32 \<Rightarrow> u32" where
  "next_desc s d = Buffer2NextDescAddr (descs s d)"

text \<open>Writing ones to the status register clears its flags.\<close>

definition write_DMASR :: "u32 \<Rightarrow> eth \<Rightarrow> eth" where
  "write_DMASR v s = s\<lparr>DMASR := DMASR s AND NOT v\<rparr>"

section \<open>Building the rings\<close>

definition desc_at :: "u32 \<Rightarrow> nat \<Rightarrow> u32" where
  "desc_at tab i = tab + of_nat (32 * i)"

definition tx_desc_init :: "u32 \<Rightarrow> u32 \<Rightarrow> nat \<Rightarrow> nat \<Rightarrow> eth \<Rightarrow> eth" where
  "tx_desc_init tab TxBuff n i s =
    (let d = desc_at tab i;
         s = upd_desc d (\<lambda>e. e\<lparr>Status := ETH_DMATXDESC_TCH,
               Buffer1Addr := TxBuff + of_nat i * ETH_TX_BUF_SIZE\<rparr>) s;
         s = (if ChecksumMode s = ETH_CHECKSUM_BY_HARDWARE
              then upd_desc d (\<lambda>e. e\<lparr>Status := Status e OR ETH_DMATXDESC_CHECKSUMTCPUDPICMPFULL\<rparr>) s
              else s)
     in upd_desc d (\<lambda>e. e\<lparr>Buffer2NextDescAddr := if i < n - 1 then desc_at tab (i + 1) else tab\<rparr>) s)"

definition HAL_ETH_DMATxDescListInit :: "u32 \<Rightarrow> u32 \<Rightarrow> nat \<Rightarrow> eth \<Rightarrow> HAL_StatusTypeDef \<times> eth" where
  "HAL_ETH_DMATxDescListInit tab TxBuff n s =
    (if Lock s then (HAL_BUSY, s)
     else
       let s = s\<lparr>Lock := True, eth_State := HAL_ETH_STATE_BUSY, TxDesc := tab\<rparr>;
           s = fold (tx_desc_init tab TxBuff n) [0..<n] s
       in (HAL_OK, s\<lparr>DMATDLAR := tab, eth_State := HAL_ETH_STATE_READY, Lock := False\<rparr>))"

definition rx_desc_init :: "u32 \<Rightarrow> u32 \<Rightarrow> nat \<Rightarrow> nat \<Rightarrow> eth \<Rightarrow> eth" where
  "rx_desc_init tab RxBuff n i s =
    (let d = desc_at tab i;
         s = upd_desc d (\<lambda>e. e\<lparr>Status := ETH_DMARXDESC_OWN,
               ControlBufferSize := ETH_DMARXDESC_RCH OR ETH_RX_BUF_SIZE,
               Buffer1Addr := RxBuff + of_nat i * ETH_RX_BUF_SIZE\<rparr>) s;
         s = (if RxMode s = ETH_RXINTERRUPT_MODE
              then upd_desc d (\<lambda>e. e\<lparr>ControlBufferSize := ControlBufferSize e AND NOT ETH_DMARXDESC_DIC\<rparr>) s
              else s)
     in upd_desc d (\<lambda>e. e\<lparr>Buffer2NextDescAddr := if i < n - 1 then desc_at tab (i + 1) else tab\<rparr>) s)"

definition HAL_ETH_DMARxDescListInit :: "u32 \<Rightarrow> u32 \<Rightarrow> nat \<Rightarrow> eth \<Rightarrow> HAL_StatusTypeDef \<times> eth" where
  "HAL_ETH_DMARxDescListInit tab RxBuff n s =
    (if Lock s then (HAL_BUSY, s)
     else
       let s = s\<lparr>Lock := True, eth_State := HAL_ETH_STATE_BUSY, RxDesc := tab\<rparr>;
           s = fold (rx_desc_init tab RxBuff n) [0..<n] s
       in (HAL_OK, s\<lparr>DMARDLAR := tab, eth_State := HAL_ETH_STATE_READY, Lock := False\<rparr>))"

section \<open>Handing a frame to the DMA\<close>

text \<open>One segment of a frame of more than one.\<close>

definition tx_segment :: "u32 \<Rightarrow> u32 \<Rightarrow> nat \<Rightarrow> eth \<Rightarrow> eth" where
  "tx_segment FrameLength bufcount i s =
    (let d = TxDesc s;
         s = upd_desc d (\<lambda>e. e\<lparr>Status := Status e AND NOT (ETH_DMATXDESC_FS OR ETH_DMATXDESC_LS)\<rparr>) s;
         s = (if i = 0 then upd_desc d (\<lambda>e. e\<lparr>Status := Status e OR ETH_DMATXDESC_FS\<rparr>) s else s);
         s = upd_desc d (\<lambda>e. e\<lparr>ControlBufferSize := ETH_TX_BUF_SIZE AND ETH_DMATXDESC_TBS1\<rparr>) s;
         s = (if of_nat i = bufcount - 1 then
                let sz = FrameLength - (bufcount - 1) * ETH_TX_BUF_SIZE
                in upd_desc d (\<lambda>e. e\<lparr>Status := Status e OR ETH_DMATXDESC_LS,
                     ControlBufferSize := sz AND ETH_DMATXDESC_TBS1\<rparr>) s
              else s);
         s = upd_desc d (\<lambda>e. e\<lparr>Status := Status e OR ETH_DMATXDESC_OWN\<rparr>) s
     in s\<lparr>TxDesc := next_desc s d\<rparr>)"

definition HAL_ETH_TransmitFrame :: "u32 \<Rightarrow> eth \<Rightarrow> HAL_StatusTypeDef \<times> eth" where
  "HAL_ETH_TransmitFrame FrameLength s =
    (if Lock s then (HAL_BUSY, s)
     else if FrameLength = 0 then (HAL_ERROR, s\<lparr>eth_State := HAL_ETH_STATE_READY, Lock := False\<rparr>)
     else if Status (descs s (TxDesc s)) AND ETH_DMATXDESC_OWN \<noteq> 0
     then (HAL_ERROR, s\<lparr>eth_State := HAL_ETH_STATE_BUSY_TX, Lock := False\<rparr>)
     else
       let s = s\<lparr>Lock := True, eth_State := HAL_ETH_STATE_BUSY\<rparr>;
           bufcount = (if ETH_TX_BUF_SIZE < FrameLength
             then FrameLength div ETH_TX_BUF_SIZE + (if FrameLength mod ETH_TX_BUF_SIZE \<noteq> 0 then 1 else 0)
             else 1);
           s = (if bufcount = 1 then
                  let d = TxDesc s;
                      s = upd_desc d (\<lambda>e. e\<lparr>Status := Status e OR ETH_DMATXDESC_FS OR ETH_DMATXDESC_LS,
                            ControlBufferSize := FrameLength AND ETH_DMATXDESC_TBS1\<rparr>) s;
                      s = upd_desc d (\<lambda>e. e\<lparr>Status := Status e OR ETH_DMATXDESC_OWN\<rparr>) s
                  in s\<lparr>TxDesc := next_desc s d\<rparr>
                else fold (tx_segment FrameLength bufcount) [0..<unat bufcount] s);
           s = (if DMASR s AND ETH_DMASR_TBUS \<noteq> 0
                then (write_DMASR ETH_DMASR_TBUS s)\<lparr>DMATPDR_writes := DMATPDR_writes s + 1\<rparr> else s)
       in (HAL_OK, s\<lparr>eth_State := HAL_ETH_STATE_READY, Lock := False\<rparr>))"

section \<open>Taking a frame from the DMA\<close>

definition HAL_ETH_GetReceivedFrame :: "eth \<Rightarrow> HAL_StatusTypeDef \<times> eth" where
  "HAL_ETH_GetReceivedFrame s =
    (if Lock s then (HAL_BUSY, s)
     else
       let ready = (\<lambda>s. s\<lparr>eth_State := HAL_ETH_STATE_READY, Lock := False\<rparr>);
           d = RxDesc s; st = Status (descs s d); info = RxFrameInfos s
       in if st AND ETH_DMARXDESC_OWN = 0 then
            if st AND ETH_DMARXDESC_LS \<noteq> 0 then
              let info = info\<lparr>SegCount := SegCount info + 1\<rparr>;
                  info = (if SegCount info = 1 then info\<lparr>FSRxDesc := d\<rparr> else info);
                  info = info\<lparr>LSRxDesc := d\<rparr>;
                  framelength = drop_bit 16 (st AND ETH_DMARXDESC_FL) - 4;
                  info = info\<lparr>rx_length := framelength, rx_buffer := Buffer1Addr (descs s (FSRxDesc info))\<rparr>
              in (HAL_OK, ready (s\<lparr>RxFrameInfos := info, RxDesc := next_desc s d\<rparr>))
            else if st AND ETH_DMARXDESC_FS \<noteq> 0
            then (HAL_ERROR, ready (s\<lparr>RxFrameInfos := info\<lparr>FSRxDesc := d, LSRxDesc := 0, SegCount := 1\<rparr>,
                     RxDesc := next_desc s d\<rparr>))
            else (HAL_ERROR, ready (s\<lparr>RxFrameInfos := info\<lparr>SegCount := SegCount info + 1\<rparr>,
                     RxDesc := next_desc s d\<rparr>))
          else (HAL_ERROR, ready s))"

text \<open>The version for interrupts looks at up to \<open>n\<close> descriptors.\<close>

fun scan_received :: "nat \<Rightarrow> eth \<Rightarrow> HAL_StatusTypeDef \<times> eth" where
  "scan_received 0 s = (HAL_ERROR, s\<lparr>eth_State := HAL_ETH_STATE_READY, Lock := False\<rparr>)"
| "scan_received (Suc n) s =
    (let d = RxDesc s; st = Status (descs s d); info = RxFrameInfos s
     in if st AND ETH_DMARXDESC_OWN = 0 then
          if st AND (ETH_DMARXDESC_FS OR ETH_DMARXDESC_LS) = ETH_DMARXDESC_FS
          then scan_received n (s\<lparr>RxFrameInfos := info\<lparr>FSRxDesc := d, SegCount := 1\<rparr>, RxDesc := next_desc s d\<rparr>)
          else if st AND (ETH_DMARXDESC_LS OR ETH_DMARXDESC_FS) = 0
          then scan_received n (s\<lparr>RxFrameInfos := info\<lparr>SegCount := SegCount info + 1\<rparr>, RxDesc := next_desc s d\<rparr>)
          else
            let info = info\<lparr>LSRxDesc := d, SegCount := SegCount info + 1\<rparr>;
                info = (if SegCount info = 1 then info\<lparr>FSRxDesc := d\<rparr> else info);
                info = info\<lparr>rx_length := drop_bit 16 (st AND ETH_DMARXDESC_FL) - 4,
                            rx_buffer := Buffer1Addr (descs s (FSRxDesc info))\<rparr>
            in (HAL_OK, s\<lparr>RxFrameInfos := info, RxDesc := next_desc s d, eth_State := HAL_ETH_STATE_READY, Lock := False\<rparr>)
        else (HAL_ERROR, s\<lparr>eth_State := HAL_ETH_STATE_READY, Lock := False\<rparr>))"

definition HAL_ETH_GetReceivedFrame_IT :: "eth \<Rightarrow> HAL_StatusTypeDef \<times> eth" where
  "HAL_ETH_GetReceivedFrame_IT s =
    (if Lock s then (HAL_BUSY, s)
     else scan_received ETH_RXBUFNB (s\<lparr>Lock := True, eth_State := HAL_ETH_STATE_BUSY\<rparr>))"

text \<open>The interrupt. \<open>rx\<close> and \<open>tx\<close> and \<open>er\<close> are the call backs, on the state of the rest of the system.\<close>

definition dma_flag :: "eth \<Rightarrow> u32 \<Rightarrow> bool" where
  "dma_flag s f \<longleftrightarrow> DMASR s AND f = f"

definition HAL_ETH_IRQHandler ::
    "('n \<Rightarrow> 'n) \<Rightarrow> ('n \<Rightarrow> 'n) \<Rightarrow> ('n \<Rightarrow> 'n) \<Rightarrow> eth \<times> 'n \<Rightarrow> eth \<times> 'n" where
  "HAL_ETH_IRQHandler rx tx er sn =
    (let (s, n) = sn;
         free = (\<lambda>s. s\<lparr>eth_State := HAL_ETH_STATE_READY, Lock := False\<rparr>);
         (s, n) = (if dma_flag s ETH_DMA_FLAG_R then (free (write_DMASR ETH_DMA_FLAG_R s), rx n)
                   else if dma_flag s ETH_DMA_FLAG_T then (free (write_DMASR ETH_DMA_FLAG_T s), tx n)
                   else (s, n));
         s = write_DMASR ETH_DMA_IT_NIS s
     in if dma_flag s ETH_DMA_FLAG_AIS then (free (write_DMASR ETH_DMA_FLAG_AIS s), er n) else (s, n))"

end
