(* ===== verification/EthFrame.thy ===== *)
theory EthFrame
  imports EthDma
begin

unbundle bit_operations_syntax

text \<open>
  The link layer of User/arch/ethernetif.c: \<open>low_level_output\<close> copies a chain of buffers of LwIP
  into the buffers of the transmit ring and hands them over, \<open>low_level_input\<close> takes a frame out
  of the receive ring into a new chain, \<open>ethernetif_input\<close> is the task that passes the received
  frames on. A chain is the list of the payloads of its buffers. The pool of buffers and the
  function \<open>netif->input\<close> are parameters; the state of what is behind them has type \<open>'n\<close>.
\<close>

section \<open>Output\<close>

text \<open>The local variables of the copy loop; the offset never passes the size of a buffer. The loop
  over one payload is written over what is left of it.\<close>

record cursor =
  DmaDesc :: u32
  buf_addr :: u32
  bufferoffset :: nat
  framelength :: u32

function tx_copy :: "u8 list \<Rightarrow> cursor \<Rightarrow> eth \<Rightarrow> bool \<times> cursor \<times> eth" where
  "tx_copy rest c s =
    (if unat ETH_TX_BUF_SIZE < length rest + bufferoffset c then
       let n = unat ETH_TX_BUF_SIZE - bufferoffset c;
           s = s\<lparr>ram := write_bytes (ram s) (buf_addr c + of_nat (bufferoffset c)) (take n rest)\<rparr>;
           d = next_desc s (DmaDesc c)
       in if Status (descs s d) AND ETH_DMATXDESC_OWN \<noteq> 0 then (False, c\<lparr>DmaDesc := d\<rparr>, s)
          else tx_copy (drop n rest)
            (c\<lparr>DmaDesc := d, buf_addr := Buffer1Addr (descs s d), bufferoffset := 0,
               framelength := framelength c + of_nat n\<rparr>) s
     else (True, c\<lparr>bufferoffset := bufferoffset c + length rest,
                   framelength := framelength c + of_nat (length rest)\<rparr>,
           s\<lparr>ram := write_bytes (ram s) (buf_addr c + of_nat (bufferoffset c)) rest\<rparr>))"
  by auto
termination
  by (relation "measure (\<lambda>(rest, c, s). length rest + bufferoffset c)") (auto simp: eth_consts)

declare tx_copy.simps [simp del]

fun tx_chain :: "u8 list list \<Rightarrow> cursor \<Rightarrow> eth \<Rightarrow> bool \<times> cursor \<times> eth" where
  "tx_chain [] c s = (True, c, s)"
| "tx_chain (q # p) c s =
    (case tx_copy q c s of (ok, c, s) \<Rightarrow> if ok then tx_chain p c s else (False, c, s))"

text \<open>The interface: the handle and the counts of the two semaphores, of which \<open>ousem\<close> is binary and
  made at the first call. \<open>nesting\<close> is the nesting of the critical sections.\<close>

record ethif =
  heth :: eth
  ousem :: "nat option"
  s_xSemaphore :: nat
  nesting :: nat

definition sem_signal :: "nat \<Rightarrow> nat" where
  "sem_signal n = (if n < 1 then n + 1 else n)"

definition output_error :: "err_t \<Rightarrow> ethif \<Rightarrow> err_t \<times> ethif" where
  "output_error errval v =
    (let s = heth v;
         s = (if DMASR s AND ETH_DMASR_TUS \<noteq> 0
              then (write_DMASR ETH_DMASR_TUS s)\<lparr>DMATPDR_writes := DMATPDR_writes s + 1\<rparr> else s)
     in (errval, v\<lparr>heth := s, ousem := map_option sem_signal (ousem v)\<rparr>))"

text \<open>\<open>None\<close> when the call waits for the semaphore.\<close>

definition low_level_output :: "u8 list list \<Rightarrow> ethif \<Rightarrow> (err_t \<times> ethif) option" where
  "low_level_output p v =
    (let v = (if ousem v = None then v\<lparr>ousem := Some (sem_signal 0)\<rparr> else v);
         s = heth v; d = TxDesc s
     in if Status (descs s d) AND ETH_DMATXDESC_OWN \<noteq> 0 then Some (output_error ERR_USE v)
        else if ousem v = Some 0 then None
        else
          let v = v\<lparr>ousem := map_option (\<lambda>n. n - 1) (ousem v)\<rparr>;
              (ok, c, s) = tx_chain p \<lparr>DmaDesc = d, buf_addr = Buffer1Addr (descs s d), bufferoffset = 0,
                framelength = 0\<rparr> s
          in if ok then Some (output_error ERR_OK (v\<lparr>heth := snd (HAL_ETH_TransmitFrame (framelength c) s)\<rparr>))
             else Some (output_error ERR_USE (v\<lparr>heth := s\<rparr>)))"

section \<open>Input\<close>

text \<open>Filling one buffer of \<open>left\<close> bytes from the ring.\<close>

function rx_copy :: "nat \<Rightarrow> u32 \<Rightarrow> u32 \<Rightarrow> nat \<Rightarrow> eth \<Rightarrow> u8 list \<times> u32 \<times> u32 \<times> nat" where
  "rx_copy left d buffer off s =
    (if unat ETH_RX_BUF_SIZE < left + off then
       let n = unat ETH_RX_BUF_SIZE - off; bs = read_bytes (ram s) (buffer + of_nat off) n;
           d = next_desc s d
       in case rx_copy (left - n) d (Buffer1Addr (descs s d)) 0 s of (cs, r) \<Rightarrow> (bs @ cs, r)
     else (read_bytes (ram s) (buffer + of_nat off) left, d, buffer, off + left))"
  by auto
termination
  by (relation "measure (\<lambda>(left, d, buffer, off, s). left + off)") (auto simp: eth_consts)

declare rx_copy.simps [simp del]

fun rx_chain :: "nat list \<Rightarrow> u32 \<Rightarrow> u32 \<Rightarrow> nat \<Rightarrow> eth \<Rightarrow> u8 list list" where
  "rx_chain [] d buffer off s = []"
| "rx_chain (l # ls) d buffer off s =
    (case rx_copy l d buffer off s of (bs, d, buffer, off) \<Rightarrow> bs # rx_chain ls d buffer off s)"

fun give_back :: "nat \<Rightarrow> u32 \<Rightarrow> eth \<Rightarrow> eth" where
  "give_back 0 d s = s"
| "give_back (Suc n) d s =
    (let s = upd_desc d (\<lambda>e. e\<lparr>Status := Status e OR ETH_DMARXDESC_OWN\<rparr>) s
     in give_back n (next_desc s d) s)"

text \<open>\<open>pbuf_alloc\<close> gives the lengths of the buffers of a chain, or \<open>None\<close> for NULL.\<close>

definition low_level_input ::
    "(nat \<Rightarrow> 'n \<Rightarrow> nat list option \<times> 'n) \<Rightarrow> eth \<times> 'n \<Rightarrow> u8 list list option \<times> eth \<times> 'n" where
  "low_level_input pbuf_alloc sn =
    (let (s, n) = sn; (st, s) = HAL_ETH_GetReceivedFrame s
     in if st \<noteq> HAL_OK then (None, s, n)
        else
          let info = RxFrameInfos s; len = (ucast (rx_length info) :: u16); buffer = rx_buffer info;
              (q, n) = (if 0 < len then pbuf_alloc (unat len) n else (None, n));
              p = map_option (\<lambda>ls. rx_chain ls (FSRxDesc info) buffer 0 s) q;
              s = give_back (unat (SegCount info)) (FSRxDesc info) s;
              s = s\<lparr>RxFrameInfos := (RxFrameInfos s)\<lparr>SegCount := 0\<rparr>\<rparr>;
              s = (if DMASR s AND ETH_DMASR_RBUS \<noteq> 0
                   then (write_DMASR ETH_DMASR_RBUS s)\<lparr>DMARPDR_writes := DMARPDR_writes s + 1\<rparr> else s)
          in (p, s, n))"

text \<open>
  The input task after it has taken the semaphore: it reads frames as long as it gets one and
  \<open>netif->input\<close> takes it. The jump back is made inside the critical section in which the frame
  was passed on. Before each reading the DMA may have changed the handle, as the list says;
  \<open>None\<close> when the list ends before the task is back at its semaphore.
\<close>

fun input_frames ::
    "(nat \<Rightarrow> 'n \<Rightarrow> nat list option \<times> 'n) \<Rightarrow> (u8 list list \<Rightarrow> 'n \<Rightarrow> err_t \<times> 'n) \<Rightarrow> (u8 list list \<Rightarrow> 'n \<Rightarrow> 'n) \<Rightarrow>
     (eth \<Rightarrow> eth) list \<Rightarrow> ethif \<times> 'n \<Rightarrow> (ethif \<times> 'n) option" where
  "input_frames alloc inp free [] vn = None"
| "input_frames alloc inp free (e # es) (v, n) =
    (let (p, s, n) = low_level_input alloc (e (heth v), n);
         v = v\<lparr>heth := s, nesting := nesting v - 1\<rparr>
     in case p of None \<Rightarrow> Some (v, n)
        | Some p \<Rightarrow>
            let v = v\<lparr>nesting := nesting v + 1\<rparr>; (err, n) = inp p n
            in if err \<noteq> ERR_OK then Some (v\<lparr>nesting := nesting v - 1\<rparr>, free p n)
               else input_frames alloc inp free es (v\<lparr>s_xSemaphore := s_xSemaphore v - 1\<rparr>, n))"

definition ethernetif_input_turn ::
    "(nat \<Rightarrow> 'n \<Rightarrow> nat list option \<times> 'n) \<Rightarrow> (u8 list list \<Rightarrow> 'n \<Rightarrow> err_t \<times> 'n) \<Rightarrow> (u8 list list \<Rightarrow> 'n \<Rightarrow> 'n) \<Rightarrow>
     (eth \<Rightarrow> eth) list \<Rightarrow> ethif \<times> 'n \<Rightarrow> (ethif \<times> 'n) option" where
  "ethernetif_input_turn alloc inp free es vn =
    (let (v, n) = vn
     in if s_xSemaphore v = 0 then Some (v, n)
        else input_frames alloc inp free es
          (v\<lparr>s_xSemaphore := s_xSemaphore v - 1, nesting := nesting v + 1\<rparr>, n))"

end
