(* ===== verification/EthFrameSpec.thy ===== *)
theory EthFrameSpec
  imports EthFrame
begin

unbundle bit_operations_syntax

text \<open>
  What the link layer promises: a chain of LwIP becomes one frame of consecutive descriptors that
  the DMA reads back as the same bytes; the frames the DMA has put into the ring are passed on
  unchanged, in order, as far as there are packets for them and the stack takes them (\<open>pass_frames\<close>), and
  their descriptors go back to the DMA. The locale \<open>packet_source\<close> is what the input needs of the pool.
\<close>

section \<open>Rings of descriptors and buffers\<close>

text \<open>Eight chained descriptors; their buffers are one array.\<close>

definition ring :: "eth \<Rightarrow> u32 \<Rightarrow> u32 \<Rightarrow> bool" where
  "ring s tab buf \<longleftrightarrow> (\<forall>i < 8. next_desc s (desc_at tab i) = desc_at tab (Suc i mod 8) \<and>
     Buffer1Addr (descs s (desc_at tab i)) = buf + of_nat (1524 * i))"

lemma ring_at:
  assumes "ring s tab buf"
  shows "next_desc s (desc_at tab (i mod 8)) = desc_at tab (Suc i mod 8)"
    "Buffer1Addr (descs s (desc_at tab (i mod 8))) = buf + of_nat (1524 * (i mod 8))"
  using assms unfolding ring_def by (simp_all add: mod_Suc_eq)

lemma desc_at_inj: "i < 8 \<Longrightarrow> j < 8 \<Longrightarrow> desc_at tab i = desc_at tab j \<longleftrightarrow> i = j"
proof -
  assume "i < 8" "j < 8"
  then have "unat (of_nat (32 * i) :: u32) = 32 * i" "unat (of_nat (32 * j) :: u32) = 32 * j"
    by (simp_all add: unat_of_nat_u32 del: of_nat_mult)
  then show ?thesis unfolding desc_at_def by (metis add_left_cancel mult_cancel1 zero_neq_numeral)
qed

lemma ring_apart:
  assumes "x < 8" "y < 8" "x \<noteq> y"
  shows "desc_at tab ((i + x) mod 8) \<noteq> desc_at tab ((i + y) mod 8)"
proof -
  have "(i + x) mod 8 \<noteq> (i + y) mod 8"
    using mod_apart [of "i + x" "i + y" 8] mod_apart [of "i + y" "i + x" 8] assms by linarith
  then show ?thesis by (simp add: desc_at_inj)
qed

text \<open>The byte at a place of the array after a write.\<close>

lemma write_bytes_at:
  assumes "a < 2147483648" and "p + length bs < 2147483648"
  shows "write_bytes m (b + of_nat p) bs (b + of_nat a) =
    (if p \<le> a \<and> a < p + length bs then bs ! (a - p) else m (b + of_nat a))"
proof -
  have e: "b + of_nat a - (b + of_nat p) = of_nat a - (of_nat p :: u32)" by simp
  have u: "unat (of_nat a :: u32) = a" "unat (of_nat p :: u32) = p"
    using assms by (simp_all add: unat_of_nat_u32)
  show ?thesis
  proof (cases "p \<le> a")
    case True
    then have "unat (of_nat a - (of_nat p :: u32)) = a - p" by (simp add: unat_sub_if' u)
    then show ?thesis using True by (auto simp: write_bytes_def e)
  next
    case False
    then have "unat (of_nat a - (of_nat p :: u32)) = a + 4294967296 - p" by (simp add: unat_sub_if' u)
    then show ?thesis using False assms by (auto simp: write_bytes_def e)
  qed
qed

text \<open>A stream of bytes in the array, from a place on, around the end.\<close>

definition stored :: "memory \<Rightarrow> u32 \<Rightarrow> nat \<Rightarrow> u8 list \<Rightarrow> bool" where
  "stored m buf st xs \<longleftrightarrow> (\<forall>k < length xs. m (buf + of_nat ((st + k) mod 12192)) = xs ! k)"

lemma cells_stored_append:
  assumes "stored m buf st xs" and "length xs + length bs \<le> 12192"
    and p: "bs = [] \<or> p = (st + length xs) mod 12192 \<and> p + length bs \<le> 12192"
  shows "stored (write_bytes m (buf + of_nat p) bs) buf st (xs @ bs)"
proof (cases "bs = []")
  case True
  then show ?thesis using assms(1) by (simp add: stored_def write_bytes_def)
next
  case False
  then have p: "p = (st + length xs) mod 12192" "p + length bs \<le> 12192" using p by auto
  show ?thesis unfolding stored_def
  proof (intro allI impI)
    fix k assume k: "k < length (xs @ bs)"
    define a where "a = (st + k) mod 12192"
    have a: "a < 12192" by (simp add: a_def)
    have at: "write_bytes m (buf + of_nat p) bs (buf + of_nat a) =
      (if p \<le> a \<and> a < p + length bs then bs ! (a - p) else m (buf + of_nat a))"
      using a p(2) by (intro write_bytes_at) linarith+
    show "write_bytes m (buf + of_nat p) bs (buf + of_nat ((st + k) mod 12192)) = (xs @ bs) ! k"
    proof (cases "k < length xs")
      case True
      have "\<not> (p \<le> a \<and> a < p + length bs)"
      proof
        assume "p \<le> a \<and> a < p + length bs"
        then obtain i where i: "a = p + i" "i < length bs" by (metis le_iff_add nat_add_left_cancel_less)
        have "(st + length xs + i) mod 12192 = (p + i) mod 12192" unfolding p(1) by (simp add: mod_add_left_eq)
        then have "(st + length xs + i) mod 12192 = (st + k) mod 12192" using i p(2) unfolding a_def by simp
        then show False using mod_apart [of "st + k" "st + length xs + i" 12192] True i assms(2) by simp
      qed
      then have "write_bytes m (buf + of_nat p) bs (buf + of_nat a) = m (buf + of_nat a)"
        unfolding at by (rule if_not_P)
      then show ?thesis using True assms(1) by (simp add: stored_def a_def nth_append)
    next
      case False
      then obtain i where i: "k = length xs + i" "i < length bs"
        using k by (metis add_diff_inverse_nat length_append nat_add_left_cancel_less)
      have "a = (p + i) mod 12192" unfolding a_def p(1) i(1) by (simp add: mod_add_left_eq add.assoc)
      then have "a = p + i" using i p(2) by simp
      then show ?thesis using at i by (simp add: a_def nth_append)
    qed
  qed
qed

lemma stored_read:
  assumes "stored m buf st xs" and "k + n \<le> length xs" and "(st + k) mod 12192 = p" and "p + n \<le> 12192"
  shows "read_bytes m (buf + of_nat p) n = take n (drop k xs)"
proof (rule nth_equalityI)
  show "length (read_bytes m (buf + of_nat p) n) = length (take n (drop k xs))" using assms(2) by simp
next
  fix i assume "i < length (read_bytes m (buf + of_nat p) n)"
  then have i: "i < n" by simp
  have "(st + (k + i)) mod 12192 = (p + i) mod 12192" unfolding assms(3) [symmetric] by (simp add: mod_add_left_eq add.assoc)
  then have "(st + (k + i)) mod 12192 = p + i" using i assms(4) by simp
  then show "read_bytes m (buf + of_nat p) n ! i = take n (drop k xs) ! i"
    using assms(1,2) i unfolding stored_def read_bytes_def by (auto simp: add.assoc dest!: spec [of _ "k + i"])
qed

section \<open>Copying a chain\<close>

text \<open>The cursor after \<open>T\<close> bytes from descriptor \<open>i\<close> on, in the segment \<open>j\<close>.\<close>

definition cursor_at :: "u32 \<Rightarrow> u32 \<Rightarrow> nat \<Rightarrow> nat \<Rightarrow> nat \<Rightarrow> cursor \<Rightarrow> bool" where
  "cursor_at tab buf i j T c \<longleftrightarrow> DmaDesc c = desc_at tab ((i + j) mod 8) \<and>
     buf_addr c = buf + of_nat (1524 * ((i + j) mod 8)) \<and> bufferoffset c \<le> 1524 \<and>
     T = 1524 * j + bufferoffset c \<and> framelength c = of_nat T"

lemma cursor_place:
  fixes i j :: nat
  assumes "off < 1524"
  shows "1524 * ((i + j) mod 8) + off = (1524 * i + (1524 * j + off)) mod 12192"
proof -
  have "1524 * ((i + j) mod 8) = (1524 * (i + j)) mod 12192" using mult_mod_right [of 1524 "i + j" 8] by simp
  moreover have "1524 * ((i + j) mod 8) + off < 12192" using assms mod_less_divisor [of 8 "i + j"] by linarith
  ultimately have "1524 * ((i + j) mod 8) + off = ((1524 * (i + j)) mod 12192 + off) mod 12192" by simp
  also have "\<dots> = (1524 * (i + j) + off) mod 12192" by (rule mod_add_left_eq)
  finally show ?thesis by (simp add: distrib_left add.assoc)
qed

lemma tx_copy_spec:
  assumes "ring s tab buf" and "cursor_at tab buf i j (length xs) c" and "stored (ram s) buf (1524 * i) xs"
    and "length xs + length rest \<le> 12192" and "j = 0 \<or> 1524 * j < length xs + length rest"
  shows "\<exists>ok c' s'. tx_copy rest c s = (ok, c', s') \<and> (\<exists>m. s' = s\<lparr>ram := m\<rparr>) \<and>
    (ok \<longleftrightarrow> (\<forall>x. j < x \<and> 1524 * x < length xs + length rest \<longrightarrow>
        Status (descs s (desc_at tab ((i + x) mod 8))) AND ETH_DMATXDESC_OWN = 0)) \<and>
    (ok \<longrightarrow> stored (ram s') buf (1524 * i) (xs @ rest) \<and>
      (\<exists>j'. j \<le> j' \<and> cursor_at tab buf i j' (length xs + length rest) c' \<and>
        (j' = 0 \<or> 1524 * j' < length xs + length rest)))"
  using assms
proof (induction rest c s arbitrary: j xs rule: tx_copy.induct)
  case (1 rest c s)
  define off where "off = bufferoffset c"
  note ca = "1.prems"(2) [unfolded cursor_at_def, folded off_def]
  have B: "unat ETH_TX_BUF_SIZE = 1524" by (simp add: eth_consts)
  have addr: "buf_addr c + of_nat off = buf + of_nat (1524 * ((i + j) mod 8) + off)"
    using ca by simp
  have place: "bs = [] \<or> 1524 * ((i + j) mod 8) + off = (1524 * i + length xs) mod 12192 \<and>
      1524 * ((i + j) mod 8) + off + length bs \<le> 12192" if "off + length bs \<le> 1524" for bs :: "u8 list"
  proof (cases "bs = []")
    case False
    then have "off < 1524" using that by (cases bs) auto
    moreover have "1524 * ((i + j) mod 8) + 1524 \<le> 12192" using mod_less_divisor [of 8 "i + j"] by linarith
    ultimately show ?thesis using cursor_place [of off i j] ca that by simp
  qed simp
  show ?case
  proof (cases "1524 < length rest + off")
    case False
    define s' where "s' = s\<lparr>ram := write_bytes (ram s) (buf_addr c + of_nat off) rest\<rparr>"
    define c' where "c' = c\<lparr>bufferoffset := off + length rest, framelength := framelength c + of_nat (length rest)\<rparr>"
    have r: "tx_copy rest c s = (True, c', s')"
      using False B by (subst tx_copy.simps) (simp add: off_def c'_def s'_def)
    have "stored (ram s') buf (1524 * i) (xs @ rest)"
      using cells_stored_append [OF "1.prems"(3,4) place] False unfolding s'_def addr by simp
    moreover have "cursor_at tab buf i j (length xs + length rest) c'"
      using ca False unfolding cursor_at_def c'_def by auto
    moreover have "\<not> (j < x \<and> 1524 * x < length xs + length rest)" for x
      using ca False by (auto simp: not_less)
    ultimately show ?thesis using r "1.prems"(5) by (auto simp: s'_def)
  next
    case True
    define n where "n = 1524 - off"
    define s1 where "s1 = s\<lparr>ram := write_bytes (ram s) (buf_addr c + of_nat off) (take n rest)\<rparr>"
    define d where "d = next_desc s (DmaDesc c)"
    define c1 where "c1 = c\<lparr>DmaDesc := d, buf_addr := Buffer1Addr (descs s1 d), bufferoffset := 0,
      framelength := framelength c + of_nat n\<rparr>"
    have n: "n \<le> length rest" "off + n = 1524" using True ca by (auto simp: n_def)
    have d: "d = desc_at tab ((i + Suc j) mod 8)"
      using ring_at(1) [OF "1.prems"(1), of "i + j"] ca by (simp add: d_def mod_Suc_eq)
    have st: "Status (descs s1 d) = Status (descs s d)" by (simp add: s1_def)
    have r: "tx_copy rest c s = (if Status (descs s d) AND ETH_DMATXDESC_OWN \<noteq> 0 then (False, c\<lparr>DmaDesc := d\<rparr>, s1)
        else tx_copy (drop n rest) c1 s1)"
      using True B by (subst tx_copy.simps) (simp add: off_def n_def c1_def s1_def d_def Let_def next_desc_def)
    have len: "1524 * Suc j < length xs + length rest" using ca True by auto
    show ?thesis
    proof (cases "Status (descs s d) AND ETH_DMATXDESC_OWN = 0")
      case False
      then show ?thesis using r len d by (auto simp: s1_def)
    next
      case free: True
      have ring1: "ring s1 tab buf" using "1.prems"(1) by (simp add: ring_def s1_def next_desc_def)
      have stored1: "stored (ram s1) buf (1524 * i) (xs @ take n rest)"
        using cells_stored_append [OF "1.prems"(3) _ place [of "take n rest"]] "1.prems"(4) n unfolding s1_def addr by simp
      have len1: "length (xs @ take n rest) = 1524 * Suc j" using ca n by auto
      have "cursor_at tab buf i (Suc j) (length (xs @ take n rest)) c1"
        using len1 d ca ring_at(2) [OF ring1, of "i + Suc j"] n unfolding cursor_at_def c1_def by simp
      then have IH: "\<exists>ok c' s'. tx_copy (drop n rest) c1 s1 = (ok, c', s') \<and> (\<exists>m. s' = s1\<lparr>ram := m\<rparr>) \<and>
        (ok \<longleftrightarrow> (\<forall>x. Suc j < x \<and> 1524 * x < length (xs @ take n rest) + length (drop n rest) \<longrightarrow>
            Status (descs s1 (desc_at tab ((i + x) mod 8))) AND ETH_DMATXDESC_OWN = 0)) \<and>
        (ok \<longrightarrow> stored (ram s') buf (1524 * i) ((xs @ take n rest) @ drop n rest) \<and>
          (\<exists>j'. Suc j \<le> j' \<and> cursor_at tab buf i j' (length (xs @ take n rest) + length (drop n rest)) c' \<and>
            (j' = 0 \<or> 1524 * j' < length (xs @ take n rest) + length (drop n rest))))"
        unfolding c1_def s1_def
        by (intro "1.IH" [OF _ _ _ _ _ ring1 [unfolded s1_def] _ stored1 [unfolded s1_def]])
          (use True B free len n "1.prems"(4) in \<open>simp_all add: off_def n_def d_def next_desc_def\<close>)
      have e: "(xs @ take n rest) @ drop n rest = xs @ rest" "descs s1 = descs s"
        "length (xs @ take n rest) + length (drop n rest) = length xs + length rest"
        using n by (simp_all add: s1_def)
      have F: "Status (descs s (desc_at tab ((i + Suc j) mod 8))) AND ETH_DMATXDESC_OWN = 0" using free d by simp
      have first: "(\<forall>x. j < x \<and> 1524 * x < length xs + length rest \<longrightarrow>
            Status (descs s (desc_at tab ((i + x) mod 8))) AND ETH_DMATXDESC_OWN = 0) \<longleftrightarrow>
          (\<forall>x. Suc j < x \<and> 1524 * x < length xs + length rest \<longrightarrow>
            Status (descs s (desc_at tab ((i + x) mod 8))) AND ETH_DMATXDESC_OWN = 0)"
        using F by (metis Suc_lessD Suc_lessI)
      obtain ok c' s' m where R: "tx_copy (drop n rest) c1 s1 = (ok, c', s')" "s' = s1\<lparr>ram := m\<rparr>"
        "ok \<longleftrightarrow> (\<forall>x. Suc j < x \<and> 1524 * x < length xs + length rest \<longrightarrow>
            Status (descs s (desc_at tab ((i + x) mod 8))) AND ETH_DMATXDESC_OWN = 0)"
        "ok \<longrightarrow> stored (ram s') buf (1524 * i) (xs @ rest) \<and>
          (\<exists>j'. Suc j \<le> j' \<and> cursor_at tab buf i j' (length xs + length rest) c' \<and>
            (j' = 0 \<or> 1524 * j' < length xs + length rest))"
        using IH unfolding e by blast
      have "s' = s\<lparr>ram := m\<rparr>" using R(2) by (simp add: s1_def)
      moreover have "tx_copy rest c s = (ok, c', s')" using r free R(1) by simp
      ultimately show ?thesis
        using R(3,4) first Suc_leD by blast
    qed
  qed
qed

lemma tx_chain_spec:
  assumes "ring s tab buf" and "cursor_at tab buf i j (length xs) c" and "stored (ram s) buf (1524 * i) xs"
    and "length xs + length (concat p) \<le> 12192" and "j = 0 \<or> 1524 * j < length xs"
  shows "\<exists>ok c' s'. tx_chain p c s = (ok, c', s') \<and> (\<exists>m. s' = s\<lparr>ram := m\<rparr>) \<and>
    (ok \<longleftrightarrow> (\<forall>x. j < x \<and> 1524 * x < length xs + length (concat p) \<longrightarrow>
        Status (descs s (desc_at tab ((i + x) mod 8))) AND ETH_DMATXDESC_OWN = 0)) \<and>
    (ok \<longrightarrow> stored (ram s') buf (1524 * i) (xs @ concat p) \<and> framelength c' = of_nat (length xs + length (concat p)))"
  using assms
proof (induction p arbitrary: j xs c s)
  case Nil
  then have "\<not> (j < x \<and> 1524 * x < length xs)" for x by (auto simp: cursor_at_def)
  moreover have "s = s\<lparr>ram := ram s\<rparr>" by simp
  then have "\<exists>m. s = s\<lparr>ram := m\<rparr>" by blast
  moreover have "framelength c = of_nat (length xs)" using Nil.prems(2) by (simp add: cursor_at_def)
  ultimately show ?case using Nil.prems(3) by (simp, blast)
next
  case (Cons q p)
  have jq: "j = 0 \<or> 1524 * j < length xs + length q" using Cons.prems(5) by auto
  obtain ok c1 s1 m where R: "tx_copy q c s = (ok, c1, s1)" "s1 = s\<lparr>ram := m\<rparr>"
    "ok \<longleftrightarrow> (\<forall>x. j < x \<and> 1524 * x < length xs + length q \<longrightarrow>
        Status (descs s (desc_at tab ((i + x) mod 8))) AND ETH_DMATXDESC_OWN = 0)"
    "ok \<longrightarrow> stored (ram s1) buf (1524 * i) (xs @ q) \<and>
      (\<exists>j'. j \<le> j' \<and> cursor_at tab buf i j' (length xs + length q) c1 \<and> (j' = 0 \<or> 1524 * j' < length xs + length q))"
    using tx_copy_spec [OF Cons.prems(1-3) _ jq] Cons.prems(4) by fastforce
  show ?case
  proof (cases ok)
    case False
    then obtain x where "j < x" "1524 * x < length xs + length q"
      "Status (descs s (desc_at tab ((i + x) mod 8))) AND ETH_DMATXDESC_OWN \<noteq> 0" using R(3) by blast
    then have "j < x \<and> 1524 * x < length xs + length (concat (q # p)) \<and>
      Status (descs s (desc_at tab ((i + x) mod 8))) AND ETH_DMATXDESC_OWN \<noteq> 0" by simp
    then show ?thesis using R(1,2) False by auto
  next
    case True
    then obtain j' where j': "j \<le> j'" "cursor_at tab buf i j' (length (xs @ q)) c1"
      "j' = 0 \<or> 1524 * j' < length (xs @ q)" "stored (ram s1) buf (1524 * i) (xs @ q)"
      using R(4) by auto
    have ring1: "ring s1 tab buf" using Cons.prems(1) by (simp add: R(2) ring_def next_desc_def)
    have len: "length (xs @ q) + length (concat p) \<le> 12192" using Cons.prems(4) by simp
    have e: "(xs @ q) @ concat p = xs @ concat (q # p)" "descs s1 = descs s"
      "length (xs @ q) + length (concat p) = length xs + length (concat (q # p))" by (simp_all add: R(2))
    obtain ok2 c2 s2 m2 where S: "tx_chain p c1 s1 = (ok2, c2, s2)" "s2 = s1\<lparr>ram := m2\<rparr>"
      "ok2 \<longleftrightarrow> (\<forall>x. j' < x \<and> 1524 * x < length xs + length (concat (q # p)) \<longrightarrow>
          Status (descs s (desc_at tab ((i + x) mod 8))) AND ETH_DMATXDESC_OWN = 0)"
      "ok2 \<longrightarrow> stored (ram s2) buf (1524 * i) (xs @ concat (q # p)) \<and>
         framelength c2 = of_nat (length xs + length (concat (q # p)))"
      using Cons.IH [OF ring1 j'(2,4) len j'(3)] unfolding e by blast
    have "(\<forall>x. j < x \<and> 1524 * x < length xs + length (concat (q # p)) \<longrightarrow>
          Status (descs s (desc_at tab ((i + x) mod 8))) AND ETH_DMATXDESC_OWN = 0) \<longleftrightarrow> ok2"
      unfolding S(3)
    proof (intro iffI allI impI)
      fix x assume a: "\<forall>x. j' < x \<and> 1524 * x < length xs + length (concat (q # p)) \<longrightarrow>
          Status (descs s (desc_at tab ((i + x) mod 8))) AND ETH_DMATXDESC_OWN = 0"
        and x: "j < x \<and> 1524 * x < length xs + length (concat (q # p))"
      show "Status (descs s (desc_at tab ((i + x) mod 8))) AND ETH_DMATXDESC_OWN = 0"
      proof (cases "j' < x")
        case False
        then have "1524 * x < length xs + length q" using j'(3) x by auto
        then show ?thesis using R(3) True x by blast
      qed (use a x in blast)
    qed (use j'(1) in auto)
    then show ?thesis using R(1,2) S(1,2,4) True by auto
  qed
qed

section \<open>Handing over\<close>

lemma test_bit:
  fixes w :: u32
  shows "w AND 0x80000000 \<noteq> 0 \<longleftrightarrow> bit w 31" "w AND 0x20000000 \<noteq> 0 \<longleftrightarrow> bit w 29"
    "w AND 0x10000000 \<noteq> 0 \<longleftrightarrow> bit w 28" "w AND 0x00000100 \<noteq> 0 \<longleftrightarrow> bit w 8" "w AND 0x00000200 \<noteq> 0 \<longleftrightarrow> bit w 9"
  using bit_iff_and_push_bit_not_eq_0 [of w 31] bit_iff_and_push_bit_not_eq_0 [of w 29]
    bit_iff_and_push_bit_not_eq_0 [of w 28] bit_iff_and_push_bit_not_eq_0 [of w 8]
    bit_iff_and_push_bit_not_eq_0 [of w 9] by simp_all

definition seg_desc :: "u32 \<Rightarrow> u32 \<Rightarrow> nat \<Rightarrow> ETH_DMADesc \<Rightarrow> ETH_DMADesc" where
  "seg_desc L n i e = e\<lparr>
     ControlBufferSize := (if of_nat i = n - 1 then L - (n - 1) * ETH_TX_BUF_SIZE else ETH_TX_BUF_SIZE)
       AND ETH_DMATXDESC_TBS1,
     Status := (((Status e AND NOT (ETH_DMATXDESC_FS OR ETH_DMATXDESC_LS))
       OR (if i = 0 then ETH_DMATXDESC_FS else 0)) OR (if of_nat i = n - 1 then ETH_DMATXDESC_LS else 0))
       OR ETH_DMATXDESC_OWN\<rparr>"

lemma tx_segment_eq:
  "tx_segment L n i s = s\<lparr>descs := (descs s)(TxDesc s := seg_desc L n i (descs s (TxDesc s))),
     TxDesc := next_desc s (TxDesc s)\<rparr>"
proof -
  have "tx_segment L n i s = (let d = TxDesc s; s = upd_desc d (seg_desc L n i) s in s\<lparr>TxDesc := next_desc s d\<rparr>)"
    unfolding tx_segment_def Let_def
    by (cases "descs s (TxDesc s)") (auto simp: upd_desc_def seg_desc_def)
  then show ?thesis by (simp add: upd_desc_def next_desc_def Let_def seg_desc_def)
qed

lemma tx_segments:
  assumes "ring s tab buf" and "TxDesc s = desc_at tab (i mod 8)" and "m \<le> 8"
  shows "\<exists>D. fold (tx_segment L n) [0..<m] s = s\<lparr>descs := D, TxDesc := desc_at tab ((i + m) mod 8)\<rparr> \<and>
    (\<forall>x < 8. D (desc_at tab ((i + x) mod 8)) = (if x < m then seg_desc L n x else id) (descs s (desc_at tab ((i + x) mod 8)))) \<and>
    (\<forall>a. (\<forall>x < 8. a \<noteq> desc_at tab x) \<longrightarrow> D a = descs s a)"
  using assms(3)
proof (induction m)
  case 0
  show ?case using assms(2) by (intro exI [of _ "descs s"]) simp
next
  case (Suc m)
  obtain D where D: "fold (tx_segment L n) [0..<m] s = s\<lparr>descs := D, TxDesc := desc_at tab ((i + m) mod 8)\<rparr>"
    "\<forall>x < 8. D (desc_at tab ((i + x) mod 8)) = (if x < m then seg_desc L n x else id) (descs s (desc_at tab ((i + x) mod 8)))"
    "\<forall>a. (\<forall>x < 8. a \<noteq> desc_at tab x) \<longrightarrow> D a = descs s a"
    using Suc by auto
  let ?d = "desc_at tab ((i + m) mod 8)"
  have m: "m < 8" using Suc.prems by simp
  have Dm: "D ?d = descs s ?d" using D(2) m by simp
  have nx: "Buffer2NextDescAddr (D ?d) = desc_at tab ((i + Suc m) mod 8)"
    using ring_at(1) [OF assms(1), of "i + m"] unfolding Dm next_desc_def by simp
  have "fold (tx_segment L n) [0..<Suc m] s =
      s\<lparr>descs := D(?d := seg_desc L n m (D ?d)), TxDesc := desc_at tab ((i + Suc m) mod 8)\<rparr>"
    using D(1) nx by (simp add: tx_segment_eq next_desc_def)
  moreover have "\<forall>x < 8. (D(?d := seg_desc L n m (D ?d))) (desc_at tab ((i + x) mod 8)) =
      (if x < Suc m then seg_desc L n x else id) (descs s (desc_at tab ((i + x) mod 8)))"
    using D(2) Dm m ring_apart [of _ m tab i] by (auto simp: less_Suc_eq)
  moreover have "\<forall>a. (\<forall>x < 8. a \<noteq> desc_at tab x) \<longrightarrow> (D(?d := seg_desc L n m (D ?d))) a = descs s a"
    using D(3) by simp
  ultimately show ?case by blast
qed

text \<open>How many descriptors a frame takes, and how much of it is in one.\<close>

definition segs :: "nat \<Rightarrow> nat" where
  "segs L = (L + 1523) div 1524"

definition seg_size :: "nat \<Rightarrow> nat \<Rightarrow> nat" where
  "seg_size L x = (if Suc x = segs L then L - 1524 * x else 1524)"

lemma segs_bounds: "0 < L \<Longrightarrow> 0 < segs L" "L \<le> 12192 \<Longrightarrow> segs L \<le> 8" "x < segs L \<longleftrightarrow> x * 1524 < L"
  unfolding segs_def by (simp_all add: div_le_mono [of _ "8 * 1524 + 1523" 1524, simplified]) linarith+

lemma seg_size_le: "x < segs L \<Longrightarrow> seg_size L x \<le> 1524" "x < segs L \<Longrightarrow> 1524 * x + seg_size L x \<le> L"
  "0 < L \<Longrightarrow> Suc x = segs L \<Longrightarrow> 1524 * x + seg_size L x = L"
  unfolding seg_size_def segs_def by auto

text \<open>What the DMA finds: the segment \<open>x\<close> of a frame of \<open>L\<close> bytes.\<close>

definition handed :: "nat \<Rightarrow> nat \<Rightarrow> ETH_DMADesc \<Rightarrow> ETH_DMADesc \<Rightarrow> bool" where
  "handed L x e e' \<longleftrightarrow> Status e' AND ETH_DMATXDESC_OWN \<noteq> 0 \<and>
     (Status e' AND ETH_DMATXDESC_FS \<noteq> 0 \<longleftrightarrow> x = 0) \<and> (Status e' AND ETH_DMATXDESC_LS \<noteq> 0 \<longleftrightarrow> Suc x = segs L) \<and>
     unat (ControlBufferSize e' AND ETH_DMATXDESC_TBS1) = seg_size L x \<and>
     Buffer1Addr e' = Buffer1Addr e \<and> Buffer2NextDescAddr e' = Buffer2NextDescAddr e"

lemma tbs1: "unat (of_nat n AND ETH_DMATXDESC_TBS1) = n" if "n < 8192"
proof -
  have "(of_nat n :: u32) AND ETH_DMATXDESC_TBS1 = take_bit 13 (of_nat n)"
    by (simp add: ETH_DMATXDESC_TBS1_def take_bit_eq_mask mask_eq_exp_minus_1)
  then have "unat ((of_nat n :: u32) AND ETH_DMATXDESC_TBS1) = take_bit 13 n"
    using that by (simp add: unsigned_take_bit_eq unat_of_nat_u32)
  then show ?thesis using that by (simp add: take_bit_nat_eq_self)
qed

lemma seg_handed:
  assumes "x < segs L" and "L \<le> 12192"
  shows "handed L x e (seg_desc (of_nat L) (of_nat (segs L)) x e)"
proof -
  have k: "0 < segs L" "segs L \<le> 8" using assms segs_bounds(2) [of L] by auto
  have n1: "of_nat (segs L) - 1 = (of_nat (segs L - 1) :: u32)" using k by (simp add: of_nat_diff)
  have u: "unat (of_nat x :: u32) = x" "unat (of_nat (segs L - 1) :: u32) = segs L - 1"
    using assms(1) k by (simp_all add: unat_of_nat_u32 del: of_nat_diff)
  have last: "of_nat x = of_nat (segs L) - (1 :: u32) \<longleftrightarrow> Suc x = segs L"
    unfolding n1 word_unat_eq_iff u using assms(1) by auto
  have sz: "(if Suc x = segs L then of_nat L - (of_nat (segs L) - 1) * ETH_TX_BUF_SIZE else ETH_TX_BUF_SIZE) =
      (of_nat (seg_size L x) :: u32)"
  proof (cases "Suc x = segs L")
    case True
    have "1524 * x \<le> L" using seg_size_le(2) [OF assms(1)] by simp
    then have "of_nat (seg_size L x) = of_nat L - (of_nat (1524 * x) :: u32)"
      using True by (simp add: seg_size_def of_nat_diff)
    moreover have "segs L - 1 = x" using True by simp
    ultimately show ?thesis using True by (simp add: n1 eth_consts del: of_nat_mult) (simp add: mult.commute)
  qed (simp add: seg_size_def eth_consts)
  have "seg_size L x < 8192" using seg_size_le(1) [OF assms(1)] by simp
  then show ?thesis
    unfolding handed_def seg_desc_def last sz
    using test_bit by (auto simp: tbs1 ETH_DMATXDESC_OWN_def ETH_DMATXDESC_FS_def ETH_DMATXDESC_LS_def bit_simps)
qed

lemma bufcount_segs:
  assumes "0 < L" and "L \<le> 12192"
  shows "(if ETH_TX_BUF_SIZE < of_nat L then of_nat L div ETH_TX_BUF_SIZE +
      (if of_nat L mod ETH_TX_BUF_SIZE \<noteq> 0 then 1 else 0) else 1) = (of_nat (segs L) :: u32)"
proof -
  have u: "unat (of_nat L :: u32) = L" "unat ETH_TX_BUF_SIZE = 1524"
    using assms(2) by (simp_all add: unat_of_nat_u32 eth_consts)
  have l: "L mod 1524 < 4294967296" using mod_less_divisor [of 1524 L] by linarith
  have "of_nat L div ETH_TX_BUF_SIZE = (of_nat (L div 1524) :: u32)"
    "of_nat L mod ETH_TX_BUF_SIZE = (of_nat (L mod 1524) :: u32)"
    by (simp_all add: word_arith_nat_div word_arith_nat_mod u del: of_nat_div of_nat_mod)
  moreover have "(of_nat (L mod 1524) :: u32) = 0 \<longleftrightarrow> L mod 1524 = 0"
    using unat_of_nat_u32 [OF l] unat_eq_zero [of "of_nat (L mod 1524) :: u32"] by simp
  moreover have "ETH_TX_BUF_SIZE < of_nat L \<longleftrightarrow> 1524 < L" by (simp add: word_less_nat_alt u)
  moreover have "segs L = L div 1524 + (if L mod 1524 \<noteq> 0 then 1 else 0)"
  proof -
    obtain q r where q: "L = 1524 * q + r" "r < 1524" "L div 1524 = q" "L mod 1524 = r"
      using mult_div_mod_eq [of 1524 L, symmetric] mod_less_divisor [OF zero_less_numeral, of L] by blast
    show ?thesis
    proof (cases "r = 0")
      case True
      have "segs L = q" unfolding segs_def using q(1,2) True by (intro div_nat_eqI) simp_all
      then show ?thesis using True q by simp
    next
      case False
      have "segs L = q + 1" unfolding segs_def using q(1,2) False by (intro div_nat_eqI) simp_all
      then show ?thesis using False q by simp
    qed
  qed
  moreover have "\<not> 1524 < L \<Longrightarrow> segs L = 1" unfolding segs_def using assms(1) by auto
  ultimately show ?thesis by auto
qed

lemma TransmitFrame_spec:
  assumes ring: "ring s tab buf" and tx: "TxDesc s = desc_at tab i" "i < 8" and L: "0 < L" "L \<le> 12192"
    and free: "\<not> Lock s" "Status (descs s (desc_at tab i)) AND ETH_DMATXDESC_OWN = 0"
  shows "\<exists>s'. HAL_ETH_TransmitFrame (of_nat L) s = (HAL_OK, s') \<and> TxDesc s' = desc_at tab ((i + segs L) mod 8) \<and>
    ram s' = ram s \<and> \<not> Lock s' \<and> ring s' tab buf \<and>
    (\<forall>x < 8. if x < segs L
       then handed L x (descs s (desc_at tab ((i + x) mod 8))) (descs s' (desc_at tab ((i + x) mod 8)))
       else descs s' (desc_at tab ((i + x) mod 8)) = descs s (desc_at tab ((i + x) mod 8))) \<and>
    (\<forall>a. (\<forall>x < 8. a \<noteq> desc_at tab x) \<longrightarrow> descs s' a = descs s a)"
proof -
  let ?n = "of_nat (segs L) :: u32"
  define s1 where "s1 = s\<lparr>Lock := True, eth_State := HAL_ETH_STATE_BUSY\<rparr>"
  define F where "F = (\<lambda>s. (let s = (if DMASR s AND ETH_DMASR_TBUS \<noteq> 0
      then (write_DMASR ETH_DMASR_TBUS s)\<lparr>DMATPDR_writes := DMATPDR_writes s + 1\<rparr> else s)
    in s\<lparr>eth_State := HAL_ETH_STATE_READY, Lock := False\<rparr>))"
  have F: "TxDesc (F s) = TxDesc s" "ram (F s) = ram s" "descs (F s) = descs s" "\<not> Lock (F s)" for s
    by (simp_all add: F_def Let_def write_DMASR_def)
  have k: "0 < segs L" "segs L \<le> 8" using segs_bounds L by auto
  have L0: "(of_nat L :: u32) \<noteq> 0" using unat_of_nat_u32 [of L] L by auto
  have one: "?n = 1 \<longleftrightarrow> segs L = 1" using k unat_of_nat_u32 [of "segs L"] by (auto simp: word_unat_eq_iff)
  have un: "unat ?n = segs L" using k by (simp add: unat_of_nat_u32)
  have ring1: "ring s1 tab buf" using ring by (simp add: ring_def s1_def next_desc_def)
  have tx1: "TxDesc s1 = desc_at tab (i mod 8)" using tx by (simp add: s1_def)
  have run: "HAL_ETH_TransmitFrame (of_nat L) s = (HAL_OK, F (if segs L = 1 then
       let d = TxDesc s1;
           s = upd_desc d (\<lambda>e. e\<lparr>Status := Status e OR ETH_DMATXDESC_FS OR ETH_DMATXDESC_LS,
                 ControlBufferSize := of_nat L AND ETH_DMATXDESC_TBS1\<rparr>) s1;
           s = upd_desc d (\<lambda>e. e\<lparr>Status := Status e OR ETH_DMATXDESC_OWN\<rparr>) s
       in s\<lparr>TxDesc := next_desc s d\<rparr>
     else fold (tx_segment (of_nat L) ?n) [0..<segs L] s1))"
    using free tx(1) L0 one unfolding HAL_ETH_TransmitFrame_def bufcount_segs [OF L] un
    by (cases "segs L = 1") (simp_all add: un Let_def F_def s1_def del: One_nat_def)
  have "\<exists>D. (if segs L = 1 then
       let d = TxDesc s1;
           s = upd_desc d (\<lambda>e. e\<lparr>Status := Status e OR ETH_DMATXDESC_FS OR ETH_DMATXDESC_LS,
                 ControlBufferSize := of_nat L AND ETH_DMATXDESC_TBS1\<rparr>) s1;
           s = upd_desc d (\<lambda>e. e\<lparr>Status := Status e OR ETH_DMATXDESC_OWN\<rparr>) s
       in s\<lparr>TxDesc := next_desc s d\<rparr>
     else fold (tx_segment (of_nat L) ?n) [0..<segs L] s1) =
       s1\<lparr>descs := D, TxDesc := desc_at tab ((i + segs L) mod 8)\<rparr> \<and>
    (\<forall>x < 8. if x < segs L then handed L x (descs s (desc_at tab ((i + x) mod 8))) (D (desc_at tab ((i + x) mod 8)))
       else D (desc_at tab ((i + x) mod 8)) = descs s (desc_at tab ((i + x) mod 8))) \<and>
    (\<forall>a. (\<forall>x < 8. a \<noteq> desc_at tab x) \<longrightarrow> D a = descs s a)"
  proof (cases "segs L = 1")
    case True
    let ?d = "desc_at tab i"
    let ?e = "(descs s ?d)\<lparr>ControlBufferSize := of_nat L AND ETH_DMATXDESC_TBS1,
      Status := (Status (descs s ?d) OR ETH_DMATXDESC_FS OR ETH_DMATXDESC_LS) OR ETH_DMATXDESC_OWN\<rparr>"
    have nx: "Buffer2NextDescAddr (descs s ?d) = desc_at tab ((i + 1) mod 8)"
      using ring_at(1) [OF ring, of i] tx(2) by (simp add: next_desc_def)
    have size: "seg_size L 0 = L" "L < 8192" using True L by (simp_all add: seg_size_def segs_def)
    have "handed L 0 (descs s ?d) ?e"
      unfolding handed_def using True test_bit size
      by (auto simp: tbs1 ETH_DMATXDESC_OWN_def ETH_DMATXDESC_FS_def ETH_DMATXDESC_LS_def bit_simps)
    moreover have "x \<noteq> 0 \<Longrightarrow> x < 8 \<Longrightarrow> desc_at tab ((i + x) mod 8) \<noteq> ?d" for x
      using ring_apart [of x 0 tab i] tx(2) by simp
    ultimately show ?thesis
      using True tx nx
      by (intro exI [of _ "(descs s)(?d := ?e)"]) (auto simp: upd_desc_def Let_def s1_def next_desc_def)
  next
    case False
    obtain D where D: "fold (tx_segment (of_nat L) ?n) [0..<segs L] s1 =
        s1\<lparr>descs := D, TxDesc := desc_at tab ((i + segs L) mod 8)\<rparr>"
      "\<forall>x < 8. D (desc_at tab ((i + x) mod 8)) =
         (if x < segs L then seg_desc (of_nat L) ?n x else id) (descs s1 (desc_at tab ((i + x) mod 8)))"
      "\<forall>a. (\<forall>x < 8. a \<noteq> desc_at tab x) \<longrightarrow> D a = descs s1 a"
      using tx_segments [OF ring1 tx1 k(2), of "of_nat L" ?n] by blast
    have d1: "descs s1 = descs s" by (simp add: s1_def)
    show ?thesis
      using False D seg_handed [OF _ L(2)] unfolding d1 by (intro exI [of _ D]) simp
  qed
  then obtain D where D: "HAL_ETH_TransmitFrame (of_nat L) s =
      (HAL_OK, F (s1\<lparr>descs := D, TxDesc := desc_at tab ((i + segs L) mod 8)\<rparr>))"
    "\<forall>x < 8. if x < segs L then handed L x (descs s (desc_at tab ((i + x) mod 8))) (D (desc_at tab ((i + x) mod 8)))
       else D (desc_at tab ((i + x) mod 8)) = descs s (desc_at tab ((i + x) mod 8))"
    "\<forall>a. (\<forall>x < 8. a \<noteq> desc_at tab x) \<longrightarrow> D a = descs s a"
    using run by auto
  let ?s = "F (s1\<lparr>descs := D, TxDesc := desc_at tab ((i + segs L) mod 8)\<rparr>)"
  have same: "Buffer1Addr (D (desc_at tab ((i + x) mod 8))) = Buffer1Addr (descs s (desc_at tab ((i + x) mod 8)))"
    "Buffer2NextDescAddr (D (desc_at tab ((i + x) mod 8))) = Buffer2NextDescAddr (descs s (desc_at tab ((i + x) mod 8)))"
    if "x < 8" for x
    using D(2) [rule_format, OF that] by (auto simp: handed_def split: if_splits)
  have "ring ?s tab buf"
    unfolding ring_def next_desc_def F
  proof (intro allI impI)
    fix y :: nat assume y: "y < 8"
    define x where "x = (y + 8 - i) mod 8"
    have x: "x < 8" by (simp add: x_def)
    have "(i + x) mod 8 = y" using y tx(2) unfolding x_def by (simp add: mod_add_right_eq)
    then show "Buffer2NextDescAddr (descs (s1\<lparr>descs := D, TxDesc := desc_at tab ((i + segs L) mod 8)\<rparr>) (desc_at tab y)) = desc_at tab (Suc y mod 8) \<and>
        Buffer1Addr (descs (s1\<lparr>descs := D, TxDesc := desc_at tab ((i + segs L) mod 8)\<rparr>) (desc_at tab y)) = buf + of_nat (1524 * y)"
      using same [OF x] ring y by (simp add: ring_def next_desc_def)
  qed
  then show ?thesis using D F by (simp add: s1_def)
qed

text \<open>How the DMA reads a frame: from a descriptor on, each must be its own, the first and only the
  first marked as first, until one is marked as last.\<close>

fun dma_frame :: "nat \<Rightarrow> bool \<Rightarrow> eth \<Rightarrow> u32 \<Rightarrow> u8 list option" where
  "dma_frame 0 first s d = None"
| "dma_frame (Suc n) first s d =
    (let e = descs s d; bs = read_bytes (ram s) (Buffer1Addr e) (unat (ControlBufferSize e AND ETH_DMATXDESC_TBS1))
     in if Status e AND ETH_DMATXDESC_OWN = 0 \<or> (Status e AND ETH_DMATXDESC_FS \<noteq> 0) \<noteq> first then None
        else if Status e AND ETH_DMATXDESC_LS \<noteq> 0 then Some bs
        else map_option ((@) bs) (dma_frame n False s (next_desc s d)))"

lemma dma_frame_handed:
  assumes ring: "ring s tab buf" and ys: "stored (ram s) buf (1524 * i) ys" "length ys \<le> 12192"
    and h: "\<forall>x < segs (length ys). handed (length ys) x (D x) (descs s (desc_at tab ((i + x) mod 8)))"
    and x: "x < segs (length ys)" "segs (length ys) \<le> x + n"
  shows "dma_frame n (x = 0) s (desc_at tab ((i + x) mod 8)) = Some (drop (1524 * x) ys)"
  using x
proof (induction n arbitrary: x)
  case 0
  then show ?case by simp
next
  case (Suc n)
  let ?L = "length ys" and ?e = "descs s (desc_at tab ((i + x) mod 8))"
  note H = h [rule_format, OF Suc.prems(1), unfolded handed_def]
  note sz = seg_size_le [of x ?L] 
  have pos: "0 < ?L" using Suc.prems(1) by (cases "?L = 0") (auto simp: segs_def)
  have "1524 * ((i + x) mod 8) + 1524 \<le> 12192" using mod_less_divisor [of 8 "i + x"] by linarith
  moreover have "(1524 * i + 1524 * x) mod 12192 = 1524 * ((i + x) mod 8)"
    using cursor_place [of 0 i x] by simp
  ultimately have rd: "read_bytes (ram s) (Buffer1Addr ?e) (seg_size ?L x) = take (seg_size ?L x) (drop (1524 * x) ys)"
    using stored_read [OF ys(1), of "1524 * x" "seg_size ?L x"] sz(1,2) Suc.prems(1)
      ring_at(2) [OF ring, of "i + x"] by simp
  show ?case
  proof (cases "Suc x = segs ?L")
    case True
    then have "seg_size ?L x = length (drop (1524 * x) ys)" using seg_size_le(3) [OF pos True] by simp
    then show ?thesis using True H rd by (simp add: Let_def)
  next
    case False
    then have lt: "Suc x < segs ?L" using Suc.prems(1) by simp
    have "dma_frame n (Suc x = 0) s (desc_at tab ((i + Suc x) mod 8)) = Some (drop (1524 * Suc x) ys)"
      using Suc.IH [OF lt] Suc.prems(2) by simp
    then have IH: "dma_frame n False s (next_desc s (desc_at tab ((i + x) mod 8))) = Some (drop (1524 * Suc x) ys)"
      using ring_at(1) [OF ring, of "i + x"] by simp
    have "seg_size ?L x = 1524" using False by (simp add: seg_size_def)
    then have "take (seg_size ?L x) (drop (1524 * x) ys) @ drop (1524 * Suc x) ys = drop (1524 * x) ys"
      by (metis add.commute append_take_drop_id drop_drop mult_Suc_right)
    then show ?thesis using False H rd IH by (simp add: Let_def)
  qed
qed

lemma output_error_sel:
  assumes "output_error e v = (r, v')"
  shows "r = e" "descs (heth v') = descs (heth v)" "ram (heth v') = ram (heth v)" "TxDesc (heth v') = TxDesc (heth v)"
    "Lock (heth v') = Lock (heth v)" "ousem v' = map_option sem_signal (ousem v)"
  using assms by (auto simp: output_error_def Let_def write_DMASR_def split: if_splits)

lemma ring_cong: "descs s' = descs s \<Longrightarrow> ring s' tab buf = ring s tab buf"
  by (simp add: ring_def next_desc_def)

lemma dma_frame_cong: "descs s' = descs s \<Longrightarrow> ram s' = ram s \<Longrightarrow> dma_frame n f s' d = dma_frame n f s d"
  by (induction n arbitrary: f d) (simp_all add: Let_def next_desc_def)

text \<open>What \<open>low_level_output\<close> does when the current descriptor is free: it copies until a descriptor
  of the DMA is in the way, and hands over what it has copied.\<close>

lemma output_run:
  assumes ring: "ring (heth v) tab buf" and tx: "TxDesc (heth v) = desc_at tab i" "i < 8"
    and L: "length (concat p) \<le> 12192" and one: "ousem v \<in> {None, Some 1}"
    and own: "Status (descs (heth v) (desc_at tab i)) AND ETH_DMATXDESC_OWN = 0"
  shows "\<exists>ok w m. ousem w = Some 0 \<and> low_level_output p v = Some (if ok
      then output_error ERR_OK (w\<lparr>heth := snd (HAL_ETH_TransmitFrame (of_nat (length (concat p))) ((heth v)\<lparr>ram := m\<rparr>))\<rparr>)
      else output_error ERR_USE (w\<lparr>heth := (heth v)\<lparr>ram := m\<rparr>\<rparr>)) \<and>
    (ok \<longleftrightarrow> (\<forall>x. 0 < x \<and> 1524 * x < length (concat p) \<longrightarrow>
        Status (descs (heth v) (desc_at tab ((i + x) mod 8))) AND ETH_DMATXDESC_OWN = 0)) \<and>
    (ok \<longrightarrow> stored m buf (1524 * i) (concat p))"
proof -
  define v1 where "v1 = (if ousem v = None then v\<lparr>ousem := Some (sem_signal 0)\<rparr> else v)"
  let ?s = "heth v"
  let ?c = "\<lparr>DmaDesc = desc_at tab i, buf_addr = Buffer1Addr (descs ?s (desc_at tab i)), bufferoffset = 0, framelength = 0\<rparr>"
  have v1: "ousem v1 = Some 1" "heth v1 = ?s" using one by (auto simp: v1_def sem_signal_def)
  have c: "cursor_at tab buf i 0 (length ([] :: u8 list)) ?c"
    using ring_at(2) [OF ring, of i] tx(2) by (simp add: cursor_at_def)
  have st0: "stored (ram ?s) buf (1524 * i) []" by (simp add: stored_def)
  have len0: "length ([] :: u8 list) + length (concat p) \<le> 12192" using L by simp
  have j0: "(0 :: nat) = 0 \<or> 1524 * 0 < length ([] :: u8 list)" by simp
  obtain ok c' s' m where C: "tx_chain p ?c ?s = (ok, c', s')" "s' = ?s\<lparr>ram := m\<rparr>"
    "ok \<longleftrightarrow> (\<forall>x. 0 < x \<and> 1524 * x < length (concat p) \<longrightarrow>
        \<not> Status (descs ?s (desc_at tab ((i + x) mod 8))) AND ETH_DMATXDESC_OWN \<noteq> 0)"
    "ok \<longrightarrow> stored (ram s') buf (1524 * i) (concat p) \<and> framelength c' = of_nat (length (concat p))"
    using tx_chain_spec [OF ring c st0 len0 j0] unfolding list.size append_Nil add_0 by blast
  have "low_level_output p v = Some (if ok
      then output_error ERR_OK (v1\<lparr>ousem := Some 0, heth := snd (HAL_ETH_TransmitFrame (framelength c') s')\<rparr>)
      else output_error ERR_USE (v1\<lparr>ousem := Some 0, heth := s'\<rparr>))"
    using own C(1) tx v1 by (simp add: low_level_output_def Let_def v1_def [symmetric])
  then have R: "low_level_output p v = Some (if ok
      then output_error ERR_OK (v1\<lparr>ousem := Some 0, heth := snd (HAL_ETH_TransmitFrame (of_nat (length (concat p))) (?s\<lparr>ram := m\<rparr>))\<rparr>)
      else output_error ERR_USE (v1\<lparr>ousem := Some 0, heth := ?s\<lparr>ram := m\<rparr>\<rparr>))"
    using C(2,4) by (cases ok) simp_all
  have "ok \<longrightarrow> stored m buf (1524 * i) (concat p)" using C(2,4) by simp
  with R C(3) show ?thesis
    by (intro exI [of _ ok] exI [of _ "v1\<lparr>ousem := Some 0\<rparr>"] exI [of _ m]) simp_all
qed

lemma frame_sent:
  assumes ring: "ring s tab buf" and tx: "TxDesc s = desc_at tab i" "i < 8" and L: "0 < length ys" "length ys \<le> 12192"
    and lock: "\<not> Lock s" and own: "Status (descs s (desc_at tab i)) AND ETH_DMATXDESC_OWN = 0"
    and st: "stored (ram s) buf (1524 * i) ys"
  shows "\<exists>t. HAL_ETH_TransmitFrame (of_nat (length ys)) s = (HAL_OK, t) \<and>
    dma_frame (segs (length ys)) True t (desc_at tab i) = Some ys \<and>
    TxDesc t = desc_at tab ((i + segs (length ys)) mod 8) \<and> ring t tab buf \<and> \<not> Lock t \<and>
    (\<forall>x. segs (length ys) \<le> x \<and> x < 8 \<longrightarrow>
       descs t (desc_at tab ((i + x) mod 8)) = descs s (desc_at tab ((i + x) mod 8)))"
proof -
  obtain t where T: "HAL_ETH_TransmitFrame (of_nat (length ys)) s = (HAL_OK, t)"
    "TxDesc t = desc_at tab ((i + segs (length ys)) mod 8)" "ram t = ram s" "\<not> Lock t" "ring t tab buf"
    "\<forall>x < 8. if x < segs (length ys)
      then handed (length ys) x (descs s (desc_at tab ((i + x) mod 8))) (descs t (desc_at tab ((i + x) mod 8)))
      else descs t (desc_at tab ((i + x) mod 8)) = descs s (desc_at tab ((i + x) mod 8))"
    using TransmitFrame_spec [OF ring tx L lock own] by blast
  have h: "\<forall>x < segs (length ys). handed (length ys) x
      (descs s (desc_at tab ((i + x) mod 8))) (descs t (desc_at tab ((i + x) mod 8)))"
    using T(6) segs_bounds(2) [OF L(2)] by (auto dest!: spec)
  have "dma_frame (segs (length ys)) (0 = (0 :: nat)) t (desc_at tab ((i + 0) mod 8)) = Some (drop (1524 * 0) ys)"
    using st T(3) L segs_bounds(1) [OF L(1)] by (intro dma_frame_handed [OF T(5) _ _ h]) simp_all
  moreover have "segs (length ys) \<le> x \<Longrightarrow> x < 8 \<Longrightarrow>
      descs t (desc_at tab ((i + x) mod 8)) = descs s (desc_at tab ((i + x) mod 8))" for x
    using T(6) by (metis not_le)
  ultimately show ?thesis using T tx(2) by auto
qed

lemma output_busy:
  assumes "Status (descs (heth v) (TxDesc (heth v))) AND ETH_DMATXDESC_OWN \<noteq> 0" and "ousem v \<in> {None, Some 1}"
  shows "\<exists>v'. low_level_output p v = Some (ERR_USE, v') \<and> ousem v' = Some 1 \<and>
    descs (heth v') = descs (heth v) \<and> TxDesc (heth v') = TxDesc (heth v)"
proof -
  define v1 where "v1 = (if ousem v = None then v\<lparr>ousem := Some (sem_signal 0)\<rparr> else v)"
  have v1: "ousem v1 = Some 1" "heth v1 = heth v" using assms(2) by (auto simp: v1_def sem_signal_def)
  obtain r v' where O: "output_error ERR_USE v1 = (r, v')" by fastforce
  have "low_level_output p v = Some (r, v')"
    using assms(1) O v1 by (simp add: low_level_output_def Let_def v1_def [symmetric])
  then show ?thesis using output_error_sel [OF O] v1 by (simp add: sem_signal_def)
qed

text \<open>C8: \<open>low_level_output\<close> on a chain of LwIP that fits the ring, however its bytes are cut into
  buffers: when the descriptors it needs are free, the DMA finds from the current descriptor on
  one frame, cut into segments of 1524 bytes with the first and the last marked, whose bytes are the
  bytes of the chain; the ring stays a ring, the next frame will start behind this one, and the other
  descriptors are as before. When one of them still belongs to the DMA the result is
  \<open>ERR_USE\<close> and no descriptor changes.\<close>

theorem output_hands_over:
  assumes ring: "ring (heth v) tab buf" and tx: "TxDesc (heth v) = desc_at tab i" "i < 8"
    and L: "0 < length (concat p)" "length (concat p) \<le> 12192"
    and free: "\<not> Lock (heth v)" "ousem v \<in> {None, Some 1}"
  shows "\<exists>r v'. low_level_output p v = Some (r, v') \<and> ousem v' = Some 1 \<and>
    (if \<forall>x < segs (length (concat p)). Status (descs (heth v) (desc_at tab ((i + x) mod 8))) AND ETH_DMATXDESC_OWN = 0
     then r = ERR_OK \<and> dma_frame (segs (length (concat p))) True (heth v') (desc_at tab i) = Some (concat p) \<and>
       TxDesc (heth v') = desc_at tab ((i + segs (length (concat p))) mod 8) \<and>
       ring (heth v') tab buf \<and> \<not> Lock (heth v') \<and>
       (\<forall>x. segs (length (concat p)) \<le> x \<and> x < 8 \<longrightarrow>
          descs (heth v') (desc_at tab ((i + x) mod 8)) = descs (heth v) (desc_at tab ((i + x) mod 8)))
     else r = ERR_USE \<and> descs (heth v') = descs (heth v) \<and> TxDesc (heth v') = desc_at tab i)"
proof (cases "Status (descs (heth v) (desc_at tab i)) AND ETH_DMATXDESC_OWN = 0")
  case False
  then have "\<not> (\<forall>x < segs (length (concat p)). Status (descs (heth v) (desc_at tab ((i + x) mod 8))) AND ETH_DMATXDESC_OWN = 0)"
    using segs_bounds(1) [OF L(1)] tx(2) by (auto intro!: exI [of _ 0])
  then show ?thesis using output_busy [of v p] False free(2) tx(1) by auto
next
  case True
  let ?L = "length (concat p)" and ?s = "heth v"
  obtain ok w m where R: "ousem w = Some 0" "low_level_output p v = Some (if ok
      then output_error ERR_OK (w\<lparr>heth := snd (HAL_ETH_TransmitFrame (of_nat ?L) (?s\<lparr>ram := m\<rparr>))\<rparr>)
      else output_error ERR_USE (w\<lparr>heth := ?s\<lparr>ram := m\<rparr>\<rparr>))"
    "ok \<longleftrightarrow> (\<forall>x. 0 < x \<and> 1524 * x < ?L \<longrightarrow> Status (descs ?s (desc_at tab ((i + x) mod 8))) AND ETH_DMATXDESC_OWN = 0)"
    "ok \<longrightarrow> stored m buf (1524 * i) (concat p)"
    using output_run [OF ring tx L(2) free(2) True] by blast
  have ok: "ok \<longleftrightarrow> (\<forall>x < segs ?L. Status (descs ?s (desc_at tab ((i + x) mod 8))) AND ETH_DMATXDESC_OWN = 0)"
    unfolding R(3) using True tx(2) segs_bounds(3) [of _ ?L] by (metis add_0_right mod_less mult.commute neq0_conv)
  show ?thesis
  proof (cases ok)
    case False
    obtain r v' where O: "output_error ERR_USE (w\<lparr>heth := ?s\<lparr>ram := m\<rparr>\<rparr>) = (r, v')" by fastforce
    show ?thesis using R(1,2) False O output_error_sel [OF O] ok tx(1) by (simp add: sem_signal_def)
  next
    case True2: True
    have s: "ring (?s\<lparr>ram := m\<rparr>) tab buf" "TxDesc (?s\<lparr>ram := m\<rparr>) = desc_at tab i" "\<not> Lock (?s\<lparr>ram := m\<rparr>)"
      "Status (descs (?s\<lparr>ram := m\<rparr>) (desc_at tab i)) AND ETH_DMATXDESC_OWN = 0"
      "stored (ram (?s\<lparr>ram := m\<rparr>)) buf (1524 * i) (concat p)"
      using ring tx free True R(4) True2 ring_cong [of "?s\<lparr>ram := m\<rparr>" ?s] by simp_all
    note T = frame_sent [OF s(1,2) tx(2) L s(3-5)]
    then obtain t where T: "HAL_ETH_TransmitFrame (of_nat ?L) (?s\<lparr>ram := m\<rparr>) = (HAL_OK, t)"
      "dma_frame (segs ?L) True t (desc_at tab i) = Some (concat p)" "TxDesc t = desc_at tab ((i + segs ?L) mod 8)"
      "ring t tab buf" "\<not> Lock t" "\<forall>x. segs ?L \<le> x \<and> x < 8 \<longrightarrow>
        descs t (desc_at tab ((i + x) mod 8)) = descs ?s (desc_at tab ((i + x) mod 8))" by auto
    obtain r v' where O: "output_error ERR_OK (w\<lparr>heth := t\<rparr>) = (r, v')" by fastforce
    note S = output_error_sel [OF O]
    have D: "descs (heth v') = descs t" "ram (heth v') = ram t" using S by simp_all
    show ?thesis
      using R(1,2) True2 ok O T S ring_cong [OF D(1)] dma_frame_cong [OF D] by (simp add: sem_signal_def)
  qed
qed

section \<open>The rings at the start\<close>

text \<open>A loop that writes the descriptors of the ring one after the other.\<close>

lemma init_ring:
  assumes step: "\<And>j s. j < 8 \<Longrightarrow> step j s = s\<lparr>descs := (descs s)(desc_at tab j := g j (ChecksumMode s) (RxMode s) (descs s (desc_at tab j)))\<rparr>"
    and "m \<le> 8"
  shows "\<exists>D. fold step [0..<m] s = s\<lparr>descs := D\<rparr> \<and> (\<forall>j < 8. D (desc_at tab j) =
    (if j < m then g j (ChecksumMode s) (RxMode s) (descs s (desc_at tab j)) else descs s (desc_at tab j))) \<and>
    (\<forall>a. (\<forall>x < 8. a \<noteq> desc_at tab x) \<longrightarrow> D a = descs s a)"
  using assms(2)
proof (induction m)
  case 0
  have "fold step [0..<0] s = s\<lparr>descs := descs s\<rparr>" by simp
  then show ?case by (intro exI [of _ "descs s"]) simp
next
  case (Suc m)
  then obtain D where D: "fold step [0..<m] s = s\<lparr>descs := D\<rparr>" "\<forall>j < 8. D (desc_at tab j) =
      (if j < m then g j (ChecksumMode s) (RxMode s) (descs s (desc_at tab j)) else descs s (desc_at tab j))"
    "\<forall>a. (\<forall>x < 8. a \<noteq> desc_at tab x) \<longrightarrow> D a = descs s a" by auto
  let ?D = "D(desc_at tab m := g m (ChecksumMode s) (RxMode s) (D (desc_at tab m)))"
  have m: "m < 8" using Suc.prems by simp
  have "fold step [0..<Suc m] s = s\<lparr>descs := ?D\<rparr>" using D(1) step [OF m] by simp
  moreover have "\<forall>j < 8. ?D (desc_at tab j) =
      (if j < Suc m then g j (ChecksumMode s) (RxMode s) (descs s (desc_at tab j)) else descs s (desc_at tab j))"
    using D(2) m by (auto simp: less_Suc_eq desc_at_inj)
  moreover have "\<forall>a. (\<forall>x < 8. a \<noteq> desc_at tab x) \<longrightarrow> ?D a = descs s a" using D(3) m by auto
  ultimately show ?case by blast
qed

definition tx_new :: "u32 \<Rightarrow> u32 \<Rightarrow> nat \<Rightarrow> u32 \<Rightarrow> u32 \<Rightarrow> ETH_DMADesc \<Rightarrow> ETH_DMADesc" where
  "tx_new tab buf j c r e = e\<lparr>Status := if c = ETH_CHECKSUM_BY_HARDWARE
       then ETH_DMATXDESC_TCH OR ETH_DMATXDESC_CHECKSUMTCPUDPICMPFULL else ETH_DMATXDESC_TCH,
     Buffer1Addr := buf + of_nat j * ETH_TX_BUF_SIZE,
     Buffer2NextDescAddr := if j < 7 then desc_at tab (j + 1) else tab\<rparr>"

definition rx_new :: "u32 \<Rightarrow> u32 \<Rightarrow> nat \<Rightarrow> u32 \<Rightarrow> u32 \<Rightarrow> ETH_DMADesc \<Rightarrow> ETH_DMADesc" where
  "rx_new tab buf j c r e = e\<lparr>Status := ETH_DMARXDESC_OWN,
     ControlBufferSize := if r = ETH_RXINTERRUPT_MODE
       then (ETH_DMARXDESC_RCH OR ETH_RX_BUF_SIZE) AND NOT ETH_DMARXDESC_DIC else ETH_DMARXDESC_RCH OR ETH_RX_BUF_SIZE,
     Buffer1Addr := buf + of_nat j * ETH_RX_BUF_SIZE,
     Buffer2NextDescAddr := if j < 7 then desc_at tab (j + 1) else tab\<rparr>"

lemma tx_desc_init_eq:
  "tx_desc_init tab buf 8 j s =
    s\<lparr>descs := (descs s)(desc_at tab j := tx_new tab buf j (ChecksumMode s) (RxMode s) (descs s (desc_at tab j)))\<rparr>"
  by (cases "descs s (desc_at tab j)") (simp add: tx_desc_init_def upd_desc_def tx_new_def Let_def)

lemma rx_desc_init_eq:
  "rx_desc_init tab buf 8 j s =
    s\<lparr>descs := (descs s)(desc_at tab j := rx_new tab buf j (ChecksumMode s) (RxMode s) (descs s (desc_at tab j)))\<rparr>"
  by (cases "descs s (desc_at tab j)") (simp add: rx_desc_init_def upd_desc_def rx_new_def Let_def)

lemma new_ring:
  assumes D: "\<And>j. j < 8 \<Longrightarrow> Buffer1Addr (descs s (desc_at tab j)) = buf + of_nat j * 1524 \<and>
      Buffer2NextDescAddr (descs s (desc_at tab j)) = (if j < 7 then desc_at tab (j + 1) else tab)"
  shows "ring s tab buf"
proof -
  have "(if j < 7 then desc_at tab (j + 1) else tab) = desc_at tab (Suc j mod 8)" if "j < 8" for j :: nat
    using that by (cases "j = 7") (auto simp: desc_at_def)
  then show ?thesis using D by (simp add: ring_def next_desc_def mult.commute)
qed

lemma tx_init_spec:
  assumes "\<not> Lock s"
  shows "\<exists>s'. HAL_ETH_DMATxDescListInit tab buf ETH_TXBUFNB s = (HAL_OK, s') \<and> ring s' tab buf \<and>
    TxDesc s' = tab \<and> DMATDLAR s' = tab \<and> \<not> Lock s' \<and> RxDesc s' = RxDesc s \<and> RxFrameInfos s' = RxFrameInfos s \<and>
    RxMode s' = RxMode s \<and> ram s' = ram s \<and>
    (\<forall>j < 8. Status (descs s' (desc_at tab j)) AND ETH_DMATXDESC_OWN = 0) \<and>
    (\<forall>a. (\<forall>x < 8. a \<noteq> desc_at tab x) \<longrightarrow> descs s' a = descs s a)"
proof -
  define s1 where "s1 = s\<lparr>Lock := True, eth_State := HAL_ETH_STATE_BUSY, TxDesc := tab\<rparr>"
  obtain D where D: "fold (tx_desc_init tab buf 8) [0..<8] s1 = s1\<lparr>descs := D\<rparr>"
    "\<forall>j < 8. D (desc_at tab j) = tx_new tab buf j (ChecksumMode s1) (RxMode s1) (descs s1 (desc_at tab j))"
    "\<forall>a. (\<forall>x < 8. a \<noteq> desc_at tab x) \<longrightarrow> D a = descs s1 a"
    using init_ring [of "tx_desc_init tab buf 8" tab "tx_new tab buf" 8 s1, OF tx_desc_init_eq] by auto
  define s' where "s' = s1\<lparr>descs := D, DMATDLAR := tab, eth_State := HAL_ETH_STATE_READY, Lock := False\<rparr>"
  have "HAL_ETH_DMATxDescListInit tab buf ETH_TXBUFNB s = (HAL_OK, s')"
    using assms D(1) by (simp add: HAL_ETH_DMATxDescListInit_def ETH_TXBUFNB_def s1_def s'_def Let_def)
  moreover have "ring s' tab buf" using D(2) by (intro new_ring) (simp add: s'_def tx_new_def eth_consts)
  ultimately show ?thesis
    using D(2,3) by (simp add: s'_def s1_def tx_new_def ETH_DMATXDESC_OWN_def ETH_DMATXDESC_TCH_def
        ETH_DMATXDESC_CHECKSUMTCPUDPICMPFULL_def)
qed

lemma rx_init_spec:
  assumes "\<not> Lock s"
  shows "\<exists>s'. HAL_ETH_DMARxDescListInit tab buf ETH_RXBUFNB s = (HAL_OK, s') \<and> ring s' tab buf \<and>
    RxDesc s' = tab \<and> DMARDLAR s' = tab \<and> \<not> Lock s' \<and> TxDesc s' = TxDesc s \<and> DMATDLAR s' = DMATDLAR s \<and> RxFrameInfos s' = RxFrameInfos s \<and> ram s' = ram s \<and>
    (\<forall>j < 8. Status (descs s' (desc_at tab j)) AND ETH_DMARXDESC_OWN \<noteq> 0 \<and>
       ControlBufferSize (descs s' (desc_at tab j)) = ETH_DMARXDESC_RCH OR 1524) \<and>
    (\<forall>a. (\<forall>x < 8. a \<noteq> desc_at tab x) \<longrightarrow> descs s' a = descs s a)"
proof -
  define s1 where "s1 = s\<lparr>Lock := True, eth_State := HAL_ETH_STATE_BUSY, RxDesc := tab\<rparr>"
  obtain D where D: "fold (rx_desc_init tab buf 8) [0..<8] s1 = s1\<lparr>descs := D\<rparr>"
    "\<forall>j < 8. D (desc_at tab j) = rx_new tab buf j (ChecksumMode s1) (RxMode s1) (descs s1 (desc_at tab j))"
    "\<forall>a. (\<forall>x < 8. a \<noteq> desc_at tab x) \<longrightarrow> D a = descs s1 a"
    using init_ring [of "rx_desc_init tab buf 8" tab "rx_new tab buf" 8 s1, OF rx_desc_init_eq] by auto
  define s' where "s' = s1\<lparr>descs := D, DMARDLAR := tab, eth_State := HAL_ETH_STATE_READY, Lock := False\<rparr>"
  have "HAL_ETH_DMARxDescListInit tab buf ETH_RXBUFNB s = (HAL_OK, s')"
    using assms D(1) by (simp add: HAL_ETH_DMARxDescListInit_def ETH_RXBUFNB_def s1_def s'_def Let_def)
  moreover have "ring s' tab buf" using D(2) by (intro new_ring) (simp add: s'_def rx_new_def eth_consts)
  ultimately show ?thesis
    using D(2,3) by (simp add: s'_def s1_def rx_new_def ETH_DMARXDESC_OWN_def ETH_DMARXDESC_RCH_def
        ETH_DMARXDESC_DIC_def eth_consts)
qed

section \<open>Receiving\<close>

lemma rx_copy_inside: "off + left \<le> 1524 \<Longrightarrow>
    rx_copy left d buffer off s = (read_bytes (ram s) (buffer + of_nat off) left, d, buffer, off + left)"
  by (subst rx_copy.simps) (simp add: eth_consts)

text \<open>A frame cut into buffers of the given lengths.\<close>

fun cut_into :: "nat list \<Rightarrow> u8 list \<Rightarrow> u8 list list" where
  "cut_into [] f = []"
| "cut_into (l # ls) f = take l f # cut_into ls (drop l f)"

lemma concat_cut: "sum_list ls = length f \<Longrightarrow> concat (cut_into ls f) = f"
  by (induction ls f rule: cut_into.induct) auto

lemma rx_chain_inside:
  "off + sum_list ls \<le> 1524 \<Longrightarrow>
    rx_chain ls d buffer off s = cut_into ls (read_bytes (ram s) (buffer + of_nat off) (sum_list ls))"
proof (induction ls arbitrary: off)
  case (Cons l ls)
  then have "rx_chain ls d buffer (off + l) s = cut_into ls (read_bytes (ram s) (buffer + of_nat (off + l)) (sum_list ls))"
    by simp
  then show ?case
    using Cons.prems by (simp add: rx_copy_inside read_bytes_append add.assoc)
qed simp

text \<open>A descriptor in which the DMA has left a whole frame; its length field counts the checksum.\<close>

definition holds_frame :: "eth \<Rightarrow> u32 \<Rightarrow> u8 list \<Rightarrow> bool" where
  "holds_frame s d f \<longleftrightarrow> Status (descs s d) AND ETH_DMARXDESC_OWN = 0 \<and> Status (descs s d) AND ETH_DMARXDESC_LS \<noteq> 0 \<and>
     drop_bit 16 (Status (descs s d) AND ETH_DMARXDESC_FL) = of_nat (length f + 4) \<and>
     0 < length f \<and> length f \<le> 1520 \<and> read_bytes (ram s) (Buffer1Addr (descs s d)) (length f) = f"

text \<open>The frames that wait in the ring, the oldest first; the other descriptors belong to the DMA.\<close>

definition waiting :: "eth \<Rightarrow> u32 \<Rightarrow> u32 \<Rightarrow> nat \<Rightarrow> u8 list list \<Rightarrow> bool" where
  "waiting s tab buf i fs \<longleftrightarrow> ring s tab buf \<and> i < 8 \<and> RxDesc s = desc_at tab i \<and>
     SegCount (RxFrameInfos s) = 0 \<and> \<not> Lock s \<and> length fs \<le> 8 \<and>
     (\<forall>x < 8. if x < length fs then holds_frame s (desc_at tab ((i + x) mod 8)) (fs ! x)
        else Status (descs s (desc_at tab ((i + x) mod 8))) AND ETH_DMARXDESC_OWN \<noteq> 0)"

lemma input_empty:
  assumes "waiting s tab buf i []"
  shows "\<exists>s'. low_level_input alloc (s, n) = (None, s', n) \<and> waiting s' tab buf i []"
proof -
  have "Status (descs s (desc_at tab ((i + 0) mod 8))) AND ETH_DMARXDESC_OWN \<noteq> 0"
    using assms unfolding waiting_def by (auto dest!: spec [of _ 0])
  then have "Status (descs s (RxDesc s)) AND ETH_DMARXDESC_OWN \<noteq> 0" "\<not> Lock s"
    using assms by (auto simp: waiting_def)
  then have "low_level_input alloc (s, n) = (None, s\<lparr>eth_State := HAL_ETH_STATE_READY, Lock := False\<rparr>, n)"
    by (simp add: low_level_input_def HAL_ETH_GetReceivedFrame_def Let_def)
  moreover have "waiting (s\<lparr>eth_State := HAL_ETH_STATE_READY, Lock := False\<rparr>) tab buf i []"
    using assms by (simp add: waiting_def ring_def next_desc_def)
  ultimately show ?thesis by blast
qed

lemma frame_length: "n \<le> 1520 \<Longrightarrow> (ucast (of_nat (n + 4) - 4 :: u32) :: u16) = of_nat n"
  "n \<le> 1520 \<Longrightarrow> unat (of_nat n :: u16) = n"
proof -
  show "(ucast (of_nat (n + 4) - 4 :: u32) :: u16) = of_nat n"
    by (rule word_unat_eq_iff [THEN iffD2]) (simp add: unat_ucast_u32_u16 unsigned_of_nat take_bit_eq_mod mod_mod_cancel)
  show "n \<le> 1520 \<Longrightarrow> unat (of_nat n :: u16) = n"
    by (simp add: unsigned_of_nat take_bit_nat_eq_self)
qed

lemma input_takes:
  assumes w: "waiting s tab buf i (f # fs)" and a: "alloc (length f) n = (q, n')"
    and q: "\<And>ls. q = Some ls \<Longrightarrow> sum_list ls = length f"
  shows "\<exists>p s'. low_level_input alloc (s, n) = (p, s', n') \<and> p = map_option (\<lambda>ls. cut_into ls f) q \<and>
    waiting s' tab buf (Suc i mod 8) fs"
proof -
  let ?d = "desc_at tab i" and ?nx = "desc_at tab (Suc i mod 8)"
  have W: "ring s tab buf" "i < 8" "RxDesc s = ?d" "SegCount (RxFrameInfos s) = 0" "\<not> Lock s" "length fs < 8"
    using w by (simp_all add: waiting_def)
  have all: "if x < length (f # fs) then holds_frame s (desc_at tab ((i + x) mod 8)) ((f # fs) ! x)
        else Status (descs s (desc_at tab ((i + x) mod 8))) AND ETH_DMARXDESC_OWN \<noteq> 0" if "x < 8" for x
    using w that unfolding waiting_def by blast
  have "holds_frame s ?d f" using all [of 0] W(2) by simp
  note H = this [unfolded holds_frame_def]
  have nx: "Buffer2NextDescAddr (descs s ?d) = ?nx" using ring_at(1) [OF W(1), of i] W(2) by (simp add: next_desc_def)
  define info where "info = \<lparr>FSRxDesc = ?d, LSRxDesc = ?d, SegCount = 1, rx_length = of_nat (length f + 4) - 4,
    rx_buffer = Buffer1Addr (descs s ?d)\<rparr>"
  define s1 where "s1 = s\<lparr>RxFrameInfos := info, RxDesc := ?nx, eth_State := HAL_ETH_STATE_READY, Lock := False\<rparr>"
  have get: "HAL_ETH_GetReceivedFrame s = (HAL_OK, s1)"
    using W H nx by (simp add: HAL_ETH_GetReceivedFrame_def s1_def info_def next_desc_def Let_def)
  define s2 where "s2 = (upd_desc ?d (\<lambda>e. e\<lparr>Status := Status e OR ETH_DMARXDESC_OWN\<rparr>) s1)
    \<lparr>RxFrameInfos := info\<lparr>SegCount := 0\<rparr>\<rparr>"
  define s3 where "s3 = (if DMASR s2 AND ETH_DMASR_RBUS \<noteq> 0
     then (write_DMASR ETH_DMASR_RBUS s2)\<lparr>DMARPDR_writes := DMARPDR_writes s2 + 1\<rparr> else s2)"
  define p where "p = map_option (\<lambda>ls. rx_chain ls ?d (Buffer1Addr (descs s ?d)) 0 s1) q"
  have pos: "(0 :: u16) < of_nat (length f)" using frame_length(2) [of "length f"] H by (simp add: word_less_nat_alt)
  have in_eq: "low_level_input alloc (s, n) = (p, s3, n')"
    using frame_length [of "length f"] H a pos
    by (simp add: low_level_input_def get Let_def s1_def info_def p_def s2_def s3_def upd_desc_def)
  have "p = map_option (\<lambda>ls. cut_into ls f) q"
    using q rx_chain_inside [of 0 _ ?d "Buffer1Addr (descs s ?d)" s1] H
    by (cases q) (auto simp: p_def s1_def)
  moreover have D: "descs s3 = (descs s)(?d := (descs s ?d)\<lparr>Status := Status (descs s ?d) OR ETH_DMARXDESC_OWN\<rparr>)"
    "RxDesc s3 = ?nx" "SegCount (RxFrameInfos s3) = 0" "\<not> Lock s3" "ram s3 = ram s"
    by (simp_all add: s3_def s2_def s1_def upd_desc_def write_DMASR_def)
  have own: "(Status (descs s ?d) OR ETH_DMARXDESC_OWN) AND ETH_DMARXDESC_OWN \<noteq> 0"
    using test_bit(1) by (simp add: ETH_DMARXDESC_OWN_def bit_simps)
  have "waiting s3 tab buf (Suc i mod 8) fs"
    unfolding waiting_def
  proof (intro conjI allI impI)
    show "ring s3 tab buf" using W(1,2) by (auto simp: ring_def next_desc_def D(1) desc_at_inj)
    fix x :: nat assume x: "x < 8"
    have sh: "(Suc i mod 8 + x) mod 8 = (i + Suc x) mod 8" by (simp add: mod_simps)
    show "if x < length fs then holds_frame s3 (desc_at tab ((Suc i mod 8 + x) mod 8)) (fs ! x)
        else Status (descs s3 (desc_at tab ((Suc i mod 8 + x) mod 8))) AND ETH_DMARXDESC_OWN \<noteq> 0"
    proof (cases "x = 7")
      case True
      then have "(i + Suc x) mod 8 = i" using W(2) by simp
      then show ?thesis using W(6) True own unfolding sh by (simp add: D(1))
    next
      case False
      then have "desc_at tab ((i + Suc x) mod 8) \<noteq> ?d" using ring_apart [of "Suc x" 0 tab i] x W(2) by simp
      then show ?thesis using all [of "Suc x"] False x unfolding sh by (cases "x < length fs") (simp_all add: holds_frame_def D)
    qed
  qed (use W D in auto)
  ultimately show ?thesis using in_eq by blast
qed

text \<open>
  What the input task does with the frames in the ring, without the ring: it takes one after the
  other; one for which there is no packet is lost and ends the turn, as does one that \<open>netif->input\<close>
  does not take, whose packet is freed. The results are the frames left in the ring, how
  many were taken, and the state of the pool and the stack.
\<close>

fun pass_frames ::
    "(nat \<Rightarrow> 'n \<Rightarrow> nat list option \<times> 'n) \<Rightarrow> (u8 list list \<Rightarrow> 'n \<Rightarrow> err_t \<times> 'n) \<Rightarrow> (u8 list list \<Rightarrow> 'n \<Rightarrow> 'n) \<Rightarrow>
     u8 list list \<Rightarrow> 'n \<Rightarrow> u8 list list \<times> nat \<times> 'n" where
  "pass_frames alloc inp free [] n = ([], 0, n)"
| "pass_frames alloc inp free (f # fs) n =
    (case alloc (length f) n of
       (None, n) \<Rightarrow> (fs, 0, n)
     | (Some ls, n) \<Rightarrow>
         (case inp (cut_into ls f) n of
            (err, n) \<Rightarrow>
              if err \<noteq> ERR_OK then (fs, 0, free (cut_into ls f) n)
              else (case pass_frames alloc inp free fs n of (left, k, n) \<Rightarrow> (left, Suc k, n))))"

lemma pass_frames_left: "length (fst (pass_frames alloc inp free fs n)) \<le> length fs"
  by (induction alloc inp free fs n rule: pass_frames.induct) (auto split: prod.split option.split, force)

text \<open>
  The pool of packets as the driver sees it: as long as the pool is in order, a packet has
  exactly the length asked for, and the pool stays in order.
\<close>

locale packet_source =
  fixes ready :: "'n \<Rightarrow> bool"
    and alloc :: "nat \<Rightarrow> 'n \<Rightarrow> nat list option \<times> 'n"
  assumes alloc_ready: "ready n \<Longrightarrow> ready (snd (alloc l n))"
    and alloc_length: "ready n \<Longrightarrow> l < 65536 \<Longrightarrow> alloc l n = (Some ls, n') \<Longrightarrow> sum_list ls = l"
begin

lemma input_frames_spec:
  assumes "waiting (heth v) tab buf i fs" and "length fs < m" and "0 < nesting v" and "ready n"
    and inp: "\<And>p n. ready n \<Longrightarrow> ready (snd (inp p n))"
    and P: "pass_frames alloc inp free fs n = (left, k, n')"
  shows "\<exists>v'. input_frames alloc inp free (replicate m (\<lambda>s. s)) (v, n) = Some (v', n') \<and>
    waiting (heth v') tab buf ((i + (length fs - length left)) mod 8) left \<and> nesting v' = nesting v - 1 \<and>
    s_xSemaphore v' = s_xSemaphore v - k \<and> ousem v' = ousem v"
  using assms(1-4) P
proof (induction fs arbitrary: v i m n k)
  case Nil
  obtain s' where s': "low_level_input alloc (heth v, n) = (None, s', n)" "waiting s' tab buf i []"
    using input_empty [OF Nil(1), of alloc n] by blast
  obtain m' where m: "m = Suc m'" using Nil(2) by (cases m) auto
  have "i < 8" using Nil(1) by (simp add: waiting_def)
  then show ?case using s' Nil(3,5) by (auto simp: m Let_def)
next
  case (Cons f fs)
  obtain m' where m: "m = Suc m'" "length fs < m'" using Cons.prems(2) by (cases m) auto
  have i: "i < 8" and f: "length f < 65536" using Cons.prems(1)
    by (auto simp: waiting_def holds_frame_def dest!: spec [of _ 0])
  obtain q n1 where a: "alloc (length f) n = (q, n1)" by fastforce
  have r1: "ready n1" using alloc_ready [OF Cons.prems(4), of "length f"] by (simp add: a)
  obtain s' where s': "low_level_input alloc (heth v, n) = (map_option (\<lambda>ls. cut_into ls f) q, s', n1)"
    "waiting s' tab buf (Suc i mod 8) fs"
    using input_takes [where alloc = alloc, OF Cons.prems(1) a] alloc_length [OF Cons.prems(4) f] a by blast
  have one: "length (f # fs) - length fs = 1" "i + 1 = Suc i" by simp_all
  show ?case
  proof (cases q)
    case None
    then have "left = fs" "k = 0" "n' = n1" using Cons.prems(5) a by simp_all
    then show ?thesis using s' None one by (simp add: m(1) Let_def)
  next
    case (Some ls)
    obtain err n2 where e: "inp (cut_into ls f) n1 = (err, n2)" by fastforce
    have r2: "ready n2" using inp [OF r1, of "cut_into ls f"] by (simp add: e)
    show ?thesis
    proof (cases "err = ERR_OK")
      case False
      then have "left = fs" "k = 0" "n' = free (cut_into ls f) n2" using Cons.prems(5) a Some e by simp_all
      then show ?thesis using s' Some one e False by (simp add: m(1) Let_def)
    next
      case True
      obtain k0 where k0: "pass_frames alloc inp free fs n2 = (left, k0, n')" "k = Suc k0"
        using Cons.prems(5) a Some e True by (auto split: prod.splits)
      let ?v = "v\<lparr>heth := s', nesting := nesting v - 1 + 1, s_xSemaphore := s_xSemaphore v - 1\<rparr>"
      have "waiting (heth ?v) tab buf (Suc i mod 8) fs" "0 < nesting ?v" using s'(2) by simp_all
      from Cons.IH [OF this(1) m(2) this(2) r2 k0(1)]
      obtain v' where v': "input_frames alloc inp free (replicate m' (\<lambda>s. s)) (?v, n2) = Some (v', n')"
        "waiting (heth v') tab buf ((Suc i mod 8 + (length fs - length left)) mod 8) left" "nesting v' = nesting ?v - 1"
        "s_xSemaphore v' = s_xSemaphore ?v - k0" "ousem v' = ousem ?v" by blast
      have "length left \<le> length fs" using pass_frames_left [of alloc inp free fs n2] by (simp add: k0(1))
      then have "Suc i + (length fs - length left) = i + (length (f # fs) - length left)" by simp
      then have "(Suc i mod 8 + (length fs - length left)) mod 8 = (i + (length (f # fs) - length left)) mod 8"
        by (metis mod_add_left_eq)
      moreover have "input_frames alloc inp free (replicate m (\<lambda>s. s)) (v, n) =
          input_frames alloc inp free (replicate m' (\<lambda>s. s)) (?v, n2)"
        using s'(1) Some e True by (simp add: m(1) Let_def)
      ultimately show ?thesis using v' Cons.prems(3) k0(2) by auto
    qed
  qed
qed

lemma input_turn_spec:
  assumes "waiting (heth v) tab buf i fs" and "0 < s_xSemaphore v" and "length fs < m" and "ready n"
    and "\<And>p n. ready n \<Longrightarrow> ready (snd (inp p n))"
    and "pass_frames alloc inp free fs n = (left, k, n')"
  shows "\<exists>v'. ethernetif_input_turn alloc inp free (replicate m (\<lambda>s. s)) (v, n) = Some (v', n') \<and>
    waiting (heth v') tab buf ((i + (length fs - length left)) mod 8) left \<and>
    s_xSemaphore v' = s_xSemaphore v - 1 - k \<and> nesting v' = nesting v"
proof -
  let ?v = "v\<lparr>s_xSemaphore := s_xSemaphore v - 1, nesting := nesting v + 1\<rparr>"
  have w: "waiting (heth ?v) tab buf i fs" "0 < nesting ?v" using assms(1) by simp_all
  show ?thesis
    using input_frames_spec [OF w(1) assms(3) w(2) assms(4-6)] assms(2)
    by (auto simp: ethernetif_input_turn_def)
qed

end

text \<open>The critical sections of the input task balance, whatever the DMA, the pool and the stack do:
  the jump into the critical section leaves it once per entry.\<close>

lemma input_frames_balanced:
  "input_frames alloc inp free es (v, n) = Some (v', n') \<Longrightarrow> 0 < nesting v \<Longrightarrow> nesting v' = nesting v - 1"
proof (induction es arbitrary: v n)
  case Nil
  then show ?case by simp
next
  case (Cons e es)
  obtain p s n1 where L: "low_level_input alloc (e (heth v), n) = (p, s, n1)" by (rule prod_cases3)
  show ?case
  proof (cases p)
    case None
    then show ?thesis using Cons.prems L by auto
  next
    case (Some q)
    obtain err n2 where I: "inp q n1 = (err, n2)" by fastforce
    show ?thesis
      using Cons.prems Cons.IH [of "v\<lparr>heth := s, nesting := nesting v - 1 + 1, s_xSemaphore := s_xSemaphore v - 1\<rparr>" n2]
        Some L I by (auto simp: Let_def split: if_splits)
  qed
qed

section \<open>Both rings\<close>

lemma rings_spec:
  assumes "\<not> Lock s" and apart: "\<And>x y. x < 8 \<Longrightarrow> y < 8 \<Longrightarrow> desc_at tt x \<noteq> desc_at rt y"
  shows "\<exists>s1 s2. HAL_ETH_DMATxDescListInit tt tb ETH_TXBUFNB s = (HAL_OK, s1) \<and>
    HAL_ETH_DMARxDescListInit rt rb ETH_RXBUFNB s1 = (HAL_OK, s2) \<and>
    ring s2 tt tb \<and> TxDesc s2 = tt \<and> DMATDLAR s2 = tt \<and> (\<forall>j < 8. Status (descs s2 (desc_at tt j)) AND ETH_DMATXDESC_OWN = 0) \<and>
    ring s2 rt rb \<and> RxDesc s2 = rt \<and> DMARDLAR s2 = rt \<and>
    (\<forall>j < 8. Status (descs s2 (desc_at rt j)) AND ETH_DMARXDESC_OWN \<noteq> 0 \<and>
       ControlBufferSize (descs s2 (desc_at rt j)) = ETH_DMARXDESC_RCH OR 1524) \<and>
    \<not> Lock s2 \<and> RxFrameInfos s2 = RxFrameInfos s"
proof -
  obtain s1 where S: "HAL_ETH_DMATxDescListInit tt tb ETH_TXBUFNB s = (HAL_OK, s1)" "ring s1 tt tb" "TxDesc s1 = tt"
    "DMATDLAR s1 = tt" "\<not> Lock s1" "RxFrameInfos s1 = RxFrameInfos s"
    "\<forall>j < 8. Status (descs s1 (desc_at tt j)) AND ETH_DMATXDESC_OWN = 0"
    using tx_init_spec [OF assms(1), of tt tb] by blast
  obtain s2 where R: "HAL_ETH_DMARxDescListInit rt rb ETH_RXBUFNB s1 = (HAL_OK, s2)" "ring s2 rt rb" "RxDesc s2 = rt"
    "DMARDLAR s2 = rt" "\<not> Lock s2" "TxDesc s2 = TxDesc s1" "DMATDLAR s2 = DMATDLAR s1" "RxFrameInfos s2 = RxFrameInfos s1"
    "\<forall>j < 8. Status (descs s2 (desc_at rt j)) AND ETH_DMARXDESC_OWN \<noteq> 0 \<and>
       ControlBufferSize (descs s2 (desc_at rt j)) = ETH_DMARXDESC_RCH OR 1524"
    "\<forall>a. (\<forall>x < 8. a \<noteq> desc_at rt x) \<longrightarrow> descs s2 a = descs s1 a"
    using rx_init_spec [OF S(5), of rt rb] by blast
  have same: "descs s2 (desc_at tt j) = descs s1 (desc_at tt j)" if "j < 8" for j
    using R(10) apart that by blast
  have "ring s2 tt tb" using S(2) by (simp add: ring_def next_desc_def same)
  then show ?thesis using S R same by simp
qed

text \<open>C34: \<open>Bsp_Eth_Init\<close>'s two calls build two rings out of the tables: eight descriptors each, chained
  in order and back to the first, each with its own 1524 bytes of the buffer array; the transmit
  descriptors are free, the receive descriptors belong to the DMA and announce 1524 bytes, and
  the DMA is told where the lists begin.\<close>

theorem rings_built:
  assumes "\<not> Lock s" and "\<And>x y. x < 8 \<Longrightarrow> y < 8 \<Longrightarrow> desc_at tt x \<noteq> desc_at rt y"
  shows "\<exists>s1 s2. HAL_ETH_DMATxDescListInit tt tb ETH_TXBUFNB s = (HAL_OK, s1) \<and>
    HAL_ETH_DMARxDescListInit rt rb ETH_RXBUFNB s1 = (HAL_OK, s2) \<and>
    ring s2 tt tb \<and> TxDesc s2 = tt \<and> DMATDLAR s2 = tt \<and> (\<forall>j < 8. Status (descs s2 (desc_at tt j)) AND ETH_DMATXDESC_OWN = 0) \<and>
    ring s2 rt rb \<and> RxDesc s2 = rt \<and> DMARDLAR s2 = rt \<and>
    (\<forall>j < 8. Status (descs s2 (desc_at rt j)) AND ETH_DMARXDESC_OWN \<noteq> 0 \<and>
       ControlBufferSize (descs s2 (desc_at rt j)) = ETH_DMARXDESC_RCH OR 1524) \<and>
    \<not> Lock s2 \<and> RxFrameInfos s2 = RxFrameInfos s"
  using rings_spec [OF assms] .

definition blank_eth :: eth where
  "blank_eth = \<lparr>TxDesc = 0, RxDesc = 0, RxFrameInfos = \<lparr>FSRxDesc = 0, LSRxDesc = 0, SegCount = 0, rx_length = 0, rx_buffer = 0\<rparr>,
     eth_State = HAL_ETH_STATE_RESET, Lock = False, ChecksumMode = ETH_CHECKSUM_BY_HARDWARE,
     RxMode = ETH_RXINTERRUPT_MODE, DMASR = 0, DMATPDR_writes = 0, DMARPDR_writes = 0, DMATDLAR = 0, DMARDLAR = 0,
     descs = (\<lambda>_. \<lparr>Status = 0, ControlBufferSize = 0, Buffer1Addr = 0, Buffer2NextDescAddr = 0\<rparr>), ram = (\<lambda>_. 0)\<rparr>"

lemma sample_tables:
  assumes "x < 8" "y < 8"
  shows "desc_at 0x20001000 x \<noteq> desc_at 0x20002000 y"
proof -
  have "unat (desc_at 0x20001000 x) = 0x20001000 + 32 * x" "unat (desc_at 0x20002000 y) = 0x20002000 + 32 * y"
    using assms by (simp_all add: desc_at_def unat_word_ariths unat_of_nat_u32 del: of_nat_mult)
  then show ?thesis using assms by auto
qed

lemma rings_built_witness:
  "\<exists>s1 s2. HAL_ETH_DMATxDescListInit 0x20001000 0x20003000 8 blank_eth = (HAL_OK, s1) \<and>
    HAL_ETH_DMARxDescListInit 0x20002000 0x20007000 8 s1 = (HAL_OK, s2) \<and>
    ring s2 0x20001000 0x20003000 \<and> ring s2 0x20002000 0x20007000 \<and> TxDesc s2 = 0x20001000"
proof -
  have "\<not> Lock blank_eth" by (simp add: blank_eth_def)
  from rings_built [OF this sample_tables, of "0x20003000" "0x20007000"]
  show ?thesis unfolding ETH_TXBUFNB_def ETH_RXBUFNB_def by blast
qed

definition eth0 :: eth where
  "eth0 = snd (HAL_ETH_DMARxDescListInit 0x20002000 0x20007000 8
     (snd (HAL_ETH_DMATxDescListInit 0x20001000 0x20003000 8 blank_eth)))"

lemma eth0:
  "ring eth0 0x20001000 0x20003000" "TxDesc eth0 = 0x20001000" "ring eth0 0x20002000 0x20007000"
  "RxDesc eth0 = 0x20002000" "\<not> Lock eth0" "SegCount (RxFrameInfos eth0) = 0"
  "j < 8 \<Longrightarrow> Status (descs eth0 (desc_at 0x20001000 j)) AND ETH_DMATXDESC_OWN = 0"
  "j < 8 \<Longrightarrow> Status (descs eth0 (desc_at 0x20002000 j)) AND ETH_DMARXDESC_OWN \<noteq> 0"
proof -
  have "\<not> Lock blank_eth" "SegCount (RxFrameInfos blank_eth) = 0" by (simp_all add: blank_eth_def)
  then show "ring eth0 0x20001000 0x20003000" "TxDesc eth0 = 0x20001000" "ring eth0 0x20002000 0x20007000"
  "RxDesc eth0 = 0x20002000" "\<not> Lock eth0" "SegCount (RxFrameInfos eth0) = 0"
  "j < 8 \<Longrightarrow> Status (descs eth0 (desc_at 0x20001000 j)) AND ETH_DMATXDESC_OWN = 0"
  "j < 8 \<Longrightarrow> Status (descs eth0 (desc_at 0x20002000 j)) AND ETH_DMARXDESC_OWN \<noteq> 0"
    using rings_spec [OF \<open>\<not> Lock blank_eth\<close> sample_tables, of "0x20003000" "0x20007000"]
    unfolding eth0_def ETH_TXBUFNB_def ETH_RXBUFNB_def by auto
qed

lemma desc_at_0: "desc_at t 0 = t"
  by (simp add: desc_at_def)

lemma output_hands_over_witness:
  "\<exists>v'. low_level_output [[1, 2], [], [3]] \<lparr>heth = eth0, ousem = None, s_xSemaphore = 0, nesting = 0\<rparr> = Some (ERR_OK, v') \<and>
    dma_frame 1 True (heth v') (desc_at 0x20001000 0) = Some [1, 2, 3] \<and> ousem v' = Some 1"
proof -
  let ?v = "\<lparr>heth = eth0, ousem = None, s_xSemaphore = 0, nesting = 0\<rparr>" and ?p = "[[1, 2], [], [3]] :: u8 list list"
  have k: "segs (length (concat ?p)) = 1" by (simp add: segs_def)
  have P: "ring (heth ?v) 0x20001000 0x20003000" "TxDesc (heth ?v) = desc_at 0x20001000 0" "0 < (8 :: nat)"
    "0 < length (concat ?p)" "length (concat ?p) \<le> 12192" "\<not> Lock (heth ?v)" "ousem ?v \<in> {None, Some 1}"
    by (simp_all add: eth0 desc_at_0)
  have free: "\<forall>x < 1. Status (descs (heth ?v) (desc_at 0x20001000 ((0 + x) mod 8))) AND ETH_DMATXDESC_OWN = 0"
    using eth0(7) [of 0] by simp
  have c: "concat ?p = [1, 2, 3]" by simp
  show ?thesis
    using output_hands_over [OF P] free unfolding k unfolding c by metis
qed

text \<open>A frame of three bytes, put into the ring by the DMA.\<close>

definition eth1 :: eth where
  "eth1 = (upd_desc 0x20002000 (\<lambda>e. e\<lparr>Status := 0x00070300\<rparr>) eth0)\<lparr>ram := write_bytes (ram eth0) 0x20007000 [7, 8, 9]\<rparr>"

lemma eth1_waiting: "waiting eth1 0x20002000 0x20007000 0 [[7, 8, 9]]"
  unfolding waiting_def
proof (intro conjI allI impI)
  let ?d = "desc_at 0x20002000 0"
  show "ring eth1 0x20002000 0x20007000"
    using eth0(3) by (auto simp: ring_def next_desc_def eth1_def upd_desc_def)
  have "Buffer1Addr (descs eth0 ?d) = 0x20007000" using eth0(3) by (auto simp: ring_def)
  then have one: "holds_frame eth1 ?d [7, 8, 9]"
    using read_write_same [of "[7, 8, 9]" "ram eth0" "0x20007000"]
    by (simp add: holds_frame_def eth1_def upd_desc_def desc_at_0 ETH_DMARXDESC_OWN_def ETH_DMARXDESC_LS_def ETH_DMARXDESC_FL_def)
  fix x :: nat assume x: "x < 8"
  show "if x < length [[7, 8, 9 :: u8]] then holds_frame eth1 (desc_at 0x20002000 ((0 + x) mod 8)) ([[7, 8, 9]] ! x)
      else Status (descs eth1 (desc_at 0x20002000 ((0 + x) mod 8))) AND ETH_DMARXDESC_OWN \<noteq> 0"
  proof (cases "x = 0")
    case True
    then show ?thesis using one by simp
  next
    case False
    then have "desc_at 0x20002000 x \<noteq> 0x20002000" using desc_at_inj [of x 0 "0x20002000"] x by (simp add: desc_at_0)
    then show ?thesis using eth0(8) [OF x] False x by (simp add: eth1_def upd_desc_def)
  qed
qed (simp_all add: eth1_def upd_desc_def eth0 desc_at_0)

section \<open>When the handle is locked\<close>

lemma locked_input:
  "Lock s \<Longrightarrow> low_level_input alloc (s, n) = (None, s, n)"
  by (simp add: low_level_input_def HAL_ETH_GetReceivedFrame_def)

text \<open>The lock of the handle is tried only once. The task that sends can be preempted inside
  \<open>HAL_ETH_TransmitFrame\<close>; the input task then finds the handle locked, uses up the token of the frame
  and reads nothing, so the frame stays in the ring until another one arrives. And a frame to be sent while
  the handle is locked is copied but not handed over, although the result is \<open>ERR_OK\<close>.\<close>

theorem locked_handle_loses:
  assumes lock: "Lock (heth v)"
    and ring: "ring (heth v) tab buf" and tx: "TxDesc (heth v) = desc_at tab i" "i < 8"
    and L: "length (concat p) \<le> 12192"
    and free: "ousem v \<in> {None, Some 1}" "\<forall>x < 8. Status (descs (heth v) (desc_at tab x)) AND ETH_DMATXDESC_OWN = 0"
  shows "(0 < s_xSemaphore v \<longrightarrow> ethernetif_input_turn alloc inp release ((\<lambda>s. s) # es) (v, n) =
      Some (v\<lparr>s_xSemaphore := s_xSemaphore v - 1\<rparr>, n)) \<and>
    (\<exists>v'. low_level_output p v = Some (ERR_OK, v') \<and> descs (heth v') = descs (heth v) \<and> TxDesc (heth v') = TxDesc (heth v))"
proof -
  let ?L = "length (concat p)" and ?s = "heth v"
  have own: "Status (descs ?s (desc_at tab (j mod 8))) AND ETH_DMATXDESC_OWN = 0" for j
    using free(2) by simp
  obtain ok w m where R: "low_level_output p v = Some (if ok
      then output_error ERR_OK (w\<lparr>heth := snd (HAL_ETH_TransmitFrame (of_nat ?L) (?s\<lparr>ram := m\<rparr>))\<rparr>)
      else output_error ERR_USE (w\<lparr>heth := ?s\<lparr>ram := m\<rparr>\<rparr>))"
    "ok \<longleftrightarrow> (\<forall>x. 0 < x \<and> 1524 * x < ?L \<longrightarrow> Status (descs ?s (desc_at tab ((i + x) mod 8))) AND ETH_DMATXDESC_OWN = 0)"
    using output_run [OF ring tx L free(1)] own [of i] tx(2) by (auto simp del: length_concat)
  have T: "HAL_ETH_TransmitFrame (of_nat ?L) (?s\<lparr>ram := m\<rparr>) = (HAL_BUSY, ?s\<lparr>ram := m\<rparr>)"
    using lock by (simp add: HAL_ETH_TransmitFrame_def)
  obtain r v' where O: "output_error ERR_OK (w\<lparr>heth := ?s\<lparr>ram := m\<rparr>\<rparr>) = (r, v')" by fastforce
  have out: "\<exists>v'. low_level_output p v = Some (ERR_OK, v') \<and> descs (heth v') = descs ?s \<and> TxDesc (heth v') = TxDesc ?s"
    using R own T O output_error_sel [OF O] by simp
  have "v\<lparr>s_xSemaphore := k, nesting := nesting v + 1, heth := heth v, nesting := nesting v\<rparr> = v\<lparr>s_xSemaphore := k\<rparr>" for k
    by (cases v) simp
  then show ?thesis
    using out locked_input [OF lock, of alloc n] by (simp add: ethernetif_input_turn_def Let_def)
qed

lemma locked_handle_loses_witness:
  "\<exists>v'. low_level_output [[1, 2]] \<lparr>heth = eth0\<lparr>Lock := True\<rparr>, ousem = Some 1, s_xSemaphore = 1, nesting = 0\<rparr> = Some (ERR_OK, v') \<and>
    descs (heth v') = descs eth0"
proof -
  let ?v = "\<lparr>heth = eth0\<lparr>Lock := True\<rparr>, ousem = Some 1, s_xSemaphore = 1, nesting = 0\<rparr>"
  have P: "Lock (heth ?v)" "ring (heth ?v) 0x20001000 0x20003000" "TxDesc (heth ?v) = desc_at 0x20001000 0" "0 < (8 :: nat)"
    "length (concat [[1, 2 :: u8]]) \<le> 12192" "ousem ?v \<in> {None, Some 1}"
    "\<forall>x < 8. Status (descs (heth ?v) (desc_at 0x20001000 x)) AND ETH_DMATXDESC_OWN = 0"
    using eth0 ring_cong [of "eth0\<lparr>Lock := True\<rparr>" eth0] by (simp_all add: desc_at_0)
  show ?thesis
    using locked_handle_loses [OF P, of "\<lambda>l n. (None, n)" "\<lambda>p n. (ERR_OK, n)" "\<lambda>p n. n" "[]" "()"] by (simp, blast)
qed

end
