(* ===== verification/LwipMem.thy ===== *)
theory LwipMem
  imports Prelude "HOL-Library.Monad_Syntax"
begin

unbundle bit_operations_syntax

text \<open>
  The heap of LwIP (LwIP/core/mem.c): blocks laid end to end in one array, each headed by a
  \<open>struct mem\<close> that holds the array indices of its two neighbours, first fit from the
  lowest free block, split and coalesce. A pointer to a header is its index in \<open>ram\<close>;
  indices are 16-bit words (\<open>mem_size_t\<close>, as \<open>MEM_SIZE\<close> is 25600), pointers that
  cross the interface are 32-bit words. \<open>mem_mutex\<close> makes each call atomic and is not part of the
  state; \<open>LWIP_ASSERT\<close> only prints.
\<close>

section \<open>State\<close>

record mem_hdr =
  mem_next :: u16
  mem_prev :: u16
  mem_used :: bool

record ram_heap =
  hdrs :: "nat \<Rightarrow> mem_hdr"
  ram :: u32
  lfree :: u16

definition LWIP_MEM_ALIGN_SIZE :: "u32 \<Rightarrow> u32" where
  "LWIP_MEM_ALIGN_SIZE n = (n + 4 - 1) AND NOT (4 - 1)"

definition SIZEOF_STRUCT_MEM :: u32 where "SIZEOF_STRUCT_MEM = 8"
definition MIN_SIZE_ALIGNED :: u32 where "MIN_SIZE_ALIGNED = 12"
definition MEM_SIZE_ALIGNED :: u32 where "MEM_SIZE_ALIGNED = 25600"

lemmas mem_consts = SIZEOF_STRUCT_MEM_def MIN_SIZE_ALIGNED_def MEM_SIZE_ALIGNED_def

definition ptr_to_mem :: "ram_heap \<Rightarrow> u16 \<Rightarrow> mem_hdr" where
  "ptr_to_mem h ptr = hdrs h (unat ptr)"

definition upd_mem :: "u16 \<Rightarrow> (mem_hdr \<Rightarrow> mem_hdr) \<Rightarrow> ram_heap \<Rightarrow> ram_heap" where
  "upd_mem ptr f h = h\<lparr>hdrs := (hdrs h)(unat ptr := f (hdrs h (unat ptr)))\<rparr>"

abbreviation ram_end :: u16 where "ram_end \<equiv> ucast MEM_SIZE_ALIGNED"

section \<open>Operations\<close>

definition mem_init :: "u32 \<Rightarrow> ram_heap \<Rightarrow> ram_heap" where
  "mem_init LWIP_RAM_HEAP_POINTER h =
    (let h = h\<lparr>ram := LWIP_MEM_ALIGN_SIZE LWIP_RAM_HEAP_POINTER\<rparr>;
         h = upd_mem 0 (\<lambda>_. \<lparr>mem_next = ram_end, mem_prev = 0, mem_used = False\<rparr>) h;
         h = upd_mem ram_end (\<lambda>_. \<lparr>mem_next = ram_end, mem_prev = ram_end, mem_used = True\<rparr>) h
     in h\<lparr>lfree := 0\<rparr>)"

text \<open>Both halves of \<open>plug_holes\<close>: block \<open>a\<close> takes in the block \<open>b\<close> that follows it.\<close>

definition absorb :: "u16 \<Rightarrow> u16 \<Rightarrow> ram_heap \<Rightarrow> ram_heap" where
  "absorb a b h =
    (let h = (if lfree h = b then h\<lparr>lfree := a\<rparr> else h);
         bn = mem_next (ptr_to_mem h b);
         h = upd_mem a (mem_next_update (\<lambda>_. bn)) h
     in if bn \<noteq> ram_end then upd_mem bn (mem_prev_update (\<lambda>_. a)) h else h)"

definition plug_holes :: "u16 \<Rightarrow> ram_heap \<Rightarrow> ram_heap" where
  "plug_holes mem h =
    (let nmem = mem_next (ptr_to_mem h mem);
         h = (if mem \<noteq> nmem \<and> \<not> mem_used (ptr_to_mem h nmem) \<and> nmem \<noteq> ram_end
              then absorb mem nmem h else h);
         pmem = mem_prev (ptr_to_mem h mem)
     in if pmem \<noteq> mem \<and> \<not> mem_used (ptr_to_mem h pmem) then absorb pmem mem h else h)"

definition mem_link_valid :: "ram_heap \<Rightarrow> u16 \<Rightarrow> bool" where
  "mem_link_valid h mem =
    (let rmem_idx = mem; m = ptr_to_mem h mem;
         nmem = mem_next m; pmem = mem_prev m
     in \<not> (ucast (mem_next m) > MEM_SIZE_ALIGNED \<or> ucast (mem_prev m) > MEM_SIZE_ALIGNED \<or>
           mem_prev m \<noteq> rmem_idx \<and> mem_next (ptr_to_mem h pmem) \<noteq> rmem_idx \<or>
           nmem \<noteq> ram_end \<and> mem_prev (ptr_to_mem h nmem) \<noteq> rmem_idx))"

definition mem_free :: "u32 \<Rightarrow> ram_heap \<Rightarrow> ram_heap" where
  "mem_free rmem h =
    (if rmem = 0 then h
     else if rmem AND (4 - 1) \<noteq> 0 then h
     else if rmem - SIZEOF_STRUCT_MEM < ram h \<or> rmem + MIN_SIZE_ALIGNED > ram h + MEM_SIZE_ALIGNED then h
     else let mem = ucast (rmem - SIZEOF_STRUCT_MEM - ram h) in
       if \<not> mem_used (ptr_to_mem h mem) then h
       else if \<not> mem_link_valid h mem then h
       else let h = upd_mem mem (mem_used_update (\<lambda>_. False)) h;
                h = (if mem < lfree h then h\<lparr>lfree := mem\<rparr> else h)
            in plug_holes mem h)"

text \<open>The size an allocation or a trim is rounded up to; \<open>None\<close> for a request that is too large.\<close>

definition rounded_size :: "u16 \<Rightarrow> u16 option" where
  "rounded_size size_in =
    (let size = ucast (LWIP_MEM_ALIGN_SIZE (ucast size_in)) :: u16;
         size = (if ucast size < MIN_SIZE_ALIGNED then ucast MIN_SIZE_ALIGNED else size)
     in if ucast size > MEM_SIZE_ALIGNED \<or> size < size_in then None else Some size)"

text \<open>The end of a block, from index \<open>ptr2\<close> up to the block \<open>nxt\<close>, becomes a free block.\<close>

definition cut_at :: "u16 \<Rightarrow> u16 \<Rightarrow> u16 \<Rightarrow> ram_heap \<Rightarrow> ram_heap" where
  "cut_at ptr ptr2 nxt h =
    (let h = upd_mem ptr2 (\<lambda>_. \<lparr>mem_next = nxt, mem_prev = ptr, mem_used = False\<rparr>) h;
         h = upd_mem ptr (mem_next_update (\<lambda>_. ptr2)) h
     in if nxt \<noteq> ram_end then upd_mem nxt (mem_prev_update (\<lambda>_. ptr2)) h else h)"

definition mem_trim :: "u32 \<Rightarrow> u16 \<Rightarrow> ram_heap \<Rightarrow> u32 \<times> ram_heap" where
  "mem_trim rmem new_size h =
    (case rounded_size new_size of
       None \<Rightarrow> (0, h)
     | Some newsize \<Rightarrow>
        if rmem < ram h \<or> rmem \<ge> ram h + MEM_SIZE_ALIGNED then (rmem, h)
        else
          let ptr = ucast (rmem - SIZEOF_STRUCT_MEM - ram h) :: u16;
              size = mem_next (ptr_to_mem h ptr) - ptr - ucast SIZEOF_STRUCT_MEM
          in if newsize > size then (0, h)
             else if newsize = size then (rmem, h)
             else
               let mem2 = mem_next (ptr_to_mem h ptr); ptr2 = ptr + ucast SIZEOF_STRUCT_MEM + newsize
               in if \<not> mem_used (ptr_to_mem h mem2) then
                    let nxt = mem_next (ptr_to_mem h mem2);
                        h = (if lfree h = mem2 then h\<lparr>lfree := ptr2\<rparr> else h)
                    in (rmem, cut_at ptr ptr2 nxt h)
                  else if ucast newsize + SIZEOF_STRUCT_MEM + MIN_SIZE_ALIGNED \<le> ucast size then
                    let h = (if ptr2 < lfree h then h\<lparr>lfree := ptr2\<rparr> else h)
                    in (rmem, cut_at ptr ptr2 mem2 h)
                  else (rmem, h))"

text \<open>The search of \<open>mem_malloc\<close> for a block that is free and large enough, from \<open>ptr\<close> on;
  \<open>Some None\<close> when it reaches the end.\<close>

partial_function (option) find_fit :: "ram_heap \<Rightarrow> u16 \<Rightarrow> u16 \<Rightarrow> u16 option option" where
  "find_fit h need ptr =
    (if (ucast ptr :: u32) < MEM_SIZE_ALIGNED - ucast need then
       if \<not> mem_used (ptr_to_mem h ptr) \<and>
          ucast (mem_next (ptr_to_mem h ptr)) - (ucast ptr + SIZEOF_STRUCT_MEM) \<ge> (ucast need :: u32)
       then Some (Some ptr)
       else find_fit h need (mem_next (ptr_to_mem h ptr))
     else Some None)"

text \<open>The next block that is free, for the new \<open>lfree\<close>.\<close>

partial_function (option) next_free :: "ram_heap \<Rightarrow> u16 \<Rightarrow> u16 option" where
  "next_free h cur =
    (if mem_used (ptr_to_mem h cur) \<and> cur \<noteq> ram_end
     then next_free h (mem_next (ptr_to_mem h cur)) else Some cur)"

definition take_fit :: "u16 \<Rightarrow> u16 \<Rightarrow> ram_heap \<Rightarrow> ram_heap" where
  "take_fit need ptr h =
    (let m = ptr_to_mem h ptr in
     if ucast (mem_next m) - (ucast ptr + SIZEOF_STRUCT_MEM)
          \<ge> ucast need + SIZEOF_STRUCT_MEM + MIN_SIZE_ALIGNED
     then let ptr2 = ptr + ucast SIZEOF_STRUCT_MEM + need
          in upd_mem ptr (mem_used_update (\<lambda>_. True)) (cut_at ptr ptr2 (mem_next m) h)
     else upd_mem ptr (mem_used_update (\<lambda>_. True)) h)"

definition mem_malloc :: "u16 \<Rightarrow> ram_heap \<Rightarrow> (u32 \<times> ram_heap) option" where
  "mem_malloc size_in h =
    (if size_in = 0 then Some (0, h)
     else case rounded_size size_in of
       None \<Rightarrow> Some (0, h)
     | Some need \<Rightarrow> do {
         found \<leftarrow> find_fit h need (lfree h);
         case found of
           None \<Rightarrow> Some (0, h)
         | Some ptr \<Rightarrow>
             let h' = take_fit need ptr h in
             if ptr = lfree h' then do {
               cur \<leftarrow> next_free h' (lfree h');
               Some (ram h + ucast ptr + SIZEOF_STRUCT_MEM, h'\<lparr>lfree := cur\<rparr>)
             } else Some (ram h + ucast ptr + SIZEOF_STRUCT_MEM, h') })"

definition mem_calloc :: "u16 \<Rightarrow> u16 \<Rightarrow> ram_heap \<times> memory \<Rightarrow> (u32 \<times> ram_heap \<times> memory) option" where
  "mem_calloc count elem s =
    (let alloc_size = (ucast count :: u32) * ucast elem in
     if (ucast (ucast alloc_size :: u16) :: u32) \<noteq> alloc_size then Some (0, s)
     else do {
       (p, h) \<leftarrow> mem_malloc (ucast alloc_size) (fst s);
       Some (p, h, if p \<noteq> 0 then write_bytes (snd s) p (replicate (unat alloc_size) 0) else snd s) })"

section \<open>Rounding\<close>

definition round4 :: "nat \<Rightarrow> nat" where "round4 n = (n + 3) div 4 * 4"

lemma round4_bounds: "n \<le> round4 n" "round4 n \<le> n + 3" "round4 n mod 4 = 0"
  unfolding round4_def by presburger+

lemma unat_ALIGN:
  assumes "unat n + 3 < 4294967296"
  shows "unat (LWIP_MEM_ALIGN_SIZE n) = round4 (unat n)"
proof -
  have "2 \<le> k \<Longrightarrow> Suc (Suc (k - 2)) = k" for k by simp
  then have "(n + 3) AND NOT (mask 2) = push_bit 2 (drop_bit 2 (n + 3))"
    by (intro bit_word_eqI) (auto simp: bit_and_iff bit_not_iff bit_push_bit_iff bit_drop_bit_eq bit_mask_iff)
  moreover have "LWIP_MEM_ALIGN_SIZE n = (n + 3) AND NOT (mask 2)"
    by (simp add: LWIP_MEM_ALIGN_SIZE_def mask_eq_exp_minus_1 add.commute [of 3 n])
  ultimately have "unat (LWIP_MEM_ALIGN_SIZE n) = unat (push_bit 2 (drop_bit 2 (n + 3)))"
    by (simp only:)
  also have "\<dots> = take_bit 32 (push_bit 2 (drop_bit 2 (unat (n + 3))))"
    by (simp only: unsigned_push_bit_eq unsigned_drop_bit_eq) (simp add: take_bit_nat_eq_self)
  also have "unat (n + 3) = unat n + 3" using assms by (simp add: unat_word_ariths)
  finally show ?thesis
    using assms by (simp add: round4_def drop_bit_eq_div push_bit_eq_mult take_bit_eq_mod)
qed

end
