(* ===== verification/Memp.thy ===== *)
theory Memp
  imports LwipMem
begin

unbundle bit_operations_syntax

text \<open>
  The memory pools of LwIP (LwIP/core/memp.c, LwIP/include/lwip/priv/memp_priv.h and memp_std.h):
  each pool is a list of free elements, linked through their first word. \<open>MEMP_SIZE\<close> is 0
  and the overflow checks, sanity checks and statistics are configured out. The interface a pool
  offers to its users is the locale \<open>struct_pool\<close>; the pools of memp.c are an instance.
\<close>

section \<open>The pools\<close>

text \<open>The pools that memp_std.h makes in this configuration.\<close>

datatype memp_t = MEMP_UDP_PCB | MEMP_TCP_PCB | MEMP_TCP_PCB_LISTEN | MEMP_TCP_SEG | MEMP_REASSDATA |
  MEMP_FRAG_PBUF | MEMP_NETBUF | MEMP_NETCONN | MEMP_TCPIP_MSG_API | MEMP_SELECT_CB |
  MEMP_TCPIP_MSG_INPKT | MEMP_SYS_TIMEOUT | MEMP_PBUF | MEMP_PBUF_POOL

record memp_desc =
  memp_size :: u16
  memp_num :: u16
  memp_base :: u32

text \<open>\<open>memp_pools\<close> is the constant table of descriptors, \<open>memp_tab\<close> the first free element of each
  pool, \<open>memp_next\<close> the first word of the free elements; NULL is 0.\<close>

record memp_state =
  memp_pools :: "memp_t \<Rightarrow> memp_desc"
  memp_tab :: "memp_t \<Rightarrow> u32"
  memp_next :: "u32 \<Rightarrow> u32"

section \<open>Operations\<close>

fun memp_init_elements :: "memp_t \<Rightarrow> nat \<Rightarrow> u32 \<Rightarrow> memp_state \<Rightarrow> memp_state" where
  "memp_init_elements t 0 memp s = s"
| "memp_init_elements t (Suc n) memp s =
     memp_init_elements t n (memp + ucast (memp_size (memp_pools s t)))
       (s\<lparr>memp_next := (memp_next s)(memp := memp_tab s t), memp_tab := (memp_tab s)(t := memp)\<rparr>)"

definition memp_init_pool :: "memp_t \<Rightarrow> memp_state \<Rightarrow> memp_state" where
  "memp_init_pool t s =
    (let desc = memp_pools s t; s = s\<lparr>memp_tab := (memp_tab s)(t := 0)\<rparr>
     in memp_init_elements t (unat (memp_num desc)) (LWIP_MEM_ALIGN_SIZE (memp_base desc)) s)"

definition do_memp_malloc_pool :: "memp_t \<Rightarrow> memp_state \<Rightarrow> u32 \<times> memp_state" where
  "do_memp_malloc_pool t s =
    (let memp = memp_tab s t
     in if memp \<noteq> 0 then (memp, s\<lparr>memp_tab := (memp_tab s)(t := memp_next s memp)\<rparr>) else (0, s))"

definition memp_malloc :: "memp_t \<Rightarrow> memp_state \<Rightarrow> u32 \<times> memp_state" where
  "memp_malloc t s = do_memp_malloc_pool t s"

definition do_memp_free_pool :: "memp_t \<Rightarrow> u32 \<Rightarrow> memp_state \<Rightarrow> memp_state" where
  "do_memp_free_pool t mem s =
     s\<lparr>memp_next := (memp_next s)(mem := memp_tab s t), memp_tab := (memp_tab s)(t := mem)\<rparr>"

definition memp_free :: "memp_t \<Rightarrow> u32 \<Rightarrow> memp_state \<Rightarrow> memp_state" where
  "memp_free t mem s = (if mem = 0 then s else do_memp_free_pool t mem s)"

text \<open>The same with a descriptor, \<open>None\<close> for NULL; the start of all pools, in the order of the table.\<close>

definition memp_malloc_pool :: "memp_t option \<Rightarrow> memp_state \<Rightarrow> u32 \<times> memp_state" where
  "memp_malloc_pool desc s = (case desc of None \<Rightarrow> (0, s) | Some t \<Rightarrow> do_memp_malloc_pool t s)"

definition memp_free_pool :: "memp_t option \<Rightarrow> u32 \<Rightarrow> memp_state \<Rightarrow> memp_state" where
  "memp_free_pool desc mem s =
    (case desc of None \<Rightarrow> s | Some t \<Rightarrow> if mem = 0 then s else do_memp_free_pool t mem s)"

definition memp_init :: "memp_state \<Rightarrow> memp_state" where
  "memp_init = fold memp_init_pool [MEMP_UDP_PCB, MEMP_TCP_PCB, MEMP_TCP_PCB_LISTEN, MEMP_TCP_SEG, MEMP_REASSDATA,
     MEMP_FRAG_PBUF, MEMP_NETBUF, MEMP_NETCONN, MEMP_TCPIP_MSG_API, MEMP_SELECT_CB,
     MEMP_TCPIP_MSG_INPKT, MEMP_SYS_TIMEOUT, MEMP_PBUF, MEMP_PBUF_POOL]"

section \<open>The interface of a pool\<close>

text \<open>A pool of structs: what an allocation and a release do to the free elements.\<close>

locale struct_pool =
  fixes alloc :: "'s \<Rightarrow> u32 \<times> 's" and release :: "u32 \<Rightarrow> 's \<Rightarrow> 's"
    and elements :: "u32 set" and avail :: "'s \<Rightarrow> u32 set" and ok :: "'s \<Rightarrow> bool"
  assumes some_left: "ok s \<Longrightarrow> avail s \<noteq> {} \<Longrightarrow> fst (alloc s) \<in> avail s \<and>
      avail (snd (alloc s)) = avail s - {fst (alloc s)} \<and> ok (snd (alloc s))"
    and none_left: "ok s \<Longrightarrow> avail s = {} \<Longrightarrow> alloc s = (0, s)"
    and released: "ok s \<Longrightarrow> p \<in> elements - avail s \<Longrightarrow> ok (release p s) \<and> avail (release p s) = insert p (avail s)"
    and avail_elements: "ok s \<Longrightarrow> avail s \<subseteq> elements"
    and no_null: "ok s \<Longrightarrow> 0 \<notin> elements" and finite_elements: "ok s \<Longrightarrow> finite elements"
begin

text \<open>Taking \<open>n\<close> elements, or as many as there are.\<close>

fun take_many :: "nat \<Rightarrow> 's \<Rightarrow> u32 list \<times> 's" where
  "take_many 0 s = ([], s)"
| "take_many (Suc n) s =
     (let (p, s1) = alloc s
      in if p = 0 then ([], s1) else let (ps, s2) = take_many n s1 in (p # ps, s2))"

lemma take_many_spec:
  "ok s \<Longrightarrow> take_many n s = (ps, s') \<Longrightarrow>
    ok s' \<and> distinct ps \<and> set ps \<subseteq> avail s \<and> avail s' = avail s - set ps \<and> length ps = min n (card (avail s))"
proof (induction n arbitrary: s ps)
  case (Suc n)
  obtain p s1 where a: "alloc s = (p, s1)" by (cases "alloc s")
  have fin: "finite (avail s)" using finite_subset [OF avail_elements [OF Suc.prems(1)] finite_elements [OF Suc.prems(1)]] .
  show ?case
  proof (cases "avail s = {}")
    case True
    then show ?thesis using Suc.prems none_left [OF Suc.prems(1)] by auto
  next
    case False
    then have p: "p \<in> avail s" "avail s1 = avail s - {p}" "ok s1"
      using some_left [OF Suc.prems(1)] a by auto
    then have "p \<noteq> 0" using avail_elements [OF Suc.prems(1)] no_null [OF Suc.prems(1)] by auto
    then obtain qs where q: "take_many n s1 = (qs, s')" "ps = p # qs"
      using Suc.prems(2) a by (auto split: prod.splits)
    have "0 < card (avail s)" using p(1) fin by (auto simp: card_gt_0_iff)
    then show ?thesis using Suc.IH [OF p(3) q(1)] p q(2) fin by (auto simp: card_Diff_singleton)
  qed
qed simp

text \<open>Giving elements back restores them to the pool, in whatever order.\<close>

lemma release_many:
  "ok s \<Longrightarrow> distinct ps \<Longrightarrow> set ps \<subseteq> elements - avail s \<Longrightarrow>
    ok (fold release ps s) \<and> avail (fold release ps s) = avail s \<union> set ps"
proof (induction ps arbitrary: s)
  case (Cons p ps)
  have r: "ok (release p s)" "avail (release p s) = insert p (avail s)" using released [of s p] Cons.prems by auto
  have "ok (fold release ps (release p s)) \<and> avail (fold release ps (release p s)) = avail (release p s) \<union> set ps"
    using Cons.prems r by (intro Cons.IH) auto
  then show ?case using r(2) by simp
qed simp

lemma take_release:
  assumes "ok s" "take_many n s = (ps, s')" "set qs = set ps" "distinct qs"
  shows "avail (fold release qs s') = avail s"
  using take_many_spec [OF assms(1,2)] release_many [of s' qs] avail_elements [OF assms(1)] assms(3,4) by auto

end

section \<open>The pools of memp.c are such pools\<close>

fun linked_free :: "(u32 \<Rightarrow> u32) \<Rightarrow> u32 \<Rightarrow> u32 list \<Rightarrow> bool" where
  "linked_free m p [] \<longleftrightarrow> p = 0"
| "linked_free m p (a # as) \<longleftrightarrow> p = a \<and> a \<noteq> 0 \<and> linked_free m (m a) as"

text \<open>The elements of a pool: \<open>num\<close> of them from the aligned base on.\<close>

definition pool_element :: "memp_desc \<Rightarrow> nat \<Rightarrow> u32" where
  "pool_element d i = LWIP_MEM_ALIGN_SIZE (memp_base d) + of_nat i * ucast (memp_size d)"

definition pool_elements :: "memp_desc \<Rightarrow> u32 set" where
  "pool_elements d = pool_element d ` {..<unat (memp_num d)}"

text \<open>A pool that lies in the memory without wrapping.\<close>

definition pool_fits :: "memp_desc \<Rightarrow> bool" where
  "pool_fits d \<longleftrightarrow> 0 < unat (memp_base d) \<and> 4 \<le> unat (memp_size d) \<and>
     unat (memp_base d) + 3 + unat (memp_num d) * unat (memp_size d) < 4294967296"

definition pool_ok :: "memp_t \<Rightarrow> memp_desc \<Rightarrow> memp_state \<Rightarrow> bool" where
  "pool_ok t d s \<longleftrightarrow> pool_fits d \<and> memp_pools s t = d \<and>
     (\<exists>as. linked_free (memp_next s) (memp_tab s t) as \<and> distinct as \<and> set as \<subseteq> pool_elements d)"

text \<open>The elements that are free.\<close>

definition pool_avail :: "memp_t \<Rightarrow> memp_state \<Rightarrow> u32 set" where
  "pool_avail t s = {a. \<exists>as. linked_free (memp_next s) (memp_tab s t) as \<and> a \<in> set as}"

lemma linked_free_unique: "linked_free m p as \<Longrightarrow> linked_free m p bs \<Longrightarrow> as = bs"
proof (induction as arbitrary: p bs)
  case Nil
  then show ?case by (cases bs) auto
next
  case (Cons a as)
  then show ?case by (cases bs) auto
qed

lemma pool_avail_eq: "linked_free (memp_next s) (memp_tab s t) as \<Longrightarrow> pool_avail t s = set as"
  unfolding pool_avail_def using linked_free_unique by blast

lemma linked_free_frame: "linked_free m p as \<Longrightarrow> (\<And>a. a \<in> set as \<Longrightarrow> m' a = m a) \<Longrightarrow> linked_free m' p as"
  by (induction as arbitrary: p) auto

lemma pool_okE:
  assumes "pool_ok t d s"
  obtains as where "linked_free (memp_next s) (memp_tab s t) as" "distinct as" "set as \<subseteq> pool_elements d"
    "pool_avail t s = set as"
  using assms pool_avail_eq unfolding pool_ok_def by blast

lemma unat_pool_element:
  assumes "pool_fits d" "i \<le> unat (memp_num d)"
  shows "unat (pool_element d i) = round4 (unat (memp_base d)) + i * unat (memp_size d)"
proof -
  have b: "unat (LWIP_MEM_ALIGN_SIZE (memp_base d)) = round4 (unat (memp_base d))"
    using assms(1) by (intro unat_ALIGN) (simp add: pool_fits_def)
  have m: "i * unat (memp_size d) \<le> unat (memp_num d) * unat (memp_size d)" using assms(2) by (rule mult_le_mono1)
  then have l: "round4 (unat (memp_base d)) + i * unat (memp_size d) < 4294967296"
    using assms(1) round4_bounds(2) [of "unat (memp_base d)"] unfolding pool_fits_def by linarith
  have "(of_nat i * ucast (memp_size d) :: u32) = of_nat (i * unat (memp_size d))"
    by (simp add: unat_ucasts flip: unat_ucast_u16_u32)
  then have "unat (of_nat i * ucast (memp_size d) :: u32) = i * unat (memp_size d)"
    using l by (simp only: unat_of_nat_u32)
  then show ?thesis using l b unfolding pool_element_def by (subst unat_add_lem [THEN iffD1]) simp_all
qed

lemma pool_element_inj:
  assumes "pool_fits d" "i < unat (memp_num d)" "j < unat (memp_num d)" "pool_element d i = pool_element d j"
  shows "i = j"
proof -
  have "unat (pool_element d i) = unat (pool_element d j)" by (simp only: assms(4))
  then have "i * unat (memp_size d) = j * unat (memp_size d)"
    using unat_pool_element [OF assms(1), of i] unat_pool_element [OF assms(1), of j] assms(2,3) by linarith
  then show ?thesis using assms(1) unfolding pool_fits_def by (simp del: mult_cancel2 add: mult_right_cancel)
qed

lemma memp_malloc_cases:
  assumes "pool_ok t d s"
  shows "(pool_avail t s = {} \<longrightarrow> memp_malloc t s = (0, s)) \<and>
    (pool_avail t s \<noteq> {} \<longrightarrow> fst (memp_malloc t s) \<in> pool_avail t s \<and>
       pool_avail t (snd (memp_malloc t s)) = pool_avail t s - {fst (memp_malloc t s)} \<and>
       pool_ok t d (snd (memp_malloc t s)))"
proof -
  obtain as where as: "linked_free (memp_next s) (memp_tab s t) as" "distinct as" "set as \<subseteq> pool_elements d"
    "pool_avail t s = set as" using pool_okE [OF assms] .
  show ?thesis
  proof (cases as)
    case Nil
    then show ?thesis using as by (simp add: memp_malloc_def do_memp_malloc_pool_def)
  next
    case (Cons a bs)
    have s': "memp_malloc t s = (a, s\<lparr>memp_tab := (memp_tab s)(t := memp_next s a)\<rparr>)"
      using as Cons by (auto simp: memp_malloc_def do_memp_malloc_pool_def)
    have l: "linked_free (memp_next s) (memp_next s a) bs" using as Cons by simp
    then have "pool_avail t (s\<lparr>memp_tab := (memp_tab s)(t := memp_next s a)\<rparr>) = set bs"
      by (intro pool_avail_eq) simp
    then show ?thesis using as l assms unfolding s' by (auto simp: Cons pool_ok_def)
  qed
qed

lemma memp_free_spec:
  assumes "pool_ok t d s" "p \<in> pool_elements d - pool_avail t s" "p \<noteq> 0"
  shows "pool_ok t d (memp_free t p s) \<and> pool_avail t (memp_free t p s) = insert p (pool_avail t s)"
proof -
  obtain as where as: "linked_free (memp_next s) (memp_tab s t) as" "distinct as" "set as \<subseteq> pool_elements d"
    "pool_avail t s = set as" using pool_okE [OF assms(1)] .
  have "linked_free ((memp_next s)(p := memp_tab s t)) (memp_tab s t) as"
    using as assms(2) by (intro linked_free_frame [OF as(1)]) auto
  then have l: "linked_free (memp_next (memp_free t p s)) (memp_tab (memp_free t p s) t) (p # as)"
    using assms(3) by (simp add: memp_free_def do_memp_free_pool_def)
  have "memp_pools (memp_free t p s) = memp_pools s" by (simp add: memp_free_def do_memp_free_pool_def)
  then show ?thesis
    using pool_avail_eq [OF l] l as assms by (auto simp: pool_ok_def intro!: exI [of _ "p # as"])
qed

lemma pool_elements_facts: "pool_fits d \<Longrightarrow> 0 \<notin> pool_elements d" "finite (pool_elements d)"
proof -
  assume f: "pool_fits d"
  show "0 \<notin> pool_elements d"
  proof
    assume "0 \<in> pool_elements d"
    then obtain i where i: "i < unat (memp_num d)" "0 = pool_element d i" by (auto simp: pool_elements_def)
    then have "unat (pool_element d i) = 0" by (simp flip: i(2))
    then show False using unat_pool_element [OF f, of i] round4_bounds(1) [of "unat (memp_base d)"] i(1) f
      by (simp add: pool_fits_def)
  qed
qed (simp add: pool_elements_def)

interpretation memp: struct_pool "memp_malloc t" "memp_free t" "pool_elements d" "pool_avail t" "pool_ok t d"
proof unfold_locales
  fix s p
  assume ok: "pool_ok t d s"
  then have fits: "pool_fits d" by (simp add: pool_ok_def)
  show "0 \<notin> pool_elements d" "finite (pool_elements d)" using pool_elements_facts fits by auto
  then show "p \<in> pool_elements d - pool_avail t s \<Longrightarrow>
      pool_ok t d (memp_free t p s) \<and> pool_avail t (memp_free t p s) = insert p (pool_avail t s)"
    using memp_free_spec [OF ok] by (metis DiffD1)
  show "pool_avail t s \<subseteq> pool_elements d" using pool_okE [OF ok] by metis
qed (use memp_malloc_cases in blast)+

section \<open>Filling a pool\<close>

lemma memp_init_elements_spec:
  assumes "pool_fits d" "memp_pools s t = d" "i + n = unat (memp_num d)"
    and "linked_free (memp_next s) (memp_tab s t) (rev (map (pool_element d) [0..<i]))"
  shows "memp_pools (memp_init_elements t n (pool_element d i) s) t = d \<and>
    linked_free (memp_next (memp_init_elements t n (pool_element d i) s))
      (memp_tab (memp_init_elements t n (pool_element d i) s) t) (rev (map (pool_element d) [0..<unat (memp_num d)]))"
  using assms(2-4)
proof (induction n arbitrary: i s)
  case (Suc n)
  let ?e = "pool_element d i"
  let ?s = "s\<lparr>memp_next := (memp_next s)(?e := memp_tab s t), memp_tab := (memp_tab s)(t := ?e)\<rparr>"
  have i: "i < unat (memp_num d)" using Suc.prems by simp
  have e: "pool_element d (Suc i) = ?e + ucast (memp_size d)" by (simp add: pool_element_def algebra_simps)
  have fresh: "pool_element d j \<noteq> ?e" if "j < i" for j
    using pool_element_inj [OF assms(1), of j i] that i by auto
  have "?e \<noteq> 0" using pool_elements_facts(1) [OF assms(1)] i by (force simp: pool_elements_def)
  moreover have "linked_free ((memp_next s)(?e := memp_tab s t)) (memp_tab s t) (rev (map (pool_element d) [0..<i]))"
    using fresh by (intro linked_free_frame [OF Suc.prems(3)]) auto
  ultimately have l: "linked_free (memp_next ?s) (memp_tab ?s t) (rev (map (pool_element d) [0..<Suc i]))" by simp
  have "memp_pools ?s t = d" "Suc i + n = unat (memp_num d)" using Suc.prems(1,2) by simp_all
  from Suc.IH [OF this l] show ?case
    unfolding memp_init_elements.simps Suc.prems(1) e .
qed simp

lemma memp_init_pool_spec:
  assumes "pool_fits d" "memp_pools s t = d"
  shows "pool_ok t d (memp_init_pool t s) \<and> pool_avail t (memp_init_pool t s) = pool_elements d"
proof -
  let ?s = "s\<lparr>memp_tab := (memp_tab s)(t := 0)\<rparr>" and ?es = "rev (map (pool_element d) [0..<unat (memp_num d)])"
  have e: "memp_init_pool t s = memp_init_elements t (unat (memp_num d)) (pool_element d 0) ?s"
    using assms(2) by (simp add: memp_init_pool_def pool_element_def)
  have l: "memp_pools (memp_init_pool t s) t = d" "linked_free (memp_next (memp_init_pool t s)) (memp_tab (memp_init_pool t s) t) ?es"
    using memp_init_elements_spec [OF assms(1), of ?s t 0 "unat (memp_num d)"] assms(2) unfolding e by auto
  have d: "distinct ?es" using pool_element_inj [OF assms(1)] by (auto simp: distinct_map inj_on_def)
  have st: "set ?es = pool_elements d" by (auto simp: pool_elements_def)
  show ?thesis
    using l d st assms(1) pool_avail_eq [OF l(2)] unfolding pool_ok_def by blast
qed

text \<open>C36: A pool of \<open>num\<close> elements serves exactly \<open>num\<close> allocations, each with another
  element of the pool, gives NULL after that, and has them all again once they have been freed, in any order.\<close>

theorem memp_serves_each_once:
  assumes "pool_fits (memp_pools s t)" and "memp.take_many t n (memp_init_pool t s) = (ps, s')"
  shows "length ps = min n (unat (memp_num (memp_pools s t))) \<and> distinct ps \<and>
    set ps \<subseteq> pool_elements (memp_pools s t) \<and>
    (\<forall>qs. set qs = set ps \<and> distinct qs \<longrightarrow>
      pool_avail t (fold (memp_free t) qs s') = pool_elements (memp_pools s t))"
proof -
  have I: "pool_ok t (memp_pools s t) (memp_init_pool t s)" "pool_avail t (memp_init_pool t s) = pool_elements (memp_pools s t)"
    using memp_init_pool_spec [OF assms(1) refl] by auto
  have "inj_on (pool_element (memp_pools s t)) {..<unat (memp_num (memp_pools s t))}"
    using pool_element_inj [OF assms(1)] by (auto simp: inj_on_def)
  then have "card (pool_elements (memp_pools s t)) = unat (memp_num (memp_pools s t))"
    by (simp add: pool_elements_def card_image)
  then show ?thesis
    using memp.take_many_spec [OF I(1) assms(2)] memp.take_release [OF I(1) assms(2)] unfolding I(2) by simp
qed

text \<open>The pool of \<open>PBUF_REF\<close> and \<open>PBUF_ROM\<close> structs, at an unaligned base.\<close>

definition sample_pools :: memp_state where
  "sample_pools = \<lparr>memp_pools = (\<lambda>_. \<lparr>memp_size = 16, memp_num = 15, memp_base = 0x20001001\<rparr>),
     memp_tab = (\<lambda>_. 0), memp_next = (\<lambda>_. 0)\<rparr>"

lemma memp_serves_each_once_witness:
  "length (fst (memp.take_many MEMP_PBUF 20 (memp_init_pool MEMP_PBUF sample_pools))) = 15"
proof -
  obtain ps s' where t: "memp.take_many MEMP_PBUF 20 (memp_init_pool MEMP_PBUF sample_pools) = (ps, s')"
    by (cases "memp.take_many MEMP_PBUF 20 (memp_init_pool MEMP_PBUF sample_pools)")
  have "pool_fits (memp_pools sample_pools MEMP_PBUF)" by (simp add: pool_fits_def sample_pools_def)
  from memp_serves_each_once [OF this t] have "length ps = min 20 (unat (memp_num (memp_pools sample_pools MEMP_PBUF)))"
    by blast
  then show ?thesis unfolding t by (simp add: sample_pools_def)
qed

end
