(* ===== verification/Pbuf.thy ===== *)
theory Pbuf
  imports LwipMem Memp LwipErr
begin

unbundle bit_operations_syntax

text \<open>
  The packet buffers of LwIP (LwIP/core/pbuf.c). A pointer is a 32-bit word, NULL is 0. The
  structs that are allocated are a map from their addresses, the payloads are bytes of the
  memory, the heap and the pools they come from are the models of mem.c and memp.c. An access
  to a struct that is not allocated is undefined behaviour and gives \<open>None\<close>, like a loop that
  never ends. \<open>LWIP_ASSERT\<close> only prints; \<open>LWIP_ERROR\<close> prints and runs its handler. The
  function that frees a custom pbuf is a pointer in the struct: it is the argument \<open>cf\<close>.
\<close>

section \<open>State\<close>

record pbuf =
  pnext :: u32
  payload :: u32
  tot_len :: u16
  plen :: u16
  type_internal :: u8
  pflags :: u8
  pref :: u8
  if_idx :: u8

record pbuf_state =
  pbufs :: "u32 \<Rightarrow> pbuf option"
  pdata :: memory
  mheap :: ram_heap
  mpools :: memp_state

datatype pbuf_layer = PBUF_TRANSPORT | PBUF_IP | PBUF_LINK | PBUF_RAW_TX | PBUF_RAW

fun layer_offset :: "pbuf_layer \<Rightarrow> u16" where
  "layer_offset PBUF_TRANSPORT = 0 + 14 + 20 + 20"
| "layer_offset PBUF_IP = 0 + 14 + 20"
| "layer_offset PBUF_LINK = 0 + 14"
| "layer_offset PBUF_RAW_TX = 0"
| "layer_offset PBUF_RAW = 0"

datatype pbuf_type = PBUF_RAM | PBUF_ROM | PBUF_REF | PBUF_POOL

fun type_value :: "pbuf_type \<Rightarrow> u16" where
  "type_value PBUF_RAM = 0x0200 OR 0x80 OR 0x00"
| "type_value PBUF_ROM = 0x01"
| "type_value PBUF_REF = 0x40 OR 0x01"
| "type_value PBUF_POOL = 0x0100 OR 0x80 OR 0x02"

definition PBUF_FLAG_IS_CUSTOM :: u8 where "PBUF_FLAG_IS_CUSTOM = 0x02"
definition SIZEOF_STRUCT_PBUF :: u32 where "SIZEOF_STRUCT_PBUF = 16"
definition PBUF_POOL_BUFSIZE_ALIGNED :: u32 where "PBUF_POOL_BUFSIZE_ALIGNED = 1516"

definition deref :: "u32 \<Rightarrow> pbuf_state \<Rightarrow> pbuf option" where
  "deref p s = (if p = 0 then None else pbufs s p)"

definition set_pbuf :: "u32 \<Rightarrow> pbuf \<Rightarrow> pbuf_state \<Rightarrow> pbuf_state" where
  "set_pbuf p b s = s\<lparr>pbufs := (pbufs s)(p \<mapsto> b)\<rparr>"

definition upd_pbuf :: "u32 \<Rightarrow> (pbuf \<Rightarrow> pbuf) \<Rightarrow> pbuf_state \<Rightarrow> pbuf_state option" where
  "upd_pbuf p f s = map_option (\<lambda>b. set_pbuf p (f b) s) (deref p s)"

definition pbuf_get_allocsrc :: "pbuf \<Rightarrow> u8" where
  "pbuf_get_allocsrc b = type_internal b AND 0x0F"

definition MEMCPY :: "u32 \<Rightarrow> u32 \<Rightarrow> nat \<Rightarrow> memory \<Rightarrow> memory" where
  "MEMCPY dst src n m = write_bytes m dst (read_bytes m src n)"

section \<open>Releasing\<close>

type_synonym custom_free = "u32 \<Rightarrow> pbuf_state \<Rightarrow> pbuf_state option"

text \<open>The struct \<open>p\<close>, whose contents were \<open>b\<close>, goes back to where it came from.\<close>

definition pbuf_release :: "custom_free \<Rightarrow> u32 \<Rightarrow> pbuf \<Rightarrow> pbuf_state \<Rightarrow> pbuf_state option" where
  "pbuf_release cf p b s =
    (let alloc_src = pbuf_get_allocsrc b; s' = s\<lparr>pbufs := (pbufs s)(p := None)\<rparr> in
     if pflags b AND PBUF_FLAG_IS_CUSTOM \<noteq> 0 then cf p s
     else if alloc_src = 0x02 then Some (s'\<lparr>mpools := memp_free MEMP_PBUF_POOL p (mpools s)\<rparr>)
     else if alloc_src = 0x01 then Some (s'\<lparr>mpools := memp_free MEMP_PBUF p (mpools s)\<rparr>)
     else if alloc_src = 0x00 then Some (s'\<lparr>mheap := mem_free p (mheap s)\<rparr>)
     else Some s)"

partial_function (option) pbuf_free_from ::
    "custom_free \<Rightarrow> u8 \<Rightarrow> u32 \<Rightarrow> pbuf_state \<Rightarrow> (u8 \<times> pbuf_state) option" where
  "pbuf_free_from cf count p s =
    (if p = 0 then Some (count, s)
     else do {
       b \<leftarrow> deref p s;
       let r = pref b - 1;
       let s = set_pbuf p (b\<lparr>pref := r\<rparr>) s;
       if r = 0 then do {
         s \<leftarrow> pbuf_release cf p b s;
         pbuf_free_from cf (count + 1) (pnext b) s
       } else Some (count, s) })"

definition pbuf_free :: "custom_free \<Rightarrow> u32 \<Rightarrow> pbuf_state \<Rightarrow> (u8 \<times> pbuf_state) option" where
  "pbuf_free cf p s = pbuf_free_from cf 0 p s"

section \<open>Allocating\<close>

definition pbuf_init_alloced_pbuf ::
    "u32 \<Rightarrow> u32 \<Rightarrow> u16 \<Rightarrow> u16 \<Rightarrow> pbuf_type \<Rightarrow> u8 \<Rightarrow> pbuf_state \<Rightarrow> pbuf_state" where
  "pbuf_init_alloced_pbuf p pay tot n type flags s =
     set_pbuf p \<lparr>pnext = 0, payload = pay, tot_len = tot, plen = n,
       type_internal = ucast (type_value type), pflags = flags, pref = 1, if_idx = 0\<rparr> s"

definition pbuf_alloc_reference ::
    "u32 \<Rightarrow> u16 \<Rightarrow> pbuf_type \<Rightarrow> pbuf_state \<Rightarrow> u32 \<times> pbuf_state" where
  "pbuf_alloc_reference pay n type s =
    (let (p, pools) = memp_malloc MEMP_PBUF (mpools s); s = s\<lparr>mpools := pools\<rparr>
     in if p = 0 then (0, s) else (p, pbuf_init_alloced_pbuf p pay n n type 0 s))"

text \<open>The loop of \<open>pbuf_alloc\<close> for \<open>PBUF_POOL\<close>.\<close>

partial_function (option) alloc_pool_chain ::
    "custom_free \<Rightarrow> u32 \<Rightarrow> u32 \<Rightarrow> u16 \<Rightarrow> u16 \<Rightarrow> pbuf_state \<Rightarrow> (u32 \<times> pbuf_state) option" where
  "alloc_pool_chain cf p lst rem_len offset s =
    (let (q, pools) = memp_malloc MEMP_PBUF_POOL (mpools s); s = s\<lparr>mpools := pools\<rparr> in
     if q = 0 then
       (if p \<noteq> 0 then do { (c, s) \<leftarrow> pbuf_free cf p s; Some (0, s) } else Some (0, s))
     else
       let qlen = min rem_len (ucast (PBUF_POOL_BUFSIZE_ALIGNED - LWIP_MEM_ALIGN_SIZE (ucast offset)));
           s = pbuf_init_alloced_pbuf q (LWIP_MEM_ALIGN_SIZE (q + SIZEOF_STRUCT_PBUF + ucast offset))
                 rem_len qlen PBUF_POOL 0 s
       in do {
         (p, s) \<leftarrow> if p = 0 then Some (q, s)
                  else do { s \<leftarrow> upd_pbuf lst (pnext_update (\<lambda>_. q)) s; Some (p, s) };
         let rem_len = rem_len - qlen;
         if 0 < rem_len then alloc_pool_chain cf p q rem_len 0 s else Some (p, s) })"

definition pbuf_alloc ::
    "custom_free \<Rightarrow> pbuf_layer \<Rightarrow> u16 \<Rightarrow> pbuf_type \<Rightarrow> pbuf_state \<Rightarrow> (u32 \<times> pbuf_state) option" where
  "pbuf_alloc cf layer n type s =
    (let offset = layer_offset layer in
     case type of
       PBUF_REF \<Rightarrow> Some (pbuf_alloc_reference 0 n type s)
     | PBUF_ROM \<Rightarrow> Some (pbuf_alloc_reference 0 n type s)
     | PBUF_POOL \<Rightarrow> alloc_pool_chain cf 0 0 n offset s
     | PBUF_RAM \<Rightarrow>
        let payload_len = ucast (LWIP_MEM_ALIGN_SIZE (ucast offset) + LWIP_MEM_ALIGN_SIZE (ucast n)) :: u16;
            alloc_len = ucast (LWIP_MEM_ALIGN_SIZE SIZEOF_STRUCT_PBUF + ucast payload_len) :: u16
        in if ucast payload_len < LWIP_MEM_ALIGN_SIZE (ucast n) \<or>
              ucast alloc_len < LWIP_MEM_ALIGN_SIZE (ucast n) then Some (0, s)
           else do {
             (p, h) \<leftarrow> mem_malloc alloc_len (mheap s);
             let s = s\<lparr>mheap := h\<rparr>;
             Some (if p = 0 then (0, s)
               else (p, pbuf_init_alloced_pbuf p
                       (LWIP_MEM_ALIGN_SIZE (p + SIZEOF_STRUCT_PBUF + ucast offset)) n n type 0 s)) })"

definition pbuf_alloced_custom ::
    "pbuf_layer \<Rightarrow> u16 \<Rightarrow> pbuf_type \<Rightarrow> u32 \<Rightarrow> u32 \<Rightarrow> u16 \<Rightarrow> pbuf_state \<Rightarrow> u32 \<times> pbuf_state" where
  "pbuf_alloced_custom l n type p payload_mem payload_mem_len s =
    (let offset = layer_offset l in
     if LWIP_MEM_ALIGN_SIZE (ucast offset) + ucast n > ucast payload_mem_len then (0, s)
     else
       let pay = (if payload_mem \<noteq> 0 then payload_mem + LWIP_MEM_ALIGN_SIZE (ucast offset) else 0)
       in (p, pbuf_init_alloced_pbuf p pay n n type PBUF_FLAG_IS_CUSTOM s))"

section \<open>Shrinking and moving the start\<close>

partial_function (option) realloc_walk ::
    "u16 \<Rightarrow> u32 \<Rightarrow> u16 \<Rightarrow> pbuf_state \<Rightarrow> (u32 \<times> u16 \<times> pbuf_state) option" where
  "realloc_walk shrink q rem_len s =
    do { b \<leftarrow> deref q s;
         if rem_len > plen b
         then realloc_walk shrink (pnext b) (rem_len - plen b) (set_pbuf q (b\<lparr>tot_len := tot_len b - shrink\<rparr>) s)
         else Some (q, rem_len, s) }"

definition pbuf_realloc :: "custom_free \<Rightarrow> u32 \<Rightarrow> u16 \<Rightarrow> pbuf_state \<Rightarrow> pbuf_state option" where
  "pbuf_realloc cf p new_len s =
    do { b \<leftarrow> deref p s;
         if new_len \<ge> tot_len b then Some s
         else do {
           let shrink = tot_len b - new_len;
           (q, rem_len, s) \<leftarrow> realloc_walk shrink p new_len s;
           b \<leftarrow> deref q s;
           let (q, s) =
             (if pbuf_get_allocsrc b = 0x00 \<and> rem_len \<noteq> plen b \<and> pflags b AND PBUF_FLAG_IS_CUSTOM = 0
              then let (q, h) = mem_trim q (ucast (payload b - q + ucast rem_len)) (mheap s) in (q, s\<lparr>mheap := h\<rparr>)
              else (q, s));
           s \<leftarrow> upd_pbuf q (\<lambda>b. b\<lparr>plen := rem_len, tot_len := rem_len\<rparr>) s;
           b \<leftarrow> deref q s;
           s \<leftarrow> if pnext b \<noteq> 0 then do { (c, s) \<leftarrow> pbuf_free cf (pnext b) s; Some s } else Some s;
           upd_pbuf q (pnext_update (\<lambda>_. 0)) s } }"

definition pbuf_add_header_impl :: "u32 \<Rightarrow> u32 \<Rightarrow> bool \<Rightarrow> pbuf_state \<Rightarrow> (u8 \<times> pbuf_state) option" where
  "pbuf_add_header_impl p header_size_increment force s =
    (if p = 0 \<or> header_size_increment > 0xFFFF then Some (1, s)
     else if header_size_increment = 0 then Some (0, s)
     else do {
       b \<leftarrow> deref p s;
       let increment_magnitude = (ucast header_size_increment :: u16);
       let pay = payload b - header_size_increment;
       if increment_magnitude + tot_len b < increment_magnitude then Some (1, s)
       else if (if type_internal b AND 0x80 \<noteq> 0 then pay < p + SIZEOF_STRUCT_PBUF else \<not> force) then Some (1, s)
       else Some (0, set_pbuf p (b\<lparr>payload := pay, plen := plen b + increment_magnitude,
                                   tot_len := tot_len b + increment_magnitude\<rparr>) s) })"

definition pbuf_add_header :: "u32 \<Rightarrow> u32 \<Rightarrow> pbuf_state \<Rightarrow> (u8 \<times> pbuf_state) option" where
  "pbuf_add_header p header_size_increment s = pbuf_add_header_impl p header_size_increment False s"

definition pbuf_add_header_force :: "u32 \<Rightarrow> u32 \<Rightarrow> pbuf_state \<Rightarrow> (u8 \<times> pbuf_state) option" where
  "pbuf_add_header_force p header_size_increment s = pbuf_add_header_impl p header_size_increment True s"

definition pbuf_remove_header :: "u32 \<Rightarrow> u32 \<Rightarrow> pbuf_state \<Rightarrow> (u8 \<times> pbuf_state) option" where
  "pbuf_remove_header p header_size_decrement s =
    (if p = 0 \<or> header_size_decrement > 0xFFFF then Some (1, s)
     else if header_size_decrement = 0 then Some (0, s)
     else do {
       b \<leftarrow> deref p s;
       let increment_magnitude = (ucast header_size_decrement :: u16);
       if \<not> increment_magnitude \<le> plen b then Some (1, s)
       else Some (0, set_pbuf p (b\<lparr>payload := payload b + header_size_decrement, plen := plen b - increment_magnitude,
                                   tot_len := tot_len b - increment_magnitude\<rparr>) s) })"

text \<open>A signed 16-bit number is a word read with \<open>sint\<close>.\<close>

definition pbuf_header_impl :: "u32 \<Rightarrow> 16 word \<Rightarrow> bool \<Rightarrow> pbuf_state \<Rightarrow> (u8 \<times> pbuf_state) option" where
  "pbuf_header_impl p header_size_increment force s =
    (if sint header_size_increment < 0 then pbuf_remove_header p (of_int (- sint header_size_increment)) s
     else pbuf_add_header_impl p (of_int (sint header_size_increment)) force s)"

definition pbuf_header :: "u32 \<Rightarrow> 16 word \<Rightarrow> pbuf_state \<Rightarrow> (u8 \<times> pbuf_state) option" where
  "pbuf_header p header_size_increment s = pbuf_header_impl p header_size_increment False s"

definition pbuf_header_force :: "u32 \<Rightarrow> 16 word \<Rightarrow> pbuf_state \<Rightarrow> (u8 \<times> pbuf_state) option" where
  "pbuf_header_force p header_size_increment s = pbuf_header_impl p header_size_increment True s"

partial_function (option) pbuf_free_header ::
    "custom_free \<Rightarrow> u32 \<Rightarrow> u16 \<Rightarrow> pbuf_state \<Rightarrow> (u32 \<times> pbuf_state) option" where
  "pbuf_free_header cf p free_left s =
    (if free_left \<noteq> 0 \<and> p \<noteq> 0 then do {
       b \<leftarrow> deref p s;
       if free_left \<ge> plen b then do {
         (c, s) \<leftarrow> pbuf_free cf p (set_pbuf p (b\<lparr>pnext := 0\<rparr>) s);
         pbuf_free_header cf (pnext b) (free_left - plen b) s
       } else do {
         (r, s) \<leftarrow> pbuf_remove_header p (ucast free_left) s;
         Some (p, s) }
     } else Some (p, s))"

section \<open>Chains\<close>

partial_function (option) clen_from :: "u16 \<Rightarrow> u32 \<Rightarrow> pbuf_state \<Rightarrow> u16 option" where
  "clen_from n p s = (if p \<noteq> 0 then do { b \<leftarrow> deref p s; clen_from (n + 1) (pnext b) s } else Some n)"

definition pbuf_clen :: "u32 \<Rightarrow> pbuf_state \<Rightarrow> u16 option" where
  "pbuf_clen p s = clen_from 0 p s"

definition pbuf_ref :: "u32 \<Rightarrow> pbuf_state \<Rightarrow> pbuf_state option" where
  "pbuf_ref p s = (if p \<noteq> 0 then upd_pbuf p (\<lambda>b. b\<lparr>pref := pref b + 1\<rparr>) s else Some s)"

text \<open>The loop of \<open>pbuf_cat\<close>, up to the last struct of the chain.\<close>

partial_function (option) cat_walk :: "u32 \<Rightarrow> u32 \<Rightarrow> pbuf_state \<Rightarrow> (u32 \<times> pbuf_state) option" where
  "cat_walk p t s =
    do { b \<leftarrow> deref p s;
         if pnext b \<noteq> 0 then do {
           bt \<leftarrow> deref t s;
           cat_walk (pnext b) t (set_pbuf p (b\<lparr>tot_len := tot_len b + tot_len bt\<rparr>) s)
         } else Some (p, s) }"

definition pbuf_cat :: "u32 \<Rightarrow> u32 \<Rightarrow> pbuf_state \<Rightarrow> pbuf_state option" where
  "pbuf_cat h t s =
    (if h = 0 \<or> t = 0 then Some s
     else do {
       (p, s) \<leftarrow> cat_walk h t s;
       bt \<leftarrow> deref t s;
       upd_pbuf p (\<lambda>b. b\<lparr>tot_len := tot_len b + tot_len bt, pnext := t\<rparr>) s })"

definition pbuf_chain :: "u32 \<Rightarrow> u32 \<Rightarrow> pbuf_state \<Rightarrow> pbuf_state option" where
  "pbuf_chain h t s = do { s \<leftarrow> pbuf_cat h t s; pbuf_ref t s }"

definition pbuf_dechain :: "custom_free \<Rightarrow> u32 \<Rightarrow> pbuf_state \<Rightarrow> (u32 \<times> pbuf_state) option" where
  "pbuf_dechain cf p s =
    do { b \<leftarrow> deref p s;
         let q = pnext b;
         (tail_gone, s) \<leftarrow>
           if q \<noteq> 0 then do {
             s \<leftarrow> upd_pbuf q (\<lambda>bq. bq\<lparr>tot_len := tot_len b - plen b\<rparr>) s;
             s \<leftarrow> upd_pbuf p (\<lambda>b. b\<lparr>pnext := 0, tot_len := plen b\<rparr>) s;
             pbuf_free cf q s
           } else Some (1, s);
         Some (if tail_gone > 0 then 0 else q, s) }"

section \<open>Copying\<close>

text \<open>The offsets of \<open>pbuf_copy\<close> are 32-bit \<open>size_t\<close>.\<close>

partial_function (option) copy_loop ::
    "u32 \<Rightarrow> u32 \<Rightarrow> u32 \<Rightarrow> u32 \<Rightarrow> pbuf_state \<Rightarrow> (err_t \<times> pbuf_state) option" where
  "copy_loop p_to offset_to p_from offset_from s =
    do { bt \<leftarrow> deref p_to s;
         bf \<leftarrow> deref p_from s;
         let n = (if ucast (plen bt) - offset_to \<ge> ucast (plen bf) - offset_from
                  then ucast (plen bf) - offset_from else ucast (plen bt) - offset_to);
         let s = s\<lparr>pdata := MEMCPY (payload bt + offset_to) (payload bf + offset_from) (unat n) (pdata s)\<rparr>;
         let (offset_from, p_from) =
           (if offset_from + n \<ge> ucast (plen bf) then (0, pnext bf) else (offset_from + n, p_from));
         let (offset_to, p_to) =
           (if offset_to + n = ucast (plen bt) then (0, pnext bt) else (offset_to + n, p_to));
         if p_to = 0 \<and> p_from \<noteq> 0 then Some (ERR_ARG, s)
         else do {
           queue \<leftarrow> if p_from \<noteq> 0 then do {
               b \<leftarrow> deref p_from s; Some (plen b = tot_len b \<and> pnext b \<noteq> 0) } else Some False;
           if queue then Some (ERR_VAL, s)
           else do {
             queue \<leftarrow> if p_to \<noteq> 0 then do {
                 b \<leftarrow> deref p_to s; Some (plen b = tot_len b \<and> pnext b \<noteq> 0) } else Some False;
             if queue then Some (ERR_VAL, s)
             else if p_from \<noteq> 0 then copy_loop p_to offset_to p_from offset_from s
             else Some (ERR_OK, s) } } }"

definition pbuf_copy :: "u32 \<Rightarrow> u32 \<Rightarrow> pbuf_state \<Rightarrow> (err_t \<times> pbuf_state) option" where
  "pbuf_copy p_to p_from s =
    (if p_to = 0 \<or> p_from = 0 then Some (ERR_ARG, s)
     else do {
       bt \<leftarrow> deref p_to s;
       bf \<leftarrow> deref p_from s;
       if tot_len bt \<ge> tot_len bf then copy_loop p_to 0 p_from 0 s else Some (ERR_ARG, s) })"

text \<open>The loop of \<open>pbuf_copy_partial\<close>; \<open>left\<close> and \<open>copied_total\<close> are equal throughout.\<close>

partial_function (option) copy_partial_loop ::
    "u32 \<Rightarrow> u32 \<Rightarrow> u16 \<Rightarrow> u16 \<Rightarrow> u16 \<Rightarrow> pbuf_state \<Rightarrow> (u16 \<times> pbuf_state) option" where
  "copy_partial_loop p dataptr n offset left s =
    (if n \<noteq> 0 \<and> p \<noteq> 0 then do {
       b \<leftarrow> deref p s;
       if offset \<noteq> 0 \<and> offset \<ge> plen b
       then copy_partial_loop (pnext b) dataptr n (offset - plen b) left s
       else
         let buf_copy_len = min (plen b - offset) n;
             s = s\<lparr>pdata := MEMCPY (dataptr + ucast left) (payload b + ucast offset) (unat buf_copy_len) (pdata s)\<rparr>
         in copy_partial_loop (pnext b) dataptr (n - buf_copy_len) 0 (left + buf_copy_len) s
     } else Some (left, s))"

definition pbuf_copy_partial :: "u32 \<Rightarrow> u32 \<Rightarrow> u16 \<Rightarrow> u16 \<Rightarrow> pbuf_state \<Rightarrow> (u16 \<times> pbuf_state) option" where
  "pbuf_copy_partial buf dataptr n offset s =
    (if buf = 0 \<or> dataptr = 0 then Some (0, s) else copy_partial_loop buf dataptr n offset 0 s)"

partial_function (option) pbuf_skip :: "u32 \<Rightarrow> u16 \<Rightarrow> pbuf_state \<Rightarrow> (u32 \<times> u16) option" where
  "pbuf_skip q offset_left s =
    (if q \<noteq> 0 then do {
       b \<leftarrow> deref q s;
       if plen b \<le> offset_left then pbuf_skip (pnext b) (offset_left - plen b) s else Some (q, offset_left)
     } else Some (q, offset_left))"

text \<open>\<open>out_offset + len\<close> is an addition of \<open>int\<close>s.\<close>

definition pbuf_get_contiguous :: "u32 \<Rightarrow> u32 \<Rightarrow> u32 \<Rightarrow> u16 \<Rightarrow> u16 \<Rightarrow> pbuf_state \<Rightarrow> (u32 \<times> pbuf_state) option" where
  "pbuf_get_contiguous p buffer bufsize n offset s =
    (if p = 0 \<or> buffer = 0 \<or> bufsize < ucast n then Some (0, s)
     else do {
       (q, out_offset) \<leftarrow> pbuf_skip p offset s;
       if q \<noteq> 0 then do {
         b \<leftarrow> deref q s;
         if unat (plen b) \<ge> unat out_offset + unat n then Some (payload b + ucast out_offset, s)
         else do {
           (c, s) \<leftarrow> pbuf_copy_partial q buffer n out_offset s;
           Some (if c \<noteq> n then 0 else buffer, s) }
       } else Some (0, s) })"

partial_function (option) take_loop :: "u32 \<Rightarrow> u32 \<Rightarrow> u32 \<Rightarrow> u32 \<Rightarrow> pbuf_state \<Rightarrow> pbuf_state option" where
  "take_loop p dataptr total_copy_len copied_total s =
    (if total_copy_len \<noteq> 0 then do {
       b \<leftarrow> deref p s;
       let buf_copy_len = (if total_copy_len > ucast (plen b) then ucast (plen b) else total_copy_len);
       take_loop (pnext b) dataptr (total_copy_len - buf_copy_len) (copied_total + buf_copy_len)
         (s\<lparr>pdata := MEMCPY (payload b) (dataptr + copied_total) (unat buf_copy_len) (pdata s)\<rparr>)
     } else Some s)"

definition pbuf_take :: "u32 \<Rightarrow> u32 \<Rightarrow> u16 \<Rightarrow> pbuf_state \<Rightarrow> (err_t \<times> pbuf_state) option" where
  "pbuf_take buf dataptr n s =
    (if buf = 0 \<or> dataptr = 0 then Some (ERR_ARG, s)
     else do {
       b \<leftarrow> deref buf s;
       if tot_len b \<ge> n then do { s \<leftarrow> take_loop buf dataptr (ucast n) 0 s; Some (ERR_OK, s) }
       else Some (ERR_MEM, s) })"

definition pbuf_take_at :: "u32 \<Rightarrow> u32 \<Rightarrow> u16 \<Rightarrow> u16 \<Rightarrow> pbuf_state \<Rightarrow> (err_t \<times> pbuf_state) option" where
  "pbuf_take_at buf dataptr n offset s =
    do { (q, target_offset) \<leftarrow> pbuf_skip buf offset s;
         if q \<noteq> 0 then do {
           b \<leftarrow> deref q s;
           if unat (tot_len b) \<ge> unat target_offset + unat n then
             let first_copy_len = (if unat (plen b) - unat target_offset < unat n
                                   then plen b - target_offset else n);
                 s = s\<lparr>pdata := MEMCPY (payload b + ucast target_offset) dataptr (unat first_copy_len) (pdata s)\<rparr>;
                 remaining_len = n - first_copy_len
             in if remaining_len > 0 then pbuf_take (pnext b) (dataptr + ucast first_copy_len) remaining_len s
                else Some (ERR_OK, s)
           else Some (ERR_MEM, s)
         } else Some (ERR_MEM, s) }"

definition pbuf_clone :: "custom_free \<Rightarrow> pbuf_layer \<Rightarrow> pbuf_type \<Rightarrow> u32 \<Rightarrow> pbuf_state \<Rightarrow> (u32 \<times> pbuf_state) option" where
  "pbuf_clone cf layer type p s =
    do { b \<leftarrow> deref p s;
         (q, s) \<leftarrow> pbuf_alloc cf layer (tot_len b) type s;
         if q = 0 then Some (0, s)
         else do { (err, s) \<leftarrow> pbuf_copy q p s; Some (q, s) } }"

definition pbuf_coalesce :: "custom_free \<Rightarrow> u32 \<Rightarrow> pbuf_layer \<Rightarrow> pbuf_state \<Rightarrow> (u32 \<times> pbuf_state) option" where
  "pbuf_coalesce cf p layer s =
    do { b \<leftarrow> deref p s;
         if pnext b = 0 then Some (p, s)
         else do {
           (q, s) \<leftarrow> pbuf_clone cf layer PBUF_RAM p s;
           if q = 0 then Some (p, s)
           else do { (c, s) \<leftarrow> pbuf_free cf p s; Some (q, s) } } }"

section \<open>Bytes of a chain\<close>

text \<open>\<open>None\<close> inside stands for the result -1.\<close>

definition pbuf_try_get_at :: "u32 \<Rightarrow> u16 \<Rightarrow> pbuf_state \<Rightarrow> u8 option option" where
  "pbuf_try_get_at p offset s =
    do { (q, q_idx) \<leftarrow> pbuf_skip p offset s;
         if q \<noteq> 0 then do {
           b \<leftarrow> deref q s;
           Some (if plen b > q_idx then Some (pdata s (payload b + ucast q_idx)) else None)
         } else Some None }"

definition pbuf_get_at :: "u32 \<Rightarrow> u16 \<Rightarrow> pbuf_state \<Rightarrow> u8 option" where
  "pbuf_get_at p offset s =
    do { ret \<leftarrow> pbuf_try_get_at p offset s; Some (case ret of Some x \<Rightarrow> x | None \<Rightarrow> 0) }"

definition pbuf_put_at :: "u32 \<Rightarrow> u16 \<Rightarrow> u8 \<Rightarrow> pbuf_state \<Rightarrow> pbuf_state option" where
  "pbuf_put_at p offset x s =
    do { (q, q_idx) \<leftarrow> pbuf_skip p offset s;
         if q \<noteq> 0 then do {
           b \<leftarrow> deref q s;
           Some (if plen b > q_idx then s\<lparr>pdata := (pdata s)(payload b + ucast q_idx := x)\<rparr> else s)
         } else Some s }"

text \<open>The first loop of \<open>pbuf_memcmp\<close> is that of \<open>pbuf_skip\<close>; its second one, from \<open>i\<close> on.\<close>

partial_function (option) memcmp_loop :: "u32 \<Rightarrow> u16 \<Rightarrow> u32 \<Rightarrow> u16 \<Rightarrow> u16 \<Rightarrow> pbuf_state \<Rightarrow> u16 option" where
  "memcmp_loop q start s2 n i s =
    (if i < n then do {
       a \<leftarrow> pbuf_get_at q (start + i) s;
       if a \<noteq> pdata s (s2 + ucast i) then Some (if unat i + 1 < 0xFFFF then i + 1 else 0xFFFF)
       else memcmp_loop q start s2 n (i + 1) s
     } else Some 0)"

definition pbuf_memcmp :: "u32 \<Rightarrow> u16 \<Rightarrow> u32 \<Rightarrow> u16 \<Rightarrow> pbuf_state \<Rightarrow> u16 option" where
  "pbuf_memcmp p offset s2 n s =
    do { b \<leftarrow> deref p s;
         if unat (tot_len b) < unat offset + unat n then Some 0xffff
         else do {
           (q, start) \<leftarrow> pbuf_skip p offset s;
           memcmp_loop q start s2 n 0 s } }"

partial_function (option) memfind_loop :: "u32 \<Rightarrow> u32 \<Rightarrow> u16 \<Rightarrow> u16 \<Rightarrow> u16 \<Rightarrow> pbuf_state \<Rightarrow> u16 option" where
  "memfind_loop p mem mem_len max_cmp_start i s =
    (if i \<le> max_cmp_start then do {
       plus \<leftarrow> pbuf_memcmp p i mem mem_len s;
       if plus = 0 then Some i else memfind_loop p mem mem_len max_cmp_start (i + 1) s
     } else Some 0xFFFF)"

definition pbuf_memfind :: "u32 \<Rightarrow> u32 \<Rightarrow> u16 \<Rightarrow> u16 \<Rightarrow> pbuf_state \<Rightarrow> u16 option" where
  "pbuf_memfind p mem mem_len start_offset s =
    do { b \<leftarrow> deref p s;
         let max_cmp_start = tot_len b - mem_len;
         if unat (tot_len b) \<ge> unat mem_len + unat start_offset
         then memfind_loop p mem mem_len max_cmp_start start_offset s
         else Some 0xFFFF }"

partial_function (option) strlen_at :: "memory \<Rightarrow> u32 \<Rightarrow> nat \<Rightarrow> nat option" where
  "strlen_at m a n = (if m (a + of_nat n) = 0 then Some n else strlen_at m a (Suc n))"

definition pbuf_strstr :: "u32 \<Rightarrow> u32 \<Rightarrow> pbuf_state \<Rightarrow> u16 option" where
  "pbuf_strstr p substr s =
    do { b \<leftarrow> deref p s;
         if substr = 0 \<or> pdata s substr = 0 \<or> tot_len b = 0xFFFF then Some 0xFFFF
         else do {
           substr_len \<leftarrow> strlen_at (pdata s) substr 0;
           if substr_len \<ge> 0xFFFF then Some 0xFFFF
           else pbuf_memfind p substr (of_nat substr_len) 0 s } }"

end
