(* ===== verification/LwipMemSpec.thy ===== *)
theory LwipMemSpec
  imports LwipMem Blocks
begin

unbundle bit_operations_syntax

declare of_nat_add [simp del]

text \<open>
  What the heap of LwIP promises: the headers always lay out one list of blocks over the whole
  array without two free neighbours, \<open>lfree\<close> is the first free one, allocation is first fit,
  release undoes it, and \<open>mem_trim\<close> shortens a block in place.
\<close>

section \<open>The layout\<close>

text \<open>The headers from index \<open>a\<close> on, the block before being at \<open>p\<close>.\<close>

fun lay :: "(nat \<Rightarrow> mem_hdr) \<Rightarrow> nat \<Rightarrow> nat \<Rightarrow> block list \<Rightarrow> bool" where
  "lay B p a [] \<longleftrightarrow> True"
| "lay B p a ((s, al) # bs) \<longleftrightarrow>
     B a = \<lparr>mem_next = of_nat (a + s), mem_prev = of_nat p, mem_used = al\<rparr> \<and> lay B a (a + s) bs"

fun last_start :: "nat \<Rightarrow> nat \<Rightarrow> block list \<Rightarrow> nat" where
  "last_start p a [] = p"
| "last_start p a ((s, al) # bs) = last_start a (a + s) bs"

fun first_free :: "nat \<Rightarrow> block list \<Rightarrow> nat" where
  "first_free a [] = a"
| "first_free a ((s, al) # bs) = (if al then first_free (a + s) bs else a)"

abbreviation mem_sized :: "block list \<Rightarrow> bool" where
  "mem_sized \<equiv> blocks_ok 20 4"

definition end_hdr :: mem_hdr where
  "end_hdr = \<lparr>mem_next = 25600, mem_prev = 25600, mem_used = True\<rparr>"

definition mem_blocks :: "ram_heap \<Rightarrow> block list \<Rightarrow> bool" where
  "mem_blocks h bs \<longleftrightarrow> lay (hdrs h) 0 0 bs \<and> bytes bs = 25600 \<and> mem_sized bs \<and> hdrs h 25600 = end_hdr \<and>
     unat (ram h) mod 4 = 0 \<and> unat (ram h) + 25612 < 4294967296"

definition mem_lay :: "ram_heap \<Rightarrow> block list \<Rightarrow> bool" where
  "mem_lay h bs \<longleftrightarrow> mem_blocks h bs \<and> lfree h = of_nat (first_free 0 bs)"

lemmas mem_lay_defs = mem_lay_def mem_blocks_def

definition mem_rep :: "ram_heap \<Rightarrow> block list \<Rightarrow> bool" where
  "mem_rep h bs \<longleftrightarrow> mem_lay h bs \<and> coalesced bs"

lemma unat_of_nat_u16: "n < 65536 \<Longrightarrow> unat (of_nat n :: u16) = n"
  by (simp add: unsigned_of_nat take_bit_nat_eq_self)

lemma of_nat_u16_eq: "m < 65536 \<Longrightarrow> n < 65536 \<Longrightarrow> (of_nat m :: u16) = of_nat n \<longleftrightarrow> m = n"
  by (metis unat_of_nat_u16)

lemma of_nat_u16_less: "m < 65536 \<Longrightarrow> n < 65536 \<Longrightarrow> (of_nat m :: u16) < of_nat n \<longleftrightarrow> m < n"
  by (simp add: word_less_nat_alt unat_of_nat_u16)

lemma ram_end_eq: "ram_end = of_nat 25600" "unat ram_end = 25600"
  by (simp_all add: MEM_SIZE_ALIGNED_def)

lemma lay_append: "lay B p a (xs @ ys) \<longleftrightarrow> lay B p a xs \<and> lay B (last_start p a xs) (a + bytes xs) ys"
  by (induction xs arbitrary: p a) (auto simp: add.assoc)

lemma lay_frame:
  "mem_sized bs \<Longrightarrow> (\<And>y. a \<le> y \<Longrightarrow> y < a + bytes bs \<Longrightarrow> B' y = B y) \<Longrightarrow> lay B' p a bs = lay B p a bs"
proof (induction bs arbitrary: p a)
  case (Cons b bs)
  obtain s al where b: "b = (s, al)" by (cases b)
  have "lay B' a (a + s) bs = lay B a (a + s) bs" using Cons.prems by (intro Cons.IH) (auto simp: b)
  then show ?case using Cons.prems by (simp add: b)
qed simp

lemma lay_relink:
  assumes "lay B p a bs" "mem_sized bs" "\<And>y. a < y \<Longrightarrow> y < a + bytes bs \<Longrightarrow> B' y = B y"
    and "bs \<noteq> [] \<Longrightarrow> B' a = (B a)\<lparr>mem_prev := of_nat q\<rparr>"
  shows "lay B' q a bs"
proof (cases bs)
  case (Cons b cs)
  obtain s al where b: "b = (s, al)" by (cases b)
  have "lay B' a (a + s) cs = lay B a (a + s) cs" using assms by (intro lay_frame) (auto simp: Cons b)
  then show ?thesis using assms by (simp add: Cons b)
qed simp

lemma first_free_append:
  "first_free a (xs @ ys) = (if list_all snd xs then first_free (a + bytes xs) ys else first_free a xs)"
proof (induction xs arbitrary: a)
  case (Cons b xs)
  obtain s al where "b = (s, al)" by (cases b)
  then show ?case using Cons.IH [of "a + s"] by (simp add: add.assoc)
qed simp

lemma first_free_bounds: "first_free a bs \<le> a + bytes bs \<and> a \<le> first_free a bs"
proof (induction bs arbitrary: a)
  case (Cons b bs)
  obtain s al where "b = (s, al)" by (cases b)
  then show ?case using Cons.IH [of "a + s"] by (simp add: add.assoc)
qed simp

lemmas first_free_le = first_free_bounds [THEN conjunct1] first_free_bounds [THEN conjunct2]

lemma first_free_less: "mem_sized bs \<Longrightarrow> \<not> list_all snd bs \<Longrightarrow> first_free a bs < a + bytes bs"
proof (induction bs arbitrary: a)
  case (Cons b bs)
  obtain s al where b: "b = (s, al)" by (cases b)
  show ?case using Cons.IH [of "a + s"] Cons.prems by (auto simp: b add.assoc)
qed simp

lemma last_start_snoc [simp]: "last_start p a (xs @ [(s, al)]) = a + bytes xs"
  by (induction xs arbitrary: p a) (auto simp: add.assoc)

lemma sized_bytes: "mem_sized bs \<Longrightarrow> bs \<noteq> [] \<Longrightarrow> 20 \<le> bytes bs"
  by (cases bs) auto

lemma last_start_less: "mem_sized xs \<Longrightarrow> xs \<noteq> [] \<Longrightarrow> last_start p a xs < a + bytes xs"
  by (cases xs rule: rev_cases) auto

lemma upd_mem_sel [simp]:
  "hdrs (upd_mem a f h) y = (if y = unat a then f (hdrs h y) else hdrs h y)"
  "ram (upd_mem a f h) = ram h" "lfree (upd_mem a f h) = lfree h"
  by (simp_all add: upd_mem_def)

lemma lfree_update_sel [simp]: "hdrs (h\<lparr>lfree := x\<rparr>) = hdrs h" "ram (h\<lparr>lfree := x\<rparr>) = ram h"
  by simp_all

lemma mem_blocks_lfree [simp]: "mem_blocks (h\<lparr>lfree := x\<rparr>) bs = mem_blocks h bs"
  by (simp add: mem_blocks_def)

section \<open>Joining two free blocks\<close>

lemma absorb_lay:
  assumes "mem_lay h (xs @ (s, False) # (t, False) # ys)"
  shows "mem_lay (absorb (of_nat (bytes xs)) (of_nat (bytes xs + s)) h) (xs @ (s + t, False) # ys)"
proof -
  define b where "b = bytes xs"
  define e where "e = b + s + t"
  define h' where "h' = absorb (of_nat b) (of_nat (b + s)) h"
  have L: "lay (hdrs h) 0 0 xs" "hdrs h b = \<lparr>mem_next = of_nat (b + s), mem_prev = of_nat (last_start 0 0 xs), mem_used = False\<rparr>"
    "hdrs h (b + s) = \<lparr>mem_next = of_nat e, mem_prev = of_nat b, mem_used = False\<rparr>" "lay (hdrs h) (b + s) e ys"
    using assms by (auto simp: mem_lay_defs lay_append b_def e_def add.assoc)
  have S: "e + bytes ys = 25600" "mem_sized xs" "mem_sized ys" "20 \<le> s" "20 \<le> t" "s mod 4 = 0" "t mod 4 = 0"
    "hdrs h 25600 = end_hdr"
    using assms by (auto simp: mem_lay_defs b_def e_def)
  have ff: "first_free 0 (xs @ (s, False) # (t, False) # ys) = first_free 0 (xs @ (s + t, False) # ys)"
    by (simp add: first_free_append)
  have "first_free 0 (xs @ (s, False) # (t, False) # ys) \<le> b"
    using first_free_le [of 0 xs] by (simp add: first_free_append b_def)
  then have lf: "lfree h = of_nat (first_free 0 (xs @ (s + t, False) # ys))" "lfree h \<noteq> of_nat (b + s)"
    using assms S ff by (simp_all add: mem_lay_defs of_nat_u16_eq e_def)
  have u: "unat (of_nat b :: u16) = b" "unat (of_nat (b + s) :: u16) = b + s" "unat (of_nat e :: u16) = e"
    using S by (auto intro!: unat_of_nat_u16 simp: e_def)
  have en: "(of_nat e :: u16) \<noteq> ram_end \<longleftrightarrow> ys \<noteq> []"
    using S by (cases ys) (auto simp: ram_end_eq of_nat_u16_eq simp del: of_nat_numeral)
  have eb: "b < e" "b + s < e" using S(4,5) by (simp_all add: e_def)
  have H: "hdrs h' y = (if y = e \<and> ys \<noteq> [] then (hdrs h y)\<lparr>mem_prev := of_nat b\<rparr>
     else if y = b then (hdrs h y)\<lparr>mem_next := of_nat e\<rparr> else hdrs h y)" for y
    using lf(2) en eb by (auto simp: h'_def absorb_def Let_def ptr_to_mem_def u L)
  have "lay (hdrs h') 0 0 xs"
    using L(1) S lay_frame [of xs 0 "hdrs h'" "hdrs h" 0] by (simp add: H b_def e_def)
  moreover have "lay (hdrs h') b e ys"
    using S(4,5) by (intro lay_relink [OF L(4) S(3)]) (auto simp: H e_def)
  moreover have "hdrs h' b = \<lparr>mem_next = of_nat (b + (s + t)), mem_prev = of_nat (last_start 0 0 xs), mem_used = False\<rparr>"
    using S(4,5) by (simp add: H L e_def add.assoc)
  moreover have "hdrs h' 25600 = end_hdr"
    using S sized_bytes [of ys] eb by (cases "ys = []") (auto simp: H)
  moreover have "lfree h' = lfree h" "ram h' = ram h" using lf(2) by (auto simp: h'_def absorb_def Let_def)
  ultimately show ?thesis
    using assms lf(1) S unfolding h'_def [symmetric] b_def [symmetric]
    by (auto simp: mem_lay_defs lay_append b_def e_def add.assoc mod_add_eq [symmetric])
qed

section \<open>Releasing a block\<close>

lemma mem_lay_hdr:
  assumes "mem_lay h (xs @ (s, al) # ys)"
  shows "ptr_to_mem h (of_nat (bytes xs)) =
      \<lparr>mem_next = of_nat (bytes xs + s), mem_prev = of_nat (last_start 0 0 xs), mem_used = al\<rparr>"
    and "unat (of_nat (bytes xs) :: u16) = bytes xs" and "unat (of_nat (bytes xs + s) :: u16) = bytes xs + s"
    and "bytes xs < 25600" and "bytes xs + s \<le> 25600" and "20 \<le> s" and "s mod 4 = 0"
  using assms by (auto simp: mem_lay_defs lay_append ptr_to_mem_def unat_of_nat_u16)

lemma mem_lay_end: "mem_lay h bs \<Longrightarrow> ptr_to_mem h (of_nat 25600) = end_hdr"
  by (simp add: mem_lay_defs ptr_to_mem_def)

lemma plug_next:
  assumes "mem_lay h (xs @ (s, False) # ys)"
  shows "mem_lay (if of_nat (bytes xs) \<noteq> mem_next (ptr_to_mem h (of_nat (bytes xs))) \<and>
        \<not> mem_used (ptr_to_mem h (mem_next (ptr_to_mem h (of_nat (bytes xs))))) \<and>
        mem_next (ptr_to_mem h (of_nat (bytes xs))) \<noteq> ram_end
      then absorb (of_nat (bytes xs)) (mem_next (ptr_to_mem h (of_nat (bytes xs)))) h else h)
    (xs @ merge_right s ys)"
proof -
  note M = mem_lay_hdr [OF assms]
  have total: "bytes xs + s + bytes ys = 25600" "mem_sized ys" using assms by (auto simp: mem_lay_defs)
  show ?thesis
  proof (cases ys)
    case Nil
    then have "bytes xs + s = 25600" using total by simp
    then show ?thesis using M(1) assms mem_lay_end [OF assms] by (simp add: end_hdr_def Nil)
  next
    case (Cons y zs)
    obtain t al where y: "y = (t, al)" by (cases y)
    have n: "ptr_to_mem h (of_nat (bytes xs + s)) = \<lparr>mem_next = of_nat (bytes xs + s + t), mem_prev = of_nat (bytes xs), mem_used = al\<rparr>"
      using mem_lay_hdr(1) [of h "xs @ [(s, False)]" t al zs] assms by (simp add: Cons y add.assoc)
    have "(of_nat (bytes xs) :: u16) \<noteq> of_nat (bytes xs + s)" "(of_nat (bytes xs + s) :: u16) \<noteq> ram_end"
      using M total by (auto simp: Cons y ram_end_eq of_nat_u16_eq simp del: of_nat_numeral)
    then show ?thesis using M(1) n assms absorb_lay [of h xs s t zs] by (auto simp: Cons y)
  qed
qed

lemma plug_prev:
  assumes "mem_lay h (xs @ (s, False) # ys)"
  shows "mem_lay (if mem_prev (ptr_to_mem h (of_nat (bytes xs))) \<noteq> of_nat (bytes xs) \<and>
        \<not> mem_used (ptr_to_mem h (mem_prev (ptr_to_mem h (of_nat (bytes xs)))))
      then absorb (mem_prev (ptr_to_mem h (of_nat (bytes xs)))) (of_nat (bytes xs)) h else h)
    (if xs = [] \<or> snd (last xs) then xs @ (s, False) # ys
     else butlast xs @ (fst (last xs) + s, False) # ys)"
proof (cases xs rule: rev_cases)
  case Nil
  then show ?thesis using mem_lay_hdr(1) [OF assms] assms by simp
next
  case (snoc zs z)
  obtain t al where z: "z = (t, al)" by (cases z)
  have A: "mem_lay h (zs @ (t, al) # (s, False) # ys)" using assms by (simp add: snoc z)
  note M = mem_lay_hdr [OF A]
  have p: "mem_prev (ptr_to_mem h (of_nat (bytes xs))) = of_nat (bytes zs)"
    using mem_lay_hdr(1) [OF assms] by (simp add: snoc z)
  have "(of_nat (bytes zs) :: u16) \<noteq> of_nat (bytes zs + t)"
    using M by (simp add: of_nat_u16_eq)
  then show ?thesis using M(1) A absorb_lay [of h zs t s ys] unfolding p by (auto simp: snoc z)
qed

lemma plug_holes_rep:
  assumes "mem_lay h (xs @ (s, False) # ys)" "coalesced xs" "coalesced ys"
  shows "mem_rep (plug_holes (of_nat (bytes xs)) h) (insert_free xs s ys)"
proof -
  have "\<exists>s' ys'. merge_right s ys = (s', False) # ys'"
    by (cases "(s, ys)" rule: merge_right.cases) auto
  then obtain s' ys' where m: "merge_right s ys = (s', False) # ys'" by blast
  have i: "insert_free xs s ys =
    (if xs = [] \<or> snd (last xs) then xs @ (s', False) # ys' else butlast xs @ (fst (last xs) + s', False) # ys')"
  proof (cases xs rule: rev_cases)
    case (snoc zs z)
    obtain t al where z: "z = (t, al)" by (cases z)
    have "merge_right (t + s) ys = (t + s', False) # ys'"
      using m by (cases "(s, ys)" rule: merge_right.cases) (auto split: if_splits)
    then show ?thesis by (simp add: snoc z insert_free_snoc m)
  qed (simp add: m)
  show ?thesis
    using plug_prev [OF plug_next [OF assms(1), unfolded m]] coalesced_insert_free [OF assms(2,3), of s]
    unfolding i plug_holes_def Let_def mem_rep_def by blast
qed

lemma mem_lay_apart:
  assumes "mem_lay h bs" and "n \<le> 25612"
  shows "unat (ram h + of_nat n) = unat (ram h) + n"
proof -
  have "unat (ram h) + n < 4294967296" using assms by (auto simp: mem_lay_defs)
  then show ?thesis by (simp add: unat_word_ariths unat_of_nat_u32)
qed

text \<open>The pointer to the data of the block at index \<open>b\<close>.\<close>

definition data_of :: "ram_heap \<Rightarrow> nat \<Rightarrow> u32" where
  "data_of h b = ram h + of_nat (b + 8)"

lemma and3: "(x :: u32) AND (4 - 1) = 0 \<longleftrightarrow> unat x mod 4 = 0"
proof -
  have "x AND 3 = take_bit 2 x" by (simp add: take_bit_eq_mask mask_eq_exp_minus_1)
  then have "unat (x AND 3) = take_bit 2 (unat x)" by (simp only: unsigned_take_bit_eq)
  then have "unat (x AND 3) = unat x mod 4" by (simp only: take_bit_eq_mod) simp
  then show ?thesis by (simp add: unat_eq_zero flip: unat_0_iff)
qed

lemma data_of_value: "mem_lay h bs \<Longrightarrow> b \<le> 25600 \<Longrightarrow> unat (data_of h b) = unat (ram h) + b + 8"
  unfolding data_of_def by (subst mem_lay_apart) (auto simp: add.assoc)

lemma data_of_nonzero: "mem_lay h bs \<Longrightarrow> b \<le> 25600 \<Longrightarrow> data_of h b \<noteq> 0"
proof
  assume "mem_lay h bs" "b \<le> 25600" "data_of h b = 0"
  moreover from this(3) have "unat (data_of h b) = 0" by simp
  ultimately show False using data_of_value [of h bs b] by simp
qed

lemma data_of_back:
  assumes "b < 65536"
  shows "data_of h b - SIZEOF_STRUCT_MEM = ram h + of_nat b"
    and "ucast (data_of h b - SIZEOF_STRUCT_MEM - ram h) = (of_nat b :: u16)"
proof -
  show e: "data_of h b - SIZEOF_STRUCT_MEM = ram h + of_nat b"
    by (simp add: data_of_def SIZEOF_STRUCT_MEM_def of_nat_add)
  show "ucast (data_of h b - SIZEOF_STRUCT_MEM - ram h) = (of_nat b :: u16)"
    unfolding e using assms by (intro word_unat_eq_iff [THEN iffD2]) (simp add: unat_ucasts unat_of_nat_u16 unat_of_nat_u32)
qed

lemma link_valid:
  assumes "mem_lay h (xs @ (s, al) # ys)"
  shows "mem_link_valid h (of_nat (bytes xs))"
proof -
  note M = mem_lay_hdr [OF assms]
  have total: "bytes xs + s + bytes ys = 25600" "mem_sized xs" "mem_sized ys" using assms by (auto simp: mem_lay_defs)
  have ls: "last_start 0 0 xs \<le> bytes xs"
    using last_start_less [OF total(2), of 0 0] by (cases "xs = []") auto
  have "unat (ucast (of_nat (bytes xs + s) :: u16) :: u32) \<le> 25600"
    "unat (ucast (of_nat (last_start 0 0 xs) :: u16) :: u32) \<le> 25600"
    using M ls by (simp_all add: unat_ucasts unat_of_nat_u16)
  then have "\<not> ucast (of_nat (bytes xs + s) :: u16) > MEM_SIZE_ALIGNED" 
    "\<not> ucast (of_nat (last_start 0 0 xs) :: u16) > MEM_SIZE_ALIGNED"
    by (simp_all add: word_less_nat_alt MEM_SIZE_ALIGNED_def)
  moreover have "mem_prev (ptr_to_mem h (of_nat (bytes xs + s))) = of_nat (bytes xs)" if "ys \<noteq> []"
  proof -
    obtain t al' zs where "ys = (t, al') # zs" using \<open>ys \<noteq> []\<close> by (cases ys) auto
    then show ?thesis using mem_lay_hdr(1) [of h "xs @ [(s, al)]" t al' zs] assms by simp
  qed
  moreover have "(of_nat (bytes xs + s) :: u16) = ram_end" if "ys = []"
    using that total by (simp add: MEM_SIZE_ALIGNED_def)
  moreover have "mem_next (ptr_to_mem h (of_nat (last_start 0 0 xs))) = of_nat (bytes xs)" if "xs \<noteq> []"
  proof -
    obtain zs z where x: "xs = zs @ [z]" using \<open>xs \<noteq> []\<close> by (cases xs rule: rev_cases) auto
    obtain t al' where z: "z = (t, al')" by (cases z)
    show ?thesis using mem_lay_hdr(1) [of h zs t al' "(s, al) # ys"] assms by (simp add: x z)
  qed
  ultimately show ?thesis unfolding mem_link_valid_def Let_def M(1) by (cases "xs = []") auto
qed

text \<open>Changing the mark of a block.\<close>

lemma mark_blocks:
  assumes "mem_blocks h (xs @ (s, al) # ys)"
  shows "mem_blocks (upd_mem (of_nat (bytes xs)) (mem_used_update (\<lambda>_. u)) h) (xs @ (s, u) # ys)"
proof -
  have A: "lay (hdrs h) 0 0 xs" "lay (hdrs h) (bytes xs) (bytes xs + s) ys" "mem_sized xs" "mem_sized ys"
    "bytes xs + s + bytes ys = 25600" "20 \<le> s" "unat (of_nat (bytes xs) :: u16) = bytes xs"
    using assms by (auto simp: mem_lay_defs lay_append unat_of_nat_u16)
  let ?h = "upd_mem (of_nat (bytes xs)) (mem_used_update (\<lambda>_. u)) h"
  have "lay (hdrs ?h) 0 0 xs" "lay (hdrs ?h) (bytes xs) (bytes xs + s) ys"
    using A lay_frame [OF A(3), of 0 "hdrs ?h" "hdrs h" 0] lay_frame [OF A(4), of "bytes xs + s" "hdrs ?h" "hdrs h" "bytes xs"]
    by auto
  then show ?thesis using assms A by (auto simp: mem_lay_defs lay_append)
qed

lemma release_lay:
  assumes "mem_lay h (xs @ (s, True) # ys)"
  defines "h' \<equiv> upd_mem (of_nat (bytes xs)) (mem_used_update (\<lambda>_. False)) h"
  shows "mem_lay (if of_nat (bytes xs) < lfree h' then h'\<lparr>lfree := of_nat (bytes xs)\<rparr> else h') (xs @ (s, False) # ys)"
proof -
  have f: "first_free 0 (xs @ (s, False) # ys) = min (bytes xs) (first_free 0 (xs @ (s, True) # ys))"
    using first_free_le [of 0 xs] first_free_le(2) [of "bytes xs + s" ys] by (simp add: first_free_append)
  have "lfree h = of_nat (first_free 0 (xs @ (s, True) # ys))" "first_free 0 (xs @ (s, True) # ys) \<le> 25600"
    using assms(1) first_free_le(1) [of 0 "xs @ (s, True) # ys"] by (auto simp: mem_lay_defs)
  moreover have "mem_blocks h' (xs @ (s, False) # ys)"
    using mark_blocks [of h xs s True ys False] assms(1) by (simp add: mem_lay_def h'_def)
  moreover have "lfree h' = lfree h" by (simp add: h'_def)
  ultimately show ?thesis
    using mem_lay_hdr(4) [OF assms(1)] by (auto simp: mem_lay_def f min_def of_nat_u16_less)
qed

lemma aligned_sum: "(a :: nat) mod 4 = 0 \<Longrightarrow> b mod 4 = 0 \<Longrightarrow> (a + b + 8) mod 4 = 0"
  by presburger

lemma sized_aligned: "mem_sized bs \<Longrightarrow> bytes bs mod 4 = 0"
  by (induction bs) (auto simp: mod_add_eq [symmetric])

lemma mem_free_rep:
  assumes "mem_rep h (xs @ (s, True) # ys)"
  shows "mem_rep (mem_free (data_of h (bytes xs)) h) (insert_free xs s ys)"
proof -
  have L: "mem_lay h (xs @ (s, True) # ys)" "coalesced xs" "coalesced ys"
    using assms by (auto simp: mem_rep_def coalesced_append coalesced_Cons)
  note M = mem_lay_hdr [OF L(1)]
  have u: "unat (data_of h (bytes xs)) = unat (ram h) + bytes xs + 8"
    using data_of_value [OF L(1)] M by simp
  have b4: "bytes xs mod 4 = 0" using sized_aligned [of xs] L(1) by (simp add: mem_lay_defs)
  have r4: "unat (ram h) mod 4 = 0" using L(1) by (simp add: mem_lay_defs)
  have "data_of h (bytes xs) \<noteq> 0" using u by (auto simp flip: unat_eq_zero)
  moreover have "data_of h (bytes xs) AND (4 - 1) = 0"
    unfolding and3 u using aligned_sum [OF r4 b4] .
  moreover have "\<not> ram h + of_nat (bytes xs) < ram h"
    using mem_lay_apart [OF L(1), of "bytes xs"] M by (simp add: word_less_nat_alt)
  moreover have "\<not> data_of h (bytes xs) + MIN_SIZE_ALIGNED > ram h + MEM_SIZE_ALIGNED"
  proof -
    have "data_of h (bytes xs) + MIN_SIZE_ALIGNED = ram h + of_nat (bytes xs + 20)"
      by (simp add: data_of_def MIN_SIZE_ALIGNED_def of_nat_add)
    then show ?thesis
      using mem_lay_apart [OF L(1), of "bytes xs + 20"] mem_lay_apart [OF L(1), of 25600] M
      by (simp add: word_less_nat_alt MEM_SIZE_ALIGNED_def)
  qed
  ultimately show ?thesis
    using plug_holes_rep [OF release_lay [OF L(1)] L(2,3)] link_valid [OF L(1)] M(1) data_of_back [of "bytes xs" h] M(4)
    by (simp add: mem_free_def Let_def)
qed

section \<open>Allocation\<close>

text \<open>The place of the first free block of at least \<open>w\<close> bytes.\<close>

fun first_fit :: "nat \<Rightarrow> nat \<Rightarrow> block list \<Rightarrow> nat option" where
  "first_fit w a [] = None"
| "first_fit w a ((s, al) # bs) = (if \<not> al \<and> w \<le> s then Some a else first_fit w (a + s) bs)"

lemma first_fit_cases:
  obtains (none) "none_fits w bs" "first_fit w a bs = None"
  | (some) xs s ys where "bs = xs @ (s, False) # ys" "none_fits w xs" "w \<le> s" "first_fit w a bs = Some (a + bytes xs)"
proof -
  have "none_fits w bs \<and> first_fit w a bs = None \<or>
    (\<exists>xs s ys. bs = xs @ (s, False) # ys \<and> none_fits w xs \<and> w \<le> s \<and> first_fit w a bs = Some (a + bytes xs))"
  proof (induction bs arbitrary: a)
    case (Cons b bs)
    obtain s al where b: "b = (s, al)" by (cases b)
    show ?case
    proof (cases "\<not> al \<and> w \<le> s")
      case True
      then show ?thesis by (intro disjI2 exI [of _ "[]"] exI [of _ s] exI [of _ bs]) (simp add: b none_fits_def)
    next
      case False
      then have n: "none_fits w (b # cs) \<longleftrightarrow> none_fits w cs" for cs by (auto simp: none_fits_def b)
      from Cons.IH [of "a + s"] show ?thesis
      proof (elim disjE exE conjE)
        fix xs t ys
        assume "bs = xs @ (t, False) # ys" "none_fits w xs" "w \<le> t" "first_fit w (a + s) bs = Some (a + s + bytes xs)"
        then show ?thesis using False n
          by (intro disjI2 exI [of _ "b # xs"] exI [of _ t] exI [of _ ys]) (auto simp: b)
      qed (use False n in \<open>auto simp: b\<close>)
    qed
  qed (simp add: none_fits_def)
  then show ?thesis using none some by blast
qed

lemma first_fit_small: "bytes bs < w \<Longrightarrow> first_fit w a bs = None"
proof (induction bs arbitrary: a)
  case (Cons b bs)
  then show ?case by (cases b) simp
qed simp

lemma first_fit_used: "list_all snd us \<Longrightarrow> first_fit w a (us @ vs) = first_fit w (a + bytes us) vs"
proof (induction us arbitrary: a)
  case (Cons u us)
  then show ?case by (cases u) (simp add: add.assoc)
qed simp

lemma first_free_prefix: "first_free a bs = a + bytes (takeWhile snd bs)"
proof (induction bs arbitrary: a)
  case (Cons b bs)
  then show ?case by (cases b) (simp add: add.assoc)
qed simp

lemma u32_index:
  assumes "n \<le> 25600"
  shows "unat (ucast (of_nat n :: u16) :: u32) = n"
  using assms by (simp add: unat_ucasts unat_of_nat_u16)

lemma block_room:
  assumes "a + s \<le> 25600" "8 \<le> s"
  shows "unat (ucast (of_nat (a + s) :: u16) - (ucast (of_nat a :: u16) + SIZEOF_STRUCT_MEM) :: u32) = s - 8"
proof -
  have e: "(ucast (of_nat n :: u16) :: u32) = of_nat n" if "n \<le> 25600" for n
    using u32_index [OF that] that by (intro word_unat_eq_iff [THEN iffD2]) (simp add: unat_of_nat_u32)
  have "(ucast (of_nat (a + s) :: u16) - (ucast (of_nat a :: u16) + SIZEOF_STRUCT_MEM) :: u32) = of_nat (a + s) - of_nat (a + 8)"
    using assms(1) of_nat_add [of a 8, where ?'a = "32 word"]
    unfolding e [OF assms(1)] by (simp add: e SIZEOF_STRUCT_MEM_def)
  also have "\<dots> = of_nat (s - 8)" using assms by (simp flip: of_nat_diff)
  finally have "(ucast (of_nat (a + s) :: u16) - (ucast (of_nat a :: u16) + SIZEOF_STRUCT_MEM) :: u32) = of_nat (s - 8)" .
  moreover have "unat (of_nat (s - 8) :: u32) = s - 8" using assms by (intro unat_of_nat_u32) simp
  ultimately show ?thesis by (simp only:)
qed

lemma find_fit_walk:
  assumes "lay (hdrs h) p a bs" "mem_sized bs" "a + bytes bs = 25600" "unat need \<le> 25600"
  shows "find_fit h need (of_nat a) = Some (map_option of_nat (first_fit (unat need + 8) a bs))"
  using assms(1-3)
proof (induction bs arbitrary: p a)
  case Nil
  have "\<not> 25600 < 25600 - unat need" by arith
  then show ?case
    using assms(4) Nil by (subst find_fit.simps) (simp add: word_less_nat_alt MEM_SIZE_ALIGNED_def unat_sub_if' unat_ucasts)
next
  case (Cons b bs)
  obtain s al where b: "b = (s, al)" by (cases b)
  have ab: "a + s \<le> 25600" "20 \<le> s" "unat (of_nat a :: u16) = a"
    using Cons.prems by (auto simp: b unat_of_nat_u16)
  have m: "ptr_to_mem h (of_nat a) = \<lparr>mem_next = of_nat (a + s), mem_prev = of_nat p, mem_used = al\<rparr>"
    using Cons.prems ab by (simp add: b ptr_to_mem_def)
  have c: "(ucast (of_nat a :: u16) :: u32) < MEM_SIZE_ALIGNED - ucast need \<longleftrightarrow> a < 25600 - unat need"
    using assms(4) u32_index [of a] ab by (simp add: word_less_nat_alt MEM_SIZE_ALIGNED_def unat_sub_if' unat_ucasts)
  have f: "ucast need \<le> (ucast (of_nat (a + s) :: u16) - (ucast (of_nat a :: u16) + SIZEOF_STRUCT_MEM) :: u32)
      \<longleftrightarrow> unat need + 8 \<le> s"
    using block_room [of a s] ab by (auto simp: word_le_nat_alt unat_ucasts)
  have IH: "find_fit h need (of_nat (a + s)) = Some (map_option of_nat (first_fit (unat need + 8) (a + s) bs))"
    using Cons.prems by (intro Cons.IH) (auto simp: b add.assoc)
  show ?case
  proof (cases "a < 25600 - unat need")
    case True
    then show ?thesis by (subst find_fit.simps) (simp add: c f m IH b)
  next
    case False
    then have "bytes (b # bs) < unat need + 8" using Cons.prems(3) by simp
    then show ?thesis using False first_fit_small by (subst find_fit.simps) (simp add: c)
  qed
qed

lemma find_fit_lfree:
  assumes "mem_lay h bs" "unat need \<le> 25600"
  shows "find_fit h need (lfree h) = Some (map_option of_nat (first_fit (unat need + 8) 0 bs))"
proof -
  obtain us vs where uv: "bs = us @ vs" "us = takeWhile snd bs" by (metis takeWhile_dropWhile_id)
  then have "list_all snd us" by (auto simp: list_all_iff dest: set_takeWhileD)
  moreover have "lfree h = of_nat (bytes us)"
    using assms(1) unfolding mem_lay_defs first_free_prefix uv(2) by simp
  moreover have "find_fit h need (of_nat (bytes us)) = Some (map_option of_nat (first_fit (unat need + 8) (bytes us) vs))"
    using assms unfolding mem_lay_defs uv(1) lay_append by (intro find_fit_walk) auto
  ultimately show ?thesis by (simp add: uv(1) first_fit_used)
qed

lemma next_free_walk:
  assumes "lay (hdrs h) p a bs" "mem_sized bs" "a + bytes bs = 25600" "hdrs h 25600 = end_hdr"
  shows "next_free h (of_nat a) = Some (of_nat (first_free a bs))"
  using assms(1-3)
proof (induction bs arbitrary: p a)
  case Nil
  then show ?case by (subst next_free.simps) (simp add: MEM_SIZE_ALIGNED_def)
next
  case (Cons b bs)
  obtain s al where b: "b = (s, al)" by (cases b)
  have ab: "a < 25600" "unat (of_nat a :: u16) = a" using Cons.prems by (auto simp: b unat_of_nat_u16)
  then have "(of_nat a :: u16) \<noteq> ram_end" unfolding ram_end_eq by (subst of_nat_u16_eq) auto
  moreover have "ptr_to_mem h (of_nat a) = \<lparr>mem_next = of_nat (a + s), mem_prev = of_nat p, mem_used = al\<rparr>"
    using Cons.prems ab by (simp add: b ptr_to_mem_def)
  moreover have "next_free h (of_nat (a + s)) = Some (of_nat (first_free (a + s) bs))"
    using Cons.prems by (intro Cons.IH) (auto simp: b add.assoc)
  ultimately show ?case by (subst next_free.simps) (simp add: b)
qed

text \<open>The bytes an allocation of \<open>n\<close> bytes takes, without and with its header.\<close>

definition room_of :: "nat \<Rightarrow> nat" where "room_of n = max 12 (round4 n)"
definition block_of :: "nat \<Rightarrow> nat" where "block_of n = room_of n + 8"

lemma rounded_size_cases:
  "(25600 < unat n \<and> rounded_size n = None) \<or>
   (unat n \<le> 25600 \<and> (\<exists>r. rounded_size n = Some r \<and> unat r = room_of (unat n)))"
proof -
  define w where "w = (ucast (LWIP_MEM_ALIGN_SIZE (ucast n)) :: u16)"
  define v where "v = (if ucast w < MIN_SIZE_ALIGNED then ucast MIN_SIZE_ALIGNED else w)"
  have w: "unat w = round4 (unat n) mod 65536"
    using unat_u16_lt [of n] by (simp add: w_def unat_ucasts unat_ALIGN del: unat_u16_lt)
  have r: "rounded_size n = (if ucast v > MEM_SIZE_ALIGNED \<or> v < n then None else Some v)"
    by (simp add: rounded_size_def w_def v_def Let_def)
  have v: "unat v = (if unat w < 12 then 12 else unat w)"
    by (simp add: v_def word_less_nat_alt unat_ucasts MIN_SIZE_ALIGNED_def)
  have c: "ucast v > MEM_SIZE_ALIGNED \<longleftrightarrow> 25600 < unat v" "v < n \<longleftrightarrow> unat v < unat n"
    by (simp_all add: word_less_nat_alt unat_ucasts MEM_SIZE_ALIGNED_def)
  have n: "unat n \<le> round4 (unat n)" "round4 (unat n) \<le> unat n + 3" "unat n < 65536"
    unfolding round4_def by (presburger, presburger, simp)
  show ?thesis
  proof (cases "unat n \<le> 25600")
    case True
    then have "unat w = round4 (unat n)" "round4 (unat n) \<le> 25600"
      using w by (auto simp: round4_def)
    then show ?thesis using True n r v c by (auto simp: room_of_def)
  next
    case False
    then have "25600 < unat v \<or> unat v < unat n"
      using w v n by (cases "round4 (unat n) < 65536") auto
    then show ?thesis using False r c by auto
  qed
qed

lemma room_of_facts: "room_of n mod 4 = 0" "12 \<le> room_of n" "n \<le> room_of n"
  "n \<le> 25600 \<Longrightarrow> room_of n \<le> 25600"
proof -
  show "room_of n mod 4 = 0" "12 \<le> room_of n" by (simp_all add: room_of_def round4_def max_def)
  show "n \<le> room_of n" unfolding room_of_def round4_def by presburger
  show "n \<le> 25600 \<Longrightarrow> room_of n \<le> 25600" by (auto simp: room_of_def round4_def)
qed

text \<open>The block of \<open>s\<close> bytes after \<open>w\<close> of them have been taken.\<close>

definition cut_block :: "nat \<Rightarrow> nat \<Rightarrow> block list" where
  "cut_block w s = (if 20 \<le> s - w then [(w, True), (s - w, False)] else [(s, True)])"

text \<open>Splitting a block at \<open>w\<close>, shared by allocation and trimming.\<close>

lemma cut_at_hdrs:
  "unat a \<noteq> unat p \<Longrightarrow> unat p \<noteq> unat n \<Longrightarrow> unat a \<noteq> unat n \<Longrightarrow> hdrs (cut_at a p n h) y =
    (if y = unat n \<and> n \<noteq> ram_end then (hdrs h y)\<lparr>mem_prev := p\<rparr>
     else if y = unat a then (hdrs h y)\<lparr>mem_next := p\<rparr>
     else if y = unat p then \<lparr>mem_next = n, mem_prev = a, mem_used = False\<rparr> else hdrs h y)"
  by (auto simp: cut_at_def Let_def)

lemma cut_blocks:
  assumes A: "lay (hdrs h) 0 0 xs" "lay (hdrs h) q (bytes xs + s) ys" "mem_sized xs" "mem_sized ys"
      "bytes xs + s + bytes ys = 25600" "hdrs h 25600 = end_hdr" "s mod 4 = 0"
      "unat (ram h) mod 4 = 0" "unat (ram h) + 25612 < 4294967296"
    and w: "20 \<le> w" "20 \<le> s - w" "w mod 4 = 0"
    and m: "hdrs h (bytes xs) = \<lparr>mem_next = n, mem_prev = of_nat (last_start 0 0 xs), mem_used = al\<rparr>"
  shows "mem_blocks (cut_at (of_nat (bytes xs)) (of_nat (bytes xs + w)) (of_nat (bytes xs + s)) h)
    (xs @ (w, al) # (s - w, False) # ys)"
proof -
  define b where "b = bytes xs"
  define h' where "h' = cut_at (of_nat b) (of_nat (b + w)) (of_nat (b + s)) h"
  have ws: "w < s" "b + s \<le> 25600" using w A(5) by (auto simp: b_def)
  have u: "unat (of_nat b :: u16) = b" "unat (of_nat (b + s) :: u16) = b + s" "unat (of_nat (b + w) :: u16) = b + w"
    using ws by (auto intro!: unat_of_nat_u16)
  have en: "(of_nat (b + s) :: u16) \<noteq> ram_end \<longleftrightarrow> ys \<noteq> []"
    using A(4,5) ws sized_bytes [of ys] unfolding ram_end_eq b_def
    by (subst of_nat_u16_eq) (cases "ys = []"; simp)+
  have H: "hdrs h' y = (if y = b + s \<and> ys \<noteq> [] then (hdrs h y)\<lparr>mem_prev := of_nat (b + w)\<rparr>
      else if y = b then \<lparr>mem_next = of_nat (b + w), mem_prev = of_nat (last_start 0 0 xs), mem_used = al\<rparr>
      else if y = b + w then \<lparr>mem_next = of_nat (b + s), mem_prev = of_nat b, mem_used = False\<rparr>
      else hdrs h y)" for y
  proof -
    have "b \<noteq> b + w" "b + w \<noteq> b + s" "b \<noteq> b + s" using w ws by simp_all
    then have "hdrs h' y = (if y = b + s \<and> of_nat (b + s) \<noteq> ram_end then (hdrs h y)\<lparr>mem_prev := of_nat (b + w)\<rparr>
      else if y = b then (hdrs h y)\<lparr>mem_next := of_nat (b + w)\<rparr>
      else if y = b + w then \<lparr>mem_next = of_nat (b + s), mem_prev = of_nat b, mem_used = False\<rparr> else hdrs h y)"
      unfolding h'_def by (subst cut_at_hdrs) (simp_all only: u not_False_eq_True)
    then show ?thesis unfolding en m [folded b_def, symmetric] by (auto simp: m [folded b_def])
  qed
  have "lay (hdrs h') 0 0 xs" using lay_frame [OF A(3), of 0 "hdrs h'" "hdrs h" 0] A(1) w ws by (simp add: H b_def)
  moreover have "lay (hdrs h') (b + w) (b + s) ys"
  proof (rule lay_relink [OF A(2) [folded b_def] A(4)])
    show "hdrs h' y = hdrs h y" if "b + s < y" for y using that w ws H [of y] by simp
    show "hdrs h' (b + s) = (hdrs h (b + s))\<lparr>mem_prev := of_nat (b + w)\<rparr>" if "ys \<noteq> []"
      using that H [of "b + s"] by simp
  qed
  moreover have "hdrs h' 25600 = end_hdr"
    using A(4-6) sized_bytes [of ys] w ws by (cases "ys = []") (auto simp: H b_def)
  moreover have "ram h' = ram h" by (simp add: h'_def cut_at_def Let_def)
  moreover have "(s - w) mod 4 = 0" using A(7) w ws by presburger
  ultimately show ?thesis
    using A(3-9) w ws(1) H [of b] H [of "b + w"] unfolding h'_def [symmetric] b_def [symmetric]
    by (simp add: mem_blocks_def lay_append b_def add.assoc)
qed

lemma cut_at_sel [simp]: "ram (cut_at a b c h) = ram h" "lfree (cut_at a b c h) = lfree h"
  "cut_at a b c (h\<lparr>lfree := x\<rparr>) = (cut_at a b c h)\<lparr>lfree := x\<rparr>"
  by (simp_all add: cut_at_def Let_def upd_mem_def)

lemma mem_blocks_parts:
  assumes "mem_blocks h (xs @ (s, al) # ys)"
  shows "lay (hdrs h) 0 0 xs" "lay (hdrs h) (bytes xs) (bytes xs + s) ys" "mem_sized xs" "mem_sized ys"
    "bytes xs + s + bytes ys = 25600" "hdrs h 25600 = end_hdr" "s mod 4 = 0"
    "unat (ram h) mod 4 = 0" "unat (ram h) + 25612 < 4294967296"
    "hdrs h (bytes xs) = \<lparr>mem_next = of_nat (bytes xs + s), mem_prev = of_nat (last_start 0 0 xs), mem_used = al\<rparr>"
  using assms by (auto simp: mem_lay_defs lay_append)

lemma fits_cut:
  fixes need :: u16
  assumes "b + s \<le> 25600" "unat need + 8 \<le> s"
  shows "ucast need + SIZEOF_STRUCT_MEM + MIN_SIZE_ALIGNED \<le>
      (ucast (of_nat (b + s) :: u16) - (ucast (of_nat b :: u16) + SIZEOF_STRUCT_MEM) :: u32) \<longleftrightarrow>
    20 \<le> s - (unat need + 8)"
proof -
  have "unat (ucast need + SIZEOF_STRUCT_MEM + MIN_SIZE_ALIGNED :: u32) = unat need + 20"
    using assms by (simp add: unat_word_ariths unat_ucast_u16_u32 mem_consts)
  then show ?thesis using block_room [of b s] assms by (auto simp: word_le_nat_alt)
qed

lemma take_fit_lay:
  assumes L: "mem_lay h (xs @ (s, False) # ys)" and need: "unat need + 8 \<le> s" "12 \<le> unat need" "unat need mod 4 = 0"
  shows "mem_blocks (take_fit need (of_nat (bytes xs)) h) (xs @ cut_block (unat need + 8) s @ ys)"
    and "lfree (take_fit need (of_nat (bytes xs)) h) = lfree h" and "ram (take_fit need (of_nat (bytes xs)) h) = ram h"
proof -
  note M = mem_lay_hdr [OF L]
  have B: "mem_blocks h (xs @ (s, False) # ys)" using L by (simp add: mem_lay_def)
  let ?b = "of_nat (bytes xs) :: u16" and ?w = "unat need + 8"
  have p2: "?b + ucast SIZEOF_STRUCT_MEM + need = of_nat (bytes xs + ?w)"
    by (simp add: SIZEOF_STRUCT_MEM_def of_nat_add)
  have T: "take_fit need ?b h = upd_mem ?b (mem_used_update (\<lambda>_. True))
      (if 20 \<le> s - ?w then cut_at ?b (of_nat (bytes xs + ?w)) (of_nat (bytes xs + s)) h else h)"
    unfolding take_fit_def Let_def M(1) mem_hdr.select_convs p2 fits_cut [OF M(5) need(1)] by simp
  show "lfree (take_fit need ?b h) = lfree h" "ram (take_fit need ?b h) = ram h" by (simp_all add: T)
  have w: "20 \<le> ?w" "?w mod 4 = 0" using need by (auto simp: mod_add_eq [symmetric])
  show "mem_blocks (take_fit need ?b h) (xs @ cut_block ?w s @ ys)"
  proof (cases "20 \<le> s - ?w")
    case True
    have "mem_blocks (cut_at ?b (of_nat (bytes xs + ?w)) (of_nat (bytes xs + s)) h) (xs @ (?w, False) # (s - ?w, False) # ys)"
      using mem_blocks_parts [OF B] w True by (intro cut_blocks) simp_all
    then show ?thesis using True mark_blocks by (simp add: T cut_block_def)
  next
    case False
    then show ?thesis using mark_blocks [OF B, of True] by (simp add: T cut_block_def)
  qed
qed

lemma coalesced_cut: "coalesced (xs @ (s, False) # ys) \<Longrightarrow> coalesced (xs @ cut_block w s @ ys)"
  by (auto simp: cut_block_def coalesced_append coalesced_Cons)

lemma data_of_eq: "b \<le> 25600 \<Longrightarrow> ram h + ucast (of_nat b :: u16) + SIZEOF_STRUCT_MEM = data_of h b"
proof -
  assume "b \<le> 25600"
  then have "(ucast (of_nat b :: u16) :: u32) = of_nat b"
    using u32_index [of b] by (intro word_unat_eq_iff [THEN iffD2]) (simp add: unat_of_nat_u32)
  then show ?thesis by (simp add: data_of_def SIZEOF_STRUCT_MEM_def of_nat_add)
qed

text \<open>The end of \<open>mem_malloc\<close>: a new \<open>lfree\<close> when the first free block was taken.\<close>

lemma malloc_tail:
  assumes L: "mem_lay h (xs @ (s, False) # ys)" and need: "unat need + 8 \<le> s" "12 \<le> unat need" "unat need mod 4 = 0"
  defines "h1 \<equiv> take_fit need (of_nat (bytes xs)) h" and "bs' \<equiv> xs @ cut_block (unat need + 8) s @ ys"
  shows "\<exists>h'. (if of_nat (bytes xs) = lfree h1
      then do { cur \<leftarrow> next_free h1 (lfree h1);
                Some (ram h + ucast (of_nat (bytes xs) :: u16) + SIZEOF_STRUCT_MEM, h1\<lparr>lfree := cur\<rparr>) }
      else Some (ram h + ucast (of_nat (bytes xs) :: u16) + SIZEOF_STRUCT_MEM, h1)) = Some (data_of h (bytes xs), h') \<and>
    mem_lay h' bs' \<and> ram h' = ram h"
proof -
  note M = mem_lay_hdr [OF L]
  note T = take_fit_lay [OF L need, folded h1_def bs'_def]
  have lf: "lfree h1 = of_nat (first_free 0 (xs @ (s, False) # ys))" using T(2) L by (simp add: mem_lay_defs)
  have ub: "first_free 0 xs \<le> bytes xs" using first_free_le(1) [of 0 xs] by simp
  have d: "ram h + ucast (of_nat (bytes xs) :: u16) + SIZEOF_STRUCT_MEM = data_of h (bytes xs)"
    using M by (intro data_of_eq) simp
  show ?thesis
  proof (cases "list_all snd xs")
    case True
    then have e: "lfree h1 = of_nat (bytes xs)" using lf by (simp add: first_free_append)
    have "lay (hdrs h1) (last_start 0 0 xs) (bytes xs) (cut_block (unat need + 8) s @ ys) \<and> hdrs h1 25600 = end_hdr \<and>
        mem_sized (cut_block (unat need + 8) s @ ys) \<and> bytes xs + bytes (cut_block (unat need + 8) s @ ys) = 25600"
      using T(1) by (simp add: mem_blocks_def bs'_def lay_append)
    then have "next_free h1 (of_nat (bytes xs)) = Some (of_nat (first_free (bytes xs) (cut_block (unat need + 8) s @ ys)))"
      using next_free_walk by blast
    moreover have "first_free 0 bs' = first_free (bytes xs) (cut_block (unat need + 8) s @ ys)"
      using True by (simp add: bs'_def first_free_append [of 0 xs])
    ultimately show ?thesis using T e d by (simp add: mem_lay_def)
  next
    case False
    then have "first_free 0 xs < bytes xs"
      using first_free_less [of xs 0] L by (simp add: mem_lay_defs)
    then have e: "lfree h1 \<noteq> of_nat (bytes xs)" using lf False M(4) by (simp add: first_free_append of_nat_u16_eq)
    have "first_free 0 bs' = first_free 0 (xs @ (s, False) # ys)" using False by (simp add: bs'_def first_free_append)
    then have "mem_lay h1 bs'" using T(1) lf by (simp add: mem_lay_defs)
    then show ?thesis using e [symmetric] d T(3) by simp
  qed
qed

lemma mem_malloc_cases:
  assumes "mem_rep h bs"
  obtains (null) "mem_malloc n h = Some (0, h)" "n = 0 \<or> 25600 < unat n \<or> none_fits (block_of (unat n)) bs"
  | (some) xs s ys h' where "n \<noteq> 0" "unat n \<le> 25600" "bs = xs @ (s, False) # ys" "none_fits (block_of (unat n)) xs"
      "block_of (unat n) \<le> s" "mem_malloc n h = Some (data_of h (bytes xs), h')"
      "mem_rep h' (xs @ cut_block (block_of (unat n)) s @ ys)" "ram h' = ram h"
proof (cases "n = 0 \<or> 25600 < unat n")
  case True
  then have "mem_malloc n h = Some (0, h)" using rounded_size_cases [of n] by (auto simp: mem_malloc_def)
  then show ?thesis using True null by blast
next
  case False
  then obtain r where r: "rounded_size n = Some r" "unat r = room_of (unat n)"
    using rounded_size_cases [of n] by auto
  then have R: "unat r + 8 = block_of (unat n)" "unat r \<le> 25600" "12 \<le> unat r" "unat r mod 4 = 0"
    using room_of_facts [of "unat n"] False by (auto simp: block_of_def)
  have L: "mem_lay h bs" using assms by (simp add: mem_rep_def)
  note F = find_fit_lfree [OF L R(2)]
  show ?thesis
  proof (cases rule: first_fit_cases [of "unat r + 8" bs 0])
    case none
    then show ?thesis using null [OF _ disjI2 [OF disjI2]] F r False R(1) by (simp add: mem_malloc_def)
  next
    case (some xs s ys)
    obtain h' where h': "mem_malloc n h = Some (data_of h (bytes xs), h')"
      "mem_lay h' (xs @ cut_block (unat r + 8) s @ ys)" "ram h' = ram h"
      using malloc_tail [of h xs s ys r] L some F R r(1) False by (auto simp: mem_malloc_def Let_def)
    have "coalesced (xs @ cut_block (unat r + 8) s @ ys)"
      using assms coalesced_cut [of xs s ys] by (simp add: mem_rep_def some(1))
    then show ?thesis
      using False some h' unfolding R(1) by (intro that(2) [of xs s ys h']) (auto simp: mem_rep_def)
  qed
qed

section \<open>Trimming a block\<close>

text \<open>The blocks from a used one of \<open>s\<close> bytes on after it has been cut to \<open>w\<close>.\<close>

fun trim_blocks :: "nat \<Rightarrow> nat \<Rightarrow> block list \<Rightarrow> block list" where
  "trim_blocks w s ((t, False) # ys) = (if w = s then (s, True) # (t, False) # ys else (w, True) # (s - w + t, False) # ys)"
| "trim_blocks w s ys = cut_block w s @ ys"

lemma trim_unfold:
  assumes L: "mem_lay h (xs @ (s, True) # ys)" and n: "unat n \<le> 25600" "block_of (unat n) \<le> s"
  defines "b \<equiv> bytes xs" and "w \<equiv> block_of (unat n)"
  shows "mem_trim (data_of h b) n h =
    (data_of h b,
     if w = s then h
     else if \<not> mem_used (ptr_to_mem h (of_nat (b + s))) then
       cut_at (of_nat b) (of_nat (b + w)) (mem_next (ptr_to_mem h (of_nat (b + s))))
         (if lfree h = of_nat (b + s) then h\<lparr>lfree := of_nat (b + w)\<rparr> else h)
     else if 20 \<le> s - w then
       cut_at (of_nat b) (of_nat (b + w)) (of_nat (b + s))
         (if of_nat (b + w) < lfree h then h\<lparr>lfree := of_nat (b + w)\<rparr> else h)
     else h)"
proof -
  note M = mem_lay_hdr [OF L]
  obtain r where r: "rounded_size n = Some r" "unat r = room_of (unat n)"
    using rounded_size_cases [of n] n(1) by auto
  have w: "w = unat r + 8" "20 \<le> w" "w mod 4 = 0" "w \<le> s"
    using room_of_facts [of "unat n"] n(2) r(2) by (auto simp: w_def block_of_def mod_add_eq [symmetric])
  have B: "b + s \<le> 25600" "20 \<le> s" "s mod 4 = 0" using M by (simp_all add: b_def)
  have m: "ptr_to_mem h (of_nat b) = \<lparr>mem_next = of_nat (b + s), mem_prev = of_nat (last_start 0 0 xs), mem_used = True\<rparr>"
    using M(1) by (simp add: b_def)
  have sz: "of_nat (b + s) - of_nat b - ucast SIZEOF_STRUCT_MEM = (of_nat (s - 8) :: u16)"
    using B by (simp add: SIZEOF_STRUCT_MEM_def of_nat_add of_nat_diff)
  have us: "unat (of_nat (s - 8) :: u16) = s - 8" using B by (intro unat_of_nat_u16) simp
  have legal: "\<not> data_of h b < ram h" "\<not> data_of h b \<ge> ram h + MEM_SIZE_ALIGNED"
    using data_of_value [OF L, of b] mem_lay_apart [OF L, of 25600] B
    by (simp_all add: word_less_nat_alt word_le_nat_alt MEM_SIZE_ALIGNED_def)
  have pt: "ucast (data_of h b - SIZEOF_STRUCT_MEM - ram h) = (of_nat b :: u16)"
    using data_of_back(2) [of b h] B by simp
  have p2: "of_nat b + ucast SIZEOF_STRUCT_MEM + r = (of_nat (b + w) :: u16)"
    by (simp add: w(1) SIZEOF_STRUCT_MEM_def of_nat_add)
  have u: "unat (of_nat b :: u16) = b" "unat (of_nat (b + s) :: u16) = b + s" "unat (of_nat (b + w) :: u16) = b + w"
    using B w(4) by (auto intro!: unat_of_nat_u16)
  have c: "ucast r + SIZEOF_STRUCT_MEM + MIN_SIZE_ALIGNED \<le> (ucast (of_nat (s - 8) :: u16) :: u32) \<longleftrightarrow> 20 \<le> s - w"
  proof -
    have "unat (ucast r + SIZEOF_STRUCT_MEM + MIN_SIZE_ALIGNED :: u32) = w + 12"
      using w(1) B(1) w(4) by (simp add: unat_word_ariths unat_ucasts mem_consts)
    then show ?thesis using w B unfolding word_le_nat_alt unat_ucast_u16_u32 us by auto
  qed
  have "r > of_nat (s - 8) \<longleftrightarrow> False" "r = of_nat (s - 8) \<longleftrightarrow> w = s"
      using w us B by (auto simp: word_less_nat_alt word_unat_eq_iff)
  then show ?thesis
    unfolding mem_trim_def r(1) option.case legal pt Let_def m mem_hdr.select_convs sz p2 c
    by (cases "w = s"; cases "mem_used (ptr_to_mem h (of_nat (b + s)))"; cases "20 \<le> s - w"; simp only: legal if_False if_True simp_thms)
qed

lemma trim_next_free:
  assumes L: "mem_lay h (xs @ (s, True) # (t, False) # zs)" and w: "20 \<le> w" "w mod 4 = 0" "w < s"
  shows "mem_lay (cut_at (of_nat (bytes xs)) (of_nat (bytes xs + w)) (mem_next (ptr_to_mem h (of_nat (bytes xs + s))))
      (if lfree h = of_nat (bytes xs + s) then h\<lparr>lfree := of_nat (bytes xs + w)\<rparr> else h))
    (xs @ (w, True) # (s - w + t, False) # zs)"
proof -
  have n: "mem_next (ptr_to_mem h (of_nat (bytes xs + s))) = of_nat (bytes xs + (s + t))" and
    N: "bytes xs + s < 25600" "20 \<le> t" "t mod 4 = 0"
    using mem_lay_hdr [of h "xs @ [(s, True)]" t False zs] L by (simp_all add: add.assoc)
  have B: "mem_blocks h (xs @ (s, True) # (t, False) # zs)" using L by (simp add: mem_lay_def)
  note P = mem_blocks_parts [OF B]
  have Z: "lay (hdrs h) (bytes xs + s) (bytes xs + (s + t)) zs" "mem_sized zs"
    using P(2,4) by (simp_all add: add.assoc)
  have "mem_blocks (cut_at (of_nat (bytes xs)) (of_nat (bytes xs + w)) (of_nat (bytes xs + (s + t))) h)
      (xs @ (w, True) # (s + t - w, False) # zs)"
    using P w N by (intro cut_blocks [OF P(1) Z(1) P(3) Z(2)]) (auto simp: mod_add_eq [symmetric])
  moreover have "s + t - w = s - w + t" using w by simp
  moreover have "lfree h = of_nat (bytes xs + s) \<longleftrightarrow> list_all snd xs"
  proof (cases "list_all snd xs")
    case False
    then have "first_free 0 xs < bytes xs" using first_free_less [OF P(3), of 0] by simp
    then show ?thesis using L False N(1) by (simp add: mem_lay_def first_free_append of_nat_u16_eq)
  qed (use L in \<open>simp add: mem_lay_def first_free_append\<close>)
  ultimately show ?thesis using L unfolding n by (auto simp: mem_lay_def first_free_append)
qed

lemma trim_next_used:
  assumes L: "mem_lay h (xs @ (s, True) # ys)" and w: "20 \<le> w" "w mod 4 = 0" "20 \<le> s - w"
  shows "mem_lay (cut_at (of_nat (bytes xs)) (of_nat (bytes xs + w)) (of_nat (bytes xs + s))
      (if of_nat (bytes xs + w) < lfree h then h\<lparr>lfree := of_nat (bytes xs + w)\<rparr> else h))
    (xs @ (w, True) # (s - w, False) # ys)"
proof -
  have B: "mem_blocks h (xs @ (s, True) # ys)" using L by (simp add: mem_lay_def)
  note P = mem_blocks_parts [OF B]
  have "mem_blocks (cut_at (of_nat (bytes xs)) (of_nat (bytes xs + w)) (of_nat (bytes xs + s)) h)
      (xs @ (w, True) # (s - w, False) # ys)"
    using P w by (intro cut_blocks) auto
  moreover have "of_nat (bytes xs + w) < lfree h \<longleftrightarrow> list_all snd xs"
  proof (cases "list_all snd xs")
    case False
    then have "first_free 0 xs < bytes xs" using first_free_less [OF P(3), of 0] by simp
    then show ?thesis using L False P(5) w(3) by (simp add: mem_lay_def first_free_append of_nat_u16_less)
  next
    case True
    have "bytes xs + s \<le> first_free (bytes xs + s) ys" "first_free (bytes xs + s) ys \<le> 25600"
      using first_free_le [of "bytes xs + s" ys] P(5) by simp_all
    then show ?thesis using L True P(5) w(3) by (simp add: mem_lay_def first_free_append of_nat_u16_less)
  qed
  ultimately show ?thesis using L by (auto simp: mem_lay_def first_free_append)
qed

text \<open>Trimming a block keeps its place and its data, and frees the rest of it.\<close>

lemma trim_rep:
  assumes "mem_rep h (xs @ (s, True) # ys)" and n: "unat n \<le> 25600" "block_of (unat n) \<le> s"
  shows "\<exists>h'. mem_trim (data_of h (bytes xs)) n h = (data_of h (bytes xs), h') \<and>
    mem_rep h' (xs @ trim_blocks (block_of (unat n)) s ys) \<and> ram h' = ram h"
proof -
  have L: "mem_lay h (xs @ (s, True) # ys)" and co: "coalesced (xs @ (s, True) # ys)"
    using assms(1) by (auto simp: mem_rep_def)
  define w where "w = block_of (unat n)"
  have w: "20 \<le> w" "w mod 4 = 0" "w \<le> s"
    using room_of_facts [of "unat n"] n(2) by (auto simp: w_def block_of_def mod_add_eq [symmetric])
  note T = trim_unfold [OF L n, folded w_def]
  have ed: "ptr_to_mem h (of_nat (bytes xs + s)) = end_hdr" if "ys = []"
    using that mem_lay_end [OF L] L by (simp add: mem_lay_defs)
  have hd: "mem_used (ptr_to_mem h (of_nat (bytes xs + s))) = snd (hd ys)" if "ys \<noteq> []"
  proof -
    obtain t al zs where y: "ys = (t, al) # zs" using \<open>ys \<noteq> []\<close> by (cases ys) auto
    show ?thesis using mem_lay_hdr(1) [of h "xs @ [(s, True)]" t al zs] L by (simp add: y)
  qed
  consider (same) "w = s" | (free) t zs where "w \<noteq> s" "ys = (t, False) # zs"
    | (used) "w \<noteq> s" "ys = [] \<or> snd (hd ys)"
    by (cases ys; cases "w = s"; cases "snd (hd ys)") auto
  then show ?thesis
  proof cases
    case same
    then have "trim_blocks w s ys = (s, True) # ys"
      by (cases "(w, s, ys)" rule: trim_blocks.cases) (auto simp: cut_block_def)
    then show ?thesis using T same assms(1) by (simp add: w_def [symmetric])
  next
    case free
    have "coalesced (xs @ (w, True) # (s - w + t, False) # zs)"
      using co by (auto simp: free coalesced_append coalesced_Cons)
    then show ?thesis
      using T trim_next_free [of h xs s t zs w] L w free hd by (simp add: w_def [symmetric] mem_rep_def)
  next
    case used
    then have "mem_used (ptr_to_mem h (of_nat (bytes xs + s)))" using ed hd by (cases "ys = []") (simp_all add: end_hdr_def)
    moreover have "trim_blocks w s ys = cut_block w s @ ys"
      using used(2) by (cases "(w, s, ys)" rule: trim_blocks.cases) auto
    moreover have "coalesced (xs @ cut_block w s @ ys)"
      using co used by (auto simp: cut_block_def coalesced_append coalesced_Cons)
    ultimately show ?thesis
      using T trim_next_used [OF L w(1,2)] L used assms(1) by (auto simp: w_def [symmetric] mem_rep_def cut_block_def)
  qed
qed

section \<open>Every use of the heap\<close>

text \<open>\<open>L\<close> holds the live pointers with the bytes asked for at each.\<close>

inductive mem_run :: "ram_heap \<Rightarrow> (u32 \<Rightarrow> nat option) \<Rightarrow> bool" where
  init: "unat p + 25615 < 4294967296 \<Longrightarrow> mem_run (mem_init p h) Map.empty"
| malloc: "mem_run h L \<Longrightarrow> mem_malloc n h = Some (p, h') \<Longrightarrow>
    mem_run h' (if p = 0 then L else L(p \<mapsto> unat n))"
| free: "mem_run h L \<Longrightarrow> L p = Some n \<Longrightarrow> mem_run (mem_free p h) (L(p := None))"
| trim: "mem_run h L \<Longrightarrow> L p = Some n \<Longrightarrow> unat m \<le> n \<Longrightarrow> mem_trim p m h = (q, h') \<Longrightarrow>
    mem_run h' (L(q \<mapsto> unat m))"

definition live_blocks :: "ram_heap \<Rightarrow> block list \<Rightarrow> (u32 \<Rightarrow> nat option) \<Rightarrow> bool" where
  "live_blocks h bs L \<longleftrightarrow> (\<forall>p n. L p = Some n \<longrightarrow> (\<exists>(y, s) \<in> allocs 0 bs. p = data_of h y)) \<and>
     (\<forall>(y, s) \<in> allocs 0 bs. \<exists>n. L (data_of h y) = Some n \<and> n \<le> 25600 \<and> block_of n \<le> s)"

lemma data_of_inj: "mem_lay h bs \<Longrightarrow> x \<le> 25600 \<Longrightarrow> y \<le> 25600 \<Longrightarrow> data_of h x = data_of h y \<longleftrightarrow> x = y"
  by (metis data_of_value add_left_cancel add_right_cancel)

lemma alloc_index: "mem_lay h bs \<Longrightarrow> (y, s) \<in> allocs 0 bs \<Longrightarrow> y + s \<le> 25600 \<and> 20 \<le> s \<and> y mod 4 = 0"
  using allocs_range [of 20 4 bs y s 0] allocs_aligned [of y s 0 bs 20 4] by (auto simp: mem_lay_defs)

lemma alloc_split: "(y, s) \<in> allocs a bs \<Longrightarrow> \<exists>xs ys. bs = xs @ (s, True) # ys \<and> y = a + bytes xs"
proof (induction bs arbitrary: a)
  case (Cons b bs)
  obtain t al where b: "b = (t, al)" by (cases b)
  show ?case
  proof (cases "(y, s) \<in> allocs (a + t) bs")
    case True
    then obtain xs ys where "bs = xs @ (s, True) # ys \<and> y = a + t + bytes xs" using Cons.IH by blast
    then show ?thesis by (intro exI [of _ "b # xs"] exI [of _ ys]) (simp add: b)
  next
    case False
    then show ?thesis using Cons.prems by (intro exI [of _ "[]"] exI [of _ bs]) (auto simp: b split: if_splits)
  qed
qed simp

lemma live_split:
  assumes "mem_rep h bs" "live_blocks h bs L" "L p = Some n"
  shows "\<exists>xs s ys. bs = xs @ (s, True) # ys \<and> p = data_of h (bytes xs) \<and> n \<le> 25600 \<and> block_of n \<le> s"
proof -
  obtain y s where y: "(y, s) \<in> allocs 0 bs" "p = data_of h y"
    using assms(2,3) unfolding live_blocks_def by blast
  then obtain m where "L (data_of h y) = Some m" "m \<le> 25600" "block_of m \<le> s"
    using assms(2) unfolding live_blocks_def by blast
  moreover obtain xs ys where "bs = xs @ (s, True) # ys" "y = 0 + bytes xs" using alloc_split [OF y(1)] by blast
  ultimately show ?thesis using y(2) assms(3) by (intro exI [of _ xs] exI [of _ s] exI [of _ ys]) simp
qed

lemma absorb_ram [simp]: "ram (absorb a b h) = ram h"
  by (simp add: absorb_def Let_def)

lemma plug_holes_ram [simp]: "ram (plug_holes m h) = ram h"
  by (simp add: plug_holes_def Let_def)

lemma mem_free_ram [simp]: "ram (mem_free p h) = ram h"
  by (simp add: mem_free_def Let_def)

lemma ptr_to_mem_sel [simp]: "ptr_to_mem (h\<lparr>lfree := x\<rparr>) a = ptr_to_mem h a"
  "ptr_to_mem (upd_mem a f h) a = f (ptr_to_mem h a)"
  by (simp_all add: ptr_to_mem_def)

lemma absorb_used [simp]: "mem_used (ptr_to_mem (absorb a b h) x) = mem_used (ptr_to_mem h x)"
  by (simp add: absorb_def Let_def ptr_to_mem_def)

lemma plug_holes_used [simp]: "mem_used (ptr_to_mem (plug_holes m h) x) = mem_used (ptr_to_mem h x)"
  by (simp add: plug_holes_def Let_def)



lemma live_blocks_one:
  assumes L: "mem_lay h (xs @ b # ys)" and R: "ram h' = ram h" and "p = data_of h (bytes xs)"
    and old: "live_blocks h (xs @ b # ys) M" and M: "\<And>q. q \<noteq> p \<Longrightarrow> M' q = M q"
    and new: "allocs 0 bs' = allocs 0 xs \<union> A \<union> allocs (bytes xs + fst b) ys"
    and A: "A = {} \<and> M' p = None \<or> (\<exists>s n. A = {(bytes xs, s)} \<and> M' p = Some n \<and> n \<le> 25600 \<and> block_of n \<le> s)"
  shows "live_blocks h' bs' M'"
proof -
  have d: "data_of h' y = data_of h y" for y using R by (simp add: data_of_def)
  obtain s al where b: "b = (s, al)" by (cases b)
  have sz: "mem_sized xs" "mem_sized ys" "20 \<le> s" "bytes xs + s + bytes ys = 25600"
    using L by (auto simp: b mem_lay_defs)
  have ne: "data_of h y \<noteq> p" if "(y, t) \<in> allocs 0 xs \<union> allocs (bytes xs + s) ys" for y t
  proof -
    have "y \<noteq> bytes xs \<and> y \<le> 25600"
      using that allocs_range [OF sz(1), of y t 0] allocs_range [OF sz(2), of y t "bytes xs + s"] sz(3,4) by auto
    then show ?thesis using data_of_inj [OF L] sz(4) assms(3) by simp
  qed
  have o: "allocs 0 (xs @ b # ys) = allocs 0 xs \<union> (if al then {(bytes xs, s)} else {}) \<union> allocs (bytes xs + s) ys"
    by (auto simp: b allocs_append)
  have "\<exists>n. M' (data_of h y) = Some n \<and> n \<le> 25600 \<and> block_of n \<le> t" if "(y, t) \<in> allocs 0 bs'" for y t
  proof (cases "(y, t) \<in> A")
    case True
    then show ?thesis using A assms(3) by auto
  next
    case False
    then have "(y, t) \<in> allocs 0 xs \<union> allocs (bytes xs + s) ys" using that new b by auto
    then obtain n where "M (data_of h y) = Some n" "n \<le> 25600" "block_of n \<le> t" "data_of h y \<noteq> p"
      using old ne [of y t] unfolding live_blocks_def o by blast
    then show ?thesis using M by auto
  qed
  moreover have "\<exists>(y, t) \<in> allocs 0 bs'. q = data_of h y" if q: "M' q = Some n" for q n
  proof (cases "q = p")
    case True
    then show ?thesis using A q new assms(3) by auto
  next
    case False
    then have "M q = Some n" using M q by simp
    then obtain y t where y: "(y, t) \<in> allocs 0 (xs @ b # ys)" "q = data_of h y"
      using old unfolding live_blocks_def by blast
    then have "(y, t) \<noteq> (bytes xs, s)" using False assms(3) by auto
    then have "(y, t) \<in> allocs 0 bs'" using y(1) [unfolded o] unfolding new b by (cases al) auto
    then show ?thesis using y(2) by blast
  qed
  ultimately show ?thesis unfolding live_blocks_def d by blast
qed

lemma mem_init_rep:
  assumes "unat p + 25615 < 4294967296"
  shows "mem_rep (mem_init p h) [(25600, False)]"
proof -
  have "unat (LWIP_MEM_ALIGN_SIZE p) = round4 (unat p)" using assms by (intro unat_ALIGN) simp
  moreover have "round4 (unat p) \<le> unat p + 3" "round4 (unat p) mod 4 = 0" by (simp_all add: round4_def)
  ultimately show ?thesis
    using assms by (simp add: mem_rep_def mem_lay_defs mem_init_def Let_def end_hdr_def MEM_SIZE_ALIGNED_def)
qed

lemma block_of_mono: "m \<le> n \<Longrightarrow> block_of m \<le> block_of n"
  unfolding block_of_def room_of_def round4_def by (auto simp: max_def intro!: mult_le_mono1 div_le_mono)

lemma allocs_trim:
  assumes "w \<le> s"
  shows "\<exists>v. allocs b (trim_blocks w s ys) = {(b, v)} \<union> allocs (b + s) ys \<and> w \<le> v"
proof (cases "(w, s, ys)" rule: trim_blocks.cases)
  case (1 w' s' t zs)
  then show ?thesis using assms by (cases "w = s") (auto simp: add.assoc)
qed (use assms in \<open>auto simp: cut_block_def add.assoc\<close>)

lemma mem_run_rep:
  "mem_run h L \<Longrightarrow> \<exists>bs. mem_rep h bs \<and> live_blocks h bs L"
proof (induction rule: mem_run.induct)
  case (init p h)
  then show ?case using mem_init_rep by (intro exI [of _ "[(25600, False)]"]) (simp add: live_blocks_def)
next
  case (malloc h L n p h')
  then obtain bs where bs: "mem_rep h bs" "live_blocks h bs L" by blast
  from bs(1) show ?case
  proof (cases rule: mem_malloc_cases [where n = n])
    case null
    then show ?thesis using malloc.hyps(2) bs by auto
  next
    case (some xs s ys h2)
    have h2: "h' = h2" "p = data_of h (bytes xs)" using malloc.hyps(2) some by simp_all
    have lay: "mem_lay h (xs @ (s, False) # ys)" using bs(1) some by (simp add: mem_rep_def)
    have "p \<noteq> 0" using data_of_nonzero [OF lay, of "bytes xs"] mem_lay_hdr(4) [OF lay] h2(2) by simp
    moreover have "live_blocks h' (xs @ cut_block (block_of (unat n)) s @ ys) (L(p \<mapsto> unat n))"
    proof (rule live_blocks_one [OF lay _ h2(2) bs(2) [unfolded some(3)]])
      let ?v = "if 20 \<le> s - block_of (unat n) then block_of (unat n) else s"
      show "allocs 0 (xs @ cut_block (block_of (unat n)) s @ ys) =
          allocs 0 xs \<union> {(bytes xs, ?v)} \<union> allocs (bytes xs + fst (s, False)) ys"
        using some(5) by (auto simp: allocs_append cut_block_def)
      show "{(bytes xs, ?v)} = {} \<and> (L(p \<mapsto> unat n)) p = None \<or>
          (\<exists>s n'. {(bytes xs, ?v)} = {(bytes xs, s)} \<and> (L(p \<mapsto> unat n)) p = Some n' \<and> n' \<le> 25600 \<and> block_of n' \<le> s)"
        using some(2,5) by auto
    qed (use some(8) h2(1) in simp_all)
    ultimately show ?thesis unfolding if_not_P [OF \<open>p \<noteq> 0\<close>] using some(7) h2(1) by blast
  qed
next
  case (free h L p n)
  then obtain bs where bs: "mem_rep h bs" "live_blocks h bs L" by blast
  then obtain xs s ys where x: "bs = xs @ (s, True) # ys" "p = data_of h (bytes xs)"
    using live_split [OF bs free(2)] by blast
  have lay: "mem_lay h (xs @ (s, True) # ys)" using bs(1) x by (simp add: mem_rep_def)
  have "ram (mem_free p h) = ram h" by simp
  then have "live_blocks (mem_free p h) (insert_free xs s ys) (L(p := None))"
    by (rule live_blocks_one [OF lay _ x(2) bs(2) [unfolded x(1)], where A = "{}"]) (simp_all add: allocs_insert_free)
  moreover have "mem_rep (mem_free p h) (insert_free xs s ys)" using mem_free_rep bs(1) x by blast
  ultimately show ?case by blast
next
  case (trim h L p n m q h')
  then obtain bs where bs: "mem_rep h bs" "live_blocks h bs L" by blast
  then obtain xs s ys where x: "bs = xs @ (s, True) # ys" "p = data_of h (bytes xs)" "n \<le> 25600" "block_of n \<le> s"
    using live_split [OF bs trim(2)] by blast
  have lay: "mem_lay h (xs @ (s, True) # ys)" using bs(1) x by (simp add: mem_rep_def)
  have m: "unat m \<le> 25600" "block_of (unat m) \<le> s" using x trim(3) block_of_mono [of "unat m" n] by auto
  obtain h2 where h2: "mem_trim p m h = (p, h2)" "mem_rep h2 (xs @ trim_blocks (block_of (unat m)) s ys)" "ram h2 = ram h"
    using trim_rep [of h xs s ys m] bs(1) m x by auto
  obtain v where v: "allocs (bytes xs) (trim_blocks (block_of (unat m)) s ys) = {(bytes xs, v)} \<union> allocs (bytes xs + s) ys"
    "block_of (unat m) \<le> v"
    using allocs_trim [OF m(2)] by blast
  have "live_blocks h2 (xs @ trim_blocks (block_of (unat m)) s ys) (L(p \<mapsto> unat m))"
  proof (rule live_blocks_one [OF lay h2(3) x(2) bs(2) [unfolded x(1)], where A = "{(bytes xs, v)}"])
    show "allocs 0 (xs @ trim_blocks (block_of (unat m)) s ys) =
        allocs 0 xs \<union> {(bytes xs, v)} \<union> allocs (bytes xs + fst (s, True)) ys"
      using v(1) by (simp add: allocs_append)
    show "{(bytes xs, v)} = {} \<and> (L(p \<mapsto> unat m)) p = None \<or>
        (\<exists>s n. {(bytes xs, v)} = {(bytes xs, s)} \<and> (L(p \<mapsto> unat m)) p = Some n \<and> n \<le> 25600 \<and> block_of n \<le> s)"
      using v(2) m(1) by auto
  qed simp
  moreover have "q = p" "h' = h2" using h2(1) trim(4) by simp_all
  ultimately show ?case using h2(2) by blast
qed

section \<open>Properties\<close>

text \<open>C20: \<open>mem_malloc\<close> always returns. It gives NULL and changes nothing exactly when nothing is
  asked for, too much is asked for, or no free block is large enough; otherwise it takes the
  first free block that is large enough and leaves the rest of it free, if that is worth a block.\<close>

theorem mem_malloc_first_fit:
  assumes "mem_rep h bs"
  shows "\<exists>p h'. mem_malloc n h = Some (p, h') \<and>
    (p = 0 \<and> h' = h \<and> (n = 0 \<or> 25600 < unat n \<or> none_fits (block_of (unat n)) bs) \<or>
     n \<noteq> 0 \<and> unat n \<le> 25600 \<and> \<not> none_fits (block_of (unat n)) bs \<and> unat p mod 4 = 0 \<and>
     (\<exists>xs s ys. bs = xs @ (s, False) # ys \<and> none_fits (block_of (unat n)) xs \<and> block_of (unat n) \<le> s \<and>
        p = data_of h (bytes xs) \<and> mem_rep h' (xs @ cut_block (block_of (unat n)) s @ ys)))"
  using assms
proof (cases rule: mem_malloc_cases [where n = n])
  case (some xs s ys h')
  have L: "mem_lay h (xs @ (s, False) # ys)" using assms some(3) by (simp add: mem_rep_def)
  have "bytes xs mod 4 = 0" using sized_aligned [of xs] L by (simp add: mem_lay_defs)
  then have "unat (data_of h (bytes xs)) mod 4 = 0"
    using data_of_value [OF L, of "bytes xs"] mem_lay_hdr(4) [OF L] L by (simp add: mem_lay_defs mod_add_eq [symmetric])
  moreover have "\<not> none_fits (block_of (unat n)) bs" using some(3,5) by (auto simp: none_fits_def)
  moreover have "\<exists>us t vs. bs = us @ (t, False) # vs \<and> none_fits (block_of (unat n)) us \<and> block_of (unat n) \<le> t \<and>
      data_of h (bytes xs) = data_of h (bytes us) \<and> mem_rep h' (us @ cut_block (block_of (unat n)) t @ vs)"
    using some(3-5,7) by blast
  ultimately show ?thesis
    using some(1,2,6) by (intro exI [of _ "data_of h (bytes xs)"] exI [of _ h'] conjI disjI2) simp_all
qed auto

text \<open>C6: In every state the heap of LwIP can reach by allocating, freeing and trimming, the live
  areas lie in the array, aligned and apart, each with at least the bytes asked for, and when
  all have been freed the heap is one free block again.\<close>

theorem lwip_heap_never_leaks:
  assumes "mem_run h L"
  shows "(\<forall>p n. L p = Some n \<longrightarrow> unat p mod 4 = 0 \<and> unat (ram h) + 8 \<le> unat p \<and> unat p + n \<le> unat (ram h) + 25600 \<and>
      (\<forall>q m. L q = Some m \<longrightarrow> p = q \<or> unat p + n \<le> unat q \<or> unat q + m \<le> unat p)) \<and>
    (L = Map.empty \<longrightarrow> lfree h = 0 \<and> hdrs h 0 = \<lparr>mem_next = 25600, mem_prev = 0, mem_used = False\<rparr>)"
proof -
  obtain bs where R: "mem_rep h bs" and live: "live_blocks h bs L" using mem_run_rep [OF assms] by blast
  have lay: "mem_lay h bs" and co: "coalesced bs" using R by (auto simp: mem_rep_def)
  have area: "\<exists>y s. (y, s) \<in> allocs 0 bs \<and> p = data_of h y \<and> unat p = unat (ram h) + y + 8 \<and> n + 8 \<le> s \<and> y + s \<le> 25600 \<and> y mod 4 = 0"
    if "L p = Some n" for p n
  proof -
    obtain y s where y: "(y, s) \<in> allocs 0 bs" "p = data_of h y"
      using live \<open>L p = Some n\<close> unfolding live_blocks_def by blast
    moreover from y have "block_of n \<le> s" using live \<open>L p = Some n\<close> unfolding live_blocks_def by fastforce
    ultimately show ?thesis
      using alloc_index [OF lay y(1)] data_of_value [OF lay, of y] room_of_facts(3) [of n]
      by (intro exI [of _ y] exI [of _ s]) (auto simp: block_of_def)
  qed
  have "p = q \<or> unat p + n \<le> unat q \<or> unat q + m \<le> unat p" if a: "L p = Some n" and b: "L q = Some m" for p n q m
  proof -
    obtain y s z r where yz: "(y, s) \<in> allocs 0 bs" "(z, r) \<in> allocs 0 bs" "p = data_of h y" "q = data_of h z"
      "unat p = unat (ram h) + y + 8" "unat q = unat (ram h) + z + 8" "n + 8 \<le> s" "m + 8 \<le> r"
      using area [OF a] area [OF b] by blast
    have "mem_sized bs" using lay by (simp add: mem_lay_defs)
    with allocs_apart [OF yz(1,2)] have "(z, r) = (y, s) \<or> y + s \<le> z \<or> z + r \<le> y" by blast
    then show ?thesis
    proof (elim disjE)
      assume "(z, r) = (y, s)"
      then show ?thesis using yz(3,4) by simp
    qed (use yz(5-8) in linarith)+
  qed
  moreover have "unat p mod 4 = 0 \<and> unat (ram h) + 8 \<le> unat p \<and> unat p + n \<le> unat (ram h) + 25600" if "L p = Some n" for p n
  proof -
    obtain y s where y: "unat p = unat (ram h) + y + 8" "n + 8 \<le> s" "y + s \<le> 25600" "y mod 4 = 0"
      using area [OF \<open>L p = Some n\<close>] by (elim exE conjE)
    have "unat (ram h) mod 4 = 0" using lay by (simp add: mem_lay_defs)
    then have "unat p mod 4 = 0" unfolding y(1) by (rule aligned_sum [OF _ y(4)])
    moreover have "unat (ram h) + 8 \<le> unat p \<and> unat p + n \<le> unat (ram h) + 25600" using y(1-3) by linarith
    ultimately show ?thesis by blast
  qed
  moreover have "lfree h = 0 \<and> hdrs h 0 = \<lparr>mem_next = 25600, mem_prev = 0, mem_used = False\<rparr>" if "L = Map.empty"
  proof -
    have "allocs 0 bs = {}" using live \<open>L = Map.empty\<close> unfolding live_blocks_def by auto
    then have "bs = [(25600, False)]" using coalesced_all_free [OF co] lay by (auto simp: mem_lay_defs)
    then show ?thesis using lay by (simp add: mem_lay_defs)
  qed
  ultimately show ?thesis by blast
qed


text \<open>The array at the start of the RAM, 100 bytes allocated.\<close>

definition sample_ram :: ram_heap where
  "sample_ram = mem_init 0x20000000 \<lparr>hdrs = (\<lambda>_. end_hdr), ram = 0, lfree = 0\<rparr>"

lemma sample_ram_rep: "mem_rep sample_ram [(25600, False)]" "data_of sample_ram 0 = 0x20000008"
proof -
  show "mem_rep sample_ram [(25600, False)]" unfolding sample_ram_def by (rule mem_init_rep) simp
  have "LWIP_MEM_ALIGN_SIZE 0x20000000 = 0x20000000"
    by (intro word_unat_eq_iff [THEN iffD2]) (simp add: unat_ALIGN round4_def)
  then show "data_of sample_ram 0 = 0x20000008" by (simp add: data_of_def sample_ram_def mem_init_def Let_def)
qed

lemma sample_block: "block_of (unat (100 :: u16)) = 108"
  by (simp add: block_of_def room_of_def round4_def)

lemma sample_malloc: "\<exists>h'. mem_malloc 100 sample_ram = Some (0x20000008, h')"
  using sample_ram_rep(1)
proof (cases rule: mem_malloc_cases [where n = 100])
  case null
  then show ?thesis unfolding sample_block by (simp add: none_fits_def)
next
  case (some xs s ys h')
  then have "xs = []" by (cases xs) auto
  then show ?thesis using some(6) sample_ram_rep(2) by simp
qed

lemma mem_malloc_first_fit_witness:
  "\<exists>h'. mem_malloc 100 sample_ram = Some (0x20000008, h') \<and> mem_rep h' [(108, True), (25492, False)]"
proof -
  obtain h2 where m: "mem_malloc 100 sample_ram = Some (0x20000008, h2)" using sample_malloc by blast
  have "mem_rep h2 [(108, True), (25492, False)]"
    using mem_malloc_first_fit [OF sample_ram_rep(1), of 100]
    unfolding m sample_block option.inject prod.inject
  proof (elim exE conjE disjE)
    fix p h' xs s ys
    assume "[(25600, False)] = xs @ (s, False) # ys" "mem_rep h' (xs @ cut_block 108 s @ ys)" "h2 = h'"
    moreover from this(1) have "xs = []" "s = 25600" "ys = []" by (cases xs; simp)+
    ultimately show ?thesis by (simp add: cut_block_def)
  qed simp_all
  then show ?thesis unfolding m by blast
qed

lemma sample_live: "\<exists>h. mem_run h (Map.empty(0x20000008 \<mapsto> 100))"
proof -
  obtain h' where h': "mem_malloc 100 sample_ram = Some (0x20000008, h')" using sample_malloc by blast
  have r: "mem_run sample_ram Map.empty" unfolding sample_ram_def by (rule mem_run.init) simp
  show ?thesis using mem_run.malloc [OF r h'] by auto
qed

lemma lwip_heap_never_leaks_witness:
  "\<exists>h L. mem_run h L \<and> L 0x20000008 = Some 100 \<and> unat (ram h) + 8 \<le> 0x20000008 \<and> 0x2000006C \<le> unat (ram h) + 25600"
proof -
  obtain h where h: "mem_run h (Map.empty(0x20000008 \<mapsto> 100))" using sample_live by blast
  from lwip_heap_never_leaks [OF this, THEN conjunct1, rule_format, of "0x20000008" 100]
  have "unat (ram h) + 8 \<le> unat (0x20000008 :: u32)" "unat (0x20000008 :: u32) + 100 \<le> unat (ram h) + 25600"
    by simp_all
  then show ?thesis using h by (intro exI [of _ h] exI [of _ "Map.empty(0x20000008 \<mapsto> 100)"]) simp
qed


declare of_nat_add [simp]

end
