(* ===== verification/PbufSpec.thy ===== *)
theory PbufSpec
  imports Pbuf LwipMemSpec
begin

unbundle bit_operations_syntax

text \<open>
  What the operations on packet buffers promise. A chain is the list of its structs with their
  addresses, a packet a chain whose \<open>tot_len\<close> fields are the sums of the lengths behind them,
  its contents the bytes of its payloads. Reading operations are functions of the contents,
  writing ones change only what they name, and releasing follows the reference counts.
\<close>

section \<open>Chains and packets\<close>

type_synonym structs = "(u32 \<times> pbuf) list"

fun chain :: "(u32 \<Rightarrow> pbuf option) \<Rightarrow> u32 \<Rightarrow> structs \<Rightarrow> bool" where
  "chain m p [] \<longleftrightarrow> p = 0"
| "chain m p ((a, b) # cs) \<longleftrightarrow> p = a \<and> a \<noteq> 0 \<and> m a = Some b \<and> chain m (pnext b) cs"

fun chain_len :: "structs \<Rightarrow> nat" where
  "chain_len [] = 0"
| "chain_len ((a, b) # cs) = unat (plen b) + chain_len cs"

fun tot_ok :: "structs \<Rightarrow> bool" where
  "tot_ok [] \<longleftrightarrow> True"
| "tot_ok ((a, b) # cs) \<longleftrightarrow> unat (tot_len b) = unat (plen b) + chain_len cs \<and> tot_ok cs"

definition packet :: "pbuf_state \<Rightarrow> u32 \<Rightarrow> structs \<Rightarrow> bool" where
  "packet s p cs \<longleftrightarrow> chain (pbufs s) p cs \<and> tot_ok cs"

fun content :: "memory \<Rightarrow> structs \<Rightarrow> u8 list" where
  "content d [] = []"
| "content d ((a, b) # cs) = read_bytes d (payload b) (unat (plen b)) @ content d cs"

lemma length_content [simp]: "length (content d cs) = chain_len cs"
  by (induction cs rule: chain_len.induct) simp_all

lemma total_append [simp]: "chain_len (xs @ ys) = chain_len xs + chain_len ys"
  by (induction xs rule: chain_len.induct) simp_all

lemma content_append [simp]: "content d (xs @ ys) = content d xs @ content d ys"
  by (induction d xs rule: content.induct) simp_all

lemma chain_unique: "chain m p xs \<Longrightarrow> chain m p ys \<Longrightarrow> xs = ys"
proof (induction xs arbitrary: p ys)
  case Nil
  then show ?case by (cases ys) auto
next
  case (Cons x xs)
  obtain a b where x: "x = (a, b)" by (cases x)
  obtain y zs where y: "ys = y # zs" using Cons.prems x by (cases ys) auto
  obtain a' b' where y': "y = (a', b')" by (cases y)
  have "a' = a" "b' = b" "chain m (pnext b) zs" using Cons.prems by (auto simp: x y y')
  then show ?case using Cons.IH [of "pnext b" zs] Cons.prems(1) by (simp add: x y y')
qed

lemma chain_suffix: "chain m p (xs @ (a, b) # ys) \<Longrightarrow> chain m a ((a, b) # ys)"
  by (induction m p xs rule: chain.induct) auto

lemma chain_members: "chain m p cs \<Longrightarrow> (a, b) \<in> set cs \<Longrightarrow> a \<noteq> 0 \<and> m a = Some b"
  by (induction m p cs rule: chain.induct) auto

lemma chain_distinct: "chain m p cs \<Longrightarrow> distinct (map fst cs)"
proof (induction m p cs rule: chain.induct)
  case (2 m p a b cs)
  have "a \<notin> fst ` set cs"
  proof
    assume "a \<in> fst ` set cs"
    then obtain b' where "(a, b') \<in> set cs" by auto
    then obtain xs ys where cs: "cs = xs @ (a, b') # ys" by (meson split_list)
    have "chain m a ((a, b') # ys)" using 2(2) chain_suffix [of m "pnext b" xs a b' ys] by (simp add: cs)
    then have "(a, b) # cs = (a, b') # ys" using chain_unique 2(2) by (metis chain.simps(2))
    then have "length cs = length ys" by simp
    then show False by (simp add: cs)
  qed
  then show ?case using 2 by simp
qed simp

lemma chain_frame: "chain m p cs \<Longrightarrow> (\<And>a. a \<in> fst ` set cs \<Longrightarrow> m' a = m a) \<Longrightarrow> chain m' p cs"
  by (induction m p cs rule: chain.induct) auto

lemma deref_chain: "chain (pbufs s) p ((a, b) # cs) \<Longrightarrow> deref p s = Some b"
  by (auto simp: deref_def)

lemma packet_total: "packet s p cs \<Longrightarrow> chain_len cs < 65536"
proof (cases cs)
  case (Cons c ds)
  assume "packet s p cs"
  then have "chain_len cs = unat (tot_len (snd c))" by (cases c) (simp add: packet_def Cons)
  then show ?thesis by simp
qed simp

lemma total_mono: "(a, b) \<in> set cs \<Longrightarrow> unat (plen b) \<le> chain_len cs"
  by (induction cs rule: chain_len.induct) auto

section \<open>Finding a position\<close>

lemma pbuf_skip_inside:
  assumes "chain (pbufs s) q cs" "unat off < chain_len cs"
  shows "\<exists>xs a b ys. cs = xs @ (a, b) # ys \<and> chain_len xs \<le> unat off \<and> unat off < chain_len xs + unat (plen b) \<and> a \<noteq> 0 \<and>
    pbufs s a = Some b \<and> chain (pbufs s) a ((a, b) # ys) \<and> pbuf_skip q off s = Some (a, off - of_nat (chain_len xs))"
  using assms
proof (induction cs arbitrary: q off)
  case (Cons c cs)
  obtain a b where c: "c = (a, b)" by (cases c)
  have d: "deref q s = Some b" "q \<noteq> 0" "q = a" using Cons.prems by (auto simp: c deref_def)
  show ?case
  proof (cases "plen b \<le> off")
    case False
    then have "pbuf_skip q off s = Some (q, off)" using d by (subst pbuf_skip.simps) simp
    then show ?thesis using Cons.prems False d
      by (intro exI [of _ "[]"] exI [of _ a] exI [of _ b] exI [of _ cs]) (auto simp: c word_less_nat_alt not_le)
  next
    case True
    then have u: "unat (off - plen b) = unat off - unat (plen b)" by (simp add: unat_sub)
    have st: "pbuf_skip q off s = pbuf_skip (pnext b) (off - plen b) s"
      using d True by (subst pbuf_skip.simps) simp
    have "chain (pbufs s) (pnext b) cs" "unat (off - plen b) < chain_len cs"
      using Cons.prems True by (auto simp: c u word_le_nat_alt)
    from Cons.IH [OF this] obtain xs a' b' ys where X: "cs = xs @ (a', b') # ys" "chain_len xs \<le> unat (off - plen b)"
      "unat (off - plen b) < chain_len xs + unat (plen b')" "a' \<noteq> 0" "pbufs s a' = Some b'" "chain (pbufs s) a' ((a', b') # ys)"
      "pbuf_skip (pnext b) (off - plen b) s = Some (a', off - plen b - of_nat (chain_len xs))" by blast
    then show ?thesis
      using True by (intro exI [of _ "c # xs"] exI [of _ a'] exI [of _ b'] exI [of _ ys])
        (auto simp: c st u word_le_nat_alt algebra_simps)
  qed
qed simp

lemma pbuf_skip_outside:
  assumes "chain (pbufs s) q cs" "chain_len cs \<le> unat off"
  shows "pbuf_skip q off s = Some (0, off - of_nat (chain_len cs))"
  using assms
proof (induction cs arbitrary: q off)
  case Nil
  then show ?case by (subst pbuf_skip.simps) simp
next
  case (Cons c cs)
  obtain a b where c: "c = (a, b)" by (cases c)
  have d: "deref q s = Some b" "q \<noteq> 0" "plen b \<le> off" using Cons.prems by (auto simp: c deref_def word_le_nat_alt)
  then have "pbuf_skip q off s = pbuf_skip (pnext b) (off - plen b) s" by (subst pbuf_skip.simps) simp
  moreover have "unat (off - plen b) = unat off - unat (plen b)" using d by (simp add: unat_sub)
  ultimately show ?case using Cons.IH [of "pnext b" "off - plen b"] Cons.prems by (simp add: c algebra_simps)
qed

lemma content_at:
  assumes "chain_len xs \<le> n" "n < chain_len xs + unat (plen b)"
  shows "content d (xs @ (a, b) # ys) ! n = d (payload b + of_nat (n - chain_len xs))"
proof -
  have "content d (xs @ (a, b) # ys) ! n = read_bytes d (payload b) (unat (plen b)) ! (n - chain_len xs)"
    using assms by (subst content_append, subst nth_append) (simp add: nth_append less_diff_conv2 add.commute)
  then show ?thesis using assms by (simp add: read_bytes_def)
qed

lemma try_get_at_content:
  assumes "chain (pbufs s) p cs"
  shows "pbuf_try_get_at p off s =
    Some (if unat off < chain_len cs then Some (content (pdata s) cs ! unat off) else None)"
proof (cases "unat off < chain_len cs")
  case True
  then obtain xs a b ys where X: "cs = xs @ (a, b) # ys" "chain_len xs \<le> unat off" "unat off < chain_len xs + unat (plen b)"
    "a \<noteq> 0" "pbufs s a = Some b" "pbuf_skip p off s = Some (a, off - of_nat (chain_len xs))"
    using pbuf_skip_inside [OF assms True] by blast
  have u: "unat (off - of_nat (chain_len xs)) = unat off - chain_len xs"
    using X(2) unat_u16_lt [of off] by (subst unat_sub) (auto simp: word_le_nat_alt unat_of_nat_u16 simp del: unat_u16_lt)
  have w: "(ucast (off - of_nat (chain_len xs)) :: u32) = of_nat (unat off - chain_len xs)"
    by (intro word_unat_eq_iff [THEN iffD2]) (use u unat_u16_lt [of off] in \<open>simp add: unat_ucasts unat_of_nat_u32 del: unat_u16_lt\<close>)
  have "plen b > off - of_nat (chain_len xs)" using u X(2,3) by (simp add: word_less_nat_alt)
  then show ?thesis
    using True X content_at [OF X(2,3), of "pdata s" a ys] by (simp add: pbuf_try_get_at_def deref_def w)
next
  case False
  then show ?thesis using pbuf_skip_outside [OF assms] by (simp add: pbuf_try_get_at_def)
qed

lemma get_at_content:
  assumes "chain (pbufs s) p cs" "unat off < chain_len cs"
  shows "pbuf_get_at p off s = Some (content (pdata s) cs ! unat off)"
  using assms by (simp add: pbuf_get_at_def try_get_at_content)

section \<open>Comparing and searching\<close>

text \<open>The position of the first difference plus one, 0 if there is none.\<close>

fun first_diff :: "nat \<Rightarrow> u8 list \<Rightarrow> u8 list \<Rightarrow> nat" where
  "first_diff i (x # xs) (y # ys) = (if x \<noteq> y then Suc i else first_diff (Suc i) xs ys)"
| "first_diff i _ _ = 0"

lemma first_diff_0: "length xs = length ys \<Longrightarrow> first_diff i xs ys = 0 \<longleftrightarrow> xs = ys"
  by (induction i xs ys rule: first_diff.induct) auto

lemma first_diff_le: "first_diff i xs ys \<le> i + length xs"
proof (induction i xs ys rule: first_diff.induct)
  case (1 i x xs y ys)
  then show ?case by (cases "x = y") auto
qed auto

lemma read_bytes_nth: "i < n \<Longrightarrow> read_bytes d a n ! i = d (a + of_nat i)"
  by (simp add: read_bytes_def)

lemma memcmp_loop_spec:
  assumes "chain (pbufs s) q ds" "unat start + unat n \<le> chain_len ds" "unat n < 65535" "i \<le> unat n"
    "chain_len ds < 65536"
  shows "memcmp_loop q start s2 n (of_nat i) s = Some (of_nat (first_diff i
     (drop i (take (unat n) (drop (unat start) (content (pdata s) ds)))) (drop i (read_bytes (pdata s) s2 (unat n)))))"
  using assms(4)
proof (induction "unat n - i" arbitrary: i)
  case 0
  then have "unat n = i" by simp
  then have "of_nat i = n" "i = unat n" by auto
  then show ?case using assms(2) by (subst memcmp_loop.simps) simp
next
  case (Suc k)
  let ?X = "take (unat n) (drop (unat start) (content (pdata s) ds))" and ?Y = "read_bytes (pdata s) s2 (unat n)"
  have i: "i < unat n" "unat (of_nat i :: u16) = i" using Suc.hyps(2) assms(3) by (auto simp: unat_of_nat_u16)
  have u: "unat (start + of_nat i) = unat start + i"
    using i assms(2,5) by (subst unat_add_lem [THEN iffD1]) auto
  have w: "(ucast (of_nat i :: u16) :: u32) = of_nat i"
    by (intro word_unat_eq_iff [THEN iffD2]) (use i assms(3) in \<open>simp add: unat_ucasts unat_of_nat_u32\<close>)
  have g: "pbuf_get_at q (start + of_nat i) s = Some (?X ! i)"
    using get_at_content [OF assms(1), of "start + of_nat i"] u i assms(2) by simp
  have y: "pdata s (s2 + ucast (of_nat i :: u16)) = ?Y ! i" using i w by (simp add: read_bytes_nth)
  have l: "i < length ?X" "i < length ?Y" using i assms(2) by simp_all
  note d = Cons_nth_drop_Suc [OF l(1), symmetric] Cons_nth_drop_Suc [OF l(2), symmetric]
  have "memcmp_loop q start s2 n (of_nat (Suc i)) s = Some (of_nat (first_diff (Suc i) (drop (Suc i) ?X) (drop (Suc i) ?Y)))"
    using Suc.hyps(1) [of "Suc i"] Suc.hyps(2) by simp
  then show ?case
    unfolding d using i g y assms(3)
    by (subst memcmp_loop.simps) (simp add: word_less_nat_alt add.commute)
qed

lemma pbuf_memcmp_spec:
  assumes P: "packet s p cs" "cs \<noteq> []" and n: "unat n < 65535"
  shows "pbuf_memcmp p off s2 n s = Some (if chain_len cs < unat off + unat n then 0xffff
    else of_nat (first_diff 0 (take (unat n) (drop (unat off) (content (pdata s) cs))) (read_bytes (pdata s) s2 (unat n))))"
proof -
  have ch: "chain (pbufs s) p cs" using P(1) by (simp add: packet_def)
  obtain a b ds where cs: "cs = (a, b) # ds" using P(2) by (metis list.exhaust surj_pair)
  have d: "deref p s = Some b" using ch by (auto simp: cs deref_def)
  have t: "unat (tot_len b) = chain_len cs" using P(1) by (simp add: packet_def cs)
  show ?thesis
  proof (cases "chain_len cs < unat off + unat n")
    case True
    then show ?thesis using d t by (simp add: pbuf_memcmp_def)
  next
    case fits: False
    show ?thesis
    proof (cases "unat off < chain_len cs")
      case True
      obtain xs a' b' ys where X: "cs = xs @ (a', b') # ys" "chain_len xs \<le> unat off"
        "chain (pbufs s) a' ((a', b') # ys)" "pbuf_skip p off s = Some (a', off - of_nat (chain_len xs))"
        using pbuf_skip_inside [OF ch True] by blast
      have u: "unat (off - of_nat (chain_len xs)) = unat off - chain_len xs"
        using X(2) unat_u16_lt [of off] by (subst unat_sub) (auto simp: word_le_nat_alt unat_of_nat_u16 simp del: unat_u16_lt)
      have c: "drop (unat off - chain_len xs) (content (pdata s) ((a', b') # ys)) = drop (unat off) (content (pdata s) cs)"
        using X(2) by (simp add: X(1))
      have l: "chain_len cs = chain_len xs + chain_len ((a', b') # ys)" by (simp add: X(1))
      show ?thesis
        using memcmp_loop_spec [OF X(3), of "off - of_nat (chain_len xs)" n 0 s2] fits n l X(2,4) d t packet_total [OF P(1)]
        unfolding u c by (simp add: pbuf_memcmp_def)
    next
      case False
      then have "n = 0" using fits by (simp add: unat_eq_zero [symmetric])
      then show ?thesis
        using False fits pbuf_skip_outside [OF ch, of off] d t
        by (simp add: pbuf_memcmp_def) (subst memcmp_loop.simps, simp add: read_bytes_def)
    qed
  qed
qed

text \<open>\<open>M\<close> stands at position \<open>i\<close> of \<open>C\<close>; the first such position from \<open>i\<close> on.\<close>

definition occurs :: "u8 list \<Rightarrow> u8 list \<Rightarrow> nat \<Rightarrow> bool" where
  "occurs M C i \<longleftrightarrow> i + length M \<le> length C \<and> take (length M) (drop i C) = M"

definition first_occurrence :: "u8 list \<Rightarrow> u8 list \<Rightarrow> nat \<Rightarrow> nat option" where
  "first_occurrence M C i = find (occurs M C) [i..<Suc (length C)]"

definition position_code :: "nat option \<Rightarrow> u16" where
  "position_code r = (case r of Some i \<Rightarrow> of_nat i | None \<Rightarrow> 0xFFFF)"

lemma first_occurrence_step:
  "i \<le> length C \<Longrightarrow> first_occurrence M C i = (if occurs M C i then Some i else first_occurrence M C (Suc i))"
  unfolding first_occurrence_def by (subst upt_conv_Cons) simp_all

lemma first_occurrence_end: "length C < i + length M \<Longrightarrow> first_occurrence M C i = None"
  by (auto simp: first_occurrence_def find_None_iff occurs_def)

lemma memcmp_occurs:
  assumes P: "packet s p cs" "cs \<noteq> []" and n: "unat n < 65535" and i: "i + unat n \<le> chain_len cs"
  shows "\<exists>r. pbuf_memcmp p (of_nat i) s2 n s = Some r \<and>
    (r = 0 \<longleftrightarrow> occurs (read_bytes (pdata s) s2 (unat n)) (content (pdata s) cs) i)"
proof -
  let ?M = "read_bytes (pdata s) s2 (unat n)" and ?X = "take (unat n) (drop i (content (pdata s) cs))"
  have u: "unat (of_nat i :: u16) = i" using i packet_total [OF P(1)] by (simp add: unat_of_nat_u16)
  have "first_diff 0 ?X ?M \<le> length ?X" using first_diff_le [of 0 ?X ?M] by simp
  also have "length ?X \<le> unat n" by simp
  finally have l: "first_diff 0 ?X ?M \<le> unat n" .
  have "unat (of_nat (first_diff 0 ?X ?M) :: u16) = first_diff 0 ?X ?M" using l n by (intro unat_of_nat_u16) linarith
  then have z: "(of_nat (first_diff 0 ?X ?M) :: u16) = 0 \<longleftrightarrow> first_diff 0 ?X ?M = 0"
    unfolding unat_eq_zero [symmetric] by (rule arg_cong)
  have "pbuf_memcmp p (of_nat i) s2 n s = Some (of_nat (first_diff 0 ?X ?M))"
    using pbuf_memcmp_spec [OF P n, of "of_nat i" s2] i unfolding u by simp
  moreover have "first_diff 0 ?X ?M = 0 \<longleftrightarrow> occurs ?M (content (pdata s) cs) i"
    using i by (subst first_diff_0) (simp_all add: occurs_def)
  ultimately show ?thesis by (intro exI [of _ "of_nat (first_diff 0 ?X ?M)"] conjI) (simp_all only: z)
qed

lemma memfind_loop_spec:
  assumes P: "packet s p cs" "cs \<noteq> []" and k: "unat k < 65535" "unat k \<le> chain_len cs" and "i \<le> chain_len cs"
    and mx: "unat mx = chain_len cs - unat k"
  shows "memfind_loop p mem k mx (of_nat i) s =
    Some (position_code (first_occurrence (read_bytes (pdata s) mem (unat k)) (content (pdata s) cs) i))"
  using assms(5)
proof (induction "chain_len cs - i" arbitrary: i rule: less_induct)
  case less
  let ?M = "read_bytes (pdata s) mem (unat k)" and ?C = "content (pdata s) cs"
  have T: "chain_len cs < 65536" by (rule packet_total [OF P(1)])
  have le: "(of_nat i :: u16) \<le> mx \<longleftrightarrow> i + unat k \<le> chain_len cs"
  proof -
    have "unat (of_nat i :: u16) = i" using less.prems T by (auto intro!: unat_of_nat_u16)
    then show ?thesis using k(2) mx unfolding word_le_nat_alt by linarith
  qed
  show ?case
  proof (cases "i + unat k \<le> chain_len cs")
    case False
    then show ?thesis
      by (subst memfind_loop.simps) (simp add: le first_occurrence_end position_code_def)
  next
    case True
    obtain r where r: "pbuf_memcmp p (of_nat i) mem k s = Some r" "r = 0 \<longleftrightarrow> occurs ?M ?C i"
      using memcmp_occurs [OF P k(1) True] by blast
    show ?thesis
    proof (cases "occurs ?M ?C i")
      case True
      then show ?thesis using \<open>i + unat k \<le> chain_len cs\<close> r less.prems
        by (subst memfind_loop.simps) (simp add: le first_occurrence_step position_code_def)
    next
      case no: False
      have "occurs [] ?C i" using less.prems by (simp add: occurs_def)
      moreover have "?M = []" if "unat k = 0" using that by (metis length_0_conv length_read_bytes)
      ultimately have "unat k \<noteq> 0" using no by metis
      then have i: "Suc i \<le> chain_len cs" using True by simp
      have "memfind_loop p mem k mx (of_nat (Suc i)) s =
          Some (position_code (first_occurrence ?M ?C (Suc i)))"
        using i by (intro less.hyps) auto
      then show ?thesis using True r no less.prems
        by (subst memfind_loop.simps) (simp add: le first_occurrence_step add.commute)
    qed
  qed
qed

text \<open>C21: \<open>pbuf_memfind\<close> returns, for every packet however it is cut into structs, the
  first place from the given offset on where the bytes searched for stand, and 0xFFFF if there is none.\<close>

theorem memfind_first_occurrence:
  assumes "packet s p cs" "cs \<noteq> []" "unat k < 65535"
  shows "pbuf_memfind p mem k start s =
    Some (position_code (first_occurrence (read_bytes (pdata s) mem (unat k)) (content (pdata s) cs) (unat start)))"
proof -
  obtain a b ds where cs: "cs = (a, b) # ds" using assms(2) by (metis list.exhaust surj_pair)
  have d: "deref p s = Some b" using assms(1) by (auto simp: packet_def cs deref_def)
  have t: "unat (tot_len b) = chain_len cs" using assms(1) by (simp add: packet_def cs)
  show ?thesis
  proof (cases "unat k + unat start \<le> chain_len cs")
    case True
    have "unat (tot_len b - k) = chain_len cs - unat k" using t True by (subst unat_sub) (simp_all add: word_le_nat_alt)
    then show ?thesis
      using memfind_loop_spec [OF assms, of "unat start" "tot_len b - k" mem] True d t by (simp add: pbuf_memfind_def)
  next
    case False
    then show ?thesis using d t by (simp add: pbuf_memfind_def first_occurrence_end position_code_def)
  qed
qed

section \<open>Areas of memory\<close>

definition apart :: "u32 \<Rightarrow> nat \<Rightarrow> u32 \<Rightarrow> nat \<Rightarrow> bool" where
  "apart a n b m \<longleftrightarrow> (\<forall>i < n. \<forall>j < m. a + of_nat i \<noteq> b + of_nat j)"

lemma read_write_apart:
  assumes "apart a (length bs) b n"
  shows "read_bytes (write_bytes d a bs) b n = read_bytes d b n"
proof (rule read_write_other)
  fix i assume i: "i < n"
  show "length bs \<le> unat (b + of_nat i - a)"
  proof (rule ccontr)
    assume "\<not> length bs \<le> unat (b + of_nat i - a)"
    then have "a + of_nat (unat (b + of_nat i - a)) \<noteq> b + of_nat i"
      using assms i unfolding apart_def by (meson not_le)
    then show False by simp
  qed
qed

lemma apart_sym: "apart a n b m \<Longrightarrow> apart b m a n"
  unfolding apart_def by metis

lemma apart_sub: "apart a n b m \<Longrightarrow> i + n' \<le> n \<Longrightarrow> apart (a + of_nat i) n' b m"
  unfolding apart_def
proof (intro allI impI)
  fix k j assume A: "\<forall>i < n. \<forall>j < m. a + of_nat i \<noteq> b + of_nat j" "i + n' \<le> n" "k < n'" "j < m"
  then have "a + of_nat (i + k) \<noteq> b + of_nat j" by (meson add_less_cancel_left less_le_trans)
  then show "a + of_nat i + of_nat k \<noteq> b + of_nat j" by (simp add: add.assoc)
qed

lemma apart_le: "apart a n b m \<Longrightarrow> n' \<le> n \<Longrightarrow> apart a n' b m"
  using apart_sub [of a n b m 0 n'] by simp

lemma write_bytes_append:
  assumes "length xs + length ys \<le> 4294967296"
  shows "write_bytes (write_bytes d a xs) (a + of_nat (length xs)) ys = write_bytes d a (xs @ ys)"
proof
  fix x
  define k where "k = unat (x - a)"
  show "write_bytes (write_bytes d a xs) (a + of_nat (length xs)) ys x = write_bytes d a (xs @ ys) x"
  proof (cases "length xs \<le> k")
    case True
    then have "length xs < 4294967296" using unat_u32_lt [of "x - a"] by (simp add: k_def del: unat_u32_lt)
    then have "unat (of_nat (length xs) :: u32) = length xs" by (rule unat_of_nat_u32)
    then have "unat (x - a - of_nat (length xs)) = k - length xs"
      using True unfolding k_def by (subst unat_sub) (simp_all add: word_le_nat_alt)
    then show ?thesis using True by (auto simp: write_bytes_def nth_append k_def diff_diff_eq)
  next
    case False
    have "\<not> unat (x - (a + of_nat (length xs))) < length ys"
    proof
      define j where "j = unat (x - (a + of_nat (length xs)))"
      assume "unat (x - (a + of_nat (length xs))) < length ys"
      then have j: "j < length ys" by (simp add: j_def)
      have "x - a = of_nat (length xs + j)" by (simp add: j_def)
      then have "k = length xs + j" using assms j unfolding k_def by (simp only: unat_of_nat_u32)
      then show False using False by simp
    qed
    then show ?thesis using False by (simp add: write_bytes_def nth_append k_def)
  qed
qed

lemma write_bytes_Nil [simp]: "write_bytes d a [] = d"
  by (simp add: write_bytes_def)

lemma read_bytes_sub: "k + m \<le> n \<Longrightarrow> read_bytes d (a + of_nat k) m = take m (drop k (read_bytes d a n))"
  by (rule nth_equalityI) (simp_all add: read_bytes_def add.assoc)

definition clear_of :: "u32 \<Rightarrow> nat \<Rightarrow> structs \<Rightarrow> bool" where
  "clear_of a n cs \<longleftrightarrow> (\<forall>(q, b) \<in> set cs. apart a n (payload b) (unat (plen b)))"

lemma clear_of_simps [simp]: "clear_of a n []"
  "clear_of a n ((q, b) # cs) \<longleftrightarrow> apart a n (payload b) (unat (plen b)) \<and> clear_of a n cs"
  by (auto simp: clear_of_def)

lemma clear_of_sub: "clear_of a n cs \<Longrightarrow> i + n' \<le> n \<Longrightarrow> clear_of (a + of_nat i) n' cs"
  by (auto simp: clear_of_def intro: apart_sub)

lemma clear_of_le: "clear_of a n cs \<Longrightarrow> n' \<le> n \<Longrightarrow> clear_of a n' cs"
  using clear_of_sub [of a n cs 0 n'] by simp

lemma ucast_of_nat_unat: "(ucast (w :: u16) :: u32) = of_nat (unat w)"
  by (simp add: of_nat_unat)

lemma unat_add_u16: "unat a + unat b < 65536 \<Longrightarrow> unat (a + b :: u16) = unat a + unat b"
  by (simp add: unat_add_lem [THEN iffD1])

lemma ucast_add:
  fixes a b :: u16
  assumes "unat (a + b) = unat a + unat b"
  shows "(ucast (a + b) :: u32) = ucast a + of_nat (unat b)"
  by (simp only: ucast_of_nat_unat assms of_nat_add)

lemma content_write: "clear_of a (length bs) cs \<Longrightarrow> content (write_bytes d a bs) cs = content d cs"
  by (induction d cs rule: content.induct) (simp_all add: read_write_apart)

section \<open>Copying out of a chain\<close>

lemma copy_partial_loop_spec:
  assumes "chain (pbufs s) p cs" "clear_of (dst + ucast left) (unat n) cs"
    "unat left + unat n < 65536"
  shows "copy_partial_loop p dst n off left s =
    Some (left + of_nat (min (unat n) (chain_len cs - unat off)),
      s\<lparr>pdata := write_bytes (pdata s) (dst + ucast left) (take (unat n) (drop (unat off) (content (pdata s) cs)))\<rparr>)"
  using assms
proof (induction cs arbitrary: p n off left s)
  case Nil
  then show ?case by (subst copy_partial_loop.simps) simp
next
  case (Cons c cs)
  obtain a b where c: "c = (a, b)" by (cases c)
  have d: "deref p s = Some b" "p \<noteq> 0" and ch: "chain (pbufs s) (pnext b) cs" using Cons.prems by (auto simp: c deref_def)
  show ?case
  proof (cases "n = 0")
    case True
    then show ?thesis by (subst copy_partial_loop.simps) simp
  next
    case n: False
    show ?thesis
    proof (cases "off \<noteq> 0 \<and> off \<ge> plen b")
      case True
      then have "copy_partial_loop p dst n off left s = copy_partial_loop (pnext b) dst n (off - plen b) left s"
        using d n by (subst copy_partial_loop.simps) simp
      moreover have "unat (off - plen b) = unat off - unat (plen b)" "unat (plen b) \<le> unat off"
        using True by (auto simp: unat_sub word_le_nat_alt)
      ultimately show ?thesis using Cons.IH [OF ch, of left n "off - plen b"] Cons.prems
        by (simp add: c diff_diff_eq add.commute)
    next
      case False
      define m where "m = min (plen b - off) n"
      define s' where "s' = s\<lparr>pdata := MEMCPY (dst + ucast left) (payload b + ucast off) (unat m) (pdata s)\<rparr>"
      have off: "unat off \<le> unat (plen b)" using False by (auto simp: word_le_nat_alt)
      then have "unat (plen b - off) = unat (plen b) - unat off" by (simp add: unat_sub word_le_nat_alt)
      then have um: "unat m = min (unat (plen b) - unat off) (unat n)"
        by (auto simp: m_def min_def word_le_nat_alt)
      have st: "copy_partial_loop p dst n off left s = copy_partial_loop (pnext b) dst (n - m) 0 (left + m) s'"
        using d n False unfolding m_def s'_def by (subst copy_partial_loop.simps) (auto simp: Let_def)
      have mn: "unat m \<le> unat n" using um by simp
      then have um': "unat (n - m) = unat n - unat m" "unat (left + m) = unat left + unat m"
        using Cons.prems(3) by (simp add: unat_sub word_le_nat_alt, intro unat_add_u16) linarith
      have dl: "dst + ucast (left + m) = dst + ucast left + of_nat (unat m)" by (simp add: ucast_add um')
      define C where "C = content (pdata s) cs"
      define B where "B = read_bytes (pdata s) (payload b) (unat (plen b))"
      define ts where "ts = take (unat m) (drop (unat off) B)"
      have ts: "length ts = unat m" using um off by (simp add: ts_def B_def)
      have s': "s' = s\<lparr>pdata := write_bytes (pdata s) (dst + ucast left) ts\<rparr>"
        using um off read_bytes_sub [of "unat off" "unat m" "unat (plen b)" "pdata s" "payload b"]
        by (simp only: s'_def MEMCPY_def ts_def B_def ucast_of_nat_unat)
      have cl: "clear_of (dst + ucast left) (unat n) cs" using Cons.prems(2) by (simp add: c)
      have C': "content (pdata s') cs = C"
        using clear_of_le [OF cl, of "unat m"] um by (simp add: s' C_def content_write ts)
      have cl': "clear_of (dst + ucast (left + m)) (unat (n - m)) cs"
        unfolding dl using clear_of_sub [OF cl, of "unat m" "unat (n - m)"] um um'(1) by simp
      have lim: "unat (left + m) + unat (n - m) < 65536" using um um' Cons.prems(3) by simp
      have tk: "take (unat n) (drop (unat off) (B @ C)) = ts @ take (unat (n - m)) C"
      proof (cases "unat n \<le> unat (plen b) - unat off")
        case True
        then show ?thesis using um um'(1) off by (simp add: ts_def B_def)
      next
        case False
        then show ?thesis using um um'(1) off by (simp add: ts_def B_def)
      qed
      have ch': "chain (pbufs s') (pnext b) cs" using ch by (simp add: s')
      have "copy_partial_loop (pnext b) dst (n - m) 0 (left + m) s' =
          Some (left + m + of_nat (min (unat (n - m)) (chain_len cs)),
            s'\<lparr>pdata := write_bytes (pdata s') (dst + ucast (left + m)) (take (unat (n - m)) C)\<rparr>)"
        using Cons.IH [OF ch' cl' lim, of 0] by (simp add: C')
      moreover have "write_bytes (pdata s') (dst + ucast (left + m)) (take (unat (n - m)) C) =
          write_bytes (pdata s) (dst + ucast left) (ts @ take (unat (n - m)) C)"
      proof -
        have "length ts + length (take (unat (n - m)) C) \<le> 4294967296"
          using ts mn um'(1) unat_u16_lt [of n] by (simp del: unat_u16_lt)
        from write_bytes_append [OF this, of "pdata s" "dst + ucast left", unfolded ts]
        show ?thesis unfolding s' dl by simp
      qed
      moreover have "left + m + of_nat (min (unat (n - m)) (chain_len cs)) =
          left + of_nat (min (unat n) (unat (plen b) + chain_len cs - unat off))"
      proof -
        have e: "min (unat n) (unat (plen b) + chain_len cs - unat off) = unat m + min (unat (n - m)) (chain_len cs)"
          unfolding um'(1) um using off by (cases "unat n \<le> unat (plen b) - unat off") simp_all
        show ?thesis unfolding e by (simp add: add.assoc)
      qed
      moreover have "content (pdata s) (c # cs) = B @ C" by (simp add: c B_def C_def)
      ultimately show ?thesis unfolding st by (simp only: tk) (simp add: c s')
    qed
  qed
qed

lemma pbuf_copy_partial_spec:
  assumes "chain (pbufs s) p cs" "p \<noteq> 0" "dst \<noteq> 0" "clear_of dst (unat n) cs"
  shows "pbuf_copy_partial p dst n off s = Some (of_nat (min (unat n) (chain_len cs - unat off)),
    s\<lparr>pdata := write_bytes (pdata s) dst (take (unat n) (drop (unat off) (content (pdata s) cs)))\<rparr>)"
  using copy_partial_loop_spec [OF assms(1), of dst 0 n off] assms unat_u16_lt [of n]
  by (simp add: pbuf_copy_partial_def del: unat_u16_lt)

section \<open>Copying into a chain\<close>

text \<open>The bytes \<open>bs\<close> over the payloads of a chain, in order.\<close>

fun put :: "memory \<Rightarrow> structs \<Rightarrow> u8 list \<Rightarrow> memory" where
  "put d [] bs = d"
| "put d ((a, b) # cs) bs = put (write_bytes d (payload b) (take (unat (plen b)) bs)) cs (drop (unat (plen b)) bs)"

fun spread :: "structs \<Rightarrow> bool" where
  "spread [] \<longleftrightarrow> True"
| "spread ((a, b) # cs) \<longleftrightarrow> clear_of (payload b) (unat (plen b)) cs \<and> spread cs"

lemma spread_append: "spread (xs @ ys) \<longleftrightarrow> spread xs \<and> spread ys \<and>
    (\<forall>(q, b) \<in> set xs. clear_of (payload b) (unat (plen b)) ys)"
  by (induction xs rule: spread.induct) (auto simp: clear_of_def)

lemma put_Nil [simp]: "put d cs [] = d"
  by (induction d cs "[] :: u8 list" rule: put.induct) simp_all

lemma read_put: "clear_of a n cs \<Longrightarrow> read_bytes (put d cs bs) a n = read_bytes d a n"
proof (induction d cs bs rule: put.induct)
  case (2 d q b cs bs)
  then have "apart (payload b) (unat (plen b)) a n" by (auto intro: apart_sym)
  then have "apart (payload b) (length (take (unat (plen b)) bs)) a n" by (rule apart_le) simp
  then show ?case using 2 by (simp add: read_write_apart)
qed simp

lemma content_put_other:
  "\<forall>(q, b) \<in> set xs. clear_of (payload b) (unat (plen b)) ys \<Longrightarrow> content (put d ys bs) xs = content d xs"
  by (induction xs rule: chain_len.induct) (auto simp: read_put)

lemma read_write_inside:
  assumes "t + length w \<le> n" "n < 4294967296"
  shows "read_bytes (write_bytes d (a + of_nat t) w) a n =
    take t (read_bytes d a n) @ w @ drop (t + length w) (read_bytes d a n)"
proof (rule nth_equalityI)
  fix i assume "i < length (read_bytes (write_bytes d (a + of_nat t) w) a n)"
  then have i: "i < n" by simp
  show "read_bytes (write_bytes d (a + of_nat t) w) a n ! i =
    (take t (read_bytes d a n) @ w @ drop (t + length w) (read_bytes d a n)) ! i"
  proof (cases "t \<le> i")
    case True
    then have "a + of_nat i - (a + of_nat t) = (of_nat (i - t) :: u32)" by (simp add: of_nat_diff)
    then have "unat (a + of_nat i - (a + of_nat t) :: u32) = i - t" using i assms by (simp add: unat_of_nat_u32 del: of_nat_diff)
    then show ?thesis using i True assms by (simp add: read_bytes_nth write_bytes_def nth_append)
  next
    case False
    define j where "j = unat (a + of_nat i - (a + of_nat t) :: u32)"
    have "length w \<le> j"
    proof (rule ccontr)
      assume "\<not> length w \<le> j"
      then have "j + t < 4294967296" using assms by simp
      have "(of_nat (j + t) :: u32) = of_nat i" by (simp add: j_def)
      then have "j + t = i" using \<open>j + t < 4294967296\<close> i assms by (metis unat_of_nat_u32 less_trans)
      then show False using False by simp
    qed
    then show ?thesis using False i by (simp add: read_bytes_nth write_bytes_def nth_append j_def)
  qed
qed (use assms in simp)

lemma content_put:
  assumes "spread cs" "length bs \<le> chain_len cs"
  shows "content (put d cs bs) cs = bs @ drop (length bs) (content d cs)"
  using assms
proof (induction d cs bs rule: put.induct)
  case (2 d q b cs bs)
  let ?w = "take (unat (plen b)) bs" and ?B = "read_bytes d (payload b) (unat (plen b))"
  let ?d = "write_bytes d (payload b) ?w"
  have w: "length ?w \<le> unat (plen b)" "unat (plen b) < 4294967296"
    using unat_u16_lt [of "plen b"] by (simp_all del: unat_u16_lt)
  have "read_bytes (put ?d cs (drop (unat (plen b)) bs)) (payload b) (unat (plen b)) = ?w @ drop (length ?w) ?B"
    using 2 read_write_inside [of 0 ?w "unat (plen b)" d "payload b"] w by (simp add: read_put)
  moreover have "content ?d cs = content d cs"
    using 2(2) clear_of_le w(1) by (intro content_write) auto
  ultimately show ?case using 2 by (cases "length bs \<le> unat (plen b)") simp_all
qed simp

lemma take_loop_spec:
  assumes "chain (pbufs s) p cs" "clear_of (src + k) (unat n) cs" "unat n \<le> chain_len cs"
  shows "take_loop p src n k s = Some (s\<lparr>pdata := put (pdata s) cs (read_bytes (pdata s) (src + k) (unat n))\<rparr>)"
  using assms
proof (induction cs arbitrary: p n k s)
  case Nil
  then have "n = 0" by (simp add: unat_eq_zero)
  then show ?case by (subst take_loop.simps) simp
next
  case (Cons c cs)
  obtain a b where c: "c = (a, b)" by (cases c)
  have d: "deref p s = Some b" and ch: "chain (pbufs s) (pnext b) cs" using Cons.prems by (auto simp: c deref_def)
  show ?case
  proof (cases "n = 0")
    case True
    then show ?thesis by (subst take_loop.simps) (simp add: read_bytes_def)
  next
    case n: False
    define m where "m = (if n > ucast (plen b) then ucast (plen b) else n)"
    have um: "unat m = min (unat (plen b)) (unat n)" "unat (n - m) = unat n - min (unat (plen b)) (unat n)"
      by (auto simp: m_def word_less_nat_alt word_le_nat_alt unat_ucasts unat_sub not_less)
    define s' where "s' = s\<lparr>pdata := MEMCPY (payload b) (src + k) (unat m) (pdata s)\<rparr>"
    have st: "take_loop p src n k s = take_loop (pnext b) src (n - m) (k + m) s'"
      using d n unfolding m_def s'_def by (subst take_loop.simps) (simp add: Let_def)
    have km: "src + (k + m) = src + k + of_nat (unat m)" by (simp add: add.assoc)
    have cl: "clear_of (src + k) (unat n) cs" and ap: "apart (src + k) (unat n) (payload b) (unat (plen b))"
      using Cons.prems(2) by (simp_all add: c)
    have cl': "clear_of (src + (k + m)) (unat (n - m)) cs"
      unfolding km by (rule clear_of_sub [OF cl]) (use um in simp)
    have "apart (src + (k + m)) (unat (n - m)) (payload b) (unat (plen b))"
      unfolding km by (rule apart_sub [OF ap]) (use um in simp)
    then have "apart (payload b) (unat m) (src + (k + m)) (unat (n - m))"
      using apart_sym apart_le um(1) by (metis min.cobounded1)
    then have "apart (payload b) (length (read_bytes (pdata s) (src + k) (unat m))) (src + (k + m)) (unat (n - m))" by simp
    from read_write_apart [OF this, of "pdata s"]
    have "read_bytes (pdata s') (src + (k + m)) (unat (n - m)) = read_bytes (pdata s) (src + k + of_nat (unat m)) (unat (n - m))"
      unfolding km by (simp add: s'_def MEMCPY_def)
    also have "\<dots> = take (unat (n - m)) (drop (unat m) (read_bytes (pdata s) (src + k) (unat n)))"
      by (rule read_bytes_sub) (simp add: um)
    also have "\<dots> = drop (unat m) (read_bytes (pdata s) (src + k) (unat n))" by (simp add: um)
    finally have r: "read_bytes (pdata s') (src + (k + m)) (unat (n - m)) =
        drop (unat m) (read_bytes (pdata s) (src + k) (unat n))" .
    have t: "read_bytes (pdata s) (src + k) (unat m) = take (unat (plen b)) (read_bytes (pdata s) (src + k) (unat n))"
      using read_bytes_sub [of 0 "unat m" "unat n" "pdata s" "src + k"] um by (auto simp: min_def)
    have "unat (n - m) \<le> chain_len cs" using Cons.prems(3) um by (simp add: c)
    then have "take_loop (pnext b) src (n - m) (k + m) s' =
        Some (s'\<lparr>pdata := put (pdata s') cs (drop (unat m) (read_bytes (pdata s) (src + k) (unat n)))\<rparr>)"
      using Cons.IH [of s' "pnext b" "k + m" "n - m"] ch cl' by (simp add: r) (simp add: s'_def)
    moreover have "drop (unat m) (read_bytes (pdata s) (src + k) (unat n)) =
        drop (unat (plen b)) (read_bytes (pdata s) (src + k) (unat n))"
      using um(1) by (auto simp: min_def)
    ultimately show ?thesis unfolding st by (simp add: c s'_def MEMCPY_def t)
  qed
qed

lemma pbuf_take_spec:
  assumes "packet s p cs" "p \<noteq> 0" "src \<noteq> 0" "clear_of src (unat n) cs" "unat n \<le> chain_len cs"
  shows "pbuf_take p src n s = Some (ERR_OK, s\<lparr>pdata := put (pdata s) cs (read_bytes (pdata s) src (unat n))\<rparr>)"
proof -
  obtain b where "deref p s = Some b" "unat (tot_len b) = chain_len cs"
    using assms(1,2) by (cases cs) (auto simp: packet_def deref_def)
  then show ?thesis
    using take_loop_spec [of s p cs src 0 "ucast n"] assms
    by (simp add: pbuf_take_def packet_def unat_ucasts word_le_nat_alt)
qed

lemma take_drop_append: "take n xs @ drop n xs @ zs = xs @ zs"
  by (metis append_assoc append_take_drop_id)

text \<open>Bytes written from position \<open>t\<close> of the payload of \<open>b\<close> on, the rest of them over the structs behind it.\<close>

lemma content_replace:
  assumes sp: "spread (xs @ (a, b) # ys)" and t: "t \<le> unat (plen b)" and f: "f = min (unat (plen b) - t) (length bs)"
    and l: "length bs \<le> unat (plen b) - t + chain_len ys"
  shows "content (put (write_bytes d (payload b + of_nat t) (take f bs)) ys (drop f bs)) (xs @ (a, b) # ys) =
    take (chain_len xs + t) (content d (xs @ (a, b) # ys)) @ bs @
    drop (chain_len xs + t + length bs) (content d (xs @ (a, b) # ys))"
proof -
  let ?d = "write_bytes d (payload b + of_nat t) (take f bs)" and ?B = "read_bytes d (payload b) (unat (plen b))"
  have tf: "t + length (take f bs) \<le> unat (plen b)" using t f by simp
  have cb: "clear_of (payload b) (unat (plen b)) ys" "spread ys"
    "\<forall>(q, c) \<in> set xs. clear_of (payload c) (unat (plen c)) ys"
    "\<forall>(q, c) \<in> set xs. apart (payload c) (unat (plen c)) (payload b) (unat (plen b))"
    using sp by (auto simp: spread_append)
  have "clear_of (payload b + of_nat t) (length (take f bs)) ys" using clear_of_sub [OF cb(1) tf] .
  then have Y: "content ?d ys = content d ys" by (rule content_write)
  have "clear_of (payload b + of_nat t) (length (take f bs)) xs"
    unfolding clear_of_def
  proof (intro ballI, clarify)
    fix q c assume "(q, c) \<in> set xs"
    then have "apart (payload b) (unat (plen b)) (payload c) (unat (plen c))" using cb(4) by (auto intro: apart_sym)
    then show "apart (payload b + of_nat t) (length (take f bs)) (payload c) (unat (plen c))" using tf by (rule apart_sub)
  qed
  then have X: "content ?d xs = content d xs" by (rule content_write)
  have B: "read_bytes ?d (payload b) (unat (plen b)) = take t ?B @ take f bs @ drop (t + f) ?B"
    using read_write_inside [OF tf] f unat_u16_lt [of "plen b"] by (simp add: min_def del: unat_u16_lt)
  have P: "content (put ?d ys (drop f bs)) ys = drop f bs @ drop (length bs - f) (content d ys)"
  proof -
    have "length (drop f bs) \<le> chain_len ys" using l f by simp
    from content_put [OF cb(2) this, of ?d] show ?thesis by (simp add: Y)
  qed
  have E: "content (put ?d ys (drop f bs)) (xs @ (a, b) # ys) =
      content d xs @ (take t ?B @ take f bs @ drop (t + f) ?B) @ drop f bs @ drop (length bs - f) (content d ys)"
    using content_put_other [OF cb(3)] by (simp add: X P read_put [OF cb(1)] B)
  show ?thesis
  proof (cases "length bs \<le> unat (plen b) - t")
    case True
    then have "f = length bs" using f by simp
    then show ?thesis unfolding E using t True by simp
  next
    case False
    then have "f = unat (plen b) - t" using f by simp
    then show ?thesis unfolding E using t False by (simp add: take_drop_append add.commute)
  qed
qed

lemma tot_ok_suffix: "tot_ok (xs @ ys) \<Longrightarrow> tot_ok ys"
  by (induction xs rule: chain_len.induct) simp_all

lemma pbuf_take_at_spec:
  assumes P: "packet s p cs" and sp: "spread cs" and cl: "clear_of src (unat n) cs" and n: "0 < n"
    and fit: "unat off + unat n \<le> chain_len cs" and src: "src \<noteq> 0" "unat src + unat n < 4294967296"
  shows "\<exists>d. pbuf_take_at p src n off s = Some (ERR_OK, s\<lparr>pdata := d\<rparr>) \<and>
    content d cs = take (unat off) (content (pdata s) cs) @ read_bytes (pdata s) src (unat n) @
      drop (unat off + unat n) (content (pdata s) cs)"
proof -
  have ch: "chain (pbufs s) p cs" and tot: "tot_ok cs" using P by (simp_all add: packet_def)
  have n0: "0 < unat n" using n by (simp add: word_less_nat_alt)
  then have "unat off < chain_len cs" using fit by simp
  from pbuf_skip_inside [OF ch this] obtain xs a b ys where X: "cs = xs @ (a, b) # ys" "chain_len xs \<le> unat off"
    "unat off < chain_len xs + unat (plen b)" "a \<noteq> 0" "pbufs s a = Some b" "chain (pbufs s) a ((a, b) # ys)"
    "pbuf_skip p off s = Some (a, off - of_nat (chain_len xs))" by blast
  define t where "t = off - of_nat (chain_len xs)"
  have ut: "unat t = unat off - chain_len xs" unfolding t_def
    using X(2) unat_u16_lt [of off] by (subst unat_sub) (auto simp: word_le_nat_alt unat_of_nat_u16 simp del: unat_u16_lt)
  define f where "f = (if unat (plen b) - unat t < unat n then plen b - t else n)"
  have tb: "unat t \<le> unat (plen b)" using X(3) ut by simp
  then have uf: "unat f = min (unat (plen b) - unat t) (unat n)"
    by (auto simp: f_def unat_sub word_le_nat_alt)
  define bs where "bs = read_bytes (pdata s) src (unat n)"
  define d1 where "d1 = write_bytes (pdata s) (payload b + of_nat (unat t)) (take (unat f) bs)"
  define d where "d = put d1 ys (drop (unat f) bs)"
  have tk: "take (unat f) bs = read_bytes (pdata s) src (unat f)"
    using read_bytes_sub [of 0 "unat f" "unat n" "pdata s" src] uf by (simp add: bs_def)
  have m: "pdata s = pdata s \<Longrightarrow> MEMCPY (payload b + ucast t) src (unat f) (pdata s) = d1"
    unfolding d1_def tk MEMCPY_def ucast_of_nat_unat ..
  have tot': "unat (tot_len b) = unat (plen b) + chain_len ys" "tot_ok ys"
    using tot_ok_suffix [of xs "(a, b) # ys"] tot by (simp_all add: X(1))
  have fits: "unat (tot_len b) \<ge> unat t + unat n" using fit ut X(2) tot' by (simp add: X(1))
  have rem: "unat (n - f) = unat n - unat f" using uf by (simp add: unat_sub word_le_nat_alt)
  have st: "pbuf_take_at p src n off s =
      (if n - f > 0 then pbuf_take (pnext b) (src + ucast f) (n - f) (s\<lparr>pdata := d1\<rparr>) else Some (ERR_OK, s\<lparr>pdata := d1\<rparr>))"
    using X(7) X(4,5) fits m by (simp add: pbuf_take_at_def deref_def t_def [symmetric] f_def [symmetric] Let_def)
  have ln: "length bs = unat n" by (simp add: bs_def)
  have "pbuf_take_at p src n off s = Some (ERR_OK, s\<lparr>pdata := d\<rparr>)"
  proof (cases "n - f > 0")
    case False
    then have "unat (n - f) = 0" by (simp add: word_less_nat_alt del: word_gt_0)
    then have "drop (unat f) bs = []" using rem ln by simp
    then show ?thesis using False st by (simp add: d_def)
  next
    case True
    then have r0: "0 < unat n - unat f" using rem by (simp add: word_less_nat_alt)
    have le: "unat (n - f) \<le> chain_len ys" using rem uf fit ut X(2) by (simp add: X(1))
    have "pnext b \<noteq> 0" using X(6) le r0 rem by (cases ys) auto
    have "src + ucast f \<noteq> 0"
    proof
      assume "src + ucast f = 0"
      moreover have "unat (src + ucast f) = unat src + unat f"
        using src(2) uf by (subst unat_add_lem [THEN iffD1]) (simp_all add: unat_ucasts)
      ultimately show False using src(1) by (simp add: unat_eq_zero)
    qed
    have cy: "clear_of src (unat n) ys" and ab: "apart src (unat n) (payload b) (unat (plen b))"
      using cl by (auto simp: X(1) clear_of_def)
    have cy': "clear_of (src + ucast f) (unat (n - f)) ys"
      unfolding ucast_of_nat_unat using clear_of_sub [OF cy, of "unat f" "unat (n - f)"] rem uf by simp
    have "apart (src + of_nat (unat f)) (unat n - unat f) (payload b) (unat (plen b))"
      by (rule apart_sub [OF ab]) (use uf in simp)
    then have "apart (payload b) (unat (plen b)) (src + of_nat (unat f)) (unat n - unat f)" by (rule apart_sym)
    then have "apart (payload b + of_nat (unat t)) (length (take (unat f) bs)) (src + of_nat (unat f)) (unat n - unat f)"
      by (rule apart_sub) (use uf tb ln in simp)
    from read_write_apart [OF this, of "pdata s"]
    have "read_bytes d1 (src + ucast f) (unat (n - f)) = read_bytes (pdata s) (src + of_nat (unat f)) (unat n - unat f)"
      by (simp only: d1_def rem ucast_of_nat_unat)
    also have "\<dots> = take (unat n - unat f) (drop (unat f) bs)"
      unfolding bs_def by (rule read_bytes_sub) (use uf in simp)
    also have "\<dots> = drop (unat f) bs" using ln by simp
    finally have rd: "read_bytes d1 (src + ucast f) (unat (n - f)) = drop (unat f) bs" .
    have "packet (s\<lparr>pdata := d1\<rparr>) (pnext b) ys" using X(6) tot' by (simp add: packet_def)
    from pbuf_take_spec [OF this \<open>pnext b \<noteq> 0\<close> \<open>src + ucast f \<noteq> 0\<close> cy' le]
    show ?thesis using True st by (simp add: rd d_def)
  qed
  moreover have "content d cs = take (unat off) (content (pdata s) cs) @ bs @ drop (unat off + unat n) (content (pdata s) cs)"
    using content_replace [of xs a b ys "unat t" "unat f" bs "pdata s"] sp tb uf ln fit ut X(2)
    by (simp add: d_def d1_def X(1))
  ultimately show ?thesis by (auto simp: bs_def)
qed

lemma read_write_same_n:
  assumes "length bs = n" "n \<le> 4294967296"
  shows "read_bytes (write_bytes d a bs) a n = bs"
  using read_write_same [of bs d a] assms by simp

text \<open>C13: Bytes written into a packet with \<open>pbuf_take_at\<close>, across as many structs as they need, replace exactly
  the bytes of the packet from that offset on, and \<open>pbuf_copy_partial\<close> reads the same bytes back.\<close>

theorem take_at_then_copy:
  assumes "packet s p cs" "spread cs" "clear_of src (unat n) cs" "clear_of dst (unat n) cs"
    and n: "0 < n" and fit: "unat off + unat n \<le> chain_len cs"
    and "src \<noteq> 0" "unat src + unat n < 4294967296" "dst \<noteq> 0"
  shows "\<exists>s1 s2. pbuf_take_at p src n off s = Some (ERR_OK, s1) \<and> pbuf_copy_partial p dst n off s1 = Some (n, s2) \<and>
    content (pdata s1) cs = take (unat off) (content (pdata s) cs) @ read_bytes (pdata s) src (unat n) @
      drop (unat off + unat n) (content (pdata s) cs) \<and>
    content (pdata s2) cs = content (pdata s1) cs \<and>
    read_bytes (pdata s2) dst (unat n) = read_bytes (pdata s) src (unat n)"
proof -
  let ?bs = "read_bytes (pdata s) src (unat n)"
  obtain d where d: "pbuf_take_at p src n off s = Some (ERR_OK, s\<lparr>pdata := d\<rparr>)"
    "content d cs = take (unat off) (content (pdata s) cs) @ ?bs @ drop (unat off + unat n) (content (pdata s) cs)"
    using pbuf_take_at_spec [OF assms(1,2,3,5,6,7,8)] by (elim exE conjE)
  have ch: "chain (pbufs (s\<lparr>pdata := d\<rparr>)) p cs" using assms(1) by (simp add: packet_def)
  have "0 < chain_len cs" using n fit by (simp add: word_less_nat_alt)
  then have p0: "p \<noteq> 0" using ch by (cases cs) auto
  have c: "take (unat n) (drop (unat off) (content d cs)) = ?bs" using fit by (simp add: d(2))
  have w: "min (unat n) (chain_len cs - unat off) = unat n" using fit by simp
  have "pbuf_copy_partial p dst n off (s\<lparr>pdata := d\<rparr>) = Some (n, s\<lparr>pdata := write_bytes d dst ?bs\<rparr>)"
    using pbuf_copy_partial_spec [OF ch p0 assms(9,4), of off] by (simp add: c w)
  moreover have "read_bytes (write_bytes d dst ?bs) dst (unat n) = ?bs"
    using unat_u16_lt [of n] by (intro read_write_same_n) (simp_all del: unat_u16_lt)
  moreover have "content (write_bytes d dst ?bs) cs = content d cs" using assms(4) by (simp add: content_write)
  ultimately show ?thesis using d by (intro exI [of _ "s\<lparr>pdata := d\<rparr>"] exI [of _ "s\<lparr>pdata := write_bytes d dst ?bs\<rparr>"]) simp
qed

section \<open>A packet\<close>

definition sample_first :: pbuf where
  "sample_first = \<lparr>pnext = 0x200, payload = 0x1000, tot_len = 5, plen = 2, type_internal = 0x82, pflags = 0, pref = 1, if_idx = 0\<rparr>"

definition sample_second :: pbuf where
  "sample_second = \<lparr>pnext = 0, payload = 0x2000, tot_len = 3, plen = 3, type_internal = 0x82, pflags = 0, pref = 1, if_idx = 0\<rparr>"

definition sample_packet :: pbuf_state where
  "sample_packet = \<lparr>pbufs = [0x100 \<mapsto> sample_first, 0x200 \<mapsto> sample_second], pdata = (\<lambda>a. ucast a),
     mheap = sample_ram, mpools = sample_pools\<rparr>"

definition sample_structs :: structs where
  "sample_structs = [(0x100, sample_first), (0x200, sample_second)]"

lemmas sample_defs = sample_first_def sample_second_def sample_packet_def sample_structs_def

lemma sample_is_packet: "packet sample_packet 0x100 sample_structs" "sample_structs \<noteq> []" "chain_len sample_structs = 5"
  by (simp_all add: packet_def sample_defs)

lemma below_five: "i < Suc 0 \<longleftrightarrow> i = (0 :: nat)" "i < 2 \<longleftrightarrow> i = (0 :: nat) \<or> i = 1"
    "i < 3 \<longleftrightarrow> i = (0 :: nat) \<or> i = 1 \<or> i = 2" "i < 4 \<longleftrightarrow> i = (0 :: nat) \<or> i = 1 \<or> i = 2 \<or> i = 3"
  by auto

lemma sample_spread: "spread sample_structs"
  by (auto simp: sample_defs apart_def below_five)

lemma sample_clear: "clear_of 0x3000 4 sample_structs" "clear_of 0x4000 4 sample_structs"
  by (auto simp: sample_defs apart_def below_five)

lemma memfind_first_occurrence_witness:
  "pbuf_memfind 0x100 0x2001 2 0 sample_packet = Some 3"
  using memfind_first_occurrence [OF sample_is_packet(1,2), of 2 "0x2001" 0]
  by (simp add: sample_defs read_bytes_def first_occurrence_def occurs_def position_code_def upt_rec)

lemma take_at_then_copy_witness:
  "\<exists>s1 s2. pbuf_take_at 0x100 0x3000 4 1 sample_packet = Some (ERR_OK, s1) \<and>
    pbuf_copy_partial 0x100 0x4000 4 1 s1 = Some (4, s2) \<and> read_bytes (pdata s2) 0x4000 4 = [0, 1, 2, 3]"
proof -
  have n: "unat (4 :: u16) = 4" by simp
  have r: "read_bytes (pdata sample_packet) 0x3000 4 = [0, 1, 2, 3]" by (simp add: read_bytes_def sample_packet_def upt_rec)
  show ?thesis
    using take_at_then_copy [OF sample_is_packet(1) sample_spread, of "0x3000" 4 "0x4000" 1, unfolded n r]
    by (simp add: sample_clear sample_is_packet(3)) blast
qed

end
