(* ===== verification/PbufChain.thy ===== *)
theory PbufChain
  imports PbufSpec
begin

unbundle bit_operations_syntax

text \<open>
  Chains of packet buffers as shared structures: what releasing, joining, splitting and
  shortening a chain does to the structs and to the pools they come from, and that a chain taken
  from the pool of buffers is a packet of the length asked for.
\<close>

section \<open>Releasing\<close>

text \<open>A struct that was not made by the caller, and where it goes.\<close>

definition plain :: "pbuf \<Rightarrow> bool" where
  "plain b \<longleftrightarrow> pflags b AND PBUF_FLAG_IS_CUSTOM = 0 \<and> pbuf_get_allocsrc b \<in> {0, 1, 2}"

definition give_back :: "u32 \<times> pbuf \<Rightarrow> pbuf_state \<Rightarrow> pbuf_state" where
  "give_back = (\<lambda>(p, b) s. let s' = s\<lparr>pbufs := (pbufs s)(p := None)\<rparr> in
     if pbuf_get_allocsrc b = 2 then s'\<lparr>mpools := memp_free MEMP_PBUF_POOL p (mpools s)\<rparr>
     else if pbuf_get_allocsrc b = 1 then s'\<lparr>mpools := memp_free MEMP_PBUF p (mpools s)\<rparr>
     else s'\<lparr>mheap := mem_free p (mheap s)\<rparr>)"

fun drop_ref :: "structs \<Rightarrow> pbuf_state \<Rightarrow> pbuf_state" where
  "drop_ref [] s = s"
| "drop_ref ((a, b) # cs) s = set_pbuf a (b\<lparr>pref := pref b - 1\<rparr>) s"

lemma give_back_frame: "pbufs (give_back (p, b) s) = (pbufs s)(p := None)" "pdata (give_back (p, b) s) = pdata s"
  by (simp_all add: give_back_def Let_def)

lemma give_back_set: "give_back (p, b) (set_pbuf p b' s) = give_back (p, b) s"
  by (simp add: give_back_def Let_def set_pbuf_def)

lemma fold_give_back: "pbufs (fold give_back xs s) a = (if a \<in> fst ` set xs then None else pbufs s a)"
  "pdata (fold give_back xs s) = pdata s"
  by (induction xs arbitrary: s) (auto simp: give_back_frame)

text \<open>What the memory the structs came from gets back, in order: a struct from a pool goes to that
  pool, a struct from the heap to the heap.\<close>

definition to_pools :: "structs \<Rightarrow> memp_state \<Rightarrow> memp_state" where
  "to_pools xs = fold (\<lambda>(a, b). memp_free (if pbuf_get_allocsrc b = 2 then MEMP_PBUF_POOL else MEMP_PBUF) a)
     (filter (\<lambda>(a, b). pbuf_get_allocsrc b \<in> {1, 2}) xs)"

definition to_heap :: "structs \<Rightarrow> ram_heap \<Rightarrow> ram_heap" where
  "to_heap xs = fold (\<lambda>(a, b). mem_free a) (filter (\<lambda>(a, b). pbuf_get_allocsrc b = 0) xs)"

lemma fold_give_back_memory:
  "\<forall>(a, b) \<in> set xs. plain b \<Longrightarrow> mpools (fold give_back xs s) = to_pools xs (mpools s) \<and>
     mheap (fold give_back xs s) = to_heap xs (mheap s)"
proof (induction xs arbitrary: s)
  case (Cons c xs)
  obtain a b where c: "c = (a, b)" by (cases c)
  have "pbuf_get_allocsrc b \<in> {0, 1, 2}" using Cons.prems by (simp add: c plain_def)
  then show ?case using Cons by (auto simp: c give_back_def to_pools_def to_heap_def Let_def)
qed (simp add: to_pools_def to_heap_def)

lemma pbuf_release_plain: "plain b \<Longrightarrow> pbuf_release cf p b s = Some (give_back (p, b) s)"
  by (auto simp: pbuf_release_def give_back_def plain_def Let_def)

lemma chain_head_fresh: "chain m p ((a, b) # cs) \<Longrightarrow> a \<notin> fst ` set cs"
  using chain_distinct [of m p "(a, b) # cs"] by (simp only: distinct.simps list.map fst_conv set_map) simp

lemma pbuf_free_from_spec:
  assumes "chain (pbufs s) p (xs @ ys)" "\<forall>(a, b) \<in> set xs. pref b = 1 \<and> plain b"
    and "\<forall>a b zs. ys = (a, b) # zs \<longrightarrow> pref b \<noteq> 1"
  shows "pbuf_free_from cf n p s = Some (n + of_nat (length xs), drop_ref ys (fold give_back xs s))"
  using assms
proof (induction xs arbitrary: p n s)
  case Nil
  show ?case
  proof (cases ys)
    case Nil
    then show ?thesis using Nil.prems by (subst pbuf_free_from.simps) simp
  next
    case (Cons y zs)
    obtain a b where y: "y = (a, b)" by (cases y)
    have "p = a" "deref p s = Some b" "p \<noteq> 0" "pref b - 1 \<noteq> 0"
      using Nil.prems by (auto simp: Cons y deref_def)
    then show ?thesis by (subst pbuf_free_from.simps) (simp add: Cons y)
  qed
next
  case (Cons c xs)
  obtain a b where c: "c = (a, b)" by (cases c)
  have d: "p = a" "deref a s = Some b" "a \<noteq> 0" "pref b = 1" "plain b"
    using Cons.prems by (auto simp: c deref_def)
  let ?s = "give_back (a, b) s"
  have a: "a \<notin> fst ` set (xs @ ys)" using Cons.prems(1) unfolding c append_Cons by (rule chain_head_fresh)
  have ch: "chain (pbufs s) (pnext b) (xs @ ys)" using Cons.prems(1) by (simp add: c)
  have "chain (pbufs ?s) (pnext b) (xs @ ys)"
  proof (rule chain_frame [OF ch])
    fix x assume "x \<in> fst ` set (xs @ ys)"
    then have "x \<noteq> a" using a by metis
    then show "pbufs ?s x = pbufs s x" by (simp add: give_back_frame)
  qed
  then have "pbuf_free_from cf (n + 1) (pnext b) ?s = Some (n + 1 + of_nat (length xs), drop_ref ys (fold give_back xs ?s))"
    using Cons.prems by (intro Cons.IH) auto
  then show ?case using d
    by (subst pbuf_free_from.simps) (simp add: c pbuf_release_plain give_back_set add.assoc)
qed

section \<open>Linking\<close>

lemma chain_link:
  assumes "chain m p (xs @ (l, b) # zs)" "chain m q ys" "l \<notin> fst ` set ys" "pnext b' = q"
  shows "chain (m(l \<mapsto> b')) p (xs @ (l, b') # ys)"
  using assms(1)
proof (induction xs arbitrary: p)
  case Nil
  moreover have "chain (m(l \<mapsto> b')) q ys" using assms(3) by (intro chain_frame [OF assms(2)]) auto
  ultimately show ?case using assms(4) by (simp add: fun_upd_def)
next
  case (Cons c xs)
  obtain a e where c: "c = (a, e)" by (cases c)
  have "a \<noteq> l" using chain_head_fresh [OF Cons.prems [unfolded c append_Cons]] by auto
  then show ?case using Cons.IH [of "pnext e"] Cons.prems by (simp add: c)
qed

text \<open>Changing the structs of a chain, not their links.\<close>

lemma chain_change:
  assumes "chain m p (xs @ ys)" "\<And>b. pnext (g b) = pnext b"
  shows "chain (\<lambda>a. if a \<in> fst ` set xs then map_option g (m a) else m a) p (map (apsnd g) xs @ ys)"
  using assms(1)
proof (induction xs arbitrary: p)
  case (Cons c xs)
  obtain a b where c: "c = (a, b)" by (cases c)
  let ?m = "\<lambda>x. if x \<in> fst ` set xs then map_option g (m x) else m x"
  have a: "a \<notin> fst ` set (xs @ ys)" using Cons.prems unfolding c append_Cons by (rule chain_head_fresh)
  have ch: "chain ?m (pnext b) (map (apsnd g) xs @ ys)" using Cons by (simp add: c)
  have "fst ` set (map (apsnd g) xs @ ys) = fst ` set (xs @ ys)" by (simp add: image_Un image_image)
  then have ne: "x \<noteq> a" if "x \<in> fst ` set (map (apsnd g) xs @ ys)" for x using that a by metis
  have "chain (\<lambda>x. if x \<in> fst ` set (c # xs) then map_option g (m x) else m x) (pnext b) (map (apsnd g) xs @ ys)"
    by (rule chain_frame [OF ch]) (use ne in \<open>auto simp: c\<close>)
  then show ?case using Cons.prems assms(2) by (simp add: c)
qed simp

definition grow :: "u16 \<Rightarrow> pbuf \<Rightarrow> pbuf" where
  "grow k b = b\<lparr>tot_len := tot_len b + k\<rparr>"

lemma grow_simps [simp]: "pnext (grow k b) = pnext b" "plen (grow k b) = plen b" "payload (grow k b) = payload b"
  "tot_len (grow k b) = tot_len b + k" "pref (grow k b) = pref b"
  by (simp_all add: grow_def)

lemma cat_walk_spec:
  assumes "chain (pbufs s) p (xs @ [(l, b)])" "deref t s = Some bt" "t \<notin> fst ` set xs"
  shows "cat_walk p t s = Some (l, s\<lparr>pbufs :=
    (\<lambda>a. if a \<in> fst ` set xs then map_option (grow (tot_len bt)) (pbufs s a) else pbufs s a)\<rparr>)"
  using assms
proof (induction xs arbitrary: p s)
  case Nil
  then show ?case by (subst cat_walk.simps) (simp add: deref_def)
next
  case (Cons c xs)
  obtain a e where c: "c = (a, e)" by (cases c)
  let ?s = "set_pbuf a (grow (tot_len bt) e) s"
  have d: "p = a" "a \<noteq> 0" "pbufs s a = Some e" "chain (pbufs s) (pnext e) (xs @ [(l, b)])" "t \<noteq> a" "t \<notin> fst ` set xs"
    using Cons.prems by (auto simp: c)
  have a: "a \<notin> fst ` set (xs @ [(l, b)])" using Cons.prems(1) unfolding c append_Cons by (rule chain_head_fresh)
  have nz: "pnext e \<noteq> 0" using d(4) by (cases xs) auto
  have "chain (pbufs ?s) (pnext e) (xs @ [(l, b)])"
    using a by (intro chain_frame [OF d(4)]) (auto simp: set_pbuf_def)
  moreover have "deref t ?s = Some bt" using Cons.prems(2) d(5) by (simp add: deref_def set_pbuf_def split: if_splits)
  ultimately have "cat_walk (pnext e) t ?s = Some (l, ?s\<lparr>pbufs :=
      (\<lambda>x. if x \<in> fst ` set xs then map_option (grow (tot_len bt)) (pbufs ?s x) else pbufs ?s x)\<rparr>)"
    using d(6) by (intro Cons.IH)
  moreover have "(\<lambda>x. if x \<in> fst ` set xs then map_option (grow (tot_len bt)) (pbufs ?s x) else pbufs ?s x) =
      (\<lambda>x. if x \<in> fst ` set (c # xs) then map_option (grow (tot_len bt)) (pbufs s x) else pbufs s x)"
    using a d(3) by (auto simp: fun_eq_iff c set_pbuf_def)
  ultimately show ?case using d(1-3) nz Cons.prems(2)
    by (subst cat_walk.simps) (simp add: deref_def grow_def set_pbuf_def)
qed

text \<open>The lengths of the first structs of a packet, \<open>r\<close> bytes behind them.\<close>

fun part_ok :: "nat \<Rightarrow> structs \<Rightarrow> bool" where
  "part_ok r [] \<longleftrightarrow> True"
| "part_ok r ((a, b) # cs) \<longleftrightarrow> unat (tot_len b) = unat (plen b) + chain_len cs + r \<and> part_ok r cs"

lemma tot_ok_append: "tot_ok (xs @ ys) \<longleftrightarrow> part_ok (chain_len ys) xs \<and> tot_ok ys"
  by (induction xs rule: chain_len.induct) auto

lemma part_ok_append: "part_ok r (xs @ ys) \<longleftrightarrow> part_ok (chain_len ys + r) xs \<and> part_ok r ys"
  by (induction xs rule: chain_len.induct) auto

lemma part_ok_0: "part_ok 0 cs \<longleftrightarrow> tot_ok cs"
  by (induction cs rule: chain_len.induct) auto

lemma chain_len_grow [simp]: "chain_len (map (apsnd (grow k)) xs) = chain_len xs"
  by (induction xs rule: chain_len.induct) auto

lemma part_ok_grow:
  "part_ok r xs \<Longrightarrow> chain_len xs + r + unat k < 65536 \<Longrightarrow> part_ok (r + unat k) (map (apsnd (grow k)) xs)"
  by (induction r xs rule: part_ok.induct) (auto simp: unat_add_u16)

lemma content_grow [simp]: "content d (map (apsnd (grow k)) xs) = content d xs"
  by (induction d xs rule: content.induct) auto

lemma fst_apsnd [simp]: "map fst (map (apsnd g) xs) = map fst xs" "fst ` apsnd g ` A = fst ` A"
  by (auto simp: image_image)

text \<open>C37: \<open>pbuf_cat\<close> joins two packets into one: every \<open>tot_len\<close> of the first is raised by
  the length of the second, which stays as it is, the bytes are those of both in order, and no reference count changes.\<close>

theorem pbuf_cat_joins:
  assumes H: "packet s h xs" "xs \<noteq> []" and T: "packet s t ys" "ys \<noteq> []"
    and apart: "fst ` set xs \<inter> fst ` set ys = {}" and fits: "chain_len xs + chain_len ys < 65536"
  shows "\<exists>s' zs. pbuf_cat h t s = Some s' \<and> packet s' h (zs @ ys) \<and> packet s' t ys \<and>
    map fst zs = map fst xs \<and> map (pref \<circ> snd) zs = map (pref \<circ> snd) xs \<and>
    content (pdata s') (zs @ ys) = content (pdata s) xs @ content (pdata s) ys"
proof -
  obtain ws l b where xs: "xs = ws @ [(l, b)]" using H(2) by (metis rev_exhaust surj_pair)
  obtain bt vs where ys: "ys = (t, bt) # vs" "t \<noteq> 0" "pbufs s t = Some bt"
    using T by (cases ys) (auto simp: packet_def)
  let ?k = "tot_len bt"
  have k: "unat ?k = chain_len ys" using T(1) by (simp add: packet_def ys(1))
  have ch: "chain (pbufs s) h (ws @ [(l, b)])" and cy: "chain (pbufs s) t ys"
    and tx: "tot_ok (ws @ [(l, b)])" and ty: "tot_ok ys" using H(1) T(1) by (simp_all add: packet_def xs)
  have tn: "t \<notin> fst ` set ws" "t \<noteq> l" "l \<notin> fst ` set ys" using apart by (auto simp: xs ys(1))
  have dt: "deref t s = Some bt" using ys by (simp add: deref_def)
  have l: "l \<noteq> 0" "pbufs s l = Some b" using chain_members [OF ch, of l b] by auto
  have lw: "l \<notin> fst ` set ws" using chain_distinct [OF ch] by auto
  have h0: "h \<noteq> 0" using ch by (cases ws) auto
  define m where "m = (\<lambda>a. if a \<in> fst ` set ws then map_option (grow ?k) (pbufs s a) else pbufs s a)"
  define b' where "b' = b\<lparr>tot_len := tot_len b + ?k, pnext := t\<rparr>"
  define s' where "s' = s\<lparr>pbufs := m(l \<mapsto> b')\<rparr>"
  define zs where "zs = map (apsnd (grow ?k)) ws @ [(l, b')]"
  have w: "cat_walk h t s = Some (l, s\<lparr>pbufs := m\<rparr>)" unfolding m_def by (rule cat_walk_spec [OF ch dt tn(1)])
  have cat: "pbuf_cat h t s = Some s'"
    using h0 ys(2,3) w l lw tn by (simp add: pbuf_cat_def deref_def upd_pbuf_def set_pbuf_def s'_def b'_def m_def)
  have "chain m h (map (apsnd (grow ?k)) ws @ [(l, b)])" unfolding m_def by (rule chain_change [OF ch]) simp
  moreover have my: "chain m t ys" unfolding m_def using apart by (intro chain_frame [OF cy]) (auto simp: xs)
  ultimately have cz: "chain (m(l \<mapsto> b')) h (zs @ ys)"
    using chain_link [of m h "map (apsnd (grow ?k)) ws" l b "[]" t ys b'] tn(3) by (simp add: zs_def b'_def)
  have cy': "chain (m(l \<mapsto> b')) t ys" using tn(3) by (intro chain_frame [OF my]) auto
  have "unat (tot_len b') = unat (plen b') + chain_len ys"
    using tx fits k by (simp add: xs b'_def tot_ok_append unat_add_u16)
  moreover have "part_ok (unat (plen b) + chain_len ys) (map (apsnd (grow ?k)) ws)"
    using part_ok_grow [of "unat (plen b)" ws ?k] tx fits by (simp add: xs k tot_ok_append)
  ultimately have tz: "tot_ok (zs @ ys)" using ty by (simp add: zs_def tot_ok_append part_ok_append b'_def)
  have "content d (zs @ ys) = content d xs @ content d ys" for d by (simp add: zs_def xs b'_def)
  moreover have "map (pref \<circ> snd) zs = map (pref \<circ> snd) xs" "map fst zs = map fst xs" by (simp_all add: zs_def xs b'_def)
  ultimately show ?thesis using cat cz cy' tz ty by (intro exI [of _ s'] exI [of _ zs]) (simp add: packet_def s'_def)
qed

text \<open>C39: Splitting a chain right behind its first struct undoes \<open>pbuf_chain\<close>, with the
  lengths and the reference count of the second packet as they were, and gives its address.\<close>

theorem dechain_undoes_chain:
  assumes "packet s h [(h, b)]" and "packet s t ((t, bt) # ys)" and "h \<noteq> t" and "pref bt \<noteq> 0"
  shows "\<exists>s'. pbuf_chain h t s = Some s' \<and> pbuf_dechain cf h s' = Some (t, s)"
proof -
  have b: "h \<noteq> 0" "pbufs s h = Some b" "pnext b = 0" "tot_len b = plen b" and t: "t \<noteq> 0" "pbufs s t = Some bt"
    using assms(1,2) by (auto simp: packet_def word_unat_eq_iff)
  define b' where "b' = b\<lparr>tot_len := tot_len b + tot_len bt, pnext := t\<rparr>"
  define s' where "s' = s\<lparr>pbufs := (pbufs s)(h \<mapsto> b', t \<mapsto> bt\<lparr>pref := pref bt + 1\<rparr>)\<rparr>"
  have "pbuf_chain h t s = Some s'"
    using b t assms(3)
    by (simp add: pbuf_chain_def pbuf_cat_def pbuf_ref_def cat_walk.simps [of h] deref_def upd_pbuf_def set_pbuf_def s'_def b'_def)
  moreover have "pbuf_dechain cf h s' = Some (t, s)"
  proof -
    have e: "b\<lparr>pnext := 0, tot_len := plen b\<rparr> = b" using b by (intro pbuf.equality) simp_all
    have "s\<lparr>pbufs := (pbufs s)(t \<mapsto> bt, h \<mapsto> b\<lparr>pnext := 0, tot_len := plen b\<rparr>)\<rparr> = s"
      unfolding e using b t by (intro pbuf_state.equality) auto
    then show ?thesis
      using b t assms(3,4)
      by (simp add: pbuf_dechain_def pbuf_free_def pbuf_free_from.simps [of cf 0 t] deref_def upd_pbuf_def set_pbuf_def s'_def b'_def
          fun_upd_twist)
  qed
  ultimately show ?thesis by blast
qed

section \<open>Reference counts\<close>

lemma set_pbuf_frame: "pbufs (set_pbuf a b s) = (pbufs s)(a \<mapsto> b)" "pdata (set_pbuf a b s) = pdata s"
  "mheap (set_pbuf a b s) = mheap s" "mpools (set_pbuf a b s) = mpools s"
  by (simp_all add: set_pbuf_def)

lemma drop_ref_frame: "pdata (drop_ref ys s) = pdata s" "mpools (drop_ref ys s) = mpools s" "mheap (drop_ref ys s) = mheap s"
    "a \<notin> fst ` set (take 1 ys) \<Longrightarrow> pbufs (drop_ref ys s) a = pbufs s a"
  by (cases "(ys, s)" rule: drop_ref.cases; simp add: set_pbuf_frame)+

lemma drop_ref_chain:
  assumes "chain (pbufs s) a ((a, b) # zs)"
  shows "chain (pbufs (drop_ref ((a, b) # zs) s)) a ((a, b\<lparr>pref := pref b - 1\<rparr>) # zs)"
proof -
  have "a \<notin> fst ` set zs" by (rule chain_head_fresh [OF assms])
  moreover have z: "chain (pbufs s) (pnext b) zs" using assms by simp
  ultimately have "chain ((pbufs s)(a \<mapsto> b\<lparr>pref := pref b - 1\<rparr>)) (pnext b) zs"
    by (intro chain_frame [OF z]) auto
  then show ?thesis using assms by (simp add: set_pbuf_frame fun_upd_def)
qed

lemma pbuf_free_spec:
  assumes "chain (pbufs s) p (xs @ ys)" "\<forall>(a, b) \<in> set xs. pref b = 1 \<and> plain b"
    and "\<forall>a b zs. ys = (a, b) # zs \<longrightarrow> pref b \<noteq> 1"
  shows "\<exists>s'. pbuf_free cf p s = Some (of_nat (length xs), s') \<and> (\<forall>a \<in> fst ` set xs. pbufs s' a = None) \<and>
    (\<forall>a b zs. ys = (a, b) # zs \<longrightarrow> chain (pbufs s') a ((a, b\<lparr>pref := pref b - 1\<rparr>) # zs)) \<and>
    (\<forall>a. a \<notin> fst ` set (xs @ take 1 ys) \<longrightarrow> pbufs s' a = pbufs s a) \<and> pdata s' = pdata s \<and>
    mpools s' = to_pools xs (mpools s) \<and> mheap s' = to_heap xs (mheap s)"
proof -
  let ?s = "fold give_back xs s"
  have d: "fst ` set xs \<inter> fst ` set ys = {}" using chain_distinct [OF assms(1)] by (simp only: map_append distinct_append set_map)
  have ys: "chain (pbufs ?s) a ((a, b) # zs)" if "ys = (a, b) # zs" for a b zs
  proof -
    have "chain (pbufs s) a ((a, b) # zs)" using assms(1) unfolding that by (rule chain_suffix)
    then show ?thesis
      by (rule chain_frame) (use d in \<open>auto simp: fold_give_back that\<close>)
  qed
  have "pbuf_free cf p s = Some (of_nat (length xs), drop_ref ys ?s)"
    using pbuf_free_from_spec [OF assms, of cf 0] by (simp add: pbuf_free_def)
  moreover have "\<forall>a \<in> fst ` set xs. pbufs (drop_ref ys ?s) a = None"
  proof
    fix a assume a: "a \<in> fst ` set xs"
    then have "a \<notin> fst ` set ys" using d by blast
    moreover have "set (take 1 ys) \<subseteq> set ys" by (rule set_take_subset)
    ultimately have "a \<notin> fst ` set (take 1 ys)" by blast
    then show "pbufs (drop_ref ys ?s) a = None" using a by (simp add: drop_ref_frame fold_give_back)
  qed
  moreover have "chain (pbufs (drop_ref ys ?s)) a ((a, b\<lparr>pref := pref b - 1\<rparr>) # zs)" if "ys = (a, b) # zs" for a b zs
    using drop_ref_chain [OF ys [OF that]] unfolding that .
  moreover have "pbufs (drop_ref ys ?s) a = pbufs s a" if "a \<notin> fst ` set (xs @ take 1 ys)" for a
  proof -
    have "a \<notin> fst ` set (take 1 ys)" "a \<notin> fst ` set xs" using that unfolding set_append image_Un by blast+
    then show ?thesis by (intro trans [OF drop_ref_frame(4)]) (simp_all only: fold_give_back if_False not_False_eq_True)
  qed
  moreover have "pdata (drop_ref ys ?s) = pdata s" by (simp add: drop_ref_frame fold_give_back)
  moreover have "mpools (drop_ref ys ?s) = to_pools xs (mpools s)" "mheap (drop_ref ys ?s) = to_heap xs (mheap s)"
    using fold_give_back_memory [of xs s] assms(2) by (auto simp: drop_ref_frame)
  ultimately show ?thesis by (intro exI [of _ "drop_ref ys ?s"] conjI allI impI) (simp_all only:)
qed

text \<open>C19: \<open>pbuf_free\<close> releases the structs of a chain up to the first that is referenced
  from elsewhere, drops one reference to that one, keeps it and all behind it, and says how many it
  released. Each released struct goes back to the pool or the heap it came from, by \<open>memp_free\<close> or
  \<open>mem_free\<close> and in the order of the chain; the pools and the heap are not changed otherwise.\<close>

theorem pbuf_free_by_count:
  assumes "chain (pbufs s) p (xs @ ys)" "\<forall>(a, b) \<in> set xs. pref b = 1 \<and> plain b"
    and "\<forall>a b zs. ys = (a, b) # zs \<longrightarrow> pref b \<noteq> 1"
  shows "\<exists>s'. pbuf_free cf p s = Some (of_nat (length xs), s') \<and> (\<forall>a \<in> fst ` set xs. pbufs s' a = None) \<and>
    (\<forall>a b zs. ys = (a, b) # zs \<longrightarrow> chain (pbufs s') a ((a, b\<lparr>pref := pref b - 1\<rparr>) # zs)) \<and>
    (\<forall>a. a \<notin> fst ` set (xs @ take 1 ys) \<longrightarrow> pbufs s' a = pbufs s a) \<and> pdata s' = pdata s \<and>
    mpools s' = to_pools xs (mpools s) \<and> mheap s' = to_heap xs (mheap s)"
  using assms by (rule pbuf_free_spec)

section \<open>Headers\<close>

text \<open>There is room for \<open>k\<close> more bytes in front of the payload.\<close>

definition header_room :: "u32 \<Rightarrow> pbuf \<Rightarrow> u32 \<Rightarrow> bool" where
  "header_room p b k \<longleftrightarrow> unat k + unat (tot_len b) < 65536 \<and> type_internal b AND 0x80 \<noteq> 0 \<and>
     unat p + 16 + unat k \<le> unat (payload b)"

lemma mod_below: "a < 65536 \<Longrightarrow> b < 65536 \<Longrightarrow> (a + b) mod 65536 < a \<longleftrightarrow> 65536 \<le> a + (b :: nat)"
proof (cases "a + b < 65536")
  case False
  assume "a < 65536" "b < 65536"
  then have "a + b - 65536 < 65536" by linarith
  then have "(a + b) mod 65536 = a + b - 65536" using False by (subst le_mod_geq) (simp_all only: mod_less not_less)
  then show ?thesis using False \<open>b < 65536\<close> by linarith
qed simp

lemma u16_wraps: "(x :: u16) + y < x \<longleftrightarrow> 65536 \<le> unat x + unat y"
proof -
  have "unat (x + y) = (unat x + unat y) mod 65536" by (simp add: unat_word_ariths)
  then show ?thesis unfolding word_less_nat_alt by (simp only: mod_below [OF unat_u16_lt unat_u16_lt])
qed

text \<open>C38: \<open>pbuf_add_header\<close> puts the \<open>k\<close> bytes before the payload in front of the packet when
  the buffer has room for them and changes nothing otherwise; \<open>pbuf_remove_header\<close> takes them off again and restores the packet.\<close>

theorem header_round_trip:
  assumes P: "packet s p ((p, b) # cs)" and k: "0 < k" "k \<le> 0xFFFF"
    and low: "unat p + 16 \<le> unat (payload b)" "0xFFFF \<le> unat (payload b)"
  shows "if header_room p b k
    then \<exists>s' b'. pbuf_add_header p k s = Some (0, s') \<and> packet s' p ((p, b') # cs) \<and>
      content (pdata s') ((p, b') # cs) = read_bytes (pdata s) (payload b - k) (unat k) @ content (pdata s) ((p, b) # cs) \<and>
      pbuf_remove_header p k s' = Some (0, s)
    else pbuf_add_header p k s = Some (1, s)"
proof -
  have b: "p \<noteq> 0" "pbufs s p = Some b" "chain (pbufs s) (pnext b) cs" "unat (tot_len b) = unat (plen b) + chain_len cs" "tot_ok cs"
    using P by (auto simp: packet_def)
  let ?m = "ucast k :: u16" and ?pay = "payload b - k"
  have uk: "unat k \<le> 65535" using k(2) by (simp add: word_le_nat_alt)
  then have um: "unat ?m = unat k" by (simp add: unat_ucasts)
  have upay: "unat ?pay = unat (payload b) - unat k"
    using uk low(2) by (subst unat_sub) (simp_all add: word_le_nat_alt)
  have up: "unat (p + SIZEOF_STRUCT_PBUF) = unat p + 16"
    using low(1) unat_u32_lt [of "payload b"] unfolding SIZEOF_STRUCT_PBUF_def
    by (subst unat_add_lem [THEN iffD1]) (simp_all del: unat_u32_lt)
  have w: "?m + tot_len b < ?m \<longleftrightarrow> \<not> unat k + unat (tot_len b) < 65536"
    unfolding u16_wraps um by (simp add: not_less)
  have c: "?pay < p + SIZEOF_STRUCT_PBUF \<longleftrightarrow> \<not> unat p + 16 + unat k \<le> unat (payload b)"
    unfolding word_less_nat_alt upay up using uk low(2) by linarith
  define b' where "b' = b\<lparr>payload := ?pay, plen := plen b + ?m, tot_len := tot_len b + ?m\<rparr>"
  have add: "pbuf_add_header p k s = (if header_room p b k then Some (0, set_pbuf p b' s) else Some (1, s))"
  proof -
    have "k \<noteq> 0" "\<not> k > 0xFFFF" "deref p s = Some b" using k b(1,2) by (auto simp: deref_def)
    then show ?thesis unfolding pbuf_add_header_def pbuf_add_header_impl_def header_room_def Let_def
      using b(1) by (simp add: b'_def w c)
  qed
  show ?thesis
  proof (cases "header_room p b k")
    case False
    then show ?thesis using add by simp
  next
    case True
    then have r: "unat k + unat (tot_len b) < 65536" by (simp add: header_room_def)
    have "p \<notin> fst ` set cs" using P unfolding packet_def by (blast dest: chain_head_fresh)
    then have "chain ((pbufs s)(p \<mapsto> b')) (pnext b) cs" by (intro chain_frame [OF b(3)]) auto
    moreover have l: "unat (tot_len b') = unat (tot_len b) + unat k" "unat (plen b') = unat k + unat (plen b)"
      using r um b(4) by (simp_all add: b'_def unat_add_u16)
    ultimately have "packet (set_pbuf p b' s) p ((p, b') # cs)"
      using b by (simp add: packet_def set_pbuf_frame b'_def fun_upd_def)
    moreover have "content (pdata (set_pbuf p b' s)) ((p, b') # cs) =
        read_bytes (pdata s) ?pay (unat k) @ content (pdata s) ((p, b) # cs)"
      using read_bytes_append [of "pdata s" ?pay "unat k" "unat (plen b)"] l by (simp add: set_pbuf_frame) (simp add: b'_def)
    moreover have "pbuf_remove_header p k (set_pbuf p b' s) = Some (0, s)"
    proof -
      have "?m \<le> plen b'" using l um by (simp add: word_le_nat_alt)
      moreover have "set_pbuf p (b'\<lparr>payload := payload b' + k, plen := plen b' - ?m, tot_len := tot_len b' - ?m\<rparr>) (set_pbuf p b' s) = s"
        using b(2) by (intro pbuf_state.equality) (auto simp: set_pbuf_def b'_def)
      moreover have "k \<noteq> 0" "\<not> k > 0xFFFF" "deref p (set_pbuf p b' s) = Some b'"
        using k b(1) by (auto simp: deref_def set_pbuf_frame)
      ultimately show ?thesis using b(1) by (simp add: pbuf_remove_header_def Let_def)
    qed
    ultimately show ?thesis using True add by auto
  qed
qed

section \<open>Shortening\<close>

text \<open>Taking \<open>k\<close> from a length is adding \<open>- k\<close>, modulo \<open>2 ^ 16\<close>.\<close>

lemma realloc_walk_spec:
  assumes "chain (pbufs s) p (xs @ (a, b) # ys)" "chain_len xs < unat n \<or> xs = []" "unat n \<le> chain_len xs + unat (plen b)"
  shows "realloc_walk k p n s = Some (a, n - of_nat (chain_len xs), s\<lparr>pbufs :=
    (\<lambda>x. if x \<in> fst ` set xs then map_option (grow (- k)) (pbufs s x) else pbufs s x)\<rparr>)"
  using assms
proof (induction xs arbitrary: p n s)
  case Nil
  then have "\<not> n > plen b" "deref p s = Some b" "p = a" by (auto simp: word_less_nat_alt deref_def)
  then show ?case by (subst realloc_walk.simps) simp
next
  case (Cons c xs)
  obtain q e where c: "c = (q, e)" by (cases c)
  let ?s = "set_pbuf q (grow (- k) e) s"
  have d: "p = q" "q \<noteq> 0" "pbufs s q = Some e" and ch: "chain (pbufs s) (pnext e) (xs @ (a, b) # ys)"
    using Cons.prems(1) by (auto simp: c)
  have fresh: "q \<notin> fst ` set (xs @ (a, b) # ys)" using Cons.prems(1) unfolding c append_Cons by (rule chain_head_fresh)
  have n: "n > plen e" "unat (n - plen e) = unat n - unat (plen e)"
    using Cons.prems(2) by (auto simp: c word_less_nat_alt unat_sub word_le_nat_alt)
  have "chain (pbufs ?s) (pnext e) (xs @ (a, b) # ys)"
  proof (rule chain_frame [OF ch])
    fix x assume "x \<in> fst ` set (xs @ (a, b) # ys)"
    then have "x \<noteq> q" using fresh by metis
    then show "pbufs ?s x = pbufs s x" by (simp add: set_pbuf_frame)
  qed
  moreover have "chain_len xs < unat (n - plen e) \<or> xs = []" using Cons.prems(2) n by (simp add: c) linarith
  moreover have "unat (n - plen e) \<le> chain_len xs + unat (plen b)" using Cons.prems(3) n by (simp add: c)
  ultimately have "realloc_walk k (pnext e) (n - plen e) ?s = Some (a, n - plen e - of_nat (chain_len xs), ?s\<lparr>pbufs :=
      (\<lambda>x. if x \<in> fst ` set xs then map_option (grow (- k)) (pbufs ?s x) else pbufs ?s x)\<rparr>)" by (rule Cons.IH)
  moreover have "(\<lambda>x. if x \<in> fst ` set xs then map_option (grow (- k)) (pbufs ?s x) else pbufs ?s x) =
      (\<lambda>x. if x \<in> fst ` set (c # xs) then map_option (grow (- k)) (pbufs s x) else pbufs s x)"
    using fresh d(3) by (auto simp: fun_eq_iff c set_pbuf_frame)
  ultimately show ?case using d n(1)
    by (subst realloc_walk.simps) (simp add: deref_def c grow_def set_pbuf_def diff_diff_eq)
qed

lemma part_ok_shrink:
  "part_ok r xs \<Longrightarrow> unat k \<le> r \<Longrightarrow> part_ok (r - unat k) (map (apsnd (grow (- k))) xs)"
  by (induction r xs rule: part_ok.induct) (auto simp: unat_sub word_le_nat_alt)

lemma shortened:
  assumes tot: "tot_ok (xs @ (a, b) # ys)" and k: "unat k = chain_len (xs @ (a, b) # ys) - unat n"
    and r: "unat r = unat n - chain_len xs" and n: "chain_len xs \<le> unat n" "unat n \<le> chain_len xs + unat (plen b)"
    "unat n < chain_len (xs @ (a, b) # ys)"
  shows "tot_ok (map (apsnd (grow (- k))) xs @ [(a, b\<lparr>plen := r, tot_len := r, pnext := 0\<rparr>)])"
    "content d (map (apsnd (grow (- k))) xs @ [(a, b\<lparr>plen := r, tot_len := r, pnext := 0\<rparr>)]) =
      take (unat n) (content d (xs @ (a, b) # ys))"
proof -
  have "part_ok (unat (plen b) + chain_len ys) xs" using tot by (simp add: tot_ok_append)
  moreover have "unat k \<le> unat (plen b) + chain_len ys" using k n(1) by simp
  ultimately have "part_ok (unat (plen b) + chain_len ys - unat k) (map (apsnd (grow (- k))) xs)" by (rule part_ok_shrink)
  moreover have "unat (plen b) + chain_len ys - unat k = unat r" using k r n by simp
  ultimately show "tot_ok (map (apsnd (grow (- k))) xs @ [(a, b\<lparr>plen := r, tot_len := r, pnext := 0\<rparr>)])"
    by (simp add: tot_ok_append)
  have rb: "unat r \<le> unat (plen b)" using r n(2) by simp
  then have "read_bytes d (payload b) (unat r) = take (unat r) (read_bytes d (payload b) (unat (plen b)))"
    using read_bytes_sub [of 0 "unat r" "unat (plen b)" d "payload b"] by simp
  then show "content d (map (apsnd (grow (- k))) xs @ [(a, b\<lparr>plen := r, tot_len := r, pnext := 0\<rparr>)]) =
      take (unat n) (content d (xs @ (a, b) # ys))"
    using rb r n(1) by simp
qed

text \<open>The rest of a chain is released, if there is one.\<close>

lemma rest_released:
  assumes "chain (pbufs s) q (us @ ws)" "\<forall>(a, b) \<in> set us. pref b = 1 \<and> plain b"
    "\<forall>a b zs. ws = (a, b) # zs \<longrightarrow> pref b \<noteq> 1"
  shows "\<exists>s'. (if q \<noteq> 0 then do { (c, s) \<leftarrow> pbuf_free cf q s; Some s } else Some s) = Some s' \<and>
    (\<forall>x \<in> fst ` set us. pbufs s' x = None) \<and>
    (\<forall>a b zs. ws = (a, b) # zs \<longrightarrow> chain (pbufs s') a ((a, b\<lparr>pref := pref b - 1\<rparr>) # zs)) \<and>
    (\<forall>x. x \<notin> fst ` set (us @ ws) \<longrightarrow> pbufs s' x = pbufs s x) \<and> pdata s' = pdata s"
proof (cases "q = 0")
  case True
  then have "us = []" "ws = []" using assms(1) by (cases us; cases ws; auto)+
  then show ?thesis using True by simp
next
  case False
  obtain s' where s': "pbuf_free cf q s = Some (of_nat (length us), s')" "\<forall>x \<in> fst ` set us. pbufs s' x = None"
    "\<forall>a b zs. ws = (a, b) # zs \<longrightarrow> chain (pbufs s') a ((a, b\<lparr>pref := pref b - 1\<rparr>) # zs)"
    "\<forall>x. x \<notin> fst ` set (us @ take 1 ws) \<longrightarrow> pbufs s' x = pbufs s x" "pdata s' = pdata s"
    using pbuf_free_spec [OF assms, of cf] by (elim exE conjE) (rule that)
  have "set (us @ take 1 ws) \<subseteq> set (us @ ws)" using set_take_subset [of 1 ws] by auto
  then have "\<forall>x. x \<notin> fst ` set (us @ ws) \<longrightarrow> pbufs s' x = pbufs s x" using s'(4) by (meson image_mono subset_iff)
  then show ?thesis using False s'(1,2,3,5) by (intro exI [of _ s'] conjI) simp_all
qed

text \<open>C14: \<open>pbuf_realloc\<close> cuts a packet to its first \<open>n\<close> bytes: the structs that are needed
  keep their contents and get the lengths of the shorter packet, the others are released as \<open>pbuf_free\<close>
  releases them. A last struct from the heap is trimmed in place.\<close>

theorem realloc_truncates:
  assumes P: "packet s p (xs @ (a, b) # us @ ws)"
    and n: "chain_len xs < unat n \<or> xs = []" "unat n \<le> chain_len xs + unat (plen b)" "unat n < chain_len (xs @ (a, b) # us @ ws)"
    and refs: "\<forall>(a, b) \<in> set us. pref b = 1 \<and> plain b" "\<forall>q c vs. ws = (q, c) # vs \<longrightarrow> pref c \<noteq> 1"
    and trim: "pbuf_get_allocsrc b = 0 \<longrightarrow>
      fst (mem_trim a (ucast (payload b - a + ucast (n - of_nat (chain_len xs)))) (mheap s)) = a"
  shows "\<exists>s' zs. pbuf_realloc cf p n s = Some s' \<and> packet s' p zs \<and> map fst zs = map fst xs @ [a] \<and>
    content (pdata s') zs = take (unat n) (content (pdata s) (xs @ (a, b) # us @ ws)) \<and>
    (\<forall>x \<in> fst ` set us. pbufs s' x = None) \<and>
    (\<forall>q c vs. ws = (q, c) # vs \<longrightarrow> chain (pbufs s') q ((q, c\<lparr>pref := pref c - 1\<rparr>) # vs))"
proof -
  let ?ys = "us @ ws" and ?cs = "xs @ (a, b) # us @ ws"
  have ch: "chain (pbufs s) p ?cs" and tot: "tot_ok ?cs" using P by (simp_all add: packet_def)
  have T: "chain_len ?cs < 65536" by (rule packet_total [OF P])
  obtain b0 where b0: "deref p s = Some b0" "unat (tot_len b0) = chain_len ?cs"
    using ch tot by (cases xs) (auto simp: deref_def)
  define k where "k = tot_len b0 - n"
  have k: "unat k = chain_len ?cs - unat n" using b0(2) n(3) unfolding k_def by (simp add: unat_sub word_le_nat_alt)
  define r where "r = n - of_nat (chain_len xs)"
  have xn: "chain_len xs \<le> unat n" using n(1) by auto
  then have ur: "unat r = unat n - chain_len xs" unfolding r_def
    using unat_u16_lt [of n] by (subst unat_sub) (auto simp: word_le_nat_alt unat_of_nat_u16 simp del: unat_u16_lt)
  define m where "m = (\<lambda>x. if x \<in> fst ` set xs then map_option (grow (- k)) (pbufs s x) else pbufs s x)"
  define s1 where "s1 = s\<lparr>pbufs := m\<rparr>"
  have w: "realloc_walk k p n s = Some (a, r, s1)"
    unfolding s1_def m_def r_def using n by (intro realloc_walk_spec [OF ch])
  have cm: "chain m p (map (apsnd (grow (- k))) xs @ (a, b) # ?ys)" unfolding m_def by (rule chain_change [OF ch]) simp
  have a: "a \<noteq> 0" "m a = Some b" using chain_members [OF cm, of a b] by auto
  obtain h where h: "(if pbuf_get_allocsrc b = 0 \<and> r \<noteq> plen b \<and> pflags b AND PBUF_FLAG_IS_CUSTOM = 0
      then let (q, h) = mem_trim a (ucast (payload b - a + ucast r)) (mheap s1) in (q, s1\<lparr>mheap := h\<rparr>)
      else (a, s1)) = (a, s1\<lparr>mheap := h\<rparr>)"
  proof (cases "pbuf_get_allocsrc b = 0 \<and> r \<noteq> plen b \<and> pflags b AND PBUF_FLAG_IS_CUSTOM = 0")
    case True
    then show ?thesis using trim unfolding r_def [symmetric]
      by (intro that [of "snd (mem_trim a (ucast (payload b - a + ucast r)) (mheap s1))"])
        (simp add: s1_def case_prod_beta Let_def)
  next
    case False
    have "s1 = s1\<lparr>mheap := mheap s1\<rparr>" by (intro pbuf_state.equality) simp_all
    then show ?thesis using False by (intro that [of "mheap s1"]) (simp only: if_False)
  qed
  define b1 where "b1 = b\<lparr>plen := r, tot_len := r\<rparr>"
  define s3 where "s3 = s\<lparr>pbufs := m(a \<mapsto> b1), mheap := h\<rparr>"
  have "chain m a ((a, b) # ?ys)" using cm by (rule chain_suffix)
  then have cy: "chain m (pnext b) ?ys" and ay: "a \<notin> fst ` set ?ys" using chain_head_fresh by (simp, blast)
  have cy3: "chain (pbufs s3) (pnext b) ?ys"
  proof (rule chain_frame [OF cy])
    fix x assume "x \<in> fst ` set ?ys"
    then have "x \<noteq> a" using ay by metis
    then show "pbufs s3 x = m x" by (simp add: s3_def)
  qed
  obtain s4 where s4: "(if pnext b \<noteq> 0 then do { (c, s) \<leftarrow> pbuf_free cf (pnext b) s3; Some s } else Some s3) = Some s4"
    "\<forall>x \<in> fst ` set us. pbufs s4 x = None"
    "\<forall>q c vs. ws = (q, c) # vs \<longrightarrow> chain (pbufs s4) q ((q, c\<lparr>pref := pref c - 1\<rparr>) # vs)"
    "\<forall>x. x \<notin> fst ` set ?ys \<longrightarrow> pbufs s4 x = pbufs s3 x" "pdata s4 = pdata s3"
    using rest_released [OF cy3 refs, of cf] by (elim exE conjE) (rule that)
  have keep: "pbufs s4 x = (m(a \<mapsto> b1)) x" if "x \<notin> fst ` set ?ys" for x
    using s4(4) that by (simp add: s3_def)
  define b2 where "b2 = b1\<lparr>pnext := 0\<rparr>"
  define s5 where "s5 = set_pbuf a b2 s4"
  define zs where "zs = map (apsnd (grow (- k))) xs @ [(a, b2)]"
  have a4: "pbufs s4 a = Some b1" using keep [OF ay] by simp
  have st: "pbuf_realloc cf p n s = Some s5"
  proof -
    have "\<not> n \<ge> tot_len b0" using n(3) b0(2) by (simp add: word_le_nat_alt)
    moreover have "pnext b1 = pnext b" by (simp add: b1_def)
    moreover have "upd_pbuf a (\<lambda>b. b\<lparr>plen := r, tot_len := r\<rparr>) (s1\<lparr>mheap := h\<rparr>) = Some s3"
      using a by (simp add: upd_pbuf_def deref_def set_pbuf_def b1_def s3_def s1_def)
    moreover have "deref a s3 = Some b1" "deref a s1 = Some b" using a by (simp_all add: deref_def s3_def s1_def)
    moreover have "upd_pbuf a (pnext_update (\<lambda>_. 0)) s4 = Some s5"
      using a a4 by (simp add: upd_pbuf_def deref_def s5_def b2_def)
    ultimately show ?thesis using b0(1) w s4(1)
      by (cases "pnext b = 0"; cases "pbuf_free cf (pnext b) s3") (auto simp: pbuf_realloc_def k_def [symmetric] h)
  qed
  have "chain (m(a \<mapsto> b2)) p zs" unfolding zs_def
    by (rule chain_link [OF cm, of 0]) (simp_all add: b2_def)
  moreover have "pbufs s5 x = (m(a \<mapsto> b2)) x" if "x \<in> fst ` set zs" for x
  proof -
    have "x \<notin> fst ` set ?ys"
    proof
      have "distinct (map fst (map (apsnd (grow (- k))) xs @ (a, b) # ?ys))" by (rule chain_distinct [OF cm])
      moreover assume "x \<in> fst ` set ?ys"
      ultimately show False using that unfolding zs_def by (simp add: image_Un) blast
    qed
    then show ?thesis using keep by (simp add: s5_def set_pbuf_frame)
  qed
  ultimately have "chain (pbufs s5) p zs" by (rule chain_frame)
  moreover have "tot_ok zs" "content (pdata s5) zs = take (unat n) (content (pdata s) ?cs)"
    using shortened(1) [OF tot k ur xn n(2,3)] shortened(2) [OF tot k ur xn n(2,3), of "pdata s"] s4(5)
    by (simp_all add: zs_def b2_def b1_def s5_def set_pbuf_frame s3_def)
  moreover have "\<forall>x \<in> fst ` set us. pbufs s5 x = None"
    using s4(2) ay by (auto simp: s5_def set_pbuf_frame)
  moreover have "chain (pbufs s5) q ((q, c\<lparr>pref := pref c - 1\<rparr>) # vs)" if "ws = (q, c) # vs" for q c vs
  proof (rule chain_frame)
    show "chain (pbufs s4) q ((q, c\<lparr>pref := pref c - 1\<rparr>) # vs)" using s4(3) that by blast
    fix x assume "x \<in> fst ` set ((q, c\<lparr>pref := pref c - 1\<rparr>) # vs)"
    then have "x \<noteq> a" using ay that by auto
    then show "pbufs s5 x = pbufs s4 x" by (simp add: s5_def set_pbuf_frame)
  qed
  moreover have "map fst zs = map fst xs @ [a]" by (simp add: zs_def)
  ultimately show ?thesis using st by (intro exI [of _ s5] exI [of _ zs] conjI allI impI) (simp_all add: packet_def)
qed

section \<open>Two packets and a chain\<close>

definition sample_head :: pbuf where
  "sample_head = \<lparr>pnext = 0, payload = 0x20001020, tot_len = 2, plen = 2, type_internal = 0x82, pflags = 0, pref = 1, if_idx = 0\<rparr>"

definition sample_pair :: pbuf_state where
  "sample_pair = sample_packet\<lparr>pbufs := [0x20001000 \<mapsto> sample_head, 0x200 \<mapsto> sample_second]\<rparr>"

lemma sample_pair_packets:
  "packet sample_pair 0x20001000 [(0x20001000, sample_head)]" "packet sample_pair 0x200 [(0x200, sample_second)]"
  by (simp_all add: packet_def sample_defs sample_pair_def sample_head_def)

lemma pbuf_cat_joins_witness:
  "\<exists>s' zs. pbuf_cat 0x20001000 0x200 sample_pair = Some s' \<and> packet s' 0x20001000 (zs @ [(0x200, sample_second)]) \<and>
    map fst zs = [0x20001000]"
proof -
  have "fst ` set [(0x20001000 :: u32, sample_head)] \<inter> fst ` set [(0x200, sample_second)] = {}" by simp
  moreover have "chain_len [(0x20001000, sample_head)] + chain_len [(0x200, sample_second)] < 65536"
    by (simp add: sample_head_def sample_second_def)
  ultimately obtain s' zs where "pbuf_cat 0x20001000 0x200 sample_pair = Some s'"
    "packet s' 0x20001000 (zs @ [(0x200, sample_second)])" "map fst zs = map fst [(0x20001000, sample_head)]"
    using pbuf_cat_joins [OF sample_pair_packets(1) _ sample_pair_packets(2)] by blast
  then show ?thesis by (intro exI [of _ s'] exI [of _ zs]) simp
qed

lemma dechain_undoes_chain_witness:
  "\<exists>s'. pbuf_chain 0x20001000 0x200 sample_pair = Some s' \<and> pbuf_dechain (\<lambda>p. Some) 0x20001000 s' = Some (0x200, sample_pair)"
  by (rule dechain_undoes_chain [OF sample_pair_packets]) (simp_all add: sample_second_def)

lemma sample_plain: "plain sample_first" "plain sample_second" "pref sample_first = 1" "pref sample_second = 1"
  by (simp_all add: plain_def pbuf_get_allocsrc_def sample_defs PBUF_FLAG_IS_CUSTOM_def)

lemma pbuf_free_by_count_witness:
  "\<exists>s'. pbuf_free (\<lambda>p. Some) 0x100 sample_packet = Some (2, s') \<and> pbufs s' 0x100 = None \<and> pbufs s' 0x200 = None"
proof -
  have c: "chain (pbufs sample_packet) 0x100 (sample_structs @ [])" using sample_is_packet(1) by (simp add: packet_def)
  have p: "\<forall>(a, b) \<in> set sample_structs. pref b = 1 \<and> plain b" by (simp add: sample_structs_def sample_plain)
  have "\<forall>a b zs. [] = (a, b) # zs \<longrightarrow> pref b \<noteq> 1" by simp
  from pbuf_free_by_count [OF c p this, of "\<lambda>p. Some"] show ?thesis by (auto simp: sample_structs_def)
qed

lemma header_round_trip_witness:
  "\<exists>s'. pbuf_add_header 0x20001000 4 sample_pair = Some (0, s') \<and> pbuf_remove_header 0x20001000 4 s' = Some (0, sample_pair)"
proof -
  have "header_room 0x20001000 sample_head 4" by (simp add: header_room_def sample_head_def)
  then show ?thesis
    using header_round_trip [OF sample_pair_packets(1), of 4] by (simp add: sample_head_def) blast
qed

lemma realloc_truncates_witness:
  "\<exists>s' zs. pbuf_realloc (\<lambda>p. Some) 0x100 1 sample_packet = Some s' \<and> packet s' 0x100 zs \<and> content (pdata s') zs = [0]"
proof -
  have P: "packet sample_packet 0x100 ([] @ (0x100, sample_first) # [(0x200, sample_second)] @ [])"
    using sample_is_packet(1) by (simp add: sample_structs_def)
  have a: "pbuf_get_allocsrc sample_first \<noteq> 0" by (simp add: pbuf_get_allocsrc_def sample_first_def)
  have "content (pdata sample_packet) ([] @ (0x100, sample_first) # [(0x200, sample_second)] @ []) = [0, 1, 0, 1, 2]"
    by (simp add: read_bytes_def sample_defs upt_rec)
  then show ?thesis
    using realloc_truncates [OF P, of 1 "\<lambda>p. Some"] a
    by (auto simp: sample_plain(2) [unfolded sample_second_def] sample_first_def sample_second_def)
qed

end
