(* ===== verification/PbufPool.thy ===== *)
theory PbufPool
  imports PbufChain
begin

unbundle bit_operations_syntax

text \<open>
  Packets made of buffers from the pool (\<open>pbuf_alloc\<close> with \<open>PBUF_POOL\<close>), over the model of
  the pools: how the chain is built, what happens when the pool runs dry half way, and that
  \<open>pbuf_free\<close> gives every buffer back.
\<close>

abbreviation free_bufs :: "pbuf_state \<Rightarrow> u32 set" where
  "free_bufs s \<equiv> pool_avail MEMP_PBUF_POOL (mpools s)"

text \<open>The pool of buffers, none of which is in use while it is free.\<close>

definition pool_state :: "memp_desc \<Rightarrow> pbuf_state \<Rightarrow> bool" where
  "pool_state d s \<longleftrightarrow> pool_ok MEMP_PBUF_POOL d (mpools s) \<and> unat (memp_size d) = 1532 \<and>
     (\<forall>a \<in> free_bufs s. pbufs s a = None)"

text \<open>A struct in a buffer of the pool, its payload behind it in the same buffer.\<close>

definition from_pool :: "u32 \<times> pbuf \<Rightarrow> bool" where
  "from_pool = (\<lambda>(a, b). pref b = 1 \<and> pflags b = 0 \<and> type_internal b = 0x82 \<and>
     unat a + 16 \<le> unat (payload b) \<and> unat (payload b) + unat (plen b) \<le> unat a + 1532)"

text \<open>The chain \<open>cs\<close> at \<open>p\<close> has been taken from the pool since \<open>s0\<close>, nothing else has changed.\<close>

definition taken :: "memp_desc \<Rightarrow> pbuf_state \<Rightarrow> pbuf_state \<Rightarrow> u32 \<Rightarrow> structs \<Rightarrow> bool" where
  "taken d s0 s p cs \<longleftrightarrow> chain (pbufs s) p cs \<and> (\<forall>c \<in> set cs. from_pool c) \<and>
     pool_ok MEMP_PBUF_POOL d (mpools s) \<and> fst ` set cs \<subseteq> free_bufs s0 \<and> free_bufs s = free_bufs s0 - fst ` set cs \<and>
     (\<forall>a. a \<notin> fst ` set cs \<longrightarrow> pbufs s a = pbufs s0 a) \<and> pdata s = pdata s0 \<and> mheap s = mheap s0"

lemma fold_give_back_pool:
  "\<forall>c \<in> set cs. from_pool c \<Longrightarrow> mpools (fold give_back cs s) = fold (memp_free MEMP_PBUF_POOL) (map fst cs) (mpools s) \<and>
    mheap (fold give_back cs s) = mheap s"
proof (induction cs arbitrary: s)
  case (Cons c cs)
  obtain a b where c: "c = (a, b)" by (cases c)
  have "pbuf_get_allocsrc b = 2" using Cons.prems by (simp add: c from_pool_def pbuf_get_allocsrc_def)
  then show ?case using Cons by (simp add: c give_back_def Let_def)
qed simp

text \<open>Releasing such a chain restores the pool.\<close>

lemma pool_chain_freed:
  assumes P: "pool_state d s0" and T: "taken d s0 s p cs"
  shows "\<exists>s'. pbuf_free cf p s = Some (of_nat (length cs), s') \<and> taken d s0 s' 0 []"
proof -
  let ?s = "fold give_back cs s"
  have t: "chain (pbufs s) p cs" "\<forall>c \<in> set cs. from_pool c" "pool_ok MEMP_PBUF_POOL d (mpools s)"
    "fst ` set cs \<subseteq> free_bufs s0" "free_bufs s = free_bufs s0 - fst ` set cs" using T by (simp_all add: taken_def)
  have "\<forall>(a, b) \<in> set cs. pref b = 1 \<and> plain b"
    using t(2) by (auto simp: from_pool_def plain_def pbuf_get_allocsrc_def)
  then have f: "pbuf_free cf p s = Some (of_nat (length cs), ?s)"
    using pbuf_free_from_spec [of s p cs "[]" cf 0] t(1) by (simp add: pbuf_free_def)
  have "free_bufs s0 \<subseteq> pool_elements d" using P memp.avail_elements unfolding pool_state_def by blast
  then have "distinct (map fst cs)" "set (map fst cs) \<subseteq> pool_elements d - free_bufs s"
    using chain_distinct [OF t(1)] t(4,5) by auto
  from memp.release_many [OF t(3) this]
  have "pool_ok MEMP_PBUF_POOL d (mpools ?s)" "free_bufs ?s = free_bufs s0"
    using fold_give_back_pool [OF t(2)] t(4,5) by auto
  moreover have "pbufs ?s a = pbufs s0 a" for a
    using P T by (auto simp: fold_give_back taken_def pool_state_def)
  ultimately have "taken d s0 ?s 0 []"
    using T fold_give_back_pool [OF t(2)] by (simp add: taken_def fold_give_back)
  then show ?thesis using f by blast
qed

section \<open>One more buffer\<close>

text \<open>What one step of the loop makes of the buffer \<open>q\<close> with \<open>n\<close> bytes still to be placed.\<close>

definition pool_len :: "u16 \<Rightarrow> u16 \<Rightarrow> u16" where
  "pool_len n offset = min n (ucast (PBUF_POOL_BUFSIZE_ALIGNED - LWIP_MEM_ALIGN_SIZE (ucast offset)))"

definition pool_pbuf :: "u32 \<Rightarrow> u16 \<Rightarrow> u16 \<Rightarrow> pbuf" where
  "pool_pbuf q n offset = \<lparr>pnext = 0, payload = LWIP_MEM_ALIGN_SIZE (q + SIZEOF_STRUCT_PBUF + ucast offset), tot_len = n,
     plen = pool_len n offset, type_internal = ucast (type_value PBUF_POOL), pflags = 0, pref = 1, if_idx = 0\<rparr>"

lemma unat_pool_len:
  assumes "unat offset \<le> 54"
  shows "unat (pool_len n offset) = min (unat n) (1516 - round4 (unat offset))"
proof -
  have a: "unat (LWIP_MEM_ALIGN_SIZE (ucast offset)) = round4 (unat offset)"
    using assms by (subst unat_ALIGN) (simp_all add: unat_ucasts)
  have r: "round4 (unat offset) \<le> 57" using round4_bounds(2) [of "unat offset"] assms by linarith
  then have "unat (PBUF_POOL_BUFSIZE_ALIGNED - LWIP_MEM_ALIGN_SIZE (ucast offset)) = 1516 - round4 (unat offset)"
    unfolding PBUF_POOL_BUFSIZE_ALIGNED_def using a by (subst unat_sub) (simp_all add: word_le_nat_alt)
  then have "unat (ucast (PBUF_POOL_BUFSIZE_ALIGNED - LWIP_MEM_ALIGN_SIZE (ucast offset)) :: u16) = 1516 - round4 (unat offset)"
    by (simp add: unat_ucasts)
  then show ?thesis by (auto simp: pool_len_def min_def word_le_nat_alt)
qed

lemma pool_elements_aligned:
  assumes "pool_fits d" "unat (memp_size d) = 1532" "q \<in> pool_elements d"
  shows "unat q mod 4 = 0" "unat q + 1532 < 4294967296"
proof -
  obtain i where i: "i < unat (memp_num d)" "q = pool_element d i" using assms(3) by (auto simp: pool_elements_def)
  then have u: "unat q = round4 (unat (memp_base d)) + i * 1532"
    using unat_pool_element [OF assms(1), of i] assms(2) by simp
  show "unat q mod 4 = 0" unfolding u round4_def by presburger
  have "Suc i * 1532 \<le> unat (memp_num d) * 1532" using i(1) by (intro mult_le_mono1) simp
  then show "unat q + 1532 < 4294967296"
    using assms(1,2) round4_bounds(2) [of "unat (memp_base d)"] unfolding u pool_fits_def by simp
qed

lemma payload_pool_pbuf:
  assumes "unat q mod 4 = 0" "unat q + 1532 < 4294967296" "unat offset \<le> 54"
  shows "unat (payload (pool_pbuf q n offset)) = unat q + 16 + round4 (unat offset)"
proof -
  have s: "unat (q + SIZEOF_STRUCT_PBUF) = unat q + 16"
    using assms(2) unfolding SIZEOF_STRUCT_PBUF_def by (subst unat_add_lem [THEN iffD1]) simp_all
  then have "unat (q + SIZEOF_STRUCT_PBUF + ucast offset) = unat q + 16 + unat offset"
    using assms(2,3) by (subst unat_add_lem [THEN iffD1]) (simp_all add: unat_ucasts)
  then have "unat (LWIP_MEM_ALIGN_SIZE (q + SIZEOF_STRUCT_PBUF + ucast offset)) = round4 (unat q + 16 + unat offset)"
    using assms(2,3) by (subst unat_ALIGN) simp_all
  also have "\<dots> = unat q + 16 + round4 (unat offset)" using assms(1) unfolding round4_def by presburger
  finally show ?thesis by (simp add: pool_pbuf_def)
qed

lemma from_pool_pbuf:
  assumes "unat q mod 4 = 0" "unat q + 1532 < 4294967296" "unat offset \<le> 54"
  shows "from_pool (q, pool_pbuf q n offset)"
proof -
  note p = payload_pool_pbuf [OF assms, of n]
  have l: "unat (plen (pool_pbuf q n offset)) \<le> 1516 - round4 (unat offset)"
    using unat_pool_len [OF assms(3), of n] by (simp add: pool_pbuf_def)
  have "round4 (unat offset) \<le> 57" using round4_bounds(2) [of "unat offset"] assms(3) by linarith
  then have "unat (payload (pool_pbuf q n offset)) + unat (plen (pool_pbuf q n offset)) \<le> unat q + 1532"
    using p l by linarith
  then show ?thesis using p by (simp add: from_pool_def) (simp add: pool_pbuf_def)
qed

section \<open>How the bytes are spread\<close>

text \<open>Where the payload of each buffer begins, counted from its struct, and how long it is: \<open>n\<close> bytes,
  of which the first buffer leaves \<open>off\<close> bytes free for headers, every buffer but the last full.\<close>

function pool_layout :: "nat \<Rightarrow> nat \<Rightarrow> (nat \<times> nat) list" where
  "pool_layout n off =
    (if n \<le> 1516 - off \<or> 1516 \<le> off then [(16 + off, n)]
     else (16 + off, 1516 - off) # pool_layout (n - (1516 - off)) 0)"
  by auto
termination
  by (relation "measure fst") auto

declare pool_layout.simps [simp del]

definition layout :: "structs \<Rightarrow> (nat \<times> nat) list" where
  "layout cs = map (\<lambda>(a, b). (unat (payload b) - unat a, unat (plen b))) cs"

lemma pool_layout_nonempty: "pool_layout n off \<noteq> []"
  by (subst pool_layout.simps) simp

lemma pool_layout_step:
  "off < 1516 \<Longrightarrow> pool_layout n off = (16 + off, min n (1516 - off)) #
     (if min n (1516 - off) < n then pool_layout (n - min n (1516 - off)) 0 else [])"
  by (subst pool_layout.simps) (auto simp: min_def)

text \<open>The chain with the buffer \<open>q\<close> linked behind it.\<close>

definition extend :: "structs \<Rightarrow> u32 \<Rightarrow> pbuf \<Rightarrow> structs" where
  "extend cs q b = (if cs = [] then [(q, b)]
     else butlast cs @ [apsnd (pnext_update (\<lambda>_. q)) (last cs), (q, b)])"

definition pool_link :: "u32 \<Rightarrow> u32 \<Rightarrow> u32 \<Rightarrow> pbuf_state \<Rightarrow> (u32 \<times> pbuf_state) option" where
  "pool_link p lst q s = (if p = 0 then Some (q, s)
     else do { s \<leftarrow> upd_pbuf lst (pnext_update (\<lambda>_. q)) s; Some (p, s) })"

lemma extend_snoc: "extend (ws @ [(l, e)]) q b = ws @ [(l, e\<lparr>pnext := q\<rparr>), (q, b)]" "extend [] q b = [(q, b)]"
  by (simp_all add: extend_def)

lemma extend_facts: "fst ` set (extend cs q b) = insert q (fst ` set cs)" "chain_len (extend cs q b) = chain_len cs + unat (plen b)"
  "fst (last (extend cs q b)) = q" "extend cs q b \<noteq> []"
  by (cases cs rule: rev_cases; force simp: extend_def)+

lemma layout_extend: "layout (extend cs q b) = layout cs @ [(unat (payload b) - unat q, unat (plen b))]"
  by (cases cs rule: rev_cases) (auto simp: extend_def layout_def)

lemma extend_from_pool: "\<forall>c \<in> set cs. from_pool c \<Longrightarrow> from_pool (q, b) \<Longrightarrow> \<forall>c \<in> set (extend cs q b). from_pool c"
  by (cases cs rule: rev_cases) (auto simp: extend_def from_pool_def)

lemma extend_part_ok:
  assumes "part_ok (unat (plen b) + r) cs" "unat (tot_len b) = unat (plen b) + r"
  shows "part_ok r (extend cs q b)"
proof (cases cs rule: rev_cases)
  case Nil
  then show ?thesis using assms(2) by (simp add: extend_snoc)
next
  case (snoc ws c)
  obtain l e where c: "c = (l, e)" by (cases c)
  show ?thesis using assms unfolding snoc c extend_snoc part_ok_append by (simp add: add.assoc)
qed

lemma taken_extend:
  assumes T: "taken d s0 s p cs" and P: "pool_state d s0" and lst: "cs \<noteq> [] \<longrightarrow> lst = fst (last cs)"
    and a: "memp_malloc MEMP_PBUF_POOL (mpools s) = (q, pools)" "q \<noteq> 0"
    and b: "from_pool (q, b)" "pnext b = 0"
  shows "\<exists>p' s'. pool_link p lst q (set_pbuf q b (s\<lparr>mpools := pools\<rparr>)) = Some (p', s') \<and> taken d s0 s' p' (extend cs q b)"
proof -
  let ?s = "set_pbuf q b (s\<lparr>mpools := pools\<rparr>)"
  have t: "chain (pbufs s) p cs" "\<forall>c \<in> set cs. from_pool c" "pool_ok MEMP_PBUF_POOL d (mpools s)"
    "fst ` set cs \<subseteq> free_bufs s0" "free_bufs s = free_bufs s0 - fst ` set cs"
    "\<forall>a. a \<notin> fst ` set cs \<longrightarrow> pbufs s a = pbufs s0 a" "pdata s = pdata s0" "mheap s = mheap s0"
    using T by (simp_all add: taken_def)
  have ne: "free_bufs s \<noteq> {}"
    using memp.none_left [OF t(3)] a by auto
  have q: "q \<in> free_bufs s" "pool_avail MEMP_PBUF_POOL pools = free_bufs s - {q}" "pool_ok MEMP_PBUF_POOL d pools"
    using memp.some_left [OF t(3) ne] a(1) by auto
  have qc: "q \<notin> fst ` set cs" "q \<in> free_bufs s0" using q(1) t(5) by auto
  have new: "chain (pbufs ?s) q [(q, b)]" using a(2) b(2) by (simp add: set_pbuf_frame)
  have old: "chain (pbufs ?s) p cs" using qc(1) by (intro chain_frame [OF t(1)]) (auto simp: set_pbuf_frame)
  obtain p' s' where L: "pool_link p lst q ?s = Some (p', s')" "chain (pbufs s') p' (extend cs q b)"
    "mpools s' = pools" "pdata s' = pdata s" "mheap s' = mheap s"
    "\<forall>a. a \<notin> insert q (fst ` set cs) \<longrightarrow> pbufs s' a = pbufs s a"
  proof (cases cs rule: rev_cases)
    case Nil
    then show ?thesis using t(1) new
      by (intro that [of q ?s]) (auto simp: pool_link_def extend_def set_pbuf_frame)
  next
    case (snoc ws c)
    obtain l e where c: "c = (l, e)" by (cases c)
    have l: "lst = l" "l \<noteq> q" "l \<noteq> 0" "pbufs ?s l = Some e" "p \<noteq> 0"
      using lst qc(1) chain_members [OF old, of l e] old by (cases ws; auto simp: snoc c)+
    let ?e = "e\<lparr>pnext := q\<rparr>"
    have "chain ((pbufs ?s)(l \<mapsto> ?e)) p (ws @ (l, ?e) # [(q, b)])"
      using l(2) by (intro chain_link [OF old [unfolded snoc c] new]) auto
    moreover have "pool_link p lst q ?s = Some (p, set_pbuf l ?e ?s)"
      using l by (simp add: pool_link_def upd_pbuf_def deref_def)
    ultimately show ?thesis
      by (intro that [of p "set_pbuf l ?e ?s"]) (auto simp: snoc c extend_def set_pbuf_frame)
  qed
  have "taken d s0 s' p' (extend cs q b)"
    unfolding taken_def extend_facts(1)
    using L(2-6) q qc t extend_from_pool [OF t(2) b(1)] by auto
  then show ?thesis using L(1) by blast
qed

section \<open>The whole packet\<close>

lemma alloc_pool_step:
  assumes "memp_malloc MEMP_PBUF_POOL (mpools s) = (q, pools)" "q \<noteq> 0"
    and "pool_link p lst q (set_pbuf q (pool_pbuf q n offset) (s\<lparr>mpools := pools\<rparr>)) = Some (p', s')"
  shows "alloc_pool_chain cf p lst n offset s =
    (if 0 < n - pool_len n offset then alloc_pool_chain cf p' q (n - pool_len n offset) 0 s' else Some (p', s'))"
  using assms
  by (subst alloc_pool_chain.simps)
    (simp add: pbuf_init_alloced_pbuf_def pool_pbuf_def pool_len_def pool_link_def Let_def)

text \<open>What has been built when \<open>n\<close> of \<open>total_len\<close> bytes are still to be placed.\<close>

definition built :: "memp_desc \<Rightarrow> pbuf_state \<Rightarrow> nat \<Rightarrow> (nat \<times> nat) list \<Rightarrow>
    pbuf_state \<Rightarrow> u32 \<Rightarrow> u32 \<Rightarrow> structs \<Rightarrow> u16 \<Rightarrow> u16 \<Rightarrow> bool" where
  "built d s0 total_len pieces s p lst cs n offset \<longleftrightarrow> taken d s0 s p cs \<and> part_ok (unat n) cs \<and> chain_len cs + unat n = total_len \<and>
     layout cs @ pool_layout (unat n) (round4 (unat offset)) = pieces \<and> (cs \<noteq> [] \<longrightarrow> lst = fst (last cs))"

lemma taken_card:
  assumes "pool_state d s0" "taken d s0 s p cs"
  shows "length cs \<le> card (free_bufs s0)" "free_bufs s = {} \<Longrightarrow> card (free_bufs s0) = length cs"
proof -
  have t: "chain (pbufs s) p cs" "fst ` set cs \<subseteq> free_bufs s0" "free_bufs s = free_bufs s0 - fst ` set cs"
    using assms(2) by (simp_all add: taken_def)
  have c: "card (fst ` set cs) = length cs" using chain_distinct [OF t(1)] distinct_card by (metis length_map set_map)
  have "free_bufs s0 \<subseteq> pool_elements d" using assms(1) memp.avail_elements unfolding pool_state_def by blast
  then have "finite (free_bufs s0)" unfolding pool_elements_def by (rule finite_subset) simp
  then show "length cs \<le> card (free_bufs s0)" using card_mono t(2) c by metis
  assume "free_bufs s = {}"
  then have "free_bufs s0 = fst ` set cs" using t(2,3) by auto
  then show "card (free_bufs s0) = length cs" using c by simp
qed

text \<open>The pool runs dry: everything built so far goes back.\<close>

lemma alloc_pool_dry:
  assumes P: "pool_state d s0" and B: "built d s0 total_len pieces s p lst cs n offset"
    and m: "memp_malloc MEMP_PBUF_POOL (mpools s) = (0, pools)"
  shows "\<exists>s'. alloc_pool_chain cf p lst n offset s = Some (0, s') \<and> taken d s0 s' 0 [] \<and> card (free_bufs s0) < length pieces"
proof -
  have T: "taken d s0 s p cs" and pieces: "layout cs @ pool_layout (unat n) (round4 (unat offset)) = pieces"
    using B by (simp_all add: built_def)
  have ok: "pool_ok MEMP_PBUF_POOL d (mpools s)" and ch: "chain (pbufs s) p cs" using T by (simp_all add: taken_def)
  have e: "free_bufs s = {}"
  proof (rule ccontr)
    assume "free_bufs s \<noteq> {}"
    then have "0 \<in> free_bufs s" using memp.some_left [OF ok] m by simp
    then show False using memp.avail_elements [OF ok] memp.no_null [OF ok] by auto
  qed
  then have pools: "pools = mpools s" using memp.none_left [OF ok] m by simp
  have "length (layout cs) = length cs" by (simp add: layout_def)
  moreover have "0 < length (pool_layout (unat n) (round4 (unat offset)))" using pool_layout_nonempty by simp
  ultimately have few: "card (free_bufs s0) < length pieces" using taken_card(2) [OF P T e] pieces [symmetric] by simp
  have st: "alloc_pool_chain cf p lst n offset s =
      (if p \<noteq> 0 then do { (c, s) \<leftarrow> pbuf_free cf p s; Some (0, s) } else Some (0, s))"
    using m pools by (subst alloc_pool_chain.simps) simp
  show ?thesis
  proof (cases "p = 0")
    case True
    then have "cs = []" using ch by (cases cs) auto
    then show ?thesis using st T True few by simp
  next
    case False
    obtain s' where "pbuf_free cf p s = Some (of_nat (length cs), s')" "taken d s0 s' 0 []"
      using pool_chain_freed [OF P T, of cf] by blast
    then show ?thesis using st False few by simp
  qed
qed

lemma round4_offset: "unat (offset :: u16) \<le> 54 \<Longrightarrow> round4 (unat offset) \<le> 56"
proof -
  assume "unat offset \<le> 54"
  then have "(unat offset + 3) div 4 \<le> 57 div 4" by (intro div_le_mono) simp
  then show ?thesis by (simp add: round4_def)
qed

lemma alloc_pool_chain_spec:
  assumes P: "pool_state d s0" and B: "built d s0 total_len pieces s p lst cs n offset" and o: "unat offset \<le> 54"
  shows "\<exists>q s' ds. alloc_pool_chain cf p lst n offset s = Some (q, s') \<and> taken d s0 s' q ds \<and>
    (if ds = [] then card (free_bufs s0) < length pieces
     else tot_ok ds \<and> chain_len ds = total_len \<and> layout ds = pieces)"
  using B o
proof (induction "unat n" arbitrary: n p lst cs offset s rule: less_induct)
  case less
  let ?off = "round4 (unat offset)"
  have T: "taken d s0 s p cs" and b: "part_ok (unat n) cs" "chain_len cs + unat n = total_len"
    "layout cs @ pool_layout (unat n) ?off = pieces" "cs \<noteq> [] \<longrightarrow> lst = fst (last cs)" using less.prems(1) by (simp_all add: built_def)
  have ok: "pool_ok MEMP_PBUF_POOL d (mpools s)" using T by (simp add: taken_def)
  obtain q pools where m: "memp_malloc MEMP_PBUF_POOL (mpools s) = (q, pools)" by fastforce
  show ?case
  proof (cases "q = 0")
    case True
    obtain s' where "alloc_pool_chain cf p lst n offset s = Some (0, s')" "taken d s0 s' 0 []" "card (free_bufs s0) < length pieces"
      using alloc_pool_dry [OF P less.prems(1) m [unfolded True], of cf] by (elim exE conjE) (rule that)
    then show ?thesis by (intro exI [of _ 0] exI [of _ s'] exI [of _ "[]"]) simp
  next
    case False
    let ?b = "pool_pbuf q n offset" and ?n = "n - pool_len n offset"
    have ne: "free_bufs s \<noteq> {}" using memp.none_left [OF ok] m False by auto
    then have q: "q \<in> pool_elements d" using memp.some_left [OF ok ne] m memp.avail_elements [OF ok] by auto
    have d: "pool_fits d" "unat (memp_size d) = 1532" using P by (simp_all add: pool_state_def pool_ok_def)
    note al = pool_elements_aligned [OF d q]
    note fp = from_pool_pbuf [OF al less.prems(2), of n] and pay = payload_pool_pbuf [OF al less.prems(2), of n]
    have nx: "pnext ?b = 0" by (simp add: pool_pbuf_def)
    obtain p' s' where L: "pool_link p lst q (set_pbuf q ?b (s\<lparr>mpools := pools\<rparr>)) = Some (p', s')"
      "taken d s0 s' p' (extend cs q ?b)" using taken_extend [OF T P b(4) m False fp nx] by blast
    note st = alloc_pool_step [OF m False L(1), of cf]
    have r: "?off \<le> 56" by (rule round4_offset [OF less.prems(2)])
    have ul: "unat (plen ?b) = min (unat n) (1516 - ?off)" "unat (tot_len ?b) = unat n"
      "plen ?b = pool_len n offset"
      using unat_pool_len [OF less.prems(2), of n] by (simp_all add: pool_pbuf_def)
    then have un: "unat ?n = unat n - unat (plen ?b)" "unat (plen ?b) \<le> unat n"
      by (simp_all add: unat_sub word_le_nat_alt)
    have pk: "part_ok (unat ?n) (extend cs q ?b)"
      using b(1) un ul(2) by (intro extend_part_ok) simp_all
    have tl: "chain_len (extend cs q ?b) + unat ?n = total_len" using b(2) un by (simp add: extend_facts)
    have le: "layout (extend cs q ?b) = layout cs @ [(16 + ?off, min (unat n) (1516 - ?off))]"
      using pay ul(1) by (simp add: layout_extend)
    have ls: "pool_layout (unat n) ?off = (16 + ?off, min (unat n) (1516 - ?off)) #
        (if 0 < unat ?n then pool_layout (unat ?n) 0 else [])"
      using pool_layout_step [of ?off "unat n"] r un ul(1) by (auto simp: min_def)
    show ?thesis
    proof (cases "0 < ?n")
      case True
      then have n0: "0 < unat ?n" by (simp add: word_less_nat_alt)
      have "layout (extend cs q ?b) @ pool_layout (unat ?n) (round4 (unat (0 :: u16))) = pieces"
        using b(3) n0 unfolding le ls by (simp add: round4_def)
      then have "built d s0 total_len pieces s' p' q (extend cs q ?b) ?n 0"
        using L(2) pk tl by (simp add: built_def extend_facts)
      moreover have "0 < unat (plen ?b)" using ul(1) un n0 r by simp
      then have "unat ?n < unat n" using un n0 by linarith
      ultimately show ?thesis using less.hyps [of ?n s' p' q "extend cs q ?b" 0] True st by simp
    next
      case f: False
      then have n0: "unat ?n = 0" by (simp add: word_less_nat_alt del: word_gt_0)
      then have "tot_ok (extend cs q ?b)" "chain_len (extend cs q ?b) = total_len" using pk tl by (simp_all add: part_ok_0)
      moreover have "layout (extend cs q ?b) = pieces" using b(3) n0 unfolding le ls by simp
      ultimately show ?thesis using f st L(2) extend_facts(4)
        by (intro exI [of _ p'] exI [of _ s'] exI [of _ "extend cs q ?b"]) simp
    qed
  qed
qed

lemma apart_below: "unat x + n \<le> unat y \<Longrightarrow> unat y + m \<le> 4294967296 \<Longrightarrow> apart x n y m"
  unfolding apart_def
proof (intro allI impI notI)
  fix i j assume A: "unat x + n \<le> unat y" "unat y + m \<le> 4294967296" "i < n" "j < m" "x + of_nat i = y + of_nat j"
  then have "unat (x + of_nat i) = unat x + i" "unat (y + of_nat j) = unat y + j"
    by (subst unat_add_lem [THEN iffD1]; simp add: unat_of_nat_u32)+
  then show False using A by simp
qed

lemma pool_apart:
  assumes f: "pool_fits d" "unat (memp_size d) = 1532" and "a \<in> pool_elements d" "c \<in> pool_elements d" "a \<noteq> c"
    and p: "from_pool (a, b)" "from_pool (c, e)"
  shows "apart (payload b) (unat (plen b)) (payload e) (unat (plen e))"
proof -
  obtain i where i: "i < unat (memp_num d)" "a = pool_element d i" using assms(3) by (auto simp: pool_elements_def)
  obtain j where j: "j < unat (memp_num d)" "c = pool_element d j" using assms(4) by (auto simp: pool_elements_def)
  have u: "unat a = round4 (unat (memp_base d)) + i * 1532" "unat c = round4 (unat (memp_base d)) + j * 1532"
    using unat_pool_element [OF f(1), of i] unat_pool_element [OF f(1), of j] f(2) i j by simp_all
  have top: "unat a + 1532 < 4294967296" "unat c + 1532 < 4294967296" using pool_elements_aligned(2) [OF f] assms(3,4) by auto
  have "i \<noteq> j" using assms(5) i j by auto
  then consider "unat a + 1532 \<le> unat c" | "unat c + 1532 \<le> unat a" using u by linarith
  then show ?thesis
  proof cases
    case 1
    then show ?thesis using p top by (intro apart_below) (simp_all add: from_pool_def)
  next
    case 2
    then show ?thesis using p top by (intro apart_sym [OF apart_below]) (simp_all add: from_pool_def)
  qed
qed

lemma pool_spread:
  assumes f: "pool_fits d" "unat (memp_size d) = 1532"
  shows "\<forall>c \<in> set cs. from_pool c \<Longrightarrow> distinct (map fst cs) \<Longrightarrow> fst ` set cs \<subseteq> pool_elements d \<Longrightarrow> spread cs"
proof (induction cs rule: spread.induct)
  case (2 a b cs)
  have "apart (payload b) (unat (plen b)) (payload e) (unat (plen e))" if "(c, e) \<in> set cs" for c e
    using that 2(2-4) by (intro pool_apart [OF f, of a c]) force+
  then show ?case using 2 by (auto simp: clear_of_def)
qed simp

lemma pool_packet_spec:
  assumes "pool_state d s"
  shows "\<exists>q s' cs. pbuf_alloc cf l n PBUF_POOL s = Some (q, s') \<and> taken d s s' q cs \<and> packet s' q cs \<and> spread cs \<and>
    (q = 0 \<longleftrightarrow> card (free_bufs s) < length (pool_layout (unat n) (round4 (unat (layer_offset l))))) \<and>
    (if q = 0 then cs = []
     else chain_len cs = unat n \<and> layout cs = pool_layout (unat n) (round4 (unat (layer_offset l))))"
proof -
  let ?pieces = "pool_layout (unat n) (round4 (unat (layer_offset l)))"
  have ok: "pool_ok MEMP_PBUF_POOL d (mpools s)" and f: "pool_fits d" "unat (memp_size d) = 1532"
    using assms by (simp_all add: pool_state_def pool_ok_def)
  have B: "built d s (unat n) ?pieces s 0 0 [] n (layer_offset l)" using ok by (simp add: built_def taken_def layout_def)
  have o: "unat (layer_offset l) \<le> 54" by (cases l) simp_all
  obtain q s' cs where A: "alloc_pool_chain cf 0 0 n (layer_offset l) s = Some (q, s')" "taken d s s' q cs"
    "if cs = [] then card (free_bufs s) < length ?pieces else tot_ok cs \<and> chain_len cs = unat n \<and> layout cs = ?pieces"
    using alloc_pool_chain_spec [OF assms B o, of cf] by (elim exE conjE) (rule that)
  have t: "chain (pbufs s') q cs" "\<forall>c \<in> set cs. from_pool c" "fst ` set cs \<subseteq> free_bufs s" using A(2) by (simp_all add: taken_def)
  have "fst ` set cs \<subseteq> pool_elements d" using t(3) memp.avail_elements [OF ok] by blast
  then have sp: "spread cs" using t(2) chain_distinct [OF t(1)] by (intro pool_spread [OF f])
  have q0: "q = 0 \<longleftrightarrow> cs = []" using t(1) by (cases cs) auto
  have pk: "packet s' q cs" using t(1) A(3) by (cases "cs = []") (simp_all add: packet_def)
  have "length ?pieces \<le> card (free_bufs s)" if "cs \<noteq> []"
  proof -
    have "length (layout cs) = length cs" by (simp add: layout_def)
    moreover have "layout cs = ?pieces" using A(3) that by simp
    ultimately show ?thesis using taken_card(1) [OF assms A(2)] by simp
  qed
  then have "q = 0 \<longleftrightarrow> card (free_bufs s) < length ?pieces" using q0 A(3) by (cases "cs = []") auto
  moreover have "pbuf_alloc cf l n PBUF_POOL s = Some (q, s')" using A(1) by (simp add: pbuf_alloc_def)
  moreover have "if q = 0 then cs = [] else chain_len cs = unat n \<and> layout cs = ?pieces" using A(3) q0 by simp
  ultimately show ?thesis using A(2) sp pk by (intro exI [of _ q] exI [of _ s'] exI [of _ cs] conjI)
qed

text \<open>C12: \<open>pbuf_alloc\<close> for \<open>PBUF_POOL\<close> gives NULL exactly when fewer buffers are free than the length needs,
  with every buffer it had taken back in the pool, and otherwise a packet of exactly the length asked for, in buffers that
  were free and whose payloads do not overlap. The first buffer leaves the space of the headers of the layer
  free and the others none, and every buffer but the last is full. \<open>pbuf_free\<close> of the packet restores the pool.\<close>

theorem pool_packet_or_nothing:
  fixes l :: pbuf_layer and n :: u16
  assumes "pool_state d s"
  defines "pieces \<equiv> pool_layout (unat n) (round4 (unat (layer_offset l)))"
  shows "\<exists>q s' cs. pbuf_alloc cf l n PBUF_POOL s = Some (q, s') \<and> packet s' q cs \<and> spread cs \<and>
    fst ` set cs \<subseteq> free_bufs s \<and> free_bufs s' = free_bufs s - fst ` set cs \<and>
    (\<forall>a. a \<notin> fst ` set cs \<longrightarrow> pbufs s' a = pbufs s a) \<and>
    (q = 0 \<longleftrightarrow> card (free_bufs s) < length pieces) \<and>
    (if q = 0 then cs = [] else chain_len cs = unat n \<and> layout cs = pieces) \<and>
    (\<exists>s''. pbuf_free cf q s' = Some (of_nat (length cs), s'') \<and> pbufs s'' = pbufs s \<and> free_bufs s'' = free_bufs s)"
proof -
  obtain q s' cs where A: "pbuf_alloc cf l n PBUF_POOL s = Some (q, s')" "taken d s s' q cs" "packet s' q cs" "spread cs"
    "q = 0 \<longleftrightarrow> card (free_bufs s) < length pieces" "if q = 0 then cs = [] else chain_len cs = unat n \<and> layout cs = pieces"
    using pool_packet_spec [OF assms(1), of cf l n, folded pieces_def] by (elim exE conjE) (rule that)
  obtain s'' where F: "pbuf_free cf q s' = Some (of_nat (length cs), s'')" "taken d s s'' 0 []"
    using pool_chain_freed [OF assms(1) A(2), of cf] by blast
  then have "\<exists>s''. pbuf_free cf q s' = Some (of_nat (length cs), s'') \<and> pbufs s'' = pbufs s \<and> free_bufs s'' = free_bufs s"
    by (auto simp: taken_def)
  moreover have "fst ` set cs \<subseteq> free_bufs s" "free_bufs s' = free_bufs s - fst ` set cs"
    "\<forall>a. a \<notin> fst ` set cs \<longrightarrow> pbufs s' a = pbufs s a" using A(2) by (simp_all add: taken_def)
  ultimately show ?thesis using A by blast
qed

definition sample_buffers :: pbuf_state where
  "sample_buffers = \<lparr>pbufs = (\<lambda>_. None), pdata = (\<lambda>_. 0), mheap = sample_ram,
     mpools = memp_init_pool MEMP_PBUF_POOL \<lparr>memp_pools = (\<lambda>_. \<lparr>memp_size = 1532, memp_num = 20, memp_base = 0x20010000\<rparr>),
       memp_tab = (\<lambda>_. 0), memp_next = (\<lambda>_. 0)\<rparr>\<rparr>"

lemma sample_buffers_ready:
  defines "d \<equiv> \<lparr>memp_size = 1532, memp_num = 20, memp_base = 0x20010000\<rparr>"
  shows "pool_state d sample_buffers" "card (free_bufs sample_buffers) = 20"
proof -
  let ?s = "\<lparr>memp_pools = (\<lambda>_. d), memp_tab = (\<lambda>_. 0), memp_next = (\<lambda>_. 0)\<rparr>"
  have f: "pool_fits d" by (simp add: pool_fits_def d_def)
  have i: "pool_ok MEMP_PBUF_POOL d (mpools sample_buffers)" "free_bufs sample_buffers = pool_elements d"
    using memp_init_pool_spec [OF f, of ?s MEMP_PBUF_POOL] by (simp_all add: sample_buffers_def d_def)
  then show "pool_state d sample_buffers" by (simp add: pool_state_def sample_buffers_def d_def)
  have "inj_on (pool_element d) {..<unat (memp_num d)}" using pool_element_inj [OF f] by (auto simp: inj_on_def)
  then show "card (free_bufs sample_buffers) = 20" unfolding i(2) pool_elements_def by (simp add: card_image) (simp add: d_def)
qed

lemma sample_layout: "pool_layout 3000 36 = [(52, 1480), (16, 1516), (16, 4)]"
  by (simp add: pool_layout.simps)

lemma pool_packet_or_nothing_witness:
  "\<exists>q s' cs. pbuf_alloc (\<lambda>p. Some) PBUF_IP 3000 PBUF_POOL sample_buffers = Some (q, s') \<and> q \<noteq> 0 \<and> packet s' q cs \<and>
     layout cs = [(52, 1480), (16, 1516), (16, 4)]"
proof -
  have n: "unat (3000 :: u16) = 3000" "round4 (unat (layer_offset PBUF_IP)) = 36" by (simp_all add: round4_def)
  from pool_packet_or_nothing [OF sample_buffers_ready(1), of "\<lambda>p. Some" PBUF_IP 3000]
  obtain q s' cs where A: "pbuf_alloc (\<lambda>p. Some) PBUF_IP 3000 PBUF_POOL sample_buffers = Some (q, s')" "packet s' q cs"
    "q = 0 \<longleftrightarrow> card (free_bufs sample_buffers) < length [(52 :: nat, 1480 :: nat), (16, 1516), (16, 4)]"
    "if q = 0 then cs = [] else chain_len cs = 3000 \<and> layout cs = [(52, 1480), (16, 1516), (16, 4)]"
    unfolding n sample_layout by (elim exE conjE) (rule that)
  have "q \<noteq> 0" using A(3) sample_buffers_ready(2) by simp
  then show ?thesis using A by (intro exI [of _ q] exI [of _ s'] exI [of _ cs]) simp
qed

end
