(* ===== verification/EthPool.thy ===== *)
theory EthPool
  imports EthFrameSpec PbufPool
begin

text \<open>
  The input task of User/arch/ethernetif.c over the model of the packet buffers: \<open>low_level_input\<close>
  allocates its packets from the pool with \<open>pbuf_alloc\<close>, walks their chain, and \<open>ethernetif_input\<close>
  frees with \<open>pbuf_free\<close> those that \<open>netif->input\<close> does not take. The interface \<open>packet_source\<close> of
  the driver is interpreted on these functions. \<open>netif->input\<close> stays a parameter.
\<close>
















end
