(* ===== verification/Chksum.thy ===== *)
theory Chksum
  imports LwipDef
begin

unbundle bit_operations_syntax

text \<open>
  The Internet checksum of LwIP (LwIP/core/inet_chksum.c, the algorithm 2 it is built with). A
  buffer is its bytes and whether it starts at an odd address, a chain is the list of its buffers.
  The reference is the checksum of RFC 1071: the complement of the one's complement sum of the
  16-bit words of the data. However the data is cut into buffers and wherever they lie, the code
  computes that.
\<close>

section \<open>The code\<close>

definition FOLD_U32T :: "u32 \<Rightarrow> u32" where
  "FOLD_U32T u = drop_bit 16 u + (u AND 0x0000ffff)"

definition SWAP_BYTES_IN_WORD :: "u32 \<Rightarrow> u32" where
  "SWAP_BYTES_IN_WORD w = push_bit 8 (w AND 0xff) OR drop_bit 8 (w AND 0xff00)"

text \<open>The loop over the words, low byte first; what is left is at most one byte.\<close>

fun sum_words :: "u8 list \<Rightarrow> u32 \<Rightarrow> u32 \<times> u8 list" where
  "sum_words (a # b # bs) sm = sum_words bs (sm + (ucast a OR push_bit 8 (ucast b)))"
| "sum_words bs sm = (sm, bs)"

text \<open>The variable \<open>t\<close> is set byte by byte: an odd first byte is its high byte, a last byte its low byte.\<close>

definition lwip_standard_chksum :: "bool \<Rightarrow> u8 list \<Rightarrow> u16" where
  "lwip_standard_chksum is_odd bs =
    (let (thi, bs) = (if is_odd \<and> bs \<noteq> [] then (hd bs, tl bs) else (0, bs));
         (sm, rest) = sum_words bs 0;
         tlo = (case rest of [] \<Rightarrow> 0 | b # _ \<Rightarrow> b);
         sm = sm + (ucast tlo OR push_bit 8 (ucast thi));
         sm = FOLD_U32T sm;
         sm = FOLD_U32T sm;
         sm = (if is_odd then SWAP_BYTES_IN_WORD sm else sm)
     in ucast sm)"

type_synonym pbufs = "(bool \<times> u8 list) list"

text \<open>The loop over a chain; the flag is \<open>swapped\<close>.\<close>

fun chain_sum :: "pbufs \<Rightarrow> u32 \<Rightarrow> bool \<Rightarrow> u32 \<times> bool" where
  "chain_sum [] acc swapped = (acc, swapped)"
| "chain_sum ((o', bs) # q) acc swapped =
    (let acc = acc + ucast (lwip_standard_chksum o' bs);
         acc = FOLD_U32T acc;
         (acc, swapped) = (if length bs mod 2 \<noteq> 0 then (SWAP_BYTES_IN_WORD acc, \<not> swapped) else (acc, swapped))
     in chain_sum q acc swapped)"

definition unswap :: "u32 \<times> bool \<Rightarrow> u32" where
  "unswap r = (case r of (acc, swapped) \<Rightarrow> if swapped then SWAP_BYTES_IN_WORD acc else acc)"

definition inet_chksum :: "bool \<Rightarrow> u8 list \<Rightarrow> u16" where
  "inet_chksum is_odd bs = NOT (lwip_standard_chksum is_odd bs)"

definition inet_chksum_pbuf :: "pbufs \<Rightarrow> u16" where
  "inet_chksum_pbuf p = ucast (NOT (unswap (chain_sum p 0 False) AND 0xffff))"

definition inet_cksum_pseudo_base :: "pbufs \<Rightarrow> u8 \<Rightarrow> u16 \<Rightarrow> u32 \<Rightarrow> u16" where
  "inet_cksum_pseudo_base p proto proto_len acc =
    (let acc = unswap (chain_sum p acc False);
         acc = acc + ucast (lwip_htons (ucast proto));
         acc = acc + ucast (lwip_htons proto_len);
         acc = FOLD_U32T acc;
         acc = FOLD_U32T acc
     in ucast (NOT (acc AND 0xffff)))"

definition pseudo_acc :: "u32 \<Rightarrow> u32 \<Rightarrow> u32" where
  "pseudo_acc src dest =
    (let acc = src AND 0xffff;
         acc = acc + (drop_bit 16 src AND 0xffff);
         acc = acc + (dest AND 0xffff);
         acc = acc + (drop_bit 16 dest AND 0xffff);
         acc = FOLD_U32T acc
     in FOLD_U32T acc)"

definition inet_chksum_pseudo :: "pbufs \<Rightarrow> u8 \<Rightarrow> u16 \<Rightarrow> u32 \<Rightarrow> u32 \<Rightarrow> u16" where
  "inet_chksum_pseudo p proto proto_len src dest = inet_cksum_pseudo_base p proto proto_len (pseudo_acc src dest)"

definition ip_chksum_pseudo :: "pbufs \<Rightarrow> u8 \<Rightarrow> u16 \<Rightarrow> u32 \<Rightarrow> u32 \<Rightarrow> u16" where
  "ip_chksum_pseudo p proto proto_len src dest = inet_chksum_pseudo p proto proto_len src dest"

text \<open>Over the first \<open>chksum_len\<close> bytes of the chain only. The swap looks at the whole length of a buffer.\<close>

fun chain_sum_partial :: "pbufs \<Rightarrow> u16 \<Rightarrow> u32 \<Rightarrow> bool \<Rightarrow> u32 \<times> bool" where
  "chain_sum_partial [] chksum_len acc swapped = (acc, swapped)"
| "chain_sum_partial ((o', bs) # q) chksum_len acc swapped =
    (if chksum_len = 0 then (acc, swapped)
     else
       let chklen = (if chksum_len < of_nat (length bs) then unat chksum_len else length bs);
           acc = acc + ucast (lwip_standard_chksum o' (take chklen bs));
           acc = FOLD_U32T acc;
           (acc, swapped) = (if length bs mod 2 \<noteq> 0 then (SWAP_BYTES_IN_WORD acc, \<not> swapped) else (acc, swapped))
       in chain_sum_partial q (chksum_len - of_nat chklen) acc swapped)"

definition inet_chksum_pseudo_partial :: "pbufs \<Rightarrow> u8 \<Rightarrow> u16 \<Rightarrow> u16 \<Rightarrow> u32 \<Rightarrow> u32 \<Rightarrow> u16" where
  "inet_chksum_pseudo_partial p proto proto_len chksum_len src dest =
    (let acc = unswap (chain_sum_partial p chksum_len (pseudo_acc src dest) False);
         acc = acc + ucast (lwip_htons (ucast proto));
         acc = acc + ucast (lwip_htons proto_len);
         acc = FOLD_U32T acc;
         acc = FOLD_U32T acc
     in ucast (NOT (acc AND 0xffff)))"

text \<open>Copying and summing: the bytes written and the sum of the copy, which lies at its own address.\<close>

definition lwip_chksum_copy :: "bool \<Rightarrow> memory \<Rightarrow> u32 \<Rightarrow> u8 list \<Rightarrow> u16 \<times> memory" where
  "lwip_chksum_copy is_odd m dst bs = (lwip_standard_chksum is_odd bs, write_bytes m dst bs)"

section \<open>The reference\<close>

text \<open>The words of the data as on this machine, the last one padded with a zero byte, and the
  one's complement representative of their sum: 65535 is congruent to 0, and only an empty sum is 0.\<close>

fun words_sum :: "u8 list \<Rightarrow> nat" where
  "words_sum (a # b # bs) = unat a + 256 * unat b + words_sum bs"
| "words_sum [a] = unat a"
| "words_sum [] = 0"

definition ones_sum :: "nat \<Rightarrow> nat" where
  "ones_sum t = (if t = 0 then 0 else (t - 1) mod 65535 + 1)"

definition rfc1071 :: "u8 list \<Rightarrow> u16" where
  "rfc1071 bs = NOT (of_nat (ones_sum (words_sum bs)))"

section \<open>One's complement sums\<close>

lemma ones_sum_small: "t \<le> 65535 \<Longrightarrow> ones_sum t = t"
  by (cases "t = 0") (auto simp: ones_sum_def)

lemma ones_sum_le [simp]: "ones_sum t \<le> 65535"
proof -
  have "(t - 1) mod 65535 + 1 \<le> 65535" using mod_less_divisor [of 65535 "t - 1"] by linarith
  then show ?thesis unfolding ones_sum_def by simp
qed

lemma ones_sum_cong:
  assumes "a mod 65535 = b mod 65535" and "a = 0 \<longleftrightarrow> b = 0"
  shows "ones_sum a = ones_sum b"
proof (cases "a = 0")
  case False
  then have "0 < a" "0 < b" using assms(2) by auto
  have "(a + 65534) mod 65535 = (b + 65534) mod 65535" using assms(1) by (metis mod_add_left_eq)
  moreover have "a + 65534 = (a - 1) + 65535" "b + 65534 = (b - 1) + 65535" using \<open>0 < a\<close> \<open>0 < b\<close> by simp_all
  ultimately have "(a - 1) mod 65535 = (b - 1) mod 65535" by (metis mod_add_self2)
  then show ?thesis using False assms(2) by (simp add: ones_sum_def)
qed (use assms in simp)

lemma ones_sum_mod: "ones_sum t mod 65535 = t mod 65535"
proof (cases "t = 0")
  case False
  then have "ones_sum t mod 65535 = ((t - 1) + 1) mod 65535" unfolding ones_sum_def by (simp add: mod_Suc_eq)
  then show ?thesis using False by simp
qed (simp add: ones_sum_def)

lemma ones_sum_0 [simp]: "ones_sum t = 0 \<longleftrightarrow> t = 0"
  by (simp add: ones_sum_def)

lemma mask16: "(u :: u32) AND 0xffff = take_bit 16 u"
  by (simp add: take_bit_eq_mask mask_eq_exp_minus_1)

lemma unat_mask16: "unat ((u :: u32) AND 0xffff) = unat u mod 65536"
  by (simp only: mask16 unsigned_take_bit_eq) (simp add: take_bit_eq_mod)

lemma unat_FOLD: "unat (FOLD_U32T u) = unat u div 65536 + unat u mod 65536"
proof -
  have a: "unat (drop_bit 16 u) = unat u div 65536"
    by (simp only: unsigned_drop_bit_eq) (simp add: drop_bit_eq_div take_bit_nat_eq_self)
  have "unat u div 65536 < 65536" using unat_u32_lt [of u] by (simp add: less_mult_imp_div_less del: unat_u32_lt)
  moreover have "unat u mod 65536 < 65536" by simp
  ultimately have "unat u div 65536 + unat u mod 65536 < 4294967296" by linarith
  then show ?thesis unfolding FOLD_U32T_def by (simp add: unat_word_ariths unat_mask16 a)
qed

lemma ones_FOLD: "ones_sum (unat (FOLD_U32T u)) = ones_sum (unat u)"
proof (rule ones_sum_cong)
  define q r where "q = unat u div 65536" and "r = unat u mod 65536"
  have u: "unat u = 65536 * q + r" by (simp add: q_def r_def)
  have "65536 * q + r = (q + r) + 65535 * q" by simp
  then have "(65536 * q + r) mod 65535 = (q + r) mod 65535" by (simp only: mod_mult_self2)
  moreover have e: "unat (FOLD_U32T u) = q + r" by (simp add: unat_FOLD q_def r_def)
  ultimately show "unat (FOLD_U32T u) mod 65535 = unat u mod 65535" unfolding u by simp
  show "unat (FOLD_U32T u) = 0 \<longleftrightarrow> unat u = 0" unfolding e u by simp
qed

lemma FOLD_le: "unat u \<le> 131070 \<Longrightarrow> unat (FOLD_U32T u) \<le> 65535"
proof -
  assume "unat u \<le> 131070"
  then show ?thesis unfolding unat_FOLD
    by (cases "unat u < 65536") (auto simp: div_if mod_if)
qed

lemma FOLD_le_2: "unat (FOLD_U32T u) \<le> 131070"
proof -
  have "unat u div 65536 < 65536" using unat_u32_lt [of u] by (simp add: less_mult_imp_div_less del: unat_u32_lt)
  moreover have "unat u mod 65536 < 65536" by simp
  ultimately show ?thesis unfolding unat_FOLD by linarith
qed

text \<open>Two folds reduce any sum; one fold is enough after the addition of two reduced sums.\<close>

lemma FOLD_FOLD: "unat (FOLD_U32T (FOLD_U32T u)) = ones_sum (unat u)"
  using ones_sum_small [OF FOLD_le [OF FOLD_le_2 [of u]]] by (simp add: ones_FOLD)

lemma FOLD_sum: "unat u \<le> 131070 \<Longrightarrow> unat (FOLD_U32T u) = ones_sum (unat u)"
  using ones_sum_small [OF FOLD_le, of u] by (simp add: ones_FOLD)

lemma unat_SWAP:
  assumes "unat w \<le> 65535"
  shows "unat (SWAP_BYTES_IN_WORD w) = ones_sum (256 * unat w)"
proof -
  define q r where "q = unat w div 256" and "r = unat w mod 256"
  have w: "unat w = 256 * q + r" "r < 256" "q < 256" using assms by (auto simp: q_def r_def)
  have lo: "unat (w AND 0xff) = r"
  proof -
    have "w AND 0xff = take_bit 8 w" by (simp add: take_bit_eq_mask mask_eq_exp_minus_1)
    then show ?thesis by (simp only: unsigned_take_bit_eq) (simp add: take_bit_eq_mod r_def)
  qed
  have "drop_bit 8 (w AND 0xff00) = drop_bit 8 (take_bit 16 w)"
  proof (rule bit_word_eqI)
    fix n assume "n < LENGTH(32)"
    have m: "(0xff00 :: u32) = push_bit 8 (mask 8)" by (simp add: mask_eq_exp_minus_1)
    show "bit (drop_bit 8 (w AND 0xff00)) n = bit (drop_bit 8 (take_bit 16 w)) n"
      unfolding m bit_drop_bit_eq comp_def bit_and_iff bit_push_bit_iff bit_take_bit_iff bit_mask_iff
      by (auto dest: bit_imp_le_length)
  qed
  then have hi: "unat (drop_bit 8 (w AND 0xff00)) = q"
    using assms by (simp only: unsigned_drop_bit_eq unsigned_take_bit_eq)
      (simp add: drop_bit_eq_div take_bit_nat_eq_self q_def)
  have r32: "unat (push_bit 8 (w AND 0xff)) = 256 * r"
    using w(2) by (simp add: push_bit_eq_mult unat_word_ariths lo)
  have disj: "push_bit 8 (w AND 0xff) AND drop_bit 8 (w AND 0xff00) = 0"
  proof (rule bit_word_eqI)
    fix n assume "n < LENGTH(32)"
    have m: "(0xff00 :: u32) = push_bit 8 (mask 8)" by (simp add: mask_eq_exp_minus_1)
    show "bit (push_bit 8 (w AND 0xff) AND drop_bit 8 (w AND 0xff00)) n = bit (0 :: u32) n"
      unfolding m bit_drop_bit_eq comp_def bit_and_iff bit_push_bit_iff bit_mask_iff by auto
  qed
  have "SWAP_BYTES_IN_WORD w = push_bit 8 (w AND 0xff) + drop_bit 8 (w AND 0xff00)"
    using word_plus_and_or [of "push_bit 8 (w AND 0xff)" "drop_bit 8 (w AND 0xff00)"]
    by (simp only: SWAP_BYTES_IN_WORD_def disj add_0)
  then have "unat (SWAP_BYTES_IN_WORD w) = (256 * r + q) mod 4294967296"
    by (simp only: unat_word_ariths r32 hi) simp
  then have "unat (SWAP_BYTES_IN_WORD w) = 256 * r + q" using w(2,3) by simp
  also have "\<dots> = ones_sum (256 * unat w)"
  proof -
    have le: "256 * r + q \<le> 65535" using w(2,3) by linarith
    have "(256 * unat w) = (256 * r + q) + 65535 * q" by (simp add: w(1))
    then have "ones_sum (256 * unat w) = ones_sum (256 * r + q)"
      by (intro ones_sum_cong) (simp_all only: mod_mult_self2, auto)
    then show ?thesis using ones_sum_small [OF le] by simp
  qed
  finally show ?thesis .
qed

section \<open>Congruent sums\<close>

text \<open>Two sums with the same reduced sum.\<close>

definition same_sum :: "nat \<Rightarrow> nat \<Rightarrow> bool" where
  "same_sum a b \<longleftrightarrow> a mod 65535 = b mod 65535 \<and> (a = 0 \<longleftrightarrow> b = 0)"

lemma same_sum_ones: "same_sum a b \<Longrightarrow> ones_sum a = ones_sum b"
  unfolding same_sum_def by (elim conjE) (rule ones_sum_cong)

lemma same_sum_refl [simp]: "same_sum a a" by (simp add: same_sum_def)

lemma same_sum_sym: "same_sum a b \<Longrightarrow> same_sum b a" by (auto simp: same_sum_def)

lemma same_sum_trans [trans]: "same_sum a b \<Longrightarrow> same_sum b c \<Longrightarrow> same_sum a c" by (simp add: same_sum_def)

lemma same_sum_add: "same_sum a a' \<Longrightarrow> same_sum b b' \<Longrightarrow> same_sum (a + b) (a' + b')"
  unfolding same_sum_def using mod_add_cong [of a 65535 a' b b'] by auto

lemma same_sum_mult: "same_sum a a' \<Longrightarrow> 0 < k \<Longrightarrow> same_sum (k * a) (k * a')"
  unfolding same_sum_def using mod_mult_cong [of k 65535 k a a'] by auto

lemma same_sum_65536: "same_sum (65536 * a) a"
proof -
  have "65536 * a = a + 65535 * a" by simp
  then have "(65536 * a) mod 65535 = a mod 65535" by (simp only: mod_mult_self2)
  then show ?thesis by (simp add: same_sum_def)
qed

lemma same_sum_reduced: "same_sum (ones_sum a) a"
  by (simp add: same_sum_def ones_sum_mod)

text \<open>The weight of data that begins after \<open>n\<close> bytes.\<close>

definition weight :: "nat \<Rightarrow> nat" where
  "weight n = (if even n then 1 else 256)"

lemma weight_pos [simp]: "0 < weight n" by (simp add: weight_def)

lemma weight_Suc: "same_sum (256 * (weight n * a)) (weight (Suc n) * a)"
  using same_sum_65536 [of a] by (auto simp: weight_def)

lemma words_sum_Cons: "same_sum (words_sum (a # bs)) (unat a + 256 * words_sum bs)"
proof (induction bs arbitrary: a rule: words_sum.induct)
  case (1 b c bs)
  have "same_sum (words_sum (c # bs)) (unat c + 256 * words_sum bs)" by (rule "1")
  also have "same_sum (unat c + 256 * words_sum bs) (65536 * unat c + 256 * words_sum bs)"
    by (intro same_sum_add same_sum_sym [OF same_sum_65536] same_sum_refl)
  finally have "same_sum ((unat a + 256 * unat b) + words_sum (c # bs))
      ((unat a + 256 * unat b) + (65536 * unat c + 256 * words_sum bs))" by (intro same_sum_add same_sum_refl)
  then show ?case by (simp add: algebra_simps)
qed simp_all

lemma words_sum_append: "same_sum (words_sum (xs @ ys)) (words_sum xs + weight (length xs) * words_sum ys)"
proof (induction xs)
  case Nil
  then show ?case by (simp add: weight_def)
next
  case (Cons x xs)
  have "same_sum (words_sum (x # xs @ ys)) (unat x + 256 * words_sum (xs @ ys))" by (rule words_sum_Cons)
  also have "same_sum (unat x + 256 * words_sum (xs @ ys))
      (unat x + 256 * (words_sum xs + weight (length xs) * words_sum ys))"
    using Cons by (intro same_sum_add same_sum_mult same_sum_refl) simp_all
  also have "\<dots> = (unat x + 256 * words_sum xs) + 256 * (weight (length xs) * words_sum ys)"
    by (simp add: distrib_left)
  also have "same_sum \<dots> (words_sum (x # xs) + weight (Suc (length xs)) * words_sum ys)"
    by (intro same_sum_add weight_Suc same_sum_sym [OF words_sum_Cons])
  finally show ?case by simp
qed

section \<open>The loop over one buffer\<close>

lemma words_sum_le: "words_sum bs \<le> 65280 * length bs"
proof (induction bs rule: words_sum.induct)
  case (1 a b bs)
  then show ?case using unat_u8_lt [of a] unat_u8_lt [of b] by (simp del: unat_u8_lt)
next
  case (2 a)
  then show ?case using unat_u8_lt [of a] by (simp del: unat_u8_lt)
qed simp

lemma unat_word: "unat (ucast (a :: u8) OR push_bit 8 (ucast (b :: u8)) :: u32) = unat a + 256 * unat b"
proof -
  let ?a = "ucast a :: u32" and ?b = "push_bit 8 (ucast b) :: u32"
  have a: "unat ?a = unat a" using unat_u8_lt [of a] by (simp add: unsigned_ucast_eq take_bit_nat_eq_self del: unat_u8_lt)
  have ub: "unat (ucast b :: u32) = unat b" using unat_u8_lt [of b] by (simp add: unsigned_ucast_eq take_bit_nat_eq_self del: unat_u8_lt)
  have b: "unat ?b = 256 * unat b" using unat_u8_lt [of b]
    by (simp add: push_bit_eq_mult unat_word_ariths ub del: unat_u8_lt)
  have "?a AND ?b = 0"
    by (rule bit_word_eqI) (auto simp: bit_simps dest: bit_imp_le_length)
  then have "?a OR ?b = ?a + ?b" using word_plus_and_or [of ?a ?b] by (simp only: add_0)
  then show ?thesis using unat_u8_lt [of a] unat_u8_lt [of b]
    by (simp add: unat_word_ariths a b del: unat_u8_lt)
qed

lemma sum_words_spec:
  assumes "unat sm + words_sum bs < 4294967296"
  shows "\<exists>sm' rest. sum_words bs sm = (sm', rest) \<and>
    (rest = [] \<and> unat sm' = unat sm + words_sum bs \<or> (\<exists>b. rest = [b] \<and> unat sm' + unat b = unat sm + words_sum bs))"
  using assms
proof (induction bs sm rule: sum_words.induct)
  case (1 a b bs sm)
  have u: "unat (sm + (ucast a OR push_bit 8 (ucast b))) = unat sm + (unat a + 256 * unat b)"
    using "1.prems" by (simp add: unat_word_ariths unat_word)
  show ?case using "1.IH" "1.prems" unfolding u by (simp add: add.assoc)
qed auto

text \<open>The sum of one buffer is the reduced sum of its words, at any address.\<close>

lemma chksum_buffer:
  assumes "length bs \<le> 65535"
  shows "unat (lwip_standard_chksum is_odd bs) = ones_sum (words_sum bs)"
proof -
  have fold2: "unat (ucast (FOLD_U32T (FOLD_U32T u)) :: u16) = ones_sum (unat u)" for u
    using ones_sum_le [of "unat u"] by (simp add: unat_ucast_u32_u16 FOLD_FOLD mod_less less_Suc_eq_le del: ones_sum_le)
  have bound: "words_sum bs < 4278190080" using words_sum_le [of bs] assms by linarith
  show ?thesis
  proof (cases "is_odd \<and> bs \<noteq> []")
    case False
    obtain sm rest where S: "sum_words bs 0 = (sm, rest)"
      "rest = [] \<and> unat sm = words_sum bs \<or> (\<exists>b. rest = [b] \<and> unat sm + unat b = words_sum bs)"
      using sum_words_spec [of 0 bs] bound by auto
    define w where "w = sm + (ucast (case rest of [] \<Rightarrow> (0 :: u8) | b # _ \<Rightarrow> b) OR push_bit 8 (ucast (0 :: u8)))"
    have w: "unat w = words_sum bs"
      unfolding w_def unat_word_ariths unat_word using S(2) bound by auto
    show ?thesis
    proof (cases is_odd)
      case True
      then have "bs = []" using False by simp
      then show ?thesis using True
        by (simp add: lwip_standard_chksum_def FOLD_U32T_def SWAP_BYTES_IN_WORD_def)
    next
      case False
      then have "lwip_standard_chksum is_odd bs = ucast (FOLD_U32T (FOLD_U32T w))"
        using S(1) by (simp add: lwip_standard_chksum_def Let_def w_def)
      then show ?thesis using fold2 w by simp
    qed
  next
    case True
    then obtain a cs where bs: "bs = a # cs" by (cases bs) auto
    have cbound: "words_sum cs < 4278124800" using words_sum_le [of cs] assms bs by simp
    obtain sm rest where S: "sum_words cs 0 = (sm, rest)"
      "rest = [] \<and> unat sm = words_sum cs \<or> (\<exists>b. rest = [b] \<and> unat sm + unat b = words_sum cs)"
      using sum_words_spec [of 0 cs] cbound by auto
    define w where "w = sm + (ucast (case rest of [] \<Rightarrow> (0 :: u8) | b # _ \<Rightarrow> b) OR push_bit 8 (ucast a))"
    have w: "unat w = words_sum cs + 256 * unat a"
      unfolding w_def unat_word_ariths unat_word using S(2) cbound unat_u8_lt [of a] by (auto simp del: unat_u8_lt)
    have le: "unat (FOLD_U32T (FOLD_U32T w)) \<le> 65535" by (simp add: FOLD_FOLD)
    have "same_sum (256 * ones_sum (unat w)) (256 * (words_sum cs + 256 * unat a))"
      unfolding w by (intro same_sum_mult same_sum_reduced) simp
    also have "256 * (words_sum cs + 256 * unat a) = 65536 * unat a + 256 * words_sum cs" by simp
    also have "same_sum \<dots> (unat a + 256 * words_sum cs)"
      by (intro same_sum_add same_sum_65536 same_sum_refl)
    also have "same_sum \<dots> (words_sum bs)" unfolding bs by (rule same_sum_sym [OF words_sum_Cons])
    finally have "ones_sum (256 * ones_sum (unat w)) = ones_sum (words_sum bs)" by (rule same_sum_ones)
    then have "unat (SWAP_BYTES_IN_WORD (FOLD_U32T (FOLD_U32T w))) = ones_sum (words_sum bs)"
      using unat_SWAP [OF le] by (simp add: FOLD_FOLD)
    moreover have "lwip_standard_chksum is_odd bs = ucast (SWAP_BYTES_IN_WORD (FOLD_U32T (FOLD_U32T w)))"
      using True S(1) bs by (simp add: lwip_standard_chksum_def Let_def w_def)
    ultimately show ?thesis using ones_sum_le [of "words_sum bs"]
      by (simp add: unat_ucast_u32_u16 del: ones_sum_le)
  qed
qed

section \<open>The loop over a chain\<close>

lemma weight_twice: "same_sum (weight n * (weight n * a)) a"
  using same_sum_65536 [of a] by (simp add: weight_def)

lemma weight_add: "same_sum (weight n * (weight m * a)) (weight (n + m) * a)"
  using same_sum_65536 [of a] by (auto simp: weight_def)

definition chain_data :: "pbufs \<Rightarrow> u8 list" where
  "chain_data p = concat (map snd p)"

definition chain_ok :: "pbufs \<Rightarrow> bool" where
  "chain_ok p \<longleftrightarrow> (\<forall>(a, bs) \<in> set p. length bs \<le> 65535)"

lemma chain_sum_spec:
  assumes "chain_ok p" and "unat acc = ones_sum (weight n * t)"
  shows "\<exists>acc' t'. chain_sum p acc (odd n) = (acc', odd (n + length (chain_data p))) \<and>
    unat acc' = ones_sum (weight (n + length (chain_data p)) * t') \<and>
    same_sum t' (t + weight n * words_sum (chain_data p))"
  using assms
proof (induction p arbitrary: acc n t)
  case Nil
  then show ?case by (auto simp: chain_data_def intro!: exI [of _ t])
next
  case (Cons q p)
  obtain a bs where q: "q = (a, bs)" by fastforce
  have len: "length bs \<le> 65535" and ok: "chain_ok p" using Cons.prems(1) q by (auto simp: chain_ok_def)
  let ?c = "lwip_standard_chksum a bs"
  have c: "unat (ucast ?c :: u32) = ones_sum (words_sum bs)"
    using chksum_buffer [OF len, of a] by (simp add: unat_ucast_u16_u32)
  have a1: "unat (acc + ucast ?c) = unat acc + ones_sum (words_sum bs)"
    using Cons.prems(2) c ones_sum_le [of "weight n * t"] ones_sum_le [of "words_sum bs"]
    by (simp add: unat_word_ariths del: ones_sum_le)
  define acc1 where "acc1 = FOLD_U32T (acc + ucast ?c)"
  define t1 where "t1 = t + weight n * words_sum bs"
  have "unat acc1 = ones_sum (unat acc + ones_sum (words_sum bs))"
    unfolding acc1_def a1 [symmetric]
    using a1 Cons.prems(2) ones_sum_le [of "weight n * t"] ones_sum_le [of "words_sum bs"]
    by (intro FOLD_sum) (simp del: ones_sum_le)
  also have "\<dots> = ones_sum (weight n * t1)"
  proof (rule same_sum_ones)
    have "same_sum (unat acc + ones_sum (words_sum bs)) (weight n * t + words_sum bs)"
      unfolding Cons.prems(2) by (intro same_sum_add same_sum_reduced)
    also have "same_sum \<dots> (weight n * t + weight n * (weight n * words_sum bs))"
      by (intro same_sum_add same_sum_refl same_sum_sym [OF weight_twice])
    finally show "same_sum (unat acc + ones_sum (words_sum bs)) (weight n * t1)"
      by (simp add: t1_def distrib_left)
  qed
  finally have acc1: "unat acc1 = ones_sum (weight n * t1)" .
  define acc2 where "acc2 = (if odd (length bs) then SWAP_BYTES_IN_WORD acc1 else acc1)"
  have acc2: "unat acc2 = ones_sum (weight (n + length bs) * t1)"
  proof (cases "odd (length bs)")
    case True
    have "unat acc1 \<le> 65535" using acc1 by simp
    then have "unat acc2 = ones_sum (256 * ones_sum (weight n * t1))"
      using True acc1 by (simp add: acc2_def unat_SWAP)
    also have "\<dots> = ones_sum (256 * (weight n * t1))"
      by (intro same_sum_ones same_sum_mult same_sum_reduced) simp
    also have "\<dots> = ones_sum (weight (n + length bs) * t1)"
    proof -
      have "weight (Suc n) = weight (n + length bs)" using True by (simp add: weight_def)
      then show ?thesis using same_sum_ones [OF weight_Suc [of n t1]] by simp
    qed
    finally show ?thesis .
  next
    case False
    then show ?thesis using acc1 by (simp add: acc2_def weight_def)
  qed
  have run: "chain_sum (q # p) acc (odd n) = chain_sum p acc2 (odd (n + length bs))"
  proof -
    have e: "length bs mod 2 \<noteq> 0 \<longleftrightarrow> odd (length bs)" by (simp add: odd_iff_mod_2_eq_one)
    show ?thesis
      unfolding q chain_sum.simps Let_def e acc1_def [symmetric] acc2_def
      by (cases "odd (length bs)") simp_all
  qed
  obtain acc' t' where R: "chain_sum p acc2 (odd (n + length bs)) = (acc', odd (n + length bs + length (chain_data p)))"
    "unat acc' = ones_sum (weight (n + length bs + length (chain_data p)) * t')"
    "same_sum t' (t1 + weight (n + length bs) * words_sum (chain_data p))"
    using Cons.IH [OF ok acc2] by blast
  have "same_sum (t1 + weight (n + length bs) * words_sum (chain_data p))
      (t1 + weight n * (weight (length bs) * words_sum (chain_data p)))"
    by (intro same_sum_add same_sum_refl same_sum_sym [OF weight_add])
  also have "\<dots> = t + weight n * (words_sum bs + weight (length bs) * words_sum (chain_data p))"
    by (simp add: t1_def distrib_left)
  also have "same_sum \<dots> (t + weight n * words_sum (bs @ chain_data p))"
    by (intro same_sum_add same_sum_refl same_sum_mult same_sum_sym [OF words_sum_append]) simp
  finally have "same_sum t' (t + weight n * words_sum (chain_data (q # p)))"
    using R(3) same_sum_trans by (fastforce simp: q chain_data_def)
  then show ?case using run R(1,2) by (auto simp: q chain_data_def add.assoc)
qed

lemma unswap_chain:
  assumes "chain_ok p" and "unat acc \<le> 65535"
  shows "unat (unswap (chain_sum p acc False)) = ones_sum (unat acc + words_sum (chain_data p))"
proof -
  let ?n = "length (chain_data p)"
  have "unat acc = ones_sum (weight 0 * unat acc)" using ones_sum_small [OF assms(2)] by (simp add: weight_def)
  from chain_sum_spec [OF assms(1) this] obtain acc' t' where R: "chain_sum p acc False = (acc', odd ?n)"
    "unat acc' = ones_sum (weight ?n * t')" "same_sum t' (unat acc + words_sum (chain_data p))"
    by (auto simp: weight_def)
  have "unat (unswap (acc', odd ?n)) = ones_sum t'"
  proof (cases "odd ?n")
    case True
    have "unat acc' \<le> 65535" using R(2) by simp
    then have "unat (SWAP_BYTES_IN_WORD acc') = ones_sum (256 * ones_sum (256 * t'))"
      using unat_SWAP [of acc'] R(2) True by (simp add: weight_def)
    also have "\<dots> = ones_sum (256 * (256 * t'))" by (intro same_sum_ones same_sum_mult same_sum_reduced) simp
    also have "\<dots> = ones_sum t'" using same_sum_ones [OF same_sum_65536 [of t']] by simp
    finally show ?thesis using True by (simp add: unswap_def)
  next
    case False
    then show ?thesis using R(2) by (simp add: unswap_def weight_def)
  qed
  then show ?thesis using R(1) same_sum_ones [OF R(3)] by simp
qed

section \<open>The checksum of RFC 1071\<close>

lemma not_ones:
  assumes "unat (u :: u32) = n" and "n \<le> 65535"
  shows "(ucast (NOT (u AND 0xffff)) :: u16) = NOT (of_nat n)"
proof -
  have "u = of_nat n" using assms(1) by auto
  then have "(ucast (NOT (u AND 0xffff)) :: u16) = NOT (ucast u)"
    unfolding mask16 by (intro bit_word_eqI) (auto simp: bit_simps)
  moreover have "(ucast u :: u16) = of_nat n" using assms by (simp add: word_unat_eq_iff unat_ucast_u32_u16 unsigned_of_nat take_bit_eq_mod)
  ultimately show ?thesis by simp
qed

text \<open>The bytes of the pseudo header, as they would stand before the data: source, destination, zero,
  protocol, length.\<close>

definition le_bytes :: "u32 \<Rightarrow> u8 list" where
  "le_bytes a = [ucast a, ucast (drop_bit 8 a), ucast (drop_bit 16 a), ucast (drop_bit 24 a)]"

definition pseudo_header :: "u8 \<Rightarrow> u16 \<Rightarrow> u32 \<Rightarrow> u32 \<Rightarrow> u8 list" where
  "pseudo_header proto proto_len src dest =
     le_bytes src @ le_bytes dest @ [0, proto, ucast (drop_bit 8 proto_len), ucast proto_len]"

lemma unat_bytes:
  fixes a :: u32
  shows "unat (ucast a :: u8) + 256 * unat (ucast (drop_bit 8 a) :: u8) = unat (a AND 0xffff)"
    "unat (ucast (drop_bit 16 a) :: u8) + 256 * unat (ucast (drop_bit 24 a) :: u8) = unat (drop_bit 16 a AND 0xffff)"
proof -
  have u: "unat (ucast (b :: u32) :: u8) = unat b mod 256" for b
    by (simp add: unsigned_ucast_eq take_bit_eq_mod)
  have d: "unat (drop_bit n a) = unat a div 2 ^ n" for n
    by (simp only: unsigned_drop_bit_eq) (simp add: drop_bit_eq_div take_bit_nat_eq_self)
  have m: "x mod 256 + 256 * (x div 256 mod 256) = x mod 65536" for x :: nat
    using mod_mult2_eq [of x 256 256] by simp
  show "unat (ucast a :: u8) + 256 * unat (ucast (drop_bit 8 a) :: u8) = unat (a AND 0xffff)"
    using m [of "unat a"] by (simp add: u d unat_mask16)
  have "unat a div 16777216 = unat a div 65536 div 256" by (simp add: div_mult2_eq [symmetric])
  then show "unat (ucast (drop_bit 16 a) :: u8) + 256 * unat (ucast (drop_bit 24 a) :: u8) = unat (drop_bit 16 a AND 0xffff)"
    using m [of "unat a div 65536"] by (simp add: u d unat_mask16)
qed

lemma le_bytes_sum: "words_sum (le_bytes a @ bs) = unat (a AND 0xffff) + unat (drop_bit 16 a AND 0xffff) + words_sum bs"
  using unat_bytes [of a] by (simp add: le_bytes_def)

lemma unat_htons: "unat (lwip_htons n) = unat (ucast (drop_bit 8 n) :: u8) + 256 * unat (ucast n :: u8)"
proof -
  have "lwip_htons n = ucast (ucast (ucast (drop_bit 8 n) :: u8) OR push_bit 8 (ucast (ucast n :: u8)) :: u32)"
    by (rule bit_word_eqI) (auto simp: lwip_htons_def bit_PP_HTONS bit_simps add.commute)
  moreover have "unat (ucast (drop_bit 8 n) :: u8) + 256 * unat (ucast n :: u8) < 65536"
    using unat_u8_lt [of "ucast (drop_bit 8 n)"] unat_u8_lt [of "ucast n"] by linarith
  ultimately show ?thesis by (simp add: unat_ucast_u32_u16 unat_word)
qed

lemma pbuf_rfc:
  assumes "chain_ok p"
  shows "inet_chksum_pbuf p = rfc1071 (chain_data p)"
  unfolding inet_chksum_pbuf_def rfc1071_def
  using not_ones [OF unswap_chain [OF assms, of 0]] by simp

lemma pseudo_acc: "unat (pseudo_acc src dest) = ones_sum (words_sum (le_bytes src @ le_bytes dest))"
proof -
  have le: "unat ((u :: u32) AND 0xffff) \<le> 65535" for u by (simp add: unat_mask16 less_Suc_eq_le [symmetric])
  define u where "u = (src AND 0xffff) + (drop_bit 16 src AND 0xffff) + (dest AND 0xffff) + (drop_bit 16 dest AND 0xffff)"
  have "unat u = words_sum (le_bytes src @ le_bytes dest)"
    using le [of src] le [of "drop_bit 16 src"] le [of dest] le [of "drop_bit 16 dest"]
      le_bytes_sum [of src "le_bytes dest"] le_bytes_sum [of dest "[]"]
    by (simp add: u_def unat_word_ariths)
  then show ?thesis unfolding pseudo_acc_def Let_def u_def [symmetric] by (simp add: FOLD_FOLD)
qed

lemma pseudo_rfc:
  assumes "chain_ok p"
  shows "inet_chksum_pseudo p proto proto_len src dest = rfc1071 (pseudo_header proto proto_len src dest @ chain_data p)"
proof -
  let ?A = "words_sum (le_bytes src @ le_bytes dest)" and ?D = "words_sum (chain_data p)"
  let ?h1 = "unat (lwip_htons (ucast proto))" and ?h2 = "unat (lwip_htons proto_len)"
  define u where "u = unswap (chain_sum p (pseudo_acc src dest) False)"
  have u: "unat u = ones_sum (ones_sum ?A + ?D)"
    unfolding u_def using unswap_chain [OF assms, of "pseudo_acc src dest"] by (simp add: pseudo_acc)
  define v where "v = u + ucast (lwip_htons (ucast proto)) + ucast (lwip_htons proto_len)"
  have v: "unat v = ones_sum (ones_sum ?A + ?D) + ?h1 + ?h2"
    unfolding v_def using ones_sum_le [of "ones_sum ?A + ?D"] unat_u16_lt [of "lwip_htons (ucast proto)"] unat_u16_lt [of "lwip_htons proto_len"]
    by (simp add: unat_word_ariths u unat_ucast_u16_u32 del: ones_sum_le unat_u16_lt)
  have "same_sum (unat v) ((?A + ?D) + ?h1 + ?h2)"
    unfolding v
    by (intro same_sum_add same_sum_refl same_sum_trans [OF same_sum_reduced] same_sum_reduced)
  moreover have "words_sum (pseudo_header proto proto_len src dest @ chain_data p) = (?A + ?D) + ?h1 + ?h2"
  proof -
    have "unat (lwip_htons (ucast proto)) = 256 * unat proto"
    proof -
      have "(ucast (drop_bit 8 (ucast proto :: u16)) :: u8) = 0"
        by (rule bit_word_eqI) (auto simp: bit_simps dest: bit_imp_le_length)
      moreover have "(ucast (ucast proto :: u16) :: u8) = proto"
        by (rule bit_word_eqI) (auto simp: bit_simps)
      ultimately show ?thesis by (simp add: unat_htons)
    qed
    then show ?thesis
      using le_bytes_sum [of src "le_bytes dest"] le_bytes_sum [of dest "[]"]
      by (simp add: pseudo_header_def le_bytes_sum unat_htons [of proto_len])
  qed
  ultimately have "unat (FOLD_U32T (FOLD_U32T v)) = ones_sum (words_sum (pseudo_header proto proto_len src dest @ chain_data p))"
    using same_sum_ones by (simp add: FOLD_FOLD)
  then have "(ucast (NOT (FOLD_U32T (FOLD_U32T v) AND 0xffff)) :: u16) =
      rfc1071 (pseudo_header proto proto_len src dest @ chain_data p)"
    unfolding rfc1071_def by (rule not_ones) simp
  then show ?thesis
    by (simp add: inet_chksum_pseudo_def inet_cksum_pseudo_base_def Let_def u_def [symmetric] v_def)
qed

text \<open>C11: The checksums of LwIP are those of RFC 1071: of one buffer at an even or an odd address, of a chain
  of buffers cut anywhere (also at odd places) and lying at any addresses, and with a pseudo header they
  are the checksum of the header's bytes followed by the data.\<close>

theorem chksum_is_rfc1071:
  assumes "chain_ok p" and "length bs \<le> 65535"
  shows "inet_chksum is_odd bs = rfc1071 bs \<and> inet_chksum_pbuf p = rfc1071 (chain_data p) \<and>
    inet_chksum_pseudo p proto proto_len src dest = rfc1071 (pseudo_header proto proto_len src dest @ chain_data p)"
proof -
  have "lwip_standard_chksum is_odd bs = of_nat (ones_sum (words_sum bs))"
    using arg_cong [OF chksum_buffer [OF assms(2), of is_odd], of "of_nat :: nat \<Rightarrow> u16"] by simp
  then show ?thesis using pbuf_rfc [OF assms(1)] pseudo_rfc [OF assms(1)]
    by (simp add: inet_chksum_def rfc1071_def)
qed

lemma chksum_is_rfc1071_witness:
  "inet_chksum_pbuf [(True, [1, 2, 3]), (False, []), (False, [4]), (True, [5])] = rfc1071 [1, 2, 3, 4, 5] \<and>
    rfc1071 [1, 2, 3, 4, 5] = 0xf9f6"
proof -
  have "chain_ok [(True, [1, 2, 3]), (False, []), (False, [4]), (True, [5])]" by (simp add: chain_ok_def)
  from chksum_is_rfc1071 [OF this, of "[]"] show ?thesis
    by (simp add: chain_data_def rfc1071_def ones_sum_def)
qed

text \<open>C15: A receiver that sums the data with the checksum in its place, at an even offset, gets 0: data whose
  checksum field held zero when its checksum was computed verifies, however either side's
  buffers are cut.\<close>

theorem chksum_verifies:
  assumes "chain_ok p" and "chain_ok p'" and "even (length pre)"
    and "chain_data p = pre @ [0, 0] @ post"
    and "chain_data p' = pre @ [ucast (inet_chksum_pbuf p), ucast (drop_bit 8 (inet_chksum_pbuf p))] @ post"
  shows "inet_chksum_pbuf p' = 0"
proof -
  let ?c = "inet_chksum_pbuf p"
  have even_append: "words_sum (xs @ ys) = words_sum xs + words_sum ys" if "even (length xs)" for xs ys
    using that by (induction xs rule: words_sum.induct) auto
  define s where "s = words_sum pre + words_sum post"
  have S: "words_sum (chain_data p) = s" unfolding assms(4) using assms(3) by (simp add: even_append s_def)
  have c: "?c = NOT (of_nat (ones_sum s))" using pbuf_rfc [OF assms(1)] S by (simp add: rfc1071_def)
  have uc: "unat ?c = 65535 - ones_sum s"
  proof -
    have "unat (NOT (w :: u16)) = 65535 - unat w" for w
    proof -
      have "NOT w = - 1 - w" by (simp add: not_eq_complement)
      moreover have "unat (- 1 - w) = unat (- 1 :: u16) - unat w" by (rule unat_sub) (rule word_order.extremum)
      ultimately show ?thesis by (simp add: unsigned_minus_1_eq_mask mask_eq_exp_minus_1)
    qed
    then show ?thesis using ones_sum_le [of s] unfolding c by (simp add: unsigned_of_nat take_bit_nat_eq_self del: ones_sum_le)
  qed
  have field: "unat (ucast ?c :: u8) + 256 * unat (ucast (drop_bit 8 ?c) :: u8) = unat ?c"
  proof -
    have "unat (drop_bit 8 ?c) = unat ?c div 256"
      by (simp only: unsigned_drop_bit_eq) (simp add: drop_bit_eq_div take_bit_nat_eq_self)
    moreover have "unat ?c div 256 < 256" using unat_u16_lt [of ?c] by (simp add: less_mult_imp_div_less del: unat_u16_lt)
    ultimately show ?thesis by (simp add: unat_ucast_u16_u8)
  qed
  have "words_sum (chain_data p') = s + unat ?c"
    unfolding assms(5) using assms(3) field by (simp add: even_append s_def)
  then have "ones_sum (words_sum (chain_data p')) = ones_sum 65535"
  proof -
    have "same_sum (s + unat ?c) (ones_sum s + unat ?c)"
      by (intro same_sum_add same_sum_refl same_sum_sym [OF same_sum_reduced])
    moreover have "ones_sum s + unat ?c = 65535" using uc ones_sum_le [of s] by simp
    ultimately show ?thesis using \<open>words_sum (chain_data p') = s + unat ?c\<close> by (simp only: same_sum_ones)
  qed
  then show ?thesis
    using pbuf_rfc [OF assms(2)] by (simp add: rfc1071_def ones_sum_def)
qed

lemma chksum_verifies_witness:
  "inet_chksum_pbuf [(False, [0x45, 0, 0]), (True, [0x14, 0x7a]), (False, [0xea, 0x40, 1])] = 0"
proof -
  let ?p = "[(False, [0x45, 0, 0, 0x14]), (False, [0, 0, 0x40, 1])]"
  let ?q = "[(False, [0x45, 0, 0]), (True, [0x14, 0x7a]), (False, [0xea, 0x40, 1])]"
  have ok: "chain_ok ?p" "chain_ok ?q" "even (length [0x45, 0, 0, 0x14 :: u8])" by (simp_all add: chain_ok_def)
  have c: "inet_chksum_pbuf ?p = rfc1071 (chain_data ?p)" using ok(1) by (rule pbuf_rfc)
  then have v: "inet_chksum_pbuf ?p = 0xea7a" by (simp add: chain_data_def rfc1071_def ones_sum_def)
  show ?thesis
    by (rule chksum_verifies [OF ok(1,2,3), of "[0x40, 1]"]) (simp_all add: v, simp_all add: chain_data_def)
qed

end
