(* ===== verification/IpAddr.thy ===== *)
theory IpAddr
  imports LwipDef
begin

unbundle bit_operations_syntax

text \<open>
  IPv4 addresses (LwIP/core/ipv4/ip4_addr.c): broadcast addresses, netmasks, and the text of an
  address. An address is the 32-bit word of network order, as it lies in memory on this little-endian
  machine. A text is the list of its characters with the terminating NUL; reading past its end
  is undefined and gives \<open>None\<close>.
\<close>

section \<open>Broadcast addresses and netmasks\<close>

record netif4 =
  flag_broadcast :: bool
  netif_ip4_addr :: u32
  netif_ip4_netmask :: u32

definition ip4_addr_netcmp :: "u32 \<Rightarrow> u32 \<Rightarrow> u32 \<Rightarrow> bool" where
  "ip4_addr_netcmp addr1 addr2 nm \<longleftrightarrow> addr1 AND nm = addr2 AND nm"

definition ip4_addr_isbroadcast_u32 :: "u32 \<Rightarrow> netif4 \<Rightarrow> bool" where
  "ip4_addr_isbroadcast_u32 addr netif =
    (if NOT addr = 0 \<or> addr = 0 then True
     else if \<not> flag_broadcast netif then False
     else if addr = netif_ip4_addr netif then False
     else if ip4_addr_netcmp addr (netif_ip4_addr netif) (netif_ip4_netmask netif) \<and>
        addr AND NOT (netif_ip4_netmask netif) = 0xffffffff AND NOT (netif_ip4_netmask netif) then True
     else False)"

text \<open>The two loops of \<open>ip4_addr_netmask_valid\<close> run a mask from the top bit down to 0.\<close>

function first_zero :: "u32 \<Rightarrow> u32 \<Rightarrow> u32" where
  "first_zero nm mask' = (if mask' = 0 then 0 else if nm AND mask' = 0 then mask' else first_zero nm (drop_bit 1 mask'))"
  by auto

function no_more_ones :: "u32 \<Rightarrow> u32 \<Rightarrow> bool" where
  "no_more_ones nm mask' = (if mask' = 0 then True else if nm AND mask' \<noteq> 0 then False else no_more_ones nm (drop_bit 1 mask'))"
  by auto

lemma unat_shift: "m \<noteq> 0 \<Longrightarrow> unat (drop_bit 1 m :: u32) < unat m"
proof -
  assume "m \<noteq> 0"
  then have "0 < unat m" by (simp add: unat_gt_0)
  moreover have "unat (drop_bit 1 m) = unat m div 2"
    by (simp only: unsigned_drop_bit_eq) (simp add: drop_bit_eq_div take_bit_nat_eq_self)
  ultimately show ?thesis by simp
qed

termination first_zero
  by (relation "measure (\<lambda>(nm, m). unat m)", simp, simp only: in_measure case_prod_conv, rule unat_shift)

termination no_more_ones
  by (relation "measure (\<lambda>(nm, m). unat m)", simp, simp only: in_measure case_prod_conv, rule unat_shift)

declare first_zero.simps [simp del] no_more_ones.simps [simp del]

definition ip4_addr_netmask_valid :: "u32 \<Rightarrow> bool" where
  "ip4_addr_netmask_valid netmask =
    (let nm = lwip_htonl netmask in no_more_ones nm (first_zero nm (push_bit 31 1)))"

section \<open>Reading an address\<close>

definition is_xdigit :: "char \<Rightarrow> bool" where
  "is_xdigit c \<longleftrightarrow> is_digit c \<or> (97 \<le> (of_char c :: nat) \<and> (of_char c :: nat) \<le> 102) \<or> (65 \<le> (of_char c :: nat) \<and> (of_char c :: nat) \<le> 70)"

definition is_lower :: "char \<Rightarrow> bool" where
  "is_lower c \<longleftrightarrow> 97 \<le> (of_char c :: nat) \<and> (of_char c :: nat) \<le> 122"

text \<open>The inner loop: the value so far, modulo the width of the variable, and the text from the first
  character that is no digit.\<close>

fun aton_digits :: "u32 \<Rightarrow> string \<Rightarrow> u32 \<Rightarrow> (u32 \<times> string) option" where
  "aton_digits base [] val = None"
| "aton_digits base (c # cp) val =
    (if is_digit c then aton_digits base cp (val * base + of_nat (of_char c - 48))
     else if base = 16 \<and> is_xdigit c
     then aton_digits base cp (push_bit 4 val OR of_nat (of_char c + 10 - (if is_lower c then 97 else 65)))
     else Some (val, c # cp))"

text \<open>The prefix decides on the base.\<close>

definition aton_base :: "string \<Rightarrow> (u32 \<times> string) option" where
  "aton_base cp =
    (case cp of [] \<Rightarrow> None
     | c # cs \<Rightarrow> if c = CHR ''0'' then
           (case cs of [] \<Rightarrow> None
            | d # ds \<Rightarrow> if d = CHR ''x'' \<or> d = CHR ''X'' then Some (16, ds) else Some (8, cs))
         else Some (10, cp))"

lemma aton_digits_length: "aton_digits base cp val = Some (v, r) \<Longrightarrow> length r \<le> length cp \<and> r \<noteq> []"
  by (induction base cp val rule: aton_digits.induct) (auto split: if_splits)

lemma aton_base_length: "aton_base cp = Some (b, r) \<Longrightarrow> length r \<le> length cp"
  by (auto simp: aton_base_def split: list.splits if_splits)

text \<open>The outer loop collects the parts before the dots. \<open>Some None\<close> is the return of 0.\<close>

function aton_parts :: "string \<Rightarrow> u32 list \<Rightarrow> (u32 list \<times> u32 \<times> string) option option" where
  "aton_parts cp parts =
    (case cp of [] \<Rightarrow> None
     | c # _ \<Rightarrow> if \<not> is_digit c then Some None
       else (case aton_base cp of None \<Rightarrow> None
         | Some (base, cs) \<Rightarrow> (case aton_digits base cs 0 of None \<Rightarrow> None
           | Some (val, r) \<Rightarrow>
               if hd r = CHR ''.''
               then (if 3 \<le> length parts then Some None else aton_parts (tl r) (parts @ [val]))
               else Some (Some (parts, val, r)))))"
  by auto
termination
  by (relation "measure (\<lambda>(cp, ps). length cp)")
    (auto dest!: aton_base_length aton_digits_length simp: neq_Nil_conv)

declare aton_parts.simps [simp del]

text \<open>Putting the parts together.\<close>

definition aton_value :: "u32 list \<Rightarrow> u32 \<Rightarrow> u32 option" where
  "aton_value parts val =
    (case parts of
       [] \<Rightarrow> Some val
     | [p0] \<Rightarrow> if 0xffffff < val \<or> 0xff < p0 then None else Some (val OR push_bit 24 p0)
     | [p0, p1] \<Rightarrow> if 0xffff < val \<or> 0xff < p0 \<or> 0xff < p1 then None
         else Some (val OR (push_bit 24 p0 OR push_bit 16 p1))
     | [p0, p1, p2] \<Rightarrow> if 0xff < val \<or> 0xff < p0 \<or> 0xff < p1 \<or> 0xff < p2 then None
         else Some (val OR ((push_bit 24 p0 OR push_bit 16 p1) OR push_bit 8 p2))
     | _ \<Rightarrow> Some val)"

text \<open>\<open>Some None\<close>: not an address.\<close>

definition ip4addr_aton :: "string \<Rightarrow> u32 option option" where
  "ip4addr_aton cp =
    map_option (\<lambda>r. case r of None \<Rightarrow> None
      | Some (parts, val, rest) \<Rightarrow>
          if hd rest \<noteq> NUL \<and> \<not> is_space (hd rest) then None
          else map_option lwip_htonl (aton_value parts val))
    (aton_parts cp [])"

definition ipaddr_addr :: "string \<Rightarrow> u32 option" where
  "ipaddr_addr cp = map_option (\<lambda>r. case r of Some a \<Rightarrow> a | None \<Rightarrow> 0xffffffff) (ip4addr_aton cp)"

section \<open>Writing an address\<close>

text \<open>The digits of one byte, the last first, as they are put into \<open>inv\<close>.\<close>

function byte_digits :: "u8 \<Rightarrow> string" where
  "byte_digits b = (let r = b mod 10; q = b div 10; d = digit_char (unat r)
     in if q = 0 then [d] else d # byte_digits q)"
  by auto

lemma unat_div_10: "unat (b div 10 :: u8) = unat b div 10" "unat (b mod 10 :: u8) = unat b mod 10"
  by (simp_all add: unat_div unat_mod)

lemma unat_div_less: "b div 10 \<noteq> 0 \<Longrightarrow> unat (b div 10 :: u8) < unat b"
proof -
  assume "b div 10 \<noteq> 0"
  then have "0 < unat (b div 10)" by (simp add: unat_gt_0)
  then show ?thesis by (simp add: unat_div_10)
qed

termination byte_digits
  by (relation "measure unat", simp, simp only: in_measure, rule unat_div_less)

declare byte_digits.simps [simp del]

text \<open>Writing characters as long as there is room: the count of characters and what is written;
  \<open>Inl\<close> when the room ends.\<close>

fun put_chars :: "int \<Rightarrow> string \<Rightarrow> string \<Rightarrow> string + string" where
  "put_chars buflen [] out = Inr out"
| "put_chars buflen (c # cs) out =
    (if buflen \<le> int (length out) then Inl out else put_chars buflen cs (out @ [c]))"

fun put_bytes :: "int \<Rightarrow> u8 list \<Rightarrow> string \<Rightarrow> string + string" where
  "put_bytes buflen [] out = Inr out"
| "put_bytes buflen (b # bs) out =
    (case put_chars buflen (rev (byte_digits b) @ ''.'') out of
       Inl out \<Rightarrow> Inl out | Inr out \<Rightarrow> put_bytes buflen bs out)"

definition addr_bytes :: "u32 \<Rightarrow> u8 list" where
  "addr_bytes a = [ucast a, ucast (drop_bit 8 a), ucast (drop_bit 16 a), ucast (drop_bit 24 a)]"

text \<open>The result says whether the pointer to the buffer is returned (NULL otherwise); the NUL
  replaces the last dot.\<close>

definition ip4addr_ntoa_r :: "u32 \<Rightarrow> string \<Rightarrow> int \<Rightarrow> bool \<times> string" where
  "ip4addr_ntoa_r addr buf buflen =
    (case put_bytes buflen (addr_bytes addr) [] of
       Inl out \<Rightarrow> (False, out @ drop (length out) buf)
     | Inr out \<Rightarrow> (True, butlast out @ NUL # drop (length out) buf))"

definition IP4ADDR_STRLEN_MAX :: nat where "IP4ADDR_STRLEN_MAX = 16"

definition ip4addr_ntoa :: "u32 \<Rightarrow> string \<Rightarrow> bool \<times> string" where
  "ip4addr_ntoa addr str = ip4addr_ntoa_r addr str (int IP4ADDR_STRLEN_MAX)"

section \<open>Netmasks\<close>

lemma and_bit: "nm AND push_bit i 1 \<noteq> 0 \<longleftrightarrow> bit (nm :: u32) i"
  by (simp add: bit_iff_and_push_bit_not_eq_0)

lemma bit_steps:
  "drop_bit 1 (push_bit (Suc i) 1 :: u32) = (if Suc i < 32 then push_bit i 1 else 0)"
  "drop_bit 1 (push_bit 0 1 :: u32) = 0"
  by (rule bit_word_eqI, auto simp: bit_simps)+

lemma push_bit_nz: "i < 32 \<Longrightarrow> push_bit i (1 :: u32) \<noteq> 0"
proof
  assume i: "i < 32" and "push_bit i (1 :: u32) = 0"
  then have "bit (push_bit i (1 :: u32)) i = bit (0 :: u32) i" by simp
  then show False using i by (simp add: bit_exp_iff)
qed

lemma no_more_ones_iff: "i < 32 \<Longrightarrow> no_more_ones nm (push_bit i 1) \<longleftrightarrow> (\<forall>j \<le> i. \<not> bit nm j)"
proof (induction i)
  case 0
  then show ?case using push_bit_nz [of 0] and_bit [of nm 0] bit_steps(2)
    by (subst no_more_ones.simps) (auto simp: no_more_ones.simps [of nm 0])
next
  case (Suc i)
  then show ?case using push_bit_nz [of "Suc i"] and_bit [of nm "Suc i"] bit_steps(1) [of i]
    by (subst no_more_ones.simps) (auto simp: le_Suc_eq)
qed

lemma first_zero_all: "i < 32 \<Longrightarrow> \<forall>j \<le> i. bit nm j \<Longrightarrow> first_zero nm (push_bit i 1) = 0"
proof (induction i)
  case 0
  then show ?case using push_bit_nz [of 0] and_bit [of nm 0] bit_steps(2)
    by (subst first_zero.simps) (auto simp: first_zero.simps [of nm 0])
next
  case (Suc i)
  then show ?case using push_bit_nz [of "Suc i"] and_bit [of nm "Suc i"] bit_steps(1) [of i]
    by (subst first_zero.simps) (auto simp: le_Suc_eq)
qed

lemma first_zero_at: "i < 32 \<Longrightarrow> j \<le> i \<Longrightarrow> \<not> bit nm j \<Longrightarrow> \<forall>k. j < k \<and> k \<le> i \<longrightarrow> bit nm k \<Longrightarrow>
    first_zero nm (push_bit i 1) = push_bit j 1"
proof (induction i)
  case 0
  then show ?case using push_bit_nz [of 0] and_bit [of nm 0]
    by (subst first_zero.simps) auto
next
  case (Suc i)
  then show ?case using push_bit_nz [of "Suc i"] and_bit [of nm "Suc i"] bit_steps(1) [of i]
    by (subst first_zero.simps) (cases "j = Suc i"; auto simp: le_Suc_eq)
qed

text \<open>A netmask is accepted exactly when it is a run of ones followed by zeros, from the highest bit of
  the number in host order; both loops of the test end.\<close>

theorem netmask_valid_iff:
  "ip4_addr_netmask_valid netmask \<longleftrightarrow> (\<exists>k \<le> 32. \<forall>j < 32. bit (lwip_htonl netmask) j \<longleftrightarrow> k \<le> j)"
proof -
  define nm where "nm = lwip_htonl netmask"
  have "no_more_ones nm (first_zero nm (push_bit 31 1)) \<longleftrightarrow> (\<exists>k \<le> 32. \<forall>j < 32. bit nm j \<longleftrightarrow> k \<le> j)"
  proof (cases "\<forall>j \<le> 31. bit nm j")
    case True
    then have "no_more_ones nm (first_zero nm (push_bit 31 1))"
      using first_zero_all [of 31 nm] by (simp add: no_more_ones.simps [of nm 0])
    moreover have "\<forall>j < 32. bit nm j \<longleftrightarrow> 0 \<le> j" using True by auto
    ultimately show ?thesis by blast
  next
    case False
    define j where "j = Max {j. j \<le> 31 \<and> \<not> bit nm j}"
    have fin: "finite {j. j \<le> 31 \<and> \<not> bit nm j}" by simp
    have ne: "{j. j \<le> 31 \<and> \<not> bit nm j} \<noteq> {}" using False by auto
    have j: "j \<le> 31" "\<not> bit nm j" using Max_in [OF fin ne] by (auto simp: j_def)
    have above: "bit nm k" if "j < k" "k \<le> 31" for k
    proof (rule ccontr)
      assume "\<not> bit nm k"
      then have "k \<le> j" using Max_ge [OF fin, of k] that(2) by (simp add: j_def)
      then show False using that(1) by simp
    qed
    have v: "no_more_ones nm (first_zero nm (push_bit 31 1)) \<longleftrightarrow> (\<forall>k \<le> j. \<not> bit nm k)"
      using first_zero_at [of 31 j nm] no_more_ones_iff [of j nm] j above by simp
    show ?thesis unfolding v
    proof
      assume none: "\<forall>k \<le> j. \<not> bit nm k"
      have "\<forall>i < 32. bit nm i \<longleftrightarrow> Suc j \<le> i" 
      proof (intro allI impI)
        fix i :: nat assume "i < 32"
        then show "bit nm i \<longleftrightarrow> Suc j \<le> i" using none above [of i] by (cases "j < i") auto
      qed
      then show "\<exists>k \<le> 32. \<forall>i < 32. bit nm i \<longleftrightarrow> k \<le> i" using j(1) by (intro exI [of _ "Suc j"]) simp
    next
      assume "\<exists>k \<le> 32. \<forall>i < 32. bit nm i \<longleftrightarrow> k \<le> i"
      then obtain k where k: "\<forall>i < 32. bit nm i \<longleftrightarrow> k \<le> i" by blast
      then have "j < k" using j by auto
      then show "\<forall>i \<le> j. \<not> bit nm i" using k j(1) by auto
    qed
  qed
  then show ?thesis by (simp add: ip4_addr_netmask_valid_def nm_def)
qed

section \<open>The text of an address\<close>

lemma rev_byte_digits: "rev (byte_digits b) = show_nat (unat b)"
proof (induction b rule: byte_digits.induct)
  case (1 b)
  have q0: "b div 10 = 0 \<longleftrightarrow> unat b < 10"
  proof -
    have "b div 10 = 0 \<longleftrightarrow> unat (b div 10) = 0" by (simp add: unat_eq_zero)
    then show ?thesis by (simp add: unat_div_10 div_eq_0_iff)
  qed
  show ?case
  proof (cases "b div 10 = 0")
    case True
    then have "unat b < 10" using q0 by simp
    then show ?thesis using True
      by (subst byte_digits.simps, subst show_nat.simps) (simp add: Let_def unat_div_10)
  next
    case False
    then have IH: "rev (byte_digits (b div 10)) = show_nat (unat b div 10)"
      using "1" [OF refl refl refl] by (simp add: unat_div_10)
    have "\<not> unat b < 10" using False q0 by simp
    then show ?thesis using False IH
      by (subst byte_digits.simps, subst show_nat.simps) (simp add: Let_def unat_div_10)
  qed
qed

lemma put_chars_spec:
  "put_chars buflen cs out = (if int (length out + length cs) \<le> buflen \<or> cs = [] then Inr (out @ cs)
     else Inl (out @ take (nat buflen - length out) cs))"
proof (induction buflen cs out rule: put_chars.induct)
  case (2 buflen c cs out)
  show ?case
  proof (cases "buflen \<le> int (length out)")
    case True
    then show ?thesis by simp
  next
    case False
    then have "nat buflen - length out = Suc (nat buflen - length (out @ [c]))" by simp
    then show ?thesis using 2 False by auto
  qed
qed simp

definition dotted :: "u8 list \<Rightarrow> string" where
  "dotted bs = concat (map (\<lambda>b. show_nat (unat b) @ ''.'') bs)"

lemma put_bytes_spec:
  "put_bytes buflen bs out = Inr (out @ dotted bs) \<and> (int (length (out @ dotted bs)) \<le> buflen \<or> bs = []) \<or>
   (\<exists>out'. put_bytes buflen bs out = Inl out' \<and> buflen < int (length (out @ dotted bs)))"
proof (induction bs arbitrary: out)
  case Nil
  then show ?case by (simp add: dotted_def)
next
  case (Cons b bs)
  let ?c = "show_nat (unat b) @ ''.''"
  show ?case
  proof (cases "int (length out + length ?c) \<le> buflen")
    case True
    then have "put_bytes buflen (b # bs) out = put_bytes buflen bs (out @ ?c)"
      by (simp add: rev_byte_digits put_chars_spec)
    then show ?thesis using Cons [of "out @ ?c"] True by (auto simp: dotted_def)
  next
    case False
    then show ?thesis by (simp add: rev_byte_digits put_chars_spec dotted_def)
  qed
qed

text \<open>The text without the last dot.\<close>

definition addr_text :: "u32 \<Rightarrow> string" where
  "addr_text a = butlast (dotted (addr_bytes a))"

lemma dotted_text: "dotted (addr_bytes a) = addr_text a @ ''.''"
  by (simp add: addr_text_def dotted_def addr_bytes_def butlast_append)

lemma length_show_byte: "length (show_nat (unat (b :: u8))) \<le> 3"
proof -
  have "unat b < 256" by simp
  moreover have "n < 256 \<Longrightarrow> length (show_nat n) \<le> 3" for n
    by (subst show_nat.simps, auto, subst show_nat.simps, auto, subst show_nat.simps, auto)
  ultimately show ?thesis by blast
qed

lemma addr_text_length: "length (addr_text a) \<le> 15"
proof -
  have "length (dotted (addr_bytes a)) \<le> 16"
    using length_show_byte [of "ucast a"] length_show_byte [of "ucast (drop_bit 8 a)"]
      length_show_byte [of "ucast (drop_bit 16 a)"] length_show_byte [of "ucast (drop_bit 24 a)"]
    by (simp add: dotted_def addr_bytes_def)
  then show ?thesis unfolding dotted_text by simp
qed

lemma ntoa_spec:
  "(int (length (addr_text a)) < buflen \<longrightarrow>
      ip4addr_ntoa_r a buf buflen = (True, addr_text a @ NUL # drop (Suc (length (addr_text a))) buf)) \<and>
   (buflen \<le> int (length (addr_text a)) \<longrightarrow> \<not> fst (ip4addr_ntoa_r a buf buflen))"
  using put_bytes_spec [of buflen "addr_bytes a" "[]"] unfolding dotted_text
  by (auto simp: ip4addr_ntoa_r_def addr_bytes_def)

section \<open>Reading it back\<close>

lemma aton_digits_decimal:
  assumes "\<forall>c \<in> set ds. is_digit c" and "\<not> is_digit d"
  shows "aton_digits 10 (ds @ d # r) (of_nat acc) = Some (of_nat (foldl (\<lambda>a c. a * 10 + digit_val c) acc ds), d # r)"
  using assms(1)
proof (induction ds arbitrary: acc)
  case Nil
  then show ?case using assms(2) by simp
next
  case (Cons c ds)
  have "of_nat acc * 10 + of_nat (of_char c - 48) = (of_nat (acc * 10 + digit_val c) :: u32)"
    by (simp add: digit_val_def)
  then show ?case using Cons.IH [of "acc * 10 + digit_val c"] Cons.prems
    by (simp del: of_nat_add of_nat_mult)
qed

lemma hd_show_nat: "hd (show_nat n) = CHR ''0'' \<Longrightarrow> n = 0"
proof (induction n rule: show_nat.induct)
  case (1 n)
  show ?case
  proof (cases "n < 10")
    case True
    then have "digit_char n = CHR ''0''" using "1.prems" by (simp add: show_nat.simps [of n])
    then have "(of_char (digit_char n) :: nat) = of_char CHR ''0''" by simp
    then show ?thesis using True by (simp add: digit_char_def)
  next
    case False
    then show ?thesis using "1" by (simp add: show_nat.simps [of n])
  qed
qed

lemma digit_char_0: "digit_char 0 = CHR ''0''"
  by (rule of_char_eq_iff [where 'a = nat, THEN iffD1]) (simp add: digit_char_def)

lemma aton_parts_step:
  assumes "\<not> is_digit d" and "d \<noteq> CHR ''x''" and "d \<noteq> CHR ''X''"
  shows "aton_parts (show_nat n @ d # r) parts =
    (if d = CHR ''.'' then (if 3 \<le> length parts then Some None else aton_parts r (parts @ [of_nat n]))
     else Some (Some (parts, of_nat n, d # r)))"
proof -
  obtain c cs where s: "show_nat n = c # cs" by (cases "show_nat n") auto
  have c: "is_digit c" using show_nat_digits [of n] s by simp
  obtain base t where b: "aton_base (show_nat n @ d # r) = Some (base, t)"
    "aton_digits base t 0 = Some (of_nat n, d # r)"
  proof (cases "c = CHR ''0''")
    case True
    then have "n = 0" using hd_show_nat [of n] s by simp
    then have "show_nat n = ''0''" by (simp add: show_nat.simps [of 0] digit_char_0)
    then show thesis using assms \<open>n = 0\<close> by (intro that [of 8 "d # r"]) (auto simp: aton_base_def)
  next
    case False
    then have "aton_base (show_nat n @ d # r) = Some (10, show_nat n @ d # r)" by (simp add: aton_base_def s)
    moreover have "aton_digits 10 (show_nat n @ d # r) (of_nat 0) = Some (of_nat n, d # r)"
      using aton_digits_decimal [OF show_nat_digits assms(1), of n r 0] by (simp add: show_nat_value)
    ultimately show thesis using that by simp
  qed
  show ?thesis using c b by (subst aton_parts.simps) (simp add: s)
qed

lemma aton_addr_text: "ip4addr_aton (addr_text a @ NUL # r) = Some (Some a)"
proof -
  let ?b = "\<lambda>k. ucast (drop_bit (8 * k) a) :: u8"
  let ?p = "\<lambda>k. of_nat (unat (?b k)) :: u32"
  have t: "addr_text a @ NUL # r = show_nat (unat (?b 0)) @ CHR ''.'' # (show_nat (unat (?b 1)) @ CHR ''.'' #
      (show_nat (unat (?b 2)) @ CHR ''.'' # (show_nat (unat (?b 3)) @ NUL # r)))"
    by (simp add: addr_text_def dotted_def addr_bytes_def butlast_append)
  have nd: "\<not> is_digit (CHR ''.'')" "\<not> is_digit NUL" by (simp_all add: is_digit_def)
  have parts: "aton_parts (addr_text a @ NUL # r) [] = Some (Some ([?p 0, ?p 1, ?p 2], ?p 3, NUL # r))"
    unfolding t using nd by (simp add: aton_parts_step del: One_nat_def)
  have le: "\<not> 0xff < ?p k" for k
  proof -
    have b: "unat (?b k) < 256" by simp
    then have "unat (?p k) = unat (?b k)" by (intro unat_of_nat_u32) linarith
    moreover have "\<not> 255 < unat (?b k)" using b by linarith
    ultimately show ?thesis by (simp only: word_less_nat_alt) simp
  qed
  have uc: "?p k = ucast (?b k)" for k by simp
  define v where "v = ?p 3 OR ((push_bit 24 (?p 0) OR push_bit 16 (?p 1)) OR push_bit 8 (?p 2))"
  have "aton_value [?p 0, ?p 1, ?p 2] (?p 3) = Some v"
    using le [of 0] le [of 1] le [of 2] le [of 3] unfolding aton_value_def v_def by simp
  moreover have "lwip_htonl v = a"
  proof (rule bit_word_eqI)
    fix n assume "n < LENGTH(32)"
    then have n: "n < 32" by simp
    have bv: "bit v n = (if n < 8 then bit a (24 + n) else if n < 16 then bit a (8 + n)
        else if n < 24 then bit a (n - 8) else bit a (n - 24))" if "n < 32" for n
      using that unfolding v_def uc
      by (auto simp: bit_simps dest: bit_imp_le_length)
    show "bit (lwip_htonl v) n = bit a n"
      using n unfolding lwip_htonl_def bit_PP_HTONL [OF n]
      by (auto simp: bv)
  qed
  ultimately show ?thesis unfolding ip4addr_aton_def parts by simp
qed

lemma takeWhile_NUL: "NUL \<notin> set s \<Longrightarrow> takeWhile (\<lambda>c. c \<noteq> NUL) (s @ NUL # r) = s"
  by (induction s) auto

text \<open>C33: Printing an address and reading the text gives the address back, for every address and
  whatever stood in the buffer; printing succeeds exactly when the text and its end fit the given
  length, which 16 characters always do.\<close>

theorem aton_ntoa:
  assumes "16 \<le> buflen"
  shows "\<exists>out. ip4addr_ntoa_r a buf buflen = (True, out) \<and> ip4addr_aton out = Some (Some a) \<and>
    (\<forall>b. fst (ip4addr_ntoa_r a buf b) \<longleftrightarrow> int (length (takeWhile (\<lambda>c. c \<noteq> NUL) out)) < b)"
proof -
  have len: "int (length (addr_text a)) < buflen" using addr_text_length [of a] assms by linarith
  have noNUL: "NUL \<notin> set (addr_text a)"
  proof -
    have "NUL \<notin> set (dotted (addr_bytes a))" by (simp add: dotted_def addr_bytes_def)
    then show ?thesis unfolding dotted_text by simp
  qed
  have tw: "takeWhile (\<lambda>c. c \<noteq> NUL) (addr_text a @ NUL # r) = addr_text a" for r
    using noNUL by (rule takeWhile_NUL)
  define out where "out = addr_text a @ NUL # drop (Suc (length (addr_text a))) buf"
  have o: "ip4addr_ntoa_r a buf buflen = (True, out)"
    using ntoa_spec [of a buflen buf] len by (simp add: out_def)
  have "fst (ip4addr_ntoa_r a buf b) \<longleftrightarrow> int (length (addr_text a)) < b" for b
    using ntoa_spec [of a b buf] by (cases "int (length (addr_text a)) < b") auto
  moreover have "takeWhile (\<lambda>c. c \<noteq> NUL) out = addr_text a" by (simp only: out_def tw)
  moreover have "ip4addr_aton out = Some (Some a)" unfolding out_def by (rule aton_addr_text)
  ultimately show ?thesis using o by simp
qed

lemma aton_ntoa_witness:
  "\<exists>out. ip4addr_ntoa_r 0x0100a8c0 (replicate 16 (CHR ''#'')) 16 = (True, out) \<and> ip4addr_aton out = Some (Some 0x0100a8c0)"
  using aton_ntoa [of 16 "0x0100a8c0" "replicate 16 (CHR ''#'')"] by auto

text \<open>The parts of a text are read modulo the width of the variable, and an octal part may hold the
  digits 8 and 9: both texts are read as 1.2.3.9.\<close>

lemma aton_wraps:
  "ip4addr_aton (''1.2.3.4294967305'' @ [NUL]) = Some (Some 0x09030201)"
  "ip4addr_aton (''1.2.3.09'' @ [NUL]) = Some (Some 0x09030201)"
  by code_simp+

end
