(* ===== verification/Clock.thy ===== *)
theory Clock
  imports InputExti HalDef
begin

unbundle bit_operations_syntax

text \<open>
  The clocks (stm32f4xx_hal_rcc.c, stm32f4xx_hal.c, system_stm32f4xx.c and SystemClock_Config of
  board.c) on the registers of RCC, PWR, FLASH and SysTick. The driver polls ready flags against the
  tick counter. The hardware between two reads of a polling loop is a list of functions on the
  registers: each read takes one; a loop that is still polling when the list ends gives \<open>None\<close>.
  \<open>assert_param\<close> is empty in this configuration (no USE_FULL_ASSERT). The vector \<open>IRQn\<close> -1 of
  SysTick has its priority in a field of its own.
\<close>

section \<open>Registers and constants\<close>

record clk =
  RCC_CR :: u32
  PLLCFGR :: u32
  CFGR :: u32
  CIR :: u32
  APB1ENR :: u32
  AHB1ENR :: u32
  BDCR :: u32
  CSR :: u32
  PWR_CR :: u32
  FLASH_ACR :: u32
  CPACR :: u32
  VTOR :: u32
  SysTick_LOAD :: u32
  SysTick_VAL :: u32
  SysTick_CTRL :: u32
  SHP_SysTick :: u8
  clk_nvic :: nvic
  uwTick :: u32
  uwTickPrio :: u32
  uwTickFreq :: u32
  SystemCoreClock :: u32

definition MODIFY_REG :: "u32 \<Rightarrow> u32 \<Rightarrow> u32 \<Rightarrow> u32" where
  "MODIFY_REG reg clear set' = reg AND NOT clear OR set'"

definition HSE_VALUE :: u32 where "HSE_VALUE = 25000000"
definition HSI_VALUE :: u32 where "HSI_VALUE = 16000000"
definition RCC_CR_HSION :: u32 where "RCC_CR_HSION = 0x1"
definition RCC_CR_HSIRDY :: u32 where "RCC_CR_HSIRDY = 0x2"
definition RCC_CR_HSITRIM :: u32 where "RCC_CR_HSITRIM = 0xF8"
definition RCC_CR_HSEON :: u32 where "RCC_CR_HSEON = 0x10000"
definition RCC_CR_HSERDY :: u32 where "RCC_CR_HSERDY = 0x20000"
definition RCC_CR_HSEBYP :: u32 where "RCC_CR_HSEBYP = 0x40000"
definition RCC_CR_PLLON :: u32 where "RCC_CR_PLLON = 0x1000000"
definition RCC_CR_PLLRDY :: u32 where "RCC_CR_PLLRDY = 0x2000000"
definition RCC_CFGR_SW :: u32 where "RCC_CFGR_SW = 0x3"
definition RCC_CFGR_SWS :: u32 where "RCC_CFGR_SWS = 0xC"
definition RCC_CFGR_SWS_HSI :: u32 where "RCC_CFGR_SWS_HSI = 0"
definition RCC_CFGR_SWS_HSE :: u32 where "RCC_CFGR_SWS_HSE = 4"
definition RCC_CFGR_SWS_PLL :: u32 where "RCC_CFGR_SWS_PLL = 8"
definition RCC_CFGR_HPRE :: u32 where "RCC_CFGR_HPRE = 0xF0"
definition RCC_CFGR_PPRE1 :: u32 where "RCC_CFGR_PPRE1 = 0x1C00"
definition RCC_CFGR_PPRE2 :: u32 where "RCC_CFGR_PPRE2 = 0xE000"
definition RCC_PLLCFGR_PLLM :: u32 where "RCC_PLLCFGR_PLLM = 0x3F"
definition RCC_PLLCFGR_PLLN :: u32 where "RCC_PLLCFGR_PLLN = 0x7FC0"
definition RCC_PLLCFGR_PLLP :: u32 where "RCC_PLLCFGR_PLLP = 0x30000"
definition RCC_PLLCFGR_PLLSRC :: u32 where "RCC_PLLCFGR_PLLSRC = 0x400000"
definition RCC_BDCR_LSEON :: u32 where "RCC_BDCR_LSEON = 1"
definition RCC_BDCR_LSERDY :: u32 where "RCC_BDCR_LSERDY = 2"
definition RCC_BDCR_LSEBYP :: u32 where "RCC_BDCR_LSEBYP = 4"
definition RCC_CSR_LSION :: u32 where "RCC_CSR_LSION = 1"
definition RCC_CSR_LSIRDY :: u32 where "RCC_CSR_LSIRDY = 2"
definition RCC_APB1ENR_PWREN :: u32 where "RCC_APB1ENR_PWREN = 0x10000000"
definition PWR_CR_DBP :: u32 where "PWR_CR_DBP = 0x100"
definition PWR_CR_VOS :: u32 where "PWR_CR_VOS = 0x4000"
definition FLASH_ACR_LATENCY :: u32 where "FLASH_ACR_LATENCY = 0xF"
definition RCC_HSE_OFF :: u32 where "RCC_HSE_OFF = 0"
definition RCC_HSE_ON :: u32 where "RCC_HSE_ON = 0x10000"
definition RCC_HSE_BYPASS :: u32 where "RCC_HSE_BYPASS = 0x50000"
definition RCC_LSE_OFF :: u32 where "RCC_LSE_OFF = 0"
definition RCC_LSE_ON :: u32 where "RCC_LSE_ON = 1"
definition RCC_LSE_BYPASS :: u32 where "RCC_LSE_BYPASS = 5"
definition RCC_PLL_NONE :: u32 where "RCC_PLL_NONE = 0"
definition RCC_PLL_OFF :: u32 where "RCC_PLL_OFF = 1"
definition RCC_PLL_ON :: u32 where "RCC_PLL_ON = 2"
definition RCC_HCLK_DIV2 :: u32 where "RCC_HCLK_DIV2 = 0x1000"
definition RCC_HCLK_DIV4 :: u32 where "RCC_HCLK_DIV4 = 0x1400"
definition RCC_HCLK_DIV16 :: u32 where "RCC_HCLK_DIV16 = 0x1C00"
definition SysTick_LOAD_RELOAD_Msk :: u32 where "SysTick_LOAD_RELOAD_Msk = 0xFFFFFF"
definition SYSTICK_CLKSOURCE_HCLK :: u32 where "SYSTICK_CLKSOURCE_HCLK = 4"

definition AHBPrescTable :: "nat list" where
  "AHBPrescTable = [0, 0, 0, 0, 0, 0, 0, 0, 1, 2, 3, 4, 6, 7, 8, 9]"

definition APBPrescTable :: "nat list" where
  "APBPrescTable = [0, 0, 0, 0, 1, 2, 3, 4]"

lemmas clk_consts = HSE_VALUE_def HSI_VALUE_def RCC_CR_HSION_def RCC_CR_HSIRDY_def RCC_CR_HSITRIM_def
  RCC_CR_HSEON_def RCC_CR_HSERDY_def RCC_CR_HSEBYP_def RCC_CR_PLLON_def RCC_CR_PLLRDY_def RCC_CFGR_SW_def
  RCC_CFGR_SWS_def RCC_CFGR_SWS_HSI_def RCC_CFGR_SWS_HSE_def RCC_CFGR_SWS_PLL_def RCC_CFGR_HPRE_def
  RCC_CFGR_PPRE1_def RCC_CFGR_PPRE2_def RCC_PLLCFGR_PLLM_def RCC_PLLCFGR_PLLN_def RCC_PLLCFGR_PLLP_def
  RCC_PLLCFGR_PLLSRC_def RCC_HSE_OFF_def RCC_HSE_ON_def RCC_HSE_BYPASS_def
  RCC_PLL_NONE_def RCC_PLL_OFF_def RCC_PLL_ON_def RCC_HCLK_DIV2_def
  RCC_HCLK_DIV4_def RCC_HCLK_DIV16_def SysTick_LOAD_RELOAD_Msk_def SYSTICK_CLKSOURCE_HCLK_def FLASH_ACR_LATENCY_def

section \<open>The tick\<close>

definition HAL_GetTick :: "clk \<Rightarrow> u32" where
  "HAL_GetTick s = uwTick s"

definition HAL_IncTick :: "clk \<Rightarrow> clk" where
  "HAL_IncTick s = s\<lparr>uwTick := uwTick s + uwTickFreq s\<rparr>"

text \<open>\<open>NVIC_SetPriority (SysTick_IRQn, priority)\<close>.\<close>

definition set_SysTick_priority :: "u32 \<Rightarrow> clk \<Rightarrow> clk" where
  "set_SysTick_priority priority s =
    s\<lparr>SHP_SysTick := ucast (push_bit (8 - NVIC_PRIO_BITS) priority AND 0xFF)\<rparr>"

definition HAL_NVIC_SetPriority_SysTick :: "u32 \<Rightarrow> u32 \<Rightarrow> clk \<Rightarrow> clk" where
  "HAL_NVIC_SetPriority_SysTick pre sub s =
    set_SysTick_priority (NVIC_EncodePriority (PRIGROUP (clk_nvic s)) pre sub) s"

definition SysTick_Config :: "u32 \<Rightarrow> clk \<Rightarrow> u32 \<times> clk" where
  "SysTick_Config n s =
    (if SysTick_LOAD_RELOAD_Msk < n - 1 then (1, s)
     else
       let s = s\<lparr>SysTick_LOAD := n - 1\<rparr>;
           s = set_SysTick_priority (push_bit NVIC_PRIO_BITS 1 - 1) s;
           s = s\<lparr>SysTick_VAL := 0\<rparr>
       in (0, s\<lparr>SysTick_CTRL := 4 OR 2 OR 1\<rparr>))"

definition HAL_SYSTICK_Config :: "u32 \<Rightarrow> clk \<Rightarrow> u32 \<times> clk" where
  "HAL_SYSTICK_Config TicksNumb = SysTick_Config TicksNumb"

definition HAL_SYSTICK_CLKSourceConfig :: "u32 \<Rightarrow> clk \<Rightarrow> clk" where
  "HAL_SYSTICK_CLKSourceConfig CLKSource s =
    (if CLKSource = SYSTICK_CLKSOURCE_HCLK
     then s\<lparr>SysTick_CTRL := SysTick_CTRL s OR SYSTICK_CLKSOURCE_HCLK\<rparr>
     else s\<lparr>SysTick_CTRL := SysTick_CTRL s AND NOT SYSTICK_CLKSOURCE_HCLK\<rparr>)"

text \<open>The divisor is 1000 divided by 1, 10 or 100.\<close>

definition HAL_InitTick :: "u32 \<Rightarrow> clk \<Rightarrow> HAL_StatusTypeDef \<times> clk" where
  "HAL_InitTick TickPriority s =
    (let (r, s) = HAL_SYSTICK_Config (SystemCoreClock s div (1000 div uwTickFreq s)) s
     in if 0 < r then (HAL_ERROR, s)
        else if TickPriority < push_bit NVIC_PRIO_BITS 1
        then (HAL_OK, (HAL_NVIC_SetPriority_SysTick TickPriority 0 s)\<lparr>uwTickPrio := TickPriority\<rparr>)
        else (HAL_ERROR, s))"

definition HAL_SetTickFreq :: "u32 \<Rightarrow> clk \<Rightarrow> HAL_StatusTypeDef \<times> clk" where
  "HAL_SetTickFreq Freq s =
    (if uwTickFreq s \<noteq> Freq then HAL_InitTick (uwTickPrio s) (s\<lparr>uwTickFreq := Freq\<rparr>) else (HAL_OK, s))"

definition HAL_Init :: "clk \<Rightarrow> HAL_StatusTypeDef \<times> clk" where
  "HAL_Init s =
    (let s = s\<lparr>FLASH_ACR := FLASH_ACR s OR 0x200\<rparr>;
         s = s\<lparr>FLASH_ACR := FLASH_ACR s OR 0x400\<rparr>;
         s = s\<lparr>clk_nvic := (clk_nvic s)\<lparr>PRIGROUP := 3 AND 7\<rparr>\<rparr>
     in (HAL_OK, snd (HAL_InitTick 15 s)))"

section \<open>Polling\<close>

type_synonym hw_steps = "(clk \<Rightarrow> clk) list"
type_synonym rcc_result = "(HAL_StatusTypeDef \<times> hw_steps \<times> clk) option"

fun poll :: "(clk \<Rightarrow> bool) \<Rightarrow> u32 \<Rightarrow> u32 \<Rightarrow> hw_steps \<Rightarrow> clk \<Rightarrow> rcc_result" where
  "poll done' tickstart timeout [] s = None"
| "poll done' tickstart timeout (e # es) s =
    (let s = e s
     in if done' s then Some (HAL_OK, es, s)
        else (case es of [] \<Rightarrow> None
          | e' # es \<Rightarrow> let s = e' s
              in if timeout < HAL_GetTick s - tickstart then Some (HAL_TIMEOUT, es, s)
                 else poll done' tickstart timeout es s))"

definition wait_for :: "(clk \<Rightarrow> bool) \<Rightarrow> u32 \<Rightarrow> hw_steps \<Rightarrow> clk \<Rightarrow> rcc_result" where
  "wait_for done' timeout es s = poll done' (HAL_GetTick s) timeout es s"

text \<open>Going on unless the function has returned.\<close>

definition then_do :: "rcc_result \<Rightarrow> (hw_steps \<Rightarrow> clk \<Rightarrow> rcc_result) \<Rightarrow> rcc_result" where
  "then_do r f = (case r of Some (HAL_OK, es, s) \<Rightarrow> f es s | _ \<Rightarrow> r)"

definition HAL_MAX_DELAY :: u32 where "HAL_MAX_DELAY = 0xFFFFFFFF"

fun delay_loop :: "u32 \<Rightarrow> u32 \<Rightarrow> hw_steps \<Rightarrow> clk \<Rightarrow> (hw_steps \<times> clk) option" where
  "delay_loop tickstart wait [] s = None"
| "delay_loop tickstart wait (e # es) s =
    (let s = e s in if HAL_GetTick s - tickstart < wait then delay_loop tickstart wait es s else Some (es, s))"

definition HAL_Delay :: "u32 \<Rightarrow> hw_steps \<Rightarrow> clk \<Rightarrow> (hw_steps \<times> clk) option" where
  "HAL_Delay Delay es s =
    (let tickstart = HAL_GetTick s; wait = Delay;
         wait = (if wait < HAL_MAX_DELAY then wait + uwTickFreq s else wait)
     in delay_loop tickstart wait es s)"

section \<open>The oscillators\<close>

record RCC_PLLInitTypeDef =
  PLLState :: u32
  PLLSource :: u32
  PLLM :: u32
  PLLN :: u32
  PLLP :: u32
  PLLQ :: u32

record RCC_OscInitTypeDef =
  OscillatorType :: u32
  HSEState :: u32
  LSEState :: u32
  HSIState :: u32
  HSICalibrationValue :: u32
  LSIState :: u32
  PLL :: RCC_PLLInitTypeDef

record RCC_ClkInitTypeDef =
  ClockType :: u32
  SYSCLKSource :: u32
  AHBCLKDivider :: u32
  APB1CLKDivider :: u32
  APB2CLKDivider :: u32

definition HAL_RCC_HSE_CONFIG :: "u32 \<Rightarrow> clk \<Rightarrow> clk" where
  "HAL_RCC_HSE_CONFIG st s =
    (if st = RCC_HSE_ON then s\<lparr>RCC_CR := RCC_CR s OR RCC_CR_HSEON\<rparr>
     else if st = RCC_HSE_BYPASS then s\<lparr>RCC_CR := (RCC_CR s OR RCC_CR_HSEBYP) OR RCC_CR_HSEON\<rparr>
     else s\<lparr>RCC_CR := (RCC_CR s AND NOT RCC_CR_HSEON) AND NOT RCC_CR_HSEBYP\<rparr>)"

definition HAL_RCC_LSE_CONFIG :: "u32 \<Rightarrow> clk \<Rightarrow> clk" where
  "HAL_RCC_LSE_CONFIG st s =
    (if st = RCC_LSE_ON then s\<lparr>BDCR := BDCR s OR RCC_BDCR_LSEON\<rparr>
     else if st = RCC_LSE_BYPASS then s\<lparr>BDCR := (BDCR s OR RCC_BDCR_LSEBYP) OR RCC_BDCR_LSEON\<rparr>
     else s\<lparr>BDCR := (BDCR s AND NOT RCC_BDCR_LSEON) AND NOT RCC_BDCR_LSEBYP\<rparr>)"

text \<open>Waiting for a ready flag to be set or cleared, as \<open>on\<close> says.\<close>

definition wait_flag :: "(clk \<Rightarrow> u32) \<Rightarrow> u32 \<Rightarrow> bool \<Rightarrow> u32 \<Rightarrow> hw_steps \<Rightarrow> clk \<Rightarrow> rcc_result" where
  "wait_flag reg flag on = wait_for (\<lambda>s. (reg s AND flag \<noteq> 0) = on)"

definition hse_config :: "RCC_OscInitTypeDef \<Rightarrow> hw_steps \<Rightarrow> clk \<Rightarrow> rcc_result" where
  "hse_config i es s =
    (if CFGR s AND RCC_CFGR_SWS = RCC_CFGR_SWS_HSE \<or>
        CFGR s AND RCC_CFGR_SWS = RCC_CFGR_SWS_PLL \<and> PLLCFGR s AND RCC_PLLCFGR_PLLSRC = RCC_PLLCFGR_PLLSRC
     then (if RCC_CR s AND RCC_CR_HSERDY \<noteq> 0 \<and> HSEState i = RCC_HSE_OFF
           then Some (HAL_ERROR, es, s) else Some (HAL_OK, es, s))
     else wait_flag RCC_CR RCC_CR_HSERDY (HSEState i \<noteq> RCC_HSE_OFF) 100 es (HAL_RCC_HSE_CONFIG (HSEState i) s))"

definition HSI_CALIBRATIONVALUE_ADJUST :: "u32 \<Rightarrow> clk \<Rightarrow> clk" where
  "HSI_CALIBRATIONVALUE_ADJUST v s = s\<lparr>RCC_CR := MODIFY_REG (RCC_CR s) RCC_CR_HSITRIM (push_bit 3 v)\<rparr>"

definition hsi_config :: "RCC_OscInitTypeDef \<Rightarrow> hw_steps \<Rightarrow> clk \<Rightarrow> rcc_result" where
  "hsi_config i es s =
    (if CFGR s AND RCC_CFGR_SWS = RCC_CFGR_SWS_HSI \<or>
        CFGR s AND RCC_CFGR_SWS = RCC_CFGR_SWS_PLL \<and> PLLCFGR s AND RCC_PLLCFGR_PLLSRC = 0
     then (if RCC_CR s AND RCC_CR_HSIRDY \<noteq> 0 \<and> HSIState i \<noteq> 1 then Some (HAL_ERROR, es, s)
           else Some (HAL_OK, es, HSI_CALIBRATIONVALUE_ADJUST (HSICalibrationValue i) s))
     else if HSIState i \<noteq> 0
     then then_do (wait_flag RCC_CR RCC_CR_HSIRDY True 2 es (s\<lparr>RCC_CR := RCC_CR s OR RCC_CR_HSION\<rparr>))
       (\<lambda>es s. Some (HAL_OK, es, HSI_CALIBRATIONVALUE_ADJUST (HSICalibrationValue i) s))
     else wait_flag RCC_CR RCC_CR_HSIRDY False 2 es (s\<lparr>RCC_CR := RCC_CR s AND NOT RCC_CR_HSION\<rparr>))"

definition lsi_config :: "RCC_OscInitTypeDef \<Rightarrow> hw_steps \<Rightarrow> clk \<Rightarrow> rcc_result" where
  "lsi_config i es s =
    (if LSIState i \<noteq> 0
     then wait_flag CSR RCC_CSR_LSIRDY True 2 es (s\<lparr>CSR := CSR s OR RCC_CSR_LSION\<rparr>)
     else wait_flag CSR RCC_CSR_LSIRDY False 2 es (s\<lparr>CSR := CSR s AND NOT RCC_CSR_LSION\<rparr>))"

definition lse_config :: "RCC_OscInitTypeDef \<Rightarrow> hw_steps \<Rightarrow> clk \<Rightarrow> rcc_result" where
  "lse_config i es s =
    (let pwrclkchanged = (APB1ENR s AND RCC_APB1ENR_PWREN = 0);
         s = (if pwrclkchanged then s\<lparr>APB1ENR := APB1ENR s OR RCC_APB1ENR_PWREN\<rparr> else s)
     in then_do (if PWR_CR s AND PWR_CR_DBP = 0
           then wait_flag PWR_CR PWR_CR_DBP True 2 es (s\<lparr>PWR_CR := PWR_CR s OR PWR_CR_DBP\<rparr>)
           else Some (HAL_OK, es, s))
       (\<lambda>es s. then_do (wait_flag BDCR RCC_BDCR_LSERDY (LSEState i \<noteq> RCC_LSE_OFF) 5000 es
            (HAL_RCC_LSE_CONFIG (LSEState i) s))
         (\<lambda>es s. Some (HAL_OK, es,
            if pwrclkchanged then s\<lparr>APB1ENR := APB1ENR s AND NOT RCC_APB1ENR_PWREN\<rparr> else s))))"

definition pll_word :: "RCC_PLLInitTypeDef \<Rightarrow> u32" where
  "pll_word p = (((PLLSource p OR PLLM p) OR push_bit 6 (PLLN p)) OR push_bit 16 (drop_bit 1 (PLLP p) - 1)) OR
     push_bit 24 (PLLQ p)"

definition pll_config :: "RCC_PLLInitTypeDef \<Rightarrow> hw_steps \<Rightarrow> clk \<Rightarrow> rcc_result" where
  "pll_config p es s =
    (if PLLState p = RCC_PLL_NONE then Some (HAL_OK, es, s)
     else if CFGR s AND RCC_CFGR_SWS \<noteq> RCC_CFGR_SWS_PLL
     then then_do (wait_flag RCC_CR RCC_CR_PLLRDY False 2 es (s\<lparr>RCC_CR := RCC_CR s AND NOT RCC_CR_PLLON\<rparr>))
       (\<lambda>es s. if PLLState p = RCC_PLL_ON
          then let s = s\<lparr>PLLCFGR := pll_word p\<rparr>; s = s\<lparr>RCC_CR := RCC_CR s OR RCC_CR_PLLON\<rparr>
            in wait_flag RCC_CR RCC_CR_PLLRDY True 2 es s
          else Some (HAL_OK, es, s))
     else Some (HAL_ERROR, es, s))"

text \<open>The pointer may be NULL.\<close>

definition HAL_RCC_OscConfig :: "RCC_OscInitTypeDef option \<Rightarrow> hw_steps \<Rightarrow> clk \<Rightarrow> rcc_result" where
  "HAL_RCC_OscConfig p es s =
    (case p of None \<Rightarrow> Some (HAL_ERROR, es, s)
     | Some i \<Rightarrow>
        then_do (if OscillatorType i AND 1 = 1 then hse_config i es s else Some (HAL_OK, es, s)) (\<lambda>es s.
        then_do (if OscillatorType i AND 2 = 2 then hsi_config i es s else Some (HAL_OK, es, s)) (\<lambda>es s.
        then_do (if OscillatorType i AND 8 = 8 then lsi_config i es s else Some (HAL_OK, es, s)) (\<lambda>es s.
        then_do (if OscillatorType i AND 4 = 4 then lse_config i es s else Some (HAL_OK, es, s)) (\<lambda>es s.
        pll_config (PLL i) es s)))))"

section \<open>The system clock\<close>

text \<open>The product is taken in 64 bits; a divisor 0, which the PLL forbids, gives 0.\<close>

definition HAL_RCC_GetSysClockFreq :: "clk \<Rightarrow> u32" where
  "HAL_RCC_GetSysClockFreq s =
    (let src = CFGR s AND RCC_CFGR_SWS
     in if src = RCC_CFGR_SWS_HSI then HSI_VALUE
        else if src = RCC_CFGR_SWS_HSE then HSE_VALUE
        else if src = RCC_CFGR_SWS_PLL then
          let pllm = PLLCFGR s AND RCC_PLLCFGR_PLLM;
              f = (if PLLCFGR s AND RCC_PLLCFGR_PLLSRC \<noteq> 0 then HSE_VALUE else HSI_VALUE);
              pllvco = (ucast ((ucast f * ucast (drop_bit 6 (PLLCFGR s AND RCC_PLLCFGR_PLLN))) div
                (ucast pllm :: 64 word)) :: u32);
              pllp = (drop_bit 16 (PLLCFGR s AND RCC_PLLCFGR_PLLP) + 1) * 2
          in pllvco div pllp
        else HSI_VALUE)"

definition SystemCoreClockUpdate :: "clk \<Rightarrow> clk" where
  "SystemCoreClockUpdate s =
    (let tmp = CFGR s AND RCC_CFGR_SWS;
         s = (if tmp = 0 then s\<lparr>SystemCoreClock := HSI_VALUE\<rparr>
              else if tmp = 4 then s\<lparr>SystemCoreClock := HSE_VALUE\<rparr>
              else if tmp = 8 then
                let pllsource = drop_bit 22 (PLLCFGR s AND RCC_PLLCFGR_PLLSRC);
                    pllm = PLLCFGR s AND RCC_PLLCFGR_PLLM;
                    pllvco = (if pllsource \<noteq> 0
                      then (HSE_VALUE div pllm) * drop_bit 6 (PLLCFGR s AND RCC_PLLCFGR_PLLN)
                      else (HSI_VALUE div pllm) * drop_bit 6 (PLLCFGR s AND RCC_PLLCFGR_PLLN));
                    pllp = (drop_bit 16 (PLLCFGR s AND RCC_PLLCFGR_PLLP) + 1) * 2
                in s\<lparr>SystemCoreClock := pllvco div pllp\<rparr>
              else s\<lparr>SystemCoreClock := HSI_VALUE\<rparr>);
         tmp = AHBPrescTable ! unat (drop_bit 4 (CFGR s AND RCC_CFGR_HPRE))
     in s\<lparr>SystemCoreClock := drop_bit tmp (SystemCoreClock s)\<rparr>)"

definition HAL_RCC_GetHCLKFreq :: "clk \<Rightarrow> u32" where
  "HAL_RCC_GetHCLKFreq s = SystemCoreClock s"

definition HAL_RCC_GetPCLK1Freq :: "clk \<Rightarrow> u32" where
  "HAL_RCC_GetPCLK1Freq s =
    drop_bit (APBPrescTable ! unat (drop_bit 10 (CFGR s AND RCC_CFGR_PPRE1))) (HAL_RCC_GetHCLKFreq s)"

definition HAL_RCC_GetPCLK2Freq :: "clk \<Rightarrow> u32" where
  "HAL_RCC_GetPCLK2Freq s =
    drop_bit (APBPrescTable ! unat (drop_bit 13 (CFGR s AND RCC_CFGR_PPRE2))) (HAL_RCC_GetHCLKFreq s)"

text \<open>The latency is written as the lowest byte of the register.\<close>

definition FLASH_SET_LATENCY :: "u32 \<Rightarrow> clk \<Rightarrow> clk" where
  "FLASH_SET_LATENCY latency s = s\<lparr>FLASH_ACR := FLASH_ACR s AND NOT 0xFF OR (latency AND 0xFF)\<rparr>"

definition FLASH_GET_LATENCY :: "clk \<Rightarrow> u32" where
  "FLASH_GET_LATENCY s = FLASH_ACR s AND FLASH_ACR_LATENCY"

text \<open>Setting the latency when \<open>need\<close> says so, and checking it.\<close>

definition set_latency :: "bool \<Rightarrow> u32 \<Rightarrow> hw_steps \<Rightarrow> clk \<Rightarrow> rcc_result" where
  "set_latency need FLatency es s =
    (if need then
       let s = FLASH_SET_LATENCY FLatency s
       in if FLASH_GET_LATENCY s \<noteq> FLatency then Some (HAL_ERROR, es, s) else Some (HAL_OK, es, s)
     else Some (HAL_OK, es, s))"

definition ahb_config :: "RCC_ClkInitTypeDef \<Rightarrow> clk \<Rightarrow> clk" where
  "ahb_config i s =
    (if ClockType i AND 2 = 2 then
       let s = (if ClockType i AND 4 = 4 then s\<lparr>CFGR := MODIFY_REG (CFGR s) RCC_CFGR_PPRE1 RCC_HCLK_DIV16\<rparr> else s);
           s = (if ClockType i AND 8 = 8 then s\<lparr>CFGR := MODIFY_REG (CFGR s) RCC_CFGR_PPRE2 (push_bit 3 RCC_HCLK_DIV16)\<rparr> else s)
       in s\<lparr>CFGR := MODIFY_REG (CFGR s) RCC_CFGR_HPRE (AHBCLKDivider i)\<rparr>
     else s)"

definition sysclk_config :: "RCC_ClkInitTypeDef \<Rightarrow> hw_steps \<Rightarrow> clk \<Rightarrow> rcc_result" where
  "sysclk_config i es s =
    (if ClockType i AND 1 = 1 then
       if RCC_CR s AND (if SYSCLKSource i = 1 then RCC_CR_HSERDY
            else if SYSCLKSource i = 2 \<or> SYSCLKSource i = 3 then RCC_CR_PLLRDY else RCC_CR_HSIRDY) = 0
       then Some (HAL_ERROR, es, s)
       else wait_for (\<lambda>s. CFGR s AND RCC_CFGR_SWS = push_bit 2 (SYSCLKSource i)) 5000 es
          (s\<lparr>CFGR := MODIFY_REG (CFGR s) RCC_CFGR_SW (SYSCLKSource i)\<rparr>)
     else Some (HAL_OK, es, s))"

definition apb_config :: "RCC_ClkInitTypeDef \<Rightarrow> clk \<Rightarrow> clk" where
  "apb_config i s =
    (let s = (if ClockType i AND 4 = 4 then s\<lparr>CFGR := MODIFY_REG (CFGR s) RCC_CFGR_PPRE1 (APB1CLKDivider i)\<rparr> else s)
     in if ClockType i AND 8 = 8 then s\<lparr>CFGR := MODIFY_REG (CFGR s) RCC_CFGR_PPRE2 (push_bit 3 (APB2CLKDivider i))\<rparr> else s)"

definition HAL_RCC_ClockConfig :: "RCC_ClkInitTypeDef option \<Rightarrow> u32 \<Rightarrow> hw_steps \<Rightarrow> clk \<Rightarrow> rcc_result" where
  "HAL_RCC_ClockConfig p FLatency es s =
    (case p of None \<Rightarrow> Some (HAL_ERROR, es, s)
     | Some i \<Rightarrow>
        then_do (set_latency (FLASH_GET_LATENCY s < FLatency) FLatency es s) (\<lambda>es s.
        then_do (sysclk_config i es (ahb_config i s)) (\<lambda>es s.
        then_do (set_latency (FLatency < FLASH_GET_LATENCY s) FLatency es s) (\<lambda>es s.
          let s = apb_config i s;
              s = s\<lparr>SystemCoreClock := drop_bit (AHBPrescTable ! unat (drop_bit 4 (CFGR s AND RCC_CFGR_HPRE)))
                (HAL_RCC_GetSysClockFreq s)\<rparr>
          in Some (HAL_OK, es, snd (HAL_InitTick 15 s))))))"

definition SystemInit :: "clk \<Rightarrow> clk" where
  "SystemInit s =
    (let s = s\<lparr>CPACR := CPACR s OR (push_bit 20 3 OR push_bit 22 3)\<rparr>;
         s = s\<lparr>RCC_CR := RCC_CR s OR 1\<rparr>;
         s = s\<lparr>CFGR := 0\<rparr>;
         s = s\<lparr>RCC_CR := RCC_CR s AND 0xFEF6FFFF\<rparr>;
         s = s\<lparr>PLLCFGR := 0x24003010\<rparr>;
         s = s\<lparr>RCC_CR := RCC_CR s AND 0xFFFBFFFF\<rparr>;
         s = s\<lparr>CIR := 0\<rparr>
     in s\<lparr>VTOR := 0x08000000\<rparr>)"

definition GPIO_CLK_Init :: "clk \<Rightarrow> clk" where
  "GPIO_CLK_Init s =
    fold (\<lambda>n s. s\<lparr>AHB1ENR := AHB1ENR s OR push_bit n 1\<rparr>) [7, 2, 0, 1, 6, 8] s"

text \<open>The members that are not assigned are what the stack held (\<open>junk\<close>). The flag of the result says
  whether the function returns; it does not when one of the calls fails.\<close>

definition osc_settings :: "RCC_OscInitTypeDef \<Rightarrow> RCC_OscInitTypeDef" where
  "osc_settings junk = junk\<lparr>OscillatorType := 1, HSEState := RCC_HSE_ON,
     PLL := (PLL junk)\<lparr>PLLState := RCC_PLL_ON, PLLSource := RCC_PLLCFGR_PLLSRC, PLLM := 25, PLLN := 336,
       PLLP := 2, PLLQ := 7\<rparr>\<rparr>"

definition clk_settings :: RCC_ClkInitTypeDef where
  "clk_settings = \<lparr>ClockType = ((1 OR 2) OR 4) OR 8, SYSCLKSource = 2, AHBCLKDivider = 0,
     APB1CLKDivider = RCC_HCLK_DIV4, APB2CLKDivider = RCC_HCLK_DIV2\<rparr>"

definition SystemClock_Config :: "RCC_OscInitTypeDef \<Rightarrow> u32 \<Rightarrow> hw_steps \<Rightarrow> clk \<Rightarrow> (bool \<times> hw_steps \<times> clk) option" where
  "SystemClock_Config junk revid es s =
    (let s = s\<lparr>APB1ENR := APB1ENR s OR RCC_APB1ENR_PWREN\<rparr>;
         s = s\<lparr>PWR_CR := MODIFY_REG (PWR_CR s) PWR_CR_VOS PWR_CR_VOS\<rparr>
     in case HAL_RCC_OscConfig (Some (osc_settings junk)) es s of None \<Rightarrow> None
        | Some (r, es, s) \<Rightarrow>
            if r \<noteq> HAL_OK then Some (False, es, s)
            else case HAL_RCC_ClockConfig (Some clk_settings) 5 es s of None \<Rightarrow> None
              | Some (r, es, s) \<Rightarrow>
                  if r \<noteq> HAL_OK then Some (False, es, s)
                  else
                    let s = snd (HAL_SYSTICK_Config (HAL_RCC_GetHCLKFreq s div 1000) s);
                        s = HAL_SYSTICK_CLKSourceConfig SYSTICK_CLKSOURCE_HCLK s;
                        s = HAL_NVIC_SetPriority_SysTick 0 0 s
                    in Some (True, es, if revid = 0x1001 then s\<lparr>FLASH_ACR := FLASH_ACR s OR 0x100\<rparr> else s))"

section \<open>What polling does\<close>

text \<open>The hardware changes ready flags, the switch status and the tick counter, and nothing else.\<close>

definition ready_flags :: u32 where
  "ready_flags = RCC_CR_HSIRDY OR RCC_CR_HSERDY OR RCC_CR_PLLRDY"

definition hw_step :: "(clk \<Rightarrow> clk) \<Rightarrow> bool" where
  "hw_step e \<longleftrightarrow> (\<forall>s. \<exists>cr cf bd cs t. e s =
     s\<lparr>RCC_CR := MODIFY_REG (RCC_CR s) ready_flags (cr AND ready_flags),
       CFGR := MODIFY_REG (CFGR s) RCC_CFGR_SWS (cf AND RCC_CFGR_SWS),
       BDCR := MODIFY_REG (BDCR s) RCC_BDCR_LSERDY (bd AND RCC_BDCR_LSERDY),
       CSR := MODIFY_REG (CSR s) RCC_CSR_LSIRDY (cs AND RCC_CSR_LSIRDY), uwTick := t\<rparr>)"

definition same_settings :: "clk \<Rightarrow> clk \<Rightarrow> bool" where
  "same_settings s s' \<longleftrightarrow> PLLCFGR s' = PLLCFGR s \<and> CFGR s' AND NOT RCC_CFGR_SWS = CFGR s AND NOT RCC_CFGR_SWS \<and>
     FLASH_ACR s' = FLASH_ACR s \<and> clk_nvic s' = clk_nvic s \<and> uwTickFreq s' = uwTickFreq s"

lemma MODIFY_REG_field [simp]: "MODIFY_REG r m v AND m = v AND m"
  unfolding MODIFY_REG_def by (rule bit_word_eqI) (auto simp: bit_simps)

lemma MODIFY_REG_other: "m AND k = 0 \<Longrightarrow> v AND k = 0 \<Longrightarrow> MODIFY_REG r m v AND k = (r :: u32) AND k"
  unfolding MODIFY_REG_def by (rule bit_word_eqI) (auto simp: bit_eq_iff bit_simps)

lemma MODIFY_REG_outside: "v AND NOT m = 0 \<Longrightarrow> MODIFY_REG r m v AND NOT m = (r :: u32) AND NOT m"
  unfolding MODIFY_REG_def by (rule bit_word_eqI) (auto simp: bit_eq_iff bit_simps)

lemma and_within: "k AND m = 0 \<Longrightarrow> x AND NOT m = y AND NOT m \<Longrightarrow> x AND k = (y :: u32) AND k"
proof (rule bit_word_eqI)
  fix n :: nat assume k: "k AND m = 0" and e: "x AND NOT m = y AND NOT m" and n: "n < LENGTH(32)"
  show "bit (x AND k) n = bit (y AND k) n"
    using arg_cong [OF k, of "\<lambda>w. bit w n"] arg_cong [OF e, of "\<lambda>w. bit w n"] n by (auto simp: bit_simps)
qed

lemma hw_step_same: "hw_step e \<Longrightarrow> same_settings s (e s)"
proof -
  assume "hw_step e"
  then obtain cr cf bd cs t where e: "e s =
     s\<lparr>RCC_CR := MODIFY_REG (RCC_CR s) ready_flags (cr AND ready_flags),
       CFGR := MODIFY_REG (CFGR s) RCC_CFGR_SWS (cf AND RCC_CFGR_SWS),
       BDCR := MODIFY_REG (BDCR s) RCC_BDCR_LSERDY (bd AND RCC_BDCR_LSERDY),
       CSR := MODIFY_REG (CSR s) RCC_CSR_LSIRDY (cs AND RCC_CSR_LSIRDY), uwTick := t\<rparr>"
    unfolding hw_step_def by blast
  have "(cf AND RCC_CFGR_SWS) AND NOT RCC_CFGR_SWS = 0" by (rule bit_word_eqI) (auto simp: bit_simps)
  from MODIFY_REG_outside [OF this] show ?thesis by (simp add: e same_settings_def)
qed

lemma same_settings_trans: "same_settings s t \<Longrightarrow> same_settings t u \<Longrightarrow> same_settings s u"
  by (simp add: same_settings_def)

lemma same_settings_refl [simp]: "same_settings s s"
  by (simp add: same_settings_def)

lemma poll_result:
  assumes "poll done' t0 n es s = Some (r, es', s')" and "\<forall>e \<in> set es. hw_step e"
  shows "same_settings s s' \<and> (r = HAL_OK \<longrightarrow> done' s') \<and> set es' \<subseteq> set es"
  using assms
proof (induction done' t0 n es s rule: poll.induct)
  case (1 done' t0 n s)
  then show ?case by simp
next
  case (2 done' t0 n e es s)
  have e: "same_settings s (e s)" using "2.prems"(2) hw_step_same by simp
  show ?case
  proof (cases "done' (e s)")
    case True
    then show ?thesis using "2.prems"(1) e by auto
  next
    case F: False
    then obtain e' es2 where es: "es = e' # es2" using "2.prems"(1) by (cases es) simp_all
    have e': "same_settings s (e' (e s))"
      using "2.prems"(2) es hw_step_same [of e' "e s"] same_settings_trans [OF e] by simp
    show ?thesis
    proof (cases "n < HAL_GetTick (e' (e s)) - t0")
      case True
      then show ?thesis using "2.prems"(1) F es e' by auto
    next
      case False
      have "poll done' t0 n es2 (e' (e s)) = Some (r, es', s')" using "2.prems"(1) F False es by simp
      then have "same_settings (e' (e s)) s' \<and> (r = HAL_OK \<longrightarrow> done' s') \<and> set es' \<subseteq> set es2"
        using "2.IH" [OF refl F es refl False] "2.prems"(2) es by simp
      then show ?thesis using es same_settings_trans [OF e'] by auto
    qed
  qed
qed

lemma wait_result:
  "wait_for done' n es s = Some (r, es', s') \<Longrightarrow> \<forall>e \<in> set es. hw_step e \<Longrightarrow>
    same_settings s s' \<and> (r = HAL_OK \<longrightarrow> done' s') \<and> set es' \<subseteq> set es"
  unfolding wait_for_def by (rule poll_result)

lemma then_do_OK:
  "then_do r f = Some (HAL_OK, es', s') \<longleftrightarrow> (\<exists>es s. r = Some (HAL_OK, es, s) \<and> f es s = Some (HAL_OK, es', s'))"
  by (auto simp: then_do_def split: option.splits HAL_StatusTypeDef.splits)

section \<open>The clocks after SystemClock_Config\<close>

lemma SysTick_sel:
  "CFGR (snd (SysTick_Config n s)) = CFGR s" "PLLCFGR (snd (SysTick_Config n s)) = PLLCFGR s"
  "FLASH_ACR (snd (SysTick_Config n s)) = FLASH_ACR s" "SystemCoreClock (snd (SysTick_Config n s)) = SystemCoreClock s"
  by (simp_all add: SysTick_Config_def set_SysTick_priority_def Let_def)

lemma InitTick_sel:
  "CFGR (snd (HAL_InitTick p s)) = CFGR s" "PLLCFGR (snd (HAL_InitTick p s)) = PLLCFGR s"
  "FLASH_ACR (snd (HAL_InitTick p s)) = FLASH_ACR s" "SystemCoreClock (snd (HAL_InitTick p s)) = SystemCoreClock s"
  using SysTick_sel [of "SystemCoreClock s div (1000 div uwTickFreq s)" s]
  by (auto simp: HAL_InitTick_def HAL_SYSTICK_Config_def HAL_NVIC_SetPriority_SysTick_def set_SysTick_priority_def
      split: prod.splits)

lemma osc_ok:
  assumes "HAL_RCC_OscConfig (Some (osc_settings junk)) es s = Some (HAL_OK, es', s')" and hw: "\<forall>e \<in> set es. hw_step e"
  shows "PLLCFGR s' = 0x07405419 \<and> set es' \<subseteq> set es"
proof -
  have pw: "pll_word (PLL (osc_settings junk)) = 0x07405419"
    by (simp add: pll_word_def osc_settings_def RCC_PLLCFGR_PLLSRC_def)
  from assms(1) obtain es1 s1 where
    hse: "hse_config (osc_settings junk) es s = Some (HAL_OK, es1, s1)" and
    pll: "pll_config (PLL (osc_settings junk)) es1 s1 = Some (HAL_OK, es', s')"
    by (auto simp: HAL_RCC_OscConfig_def then_do_OK osc_settings_def)
  have sub: "set es1 \<subseteq> set es"
    using hse wait_result [OF _ hw] by (auto simp: hse_config_def wait_flag_def split: if_splits)
  from pll obtain es2 s2 where
    off: "wait_flag RCC_CR RCC_CR_PLLRDY False 2 es1 (s1\<lparr>RCC_CR := RCC_CR s1 AND NOT RCC_CR_PLLON\<rparr>) = Some (HAL_OK, es2, s2)" and
    on: "wait_flag RCC_CR RCC_CR_PLLRDY True 2 es2
      (s2\<lparr>PLLCFGR := 0x07405419, RCC_CR := RCC_CR s2 OR RCC_CR_PLLON\<rparr>) = Some (HAL_OK, es', s')"
    unfolding pll_config_def pw by (auto simp: then_do_OK osc_settings_def clk_consts split: if_splits)
  have hw1: "\<forall>e \<in> set es1. hw_step e" using hw sub by blast
  note w1 = wait_result [OF off [unfolded wait_flag_def] hw1]
  have hw2: "\<forall>e \<in> set es2. hw_step e" using hw1 w1 by blast
  note w2 = wait_result [OF on [unfolded wait_flag_def] hw2]
  then show ?thesis using w1 sub by (auto simp: same_settings_def)
qed

lemma FLASH_SET_LATENCY_sel:
  "CFGR (FLASH_SET_LATENCY n s) = CFGR s" "PLLCFGR (FLASH_SET_LATENCY n s) = PLLCFGR s"
  by (simp_all add: FLASH_SET_LATENCY_def)

lemma set_latency_OK:
  "set_latency need n es s = Some (HAL_OK, es', s') \<Longrightarrow> es' = es \<and> CFGR s' = CFGR s \<and> PLLCFGR s' = PLLCFGR s \<and>
    (if need then FLASH_GET_LATENCY s' = n else s' = s)"
  using FLASH_SET_LATENCY_sel [of n s] by (auto simp: set_latency_def Let_def split: if_splits)

text \<open>The fields of CFGR, which do not overlap.\<close>

lemma apb_fields:
  "CFGR (apb_config clk_settings s) AND RCC_CFGR_SWS = CFGR s AND RCC_CFGR_SWS"
  "CFGR (apb_config clk_settings s) AND RCC_CFGR_HPRE = CFGR s AND RCC_CFGR_HPRE"
  "CFGR (apb_config clk_settings s) AND RCC_CFGR_PPRE1 = RCC_HCLK_DIV4"
  "CFGR (apb_config clk_settings s) AND RCC_CFGR_PPRE2 = push_bit 3 RCC_HCLK_DIV2"
  "PLLCFGR (apb_config clk_settings s) = PLLCFGR s" "FLASH_ACR (apb_config clk_settings s) = FLASH_ACR s"
proof -
  have pre1: "MODIFY_REG c RCC_CFGR_PPRE1 RCC_HCLK_DIV4 AND RCC_CFGR_PPRE1 = RCC_HCLK_DIV4" for c
    by (simp add: clk_consts)
  show "CFGR (apb_config clk_settings s) AND RCC_CFGR_PPRE1 = RCC_HCLK_DIV4"
    using pre1 MODIFY_REG_other [of RCC_CFGR_PPRE2 RCC_CFGR_PPRE1 "push_bit 3 RCC_HCLK_DIV2"]
    by (simp add: apb_config_def clk_settings_def) (simp add: clk_consts)
qed (simp_all add: apb_config_def clk_settings_def MODIFY_REG_other clk_consts)

lemma clk_ok:
  assumes "HAL_RCC_ClockConfig (Some clk_settings) 5 es s = Some (HAL_OK, es', s')" and hw: "\<forall>e \<in> set es. hw_step e"
    and pll: "PLLCFGR s = 0x07405419"
  shows "CFGR s' AND RCC_CFGR_SWS = RCC_CFGR_SWS_PLL \<and> CFGR s' AND RCC_CFGR_HPRE = 0 \<and>
    CFGR s' AND RCC_CFGR_PPRE1 = RCC_HCLK_DIV4 \<and> CFGR s' AND RCC_CFGR_PPRE2 = push_bit 3 RCC_HCLK_DIV2 \<and>
    PLLCFGR s' = 0x07405419 \<and> FLASH_GET_LATENCY s' = 5 \<and> SystemCoreClock s' = 168000000"
proof -
  from assms(1) obtain es1 s1 es2 s2 es3 s3 where
    l1: "set_latency (FLASH_GET_LATENCY s < 5) 5 es s = Some (HAL_OK, es1, s1)" and
    sw: "sysclk_config clk_settings es1 (ahb_config clk_settings s1) = Some (HAL_OK, es2, s2)" and
    l2: "set_latency (5 < FLASH_GET_LATENCY s2) 5 es2 s2 = Some (HAL_OK, es3, s3)" and
    fin: "s' = snd (HAL_InitTick 15 ((apb_config clk_settings s3)\<lparr>SystemCoreClock := drop_bit (AHBPrescTable !
      unat (drop_bit 4 (CFGR (apb_config clk_settings s3) AND RCC_CFGR_HPRE))) (HAL_RCC_GetSysClockFreq (apb_config clk_settings s3))\<rparr>))"
    by (auto simp: HAL_RCC_ClockConfig_def then_do_OK Let_def)
  note L1 = set_latency_OK [OF l1] and L2 = set_latency_OK [OF l2]
  let ?a = "ahb_config clk_settings s1"
  let ?b = "?a\<lparr>CFGR := MODIFY_REG (CFGR ?a) RCC_CFGR_SW 2\<rparr>"
  have hpre: "CFGR ?a AND RCC_CFGR_HPRE = 0" and fl: "FLASH_ACR ?a = FLASH_ACR s1" and pl: "PLLCFGR ?a = PLLCFGR s1"
    by (simp_all add: ahb_config_def clk_settings_def)
  have "wait_for (\<lambda>s. CFGR s AND RCC_CFGR_SWS = RCC_CFGR_SWS_PLL) 5000 es1 ?b = Some (HAL_OK, es2, s2)"
    using sw by (auto simp: sysclk_config_def clk_settings_def RCC_CFGR_SWS_PLL_def split: if_splits)
  note W = wait_result [OF this]
  have ss: "same_settings ?b s2" and sws: "CFGR s2 AND RCC_CFGR_SWS = RCC_CFGR_SWS_PLL" using W hw L1 by auto
  have "RCC_CFGR_HPRE AND RCC_CFGR_SWS = 0" "RCC_CFGR_SW AND RCC_CFGR_HPRE = 0" "2 AND RCC_CFGR_HPRE = 0"
    by (simp_all add: clk_consts)
  then have "CFGR s2 AND RCC_CFGR_HPRE = 0"
    using ss and_within [of RCC_CFGR_HPRE RCC_CFGR_SWS "CFGR s2" "CFGR ?b"] MODIFY_REG_other [of RCC_CFGR_SW RCC_CFGR_HPRE 2 "CFGR ?a"] hpre
    by (simp add: same_settings_def)
  then have C: "CFGR s3 AND RCC_CFGR_SWS = RCC_CFGR_SWS_PLL" "CFGR s3 AND RCC_CFGR_HPRE = 0" "PLLCFGR s3 = 0x07405419"
    using L1 L2 sws ss pl pll by (simp_all add: same_settings_def)
  have "FLASH_GET_LATENCY s3 = 5"
    using L1 L2 ss fl by (auto simp: same_settings_def FLASH_GET_LATENCY_def split: if_splits)
  moreover have "HAL_RCC_GetSysClockFreq (apb_config clk_settings s3) = 168000000"
    unfolding HAL_RCC_GetSysClockFreq_def apb_fields C by (simp add: clk_consts)
  ultimately show ?thesis
    using C unfolding fin InitTick_sel by (simp add: apb_fields FLASH_GET_LATENCY_def AHBPrescTable_def InitTick_sel)
qed

lemma SystemClock_OK:
  assumes "SystemClock_Config junk revid es s = Some (True, es', s')"
  obtains es1 s1 es2 s2 t where "HAL_RCC_OscConfig (Some (osc_settings junk)) es t = Some (HAL_OK, es1, s1)"
    "HAL_RCC_ClockConfig (Some clk_settings) 5 es1 s1 = Some (HAL_OK, es2, s2)"
    "s' = (let s = HAL_NVIC_SetPriority_SysTick 0 0 (HAL_SYSTICK_CLKSourceConfig SYSTICK_CLKSOURCE_HCLK
        (snd (HAL_SYSTICK_Config (HAL_RCC_GetHCLKFreq s2 div 1000) s2)))
      in if revid = 0x1001 then s\<lparr>FLASH_ACR := FLASH_ACR s OR 0x100\<rparr> else s)"
  using assms by (auto simp: SystemClock_Config_def Let_def split: option.splits prod.splits if_splits)

lemma CoreClockUpdate_value:
  "SystemCoreClock (SystemCoreClockUpdate s) =
    drop_bit (AHBPrescTable ! unat (drop_bit 4 (CFGR s AND RCC_CFGR_HPRE)))
     (if CFGR s AND RCC_CFGR_SWS = 4 then HSE_VALUE
      else if CFGR s AND RCC_CFGR_SWS = 8 then
        ((if drop_bit 22 (PLLCFGR s AND RCC_PLLCFGR_PLLSRC) \<noteq> 0 then HSE_VALUE else HSI_VALUE) div
          (PLLCFGR s AND RCC_PLLCFGR_PLLM) * drop_bit 6 (PLLCFGR s AND RCC_PLLCFGR_PLLN)) div
        ((drop_bit 16 (PLLCFGR s AND RCC_PLLCFGR_PLLP) + 1) * 2)
      else HSI_VALUE)"
  by (simp add: SystemCoreClockUpdate_def Let_def)

lemma priority_0: "NVIC_EncodePriority g 0 0 = 0"
  by (simp add: NVIC_EncodePriority_def Let_def)

text \<open>C30: When \<open>SystemClock_Config\<close> returns, whatever the hardware did to its ready flags meanwhile and
  whatever the registers held before, the core runs at 168 MHz from the PLL, the peripheral buses at
  42 and 84 MHz, the flash has its five wait states, SysTick counts a millisecond (at the
  highest priority), and both ways to compute the core clock agree.\<close>

theorem clocks_configured:
  assumes "SystemClock_Config junk revid es s = Some (True, es', s')" and hw: "\<forall>e \<in> set es. hw_step e"
  shows "HAL_RCC_GetSysClockFreq s' = 168000000 \<and> HAL_RCC_GetHCLKFreq s' = 168000000 \<and>
    HAL_RCC_GetPCLK1Freq s' = 42000000 \<and> HAL_RCC_GetPCLK2Freq s' = 84000000 \<and>
    SystemCoreClock (SystemCoreClockUpdate s') = SystemCoreClock s' \<and> FLASH_GET_LATENCY s' = 5 \<and>
    SysTick_LOAD s' = 167999 \<and> SysTick_CTRL s' = 7 \<and> SHP_SysTick s' = 0"
proof -
  from assms(1) obtain es1 s1 es2 s2 t where
    o: "HAL_RCC_OscConfig (Some (osc_settings junk)) es t = Some (HAL_OK, es1, s1)" and
    c: "HAL_RCC_ClockConfig (Some clk_settings) 5 es1 s1 = Some (HAL_OK, es2, s2)" and
    s': "s' = (let s = HAL_NVIC_SetPriority_SysTick 0 0 (HAL_SYSTICK_CLKSourceConfig SYSTICK_CLKSOURCE_HCLK
        (snd (HAL_SYSTICK_Config (HAL_RCC_GetHCLKFreq s2 div 1000) s2)))
      in if revid = 0x1001 then s\<lparr>FLASH_ACR := FLASH_ACR s OR 0x100\<rparr> else s)" by (rule SystemClock_OK)
  have O: "PLLCFGR s1 = 0x07405419" "\<forall>e \<in> set es1. hw_step e" using osc_ok [OF o hw] hw by auto
  note C = clk_ok [OF c O(2,1)]
  let ?s = "s2\<lparr>SysTick_LOAD := 167999, SHP_SysTick := 0, SysTick_VAL := 0, SysTick_CTRL := 7\<rparr>"
  have "s' = ?s \<or> s' = ?s\<lparr>FLASH_ACR := FLASH_ACR s2 OR 0x100\<rparr>"
    using C unfolding s' Let_def
    by (simp add: HAL_NVIC_SetPriority_SysTick_def priority_0 set_SysTick_priority_def HAL_SYSTICK_CLKSourceConfig_def
        HAL_SYSTICK_Config_def SysTick_Config_def HAL_RCC_GetHCLKFreq_def Let_def clk_consts)
  moreover have "(FLASH_ACR s2 OR 0x100) AND FLASH_ACR_LATENCY = FLASH_GET_LATENCY s2"
    by (simp add: FLASH_GET_LATENCY_def FLASH_ACR_LATENCY_def bit.conj_disj_distrib2)
  ultimately have S: "CFGR s' = CFGR s2" "PLLCFGR s' = PLLCFGR s2" "SystemCoreClock s' = SystemCoreClock s2"
    "FLASH_GET_LATENCY s' = FLASH_GET_LATENCY s2" "SysTick_LOAD s' = 167999" "SysTick_CTRL s' = 7" "SHP_SysTick s' = 0"
    by (auto simp: FLASH_GET_LATENCY_def)
  have fields: "CFGR s' AND RCC_CFGR_SWS = 8" "CFGR s' AND RCC_CFGR_HPRE = 0" "CFGR s' AND RCC_CFGR_PPRE1 = 0x1400"
    "CFGR s' AND RCC_CFGR_PPRE2 = 0x8000" "PLLCFGR s' = 0x07405419"
    using C S by (simp_all add: clk_consts)
  have core: "SystemCoreClock s' = 168000000" using S C by simp
  have "HAL_RCC_GetSysClockFreq s' = 168000000"
    unfolding HAL_RCC_GetSysClockFreq_def fields by (simp add: clk_consts)
  moreover have "HAL_RCC_GetPCLK1Freq s' = 42000000" "HAL_RCC_GetPCLK2Freq s' = 84000000"
    unfolding HAL_RCC_GetPCLK1Freq_def HAL_RCC_GetPCLK2Freq_def HAL_RCC_GetHCLKFreq_def fields core
    by (simp_all add: APBPrescTable_def)
  moreover have "SystemCoreClock (SystemCoreClockUpdate s') = 168000000"
    unfolding CoreClockUpdate_value fields by (simp add: clk_consts AHBPrescTable_def)
  ultimately show ?thesis using S C core by (simp add: HAL_RCC_GetHCLKFreq_def)
qed

text \<open>The two computations of the core clock: one takes the product in 64 bits before it divides, the
  other divides first and wraps. They agree whenever the division is exact.\<close>

lemma scaled_first_or_last:
  fixes f m n :: u32
  assumes "unat m dvd unat f"
  shows "(ucast ((ucast f * ucast n) div (ucast m :: 64 word)) :: u32) = (f div m) * n"
proof (rule unsigned_word_eqI)
  have up: "unat (ucast w :: 64 word) = unat w" for w :: u32
    using unat_u32_lt [of w] by (simp add: unsigned_ucast_eq take_bit_nat_eq_self del: unat_u32_lt)
  have "unat f * unat n < 4294967296 * 4294967296" using unat_u32_lt [of f] unat_u32_lt [of n] by (intro mult_strict_mono) simp_all
  then have "unat ((ucast f * ucast n) div (ucast m :: 64 word)) = unat f * unat n div unat m"
    by (simp add: unat_div_distrib unat_word_ariths up)
  moreover have "unat f * unat n div unat m = unat f div unat m * unat n"
    using assms by (simp add: div_mult_swap mult.commute)
  ultimately show "unat (ucast ((ucast f * ucast n) div (ucast m :: 64 word)) :: u32) = unat ((f div m) * n)"
    by (simp add: unsigned_ucast_eq take_bit_eq_mod unat_word_ariths unat_div_distrib mod_mult_left_eq)
qed

lemma core_clock_agrees:
  assumes "unat (PLLCFGR s AND RCC_PLLCFGR_PLLM) dvd
    unat (if PLLCFGR s AND RCC_PLLCFGR_PLLSRC \<noteq> 0 then HSE_VALUE else HSI_VALUE)"
  shows "SystemCoreClock (SystemCoreClockUpdate s) =
    drop_bit (AHBPrescTable ! unat (drop_bit 4 (CFGR s AND RCC_CFGR_HPRE))) (HAL_RCC_GetSysClockFreq s)"
proof -
  have p: "RCC_PLLCFGR_PLLSRC = push_bit 22 1" by (simp add: RCC_PLLCFGR_PLLSRC_def)
  have "x AND RCC_PLLCFGR_PLLSRC = (if bit x 22 then RCC_PLLCFGR_PLLSRC else 0)" for x
    unfolding p by (rule bit_word_eqI, cases "bit x 22", simp_all only: if_True if_False
      bit_and_iff bit_push_bit_iff bit_1_iff bit_0_eq) (auto simp: le_eq_less_or_eq)
  then have src: "drop_bit 22 (PLLCFGR s AND RCC_PLLCFGR_PLLSRC) \<noteq> 0 \<longleftrightarrow> PLLCFGR s AND RCC_PLLCFGR_PLLSRC \<noteq> 0"
    by (simp add: RCC_PLLCFGR_PLLSRC_def)
  show ?thesis
    unfolding CoreClockUpdate_value HAL_RCC_GetSysClockFreq_def Let_def scaled_first_or_last [OF assms] src
    by (simp add: RCC_CFGR_SWS_HSI_def RCC_CFGR_SWS_HSE_def RCC_CFGR_SWS_PLL_def)
qed

section \<open>Polling ends\<close>

text \<open>The tick counter stands still or counts one in a step of the hardware.\<close>

definition ticking :: "(clk \<Rightarrow> clk) \<Rightarrow> bool" where
  "ticking e \<longleftrightarrow> (\<forall>s. uwTick (e s) = uwTick s + 1)"

definition still :: "(clk \<Rightarrow> clk) \<Rightarrow> bool" where
  "still e \<longleftrightarrow> (\<forall>s. uwTick (e s) = uwTick s)"

definition tick_count :: "hw_steps \<Rightarrow> nat" where
  "tick_count es = length (filter ticking es)"

definition ends_within :: "nat \<Rightarrow> hw_steps \<Rightarrow> rcc_result \<Rightarrow> bool" where
  "ends_within n es r \<longleftrightarrow> (\<exists>st es' s'. r = Some (st, es', s') \<and> set es' \<subseteq> set es \<and> tick_count es \<le> tick_count es' + n)"

lemma tick_count_simps [simp]:
  "tick_count [] = 0" "tick_count (e # es) = (if ticking e then Suc (tick_count es) else tick_count es)"
  by (simp_all add: tick_count_def)

lemma step_tick:
  assumes "ticking e \<or> still e" and "unat (uwTick s - t0) + 1 < 4294967296"
  shows "unat (uwTick (e s) - t0) = unat (uwTick s - t0) + (if ticking e then 1 else 0)"
proof -
  have "unat (x + 1) = unat x + 1" if "unat x + 1 < 4294967296" for x :: u32
    using that by (simp add: unat_word_ariths)
  from this [OF assms(2)] have "unat (uwTick s + 1 - t0) = unat (uwTick s - t0) + 1"
    by (simp add: algebra_simps)
  moreover have "\<not> ticking e" if "still e"
  proof
    assume "ticking e"
    then have "uwTick s = uwTick s + 1" using that unfolding ticking_def still_def by metis
    then show False by simp
  qed
  ultimately show ?thesis using assms(1) by (auto simp: ticking_def still_def)
qed

lemma poll_ends:
  assumes "\<forall>e \<in> set es. ticking e \<or> still e" and "unat (uwTick s - t0) \<le> unat n" and "unat n \<le> 4294967000"
    and "unat n + 2 \<le> tick_count es + unat (uwTick s - t0)"
  shows "\<exists>st es' s'. poll done' t0 n es s = Some (st, es', s') \<and> set es' \<subseteq> set es \<and>
    tick_count es + unat (uwTick s - t0) \<le> tick_count es' + unat n + 2"
  using assms
proof (induction done' t0 n es s rule: poll.induct)
  case (1 done' t0 n s)
  then show ?case by simp
next
  case (2 done' t0 n e es s)
  let ?d = "unat (uwTick s - t0)"
  have e: "unat (uwTick (e s) - t0) = ?d + (if ticking e then 1 else 0)"
    using "2.prems"(1,2,3) by (intro step_tick) simp_all
  show ?case
  proof (cases "done' (e s)")
    case True
    then show ?thesis using "2.prems"(2) by auto
  next
    case F: False
    obtain e' es2 where es: "es = e' # es2" using "2.prems"(2,4) by (cases es) (auto split: if_splits)
    have e': "unat (uwTick (e' (e s)) - t0) = unat (uwTick (e s) - t0) + (if ticking e' then 1 else 0)"
      using "2.prems"(1,2,3) e es by (intro step_tick) simp_all
    show ?thesis
    proof (cases "n < HAL_GetTick (e' (e s)) - t0")
      case True
      then show ?thesis using F es "2.prems"(2) by (auto simp: HAL_GetTick_def)
    next
      case False
      then have le: "unat (uwTick (e' (e s)) - t0) \<le> unat n" by (simp add: HAL_GetTick_def word_le_nat_alt not_less)
      have "unat n + 2 \<le> tick_count es2 + unat (uwTick (e' (e s)) - t0)"
        using "2.prems"(4) e e' es by (auto split: if_splits)
      from "2.IH" [OF refl F es refl False _ le "2.prems"(3) this] "2.prems"(1) es
      obtain st es' s' where P: "poll done' t0 n es2 (e' (e s)) = Some (st, es', s')" "set es' \<subseteq> set es2"
        "tick_count es2 + unat (uwTick (e' (e s)) - t0) \<le> tick_count es' + unat n + 2" by auto
      have "tick_count (e # es) + ?d = tick_count es2 + unat (uwTick (e' (e s)) - t0)"
        using e e' es by simp
      then show ?thesis using P F False es by auto
    qed
  qed
qed

lemma wait_ends:
  assumes "\<forall>e \<in> set es. ticking e \<or> still e" and "unat n + 2 \<le> tick_count es" and "unat n \<le> 4294967000"
  shows "ends_within (unat n + 2) es (wait_for done' n es s)"
  using poll_ends [of es s "uwTick s" n done'] assms
  by (auto simp: wait_for_def ends_within_def HAL_GetTick_def)

lemma then_ends:
  assumes "ends_within k es r"
    and "\<And>es' s'. set es' \<subseteq> set es \<Longrightarrow> tick_count es \<le> tick_count es' + k \<Longrightarrow> ends_within m es' (f es' s')"
  shows "ends_within (k + m) es (then_do r f)"
proof -
  from assms(1) obtain st es' s' where r: "r = Some (st, es', s')" "set es' \<subseteq> set es" "tick_count es \<le> tick_count es' + k"
    unfolding ends_within_def by blast
  show ?thesis
    using assms(2) [OF r(2,3), of s'] r by (cases st) (auto simp: then_do_def ends_within_def)
qed

lemma now_ends [simp]: "ends_within n es (Some (st, es, s))"
  by (simp add: ends_within_def)

lemma osc_ends:
  assumes "\<forall>e \<in> set es. ticking e \<or> still e" and "110 \<le> tick_count es"
  shows "ends_within 110 es (HAL_RCC_OscConfig (Some (osc_settings junk)) es s)"
proof -
  have hse: "ends_within 102 es (hse_config (osc_settings junk) es s)"
    using assms wait_ends [of es 100] by (auto simp: hse_config_def wait_flag_def)
  have pll: "ends_within 8 es' (pll_config (PLL (osc_settings junk)) es' s')"
    if e: "\<forall>e \<in> set es'. ticking e \<or> still e" and n: "8 \<le> tick_count es'" for es' s'
  proof -
    have "ends_within (4 + 4) es' (then_do (wait_flag RCC_CR RCC_CR_PLLRDY False 2 es' t)
       (\<lambda>es s. if PLLState (PLL (osc_settings junk)) = RCC_PLL_ON
          then let s = s\<lparr>PLLCFGR := pll_word (PLL (osc_settings junk))\<rparr>; s = s\<lparr>RCC_CR := RCC_CR s OR RCC_CR_PLLON\<rparr>
            in wait_flag RCC_CR RCC_CR_PLLRDY True 2 es s
          else Some (HAL_OK, es, s)))" for t
    proof (rule then_ends)
      show "ends_within 4 es' (wait_flag RCC_CR RCC_CR_PLLRDY False 2 es' t)"
        using wait_ends [OF e, of 2] n by (simp add: wait_flag_def)
      fix es2 s2 assume "set es2 \<subseteq> set es'" "tick_count es' \<le> tick_count es2 + 4"
      then have "\<forall>e \<in> set es2. ticking e \<or> still e" "4 \<le> tick_count es2" using e n by auto
      then have "ends_within 4 es2 (wait_flag RCC_CR RCC_CR_PLLRDY True 2 es2 t)" for t
        using wait_ends [of es2 2] by (simp add: wait_flag_def)
      then show "ends_within 4 es2 (if PLLState (PLL (osc_settings junk)) = RCC_PLL_ON
          then let s = s2\<lparr>PLLCFGR := pll_word (PLL (osc_settings junk))\<rparr>; s = s\<lparr>RCC_CR := RCC_CR s OR RCC_CR_PLLON\<rparr>
            in wait_flag RCC_CR RCC_CR_PLLRDY True 2 es2 s
          else Some (HAL_OK, es2, s2))" by (simp add: Let_def)
    qed
    then show ?thesis by (simp add: pll_config_def)
  qed
  have "ends_within (102 + 8) es (then_do (hse_config (osc_settings junk) es s) (\<lambda>es s. pll_config (PLL (osc_settings junk)) es s))"
  proof (rule then_ends [OF hse])
    fix es' s' assume sub: "set es' \<subseteq> set es" "tick_count es \<le> tick_count es' + 102"
    show "ends_within 8 es' (pll_config (PLL (osc_settings junk)) es' s')" by (rule pll) (use sub assms in auto)
  qed
  moreover have "HAL_RCC_OscConfig (Some (osc_settings junk)) es s =
      then_do (hse_config (osc_settings junk) es s) (\<lambda>es s. pll_config (PLL (osc_settings junk)) es s)"
    by (simp add: HAL_RCC_OscConfig_def) (simp add: then_do_def osc_settings_def)
  ultimately show ?thesis by simp
qed

lemma clk_ends:
  assumes "\<forall>e \<in> set es. ticking e \<or> still e" and "5002 \<le> tick_count es"
  shows "ends_within 5002 es (HAL_RCC_ClockConfig (Some clk_settings) 5 es s)"
proof -
  have lat: "ends_within 0 es' (set_latency need n es' s')" for need n es' s'
    by (simp add: set_latency_def Let_def)
  have sw: "ends_within 5002 es' (sysclk_config clk_settings es' t)"
    if "set es' \<subseteq> set es" "tick_count es \<le> tick_count es'" for es' t
  proof -
    have "\<forall>e \<in> set es'. ticking e \<or> still e" "5002 \<le> tick_count es'" using that assms by auto
    then show ?thesis using wait_ends [of es' 5000] by (simp add: sysclk_config_def)
  qed
  have "ends_within (0 + (5002 + (0 + 0))) es (HAL_RCC_ClockConfig (Some clk_settings) 5 es s)"
    unfolding HAL_RCC_ClockConfig_def option.case Let_def
    by (intro then_ends lat) (simp_all add: sw)
  then show ?thesis by simp
qed

text \<open>C31: \<open>SystemClock_Config\<close> never polls for ever: while the tick counter runs it comes to its end or
  to one of its two error loops before 5112 ticks have passed, whatever the hardware does to its flags,
  whatever the registers held, and also when the tick counter wraps meanwhile.\<close>

theorem clock_polling_ends:
  assumes "\<forall>e \<in> set es. ticking e \<or> still e" and "5112 \<le> tick_count es"
  shows "\<exists>ok es' s'. SystemClock_Config junk revid es s = Some (ok, es', s') \<and> tick_count es \<le> tick_count es' + 5112"
proof -
  define s0 where "s0 = s\<lparr>APB1ENR := APB1ENR s OR RCC_APB1ENR_PWREN,
    PWR_CR := MODIFY_REG (PWR_CR s) PWR_CR_VOS PWR_CR_VOS\<rparr>"
  obtain r1 es1 s1 where o: "HAL_RCC_OscConfig (Some (osc_settings junk)) es s0 = Some (r1, es1, s1)"
    "set es1 \<subseteq> set es" "tick_count es \<le> tick_count es1 + 110"
    using osc_ends [OF assms(1), of junk s0] assms(2) by (auto simp: ends_within_def)
  obtain r2 es2 s2 where c: "HAL_RCC_ClockConfig (Some clk_settings) 5 es1 s1 = Some (r2, es2, s2)"
    "tick_count es1 \<le> tick_count es2 + 5002"
  proof -
    have "\<forall>e \<in> set es1. ticking e \<or> still e" "5002 \<le> tick_count es1" using o(2,3) assms by auto
    then show ?thesis using clk_ends [of es1 s1] that by (auto simp: ends_within_def)
  qed
  show ?thesis
    using o c by (auto simp: SystemClock_Config_def s0_def [symmetric] Let_def)
qed

section \<open>A hardware that answers\<close>

definition ready_hw :: "clk \<Rightarrow> clk" where
  "ready_hw s = s\<lparr>RCC_CR := MODIFY_REG (RCC_CR s) ready_flags ((push_bit 1 (RCC_CR s)) AND ready_flags),
     CFGR := MODIFY_REG (CFGR s) RCC_CFGR_SWS ((push_bit 2 (CFGR s)) AND RCC_CFGR_SWS), uwTick := uwTick s + 1\<rparr>"

definition reset_clk :: clk where
  "reset_clk = SystemInit \<lparr>RCC_CR = 0x83, PLLCFGR = 0x24003010, CFGR = 0, CIR = 0, APB1ENR = 0, AHB1ENR = 0, BDCR = 0,
     CSR = 0, PWR_CR = 0xC000, FLASH_ACR = 0, CPACR = 0, VTOR = 0, SysTick_LOAD = 0, SysTick_VAL = 0, SysTick_CTRL = 0,
     SHP_SysTick = 0, clk_nvic = \<lparr>PRIGROUP = 3, IP = (\<lambda>_. 0), ISER = (\<lambda>_. False)\<rparr>, uwTick = 0xFFFFFFFE,
     uwTickPrio = 15, uwTickFreq = 1, SystemCoreClock = HSI_VALUE\<rparr>"

definition any_osc :: RCC_OscInitTypeDef where
  "any_osc = \<lparr>OscillatorType = 0, HSEState = 0, LSEState = 0, HSIState = 0, HSICalibrationValue = 0, LSIState = 0,
     PLL = \<lparr>PLLState = 0, PLLSource = 0, PLLM = 0, PLLN = 0, PLLP = 0, PLLQ = 0\<rparr>\<rparr>"

lemma hw_step_ready: "hw_step ready_hw"
  unfolding hw_step_def
proof
  fix s
  have "MODIFY_REG r m (r AND m) = (r :: u32)" for r m
    unfolding MODIFY_REG_def by (rule bit_word_eqI) (auto simp: bit_simps)
  then have "ready_hw s = s\<lparr>RCC_CR := MODIFY_REG (RCC_CR s) ready_flags (push_bit 1 (RCC_CR s) AND ready_flags),
       CFGR := MODIFY_REG (CFGR s) RCC_CFGR_SWS (push_bit 2 (CFGR s) AND RCC_CFGR_SWS),
       BDCR := MODIFY_REG (BDCR s) RCC_BDCR_LSERDY (BDCR s AND RCC_BDCR_LSERDY),
       CSR := MODIFY_REG (CSR s) RCC_CSR_LSIRDY (CSR s AND RCC_CSR_LSIRDY), uwTick := uwTick s + 1\<rparr>"
    by (simp add: ready_hw_def)
  then show "\<exists>cr cf bd cs t. ready_hw s =
     s\<lparr>RCC_CR := MODIFY_REG (RCC_CR s) ready_flags (cr AND ready_flags),
       CFGR := MODIFY_REG (CFGR s) RCC_CFGR_SWS (cf AND RCC_CFGR_SWS),
       BDCR := MODIFY_REG (BDCR s) RCC_BDCR_LSERDY (bd AND RCC_BDCR_LSERDY),
       CSR := MODIFY_REG (CSR s) RCC_CSR_LSIRDY (cs AND RCC_CSR_LSIRDY), uwTick := t\<rparr>" by blast
qed

lemma tick_count_replicate: "ticking e \<Longrightarrow> tick_count (replicate k e) = k"
  by (simp add: tick_count_def)

lemma clock_polling_ends_witness:
  "\<exists>ok es' s'. SystemClock_Config any_osc 0 (replicate 5112 (\<lambda>s. s\<lparr>uwTick := uwTick s + 1\<rparr>)) reset_clk = Some (ok, es', s')"
proof -
  have t: "ticking (\<lambda>s. s\<lparr>uwTick := uwTick s + 1\<rparr>)" by (simp add: ticking_def)
  have P: "\<forall>e \<in> set (replicate 5112 (\<lambda>s :: clk. s\<lparr>uwTick := uwTick s + 1\<rparr>)). ticking e \<or> still e"
    "5112 \<le> tick_count (replicate 5112 (\<lambda>s. s\<lparr>uwTick := uwTick s + 1\<rparr>))"
    using t tick_count_replicate [OF t] by auto
  show ?thesis using clock_polling_ends [OF P] by blast
qed

definition set_up :: "(bool \<times> hw_steps \<times> clk) option \<Rightarrow> bool" where
  "set_up r = (case r of Some (ok, es, s) \<Rightarrow> ok | None \<Rightarrow> False)"

lemma ready_run: "set_up (SystemClock_Config any_osc 0 (replicate 4 ready_hw) reset_clk)"
  by code_simp

lemma clocks_configured_witness:
  "\<exists>es' s'. SystemClock_Config any_osc 0 (replicate 4 ready_hw) reset_clk = Some (True, es', s') \<and>
    HAL_RCC_GetHCLKFreq s' = 168000000 \<and> SysTick_LOAD s' = 167999"
proof -
  obtain es' s' where R: "SystemClock_Config any_osc 0 (replicate 4 ready_hw) reset_clk = Some (True, es', s')"
    using ready_run by (auto simp: set_up_def split: option.splits)
  have "\<forall>e \<in> set (replicate 4 ready_hw). hw_step e" using hw_step_ready by simp
  from clocks_configured [OF R this] show ?thesis using R by blast
qed

section \<open>Delays\<close>

lemma delay_loop_ends:
  assumes "\<forall>e \<in> set es. ticking e \<or> still e" and "unat (uwTick s - t0) \<le> unat w" and "unat w < 4294967295"
    and "unat w + 1 \<le> tick_count es + unat (uwTick s - t0)"
  shows "\<exists>es' s'. delay_loop t0 w es s = Some (es', s') \<and> unat w \<le> unat (uwTick s' - t0) \<and>
    unat (uwTick s' - t0) \<le> unat w + 1"
  using assms
proof (induction t0 w es s rule: delay_loop.induct)
  case (1 t0 w s)
  then show ?case by simp
next
  case (2 t0 w e es s)
  have e: "unat (uwTick (e s) - t0) = unat (uwTick s - t0) + (if ticking e then 1 else 0)"
    using "2.prems"(1,2,3) by (intro step_tick) simp_all
  show ?case
  proof (cases "HAL_GetTick (e s) - t0 < w")
    case True
    then have "unat (uwTick (e s) - t0) \<le> unat w" by (simp add: HAL_GetTick_def word_less_nat_alt)
    with "2.IH" [OF refl True _ this "2.prems"(3)] True e "2.prems" show ?thesis by (simp split: if_splits)
  next
    case False
    then show ?thesis using e "2.prems"(2) by (simp add: HAL_GetTick_def word_less_nat_alt)
  qed
qed

text \<open>C32: \<open>HAL_Delay\<close> ends when the tick counter runs, and not before the delay has passed in full: the tick
  in progress when it is called does not count. The counter may wrap meanwhile.\<close>

theorem HAL_Delay_waits:
  assumes "\<forall>e \<in> set es. ticking e \<or> still e" and "uwTickFreq s = 1" and "unat n < 4294967294" and "unat n + 2 \<le> tick_count es"
  shows "\<exists>es' s'. HAL_Delay n es s = Some (es', s') \<and> unat n + 1 \<le> unat (uwTick s' - uwTick s) \<and>
    unat (uwTick s' - uwTick s) \<le> unat n + 2"
proof -
  have lt: "n < HAL_MAX_DELAY" using assms(3) by (simp add: word_less_nat_alt HAL_MAX_DELAY_def)
  have n1: "unat (n + 1) = unat n + 1" using assms(3) by (simp add: unat_word_ariths)
  show ?thesis
    using delay_loop_ends [OF assms(1), of s "uwTick s" "n + 1"] assms(2-4) lt n1
    by (simp add: HAL_Delay_def HAL_GetTick_def Let_def)
qed

lemma HAL_Delay_waits_witness:
  "\<exists>es' s'. HAL_Delay 5 (replicate 7 (\<lambda>s. s\<lparr>uwTick := uwTick s + 1\<rparr>)) reset_clk = Some (es', s') \<and>
    6 \<le> unat (uwTick s' - 0xFFFFFFFE) \<and> unat (uwTick s' - 0xFFFFFFFE) \<le> 7"
proof -
  let ?e = "\<lambda>s :: clk. s\<lparr>uwTick := uwTick s + 1\<rparr>"
  have t: "ticking ?e" by (simp add: ticking_def)
  have P: "\<forall>e \<in> set (replicate 7 ?e). ticking e \<or> still e" "uwTickFreq reset_clk = 1" "unat (5 :: u32) < 4294967294"
    "unat (5 :: u32) + 2 \<le> tick_count (replicate 7 ?e)"
    using t tick_count_replicate [OF t, of 7] by (simp_all add: reset_clk_def SystemInit_def Let_def)
  have "uwTick reset_clk = 0xFFFFFFFE" by (simp add: reset_clk_def SystemInit_def Let_def)
  then show ?thesis using HAL_Delay_waits [OF P] by simp
qed

end
