(* ===== verification/Timers.thy ===== *)
theory Timers
  imports RtosList RtosQueueSpec
begin

text \<open>
  The software timers of the kernel (FreeRTOS/src/timers.c): the two lists of active timers on the
  pointer level of RtosList, the command queue, and the service task, whose endless loop is cut
  where it blocks. The queue is the bounded list which RtosQueueSpec proves a kernel queue to be; calls with a
  block time 0 are modelled (the only ones of the program). Reading the tick counter may find that
  ticks have passed since the last reading (\<open>drift\<close>). A call back is logged with its timer; what it does
  outside the timers is left to the client (the one of the program notifies a task).
\<close>

section \<open>Timers and commands\<close>

record Timer_t =
  pcTimerName :: string
  xTimerPeriodInTicks :: u32
  uxAutoReload :: u32
  pvTimerID :: u32
  pxCallbackFunction :: nat

datatype tmrCOMMAND = tmrCOMMAND_START_DONT_TRACE | tmrCOMMAND_START | tmrCOMMAND_RESET | tmrCOMMAND_STOP
  | tmrCOMMAND_CHANGE_PERIOD | tmrCOMMAND_DELETE | tmrCOMMAND_START_FROM_ISR | tmrCOMMAND_RESET_FROM_ISR
  | tmrCOMMAND_STOP_FROM_ISR | tmrCOMMAND_CHANGE_PERIOD_FROM_ISR

record DaemonTaskMessage_t =
  xMessageID :: tmrCOMMAND
  xMessageValue :: u32
  pxTimer :: nat

record tmr =
  tlists :: list_store
  pxCurrentTimerList :: nat
  pxOverflowTimerList :: nat
  timer :: "nat \<Rightarrow> Timer_t"
  freed :: "nat set"
  xTimerQueue :: "DaemonTaskMessage_t list option"
  xLastTime :: u32
  tmr_tick :: u32
  drift :: "nat list"
  callbacks :: "(nat \<times> nat) list"

definition configTIMER_QUEUE_LENGTH :: nat where "configTIMER_QUEUE_LENGTH = 10"

definition pdTRUE :: u32 where "pdTRUE = 1"

definition tmr_xTaskGetTickCount :: "tmr \<Rightarrow> u32 \<times> tmr" where
  "tmr_xTaskGetTickCount s =
    (let now = tmr_tick s + (case drift s of [] \<Rightarrow> 0 | d # _ \<Rightarrow> of_nat d)
     in (now, s\<lparr>tmr_tick := now, drift := tl (drift s)\<rparr>))"

definition call_back :: "nat \<Rightarrow> tmr \<Rightarrow> tmr" where
  "call_back t s = s\<lparr>callbacks := callbacks s @ [(pxCallbackFunction (timer s t), t)]\<rparr>"

text \<open>The lists live at the addresses 1 and 2; \<open>made\<close> says whether the queue could be created.\<close>

definition prvCheckForValidListAndQueue :: "bool \<Rightarrow> tmr \<Rightarrow> tmr" where
  "prvCheckForValidListAndQueue made s =
    (if xTimerQueue s = None then
       s\<lparr>tlists := vListInitialise 2 (vListInitialise 1 (tlists s)), pxCurrentTimerList := 1,
         pxOverflowTimerList := 2, xTimerQueue := (if made then Some [] else None)\<rparr>
     else s)"

definition prvInitialiseNewTimer ::
    "bool \<Rightarrow> string \<Rightarrow> u32 \<Rightarrow> u32 \<Rightarrow> u32 \<Rightarrow> nat \<Rightarrow> nat \<Rightarrow> tmr \<Rightarrow> tmr" where
  "prvInitialiseNewTimer made name period reload id' cb t s =
    (let s = prvCheckForValidListAndQueue made s;
         s = s\<lparr>timer := (timer s)(t := \<lparr>pcTimerName = name, xTimerPeriodInTicks = period, uxAutoReload = reload,
           pvTimerID = id', pxCallbackFunction = cb\<rparr>)\<rparr>
     in s\<lparr>tlists := vListInitialiseItem t (tlists s)\<rparr>)"

text \<open>The memory of the timer is what the heap gives, \<open>None\<close> when it gives NULL.\<close>

definition xTimerCreate ::
    "nat option \<Rightarrow> bool \<Rightarrow> string \<Rightarrow> u32 \<Rightarrow> u32 \<Rightarrow> u32 \<Rightarrow> nat \<Rightarrow> tmr \<Rightarrow> nat option \<times> tmr" where
  "xTimerCreate mem made name period reload id' cb s =
    (case mem of None \<Rightarrow> (None, s)
     | Some t \<Rightarrow> (Some t, prvInitialiseNewTimer made name period reload id' cb t s))"

definition xTimerGenericCommand :: "nat \<Rightarrow> tmrCOMMAND \<Rightarrow> u32 \<Rightarrow> tmr \<Rightarrow> bool \<times> tmr" where
  "xTimerGenericCommand t cmd v s =
    (case xTimerQueue s of None \<Rightarrow> (False, s)
     | Some q \<Rightarrow>
        let (ok, q) = list_send configTIMER_QUEUE_LENGTH queueSEND_TO_BACK
              \<lparr>xMessageID = cmd, xMessageValue = v, pxTimer = t\<rparr> q
        in (ok, s\<lparr>xTimerQueue := Some q\<rparr>))"

definition xTimerStart :: "nat \<Rightarrow> tmr \<Rightarrow> bool \<times> tmr" where
  "xTimerStart t s = (let (now, s) = tmr_xTaskGetTickCount s in xTimerGenericCommand t tmrCOMMAND_START now s)"

definition xTimerGetPeriod :: "nat \<Rightarrow> tmr \<Rightarrow> u32" where
  "xTimerGetPeriod t s = xTimerPeriodInTicks (timer s t)"

definition xTimerGetExpiryTime :: "nat \<Rightarrow> tmr \<Rightarrow> u32" where
  "xTimerGetExpiryTime t s = xItemValue (item (tlists s) (Item t))"

definition xTimerIsTimerActive :: "nat \<Rightarrow> tmr \<Rightarrow> bool" where
  "xTimerIsTimerActive t s \<longleftrightarrow> pvContainer (item (tlists s) (Item t)) \<noteq> None"

definition pvTimerGetTimerID :: "nat \<Rightarrow> tmr \<Rightarrow> u32" where
  "pvTimerGetTimerID t s = pvTimerID (timer s t)"

definition vTimerSetTimerID :: "nat \<Rightarrow> u32 \<Rightarrow> tmr \<Rightarrow> tmr" where
  "vTimerSetTimerID t id' s = s\<lparr>timer := (timer s)(t := (timer s t)\<lparr>pvTimerID := id'\<rparr>)\<rparr>"

section \<open>The service task\<close>

definition in_lists :: "(list_store \<Rightarrow> list_store option) \<Rightarrow> tmr \<Rightarrow> tmr option" where
  "in_lists f s = map_option (\<lambda>h. s\<lparr>tlists := h\<rparr>) (f (tlists s))"

definition prvInsertTimerInActiveList :: "nat \<Rightarrow> u32 \<Rightarrow> u32 \<Rightarrow> u32 \<Rightarrow> tmr \<Rightarrow> (bool \<times> tmr) option" where
  "prvInsertTimerInActiveList t xNextExpiryTime xTimeNow xCommandTime s =
    (let h = upd_item (Item t) (xItemValue_update (\<lambda>_. xNextExpiryTime)) (tlists s);
         s = s\<lparr>tlists := upd_item (Item t) (pvOwner_update (\<lambda>_. t)) h\<rparr>
     in if xNextExpiryTime \<le> xTimeNow then
          if xTimerPeriodInTicks (timer s t) \<le> xTimeNow - xCommandTime then Some (True, s)
          else map_option (Pair False) (in_lists (vListInsert (pxOverflowTimerList s) t) s)
        else if xTimeNow < xCommandTime \<and> xCommandTime \<le> xNextExpiryTime then Some (True, s)
        else map_option (Pair False) (in_lists (vListInsert (pxCurrentTimerList s) t) s))"

definition tmr_remove :: "nat \<Rightarrow> tmr \<Rightarrow> tmr option" where
  "tmr_remove t = in_lists (\<lambda>h. map_option snd (uxListRemove t h))"

definition prvProcessExpiredTimer :: "u32 \<Rightarrow> u32 \<Rightarrow> tmr \<Rightarrow> tmr option" where
  "prvProcessExpiredTimer xNextExpireTime xTimeNow s =
    (let t = listGET_OWNER_OF_HEAD_ENTRY (tlists s) (pxCurrentTimerList s)
     in Option.bind (tmr_remove t s) (\<lambda>s.
        if uxAutoReload (timer s t) = pdTRUE then
          Option.bind (prvInsertTimerInActiveList t (xNextExpireTime + xTimerPeriodInTicks (timer s t))
            xTimeNow xNextExpireTime s)
          (\<lambda>(again, s). Some (call_back t
             (if again then snd (xTimerGenericCommand t tmrCOMMAND_START_DONT_TRACE xNextExpireTime s) else s)))
        else Some (call_back t s)))"

partial_function (option) switch_loop :: "tmr \<Rightarrow> tmr option" where
  "switch_loop s =
    (if listLIST_IS_EMPTY (tlists s) (pxCurrentTimerList s) then Some s
     else
       let xNextExpireTime = listGET_ITEM_VALUE_OF_HEAD_ENTRY (tlists s) (pxCurrentTimerList s);
           t = listGET_OWNER_OF_HEAD_ENTRY (tlists s) (pxCurrentTimerList s)
       in Option.bind (tmr_remove t s) (\<lambda>s.
          let s = call_back t s
          in if uxAutoReload (timer s t) = pdTRUE then
               let xReloadTime = xNextExpireTime + xTimerPeriodInTicks (timer s t)
               in if xNextExpireTime < xReloadTime then
                    let h = upd_item (Item t) (xItemValue_update (\<lambda>_. xReloadTime)) (tlists s);
                        s = s\<lparr>tlists := upd_item (Item t) (pvOwner_update (\<lambda>_. t)) h\<rparr>
                    in Option.bind (in_lists (vListInsert (pxCurrentTimerList s) t) s) switch_loop
                  else switch_loop (snd (xTimerGenericCommand t tmrCOMMAND_START_DONT_TRACE xNextExpireTime s))
             else switch_loop s))"

definition prvSwitchTimerLists :: "tmr \<Rightarrow> tmr option" where
  "prvSwitchTimerLists s = map_option
    (\<lambda>s. s\<lparr>pxCurrentTimerList := pxOverflowTimerList s, pxOverflowTimerList := pxCurrentTimerList s\<rparr>)
    (switch_loop s)"

definition prvSampleTimeNow :: "tmr \<Rightarrow> (u32 \<times> bool \<times> tmr) option" where
  "prvSampleTimeNow s =
    (let (xTimeNow, s) = tmr_xTaskGetTickCount s
     in if xTimeNow < xLastTime s
        then map_option (\<lambda>s. (xTimeNow, True, s\<lparr>xLastTime := xTimeNow\<rparr>)) (prvSwitchTimerLists s)
        else Some (xTimeNow, False, s\<lparr>xLastTime := xTimeNow\<rparr>))"

definition prvGetNextExpireTime :: "tmr \<Rightarrow> u32 \<times> bool" where
  "prvGetNextExpireTime s =
    (let empty = listLIST_IS_EMPTY (tlists s) (pxCurrentTimerList s)
     in (if \<not> empty then listGET_ITEM_VALUE_OF_HEAD_ENTRY (tlists s) (pxCurrentTimerList s) else 0, empty))"

text \<open>With the new state: the time for which the task blocks and whether it does so without a limit,
  \<open>None\<close> when it goes on. It blocks only on an empty queue.\<close>

definition prvProcessTimerOrBlockTask :: "u32 \<Rightarrow> bool \<Rightarrow> tmr \<Rightarrow> ((u32 \<times> bool) option \<times> tmr) option" where
  "prvProcessTimerOrBlockTask xNextExpireTime xListWasEmpty s =
    Option.bind (prvSampleTimeNow s) (\<lambda>(xTimeNow, switched, s).
      if \<not> switched then
        if \<not> xListWasEmpty \<and> xNextExpireTime \<le> xTimeNow
        then map_option (Pair None) (prvProcessExpiredTimer xNextExpireTime xTimeNow s)
        else
          let xListWasEmpty = (if xListWasEmpty then listLIST_IS_EMPTY (tlists s) (pxOverflowTimerList s) else False)
          in Some (if xTimerQueue s = Some [] then Some (xNextExpireTime - xTimeNow, xListWasEmpty) else None, s)
      else Some (None, s))"

definition process_command :: "DaemonTaskMessage_t \<Rightarrow> tmr \<Rightarrow> tmr option" where
  "process_command m s =
    (let t = pxTimer m
     in Option.bind (if pvContainer (item (tlists s) (Item t)) \<noteq> None then tmr_remove t s else Some s) (\<lambda>s.
        Option.bind (prvSampleTimeNow s) (\<lambda>(xTimeNow, _, s).
        if xMessageID m \<in> {tmrCOMMAND_START, tmrCOMMAND_START_FROM_ISR, tmrCOMMAND_RESET, tmrCOMMAND_RESET_FROM_ISR,
            tmrCOMMAND_START_DONT_TRACE} then
          Option.bind (prvInsertTimerInActiveList t (xMessageValue m + xTimerPeriodInTicks (timer s t)) xTimeNow
            (xMessageValue m) s) (\<lambda>(expired, s).
            Some (if expired then
              let s = call_back t s
              in if uxAutoReload (timer s t) = pdTRUE
                 then snd (xTimerGenericCommand t tmrCOMMAND_START_DONT_TRACE
                   (xMessageValue m + xTimerPeriodInTicks (timer s t)) s)
                 else s
            else s))
        else if xMessageID m \<in> {tmrCOMMAND_CHANGE_PERIOD, tmrCOMMAND_CHANGE_PERIOD_FROM_ISR} then
          let s = s\<lparr>timer := (timer s)(t := (timer s t)\<lparr>xTimerPeriodInTicks := xMessageValue m\<rparr>)\<rparr>
          in map_option snd (prvInsertTimerInActiveList t (xTimeNow + xTimerPeriodInTicks (timer s t)) xTimeNow xTimeNow s)
        else if xMessageID m = tmrCOMMAND_DELETE then Some (s\<lparr>freed := insert t (freed s)\<rparr>)
        else Some s)))"

partial_function (option) prvProcessReceivedCommands :: "tmr \<Rightarrow> tmr option" where
  "prvProcessReceivedCommands s =
    (case list_receive (the (xTimerQueue s)) of
       (None, q) \<Rightarrow> Some s
     | (Some m, q) \<Rightarrow> Option.bind (process_command m (s\<lparr>xTimerQueue := Some q\<rparr>)) prvProcessReceivedCommands)"

text \<open>The loop of \<open>prvTimerTask\<close>: until it blocks, and from its waking up to the next time.\<close>

partial_function (option) until_block :: "tmr \<Rightarrow> ((u32 \<times> bool) \<times> tmr) option" where
  "until_block s =
    (let (xNextExpireTime, xListWasEmpty) = prvGetNextExpireTime s
     in Option.bind (prvProcessTimerOrBlockTask xNextExpireTime xListWasEmpty s) (\<lambda>(b, s).
        case b of Some w \<Rightarrow> Some (w, s)
        | None \<Rightarrow> Option.bind (prvProcessReceivedCommands s) until_block))"

definition prvTimerTask_wake :: "tmr \<Rightarrow> ((u32 \<times> bool) \<times> tmr) option" where
  "prvTimerTask_wake s = Option.bind (prvProcessReceivedCommands s) until_block"

section \<open>Lists of timers\<close>

text \<open>The list \<open>l\<close> holds the timers \<open>ns\<close> in this order.\<close>

definition tlist :: "list_store \<Rightarrow> nat \<Rightarrow> nat list \<Rightarrow> bool" where
  "tlist h l ns \<longleftrightarrow> (\<exists>r. ring_rep h l r \<and> items_of l r = map Item ns)"

lemma ring_items:
  assumes "ring_rep h l r"
  shows "length r = Suc (length (items_of l r))" "set r = insert (End l) (set (items_of l r))"
    "distinct (items_of l r)" "End l \<notin> set (items_of l r)"
proof -
  obtain us vs where s: "r = us @ End l # vs" "items_of l r = vs @ us" using ring_split [OF assms] by metis
  then show "length r = Suc (length (items_of l r))" "set r = insert (End l) (set (items_of l r))"
    "distinct (items_of l r)" "End l \<notin> set (items_of l r)"
    using ring_repD(3) [OF assms] by auto
qed

lemma tlist_empty: "tlist h l ns \<Longrightarrow> length ns < 4294967296 \<Longrightarrow> listLIST_IS_EMPTY h l \<longleftrightarrow> ns = []"
proof -
  assume "tlist h l ns" and n: "length ns < 4294967296"
  then obtain r where r: "ring_rep h l r" "items_of l r = map Item ns" unfolding tlist_def by blast
  then have "length r \<le> 4294967296" using ring_items(1) [OF r(1)] n by simp
  from empty_ring [OF r(1) this] r(2) show ?thesis by simp
qed

lemma tlist_head:
  assumes "tlist h l (n # ns)"
  shows "listGET_OWNER_OF_HEAD_ENTRY h l = pvOwner (item h (Item n))"
    "listGET_ITEM_VALUE_OF_HEAD_ENTRY h l = xItemValue (item h (Item n))"
  using assms head_entry_ring unfolding tlist_def by (metis list.map(2))+

lemma tlist_container: "tlist h l ns \<Longrightarrow> n \<in> set ns \<Longrightarrow> pvContainer (item h (Item n)) = Some l"
  unfolding tlist_def using ring_repD(8) ring_items(2) by fastforce

lemma tlist_distinct: "tlist h l ns \<Longrightarrow> distinct ns"
  unfolding tlist_def using ring_items(3) by (metis distinct_map)

lemma Insert_sel:
  assumes "vListInsert l n h = Some h'"
  shows "pvOwner (item h' p) = pvOwner (item h p)" "xItemValue (item h' p) = xItemValue (item h p)"
    "pvContainer (item h' p) = (if p = Item n then Some l else pvContainer (item h p))"
  using assms by (auto simp: vListInsert_def Let_def split: Option.bind_splits if_splits)

lemma Remove_sel:
  assumes "uxListRemove n h = Some (k, h')"
  shows "pvOwner (item h' p) = pvOwner (item h p)" "xItemValue (item h' p) = xItemValue (item h p)"
    "pvContainer (item h' p) = (if p = Item n then None else pvContainer (item h p))"
  using assms by (auto simp: uxListRemove_def Let_def split: option.splits if_splits)

lemma tlist_insert:
  assumes "tlist h l ns" and "n \<notin> set ns"
  shows "\<exists>h'. vListInsert l n h = Some h' \<and>
    tlist h' l (insort_after (\<lambda>m. xItemValue (item h (Item m))) n ns) \<and>
    (\<forall>k ms. k \<noteq> l \<and> tlist h k ms \<and> n \<notin> set ms \<longrightarrow> tlist h' k ms)"
proof -
  obtain r where r: "ring_rep h l r" "items_of l r = map Item ns" using assms(1) unfolding tlist_def by blast
  have nr: "Item n \<notin> set r" using ring_items(2) [OF r(1)] r(2) assms(2) by auto
  obtain h' r' where I: "vListInsert l n h = Some h'" "ring_rep h' l r'"
    "items_of l r' = insort_after (\<lambda>p. xItemValue (item h p)) (Item n) (items_of l r)"
    "untouched (insert (Item n) (set r)) l h h'"
    using Insert_ring [OF r(1) nr] by blast
  have "insort_after (\<lambda>p. xItemValue (item h p)) (Item n) (map Item ns) =
      map Item (insort_after (\<lambda>m. xItemValue (item h (Item m))) n ns)"
    by (simp add: insort_after_def takeWhile_map dropWhile_map comp_def)
  then have "tlist h' l (insort_after (\<lambda>m. xItemValue (item h (Item m))) n ns)"
    using I(2,3) r(2) unfolding tlist_def by auto
  moreover have "tlist h' k ms" if "k \<noteq> l" "tlist h k ms" "n \<notin> set ms" for k ms
  proof -
    obtain rk where rk: "ring_rep h k rk" "items_of k rk = map Item ms" using \<open>tlist h k ms\<close> unfolding tlist_def by blast
    have "Item n \<notin> set rk" using ring_items(2) [OF rk(1)] rk(2) \<open>n \<notin> set ms\<close> by auto
    from other_ring [OF I(4) r(1) rk(1) \<open>k \<noteq> l\<close> this] rk(2) show ?thesis unfolding tlist_def by blast
  qed
  ultimately show ?thesis using I(1) by blast
qed

lemma items_of_remove:
  assumes "distinct r" and "End l \<in> set r" and "x \<in> set r" and "x \<noteq> End l"
  shows "items_of l (ring_remove x r) = remove1 x (items_of l r)"
proof -
  obtain us vs where r: "r = us @ End l # vs" using assms(2) by (meson split_list)
  have d: "End l \<notin> set us" "End l \<notin> set vs" "distinct us" "distinct vs" "set us \<inter> set vs = {}" using assms(1) r by auto
  show ?thesis
  proof (cases us)
    case Nil
    then show ?thesis using r assms(4) items_of_split [of l "[]"] by simp
  next
    case (Cons u us')
    show ?thesis
    proof (cases "u = x")
      case True
      then have xv: "x \<notin> set vs" "End l \<notin> set us'" using d Cons by auto
      show ?thesis
      proof (cases vs rule: rev_cases)
        case Nil
        then show ?thesis using r Cons True items_of_split [of l "[]" us'] items_of_split [of l "u # us'" "[]"] xv assms(4)
          by simp
      next
        case (snoc vs' w)
        have "w \<noteq> End l" using d(2) snoc by auto
        then have "End l \<notin> set (w # us')" using xv by auto
        from items_of_split [OF this, of vs'] have "items_of l (w # us' @ End l # vs') = vs' @ w # us'" by simp
        moreover have "ring_remove x r = w # us' @ End l # vs'" using r Cons True snoc by (simp add: butlast_append)
        moreover have "items_of l r = vs @ us" using d(1) r by simp
        ultimately show ?thesis using Cons True snoc xv by (simp add: remove1_append)
      qed
    next
      case False
      have "ring_remove x r = (if x \<in> set us' then (u # remove1 x us') @ End l # vs else us @ End l # remove1 x vs)"
        using r Cons False assms(4) by (simp add: remove1_append)
      moreover have "End l \<notin> set (u # remove1 x us')" using d(1) Cons notin_set_remove1 by fastforce
      moreover have "x \<in> set us' \<Longrightarrow> x \<notin> set vs" using d(5) Cons by auto
      moreover have "x \<notin> set us' \<Longrightarrow> x \<in> set vs" using assms(3,4) r Cons False by auto
      ultimately show ?thesis
        using r Cons False d(1) items_of_split [of l "u # remove1 x us'" vs]
          items_of_split [of l us "remove1 x vs"] items_of_split [of l us vs]
        by (auto simp: remove1_append)
    qed
  qed
qed

lemma tlist_remove:
  assumes "tlist h l ns" and "n \<in> set ns"
  shows "\<exists>k h'. uxListRemove n h = Some (k, h') \<and> tlist h' l (remove1 n ns) \<and>
    (\<forall>k ms. k \<noteq> l \<and> tlist h k ms \<longrightarrow> tlist h' k ms)"
proof -
  obtain r where r: "ring_rep h l r" "items_of l r = map Item ns" using assms(1) unfolding tlist_def by blast
  have nr: "Item n \<in> set r" using ring_items(2) [OF r(1)] r(2) assms(2) by auto
  obtain h' where I: "uxListRemove n h = Some (of_nat (length r - 2), h')" "ring_rep h' l (ring_remove (Item n) r)"
    "untouched (insert (Item n) (set r)) l h h'"
    using Remove_ring [OF r(1) nr] by blast
  have "items_of l (ring_remove (Item n) r) = remove1 (Item n) (items_of l r)"
    using items_of_remove ring_repD(3,5) [OF r(1)] nr by blast
  moreover have "remove1 (Item n) (map Item ns) = map Item (remove1 n ns)" by (induction ns) auto
  ultimately have "tlist h' l (remove1 n ns)" using I(2) r(2) unfolding tlist_def by auto
  moreover have "tlist h' k ms" if "k \<noteq> l" "tlist h k ms" for k ms
  proof -
    obtain rk where rk: "ring_rep h k rk" "items_of k rk = map Item ms" using \<open>tlist h k ms\<close> unfolding tlist_def by blast
    have "pvContainer (item h (Item n)) = Some l" using ring_repD(8) [OF r(1) nr] .
    then have "Item n \<notin> set rk" using ring_repD(8) [OF rk(1), of n] \<open>k \<noteq> l\<close> by auto
    from other_ring [OF I(3) r(1) rk(1) \<open>k \<noteq> l\<close> this] rk(2) show ?thesis unfolding tlist_def by blast
  qed
  ultimately show ?thesis using I(1) by blast
qed

section \<open>Active timers and their times\<close>

text \<open>
  \<open>armed s T E cs os\<close>: at the last reading of the tick counter it stood at the absolute time \<open>T\<close>
  (unbounded, the counter is \<open>T\<close> modulo \<open>2^32\<close>); the timers \<open>cs\<close> are in the current list and \<open>os\<close>
  in the overflow list; each will expire at the absolute time \<open>E\<close>, not before \<open>T\<close>, in the turn of the
  counter that its list stands for.
\<close>

definition period :: "tmr \<Rightarrow> nat \<Rightarrow> nat" where
  "period s t = unat (xTimerPeriodInTicks (timer s t))"

definition tvalue :: "tmr \<Rightarrow> nat \<Rightarrow> u32" where
  "tvalue s t = xItemValue (item (tlists s) (Item t))"

definition armed :: "tmr \<Rightarrow> nat \<Rightarrow> (nat \<Rightarrow> nat) \<Rightarrow> nat list \<Rightarrow> nat list \<Rightarrow> bool" where
  "armed s T E cs os \<longleftrightarrow> pxCurrentTimerList s \<noteq> pxOverflowTimerList s \<and>
     tlist (tlists s) (pxCurrentTimerList s) cs \<and> tlist (tlists s) (pxOverflowTimerList s) os \<and>
     distinct (cs @ os) \<and> (\<forall>t. t \<in> set cs \<union> set os \<longleftrightarrow> pvContainer (item (tlists s) (Item t)) \<noteq> None) \<and>
     length cs + length os < 4294967296 \<and>
     (\<forall>t \<in> set cs \<union> set os. pvOwner (item (tlists s) (Item t)) = t \<and> tvalue s t = of_nat (E t) \<and>
        T \<le> E t \<and> E t < T + 4294967296 \<and> 0 < period s t) \<and>
     (\<forall>t \<in> set cs. E t div 4294967296 = T div 4294967296) \<and>
     (\<forall>t \<in> set os. E t div 4294967296 = Suc (T div 4294967296)) \<and>
     sorted (map (tvalue s) cs) \<and> sorted (map (tvalue s) os) \<and> xLastTime s = of_nat T"

lemma of_nat_same_turn:
  assumes "a div 4294967296 = b div 4294967296"
  shows "(of_nat a :: u32) \<le> of_nat b \<longleftrightarrow> a \<le> b" "(of_nat a :: u32) < of_nat b \<longleftrightarrow> a < b"
proof -
  have u: "unat (of_nat n :: u32) = n mod 4294967296" for n by (simp add: unsigned_of_nat take_bit_eq_mod)
  have "a = 4294967296 * (a div 4294967296) + a mod 4294967296" "b = 4294967296 * (b div 4294967296) + b mod 4294967296"
    by simp_all
  then have "a mod 4294967296 \<le> b mod 4294967296 \<longleftrightarrow> a \<le> b" using assms by linarith
  then show "(of_nat a :: u32) \<le> of_nat b \<longleftrightarrow> a \<le> b" "(of_nat a :: u32) < of_nat b \<longleftrightarrow> a < b"
    using assms u by (simp_all add: word_le_nat_alt word_less_nat_alt) (metis div_mult_mod_eq leD linorder_le_less_linear nat_less_le)
qed

lemma of_nat_next_turn:
  assumes "b div 4294967296 = Suc (a div 4294967296)" and "b < a + 4294967296"
  shows "(of_nat b :: u32) < of_nat a"
proof -
  have u: "unat (of_nat n :: u32) = n mod 4294967296" for n by (simp add: unsigned_of_nat take_bit_eq_mod)
  have "a = 4294967296 * (a div 4294967296) + a mod 4294967296" "b = 4294967296 * (b div 4294967296) + b mod 4294967296"
    by simp_all
  then have "b mod 4294967296 < a mod 4294967296" using assms by linarith
  then show ?thesis by (simp add: word_less_nat_alt u)
qed

lemma turn_cases:
  assumes "(a :: nat) \<le> b" and "b < a + 4294967296"
  shows "b div 4294967296 = a div 4294967296 \<or> b div 4294967296 = Suc (a div 4294967296)"
proof -
  have "a div 4294967296 \<le> b div 4294967296" "b div 4294967296 \<le> (a + 4294967296) div 4294967296"
    using assms by (simp_all add: div_le_mono)
  then show ?thesis by auto
qed

lemma armedD:
  assumes "armed s T E cs os"
  shows "pxCurrentTimerList s \<noteq> pxOverflowTimerList s"
    "tlist (tlists s) (pxCurrentTimerList s) cs" "tlist (tlists s) (pxOverflowTimerList s) os"
    "distinct cs" "distinct os" "set cs \<inter> set os = {}"
    "t \<in> set cs \<union> set os \<longleftrightarrow> pvContainer (item (tlists s) (Item t)) \<noteq> None"
    "length cs < 4294967296" "length os < 4294967296"
    "t \<in> set cs \<union> set os \<Longrightarrow> pvOwner (item (tlists s) (Item t)) = t"
    "t \<in> set cs \<union> set os \<Longrightarrow> tvalue s t = of_nat (E t)"
    "t \<in> set cs \<union> set os \<Longrightarrow> T \<le> E t \<and> E t < T + 4294967296 \<and> 0 < period s t"
    "t \<in> set cs \<Longrightarrow> E t div 4294967296 = T div 4294967296"
    "t \<in> set os \<Longrightarrow> E t div 4294967296 = Suc (T div 4294967296)"
    "sorted (map (tvalue s) cs)" "sorted (map (tvalue s) os)" "xLastTime s = of_nat T"
  using assms unfolding armed_def by auto

text \<open>Only the lists, the periods and the last reading matter.\<close>

lemma armed_cong:
  assumes "tlists s' = tlists s" "pxCurrentTimerList s' = pxCurrentTimerList s"
    "pxOverflowTimerList s' = pxOverflowTimerList s" "timer s' = timer s" "xLastTime s' = xLastTime s"
  shows "armed s' T E cs os \<longleftrightarrow> armed s T E cs os"
proof -
  have "tvalue s' = tvalue s" "period s' = period s" using assms by (auto simp: tvalue_def period_def fun_eq_iff)
  then show ?thesis using assms by (simp add: armed_def)
qed

text \<open>Time passes within a turn of the counter, or into the next turn.\<close>

lemma armed_later:
  assumes "armed s T E cs os" and "T \<le> T'" and "\<forall>t \<in> set cs \<union> set os. T' \<le> E t"
    and "T' div 4294967296 = T div 4294967296 \<or> cs = [] \<and> os = []"
  shows "armed (s\<lparr>xLastTime := of_nat T'\<rparr>) T' E cs os"
proof -
  have "tvalue (s\<lparr>xLastTime := of_nat T'\<rparr>) = tvalue s" "period (s\<lparr>xLastTime := of_nat T'\<rparr>) = period s"
    by (auto simp: tvalue_def period_def fun_eq_iff)
  moreover have "\<forall>t \<in> set cs \<union> set os. E t < T' + 4294967296"
    using armedD(12) [OF assms(1)] assms(2) by fastforce
  ultimately show ?thesis using assms unfolding armed_def by auto
qed

lemma armed_next_turn:
  assumes "armed s T E [] os" and "T \<le> T'" and "\<forall>t \<in> set os. T' \<le> E t"
    and "T' div 4294967296 = Suc (T div 4294967296) \<or> os = []"
  shows "armed (s\<lparr>pxCurrentTimerList := pxOverflowTimerList s, pxOverflowTimerList := pxCurrentTimerList s,
    xLastTime := of_nat T'\<rparr>) T' E os []"
proof -
  let ?s = "s\<lparr>pxCurrentTimerList := pxOverflowTimerList s, pxOverflowTimerList := pxCurrentTimerList s, xLastTime := of_nat T'\<rparr>"
  have "tvalue ?s = tvalue s" "period ?s = period s" by (auto simp: tvalue_def period_def fun_eq_iff)
  moreover have "\<forall>t \<in> set os. E t < T' + 4294967296" using armedD(12) [OF assms(1)] assms(2) by fastforce
  ultimately show ?thesis using assms unfolding armed_def by auto
qed

text \<open>Reading the tick counter.\<close>

lemma switch_loop_empty:
  "listLIST_IS_EMPTY (tlists s) (pxCurrentTimerList s) \<Longrightarrow> switch_loop s = Some s"
  by (subst switch_loop.simps) simp

lemma sample_spec:
  assumes A: "armed s T E cs os" and T: "T \<le> T'" "\<forall>t \<in> set cs \<union> set os. T' \<le> E t"
    and tick: "tmr_tick s = of_nat T'" "drift s = []"
  shows "\<exists>sw s'. prvSampleTimeNow s = Some (of_nat T', sw, s') \<and>
    armed s' T' E (if sw then os else cs) (if sw then [] else os) \<and> (sw \<longrightarrow> cs = []) \<and>
    (T = T' \<longrightarrow> \<not> sw) \<and>
    (\<not> sw \<longrightarrow> s' = s\<lparr>tmr_tick := of_nat T', drift := [], xLastTime := of_nat T'\<rparr>) \<and> timer s' = timer s \<and> xTimerQueue s' = xTimerQueue s \<and> callbacks s' = callbacks s \<and>
    tmr_tick s' = tmr_tick s \<and> drift s' = [] \<and> freed s' = freed s \<and> tlists s' = tlists s"
proof -
  note D = armedD [OF A]
  define s0 where "s0 = s\<lparr>tmr_tick := of_nat T', drift := []\<rparr>"
  have s0: "tmr_xTaskGetTickCount s = (of_nat T', s0)" using tick by (simp add: tmr_xTaskGetTickCount_def s0_def Let_def)
  have A0: "armed s0 T E cs os" using A armed_cong [of s0 s] by (simp add: s0_def)
  show ?thesis
  proof (cases "(of_nat T' :: u32) < of_nat T")
    case True
    have ne: "T' div 4294967296 \<noteq> T div 4294967296" using of_nat_same_turn(2) [of T' T] True T(1) by auto
    have cs: "cs = []"
    proof (rule ccontr)
      assume "cs \<noteq> []"
      then obtain t where t: "t \<in> set cs" by (cases cs) auto
      then have "T \<le> T'" "T' \<le> E t" "E t div 4294967296 = T div 4294967296" using T D(13) by auto
      then have "T div 4294967296 \<le> T' div 4294967296" "T' div 4294967296 \<le> T div 4294967296"
        using div_le_mono [of T T' 4294967296] div_le_mono [of T' "E t" 4294967296] by simp_all
      then show False using ne by simp
    qed
    have "T' div 4294967296 = Suc (T div 4294967296)" if o: "os \<noteq> []"
    proof -
      obtain t where "t \<in> set os" using o by (cases os) auto
      then have "T' \<le> E t" "E t < T + 4294967296" using T(2) D(12) [of t] by auto
      then have "T' < T + 4294967296" by linarith
      then show ?thesis using turn_cases T(1) ne by blast
    qed
    then have N: "armed (s0\<lparr>pxCurrentTimerList := pxOverflowTimerList s0, pxOverflowTimerList := pxCurrentTimerList s0,
        xLastTime := of_nat T'\<rparr>) T' E os []"
      using armed_next_turn [of s0 T E os T'] A0 cs T by blast
    have "prvSwitchTimerLists s0 =
        Some (s0\<lparr>pxCurrentTimerList := pxOverflowTimerList s0, pxOverflowTimerList := pxCurrentTimerList s0\<rparr>)"
      using switch_loop_empty [of s0] tlist_empty [OF armedD(2) [OF A0] armedD(8) [OF A0]] cs
      by (simp add: prvSwitchTimerLists_def)
    moreover have "xLastTime s0 = of_nat T" using D(17) by (simp add: s0_def)
    ultimately have "prvSampleTimeNow s = Some (of_nat T', True,
        s0\<lparr>pxCurrentTimerList := pxOverflowTimerList s0, pxOverflowTimerList := pxCurrentTimerList s0, xLastTime := of_nat T'\<rparr>)"
      using s0 True by (simp add: prvSampleTimeNow_def)
    then show ?thesis using N cs True tick(1) by (auto simp: s0_def)
  next
    case False
    have "T' div 4294967296 = T div 4294967296 \<or> cs = [] \<and> os = []"
    proof (cases "cs = [] \<and> os = []")
      case False2: False
      then obtain t where "t \<in> set cs \<union> set os" by (cases cs; cases os) auto
      then have "T' \<le> E t" "E t < T + 4294967296" using T(2) D(12) [of t] by auto
      then have "T' < T + 4294967296" by linarith
      then show ?thesis using turn_cases [OF T(1)] of_nat_next_turn False by blast
    qed simp
    from armed_later [OF A0 T this] have "armed (s0\<lparr>xLastTime := of_nat T'\<rparr>) T' E cs os" .
    moreover have "prvSampleTimeNow s = Some (of_nat T', False, s0\<lparr>xLastTime := of_nat T'\<rparr>)"
      using s0 False D(17) by (simp add: prvSampleTimeNow_def s0_def)
    ultimately show ?thesis using tick(1) by (auto simp: s0_def)
  qed
qed

section \<open>Arming and disarming\<close>

lemma tlist_upd:
  assumes "\<And>x. pxNext (f x) = pxNext x" "\<And>x. pxPrevious (f x) = pxPrevious x" "\<And>x. pvContainer (f x) = pvContainer x"
  shows "tlist (upd_item (Item t) f h) l ns \<longleftrightarrow> tlist h l ns"
proof -
  have "linked (upd_item (Item t) f h) ps = linked h ps" for ps by (rule linked_cong) (simp_all add: assms)
  then have "ring_rep (upd_item (Item t) f h) l r \<longleftrightarrow> ring_rep h l r" for r
    by (simp add: ring_rep_def circ_def assms if_distrib cong: if_cong) (auto simp: assms)
  then show ?thesis by (simp add: tlist_def)
qed

lemma insort_after_facts:
  assumes "sorted (map f xs)"
  shows "sorted (map f (insort_after f x xs))" "set (insort_after f x xs) = insert x (set xs)"
    "distinct xs \<Longrightarrow> x \<notin> set xs \<Longrightarrow> distinct (insort_after f x xs)"
    "length (insort_after f x xs) = Suc (length xs)"
    "\<not> P x \<Longrightarrow> filter P (insort_after f x xs) = filter P xs"
proof -
  obtain us vs where "xs = us @ vs" "insort_after f x xs = us @ x # vs" "sorted (map f (us @ x # vs))"
    using insort_after_split [OF assms] by metis
  then show "sorted (map f (insort_after f x xs))" "set (insort_after f x xs) = insert x (set xs)"
    "distinct xs \<Longrightarrow> x \<notin> set xs \<Longrightarrow> distinct (insort_after f x xs)"
    "length (insort_after f x xs) = Suc (length xs)"
    "\<not> P x \<Longrightarrow> filter P (insort_after f x xs) = filter P xs" by auto
qed

text \<open>What an insertion does to the lists, whichever it goes into.\<close>

lemma in_lists_insert:
  assumes A: "armed s T E cs os" and t: "t \<notin> set cs \<union> set os" and room: "length cs + length os + 1 < 4294967296"
    and N: "T \<le> N" "N < T + 4294967296" "0 < period s t"
    and l: "if ov then l = pxOverflowTimerList s \<and> N div 4294967296 = Suc (T div 4294967296)
      else l = pxCurrentTimerList s \<and> N div 4294967296 = T div 4294967296"
  shows "\<exists>h' cs' os'. vListInsert l t (upd_item (Item t) (pvOwner_update (\<lambda>_. t))
        (upd_item (Item t) (xItemValue_update (\<lambda>_. of_nat N)) (tlists s))) = Some h' \<and>
      armed (s\<lparr>tlists := h'\<rparr>) T (E(t := N)) cs' os' \<and> set cs' \<union> set os' = insert t (set cs \<union> set os) \<and>
      length cs' + length os' = Suc (length cs + length os) \<and>
      (\<forall>P. \<not> P t \<longrightarrow> filter P cs' = filter P cs \<and> filter P os' = filter P os)"
proof -
  note D = armedD [OF A]
  let ?h = "upd_item (Item t) (pvOwner_update (\<lambda>_. t)) (upd_item (Item t) (xItemValue_update (\<lambda>_. of_nat N)) (tlists s))"
  let ?xs = "if ov then os else cs" and ?ys = "if ov then cs else os"
  let ?k = "if ov then pxCurrentTimerList s else pxOverflowTimerList s"
  let ?f = "\<lambda>m. xItemValue (item ?h (Item m))"
  have T: "tlist ?h l ?xs" "tlist ?h ?k ?ys" "?k \<noteq> l" "t \<notin> set ?xs" "t \<notin> set ?ys"
    using D(1,2,3) l t by (auto simp: tlist_upd split: if_splits)
  have f: "?f m = (if m = t then of_nat N else tvalue s m)" for m by (simp add: tvalue_def)
  have mf: "map ?f ms = map (tvalue s) ms" if "t \<notin> set ms" for ms
    unfolding f using that by (intro map_cong) auto
  have sorted: "sorted (map ?f ?xs)" "sorted (map ?f ?ys)"
    unfolding mf [OF T(4)] mf [OF T(5)] using D(15,16) by simp_all
  obtain h' where I: "vListInsert l t ?h = Some h'" "tlist h' l (insort_after ?f t ?xs)" "tlist h' ?k ?ys"
    using tlist_insert [OF T(1,4)] T(2,3,5) by blast
  note S = Insert_sel [OF I(1)]
  have tv: "tvalue (s\<lparr>tlists := h'\<rparr>) = ?f" by (rule ext) (simp add: tvalue_def S)
  have per: "period (s\<lparr>tlists := h'\<rparr>) = period s" by (rule ext) (simp add: period_def)
  note F = insort_after_facts [OF sorted(1), where x = t]
  let ?cs = "if ov then cs else insort_after ?f t cs" and ?os = "if ov then insort_after ?f t os else os"
  have "armed (s\<lparr>tlists := h'\<rparr>) T (E(t := N)) ?cs ?os"
    unfolding armed_def
  proof (intro conjI)
    show "pxCurrentTimerList (s\<lparr>tlists := h'\<rparr>) \<noteq> pxOverflowTimerList (s\<lparr>tlists := h'\<rparr>)" using D(1) by simp
    show "tlist (tlists (s\<lparr>tlists := h'\<rparr>)) (pxCurrentTimerList (s\<lparr>tlists := h'\<rparr>)) ?cs"
      "tlist (tlists (s\<lparr>tlists := h'\<rparr>)) (pxOverflowTimerList (s\<lparr>tlists := h'\<rparr>)) ?os"
      using I(2,3) l by (auto split: if_splits)
    show "distinct (?cs @ ?os)" using D(4,5,6) F(2,3) t by (auto split: if_splits)
    show "\<forall>u. u \<in> set ?cs \<union> set ?os \<longleftrightarrow> pvContainer (item (tlists (s\<lparr>tlists := h'\<rparr>)) (Item u)) \<noteq> None"
      using D(7) F(2) by (auto simp: S split: if_splits)
    show "length ?cs + length ?os < 4294967296" using room F(4) by (auto split: if_splits)
    show "\<forall>u \<in> set ?cs \<union> set ?os. pvOwner (item (tlists (s\<lparr>tlists := h'\<rparr>)) (Item u)) = u \<and>
        tvalue (s\<lparr>tlists := h'\<rparr>) u = of_nat ((E(t := N)) u) \<and> T \<le> (E(t := N)) u \<and> (E(t := N)) u < T + 4294967296 \<and>
        0 < period (s\<lparr>tlists := h'\<rparr>) u"
      using D(10-12) F(2) N t unfolding tv per f by (auto simp: S split: if_splits)
    show "\<forall>u \<in> set ?cs. (E(t := N)) u div 4294967296 = T div 4294967296"
      "\<forall>u \<in> set ?os. (E(t := N)) u div 4294967296 = Suc (T div 4294967296)"
      using D(13,14) F(2) l t by (auto split: if_splits)
    show "sorted (map (tvalue (s\<lparr>tlists := h'\<rparr>)) ?cs)" "sorted (map (tvalue (s\<lparr>tlists := h'\<rparr>)) ?os)"
      using F(1) sorted(2) unfolding tv by (auto split: if_splits)
    show "xLastTime (s\<lparr>tlists := h'\<rparr>) = of_nat T" using D(17) by simp
  qed
  moreover have "set ?cs \<union> set ?os = insert t (set cs \<union> set os)" "length ?cs + length ?os = Suc (length cs + length os)"
    "\<forall>P. \<not> P t \<longrightarrow> filter P ?cs = filter P cs \<and> filter P ?os = filter P os"
    using F(2,4,5) by (auto split: if_splits)
  ultimately show ?thesis using I(1) by blast
qed

text \<open>The insertion of the source: it puts a timer whose time is still to come into the right list, also when
  the counter has wrapped, or will wrap, between the command and that time.\<close>

lemma insert_spec:
  assumes A: "armed s T E cs os" and t: "t \<notin> set cs \<union> set os" and room: "length cs + length os + 1 < 4294967296"
    and N: "Tc \<le> T" "T < Tc + period s t"
  shows "\<exists>h' cs' os'. prvInsertTimerInActiveList t (of_nat (Tc + period s t)) (of_nat T) (of_nat Tc) s =
        Some (False, s\<lparr>tlists := h'\<rparr>) \<and>
      armed (s\<lparr>tlists := h'\<rparr>) T (E(t := Tc + period s t)) cs' os' \<and> set cs' \<union> set os' = insert t (set cs \<union> set os) \<and>
      length cs' + length os' = Suc (length cs + length os) \<and>
      (\<forall>P. \<not> P t \<longrightarrow> filter P cs' = filter P cs \<and> filter P os' = filter P os)"
proof -
  let ?N = "Tc + period s t"
  have p: "period s t < 4294967296" unfolding period_def by (rule unat_u32_lt)
  have b: "T \<le> ?N" "?N < T + 4294967296" "0 < period s t" using N p by linarith+
  let ?h = "upd_item (Item t) (pvOwner_update (\<lambda>_. t)) (upd_item (Item t) (xItemValue_update (\<lambda>_. of_nat ?N)) (tlists s))"
  show ?thesis
  proof (cases "?N div 4294967296 = T div 4294967296")
    case True
    have nle: "\<not> (of_nat ?N :: u32) \<le> of_nat T" using of_nat_same_turn(1) [OF True] N by simp
    have now: "\<not> ((of_nat T :: u32) < of_nat Tc \<and> (of_nat Tc :: u32) \<le> of_nat ?N)"
    proof (cases "T div 4294967296 = Tc div 4294967296")
      case T1: True
      then show ?thesis using of_nat_same_turn(2) [OF T1] N by simp
    next
      case False
      have "T < Tc + 4294967296" using N p by linarith
      then have "?N div 4294967296 = Suc (Tc div 4294967296)" using turn_cases [OF N(1)] False True by simp
      from of_nat_next_turn [OF this] show ?thesis using p by (simp add: not_le)
    qed
    obtain h' cs' os' where I: "vListInsert (pxCurrentTimerList s) t ?h = Some h'"
      "armed (s\<lparr>tlists := h'\<rparr>) T (E(t := ?N)) cs' os'" "set cs' \<union> set os' = insert t (set cs \<union> set os)"
      "length cs' + length os' = Suc (length cs + length os)"
      "\<forall>P. \<not> P t \<longrightarrow> filter P cs' = filter P cs \<and> filter P os' = filter P os"
      using in_lists_insert [OF A t room b, of False "pxCurrentTimerList s"] True by auto
    have "prvInsertTimerInActiveList t (of_nat ?N) (of_nat T) (of_nat Tc) s = Some (False, s\<lparr>tlists := h'\<rparr>)"
      unfolding prvInsertTimerInActiveList_def Let_def if_not_P [OF nle] if_not_P [OF now] in_lists_def
      using I(1) by simp
    then show ?thesis using I(2-5) by blast
  next
    case False
    then have nx: "?N div 4294967296 = Suc (T div 4294967296)" using turn_cases [OF b(1,2)] by simp
    have le: "(of_nat ?N :: u32) \<le> of_nat T" using of_nat_next_turn [OF nx b(2)] by simp
    have "unat ((of_nat T :: u32) - of_nat Tc) = T - Tc"
    proof -
      have "(of_nat T :: u32) - of_nat Tc = of_nat (T - Tc)" using N(1) by (simp add: of_nat_diff)
      moreover have "T - Tc < 4294967296" using N p by linarith
      ultimately show ?thesis by (simp add: unat_of_nat_u32)
    qed
    then have late: "\<not> xTimerPeriodInTicks (timer s t) \<le> of_nat T - of_nat Tc"
      using N unfolding word_le_nat_alt period_def by linarith
    obtain h' cs' os' where I: "vListInsert (pxOverflowTimerList s) t ?h = Some h'"
      "armed (s\<lparr>tlists := h'\<rparr>) T (E(t := ?N)) cs' os'" "set cs' \<union> set os' = insert t (set cs \<union> set os)"
      "length cs' + length os' = Suc (length cs + length os)"
      "\<forall>P. \<not> P t \<longrightarrow> filter P cs' = filter P cs \<and> filter P os' = filter P os"
      using in_lists_insert [OF A t room b, of True "pxOverflowTimerList s"] nx by auto
    have "prvInsertTimerInActiveList t (of_nat ?N) (of_nat T) (of_nat Tc) s = Some (False, s\<lparr>tlists := h'\<rparr>)"
      unfolding prvInsertTimerInActiveList_def Let_def if_P [OF le] in_lists_def
      using late I(1) by simp
    then show ?thesis using I(2-5) by blast
  qed
qed

lemma remove_spec:
  assumes A: "armed s T E cs os" and t: "t \<in> set cs \<union> set os"
  shows "\<exists>h'. tmr_remove t s = Some (s\<lparr>tlists := h'\<rparr>) \<and> armed (s\<lparr>tlists := h'\<rparr>) T E (remove1 t cs) (remove1 t os)"
proof -
  note D = armedD [OF A]
  define ov where "ov = (t \<in> set os)"
  let ?l = "if ov then pxOverflowTimerList s else pxCurrentTimerList s" and ?k = "if ov then pxCurrentTimerList s else pxOverflowTimerList s"
  have T: "tlist (tlists s) ?l (if ov then os else cs)" "t \<in> set (if ov then os else cs)"
    "tlist (tlists s) ?k (if ov then cs else os)" "?k \<noteq> ?l"
    using D(1,2,3) t by (auto simp: ov_def)
  obtain k h' where R: "uxListRemove t (tlists s) = Some (k, h')" "tlist h' ?l (remove1 t (if ov then os else cs))"
    "tlist h' ?k (if ov then cs else os)"
    using tlist_remove [OF T(1,2)] T(3,4) by blast
  note S = Remove_sel [OF R(1)]
  have idem: "t \<in> set os \<Longrightarrow> remove1 t cs = cs" "t \<notin> set os \<Longrightarrow> remove1 t os = os"
    using D(6) by (auto intro: remove1_idem)
  have lists: "tlist h' (pxCurrentTimerList s) (remove1 t cs)" "tlist h' (pxOverflowTimerList s) (remove1 t os)"
    using R(2,3) idem by (auto simp: ov_def split: if_splits)
  have tv: "tvalue (s\<lparr>tlists := h'\<rparr>) = tvalue s" "period (s\<lparr>tlists := h'\<rparr>) = period s"
    by (rule ext, simp add: tvalue_def period_def S)+
  have set: "set (remove1 t cs) \<union> set (remove1 t os) = (set cs \<union> set os) - {t}"
    "set (remove1 t cs) = set cs - {t}" "set (remove1 t os) = set os - {t}"
    using D(4,5) by auto
  have "armed (s\<lparr>tlists := h'\<rparr>) T E (remove1 t cs) (remove1 t os)"
    unfolding armed_def tv
  proof (intro conjI)
    show "distinct (remove1 t cs @ remove1 t os)" using D(4,5,6) set by auto
    show "\<forall>u. u \<in> set (remove1 t cs) \<union> set (remove1 t os) \<longleftrightarrow> pvContainer (item (tlists (s\<lparr>tlists := h'\<rparr>)) (Item u)) \<noteq> None"
      unfolding set using D(7) by (auto simp: S)
    have "length (remove1 t cs) + length (remove1 t os) \<le> length cs + length os"
      by (simp add: add_mono length_remove1)
    then show "length (remove1 t cs) + length (remove1 t os) < 4294967296" using A by (simp add: armed_def)
    show "sorted (map (tvalue s) (remove1 t cs))" "sorted (map (tvalue s) (remove1 t os))"
      using D(15,16) sorted_wrt_mono_rel by (metis sorted_map_remove1)+
  qed (use D lists set in \<open>auto simp: S\<close>)
  moreover have "tmr_remove t s = Some (s\<lparr>tlists := h'\<rparr>)" using R(1) by (simp add: tmr_remove_def in_lists_def)
  ultimately show ?thesis by blast
qed

section \<open>The service task until it blocks\<close>

definition reloads :: "tmr \<Rightarrow> nat \<Rightarrow> bool" where
  "reloads s t \<longleftrightarrow> uxAutoReload (timer s t) = pdTRUE"

definition call_of :: "tmr \<Rightarrow> nat \<Rightarrow> nat \<times> nat" where
  "call_of s t = (pxCallbackFunction (timer s t), t)"

text \<open>What the service task leaves alone.\<close>

definition quiet :: "tmr \<Rightarrow> tmr \<Rightarrow> bool" where
  "quiet s s' \<longleftrightarrow> timer s' = timer s \<and> xTimerQueue s' = xTimerQueue s \<and> tmr_tick s' = tmr_tick s \<and> drift s' = drift s \<and>
     freed s' = freed s"

lemma quiet_trans: "quiet s t \<Longrightarrow> quiet t u \<Longrightarrow> quiet s u"
  by (simp add: quiet_def)

lemma quiet_same: "quiet s s' \<Longrightarrow> period s' = period s \<and> reloads s' = reloads s \<and> call_of s' = call_of s"
  by (auto simp: quiet_def period_def reloads_def call_of_def fun_eq_iff)

lemma no_commands: "xTimerQueue s = Some [] \<Longrightarrow> prvProcessReceivedCommands s = Some s"
  by (subst prvProcessReceivedCommands.simps) simp

lemma armed_head:
  assumes A: "armed s T E (t # cs) os" and u: "u \<in> set cs"
  shows "E t \<le> E u"
proof -
  note D = armedD [OF A]
  have "tvalue s t \<le> tvalue s u" using D(15) u by simp
  then have "(of_nat (E t) :: u32) \<le> of_nat (E u)" using D(11) [of t] D(11) [of u] u by simp
  moreover have "E t div 4294967296 = E u div 4294967296" using D(13) [of t] D(13) [of u] u by simp
  ultimately show ?thesis using of_nat_same_turn(1) by blast
qed

lemma expired_spec:
  assumes A: "armed s T E (t # cs) os" and due: "E t = T"
  shows "\<exists>s' cs' os'. prvProcessExpiredTimer (of_nat T) (of_nat T) s = Some s' \<and>
    armed s' T (if reloads s t then E(t := T + period s t) else E) cs' os' \<and>
    set cs' \<union> set os' = (if reloads s t then insert t (set cs \<union> set os) else set cs \<union> set os) \<and>
    (\<forall>P. \<not> P t \<longrightarrow> filter P cs' = filter P cs \<and> filter P os' = filter P os) \<and>
    callbacks s' = callbacks s @ [call_of s t] \<and> quiet s s'"
proof -
  note D = armedD [OF A]
  have own: "listGET_OWNER_OF_HEAD_ENTRY (tlists s) (pxCurrentTimerList s) = t"
    using tlist_head(1) [OF D(2)] D(10) [of t] by simp
  obtain h where R: "tmr_remove t s = Some (s\<lparr>tlists := h\<rparr>)" "armed (s\<lparr>tlists := h\<rparr>) T E (remove1 t (t # cs)) (remove1 t os)"
    using remove_spec [OF A, of t] by auto
  have os: "remove1 t os = os" "t \<notin> set cs \<union> set os" using D(4,6) by (auto intro: remove1_idem)
  have A1: "armed (s\<lparr>tlists := h\<rparr>) T E cs os" using R(2) os(1) by simp
  show ?thesis
  proof (cases "reloads s t")
    case False
    then have "prvProcessExpiredTimer (of_nat T) (of_nat T) s = Some (call_back t (s\<lparr>tlists := h\<rparr>))"
      by (simp add: prvProcessExpiredTimer_def own R(1) reloads_def Let_def)
    moreover have "armed (call_back t (s\<lparr>tlists := h\<rparr>)) T E cs os"
      using A1 armed_cong [of "call_back t (s\<lparr>tlists := h\<rparr>)" "s\<lparr>tlists := h\<rparr>"] by (simp add: call_back_def)
    moreover have "callbacks (call_back t (s\<lparr>tlists := h\<rparr>)) = callbacks s @ [call_of s t]" "quiet s (call_back t (s\<lparr>tlists := h\<rparr>))"
      by (simp_all add: call_back_def call_of_def quiet_def)
    ultimately show ?thesis unfolding if_not_P [OF False] by blast
  next
    case True
    have room: "length cs + length os + 1 < 4294967296" using A by (simp add: armed_def)
    have per: "period (s\<lparr>tlists := h\<rparr>) t = period s t" by (simp add: period_def)
    have "T < T + period (s\<lparr>tlists := h\<rparr>) t" using D(12) [of t] per by simp
    from insert_spec [OF A1 os(2) room le_refl this] obtain h' cs' os' where
      I: "prvInsertTimerInActiveList t (of_nat (T + period s t)) (of_nat T) (of_nat T) (s\<lparr>tlists := h\<rparr>) = Some (False, s\<lparr>tlists := h'\<rparr>)"
        "armed (s\<lparr>tlists := h'\<rparr>) T (E(t := T + period s t)) cs' os'" "set cs' \<union> set os' = insert t (set cs \<union> set os)"
        "\<forall>P. \<not> P t \<longrightarrow> filter P cs' = filter P cs \<and> filter P os' = filter P os"
      unfolding per by auto
    have nx: "of_nat T + xTimerPeriodInTicks (timer s t) = (of_nat (T + period s t) :: u32)" by (simp add: period_def)
    have "prvProcessExpiredTimer (of_nat T) (of_nat T) s = Some (call_back t (s\<lparr>tlists := h'\<rparr>))"
      unfolding prvProcessExpiredTimer_def own Let_def
      using R(1) I(1) True nx by (simp add: reloads_def)
    moreover have "armed (call_back t (s\<lparr>tlists := h'\<rparr>)) T (E(t := T + period s t)) cs' os'"
      using I(2) armed_cong [of "call_back t (s\<lparr>tlists := h'\<rparr>)" "s\<lparr>tlists := h'\<rparr>"] by (simp add: call_back_def)
    moreover have "callbacks (call_back t (s\<lparr>tlists := h'\<rparr>)) = callbacks s @ [call_of s t]" "quiet s (call_back t (s\<lparr>tlists := h'\<rparr>))"
      by (simp_all add: call_back_def call_of_def quiet_def)
    ultimately show ?thesis using I(3,4) unfolding if_P [OF True] by blast
  qed
qed

text \<open>The times after those of \<open>T\<close> have been served, and the wait the task asks for.\<close>

definition next_time :: "tmr \<Rightarrow> nat \<Rightarrow> nat set \<Rightarrow> (nat \<Rightarrow> nat) \<Rightarrow> nat \<Rightarrow> nat" where
  "next_time s T A E t = (if t \<in> A \<and> E t = T \<and> reloads s t then T + period s t else E t)"

definition right_wait :: "u32 \<times> bool \<Rightarrow> nat \<Rightarrow> (nat \<Rightarrow> nat) \<Rightarrow> nat set \<Rightarrow> bool" where
  "right_wait w T E A \<longleftrightarrow> (if snd w then A = {} else 0 < unat (fst w) \<and> (\<forall>t \<in> A. T + unat (fst w) \<le> E t))"

definition blocked_at :: "tmr \<Rightarrow> nat \<Rightarrow> (nat \<Rightarrow> nat) \<Rightarrow> nat set \<Rightarrow> nat list \<Rightarrow> (u32 \<times> bool) \<times> tmr \<Rightarrow> bool" where
  "blocked_at s T E A due r \<longleftrightarrow> (\<exists>cs os. armed (snd r) T (next_time s T A E) cs os \<and>
     set cs \<union> set os = {t \<in> A. T < E t \<or> reloads s t} \<and>
     (\<forall>t \<in> set cs \<union> set os. T < next_time s T A E t) \<and> right_wait (fst r) T (next_time s T A E) (set cs \<union> set os) \<and>
     callbacks (snd r) = callbacks s @ map (call_of s) due \<and> quiet s (snd r))"

lemma block_wait:
  assumes A: "armed s T E cs os" and late: "\<forall>t \<in> set cs. T < E t"
  shows "right_wait (fst (prvGetNextExpireTime s) - of_nat T,
    if snd (prvGetNextExpireTime s) then listLIST_IS_EMPTY (tlists s) (pxOverflowTimerList s) else False) T E (set cs \<union> set os)"
proof -
  note D = armedD [OF A]
  have e: "listLIST_IS_EMPTY (tlists s) (pxCurrentTimerList s) \<longleftrightarrow> cs = []"
    "listLIST_IS_EMPTY (tlists s) (pxOverflowTimerList s) \<longleftrightarrow> os = []"
    using tlist_empty [OF D(2,8)] tlist_empty [OF D(3,9)] by simp_all
  have ov: "T < (T div 4294967296 + 1) * 4294967296 \<and> (T div 4294967296 + 1) * 4294967296 \<le> E u" if "u \<in> set os" for u
  proof -
    have "T = 4294967296 * (T div 4294967296) + T mod 4294967296" "E u = 4294967296 * (E u div 4294967296) + E u mod 4294967296"
      by simp_all
    moreover have "T mod 4294967296 < 4294967296" by simp
    ultimately show ?thesis using D(14) [OF that] by simp
  qed
  show ?thesis
  proof (cases cs)
    case (Cons t cs')
    have hd: "prvGetNextExpireTime s = (of_nat (E t), False)"
      using e Cons D(11) [of t] tlist_head(2) [of "tlists s" "pxCurrentTimerList s" t cs'] D(2)
      by (simp add: prvGetNextExpireTime_def tvalue_def)
    have lt: "T < E t" "E t < T + 4294967296" using late Cons D(12) [of t] by auto
    have diff: "(of_nat (E t) :: u32) - of_nat T = of_nat (E t - T)" using lt by (simp add: of_nat_diff)
    have w: "unat ((of_nat (E t) :: u32) - of_nat T) = E t - T"
      unfolding diff by (rule unat_of_nat_u32) (use lt in linarith)
    have "E t \<le> E u" if u: "u \<in> set cs \<union> set os" for u
    proof (cases "u \<in> set cs")
      case True
      then show ?thesis using armed_head [OF A [unfolded Cons], of u] Cons by auto
    next
      case False
      then have "u \<in> set os" using u by simp
      then have "E t div 4294967296 < E u div 4294967296" using D(13) [of t] D(14) [of u] Cons by simp
      then show ?thesis using div_le_mono [of "E u" "E t" 4294967296] by linarith
    qed
    then show ?thesis using lt by (simp add: right_wait_def hd w)
  next
    case Nil
    have hd: "prvGetNextExpireTime s = (0, True)" using e Nil by (simp add: prvGetNextExpireTime_def)
    show ?thesis
    proof (cases "os = []")
      case True
      then show ?thesis using Nil e by (simp add: right_wait_def hd)
    next
      case False
      then obtain u where u: "u \<in> set os" by (cases os) auto
      have m: "0 < T mod 4294967296"
      proof (rule ccontr)
        assume "\<not> 0 < T mod 4294967296"
        then have "T = 4294967296 * (T div 4294967296)" by (metis add_0_right div_mult_mod_eq mult.commute neq0_conv)
        then show False using ov [OF u] D(12) [of u] u by simp
      qed
      have "(of_nat (T mod 4294967296) :: u32) = of_nat T"
        by (rule unsigned_word_eqI) (simp add: unsigned_of_nat take_bit_eq_mod)
      then have "(0 - of_nat T :: u32) = of_nat (4294967296 - T mod 4294967296)" by (simp add: of_nat_diff)
      then have "unat (0 - of_nat T :: u32) = 4294967296 - T mod 4294967296"
        using unat_of_nat_u32 [of "4294967296 - T mod 4294967296"] m by simp
      moreover have "T + (4294967296 - T mod 4294967296) = (T div 4294967296 + 1) * 4294967296"
      proof -
        define q r where "q = T div 4294967296" and "r = T mod 4294967296"
        have "T = q * 4294967296 + r" "r < 4294967296" by (simp_all add: q_def r_def)
        then show ?thesis unfolding q_def [symmetric] r_def [symmetric] by simp
      qed
      ultimately show ?thesis using ov False Nil e by (simp add: right_wait_def hd)
    qed
  qed
qed

lemma ring_get_next:
  assumes A: "armed s T E (t # cs) os"
  shows "prvGetNextExpireTime s = (of_nat (E t), False)"
proof -
  note D = armedD [OF A]
  have "\<not> listLIST_IS_EMPTY (tlists s) (pxCurrentTimerList s)" using tlist_empty [OF D(2,8)] by simp
  then show ?thesis
    using D(11) [of t] tlist_head(2) [OF D(2)] by (simp add: prvGetNextExpireTime_def tvalue_def)
qed

text \<open>A turn of the loop in which nothing is due.\<close>

lemma turn_blocks:
  assumes A: "armed s T E cs os" and late: "\<forall>t \<in> set cs. T < E t"
    and tick: "tmr_tick s = of_nat T" "drift s = []" and q: "xTimerQueue s = Some []"
  shows "\<exists>r. until_block s = Some r \<and> blocked_at s T E (set cs \<union> set os) [] r"
proof -
  note D = armedD [OF A]
  obtain s1 where S: "prvSampleTimeNow s = Some (of_nat T, False, s1)" "armed s1 T E cs os" "timer s1 = timer s"
    "xTimerQueue s1 = xTimerQueue s" "callbacks s1 = callbacks s" "tmr_tick s1 = tmr_tick s" "drift s1 = []"
    "freed s1 = freed s" "tlists s1 = tlists s"
    using sample_spec [OF A le_refl _ tick] D(12) by (auto split: if_splits)
  let ?g = "prvGetNextExpireTime s"
  have nd: "\<not> (\<not> snd ?g \<and> fst ?g \<le> of_nat T)"
  proof (cases cs)
    case Nil
    then show ?thesis using tlist_empty [OF D(2,8)] by (simp add: prvGetNextExpireTime_def)
  next
    case (Cons t cs')
    then have "T < E t" "E t div 4294967296 = T div 4294967296" using late D(13) [of t] by auto
    then have "\<not> (of_nat (E t) :: u32) \<le> of_nat T" using of_nat_same_turn(1) [of "E t" T] by simp
    then show ?thesis using ring_get_next [of s T E t cs' os] A Cons by simp
  qed
  define w where "w = (fst ?g - of_nat T, if snd ?g then listLIST_IS_EMPTY (tlists s1) (pxOverflowTimerList s1) else False)"
  have g1: "prvGetNextExpireTime s1 = ?g"
  proof (cases cs)
    case Nil
    then show ?thesis
      using tlist_empty [OF D(2,8)] tlist_empty [OF armedD(2,8) [OF S(2)]] by (simp add: prvGetNextExpireTime_def)
  next
    case (Cons t cs')
    show ?thesis using ring_get_next [OF A [unfolded Cons]] ring_get_next [OF S(2) [unfolded Cons]] by simp
  qed
  have "right_wait w T E (set cs \<union> set os)" using block_wait [OF S(2) late] by (simp add: g1 w_def)
  moreover have nt: "next_time s T (set cs \<union> set os) E = E"
  proof
    fix u
    have "E u \<noteq> T" if "u \<in> set os"
    proof
      assume "E u = T"
      then show False using D(14) [OF that] by simp
    qed
    then show "next_time s T (set cs \<union> set os) E u = E u" using late by (auto simp: next_time_def)
  qed
  moreover have "T < E u" if "u \<in> set cs \<union> set os" for u
  proof (cases "u \<in> set cs")
    case False
    then have "E u div 4294967296 = Suc (T div 4294967296)" "T \<le> E u" using that D(14) [of u] D(12) [of u] by auto
    then have "E u \<noteq> T" by auto
    then show ?thesis using \<open>T \<le> E u\<close> by simp
  qed (use late in simp)
  moreover have "{t \<in> set cs \<union> set os. T < E t \<or> reloads s t} = set cs \<union> set os" using calculation(3) by auto
  moreover have "quiet s s1" using S(3-8) tick by (simp add: quiet_def)
  moreover have "until_block s = Some (w, s1)"
  proof -
    obtain x e where g: "prvGetNextExpireTime s = (x, e)" by fastforce
    show ?thesis
      using nd q S(4) by (subst until_block.simps) (auto simp: g prvProcessTimerOrBlockTask_def S(1) w_def)
  qed
  ultimately show ?thesis using S(2,5) unfolding blocked_at_def by (intro exI [of _ "(w, s1)"]) auto
qed

text \<open>All turns: every timer that is due is served, in the order of the list.\<close>

lemma until_block_now:
  assumes "armed s T E cs os" and "tmr_tick s = of_nat T" "drift s = []" and "xTimerQueue s = Some []"
  shows "\<exists>r. until_block s = Some r \<and> blocked_at s T E (set cs \<union> set os) (filter (\<lambda>t. E t = T) cs) r"
  using assms
proof (induction "length (filter (\<lambda>t. E t = T) cs)" arbitrary: s E cs os)
  case 0
  then have "\<forall>t \<in> set cs. T < E t" using armedD(12) [OF 0(2)] by (fastforce simp: filter_empty_conv)
  from turn_blocks [OF 0(2) this 0(3-5)] 0(1) show ?case by simp
next
  case (Suc n)
  note D = armedD [OF Suc.prems(1)]
  obtain t cs0 where cs: "cs = t # cs0" using Suc.hyps(2) by (cases cs) auto
  have due: "E t = T"
  proof (rule ccontr)
    assume "E t \<noteq> T"
    then have "T < E t" using D(12) [of t] cs by fastforce
    then have "T < E u" if "u \<in> set cs" for u
      using armed_head [OF Suc.prems(1) [unfolded cs], of u] that cs by auto
    then have "filter (\<lambda>t. E t = T) cs = []" by (fastforce simp: filter_empty_conv)
    then show False using Suc.hyps(2) by simp
  qed
  obtain s1 where S: "prvSampleTimeNow s = Some (of_nat T, False, s1)" "armed s1 T E cs os" "timer s1 = timer s"
    "xTimerQueue s1 = xTimerQueue s" "callbacks s1 = callbacks s" "tmr_tick s1 = tmr_tick s" "drift s1 = []"
    "freed s1 = freed s"
    using sample_spec [OF Suc.prems(1) le_refl _ Suc.prems(2,3)] D(12) by (auto split: if_splits)
  have qs: "quiet s s1" using S Suc.prems(3) by (simp add: quiet_def)
  obtain s2 cs2 os2 where X: "prvProcessExpiredTimer (of_nat T) (of_nat T) s1 = Some s2"
    "armed s2 T (if reloads s1 t then E(t := T + period s1 t) else E) cs2 os2"
    "set cs2 \<union> set os2 = (if reloads s1 t then insert t (set cs0 \<union> set os) else set cs0 \<union> set os)"
    "\<forall>P. \<not> P t \<longrightarrow> filter P cs2 = filter P cs0 \<and> filter P os2 = filter P os"
    "callbacks s2 = callbacks s1 @ [call_of s1 t]" "quiet s1 s2"
    using expired_spec [OF S(2) [unfolded cs] due] by blast
  let ?E = "if reloads s t then E(t := T + period s t) else E"
  have same: "reloads s1 = reloads s" "period s1 = period s" "call_of s1 = call_of s"
    "reloads s2 = reloads s" "period s2 = period s" "call_of s2 = call_of s" "quiet s s2"
    using quiet_same [OF qs] quiet_same [OF X(6)] quiet_trans [OF qs X(6)] by simp_all
  have tn: "t \<notin> set cs0" "t \<notin> set os" using D(4,6) cs by auto
  have pos: "0 < period s t" using D(12) [of t] cs by simp
  have due2: "filter (\<lambda>u. ?E u = T) cs2 = filter (\<lambda>u. E u = T) cs0"
  proof (cases "reloads s t")
    case True
    then have "\<not> ?E t = T" using pos by simp
    then have "filter (\<lambda>u. ?E u = T) cs2 = filter (\<lambda>u. ?E u = T) cs0"
      using X(4) [rule_format, of "\<lambda>u. ?E u = T"] by blast
    also have "\<dots> = filter (\<lambda>u. E u = T) cs0" using tn by (intro filter_cong) auto
    finally show ?thesis .
  next
    case False
    then have "t \<notin> set cs2" using X(3) tn by (auto simp: same)
    then have "filter (\<lambda>u. E u = T) cs2 = filter (\<lambda>u. E u = T \<and> u \<noteq> t) cs2" by (intro filter_cong) auto
    also have "\<dots> = filter (\<lambda>u. E u = T \<and> u \<noteq> t) cs0"
      using X(4) [rule_format, of "\<lambda>u. E u = T \<and> u \<noteq> t"] by blast
    also have "\<dots> = filter (\<lambda>u. E u = T) cs0" using tn by (intro filter_cong) auto
    finally show ?thesis using False by simp
  qed
  have n: "n = length (filter (\<lambda>u. ?E u = T) cs2)" using Suc.hyps(2) due cs due2 by simp
  have A2: "armed s2 T ?E cs2 os2" using X(2) unfolding same(1,2) .
  have q2: "tmr_tick s2 = of_nat T" "drift s2 = []" "xTimerQueue s2 = Some []"
    using same(7) Suc.prems(2-4) by (simp_all add: quiet_def)
  obtain r where r: "until_block s2 = Some r"
    "blocked_at s2 T ?E (set cs2 \<union> set os2) (filter (\<lambda>u. ?E u = T) cs2) r"
    using Suc.hyps(1) [OF n A2 q2] by blast
  have A: "set cs2 \<union> set os2 = (if reloads s t then set cs \<union> set os else (set cs \<union> set os) - {t})"
    using X(3) cs tn by (auto simp: same)
  have nt: "next_time s2 T (set cs2 \<union> set os2) ?E = next_time s T (set cs \<union> set os) E"
    using due pos cs by (auto simp: next_time_def same A fun_eq_iff)
  have sets: "{u \<in> set cs2 \<union> set os2. T < ?E u \<or> reloads s2 u} = {u \<in> set cs \<union> set os. T < E u \<or> reloads s u}"
    using due cs unfolding A same by auto
  have calls: "callbacks s2 @ map (call_of s2) (filter (\<lambda>u. ?E u = T) cs2) =
      callbacks s @ map (call_of s) (filter (\<lambda>u. E u = T) cs)"
    using due cs X(5) S(5) by (simp add: due2 same)
  have "blocked_at s T E (set cs \<union> set os) (filter (\<lambda>t. E t = T) cs) r"
  proof -
    have "quiet s (snd r)" using r(2) quiet_trans [OF same(7)] unfolding blocked_at_def by blast
    with r(2) show ?thesis unfolding blocked_at_def nt sets calls by (elim exE conjE) (intro exI conjI; assumption)
  qed
  moreover have "until_block s = Some r"
    using ring_get_next [of s T E t cs0 os] Suc.prems(1) due cs
    by (subst until_block.simps)
      (simp add: prvProcessTimerOrBlockTask_def S(1) X(1) no_commands [OF q2(3)] r(1))
  ultimately show ?case by blast
qed

lemma blocked_quiet:
  assumes "quiet s0 s1" and "callbacks s1 = callbacks s0" and "blocked_at s1 T E A due r"
  shows "blocked_at s0 T E A due r"
proof -
  note Q = quiet_same [OF assms(1)]
  have nt: "next_time s1 = next_time s0" using Q by (simp add: next_time_def fun_eq_iff)
  have "quiet s0 (snd r)" using assms(3) quiet_trans [OF assms(1)] unfolding blocked_at_def by blast
  moreover have R: "reloads s1 = reloads s0" "call_of s1 = call_of s0" using Q by auto
  ultimately show ?thesis
    using assms(3) unfolding blocked_at_def nt assms(2) R by (elim exE conjE) (intro exI conjI; assumption)
qed

text \<open>From the last turn at \<open>T\<close> to a waking at \<open>T'\<close> at which no timer has been missed.\<close>

lemma until_block_spec:
  assumes A: "armed s T E cs os" and T: "T \<le> T'" "\<forall>t \<in> set cs \<union> set os. T' \<le> E t"
    and tick: "tmr_tick s = of_nat T'" "drift s = []" and q: "xTimerQueue s = Some []"
  shows "\<exists>r. until_block s = Some r \<and> blocked_at s T' E (set cs \<union> set os) (filter (\<lambda>t. E t = T') (cs @ os)) r"
proof -
  obtain sw s1 where S: "prvSampleTimeNow s = Some (of_nat T', sw, s1)"
    "armed s1 T' E (if sw then os else cs) (if sw then [] else os)" "sw \<longrightarrow> cs = []"
    "\<not> sw \<longrightarrow> s1 = s\<lparr>tmr_tick := of_nat T', drift := [], xLastTime := of_nat T'\<rparr>"
    "timer s1 = timer s" "xTimerQueue s1 = xTimerQueue s" "callbacks s1 = callbacks s" "tmr_tick s1 = tmr_tick s"
    "drift s1 = []" "freed s1 = freed s"
    using sample_spec [OF A T tick] by blast
  have q1: "tmr_tick s1 = of_nat T'" "drift s1 = []" "xTimerQueue s1 = Some []" using S tick q by simp_all
  from until_block_now [OF S(2) q1] obtain r where r: "until_block s1 = Some r"
    "blocked_at s1 T' E (set cs \<union> set os) (filter (\<lambda>t. E t = T') (if sw then os else cs)) r"
    using S(3) by (auto split: if_splits)
  have "quiet s s1" using S q1 tick by (simp add: quiet_def)
  note quiet1 = this
  have "filter (\<lambda>t. E t = T') os = []" if "\<not> sw"
    using armedD(14) [OF S(2)] that by (fastforce simp: filter_empty_conv)
  then have due: "filter (\<lambda>t. E t = T') (if sw then os else cs) = filter (\<lambda>t. E t = T') (cs @ os)" using S(3) by simp
  have B: "blocked_at s T' E (set cs \<union> set os) (filter (\<lambda>t. E t = T') (cs @ os)) r"
    using blocked_quiet [OF quiet1 S(7) r(2)] unfolding due .
  have "until_block s = until_block s1"
  proof (cases sw)
    case True
    then have "prvGetNextExpireTime s = (0, True)"
      using S(3) tlist_empty [OF armedD(2,8) [OF A]] by (simp add: prvGetNextExpireTime_def)
    then show ?thesis
      using True no_commands [OF q1(3)] by (subst until_block.simps) (simp add: prvProcessTimerOrBlockTask_def S(1))
  next
    case False
    have "prvSampleTimeNow s1 = Some (of_nat T', False, s1)"
      using S(4) False by (simp add: prvSampleTimeNow_def tmr_xTaskGetTickCount_def Let_def)
    moreover have "prvGetNextExpireTime s1 = prvGetNextExpireTime s" using S(4) False by (simp add: prvGetNextExpireTime_def Let_def)
    ultimately have "prvProcessTimerOrBlockTask x e s1 = prvProcessTimerOrBlockTask x e s" for x e
      using S(1) False by (simp add: prvProcessTimerOrBlockTask_def)
    with \<open>prvGetNextExpireTime s1 = prvGetNextExpireTime s\<close> show ?thesis
      by (subst (1 2) until_block.simps) simp
  qed
  then show ?thesis using r(1) B by auto
qed

text \<open>C25: The service task is exact. When it wakes, not later than the first timer is due, it calls back exactly
  the timers that are due at this tick, in the order in which they were armed for it, arms those that reload
  for one period later, drops the others, and goes to sleep again for no longer than until the next timer
  is due (or without a limit when none is armed). All of this also across the wrap of the tick counter,
  where the two lists change their roles.\<close>

theorem timers_on_time:
  assumes "armed s T E cs os" and "T \<le> T'" and "\<forall>t \<in> set cs \<union> set os. T' \<le> E t"
    and "tmr_tick s = of_nat T'" and "drift s = []" and "xTimerQueue s = Some []"
  shows "\<exists>w s' cs' os'. prvTimerTask_wake s = Some (w, s') \<and>
    callbacks s' = callbacks s @ map (call_of s) (filter (\<lambda>t. E t = T') (cs @ os)) \<and>
    armed s' T' (next_time s T' (set cs \<union> set os) E) cs' os' \<and>
    set cs' \<union> set os' = {t \<in> set cs \<union> set os. T' < E t \<or> reloads s t} \<and>
    right_wait w T' (next_time s T' (set cs \<union> set os) E) (set cs' \<union> set os')"
proof -
  obtain r where r: "until_block s = Some r"
    "blocked_at s T' E (set cs \<union> set os) (filter (\<lambda>t. E t = T') (cs @ os)) r"
    using until_block_spec [OF assms] by blast
  have "prvTimerTask_wake s = Some (fst r, snd r)" using r(1) no_commands [OF assms(6)] by (simp add: prvTimerTask_wake_def)
  then show ?thesis using r(2) unfolding blocked_at_def by (elim exE conjE) (intro exI conjI; assumption)
qed

section \<open>Starting a timer\<close>

lemma start_spec:
  assumes A: "armed s T E cs os" and q: "xTimerQueue s = Some [\<lparr>xMessageID = tmrCOMMAND_START, xMessageValue = of_nat Tc, pxTimer = t\<rparr>]"
    and T: "T \<le> T'" "\<forall>u \<in> set cs \<union> set os - {t}. T' \<le> E u"
    and tick: "tmr_tick s = of_nat T'" "drift s = []"
    and c: "Tc \<le> T'" "T' < Tc + period s t" and room: "length cs + length os + 1 < 4294967296"
  shows "\<exists>r due. prvTimerTask_wake s = Some r \<and> set due = {u \<in> set cs \<union> set os - {t}. E u = T'} \<and>
    blocked_at (s\<lparr>xTimerQueue := Some []\<rparr>) T' (E(t := Tc + period s t)) (insert t (set cs \<union> set os)) due r"
proof -
  let ?m = "\<lparr>xMessageID = tmrCOMMAND_START, xMessageValue = of_nat Tc, pxTimer = t\<rparr>"
  define s0 where "s0 = s\<lparr>xTimerQueue := Some []\<rparr>"
  have A0: "armed s0 T E cs os" using A armed_cong [of s0 s] by (simp add: s0_def)
  note D = armedD [OF A0]
  obtain h where R: "(if pvContainer (item (tlists s0) (Item t)) \<noteq> None then tmr_remove t s0 else Some s0) = Some (s0\<lparr>tlists := h\<rparr>)"
    "armed (s0\<lparr>tlists := h\<rparr>) T E (remove1 t cs) (remove1 t os)"
  proof (cases "t \<in> set cs \<union> set os")
    case True
    then show ?thesis using that remove_spec [OF A0 True] D(7) [of t] by auto
  next
    case False
    then have "remove1 t cs = cs" "remove1 t os = os" by (auto intro: remove1_idem)
    then show ?thesis using that [of "tlists s0"] A0 D(7) [of t] False by auto
  qed
  define s1 where "s1 = s0\<lparr>tlists := h\<rparr>"
  have sets: "set (remove1 t cs) = set cs - {t}" "set (remove1 t os) = set os - {t}" using D(4,5) by auto
  have T1: "\<forall>u \<in> set (remove1 t cs) \<union> set (remove1 t os). T' \<le> E u" using T(2) sets by auto
  have tick1: "tmr_tick s1 = of_nat T'" "drift s1 = []" using tick by (simp_all add: s1_def s0_def)
  obtain sw s2 cs2 os2 where S: "prvSampleTimeNow s1 = Some (of_nat T', sw, s2)" "armed s2 T' E cs2 os2"
    "timer s2 = timer s1" "xTimerQueue s2 = xTimerQueue s1" "callbacks s2 = callbacks s1" "tmr_tick s2 = tmr_tick s1"
    "drift s2 = []" "freed s2 = freed s1" "set cs2 \<union> set os2 = set (remove1 t cs) \<union> set (remove1 t os)"
    "length cs2 + length os2 \<le> length cs + length os"
  proof -
    obtain sw s2 where X: "prvSampleTimeNow s1 = Some (of_nat T', sw, s2)"
      "armed s2 T' E (if sw then remove1 t os else remove1 t cs) (if sw then [] else remove1 t os)" "sw \<longrightarrow> remove1 t cs = []"
      "timer s2 = timer s1" "xTimerQueue s2 = xTimerQueue s1" "callbacks s2 = callbacks s1" "tmr_tick s2 = tmr_tick s1"
      "drift s2 = []" "freed s2 = freed s1"
      using sample_spec [OF R(2) [folded s1_def] T(1) T1 tick1] by blast
    have "length (remove1 t cs) + length (remove1 t os) \<le> length cs + length os" by (simp add: add_mono length_remove1)
    then show thesis using that [OF X(1,2,4-9)] X(3) by (cases sw) auto
  qed
  have same: "period s2 = period s" "reloads s2 = reloads s0" "call_of s2 = call_of s0" "period s0 = period s"
    using S(3) by (auto simp: period_def reloads_def call_of_def s1_def s0_def fun_eq_iff)
  have t2: "t \<notin> set cs2 \<union> set os2" using S(9) sets by auto
  have room2: "length cs2 + length os2 + 1 < 4294967296" using S(10) room by linarith
  have c2: "T' < Tc + period s2 t" using c(2) same(1) by simp
  obtain h' cs3 os3 where I: "prvInsertTimerInActiveList t (of_nat (Tc + period s t)) (of_nat T') (of_nat Tc) s2 = Some (False, s2\<lparr>tlists := h'\<rparr>)"
    "armed (s2\<lparr>tlists := h'\<rparr>) T' (E(t := Tc + period s t)) cs3 os3" "set cs3 \<union> set os3 = insert t (set cs2 \<union> set os2)"
    using insert_spec [OF S(2) t2 room2 c(1) c2] unfolding same(1) by blast
  define s3 where "s3 = s2\<lparr>tlists := h'\<rparr>"
  have nx: "of_nat Tc + xTimerPeriodInTicks (timer s2 t) = (of_nat (Tc + period s t) :: u32)"
    using S(3) by (simp add: period_def s1_def s0_def)
  have pc: "process_command ?m s0 = Some s3"
    unfolding process_command_def Let_def DaemonTaskMessage_t.select_convs R(1)
    using S(1) I(1) nx by (simp add: s1_def s3_def)
  have q3: "xTimerQueue s3 = Some []" "tmr_tick s3 = of_nat T'" "drift s3 = []"
    using S tick by (simp_all add: s3_def s1_def s0_def)
  have "prvProcessReceivedCommands s = Some s3"
    using q pc no_commands [OF q3(1)] by (subst prvProcessReceivedCommands.simps) (simp add: s0_def)
  then have wake: "prvTimerTask_wake s = until_block s3" by (simp add: prvTimerTask_wake_def)
  have A3: "set cs3 \<union> set os3 = insert t (set cs \<union> set os)" using I(3) S(9) sets by auto
  have T3: "\<forall>u \<in> set cs3 \<union> set os3. T' \<le> (E(t := Tc + period s t)) u" using T(2) c(2) A3 by auto
  obtain r where r: "until_block s3 = Some r" "blocked_at s3 T' (E(t := Tc + period s t)) (set cs3 \<union> set os3)
      (filter (\<lambda>u. (E(t := Tc + period s t)) u = T') (cs3 @ os3)) r"
    using until_block_spec [OF I(2) [folded s3_def] le_refl T3 q3(2,3,1)] by blast
  have q03: "quiet s0 s3" "callbacks s3 = callbacks s0" using S tick1 by (simp_all add: quiet_def s3_def s1_def)
  have "blocked_at s0 T' (E(t := Tc + period s t)) (insert t (set cs \<union> set os))
      (filter (\<lambda>u. (E(t := Tc + period s t)) u = T') (cs3 @ os3)) r"
    using blocked_quiet [OF q03 r(2)] unfolding A3 .
  moreover have "set (filter (\<lambda>u. (E(t := Tc + period s t)) u = T') (cs3 @ os3)) = {u \<in> set cs \<union> set os - {t}. E u = T'}"
    using A3 c(2) by auto
  ultimately show ?thesis using r(1) unfolding wake s0_def by blast
qed

section \<open>A timer that reloads\<close>

text \<open>The task is woken \<open>k\<close> times, first at the time \<open>T\<close> and then whenever it has asked for; with the time
  for which it asks at the end, the times of the calls made.\<close>

lemma single_list: "distinct xs \<Longrightarrow> set xs = {t} \<Longrightarrow> xs = [t]"
proof -
  assume d: "distinct xs" and s: "set xs = {t}"
  have "length xs = Suc 0" using distinct_card [OF d] unfolding s by simp
  then obtain x where x: "xs = [x]" unfolding length_Suc_conv by blast
  show ?thesis using s unfolding x by simp
qed

fun wakes :: "nat \<Rightarrow> nat \<Rightarrow> tmr \<Rightarrow> (nat \<times> nat list \<times> tmr) option" where
  "wakes 0 T s = Some (T, [], s)"
| "wakes (Suc k) T s =
    Option.bind (prvTimerTask_wake (s\<lparr>tmr_tick := of_nat T\<rparr>)) (\<lambda>(w, s').
      map_option (\<lambda>(T', ts, u). (T', replicate (length (callbacks s') - length (callbacks s)) T @ ts, u))
        (wakes k (T + unat (fst w)) s'))"

lemma wakes_periodic:
  assumes "armed s T0 E cs os" and "set cs \<union> set os = {t}" and "reloads s t" and "T0 \<le> T" and "T \<le> E t"
    and "drift s = []" and "xTimerQueue s = Some []"
  shows "\<exists>T' n s'. wakes k T s = Some (T', map (\<lambda>i. E t + i * period s t) [0..<n], s') \<and> T + k \<le> T' \<and>
    T' \<le> E t + n * period s t \<and> (\<forall>i < n. E t + i * period s t < T')"
  using assms
proof (induction k arbitrary: s T0 E cs os T)
  case 0
  then show ?case by (auto intro!: exI [of _ 0])
next
  case (Suc k)
  let ?s = "s\<lparr>tmr_tick := of_nat T\<rparr>" and ?E = "next_time s T {t} E"
  have A: "armed ?s T0 E cs os" using Suc.prems(1) armed_cong [of ?s s] by simp
  have same: "next_time ?s = next_time s" "call_of ?s = call_of s" "reloads ?s = reloads s"
    by (auto simp: next_time_def call_of_def reloads_def period_def fun_eq_iff)
  have due: "\<forall>u \<in> set cs \<union> set os. T \<le> E u" using Suc.prems(2,5) by simp
  obtain r where r: "until_block ?s = Some r" "blocked_at ?s T E (set cs \<union> set os) (filter (\<lambda>u. E u = T) (cs @ os)) r"
    using until_block_spec [OF A Suc.prems(4) due] Suc.prems(6,7) by auto
  obtain w s' where rr: "r = (w, s')" by fastforce
  obtain cs' os' where B0: "armed (snd r) T (next_time ?s T (set cs \<union> set os) E) cs' os'"
    "set cs' \<union> set os' = {u \<in> set cs \<union> set os. T < E u \<or> reloads ?s u}"
    "\<forall>u \<in> set cs' \<union> set os'. T < next_time ?s T (set cs \<union> set os) E u"
    "right_wait (fst r) T (next_time ?s T (set cs \<union> set os) E) (set cs' \<union> set os')"
    "callbacks (snd r) = callbacks ?s @ map (call_of ?s) (filter (\<lambda>u. E u = T) (cs @ os))" "quiet ?s (snd r)"
    using r(2) unfolding blocked_at_def by blast
  have M: "set cs' \<union> set os' = {t}" using B0(2) Suc.prems(2,3) same by auto
  have B: "armed s' T ?E cs' os'" "set cs' \<union> set os' = {t}" "T < ?E t" "right_wait w T ?E {t}"
    "callbacks s' = callbacks s @ map (call_of s) (filter (\<lambda>u. E u = T) (cs @ os))" "quiet ?s s'"
    using B0(1,3-6) M unfolding Suc.prems(2) same rr by simp_all
  have wake: "prvTimerTask_wake ?s = Some (w, s')"
    using r(1) rr no_commands [of ?s] Suc.prems(7) by (simp add: prvTimerTask_wake_def)
  have w: "0 < unat (fst w)" "T + unat (fst w) \<le> ?E t" using B(4) by (auto simp: right_wait_def split: if_splits)
  have q: "reloads s' t" "drift s' = []" "xTimerQueue s' = Some []" "period s' = period s"
    using quiet_same [OF B(6)] B(6) Suc.prems(3,6,7) same by (simp_all add: quiet_def period_def fun_eq_iff)
  obtain T' n u where IH: "wakes k (T + unat (fst w)) s' = Some (T', map (\<lambda>i. ?E t + i * period s t) [0..<n], u)"
    "T + unat (fst w) + k \<le> T'" "T' \<le> ?E t + n * period s t" "\<forall>i < n. ?E t + i * period s t < T'"
    using Suc.IH [OF B(1,2) q(1) _ w(2) q(2,3)] q(4) by auto
  have members: "set (cs @ os) = {t}" "distinct (cs @ os)" using Suc.prems(1,2) by (simp_all add: armed_def)
  have "cs @ os = [t]" by (rule single_list [OF members(2,1)])
  then have calls: "length (callbacks s') - length (callbacks s) = (if E t = T then 1 else 0)"
    using B(5) by (cases "E t = T") simp_all
  show ?case
  proof (cases "E t = T")
    case True
    then have e: "?E t = E t + period s t" using Suc.prems(3) by (simp add: next_time_def)
    have "T # map (\<lambda>i. ?E t + i * period s t) [0..<n] = map (\<lambda>i. E t + i * period s t) [0..<Suc n]"
      using True by (simp add: e map_upt_Suc del: upt_Suc)
    moreover have "\<forall>i < Suc n. E t + i * period s t < T'"
    proof (intro allI impI)
      fix i assume "i < Suc n"
      then show "E t + i * period s t < T'" using IH(2,4) w(1) True by (cases i) (auto simp: e add.assoc)
    qed
    ultimately show ?thesis
      using wake IH calls True w(1) by (intro exI [of _ T'] exI [of _ "Suc n"] exI [of _ u]) (simp add: e)
  next
    case False
    then have e: "?E t = E t" by (simp add: next_time_def)
    show ?thesis using wake IH calls False w(1) unfolding e by (intro exI [of _ T'] exI [of _ n] exI [of _ u]) simp
  qed
qed

lemma start_alone:
  assumes "armed s T E [] []" and "xTimerQueue s = Some []" and "tmr_tick s = of_nat Tc" and "drift s = []"
    and "T \<le> T'" and "Tc \<le> T'" and "T' < Tc + period s t"
  shows "fst (xTimerStart t s) \<and> (\<exists>w s' cs os.
    prvTimerTask_wake ((snd (xTimerStart t s))\<lparr>tmr_tick := of_nat T'\<rparr>) = Some (w, s') \<and>
    armed s' T' (E(t := Tc + period s t)) cs os \<and> set cs \<union> set os = {t} \<and> 0 < unat (fst w) \<and>
    T' + unat (fst w) \<le> Tc + period s t \<and> callbacks s' = callbacks (snd (xTimerStart t s)) \<and>
    callbacks s' = callbacks s \<and> timer s' = timer s \<and> drift s' = [] \<and> xTimerQueue s' = Some [])"
proof -
  let ?m = "\<lparr>xMessageID = tmrCOMMAND_START, xMessageValue = of_nat Tc, pxTimer = t\<rparr>"
  define s1 where "s1 = s\<lparr>tmr_tick := of_nat Tc, drift := [], xTimerQueue := Some [?m]\<rparr>"
  have start: "xTimerStart t s = (True, s1)"
    using assms(2-4) by (simp add: xTimerStart_def tmr_xTaskGetTickCount_def xTimerGenericCommand_def
        configTIMER_QUEUE_LENGTH_def Let_def s1_def)
  define s2 where "s2 = s1\<lparr>tmr_tick := of_nat T'\<rparr>"
  have s2: "armed s2 T E [] []" "xTimerQueue s2 = Some [?m]" "tmr_tick s2 = of_nat T'" "drift s2 = []"
    "period s2 = period s"
    using assms(1) armed_cong [of s2 s] by (simp_all add: s2_def s1_def period_def fun_eq_iff)
  have other: "\<forall>u \<in> set [] \<union> set [] - {t}. T' \<le> E u" by simp
  have c2: "T' < Tc + period s2 t" using assms(7) s2(5) by simp
  have room: "length ([] :: nat list) + length ([] :: nat list) + 1 < 4294967296" by simp
  let ?s = "s2\<lparr>xTimerQueue := Some []\<rparr>" and ?E = "E(t := Tc + period s t)"
  obtain r where r: "prvTimerTask_wake s2 = Some r" "blocked_at ?s T' ?E {t} [] r"
    using start_spec [OF s2(1,2) assms(5) other s2(3,4) assms(6) c2 room] unfolding s2(5) by auto
  obtain w s3 where rr: "r = (w, s3)" by fastforce
  obtain cs os where B: "armed s3 T' (next_time ?s T' {t} ?E) cs os" "set cs \<union> set os = {u \<in> {t}. T' < ?E u \<or> reloads ?s u}"
    "right_wait w T' (next_time ?s T' {t} ?E) (set cs \<union> set os)" "callbacks s3 = callbacks ?s" "quiet ?s s3"
    using r(2) unfolding blocked_at_def rr fst_conv snd_conv by auto
  have nt: "next_time ?s T' {t} ?E = ?E" using assms(7) by (auto simp: next_time_def fun_eq_iff)
  have A: "set cs \<union> set os = {t}" using B(2) assms(7) by auto
  have w: "0 < unat (fst w)" "T' + unat (fst w) \<le> Tc + period s t"
    using B(3) unfolding nt A by (auto simp: right_wait_def split: if_splits)
  have q: "callbacks s3 = callbacks s1" "callbacks s3 = callbacks s" "timer s3 = timer s" "drift s3 = []" "xTimerQueue s3 = Some []"
    using B(4,5) by (simp_all add: quiet_def s2_def s1_def)
  show ?thesis
    unfolding start fst_conv snd_conv s2_def [symmetric]
    using r(1) B(1) A w q unfolding rr nt by blast
qed

text \<open>C24: A timer that reloads, started at the time \<open>Tc\<close> with the period \<open>p\<close> while no other timer is active,
  is called back exactly at \<open>Tc + p\<close>, \<open>Tc + 2 p\<close>, and so on, never in between, never late and none left out,
  however often the tick counter wraps: the service task takes the command before the first period is over
  and is then woken when it has asked for; at each waking at least one tick has passed.\<close>

theorem timer_periodic:
  assumes "armed s T E [] []" and "xTimerQueue s = Some []" and "tmr_tick s = of_nat Tc" and "drift s = []"
    and "reloads s t" and "T \<le> T'" and "Tc \<le> T'" and "T' < Tc + period s t"
  shows "\<exists>T'' n u. fst (xTimerStart t s) \<and>
    wakes (Suc k) T' (snd (xTimerStart t s)) = Some (T'', map (\<lambda>i. Tc + period s t + i * period s t) [0..<n], u) \<and>
    T' + k < T'' \<and> T'' \<le> Tc + period s t + n * period s t \<and> (\<forall>i < n. Tc + period s t + i * period s t < T'')"
proof -
  obtain w s3 cs os where S: "fst (xTimerStart t s)"
    "prvTimerTask_wake ((snd (xTimerStart t s))\<lparr>tmr_tick := of_nat T'\<rparr>) = Some (w, s3)"
    "armed s3 T' (E(t := Tc + period s t)) cs os" "set cs \<union> set os = {t}" "0 < unat (fst w)"
    "T' + unat (fst w) \<le> Tc + period s t" "callbacks s3 = callbacks (snd (xTimerStart t s))"
    "timer s3 = timer s" "drift s3 = []" "xTimerQueue s3 = Some []"
    using start_alone [OF assms(1-4,6-8)] by auto
  have q: "reloads s3 t" "period s3 t = period s t" using assms(5) S(8) by (simp_all add: reloads_def period_def)
  have le: "T' \<le> T' + unat (fst w)" "T' + unat (fst w) \<le> (E(t := Tc + period s t)) t" using S(6) by simp_all
  obtain T'' n u where W: "wakes k (T' + unat (fst w)) s3 = Some (T'', map (\<lambda>i. Tc + period s t + i * period s t) [0..<n], u)"
    "T' + unat (fst w) + k \<le> T''" "T'' \<le> Tc + period s t + n * period s t" "\<forall>i < n. Tc + period s t + i * period s t < T''"
    using wakes_periodic [OF S(3,4) q(1) le S(9,10), of k] unfolding q(2) by auto
  have "wakes (Suc k) T' (snd (xTimerStart t s)) = Some (T'', map (\<lambda>i. Tc + period s t + i * period s t) [0..<n], u)"
    using S(2,7) W(1) by simp
  then show ?thesis using S(1,5) W(2-4) by (intro exI [of _ T''] exI [of _ n] exI [of _ u]) simp
qed

section \<open>The timer of the program\<close>

definition no_timers :: tmr where
  "no_timers = \<lparr>tlists = \<lparr>item = (\<lambda>p. \<lparr>xItemValue = 0, pxNext = p, pxPrevious = p, pvOwner = 0, pvContainer = None\<rparr>),
     list_of = (\<lambda>_. \<lparr>uxNumberOfItems = 0, pxIndex = End 0\<rparr>)\<rparr>, pxCurrentTimerList = 0, pxOverflowTimerList = 0,
     timer = (\<lambda>_. \<lparr>pcTimerName = [], xTimerPeriodInTicks = 0, uxAutoReload = 0, pvTimerID = 0, pxCallbackFunction = 0\<rparr>),
     freed = {}, xTimerQueue = None, xLastTime = 0, tmr_tick = 0, drift = [], callbacks = []\<rparr>"

text \<open>As \<open>main.c\<close> creates it: a period of 1000 ticks, reloading, with the identifier 1.\<close>

definition Swtmr1 :: "nat \<Rightarrow> tmr \<Rightarrow> tmr" where
  "Swtmr1 mem s = snd (xTimerCreate (Some mem) True ''AutoReloadTimer'' 1000 1 1 0 s)"

lemma Swtmr1_created:
  "armed (Swtmr1 7 no_timers) 0 E [] []" "xTimerQueue (Swtmr1 7 no_timers) = Some []" "drift (Swtmr1 7 no_timers) = []"
  "reloads (Swtmr1 7 no_timers) 7" "period (Swtmr1 7 no_timers) 7 = 1000"
proof -
  let ?h0 = "tlists no_timers"
  let ?s = "Swtmr1 7 no_timers"
  have f: "pxCurrentTimerList ?s = 1" "pxOverflowTimerList ?s = 2" "xLastTime ?s = 0"
    "tlists ?s = vListInitialiseItem 7 (vListInitialise 2 (vListInitialise 1 ?h0))"
    by (simp_all add: Swtmr1_def xTimerCreate_def prvInitialiseNewTimer_def prvCheckForValidListAndQueue_def no_timers_def Let_def)
  have "ring_rep (tlists ?s) 1 [End 1]" "ring_rep (tlists ?s) 2 [End 2]"
    unfolding f by (simp_all add: ring_rep_def circ_def vListInitialise_def vListInitialiseItem_def Let_def)
  then have "tlist (tlists ?s) 1 []" "tlist (tlists ?s) 2 []" unfolding tlist_def by force+
  moreover have "pvContainer (item (tlists ?s) (Item u)) = None" for u
    unfolding f by (simp add: vListInitialise_def vListInitialiseItem_def Let_def no_timers_def)
  ultimately show "armed ?s 0 E [] []" unfolding armed_def f(1-3) by simp
qed (simp_all add: Swtmr1_def xTimerCreate_def prvInitialiseNewTimer_def prvCheckForValidListAndQueue_def
    no_timers_def reloads_def period_def pdTRUE_def Let_def)

lemma timer_periodic_witness:
  "\<exists>T'' n u. wakes 10 4294966800 (snd (xTimerStart 7 ((Swtmr1 7 no_timers)\<lparr>tmr_tick := 4294966796\<rparr>))) =
    Some (T'', map (\<lambda>i. 4294967796 + i * 1000) [0..<n], u) \<and> T'' \<le> 4294967796 + n * 1000"
proof -
  let ?s = "(Swtmr1 7 no_timers)\<lparr>tmr_tick := 4294966796\<rparr>"
  have A: "armed ?s 0 E [] []" for E using Swtmr1_created(1) [of E] armed_cong [of ?s "Swtmr1 7 no_timers"] by simp
  have P: "xTimerQueue ?s = Some []" "tmr_tick ?s = of_nat 4294966796" "drift ?s = []" "reloads ?s 7"
    "(0 :: nat) \<le> 4294966800" "(4294966796 :: nat) \<le> 4294966800" "4294966800 < 4294966796 + period ?s 7"
    and p: "period ?s 7 = 1000"
    using Swtmr1_created(2-5) by (simp_all add: reloads_def period_def)
  have "Suc 9 = 10" "(4294966796 :: nat) + 1000 = 4294967796" by simp_all
  then show ?thesis using timer_periodic [OF A P, of 9] unfolding p by metis
qed

text \<open>Started at once, and taken by the service task.\<close>

definition started :: tmr where
  "started = snd (the (prvTimerTask_wake ((snd (xTimerStart 7 (Swtmr1 7 no_timers)))\<lparr>tmr_tick := 0\<rparr>)))"

lemma timers_on_time_witness:
  "\<exists>w s'. prvTimerTask_wake (started\<lparr>tmr_tick := 1000\<rparr>) = Some (w, s') \<and> callbacks s' = [(0, 7)] \<and> fst w \<noteq> 0"
proof -
  let ?s = "Swtmr1 7 no_timers" and ?E = "(\<lambda>_ :: nat. 0 :: nat)(7 := 1000)" and ?t = "started\<lparr>tmr_tick := 1000\<rparr>"
  have 0: "tmr_tick ?s = of_nat 0" "(0 :: nat) < 0 + period ?s 7" "callbacks ?s = []" "pxCallbackFunction (timer ?s 7) = 0"
    using Swtmr1_created(5) by (simp_all add: Swtmr1_def xTimerCreate_def prvInitialiseNewTimer_def
        prvCheckForValidListAndQueue_def no_timers_def Let_def)
  obtain cs os where S: "armed started 0 ?E cs os" "set cs \<union> set os = {7}" "callbacks started = []" "timer started = timer ?s"
    "drift started = []" "xTimerQueue started = Some []"
    using start_alone [OF Swtmr1_created(1) Swtmr1_created(2) 0(1) Swtmr1_created(3) le_refl le_refl 0(2), of "\<lambda>_. 0"]
    unfolding started_def by (auto simp: Swtmr1_created(5) 0(3))
  have P: "armed ?t 0 ?E cs os" "(0 :: nat) \<le> 1000" "\<forall>t \<in> set cs \<union> set os. 1000 \<le> ?E t"
    "tmr_tick ?t = of_nat 1000" "drift ?t = []" "xTimerQueue ?t = Some []"
    using S armed_cong [of ?t started] by simp_all
  have r: "reloads ?t 7" "call_of ?t 7 = (0, 7)" using S(4) 0(4) Swtmr1_created(4) by (simp_all add: reloads_def call_of_def)
  have "cs @ os = [7]" using S(1,2) by (intro single_list) (simp_all add: armed_def)
  then have due: "filter (\<lambda>t. ?E t = 1000) (cs @ os) = [7]" by simp
  obtain w s' cs' os' where W: "prvTimerTask_wake ?t = Some (w, s')"
    "callbacks s' = callbacks ?t @ map (call_of ?t) (filter (\<lambda>t. ?E t = 1000) (cs @ os))"
    "set cs' \<union> set os' = {t \<in> set cs \<union> set os. 1000 < ?E t \<or> reloads ?t t}"
    "right_wait w 1000 (next_time ?t 1000 (set cs \<union> set os) ?E) (set cs' \<union> set os')"
    using timers_on_time [OF P] by blast
  have "7 \<in> set cs' \<union> set os'" using W(3) r(1) S(2) by auto
  then have "fst w \<noteq> 0" using W(4) by (auto simp: right_wait_def split: if_splits)
  then show ?thesis using W(1,2) S(3) r(2) unfolding due by simp
qed

end
