(* ===== verification/Spec2Isabelle.thy ===== *)
theory Spec2Isabelle
  imports IpConfig Client LwipDef RtosHeap SysArch EthPool Chksum IpAddr Clock Timers
begin

text \<open>
  Verification library of the Ethernet IO module: firmware for an STM32F407 that connects to a
  server over TCP, reports its two digital inputs and switches three LEDs on command. File names are
  relative to src/.

  The program. \<open>main\<close> (User/main.c) sets up the clocks, the pins, the Ethernet interface
  and LwIP, and starts three tasks of FreeRTOS. The storage task (User/i2c/bsp_i2c_ee.c) keeps the
  address of the server, which arrives as text on a serial port, in an EEPROM. The sending task
  (\<open>client\<close> in User/client.c) connects to the server and waits for notifications, which an edge
  on an input (User/input), a software timer every second and the receiving task (\<open>clientrecv\<close>)
  give it; for each wake-up it reads the inputs and writes one line of text. LwIP
  runs on the kernel through User/arch/sys_arch.c and on the Ethernet DMA through
  User/arch/ethernetif.c.

  The theories, from the ground up. Each opens with what it models and how.

  Prelude has the machine integers and the byte memory, HalDef and LwipErr the status codes, CLib the
  functions of the C library on text (an access outside a buffer is undefined and gives \<open>None\<close>).

  Kernel (FreeRTOS):
  RtosList: list.c and list.h on pointer level, refined to rings; \<open>vListInsert\<close> is a stable sorted insertion.
  RtosTasks: tasks.c, one definition per function, on a record with the fields of its static variables. A task is
  the number of its handle. RtosSched: the scheduler invariant and that every operation keeps it.
  RtosKernel: the scheduler as a step relation (\<open>kstep\<close>, one step for each critical section, interrupt service or
  context switch, in any order) and the states \<open>reachable\<close> by it together with the set of the tasks created and
  not deleted; no task is ever lost, the tasks of highest priority run, delays end on their tick.
  Blocks is the abstract heap, a list of blocks; RtosHeap: heap_4.c refines it.
  RtosQueue: queue.c; a call that may block is a machine of its program points, run against a list of what the rest of the
  system does before each of its steps. RtosQueueSpec: the ring buffer refines a bounded list; the
  locale \<open>bounded_fifo\<close> is what clients of a queue rely on, interpreted on the calls of tasks, of interrupts and on mailboxes.
  RtosQueueSync: who is woken, lock counts, priority inheritance. Timers: timers.c, the service
  task cut where it blocks.

  Network (LwIP):
  LwipDef, IpAddr, Chksum: def.c, ip4_addr.c, inet_chksum.c, against arithmetic and RFC 1071.
  LwipMem, LwipMemSpec: mem.c on its block headers, refined to Blocks. Memp: memp.c; the locale \<open>struct_pool\<close> is
  what its users rely on. Pbuf: pbuf.c on a map of the allocated structs, the byte memory, the heap
  and the pools. PbufSpec: chains and packets, and the operations on their bytes. PbufChain: releasing, joining, splitting,
  shortening. PbufPool: packets from the pool of buffers. SysArch: sys_arch.c; mailboxes are bounded queues of exactly their size, waits without
  time-out never give up.

  Drivers and application:
  Clock: the clock set-up of stm32f4xx_hal_rcc.c, stm32f4xx_hal.c, system_stm32f4xx.c, board.c, and its polling loops.
  Gpio, InputExti: pins, LEDs, external interrupts from the edge to the notification.
  EthDma, EthFrame: descriptor rings, link output and input. EthFrameSpec: what they do to the rings; the
  locale \<open>packet_source\<close> is what the input needs of the packet buffers. EthPool interprets it on the model of pbuf.c and states what
  the input task does with the waiting frames, failed allocations and refused packets included.
  Eeprom: the EEPROM routines over a device that is a parameter (locale \<open>page_memory\<close>, interpreted on a
  memory that rolls over inside its pages). IpConfig: parsing, storing and reading the configuration
  (\<open>text_memory\<close> extends \<open>page_memory\<close>). Client: the two network tasks; the sending task is a machine
  whose events are its calls with their results.

  Conventions. A \<open>w\<close>-bit integer of the code is a word of that width where wrap-around can matter. A
  NULL result is 0, an undefined access or a loop that does not end is \<open>None\<close>, and
  every theorem about such a function says that the result is \<open>Some\<close>. Loops whose end is a theorem are \<open>partial_function\<close>s
  (\<open>unblock_loop\<close>, \<open>drain_pending\<close>, the walks over chains and lists), the others recursive functions
  with a measure. There is no fuel. Where the code depends on what happens around it, the definitions take a list of
  functions on the state, one for each step at which it may happen (the hardware between two
  polls, other tasks between two steps of a blocking call, the DMA between two frames); such a run is
  \<open>None\<close> when the list ends first, and the theorems say how long a list is enough: the polling loops of the clock set-up
  end within 5112 ticks, \<open>HAL_Delay\<close> at most two ticks after its delay, the input task after one reading more than there are frames.

  What the properties (C1 to C40, each in the theory of its component) are about: round trips of
  texts and packets (C1, C13, C15, C33, C38, C39); invariants of all reachable states of the heaps and the scheduler (C5, C6,
  C22); refinement of queues, mailboxes, frames and lists to their abstract behaviour (C7, C8, C16, C26); what is
  notified, reported and commanded (C2 to C4, C29); time (C17, C23 to C25, C31, C32); memory that is handed out and given back
  (C10, C12, C19, C20, C36, C40); choice, arithmetic and errors in the others. Their side conditions are in their texts.

  Not modelled: the protocols of LwIP above the packet buffers and its API (the client takes the results of
  its calls as they come), the peripherals behind the I2C and UART drivers, the set-up of the MAC and the PHY, the assembly of the
  kernel port (the context switch is one step), the idle task and with it the freeing of tasks that deleted themselves,
  static allocation, queue sets and whatever else the configuration
  headers switch off. Printing has no effect in the models. The functions of an interface that lies outside, such as \<open>netif->input\<close>,
  are parameters, and what is required of them is a hypothesis of the theorem.
\<close>

end
